(* ===== verification/Prelude.thy ===== *)
theory Prelude
  imports Main "HOL-Library.Word" "HOL-Library.Monad_Syntax"
begin

text \<open>
  Shared notions of the development: machine-integer types, the success predicate
  \<open>ok\<close> with which fault-freedom is stated and proved, bounds-checked byte buffers,
  little-endian fields and byte sums.

  A C function that can fault (an access outside an object, a \<open>BUG_ON\<close>, a free of
  something not live) is a HOL function into \<open>option\<close>: \<open>None\<close> is the fault and
  \<open>Some (r, s)\<close> is a normal return with result \<open>r\<close> in state \<open>s\<close>. Functions are
  composed with the option monad's \<open>do\<close> notation, the state passed explicitly.
\<close>

section \<open>Machine integers\<close>

type_synonym byte = "8 word"
type_synonym u8 = "8 word"
type_synonym u16 = "16 word"
type_synonym u32 = "32 word"
type_synonym u64 = "64 word"

section \<open>Fault-freedom\<close>

named_theorems ok_simps \<open>rules that push the success predicate through a function body\<close>

definition ok :: "'a option \<Rightarrow> ('a \<Rightarrow> bool) \<Rightarrow> bool" where
  "ok m Q = (case m of None \<Rightarrow> False | Some r \<Rightarrow> Q r)"

lemma ok_Some [simp, ok_simps]: "ok (Some r) Q = Q r"
  by (simp add: ok_def)

lemma ok_None [simp, ok_simps]: "\<not> ok None Q"
  by (simp add: ok_def)

lemma ok_bind [ok_simps]: "ok (Option.bind m f) Q = ok m (\<lambda>r. ok (f r) Q)"
  by (cases m) simp_all

lemma ok_if [ok_simps]: "ok (if b then m else n) Q = (if b then ok m Q else ok n Q)"
  by simp

lemma ok_let [ok_simps]: "ok (let x = e in f x) Q = (let x = e in ok (f x) Q)"
  by (simp add: Let_def)

lemma ok_case_prod [ok_simps]:
  "ok (case p of (a, b) \<Rightarrow> f a b) Q = (case p of (a, b) \<Rightarrow> ok (f a b) Q)"
  by (simp split: prod.splits)

lemma ok_case_option [ok_simps]:
  "ok (case x of None \<Rightarrow> m | Some y \<Rightarrow> f y) Q =
   (case x of None \<Rightarrow> ok m Q | Some y \<Rightarrow> ok (f y) Q)"
  by (simp split: option.splits)

lemma ok_case_sum [ok_simps]:
  "ok (case x of Inl a \<Rightarrow> f a | Inr b \<Rightarrow> g b) Q =
   (case x of Inl a \<Rightarrow> ok (f a) Q | Inr b \<Rightarrow> ok (g b) Q)"
  by (simp split: sum.splits)

lemma okI: "m = Some r \<Longrightarrow> Q r \<Longrightarrow> ok m Q"
  by simp

lemma okE: "ok m Q \<Longrightarrow> (\<And>r. m = Some r \<Longrightarrow> Q r \<Longrightarrow> P) \<Longrightarrow> P"
  by (cases m) simp_all

lemma ok_mono: "ok m Q \<Longrightarrow> (\<And>r. m = Some r \<Longrightarrow> Q r \<Longrightarrow> R r) \<Longrightarrow> ok m R"
  by (cases m) simp_all

lemma ok_bindI: "ok m P \<Longrightarrow> (\<And>r. P r \<Longrightarrow> ok (f r) Q) \<Longrightarrow> ok (Option.bind m f) Q"
  by (cases m) simp_all

lemma ok_conj: "ok m P \<Longrightarrow> ok m Q \<Longrightarrow> ok m (\<lambda>r. P r \<and> Q r)"
  by (cases m) simp_all

lemma ok_iff: "ok m Q \<longleftrightarrow> (\<exists>r. m = Some r \<and> Q r)"
  by (cases m) simp_all

section \<open>Bounds-checked buffers\<close>

text \<open>
  A C object is the list of its bytes. Reading or writing outside it is a fault, so the
  accessors below are partial; \<open>buf_read b o n\<close> is \<open>memcpy\<close> out of the object,
  \<open>buf_write b o xs\<close> is \<open>memcpy\<close> into it.
\<close>

definition buf_read :: "'a list \<Rightarrow> nat \<Rightarrow> nat \<Rightarrow> 'a list option" where
  "buf_read b off n = (if off + n \<le> length b then Some (take n (drop off b)) else None)"

definition buf_write :: "'a list \<Rightarrow> nat \<Rightarrow> 'a list \<Rightarrow> 'a list option" where
  "buf_write b off xs =
     (if off + length xs \<le> length b
      then Some (take off b @ xs @ drop (off + length xs) b) else None)"

definition buf_get :: "'a list \<Rightarrow> nat \<Rightarrow> 'a option" where
  "buf_get b i = (if i < length b then Some (b ! i) else None)"

definition buf_set :: "'a list \<Rightarrow> nat \<Rightarrow> 'a \<Rightarrow> 'a list option" where
  "buf_set b i x = (if i < length b then Some (b[i := x]) else None)"

lemma buf_read_Some_iff:
  "buf_read b off n = Some xs \<longleftrightarrow> off + n \<le> length b \<and> xs = take n (drop off b)"
  by (auto simp: buf_read_def)

lemma buf_write_Some_iff:
  "buf_write b off xs = Some c \<longleftrightarrow>
   off + length xs \<le> length b \<and> c = take off b @ xs @ drop (off + length xs) b"
  by (auto simp: buf_write_def)

lemma length_buf_write: "buf_write b off xs = Some c \<Longrightarrow> length c = length b"
  by (auto simp: buf_write_Some_iff)

lemma length_buf_read: "buf_read b off n = Some xs \<Longrightarrow> length xs = n"
  by (auto simp: buf_read_Some_iff)

lemma buf_read_write_same:
  "buf_write b off xs = Some c \<Longrightarrow> buf_read c off (length xs) = Some xs"
  by (auto simp: buf_write_Some_iff buf_read_Some_iff)

lemma ok_buf_read [ok_simps]:
  "ok (buf_read b off n) Q \<longleftrightarrow> off + n \<le> length b \<and> Q (take n (drop off b))"
  by (simp add: buf_read_def)

lemma ok_buf_write [ok_simps]:
  "ok (buf_write b off xs) Q \<longleftrightarrow>
   off + length xs \<le> length b \<and> Q (take off b @ xs @ drop (off + length xs) b)"
  by (simp add: buf_write_def)

lemma ok_buf_get [ok_simps]: "ok (buf_get b i) Q \<longleftrightarrow> i < length b \<and> Q (b ! i)"
  by (simp add: buf_get_def)

lemma ok_buf_set [ok_simps]: "ok (buf_set b i x) Q \<longleftrightarrow> i < length b \<and> Q (b[i := x])"
  by (simp add: buf_set_def)

section \<open>Byte sums\<close>

text \<open>The running checksum \<open>csum += b\<close> of an unsigned byte wraps modulo 256.\<close>

lemma sum_list_append_word: "sum_list (xs @ ys) = sum_list xs + sum_list (ys :: byte list)"
  by simp

lemma sum_list_update_word:
  "i < length xs \<Longrightarrow> sum_list (xs[i := x]) = sum_list xs - xs ! i + (x :: byte)"
proof (induction xs arbitrary: i)
  case Nil
  then show ?case by simp
next
  case (Cons y ys)
  show ?case
  proof (cases i)
    case 0
    then show ?thesis by simp
  next
    case (Suc j)
    with Cons.prems have "j < length ys" by simp
    then have "sum_list (ys[j := x]) = sum_list ys - ys ! j + x" by (rule Cons.IH)
    with Suc show ?thesis by (simp add: algebra_simps)
  qed
qed

section \<open>Lists of optional values\<close>

lemma length_those: "those xs = Some ys \<Longrightarrow> length ys = length xs"
  by (induction xs arbitrary: ys) (auto split: option.splits)

lemma those_map_Some: "(\<And>x. x \<in> set xs \<Longrightarrow> f x = Some (g x)) \<Longrightarrow> those (map f xs) = Some (map g xs)"
  by (induction xs) auto

lemma those_None: "those xs = None \<longleftrightarrow> None \<in> set xs"
  by (induction xs) (auto split: option.splits)

lemma those_append:
  "those (xs @ ys) = (case those xs of None \<Rightarrow> None | Some a \<Rightarrow>
     (case those ys of None \<Rightarrow> None | Some b \<Rightarrow> Some (a @ b)))"
  by (induction xs) (auto split: option.splits)

section \<open>Little-endian fields\<close>

text \<open>
  Reading a little-endian integer from a byte image, its image, and the store of bytes
  at an offset that leaves the size of the image as it is.
\<close>

definition le16_at :: "byte list \<Rightarrow> nat \<Rightarrow> u16" where
  "le16_at b i = ucast (b ! i) + 256 * ucast (b ! Suc i)"

definition le32_at :: "byte list \<Rightarrow> nat \<Rightarrow> u32" where
  "le32_at b i = ucast (b ! i) + 256 * (ucast (b ! Suc i) + 256 * (ucast (b ! (i + 2)) + 256 * ucast (b ! (i + 3))))"

definition le32_bytes :: "u32 \<Rightarrow> byte list" where
  "le32_bytes v = [ucast v, ucast (drop_bit 8 v), ucast (drop_bit 16 v), ucast (drop_bit 24 v)]"

definition put_at :: "nat \<Rightarrow> byte list \<Rightarrow> byte list \<Rightarrow> byte list" where
  "put_at off xs b = take (length b) (take off b @ xs @ drop (off + length xs) b)"

lemma length_put_at [simp]: "length (put_at off xs b) = length b"
  by (simp add: put_at_def)

section \<open>Sizes in words and bytes\<close>

lemma four_dwords_le: "4 * unat (drop_bit 2 (n :: 'a::len word)) \<le> unat n"
proof -
  have "unat (drop_bit 2 n) = unat n div 4"
    by (simp only: unat_drop_bit_eq) (simp add: drop_bit_eq_div)
  then show ?thesis by simp
qed

text \<open>A value read at its width stays below it, also after a cast to a wider word.\<close>

lemma unat_u16_less: "unat (x :: u16) < 2 ^ 16"
proof -
  have "unat x < 2 ^ LENGTH(16)" by (rule unsigned_less)
  then show ?thesis by simp
qed

lemma unat_ucast_u16 [simp]: "unat (ucast (x :: u16) :: u32) = unat x"
  using unat_u16_less [of x] by (simp add: unsigned_ucast_eq take_bit_nat_eq_self)

lemma unat_u8_less: "unat (x :: u8) < 2 ^ 8"
proof -
  have "unat x < 2 ^ LENGTH(8)" by (rule unsigned_less)
  then show ?thesis by simp
qed

lemma unat_ucast_u8 [simp]:
  "unat (ucast (x :: u8) :: u16) = unat x" "unat (ucast (x :: u8) :: u32) = unat x"
  using unat_u8_less [of x] by (simp_all add: unsigned_ucast_eq take_bit_nat_eq_self)

lemma unat_u32_less: "unat (x :: u32) < 2 ^ 32"
proof -
  have "unat x < 2 ^ LENGTH(32)" by (rule unsigned_less)
  then show ?thesis by simp
qed

lemma unat_of_nat_le: "unat (of_nat n :: 'a::len word) \<le> n"
  by (simp add: unat_of_nat take_bit_nat_less_eq_self)

section \<open>Buffers in parts\<close>

text \<open>Accesses to an object that is written as the concatenation of its fields.\<close>

lemma buf_write_exact [simp]:
  "off = length a \<Longrightarrow> length xs = length b \<Longrightarrow> buf_write (a @ b @ c) off xs = Some (a @ xs @ c)"
  by (simp add: buf_write_def)

lemma buf_read_exact [simp]:
  "off = length a \<Longrightarrow> n = length b \<Longrightarrow> buf_read (a @ b @ c) off n = Some b"
  by (simp add: buf_read_def)

lemma split_buf:
  assumes "n + k \<le> length xs"
  obtains a b c where "xs = a @ b @ c" and "length a = n" and "length b = k"
  using assms by (intro that [of "take n xs" "take k (drop n xs)" "drop (n + k) xs"])
    (simp_all add: add.commute flip: drop_drop)

lemma split_buf3:
  assumes "n + k + m \<le> length xs"
  obtains a b c d where "xs = a @ b @ c @ d" and "length a = n" and "length b = k" and "length c = m"
proof -
  have "n + k \<le> length xs" using assms by simp
  then obtain a b r where 1: "xs = a @ b @ r" "length a = n" "length b = k" by (rule split_buf)
  then have "0 + m \<le> length r" using assms by simp
  then obtain z c d where "r = z @ c @ d" "length z = 0" "length c = m" by (rule split_buf)
  with 1 show thesis by (intro that [of a b c d]) simp_all
qed

section \<open>Round trip of little-endian words\<close>

lemma ucast_u8_u32: "ucast (ucast (x :: u32) :: u8) = take_bit 8 x"
  by transfer (simp add: min_def)

lemma split_byte: "take_bit 8 x + 256 * drop_bit 8 x = (x :: u32)"
  using mod_mult_div_eq [of x 256] by (simp add: take_bit_eq_mod drop_bit_eq_div)

lemma top_byte: "take_bit 8 (drop_bit 24 x) = drop_bit 24 (x :: u32)"
  by (rule bit_word_eqI) (auto simp: bit_simps dest: bit_imp_le_length)

lemma le32_roundtrip: "le32_at (a @ le32_bytes v @ b) (length a) = v"
proof -
  have "le32_at (a @ le32_bytes v @ b) (length a) =
    take_bit 8 v + 256 * (take_bit 8 (drop_bit 8 v) +
      256 * (take_bit 8 (drop_bit 16 v) + 256 * take_bit 8 (drop_bit 24 v)))"
    by (simp add: le32_at_def le32_bytes_def nth_append ucast_u8_u32)
  also have "\<dots> = v"
    using split_byte [of v] split_byte [of "drop_bit 8 v"] split_byte [of "drop_bit 16 v"]
    by (simp add: top_byte)
  finally show ?thesis .
qed

lemma length_le32_bytes [simp]: "length (le32_bytes v) = 4"
  by (simp add: le32_bytes_def)

lemma unat_byte_sum:
  "unat y = n \<Longrightarrow> unat (x :: byte) + 256 * n < 2 ^ 32 \<Longrightarrow>
   unat (ucast x + 256 * (y :: u32)) = unat x + 256 * n"
  by (auto simp: unat_word_ariths)

lemma unat_le32_at:
  "unat (le32_at b i) = unat (b ! i) + 256 * (unat (b ! Suc i) + 256 * (unat (b ! (i + 2)) + 256 * unat (b ! (i + 3))))"
proof -
  have b: "unat (b ! i) < 256" "unat (b ! Suc i) < 256" "unat (b ! (i + 2)) < 256" "unat (b ! (i + 3)) < 256"
    using unat_u8_less by simp_all
  show ?thesis
    unfolding le32_at_def
    by (intro unat_byte_sum) (use b in simp_all)
qed

lemma unat_le16_at: "unat (le16_at b i) = unat (b ! i) + 256 * unat (b ! Suc i)"
  using unat_u8_less [of "b ! i"] unat_u8_less [of "b ! Suc i"]
  by (simp add: le16_at_def unat_word_ariths)

text \<open>The image of a 16-bit word, and both images read back.\<close>

definition le16_bytes :: "u16 \<Rightarrow> byte list" where
  "le16_bytes v = [ucast v, ucast (drop_bit 8 v)]"

lemma unat_drop_bit_div: "unat (drop_bit n (v :: 'a::len word)) = unat v div 2 ^ n"
  by (simp only: unat_drop_bit_eq) (simp only: drop_bit_eq_div)

lemma byte_of_word: "(ucast (v :: 'a::len word) :: byte) = x \<longleftrightarrow> unat v mod 256 = unat x"
  by (simp only: word_unat_eq_iff unsigned_ucast_eq) (simp add: take_bit_eq_mod)

lemma le32_bytes_at: "le32_bytes (le32_at b i) = [b ! i, b ! Suc i, b ! (i + 2), b ! (i + 3)]"
proof -
  have b: "unat (b ! i) < 256" "unat (b ! Suc i) < 256" "unat (b ! (i + 2)) < 256" "unat (b ! (i + 3)) < 256"
    using unat_u8_less by simp_all
  have two: "p div 256 div 256 = p div 65536" and three: "p div 256 div 256 div 256 = p div 16777216" for p :: nat
    by (simp_all add: div_mult2_eq [symmetric])
  have s: "(p + 256 * q) mod 256 = p" "(p + 256 * q) div 256 = q" if "p < 256" for p q :: nat
    using that by auto
  show ?thesis
    unfolding le32_bytes_def using b
    by (simp add: byte_of_word unat_drop_bit_div unat_le32_at s b two [symmetric] three [symmetric]
        del: distrib_left_numeral)
qed

lemma le16_bytes_at: "le16_bytes (le16_at b i) = [b ! i, b ! Suc i]"
  using unat_u8_less [of "b ! i"] unat_u8_less [of "b ! Suc i"]
  by (simp add: le16_bytes_def byte_of_word unat_drop_bit_div unat_le16_at)

lemma length_le16_bytes [simp]: "length (le16_bytes v) = 2"
  by (simp add: le16_bytes_def)

section \<open>Overwritten buffers\<close>

text \<open>\<open>overwrite k xs b\<close> is what \<open>buf_write b k xs\<close> leaves: \<open>b\<close> with \<open>xs\<close> at offset \<open>k\<close>.\<close>

definition overwrite :: "nat \<Rightarrow> 'a list \<Rightarrow> 'a list \<Rightarrow> 'a list" where
  "overwrite k xs b = take k b @ xs @ drop (k + length xs) b"

lemma buf_write_overwrite: "buf_write b k xs = (if k + length xs \<le> length b then Some (overwrite k xs b) else None)"
  by (simp add: buf_write_def overwrite_def)

lemma length_overwrite: "k + length xs \<le> length b \<Longrightarrow> length (overwrite k xs b) = length b"
  by (simp add: overwrite_def)

lemma nth_overwrite:
  assumes "k + length xs \<le> length b"
  shows "overwrite k xs b ! j = (if k \<le> j \<and> j < k + length xs then xs ! (j - k) else b ! j)"
proof -
  have "overwrite k xs b ! j = (if j < k then b ! j else if j < k + length xs then xs ! (j - k)
      else drop (k + length xs) b ! (j - k - length xs))"
    using assms by (auto simp: overwrite_def nth_append)
  moreover have "drop (k + length xs) b ! (j - k - length xs) = b ! j" if "k + length xs \<le> j"
    using that assms by simp
  ultimately show ?thesis by auto
qed

lemma slice_eqI:
  assumes "length b = length c" and "\<And>j. m \<le> j \<Longrightarrow> j < m + n \<Longrightarrow> b ! j = c ! j"
  shows "take n (drop m b) = take n (drop m c)"
  using assms by (intro nth_equalityI) auto

lemma slice_overwrite_other:
  assumes "k + length xs \<le> length b" and "m + n \<le> k \<or> k + length xs \<le> m"
  shows "take n (drop m (overwrite k xs b)) = take n (drop m b)"
  using assms by (intro slice_eqI) (auto simp: length_overwrite nth_overwrite)

lemma slice_overwrite_same:
  "k + length xs \<le> length b \<Longrightarrow> take (length xs) (drop k (overwrite k xs b)) = xs"
  by (simp add: overwrite_def)

end
