(* ===== verification/Kernel.thy ===== *)
theory Kernel
  imports Prelude "HOL-Library.Multiset"
begin

text \<open>
  The kernel services the drivers call: copies between kernel and user space, allocation
  and release of kernel memory, and the error numbers.

  User memory is shared with user threads that may rewrite it at any moment. The field
  \<open>umem\<close> therefore gives one snapshot of the user address space per access:
  \<open>umem w n\<close> is what the \<open>n\<close>-th user access of the run finds (\<open>None\<close> where nothing
  is mapped), and \<open>utime w\<close> counts the accesses made so far. A theorem that holds for
  every \<open>umem\<close> holds for every race between the driver and user space; two fetches
  from the same address may see different bytes, which is a double fetch.

  Allocation is an oracle too: \<open>kfail w n\<close> says whether the \<open>n\<close>-th allocation fails and
  \<open>kjunk w n\<close> what a fresh object that nobody cleared contains. \<open>klive\<close> lists the
  objects allocated and not yet released, so a leak is an entry that stays and a double
  free is a fault.
\<close>

section \<open>Error numbers\<close>

text \<open>The positive constants of the C library header \<open>errno.h\<close>, with the numbers of Linux.\<close>

abbreviation EPERM :: int where "EPERM \<equiv> 1"
abbreviation EIO :: int where "EIO \<equiv> 5"
abbreviation ENXIO :: int where "ENXIO \<equiv> 6"
abbreviation EBADF :: int where "EBADF \<equiv> 9"
abbreviation EAGAIN :: int where "EAGAIN \<equiv> 11"
abbreviation ENOMEM :: int where "ENOMEM \<equiv> 12"
abbreviation EACCES :: int where "EACCES \<equiv> 13"
abbreviation EFAULT :: int where "EFAULT \<equiv> 14"
abbreviation EBUSY :: int where "EBUSY \<equiv> 16"
abbreviation EEXIST :: int where "EEXIST \<equiv> 17"
abbreviation ENODEV :: int where "ENODEV \<equiv> 19"
abbreviation EINVAL :: int where "EINVAL \<equiv> 22"
abbreviation ENOTTY :: int where "ENOTTY \<equiv> 25"
abbreviation ENOSPC :: int where "ENOSPC \<equiv> 28"
abbreviation EBADMSG :: int where "EBADMSG \<equiv> 74"
abbreviation EOVERFLOW :: int where "EOVERFLOW \<equiv> 75"
abbreviation EMSGSIZE :: int where "EMSGSIZE \<equiv> 90"
abbreviation EPROTONOSUPPORT :: int where "EPROTONOSUPPORT \<equiv> 93"
abbreviation EOPNOTSUPP :: int where "EOPNOTSUPP \<equiv> 95"
abbreviation ETIMEDOUT :: int where "ETIMEDOUT \<equiv> 110"
abbreviation ECONNREFUSED :: int where "ECONNREFUSED \<equiv> 111"
abbreviation EINPROGRESS :: int where "EINPROGRESS \<equiv> 115"
abbreviation ERESTARTSYS :: int where "ERESTARTSYS \<equiv> 512"

section \<open>The kernel's view of the machine\<close>

record world =
  umem :: "nat \<Rightarrow> nat \<Rightarrow> byte option"
  utime :: nat
  uout :: "(nat \<times> byte list) list"
  kfail :: "nat \<Rightarrow> bool"
  kjunk :: "nat \<Rightarrow> nat \<Rightarrow> byte"
  knext :: nat
  klive :: "nat list"
  xcalls :: nat

text \<open>
  \<open>uout\<close> is the history of successful copies to user space, latest first, and
  \<open>xcalls\<close> counts calls of hardware or firmware, so that an oracle for a device may
  answer each call differently.
\<close>

definition ufetch :: "(nat \<Rightarrow> byte option) \<Rightarrow> nat \<Rightarrow> nat \<Rightarrow> byte list option" where
  "ufetch m p n = those (map (\<lambda>i. m (p + i)) [0..<n])"

definition copy_from_user :: "nat \<Rightarrow> nat \<Rightarrow> 'z world_scheme \<Rightarrow> byte list option \<times> 'z world_scheme" where
  "copy_from_user p n w = (ufetch (umem w (utime w)) p n, w\<lparr>utime := Suc (utime w)\<rparr>)"

definition copy_to_user :: "nat \<Rightarrow> byte list \<Rightarrow> 'z world_scheme \<Rightarrow> bool \<times> 'z world_scheme" where
  "copy_to_user p bs w =
     (if ufetch (umem w (utime w)) p (length bs) = None
      then (True, w\<lparr>utime := Suc (utime w)\<rparr>)
      else (False, w\<lparr>utime := Suc (utime w), uout := (p, bs) # uout w\<rparr>))"

definition kmalloc :: "nat \<Rightarrow> 'z world_scheme \<Rightarrow> (nat \<times> byte list) option \<times> 'z world_scheme" where
  "kmalloc n w =
     (let k = knext w in
      if kfail w k then (None, w\<lparr>knext := Suc k\<rparr>)
      else (Some (k, map (kjunk w k) [0..<n]), w\<lparr>knext := Suc k, klive := k # klive w\<rparr>))"

definition kzalloc :: "nat \<Rightarrow> 'z world_scheme \<Rightarrow> (nat \<times> byte list) option \<times> 'z world_scheme" where
  "kzalloc n w =
     (let k = knext w in
      if kfail w k then (None, w\<lparr>knext := Suc k\<rparr>)
      else (Some (k, replicate n 0), w\<lparr>knext := Suc k, klive := k # klive w\<rparr>))"

definition kfree :: "nat \<Rightarrow> 'z world_scheme \<Rightarrow> 'z world_scheme option" where
  "kfree k w = (if k \<in> set (klive w) then Some (w\<lparr>klive := remove1 k (klive w)\<rparr>) else None)"

definition umem_stable :: "'z world_scheme \<Rightarrow> bool" where
  "umem_stable w \<longleftrightarrow> (\<forall>t. umem w t = umem w 0)"

section \<open>Facts about the services\<close>

lemma length_ufetch: "ufetch m p n = Some bs \<Longrightarrow> length bs = n"
  unfolding ufetch_def by (drule length_those) simp

lemma ufetch_prefix:
  assumes "ufetch m p n = Some bs" and "k \<le> n"
  shows "ufetch m p k = Some (take k bs)"
proof -
  have split: "[0..<n] = [0..<k] @ [k..<n]"
    using assms(2) by (metis le0 upt_add_eq_append le_add_diff_inverse)
  obtain a b where "those (map (\<lambda>i. m (p + i)) [0..<k]) = Some a" and "bs = a @ b"
    using assms(1) unfolding ufetch_def split
    by (auto simp: those_append split: option.splits)
  moreover from this(1) have "length a = k" by (drule_tac length_those) simp
  ultimately show ?thesis by (simp add: ufetch_def)
qed

lemma ufetch_total: "ufetch (\<lambda>a. Some (f a)) p n = Some (map (\<lambda>i. f (p + i)) [0..<n])"
  unfolding ufetch_def by (rule those_map_Some) simp

lemma stable_umem: "umem_stable w \<Longrightarrow> umem w t = umem w t'"
  by (metis umem_stable_def)

lemma copy_from_user_fields [simp]:
  "klive (snd (copy_from_user p n w)) = klive w"
  "umem (snd (copy_from_user p n w)) = umem w"
  "uout (snd (copy_from_user p n w)) = uout w"
  "utime (snd (copy_from_user p n w)) = Suc (utime w)"
  by (simp_all add: copy_from_user_def)

lemma copy_to_user_fields [simp]:
  "klive (snd (copy_to_user p bs w)) = klive w"
  "umem (snd (copy_to_user p bs w)) = umem w"
  "utime (snd (copy_to_user p bs w)) = Suc (utime w)"
  by (simp_all add: copy_to_user_def)

lemma copy_from_userE:
  assumes "copy_from_user p n w = (r, w')"
  obtains "r = ufetch (umem w (utime w)) p n" and "w' = w\<lparr>utime := Suc (utime w)\<rparr>"
  using assms by (simp add: copy_from_user_def)

lemma ok_kfree [ok_simps]:
  "ok (kfree k w) Q \<longleftrightarrow> k \<in> set (klive w) \<and> Q (w\<lparr>klive := remove1 k (klive w)\<rparr>)"
  by (simp add: kfree_def)

text \<open>Releasing an object takes it out of the multiset of the live ones.\<close>

lemma kfree_mset:
  assumes "mset (klive w) = M + {#k#}"
  shows "ok (kfree k w) (\<lambda>w'. mset (klive w') = M \<and> w' = w\<lparr>klive := klive w'\<rparr>)"
proof -
  have "k \<in># mset (klive w)" unfolding assms by simp
  then have "k \<in> set (klive w)" by (simp only: in_multiset_in_set)
  then show ?thesis using assms by (simp add: ok_kfree)
qed

text \<open>
  \<open>copies_within P w w'\<close>: every copy to user space made between the two states went to
  an address and had a length that \<open>P\<close> allows.
\<close>

definition copies_within :: "(nat \<Rightarrow> nat \<Rightarrow> bool) \<Rightarrow> 'z world_scheme \<Rightarrow> 'z world_scheme \<Rightarrow> bool" where
  "copies_within P w w' \<longleftrightarrow>
     (\<exists>new. uout w' = new @ uout w \<and> (\<forall>(p, bs) \<in> set new. P p (length bs)))"


lemma copies_within_refl [simp]: "uout w' = uout w \<Longrightarrow> copies_within P w w'"
  by (simp add: copies_within_def)

end
