(* ===== verification/Fhandle.thy ===== *)
theory Fhandle
  imports Kernel
begin

text \<open>
  File handles: \<open>fs/fhandle.c\<close>, the code behind \<open>name_to_handle_at\<close> and
  \<open>open_by_handle_at\<close>, in the version of \<open>auto_fix/bug_files/fhandle.c\<close> and, for the
  function the patching tool rewrote, of \<open>auto_fix/patched_files/4-patched-fhandle.c\<close>.

  A file handle in memory is a header (\<open>struct file_handle\<close>) followed by
  \<open>handle_bytes\<close> bytes of file identifier. The state adds to the kernel's the file
  descriptor table and the reference counts of mounts and dentries.
\<close>

section \<open>State and environment\<close>

datatype fdent = FdFree | FdReserved | FdOpen nat

record fh_world = world +
  fds :: "int \<Rightarrow> fdent"
  mrefs :: "nat \<Rightarrow> int"
  drefs :: "nat \<Rightarrow> int"

record fpath =
  path_mnt :: nat
  path_dentry :: nat

text \<open>
  What the code takes from outside the file: the layout of the header (its size, how its
  two fields are read from and stored into its memory image), constants of the system
  call interface, and the functions of the export, namespace and open code. The
  \<open>export\<close> functions get and return exactly what crosses the call: \<open>encode_fh d n\<close> is
  called with room for \<open>n\<close> words and answers the type, the word count and the bytes it
  stored; \<open>decode_fh\<close> is given the \<open>n\<close> words of the identifier and the type.
\<close>

record fh_env =
  sizeof_fh :: nat
  get_hbytes :: "byte list \<Rightarrow> u32"
  get_htype :: "byte list \<Rightarrow> u32"
  put_hbytes :: "u32 \<Rightarrow> byte list \<Rightarrow> byte list"
  put_htype :: "u32 \<Rightarrow> byte list \<Rightarrow> byte list"
  max_handle_sz :: u32
  fileid_invalid :: int
  at_symlink_follow :: u32
  at_empty_path :: u32
  lookup_follow :: u32
  lookup_empty :: u32
  at_fdcwd :: int
  o_largefile :: u32
  large_default :: bool
  cap_dac_read_search :: bool
  can_export :: "nat \<Rightarrow> bool"
  encode_fh :: "nat \<Rightarrow> u32 \<Rightarrow> int \<times> u32 \<times> byte list"
  decode_fh :: "nat \<Rightarrow> byte list \<Rightarrow> u32 \<Rightarrow> int + nat"
  mnt_id_image :: "nat \<Rightarrow> byte list"
  user_path_at :: "int \<Rightarrow> nat \<Rightarrow> u32 \<Rightarrow> int + fpath"
  pwd_mnt :: nat
  fd_mount :: "int \<Rightarrow> nat option"
  unused_fd :: "(int \<Rightarrow> fdent) \<Rightarrow> u32 \<Rightarrow> int"
  open_root :: "nat \<Rightarrow> nat \<Rightarrow> u32 \<Rightarrow> int + nat"

text \<open>
  The documented facts of the environment that the proofs use: storing a field keeps the
  size of the image, the bytes an export operation stores fit the words it was given, an
  unused descriptor is free, and the size of a header and the identifier limit are small
  enough for \<open>size_t\<close> and \<open>int\<close> arithmetic not to wrap.
\<close>

definition fh_env_ok :: "fh_env \<Rightarrow> bool" where
  "fh_env_ok E \<longleftrightarrow>
     (\<forall>v b. length (put_hbytes E v b) = length b) \<and>
     (\<forall>v b. length (put_htype E v b) = length b) \<and>
     (\<forall>d n. length (snd (snd (encode_fh E d n))) \<le> 4 * unat n) \<and>
     (\<forall>t fl. unused_fd E t fl \<ge> 0 \<longrightarrow> t (unused_fd E t fl) = FdFree) \<and>
     (\<forall>m d fl e. open_root E m d fl = Inl e \<longrightarrow> e < 0) \<and>
     (\<forall>m b t e. decode_fh E m b t = Inl e \<longrightarrow> e < 0) \<and>
     (\<forall>t fl. unused_fd E t fl = 0 \<longrightarrow> t 0 = FdFree)"

section \<open>Reference counts\<close>

definition mntget :: "nat \<Rightarrow> 'z fh_world_scheme \<Rightarrow> 'z fh_world_scheme" where
  "mntget m w = w\<lparr>mrefs := (mrefs w)(m := mrefs w m + 1)\<rparr>"

definition mntput :: "nat \<Rightarrow> 'z fh_world_scheme \<Rightarrow> 'z fh_world_scheme" where
  "mntput m w = w\<lparr>mrefs := (mrefs w)(m := mrefs w m - 1)\<rparr>"

definition dget :: "nat \<Rightarrow> 'z fh_world_scheme \<Rightarrow> 'z fh_world_scheme" where
  "dget d w = w\<lparr>drefs := (drefs w)(d := drefs w d + 1)\<rparr>"

definition path_put :: "fpath \<Rightarrow> 'z fh_world_scheme \<Rightarrow> 'z fh_world_scheme" where
  "path_put p w = (let w = mntput (path_mnt p) w in
     w\<lparr>drefs := (drefs w)(path_dentry p := drefs w (path_dentry p) - 1)\<rparr>)"


section \<open>Encoding a path as a handle\<close>

text \<open>
  \<open>do_sys_name_to_handle\<close> reads the header from user space for the room the caller has,
  asks the file system for the identifier and copies header and identifier back. The
  room is an unsigned 32-bit field and the size the file system reports is computed as
  \<open>handle_dwords * sizeof(u32)\<close>, so both are kept as \<open>u32\<close> with its wrap-around.
\<close>

definition do_sys_name_to_handle ::
  "fh_env \<Rightarrow> fpath \<Rightarrow> nat \<Rightarrow> nat \<Rightarrow> 'z fh_world_scheme \<Rightarrow> (int \<times> 'z fh_world_scheme) option" where
  "do_sys_name_to_handle E path ufh mnt_id w =
     (if \<not> can_export E (path_dentry path) then Some (- EOPNOTSUPP, w)
      else case copy_from_user ufh (sizeof_fh E) w of
        (None, w) \<Rightarrow> Some (- EFAULT, w)
      | (Some f_handle, w) \<Rightarrow>
          let room = get_hbytes E f_handle in
          if room > max_handle_sz E then Some (- EINVAL, w)
          else (case kmalloc (sizeof_fh E + unat room) w of
            (None, w) \<Rightarrow> Some (- ENOMEM, w)
          | (Some (k, handle), w) \<Rightarrow>
              let handle_dwords = drop_bit 2 room;
                  (retval, handle_dwords, fid) = encode_fh E (path_dentry path) handle_dwords in
              do {
                handle \<leftarrow> buf_write handle (sizeof_fh E) fid;
                let header = put_htype E (word_of_int retval) (take (sizeof_fh E) handle);
                let handle_bytes = handle_dwords * 4;
                let header = put_hbytes E handle_bytes header;
                let handle = header @ drop (sizeof_fh E) handle;
                let (handle_bytes, retval) =
                  (if handle_bytes > room \<or> retval = fileid_invalid E \<or> retval = - ENOSPC
                   then (0, - EOVERFLOW) else (handle_bytes, 0));
                (retval, w) \<leftarrow> (case copy_to_user mnt_id (mnt_id_image E (path_mnt path)) w of
                    (True, w) \<Rightarrow> Some (- EFAULT, w)
                  | (False, w) \<Rightarrow> do {
                      out \<leftarrow> buf_read handle 0 (sizeof_fh E + unat handle_bytes);
                      let (failed, w) = copy_to_user ufh out w;
                      Some (if failed then - EFAULT else retval, w)
                    });
                w \<leftarrow> kfree k w;
                Some (retval, w)
              }))"

definition name_to_handle_at ::
  "fh_env \<Rightarrow> int \<Rightarrow> nat \<Rightarrow> nat \<Rightarrow> nat \<Rightarrow> u32 \<Rightarrow> 'z fh_world_scheme \<Rightarrow> (int \<times> 'z fh_world_scheme) option" where
  "name_to_handle_at E dfd name handle mnt_id flag w =
     (if and flag (not (or (at_symlink_follow E) (at_empty_path E))) \<noteq> 0 then Some (- EINVAL, w)
      else
        let lookup_flags = (if and flag (at_symlink_follow E) \<noteq> 0 then lookup_follow E else 0);
            lookup_flags = (if and flag (at_empty_path E) \<noteq> 0
                            then or lookup_flags (lookup_empty E) else lookup_flags) in
        (case user_path_at E dfd name lookup_flags of
           Inl err \<Rightarrow> Some (err, w)
         | Inr path \<Rightarrow> do {
             let w = dget (path_dentry path) (mntget (path_mnt path) w);
             (err, w) \<leftarrow> do_sys_name_to_handle E path handle mnt_id w;
             Some (err, path_put path w)
           }))"

section \<open>Opening a path by its handle\<close>

definition get_vfsmount_from_fd ::
  "fh_env \<Rightarrow> int \<Rightarrow> 'z fh_world_scheme \<Rightarrow> (int + nat) \<times> 'z fh_world_scheme" where
  "get_vfsmount_from_fd E fd w =
     (if fd = at_fdcwd E then (Inr (pwd_mnt E), mntget (pwd_mnt E) w)
      else (case fd_mount E fd of
              None \<Rightarrow> (Inl (- EBADF), w)
            | Some m \<Rightarrow> (Inr m, mntget m w)))"

definition do_handle_to_path ::
  "fh_env \<Rightarrow> int \<Rightarrow> byte list \<Rightarrow> 'z fh_world_scheme \<Rightarrow> (int \<times> fpath option \<times> 'z fh_world_scheme) option" where
  "do_handle_to_path E mountdirfd handle w =
     (case get_vfsmount_from_fd E mountdirfd w of
        (Inl e, w) \<Rightarrow> Some (e, None, w)
      | (Inr mnt, w) \<Rightarrow> do {
          let header = take (sizeof_fh E) handle;
          let handle_dwords = drop_bit 2 (get_hbytes E header);
          fid \<leftarrow> buf_read handle (sizeof_fh E) (4 * unat handle_dwords);
          (case decode_fh E mnt fid (get_htype E header) of
             Inl e \<Rightarrow> Some (e, None, mntput mnt w)
           | Inr d \<Rightarrow> Some (0, Some \<lparr>path_mnt = mnt, path_dentry = d\<rparr>, dget d w))
        })"

text \<open>The function as the corpus has it: the size is fetched and checked, then the whole handle is fetched again.\<close>

definition handle_to_path ::
  "fh_env \<Rightarrow> int \<Rightarrow> nat \<Rightarrow> 'z fh_world_scheme \<Rightarrow> (int \<times> fpath option \<times> 'z fh_world_scheme) option" where
  "handle_to_path E mountdirfd ufh w =
     (if \<not> cap_dac_read_search E then Some (- EPERM, None, w)
      else case copy_from_user ufh (sizeof_fh E) w of
        (None, w) \<Rightarrow> Some (- EFAULT, None, w)
      | (Some f_handle, w) \<Rightarrow>
          let size = get_hbytes E f_handle in
          if size > max_handle_sz E \<or> size = 0 then Some (- EINVAL, None, w)
          else (case kmalloc (sizeof_fh E + unat size) w of
            (None, w) \<Rightarrow> Some (- ENOMEM, None, w)
          | (Some (k, _), w) \<Rightarrow> do {
              (retval, path, w) \<leftarrow>
                (case copy_from_user ufh (sizeof_fh E + unat size) w of
                   (None, w) \<Rightarrow> Some (- EFAULT, None, w)
                 | (Some handle, w) \<Rightarrow> do_handle_to_path E mountdirfd handle w);
              w \<leftarrow> kfree k w;
              Some (retval, path, w)
            }))"

text \<open>The function as the patching tool left it: the two headers are compared after the second fetch.\<close>

definition handle_to_path_patched ::
  "fh_env \<Rightarrow> int \<Rightarrow> nat \<Rightarrow> 'z fh_world_scheme \<Rightarrow> (int \<times> fpath option \<times> 'z fh_world_scheme) option" where
  "handle_to_path_patched E mountdirfd ufh w =
     (if \<not> cap_dac_read_search E then Some (- EPERM, None, w)
      else case copy_from_user ufh (sizeof_fh E) w of
        (None, w) \<Rightarrow> Some (- EFAULT, None, w)
      | (Some f_handle, w) \<Rightarrow>
          let size = get_hbytes E f_handle in
          if size > max_handle_sz E \<or> size = 0 then Some (- EINVAL, None, w)
          else (case kmalloc (sizeof_fh E + unat size) w of
            (None, w) \<Rightarrow> Some (- ENOMEM, None, w)
          | (Some (k, _), w) \<Rightarrow> do {
              (retval, path, w) \<leftarrow>
                (case copy_from_user ufh (sizeof_fh E + unat size) w of
                   (None, w) \<Rightarrow> Some (- EFAULT, None, w)
                 | (Some handle, w) \<Rightarrow>
                     if f_handle \<noteq> take (sizeof_fh E) handle then Some (- EFAULT, None, w)
                     else do_handle_to_path E mountdirfd handle w);
              w \<leftarrow> kfree k w;
              Some (retval, path, w)
            }))"

text \<open>
  \<open>do_handle_open\<close> is written over the function that turns the handle into a path, since
  both versions of that function have the same callers.
\<close>

definition do_handle_open ::
  "fh_env \<Rightarrow> (int \<Rightarrow> nat \<Rightarrow> 'z fh_world_scheme \<Rightarrow> (int \<times> fpath option \<times> 'z fh_world_scheme) option) \<Rightarrow>
   int \<Rightarrow> nat \<Rightarrow> u32 \<Rightarrow> 'z fh_world_scheme \<Rightarrow> (int \<times> 'z fh_world_scheme) option" where
  "do_handle_open E to_path mountdirfd ufh open_flag w = do {
     (retval, path, w) \<leftarrow> to_path mountdirfd ufh w;
     (if retval \<noteq> 0 then Some (retval, w)
      else do {
        path \<leftarrow> path;
        let fd = unused_fd E (fds w) open_flag;
        (if fd < 0 then Some (fd, path_put path w)
         else do {
           let w = w\<lparr>fds := (fds w)(fd := FdReserved)\<rparr>;
           let (retval, w) =
             (case open_root E (path_mnt path) (path_dentry path) open_flag of
                Inl e \<Rightarrow> (e, w\<lparr>fds := (fds w)(fd := FdFree)\<rparr>)
              | Inr file \<Rightarrow> (fd, w\<lparr>fds := (fds w)(fd := FdOpen file)\<rparr>));
           Some (retval, path_put path w)
         })
      })
   }"

definition open_by_handle_at ::
  "fh_env \<Rightarrow> (int \<Rightarrow> nat \<Rightarrow> 'z fh_world_scheme \<Rightarrow> (int \<times> fpath option \<times> 'z fh_world_scheme) option) \<Rightarrow>
   int \<Rightarrow> nat \<Rightarrow> u32 \<Rightarrow> 'z fh_world_scheme \<Rightarrow> (int \<times> 'z fh_world_scheme) option" where
  "open_by_handle_at E to_path mountdirfd handle flags w =
     (let flags = (if large_default E then or flags (o_largefile E) else flags) in
      do_handle_open E to_path mountdirfd handle flags w)"

section \<open>Lemmas\<close>

lemma get_vfsmount_effect:
  "get_vfsmount_from_fd E fd w = (r, w') \<Longrightarrow>
   (case r of Inl e \<Rightarrow> e = - EBADF \<and> w' = w | Inr m \<Rightarrow> w' = mntget m w)"
  by (auto simp: get_vfsmount_from_fd_def split: if_splits option.splits)

lemma do_handle_to_path_ok:
  assumes "length handle = sizeof_fh E + unat (get_hbytes E (take (sizeof_fh E) handle))"
    and "fh_env_ok E"
  shows "ok (do_handle_to_path E fd handle w) (\<lambda>(r, path, w').
     (r = 0 \<longleftrightarrow> path \<noteq> None) \<and> r \<le> 0 \<and>
     w' = (case path of None \<Rightarrow> w
           | Some p \<Rightarrow> dget (path_dentry p) (mntget (path_mnt p) w)))"
proof -
  have neg: "decode_fh E m b t = Inl e \<Longrightarrow> e < 0" for m b t e
    using assms(2) by (auto simp: fh_env_ok_def)
  have undo: "mntput m (mntget m w) = w" for m and w :: "'z fh_world_scheme"
    by (simp add: mntget_def mntput_def)
  show ?thesis
    unfolding do_handle_to_path_def
    using assms(1)
    by (fastforce simp: ok_simps Let_def four_dwords_le undo dest!: get_vfsmount_effect neg
        split: prod.splits sum.splits)
qed

text \<open>
  The contract between the code that resolves a handle and the code that opens the
  result: a call that reports success hands over exactly one reference on the mount and
  on the dentry of the path, a call that fails keeps none, and neither leaves memory
  allocated or touches the descriptor table.
\<close>

definition resolved :: "'z fh_world_scheme \<Rightarrow> int \<times> fpath option \<times> 'z fh_world_scheme \<Rightarrow> bool" where
  "resolved w = (\<lambda>(r, path, w').
     (r = 0 \<longleftrightarrow> path \<noteq> None) \<and> r \<le> 0 \<and> klive w' = klive w \<and> fds w' = fds w \<and>
     (case path of None \<Rightarrow> mrefs w' = mrefs w \<and> drefs w' = drefs w
      | Some p \<Rightarrow> mrefs w' = (mrefs w)(path_mnt p := mrefs w (path_mnt p) + 1) \<and>
                  drefs w' = (drefs w)(path_dentry p := drefs w (path_dentry p) + 1)))"

locale handle_resolver =
  fixes E :: fh_env
    and to_path :: "int \<Rightarrow> nat \<Rightarrow> 'z fh_world_scheme \<Rightarrow> (int \<times> fpath option \<times> 'z fh_world_scheme) option"
  assumes resolves: "fh_env_ok E \<Longrightarrow> ok (to_path fd ufh w) (resolved w)"
begin

lemma do_handle_open_ok:
  assumes env: "fh_env_ok E"
  shows "ok (do_handle_open E to_path fd ufh fl w) (\<lambda>(r, w').
     klive w' = klive w \<and> mrefs w' = mrefs w \<and> drefs w' = drefs w \<and>
     (if r < 0 then fds w' = fds w
      else fds w r = FdFree \<and> (\<exists>file. fds w' = (fds w)(r := FdOpen file))))"
proof -
  obtain r p w1 where step: "to_path fd ufh w = Some (r, p, w1)" and post: "resolved w (r, p, w1)"
    using resolves [OF env, of fd ufh w] by (auto elim!: okE)
  have free: "unused_fd E t g \<ge> 0 \<Longrightarrow> t (unused_fd E t g) = FdFree" for t g
    using env by (auto simp: fh_env_ok_def)
  have opn: "open_root E m d g = Inl e \<Longrightarrow> e < 0" for m d g e
    using env by (auto simp: fh_env_ok_def)
  show ?thesis
    unfolding do_handle_open_def step
    using post free [of "fds w" fl]
    by (auto simp: ok_simps Let_def resolved_def path_put_def mntput_def fun_upd_idem
        dest: opn split: option.splits sum.splits)
qed

lemma open_by_handle_at_ok:
  "fh_env_ok E \<Longrightarrow> ok (open_by_handle_at E to_path fd ufh fl w) (\<lambda>(r, w').
     klive w' = klive w \<and> mrefs w' = mrefs w \<and> drefs w' = drefs w \<and>
     (if r < 0 then fds w' = fds w
      else fds w r = FdFree \<and> (\<exists>file. fds w' = (fds w)(r := FdOpen file))))"
  by (simp add: open_by_handle_at_def do_handle_open_ok)

end

lemma handle_to_path_patched_ok:
  assumes "fh_env_ok E"
  shows "ok (handle_to_path_patched E fd ufh w) (resolved w)"
proof -
  have hp: "ok (do_handle_to_path E fd handle w) Q"
    if "length handle = sizeof_fh E + unat (get_hbytes E (take (sizeof_fh E) handle))"
      and "\<And>r path w'. (r = 0 \<longleftrightarrow> path \<noteq> None) \<Longrightarrow> r \<le> 0 \<Longrightarrow>
        w' = (case path of None \<Rightarrow> w | Some p \<Rightarrow> dget (path_dentry p) (mntget (path_mnt p) w))
        \<Longrightarrow> Q (r, path, w')" for handle Q and w :: "'z fh_world_scheme"
    using do_handle_to_path_ok [OF that(1) assms, of fd w]
    by (rule ok_mono) (use that(2) in auto)
  show ?thesis
    unfolding handle_to_path_patched_def copy_from_user_def kmalloc_def
    by (auto simp: ok_simps Let_def resolved_def dget_def mntget_def dest: length_ufetch
        intro!: hp split: option.splits)
qed

interpretation patched_resolver: handle_resolver E "handle_to_path_patched E" for E
  by unfold_locales (rule handle_to_path_patched_ok)

lemma do_sys_name_to_handle_ok:
  assumes "fh_env_ok E"
  shows "ok (do_sys_name_to_handle E path ufh mnt_id w) (\<lambda>(r, w').
     r \<le> 0 \<and> klive w' = klive w \<and> mrefs w' = mrefs w \<and> drefs w' = drefs w \<and>
     copies_within (\<lambda>p n. p = mnt_id \<or> p = ufh \<and> n \<le> sizeof_fh E + unat (max_handle_sz E)) w w')"
proof -
  have lens: "length (put_hbytes E v b) = length b" "length (put_htype E v b) = length b" for v b
    using assms by (auto simp: fh_env_ok_def)
  have fit: "length fid \<le> unat room" if "encode_fh E d (drop_bit 2 room) = (t, n, fid)" for d room t n fid
  proof -
    have "length (snd (snd (encode_fh E d (drop_bit 2 room)))) \<le> 4 * unat (drop_bit 2 room)"
      using assms by (simp add: fh_env_ok_def)
    then have "length fid \<le> 4 * unat (drop_bit 2 room)"
      by (simp add: that)
    then show ?thesis
      using four_dwords_le [of room] by (rule order_trans)
  qed
  show ?thesis
    unfolding do_sys_name_to_handle_def copy_from_user_def kmalloc_def copy_to_user_def
    by (auto simp: ok_simps Let_def lens copies_within_def word_le_nat_alt not_less
        dest!: fit dest: length_ufetch split: option.splits prod.splits)
qed

section \<open>A little-endian instance and two runs\<close>

text \<open>
  The environment of a 64-bit little-endian machine, with which the properties are
  instantiated, and two initial states: one whose user memory never changes, one in
  which the user rewrites the size field of its header between the two fetches.
\<close>

definition fh_env_le :: fh_env where
  "fh_env_le = \<lparr>sizeof_fh = 8, get_hbytes = (\<lambda>b. le32_at b 0), get_htype = (\<lambda>b. le32_at b 4),
     put_hbytes = (\<lambda>v. put_at 0 (le32_bytes v)), put_htype = (\<lambda>v. put_at 4 (le32_bytes v)),
     max_handle_sz = 128, fileid_invalid = 255, at_symlink_follow = 0x400, at_empty_path = 0x1000,
     lookup_follow = 1, lookup_empty = 0x4000, at_fdcwd = - 100, o_largefile = 0x8000,
     large_default = True, cap_dac_read_search = True, can_export = (\<lambda>d. True),
     encode_fh = (\<lambda>d n. if n \<ge> 2 then (1, 2, [1, 2, 3, 4, 5, 6, 7, 8]) else (255, 2, [])),
     decode_fh = (\<lambda>m b t. if length b = 8 then Inr 7 else Inl (- 116)),
     mnt_id_image = (\<lambda>m. le32_bytes 21), user_path_at = (\<lambda>d n f. Inr \<lparr>path_mnt = 1, path_dentry = 7\<rparr>),
     pwd_mnt = 1, fd_mount = (\<lambda>f. None),
     unused_fd = (\<lambda>t f. if t 3 = FdFree then 3 else - 24),
     open_root = (\<lambda>m d f. Inr 42)\<rparr>"

lemma fh_env_le_ok: "fh_env_ok fh_env_le"
  by (auto simp: fh_env_ok_def fh_env_le_def word_le_nat_alt split: if_splits)

definition fh_racing :: fh_world where
  "fh_racing = \<lparr>umem = (\<lambda>t a. Some (if a = 4096 then (if t = 0 then 8 else 64) else 0)),
     utime = 0, uout = [], kfail = (\<lambda>n. False), kjunk = (\<lambda>n i. 0), knext = 0, klive = [], xcalls = 0,
     fds = (\<lambda>_. FdFree), mrefs = (\<lambda>_. 1), drefs = (\<lambda>_. 1)\<rparr>"

definition fh_quiet :: fh_world where
  "fh_quiet = fh_racing\<lparr>umem := (\<lambda>t a. Some (if a = 4096 then 8 else 0))\<rparr>"

section \<open>Properties\<close>

text \<open>
  C1: Opening a file by handle with the patched resolver never faults, whatever user
  space does to the handle between the fetches and whatever the file system answers: no
  byte outside the kernel's copy is read, the copy is released, every mount and dentry
  reference taken is dropped, and the descriptor table is as before unless the call
  succeeds, when exactly the returned descriptor, free before, is open.
\<close>

theorem open_by_handle_patched_safe:
  assumes "fh_env_ok E"
  shows "ok (open_by_handle_at E (handle_to_path_patched E) fd ufh fl w) (\<lambda>(r, w').
     klive w' = klive w \<and> mrefs w' = mrefs w \<and> drefs w' = drefs w \<and>
     (if r < 0 then fds w' = fds w
      else fds w r = FdFree \<and> (\<exists>file. fds w' = (fds w)(r := FdOpen file))))"
  using assms by (rule patched_resolver.open_by_handle_at_ok)

theorem open_by_handle_patched_safe_witness: "fh_env_ok fh_env_le \<and>
   ok (open_by_handle_at fh_env_le (handle_to_path_patched fh_env_le) (- 100) 4096 0 fh_quiet) (\<lambda>(r, w').
     klive w' = klive fh_quiet \<and> mrefs w' = mrefs fh_quiet \<and> drefs w' = drefs fh_quiet \<and>
     (if r < 0 then fds w' = fds fh_quiet
      else fds fh_quiet r = FdFree \<and> (\<exists>file. fds w' = (fds fh_quiet)(r := FdOpen file))))"
  using open_by_handle_patched_safe [OF fh_env_le_ok, of "- 100" 4096 0 fh_quiet] fh_env_le_ok by blast

text \<open>
  C2: The double fetch of the unpatched code: when the header fetched second announces
  at least one word more than the header that was checked, decoding the identifier reads
  past the end of the kernel's copy.
\<close>

theorem handle_to_path_race:
  assumes "cap_dac_read_search E" and "\<not> kfail w (knext w)"
    and "ufetch (umem w (utime w)) ufh (sizeof_fh E) = Some h"
    and "0 < get_hbytes E h" and "get_hbytes E h \<le> max_handle_sz E"
    and "ufetch (umem w (Suc (utime w))) ufh (sizeof_fh E + unat (get_hbytes E h)) = Some b"
    and "unat (get_hbytes E (take (sizeof_fh E) b)) \<ge> unat (get_hbytes E h) + 4"
    and "fd = at_fdcwd E \<or> fd_mount E fd \<noteq> None"
  shows "handle_to_path E fd ufh w = None"
proof -
  have big: "4 * unat (drop_bit 2 n) > unat m" if "unat n \<ge> unat m + 4" for n m :: u32
  proof -
    have "unat (drop_bit 2 n) = unat n div 4"
      by (simp only: unat_drop_bit_eq) (simp add: drop_bit_eq_div)
    with that show ?thesis by simp
  qed
  have "length b = sizeof_fh E + unat (get_hbytes E h)"
    using assms(6) by (rule length_ufetch)
  with assms big [OF assms(7)] show ?thesis
    by (auto simp: handle_to_path_def copy_from_user_def kmalloc_def Let_def
        do_handle_to_path_def get_vfsmount_from_fd_def buf_read_def not_le split: option.splits)
qed

theorem handle_to_path_race_witness: "handle_to_path fh_env_le (- 100) 4096 fh_racing = None"
  by (rule handle_to_path_race [where h = "[8, 0, 0, 0, 0, 0, 0, 0]" and b = "[64, 0, 0, 0, 0, 0, 0, 0, 0, 0, 0, 0, 0, 0, 0, 0]"])
    code_simp+

text \<open>
  The patch only removes races: as long as user space leaves its memory alone, the
  patched resolver returns the same result in the same state as the original one.
\<close>

theorem handle_to_path_patch_equiv:
  assumes "umem_stable w"
  shows "handle_to_path_patched E fd ufh w = handle_to_path E fd ufh w"
proof -
  have same: "umem w t = umem w 0" for t using assms by (simp add: umem_stable_def)
  have "h = take (sizeof_fh E) b"
    if "ufetch (umem w 0) ufh (sizeof_fh E) = Some h"
      and "ufetch (umem w 0) ufh (sizeof_fh E + n) = Some b" for h b n
    using ufetch_prefix [OF that(2), of "sizeof_fh E"] that(1) by simp
  then show ?thesis
    unfolding handle_to_path_patched_def handle_to_path_def copy_from_user_def kmalloc_def
    by (auto simp: Let_def same [of "utime w"] same [of "Suc (utime w)"] split: option.splits)
qed

theorem handle_to_path_patch_equiv_witness:
  "umem_stable fh_quiet \<and>
   handle_to_path_patched fh_env_le (- 100) 4096 fh_quiet = handle_to_path fh_env_le (- 100) 4096 fh_quiet"
proof -
  have s: "umem_stable fh_quiet" by (simp add: umem_stable_def fh_quiet_def)
  show ?thesis using s handle_to_path_patch_equiv [OF s, of fh_env_le "- 100" 4096] by simp
qed

text \<open>
  \<open>name_to_handle_at\<close> never faults and copies out nothing but the mount identifier
  and at most a header with the largest identifier, whatever size the file system
  reports (also one whose \<open>u32\<close> byte count wraps); it keeps no reference and no memory.
\<close>

theorem name_to_handle_bounded:
  assumes "fh_env_ok E"
  shows "ok (name_to_handle_at E dfd name ufh mnt_id flag w) (\<lambda>(r, w').
     klive w' = klive w \<and> mrefs w' = mrefs w \<and> drefs w' = drefs w \<and>
     copies_within (\<lambda>p n. p = mnt_id \<or> p = ufh \<and> n \<le> sizeof_fh E + unat (max_handle_sz E)) w w')"
proof -
  have body: "ok (do_sys_name_to_handle E path ufh mnt_id w1) (\<lambda>(r, w'). Q r (path_put path w'))"
    if "w1 = dget (path_dentry path) (mntget (path_mnt path) w)"
      and "\<And>r w'. klive w' = klive w \<Longrightarrow> mrefs w' = mrefs w \<Longrightarrow> drefs w' = drefs w \<Longrightarrow>
        copies_within (\<lambda>p n. p = mnt_id \<or> p = ufh \<and> n \<le> sizeof_fh E + unat (max_handle_sz E)) w w'
        \<Longrightarrow> Q r w'" for path w1 Q
    using do_sys_name_to_handle_ok [OF assms, of path ufh mnt_id w1]
    by (rule ok_mono)
      (auto simp: that(1) path_put_def mntput_def mntget_def dget_def copies_within_def intro!: that(2))
  show ?thesis
    unfolding name_to_handle_at_def
    by (auto simp: ok_simps Let_def split: sum.splits intro!: body)
qed

theorem name_to_handle_bounded_witness:
  "fh_env_ok fh_env_le \<and>
   ok (name_to_handle_at fh_env_le (- 100) 0 4096 8192 0 fh_quiet) (\<lambda>(r, w').
     klive w' = klive fh_quiet \<and> mrefs w' = mrefs fh_quiet \<and> drefs w' = drefs fh_quiet \<and>
     copies_within (\<lambda>p n. p = 8192 \<or> p = 4096 \<and> n \<le> sizeof_fh fh_env_le + unat (max_handle_sz fh_env_le))
       fh_quiet w')"
  using fh_env_le_ok name_to_handle_bounded [OF fh_env_le_ok, of "- 100" 0 4096 8192 0 fh_quiet] by blast

end
