(* ===== verification/CrosProto.thy ===== *)
theory CrosProto
  imports Kernel
begin

text \<open>
  The Chrome OS embedded controller protocol, \<open>cros_ec_proto.c\<close>: building request
  packets, sending a command and waiting for a slow one, negotiating the protocol version
  and the buffer sizes, and the entry point \<open>cros_ec_cmd_xfer\<close> the device driver calls.

  The two transfer functions of the bus driver are arguments (\<open>cmd_xfer\<close>, \<open>pkt_xfer\<close>),
  as they are function pointers in the code; \<open>CrosI2c\<close> provides them.
\<close>

section \<open>Data\<close>

text \<open>
  A command message (\<open>struct cros_ec_command\<close>): the header fields and the data area that
  was allocated behind them.
\<close>

record ec_msg =
  version :: u32
  command :: u32
  outsize :: u32
  insize :: u32
  result :: u32
  mdata :: "byte list"

text \<open>
  The device (\<open>struct cros_ec_device\<close>). \<open>din\<close> and \<open>dout\<close> are the transfer buffers,
  \<open>None\<close> once they are freed; \<open>dout_off\<close> is how far the code has advanced the pointer
  \<open>dout\<close> into its buffer; \<open>has_pkt_xfer\<close> says that the pointer \<open>pkt_xfer\<close> is not NULL.
\<close>

record ec_dev =
  max_request :: u16
  max_response :: u16
  max_passthru :: u16
  proto_version :: u16
  din :: "byte list option"
  dout :: "byte list option"
  dout_off :: nat
  din_size :: nat
  dout_size :: nat
  has_pkt_xfer :: bool
  ec_locked :: bool

type_synonym 'z ec_xfer =
  "ec_dev \<Rightarrow> ec_msg \<Rightarrow> 'z world_scheme \<Rightarrow> (int \<times> ec_dev \<times> ec_msg \<times> 'z world_scheme) option"

text \<open>
  What the code takes from the protocol's header files: command numbers, result codes,
  sizes, and the layouts of the structures that travel as bytes.
\<close>

record ec_env =
  sizeof_cmd :: nat
  dec_cmd :: "byte list \<Rightarrow> u32 \<times> u32 \<times> u32 \<times> u32 \<times> u32"
  enc_cmd :: "u32 \<times> u32 \<times> u32 \<times> u32 \<times> u32 \<Rightarrow> byte list"
  proto_version_unknown :: u16
  host_request_version :: u16
  sizeof_request :: nat
  request_image :: "u8 \<Rightarrow> u16 \<Rightarrow> u8 \<Rightarrow> u8 \<Rightarrow> u16 \<Rightarrow> byte list"
  checksum_off :: nat
  sizeof_response :: nat
  response_data_len :: "byte list \<Rightarrow> u16"
  cmd_version0 :: u32
  proto2_max_param_size :: u32
  msg_tx_header_bytes :: nat
  msg_tx_proto_bytes :: nat
  msg_bytes :: nat
  res_success :: u32
  res_in_progress :: u32
  res_invalid_command :: u32
  cmd_get_comms_status :: u32
  cmd_hello :: u32
  cmd_get_protocol_info :: u32
  cmd_passthru_offset :: "nat \<Rightarrow> u32"
  sizeof_comms_status :: nat
  comms_status_flags :: "byte list \<Rightarrow> u32"
  comms_status_processing :: u32
  sizeof_protocol_info :: nat
  info_max_request :: "byte list \<Rightarrow> u16"
  info_max_response :: "byte list \<Rightarrow> u16"
  info_versions :: "byte list \<Rightarrow> u32"
  sizeof_hello_params :: nat
  sizeof_hello_response :: nat
  hello_params_image :: "u32 \<Rightarrow> byte list"
  hello_out_data :: "byte list \<Rightarrow> u32"
  max_response_overhead :: nat
  max_request_overhead :: nat
  command_protocol_3 :: u8

text \<open>
  The facts of those headers the proofs use: structures have the size \<open>sizeof\<close> says, the
  checksum is one byte of the request header that \<open>request_image\<close> leaves zero, the
  overheads make room for the framing bytes of the I2C bus, a header decodes from its
  encoding, and success differs from a command that is still in progress or invalid.
\<close>

definition ec_env_ok :: "ec_env \<Rightarrow> bool" where
  "ec_env_ok E \<longleftrightarrow>
     (\<forall>h. length (enc_cmd E h) = sizeof_cmd E \<and> dec_cmd E (enc_cmd E h) = h) \<and>
     (\<forall>a b c d e. length (request_image E a b c d e) = sizeof_request E) \<and>
     checksum_off E < sizeof_request E \<and>
     (\<forall>a b c d e. request_image E a b c d e ! checksum_off E = 0) \<and>
     host_request_version E = 3 \<and> proto_version_unknown E = 0 \<and>
     res_success E \<noteq> res_in_progress E \<and> res_success E \<noteq> res_invalid_command E \<and>
     sizeof_request E = 8 \<and> sizeof_response E = 8 \<and>
     max_request_overhead E \<ge> 1 \<and> max_response_overhead E \<ge> 2 \<and>
     msg_tx_header_bytes E = 3 \<and> msg_tx_proto_bytes E = 4 \<and>
     (\<forall>v. length (hello_params_image E v) = sizeof_hello_params E) \<and>
     sizeof_protocol_info E < 2 ^ 16 \<and> sizeof_comms_status E < 2 ^ 16 \<and>
     sizeof_hello_params E < 2 ^ 16 \<and> sizeof_hello_response E < 2 ^ 16"

definition EC_COMMAND_RETRIES :: nat where
  "EC_COMMAND_RETRIES = 50"

section \<open>Building request packets\<close>

text \<open>
  Protocol version 3: header, data, and a checksum byte chosen so that all bytes of the
  packet sum to zero. Both \<open>BUG_ON\<close> checks are faults.
\<close>

definition prepare_packet :: "ec_env \<Rightarrow> ec_dev \<Rightarrow> ec_msg \<Rightarrow> (int \<times> ec_dev) option" where
  "prepare_packet E ec msg =
     (if proto_version ec \<noteq> host_request_version E then None
      else if unat (outsize msg) + sizeof_request E > dout_size ec then None
      else do {
        out \<leftarrow> dout ec;
        out \<leftarrow> buf_write out (dout_off ec)
          (request_image E (ucast (host_request_version E)) (ucast (command msg))
             (ucast (version msg)) 0 (ucast (outsize msg)));
        hdr \<leftarrow> buf_read out (dout_off ec) (sizeof_request E);
        let csum = sum_list hdr;
        data \<leftarrow> buf_read (mdata msg) 0 (unat (outsize msg));
        out \<leftarrow> buf_write out (dout_off ec + sizeof_request E) data;
        let csum = csum + sum_list data;
        out \<leftarrow> buf_set out (dout_off ec + checksum_off E) (- csum);
        Some (int (sizeof_request E) + int (unat (outsize msg)), ec\<lparr>dout := Some out\<rparr>)
      })"

text \<open>Protocol version 2: three header bytes, the data, and the sum of all of them.\<close>

definition cros_ec_prepare_tx :: "ec_env \<Rightarrow> ec_dev \<Rightarrow> ec_msg \<Rightarrow> (int \<times> ec_dev) option" where
  "cros_ec_prepare_tx E ec msg =
     (if proto_version ec > 2 then prepare_packet E ec msg
      else if outsize msg > proto2_max_param_size E then None
      else do {
        out \<leftarrow> dout ec;
        let hdr = [ucast (cmd_version0 E + version msg), ucast (command msg), ucast (outsize msg)];
        out \<leftarrow> buf_write out (dout_off ec) hdr;
        data \<leftarrow> buf_read (mdata msg) 0 (unat (outsize msg));
        let csum = sum_list hdr + sum_list data;
        out \<leftarrow> buf_write out (dout_off ec + msg_tx_header_bytes E) data;
        out \<leftarrow> buf_set out (dout_off ec + msg_tx_header_bytes E + unat (outsize msg)) csum;
        Some (int (msg_tx_proto_bytes E) + int (unat (outsize msg)), ec\<lparr>dout := Some out\<rparr>)
      })"

section \<open>Sending a command\<close>

definition msg_of_image :: "ec_env \<Rightarrow> byte list \<Rightarrow> ec_msg" where
  "msg_of_image E b =
     (let (v, c, os, is, r) = dec_cmd E (take (sizeof_cmd E) b) in
      \<lparr>version = v, command = c, outsize = os, insize = is, result = r, mdata = drop (sizeof_cmd E) b\<rparr>)"

definition image_of_msg :: "ec_env \<Rightarrow> ec_msg \<Rightarrow> byte list" where
  "image_of_msg E m = enc_cmd E (version m, command m, outsize m, insize m, result m) @ mdata m"

text \<open>The polling loop of \<open>send_command\<close>, over the number of attempts left.\<close>

primrec poll_status ::
  "ec_env \<Rightarrow> 'z ec_xfer \<Rightarrow> nat \<Rightarrow> int \<Rightarrow> ec_dev \<Rightarrow> ec_msg \<Rightarrow> ec_msg \<Rightarrow> 'z world_scheme \<Rightarrow>
   (int \<times> ec_dev \<times> ec_msg \<times> 'z world_scheme) option" where
  "poll_status E cmd_xfer 0 ret ec msg status_msg w = Some (ret, ec, msg, w)"
| "poll_status E cmd_xfer (Suc n) ret ec msg status_msg w = do {
     (ret, ec, status_msg, w) \<leftarrow> cmd_xfer ec status_msg w;
     (if ret < 0 then Some (ret, ec, msg, w)
      else
        let msg = msg\<lparr>result := result status_msg\<rparr> in
        if result status_msg \<noteq> res_success E then Some (ret, ec, msg, w)
        else do {
          status \<leftarrow> buf_read (mdata status_msg) 0 (sizeof_comms_status E);
          (if and (comms_status_flags E status) (comms_status_processing E) = 0
           then Some (ret, ec, msg, w)
           else poll_status E cmd_xfer n ret ec msg status_msg w)
        })
   }"

definition send_command ::
  "ec_env \<Rightarrow> 'z ec_xfer \<Rightarrow> 'z ec_xfer \<Rightarrow> 'z ec_xfer" where
  "send_command E cmd_xfer pkt_xfer ec msg w = do {
     (ret, ec, msg, w) \<leftarrow>
       (if proto_version ec > 2
        then (if has_pkt_xfer ec then pkt_xfer ec msg w else None)
        else cmd_xfer ec msg w);
     (if result msg \<noteq> res_in_progress E then Some (ret, ec, msg, w)
      else (case kmalloc (sizeof_cmd E + sizeof_comms_status E) w of
          (None, w) \<Rightarrow> Some (- ENOMEM, ec, msg, w)
        | (Some (k, junk), w) \<Rightarrow> do {
            let status_msg = (msg_of_image E junk)\<lparr>version := 0, command := cmd_get_comms_status E,
              insize := of_nat (sizeof_comms_status E), outsize := 0\<rparr>;
            (ret, ec, msg, w) \<leftarrow> poll_status E cmd_xfer EC_COMMAND_RETRIES ret ec msg status_msg w;
            w \<leftarrow> kfree k w;
            Some (ret, ec, msg, w)
          }))
   }"

definition cros_ec_check_result :: "ec_env \<Rightarrow> ec_msg \<Rightarrow> int" where
  "cros_ec_check_result E msg =
     (if result msg = res_success E then 0
      else if result msg = res_in_progress E then - EAGAIN
      else 0)"


section \<open>Negotiating the protocol\<close>

text \<open>The kernel's \<open>fls\<close>: the position, counted from 1, of the highest bit set; 0 for 0.\<close>

fun fls_nat :: "nat \<Rightarrow> nat" where
  "fls_nat n = (if n = 0 then 0 else Suc (fls_nat (n div 2)))"

declare fls_nat.simps [simp del]

text \<open>
  Device-managed buffers (\<open>devm_kzalloc\<close>) belong to the device, not to the caller, so they
  are not entries of \<open>klive\<close>.
\<close>

definition devm_kzalloc :: "nat \<Rightarrow> 'z world_scheme \<Rightarrow> byte list option \<times> 'z world_scheme" where
  "devm_kzalloc n w =
     (if kfail w (knext w) then (None, w\<lparr>knext := Suc (knext w)\<rparr>)
      else (Some (replicate n 0), w\<lparr>knext := Suc (knext w)\<rparr>))"

definition cros_ec_host_command_proto_query ::
  "ec_env \<Rightarrow> 'z ec_xfer \<Rightarrow> 'z ec_xfer \<Rightarrow> ec_dev \<Rightarrow> nat \<Rightarrow> ec_msg \<Rightarrow> 'z world_scheme \<Rightarrow>
   (int \<times> ec_dev \<times> ec_msg \<times> 'z world_scheme) option" where
  "cros_ec_host_command_proto_query E cmd_xfer pkt_xfer ec devidx msg w =
     (if \<not> has_pkt_xfer ec then Some (- EPROTONOSUPPORT, ec, msg, w)
      else do {
        let msg = \<lparr>version = 0,
          command = or (cmd_passthru_offset E devidx) (cmd_get_protocol_info E),
          outsize = 0, insize = of_nat (sizeof_protocol_info E), result = 0, mdata = mdata msg\<rparr>;
        (ret, ec, msg, w) \<leftarrow> send_command E cmd_xfer pkt_xfer ec msg w;
        (if ret < 0 then Some (ret, ec, msg, w)
         else if devidx > 0 \<and> result msg = res_invalid_command E then Some (- ENODEV, ec, msg, w)
         else if result msg \<noteq> res_success E then Some (sint (result msg), ec, msg, w)
         else Some (0, ec, msg, w))
      })"

definition cros_ec_host_command_proto_query_v2 ::
  "ec_env \<Rightarrow> 'z ec_xfer \<Rightarrow> 'z ec_xfer \<Rightarrow> ec_dev \<Rightarrow> 'z world_scheme \<Rightarrow>
   (int \<times> ec_dev \<times> 'z world_scheme) option" where
  "cros_ec_host_command_proto_query_v2 E cmd_xfer pkt_xfer ec w =
     (let len = max (sizeof_hello_params E) (sizeof_hello_response E) in
      case kmalloc (sizeof_cmd E + len) w of
        (None, w) \<Rightarrow> Some (- ENOMEM, ec, w)
      | (Some (k, junk), w) \<Rightarrow> do {
          let msg = (msg_of_image E junk)\<lparr>version := 0, command := cmd_hello E,
            outsize := of_nat (sizeof_hello_params E), insize := of_nat (sizeof_hello_response E)\<rparr>;
          hello \<leftarrow> buf_write (mdata msg) 0 (hello_params_image E 0xa0b0c0d0);
          (ret, ec, msg, w) \<leftarrow> send_command E cmd_xfer pkt_xfer ec (msg\<lparr>mdata := hello\<rparr>) w;
          ret \<leftarrow>
            (if ret < 0 then Some ret
             else if result msg \<noteq> res_success E then Some (sint (result msg))
             else do {
               response \<leftarrow> buf_read (mdata msg) 0 (sizeof_hello_response E);
               Some (if hello_out_data E response \<noteq> 0xa1b2c3d4 then - EBADMSG else 0)
             });
          w \<leftarrow> kfree k w;
          Some (ret, ec, w)
        })"

text \<open>The first half of \<open>cros_ec_query_all\<close>: which version the controller speaks and the sizes that follow.\<close>

definition query_versions ::
  "ec_env \<Rightarrow> 'z ec_xfer \<Rightarrow> 'z ec_xfer \<Rightarrow> ec_dev \<Rightarrow> ec_msg \<Rightarrow> 'z world_scheme \<Rightarrow>
   (int \<times> bool \<times> ec_dev \<times> 'z world_scheme) option" where
  "query_versions E cmd_xfer pkt_xfer ec proto_msg w = do {
     let ec = ec\<lparr>proto_version := 3\<rparr>;
     (ret, ec, proto_msg, w) \<leftarrow> cros_ec_host_command_proto_query E cmd_xfer pkt_xfer ec 0 proto_msg w;
     (if ret = 0 then do {
        info \<leftarrow> buf_read (mdata proto_msg) 0 (sizeof_protocol_info E);
        let ec = ec\<lparr>max_request := info_max_request E info - of_nat (sizeof_request E),
          max_response := info_max_response E info - of_nat (sizeof_response E),
          proto_version := word_of_int (min (int (unat (host_request_version E)))
            (int (fls_nat (unat (info_versions E info))) - 1))\<rparr>;
        let ec = ec\<lparr>din_size := unat (max_response ec) + sizeof_response E + max_response_overhead E,
          dout_size := unat (max_request ec) + sizeof_request E + max_request_overhead E\<rparr>;
        (ret, ec, proto_msg, w) \<leftarrow> cros_ec_host_command_proto_query E cmd_xfer pkt_xfer ec 1 proto_msg w;
        (if ret \<noteq> 0 then Some (ret, True, ec\<lparr>max_passthru := 0\<rparr>, w)
         else do {
           info \<leftarrow> buf_read (mdata proto_msg) 0 (sizeof_protocol_info E);
           Some (ret, True, ec\<lparr>max_passthru := info_max_request E info - of_nat (sizeof_request E)\<rparr>, w)
         })
      }
      else do {
        let ec = ec\<lparr>proto_version := 2\<rparr>;
        (ret, ec, w) \<leftarrow> cros_ec_host_command_proto_query_v2 E cmd_xfer pkt_xfer ec w;
        (if ret = 0 then
           Some (ret, True, ec\<lparr>max_request := ucast (proto2_max_param_size E),
             max_response := ucast (proto2_max_param_size E), max_passthru := 0,
             has_pkt_xfer := False, din_size := msg_bytes E, dout_size := msg_bytes E\<rparr>, w)
         else Some (ret, False, ec\<lparr>proto_version := proto_version_unknown E\<rparr>, w))
      })
   }"

text \<open>
  The whole of \<open>cros_ec_query_all\<close>. The flag that \<open>query_versions\<close> returns says whether the
  code goes on to replace the transfer buffers (\<open>False\<close> is its \<open>goto exit\<close>). The result
  of the last query is returned even when both buffers were replaced.
\<close>

definition cros_ec_query_all ::
  "ec_env \<Rightarrow> 'z ec_xfer \<Rightarrow> 'z ec_xfer \<Rightarrow> ec_dev \<Rightarrow> 'z world_scheme \<Rightarrow>
   (int \<times> ec_dev \<times> 'z world_scheme) option" where
  "cros_ec_query_all E cmd_xfer pkt_xfer ec w =
     (case kzalloc (sizeof_cmd E + sizeof_protocol_info E) w of
        (None, w) \<Rightarrow> Some (- ENOMEM, ec, w)
      | (Some (k, zeros), w) \<Rightarrow> do {
          (ret, goon, ec, w) \<leftarrow> query_versions E cmd_xfer pkt_xfer ec (msg_of_image E zeros) w;
          (ret, ec, w) \<leftarrow>
            (if \<not> goon then Some (ret, ec, w)
             else
               let ec = ec\<lparr>din := None, dout := None\<rparr> in
               (case devm_kzalloc (din_size ec) w of
                  (None, w) \<Rightarrow> Some (- ENOMEM, ec, w)
                | (Some b, w) \<Rightarrow>
                    let ec = ec\<lparr>din := Some b\<rparr> in
                    (case devm_kzalloc (dout_size ec) w of
                       (None, w) \<Rightarrow> Some (- ENOMEM, ec\<lparr>din := None\<rparr>, w)
                     | (Some b, w) \<Rightarrow> Some (ret, ec\<lparr>dout := Some b\<rparr>, w))));
          w \<leftarrow> kfree k w;
          Some (ret, ec, w)
        })"

section \<open>The entry point\<close>

text \<open>Taking a mutex that is held and releasing one that is not are faults.\<close>

definition ec_lock :: "ec_dev \<Rightarrow> ec_dev option" where
  "ec_lock ec = (if ec_locked ec then None else Some (ec\<lparr>ec_locked := True\<rparr>))"

definition ec_unlock :: "ec_dev \<Rightarrow> ec_dev option" where
  "ec_unlock ec = (if ec_locked ec then Some (ec\<lparr>ec_locked := False\<rparr>) else None)"

definition cros_ec_cmd_xfer ::
  "ec_env \<Rightarrow> 'z ec_xfer \<Rightarrow> 'z ec_xfer \<Rightarrow> 'z ec_xfer" where
  "cros_ec_cmd_xfer E cmd_xfer pkt_xfer ec msg w = do {
     ec \<leftarrow> ec_lock ec;
     (ret, ec, w) \<leftarrow>
       (if proto_version ec = proto_version_unknown E
        then cros_ec_query_all E cmd_xfer pkt_xfer ec w else Some (0, ec, w));
     (if ret \<noteq> 0 then do { ec \<leftarrow> ec_unlock ec; Some (ret, ec, msg, w) }
      else
        let msg = (if insize msg > ucast (max_response ec)
                   then msg\<lparr>insize := ucast (max_response ec)\<rparr> else msg);
            limit = (if command msg < cmd_passthru_offset E 1 then max_request ec else max_passthru ec) in
        if outsize msg > ucast limit
        then do { ec \<leftarrow> ec_unlock ec; Some (- EMSGSIZE, ec, msg, w) }
        else do {
          (ret, ec, msg, w) \<leftarrow> send_command E cmd_xfer pkt_xfer ec msg w;
          ec \<leftarrow> ec_unlock ec;
          Some (ret, ec, msg, w)
        })
   }"

section \<open>The contract of a bus driver\<close>

text \<open>
  What a message and the device must satisfy before a transfer, and what a transfer keeps.
  The device keeps everything but the contents of its two buffers; the message keeps its
  header and the size of its data; of the kernel's state only the counters move, so what
  the transfer allocated it released.
\<close>

definition msg_fits :: "ec_msg \<Rightarrow> bool" where
  "msg_fits m \<longleftrightarrow> unat (outsize m) \<le> length (mdata m) \<and> unat (insize m) \<le> length (mdata m) \<and>
     unat (outsize m) < 2 ^ 16 \<and> unat (insize m) < 2 ^ 16"

definition pkt_ready :: "ec_dev \<Rightarrow> ec_msg \<Rightarrow> bool" where
  "pkt_ready ec m \<longleftrightarrow> proto_version ec = 3 \<and> dout_off ec = 0 \<and>
     unat (insize m) + 10 \<le> din_size ec \<and> unat (outsize m) + 9 \<le> dout_size ec \<and>
     (\<exists>b. din ec = Some b \<and> unat (insize m) + 10 \<le> length b) \<and>
     (\<exists>b. dout ec = Some b \<and> unat (outsize m) + 9 \<le> length b)"

definition same_msg :: "ec_msg \<Rightarrow> ec_msg \<Rightarrow> bool" where
  "same_msg m m' \<longleftrightarrow> version m' = version m \<and> command m' = command m \<and> outsize m' = outsize m \<and>
     insize m' = insize m \<and> length (mdata m') = length (mdata m)"

definition same_dev :: "ec_dev \<Rightarrow> ec_dev \<Rightarrow> bool" where
  "same_dev ec ec' \<longleftrightarrow> (\<exists>i k. ec' = ec\<lparr>din := i, dout := k\<rparr> \<and>
     map_option length i = map_option length (din ec) \<and>
     map_option length k = map_option length (dout ec))"

definition xfer_frame :: "'z world_scheme \<Rightarrow> 'z world_scheme \<Rightarrow> bool" where
  "xfer_frame w w' \<longleftrightarrow> (\<exists>k x. w' = w\<lparr>knext := k, xcalls := x\<rparr>)"

definition xfer_post ::
  "nat \<Rightarrow> ec_dev \<Rightarrow> ec_msg \<Rightarrow> 'z world_scheme \<Rightarrow> int \<times> ec_dev \<times> ec_msg \<times> 'z world_scheme \<Rightarrow> bool" where
  "xfer_post n ec msg w = (\<lambda>(r, ec', msg', w').
     nat r \<le> n \<and> same_msg msg msg' \<and> same_dev ec ec' \<and> xfer_frame w w')"

lemma small_sum:
  assumes "unat (x :: u32) < 2 ^ 16" and "c < 2 ^ 14"
  shows "unat (x + of_nat c) = unat x + c" and "sint (x + of_nat c) = int (unat x + c)"
proof -
  show u: "unat (x + of_nat c) = unat x + c"
    using assms by (subst unat_word_ariths) (simp add: unat_of_nat)
  then have i: "uint (x + of_nat c) = int (unat x + c)"
    by (metis uint_nat)
  moreover have "unat x + c < 2 ^ 31" using assms by simp
  then have "int (unat x + c) < int (2 ^ 31)" by (simp only: of_nat_less_iff)
  ultimately have "uint (x + of_nat c) < 2 ^ 31" by simp
  then have "sint (x + of_nat c) = uint (x + of_nat c)"
    unfolding sint_uint by (intro signed_take_bit_int_eq_self order_trans [OF _ uint_ge_0]) simp_all
  with i show "sint (x + of_nat c) = int (unat x + c)" by simp
qed

lemma same_msg_refl [simp]: "same_msg m m"
  by (simp add: same_msg_def)

lemma same_msg_trans: "same_msg a b \<Longrightarrow> same_msg b c \<Longrightarrow> same_msg a c"
  by (simp add: same_msg_def)

lemma same_msg_result [simp]: "same_msg a (b\<lparr>result := r\<rparr>) = same_msg a b"
  by (simp add: same_msg_def)

lemma same_dev_refl [simp]: "same_dev ec ec"
  unfolding same_dev_def by (rule exI [of _ "din ec"], rule exI [of _ "dout ec"]) simp

lemma same_dev_trans: "same_dev a b \<Longrightarrow> same_dev b c \<Longrightarrow> same_dev a c"
  unfolding same_dev_def
  by (elim exE conjE, rule exI [of _ "din c"], rule exI [of _ "dout c"]) simp

lemma xfer_frame_refl [simp]: "xfer_frame w w"
  unfolding xfer_frame_def by (rule exI [of _ "knext w"], rule exI [of _ "xcalls w"]) simp

lemma xfer_frame_trans: "xfer_frame a b \<Longrightarrow> xfer_frame b c \<Longrightarrow> xfer_frame a c"
  unfolding xfer_frame_def by (elim exE, hypsubst, rule exI, rule exI, simp)

lemma xfer_frame_fields:
  assumes "xfer_frame w w'"
  shows "umem w' = umem w" and "utime w' = utime w" and "uout w' = uout w" and "klive w' = klive w"
    and "kfail w' = kfail w" and "kjunk w' = kjunk w" and "world.more w' = world.more w"
  using assms by (auto simp: xfer_frame_def)

locale ec_transport =
  fixes E :: ec_env
    and cmd_xfer :: "'z ec_xfer"
    and pkt_xfer :: "'z ec_xfer"
  assumes cmd_law: "\<lbrakk>ec_env_ok E; msg_fits msg\<rbrakk> \<Longrightarrow>
      ok (cmd_xfer ec msg w) (xfer_post (unat (insize msg)) ec msg w)"
    and pkt_law: "\<lbrakk>ec_env_ok E; msg_fits msg; pkt_ready ec msg\<rbrakk> \<Longrightarrow>
      ok (pkt_xfer ec msg w) (xfer_post (unat (insize msg)) ec msg w)"
begin

lemma poll_status_ok:
  assumes "ec_env_ok E" and "msg_fits smsg"
    and "length (mdata smsg) = sizeof_comms_status E"
    and "nat ret \<le> n" and "unat (insize smsg) \<le> n"
  shows "ok (poll_status E cmd_xfer k ret ec msg smsg w) (xfer_post n ec msg w)"
  using assms(2-)
proof (induction k arbitrary: ret ec msg smsg w)
  case 0
  then show ?case by (simp add: xfer_post_def)
next
  case (Suc k)
  obtain r ec1 smsg1 w1 where call: "cmd_xfer ec smsg w = Some (r, ec1, smsg1, w1)"
    and post: "xfer_post (unat (insize smsg)) ec smsg w (r, ec1, smsg1, w1)"
    using cmd_law [OF assms(1) Suc.prems(1), of ec w] by (auto elim: okE)
  from post have facts: "nat r \<le> n" "same_msg smsg smsg1" "same_dev ec ec1" "xfer_frame w w1"
    using Suc.prems by (auto simp: xfer_post_def)
  have fits: "msg_fits smsg1" "length (mdata smsg1) = sizeof_comms_status E"
    "unat (insize smsg1) \<le> n"
    using Suc.prems facts(2) by (auto simp: msg_fits_def same_msg_def)
  have rest: "ok (poll_status E cmd_xfer k r ec1 (msg\<lparr>result := result smsg1\<rparr>) smsg1 w1) (xfer_post n ec msg w)"
    by (rule ok_mono, rule Suc.IH [OF fits(1,2) facts(1) fits(3)])
      (use facts in \<open>auto simp: xfer_post_def same_msg_def intro: same_dev_trans xfer_frame_trans\<close>)
  from rest facts fits(2) show ?case
    by (cases "result smsg1 = res_success E") (simp_all add: call ok_simps Let_def xfer_post_def)
qed

end

definition ec_ready :: "ec_env \<Rightarrow> ec_dev \<Rightarrow> bool" where
  "ec_ready E ec \<longleftrightarrow> dout_off ec = 0 \<and> proto_version ec \<noteq> proto_version_unknown E \<and>
     (proto_version ec > 2 \<longrightarrow>
        proto_version ec = 3 \<and> has_pkt_xfer ec \<and>
        unat (max_response ec) + 10 \<le> din_size ec \<and>
        unat (max_request ec) + 9 \<le> dout_size ec \<and> unat (max_passthru ec) + 9 \<le> dout_size ec \<and>
        map_option length (din ec) = Some (din_size ec) \<and>
        map_option length (dout ec) = Some (dout_size ec))"

lemma same_dev_ready: "same_dev ec ec' \<Longrightarrow> ec_ready E ec \<Longrightarrow> ec_ready E ec'"
  by (auto simp: same_dev_def ec_ready_def)

lemma ready_proto_word: "(2 :: u16) < v \<Longrightarrow> v \<noteq> 3 \<Longrightarrow> 3 < v"
  by (simp add: word_less_nat_alt word_unat_eq_iff)

lemma xfer_frame_knext: "xfer_frame w w' \<Longrightarrow> xfer_frame w (w'\<lparr>knext := k\<rparr>)"
  by (erule xfer_frame_trans, unfold xfer_frame_def, rule exI [of _ k], rule exI [of _ "xcalls w'"]) simp

context ec_transport
begin

lemma send_command_ok:
  assumes "ec_env_ok E" and "msg_fits msg"
    and "proto_version ec > 2 \<Longrightarrow> has_pkt_xfer ec \<and> pkt_ready ec msg"
    and "unat (insize msg) \<le> n" and "sizeof_comms_status E \<le> n"
  shows "ok (send_command E cmd_xfer pkt_xfer ec msg w) (xfer_post n ec msg w)"
proof -
  have call: "ok (if proto_version ec > 2 then (if has_pkt_xfer ec then pkt_xfer ec msg w else None)
      else cmd_xfer ec msg w) (xfer_post (unat (insize msg)) ec msg w)"
    using assms(1-3) by (simp add: cmd_law pkt_law)
  have small: "sizeof_comms_status E < 2 ^ 16" using assms(1) by (simp add: ec_env_ok_def)
  then have size: "unat (of_nat (sizeof_comms_status E) :: u32) = sizeof_comms_status E"
    by (simp add: unat_of_nat)
  have image: "length (mdata (msg_of_image E (map f [0..<sizeof_cmd E + k]))) = k" for f k
    by (simp add: msg_of_image_def case_prod_unfold Let_def)
  show ?thesis
    unfolding send_command_def ok_bind
  proof (rule ok_mono [OF call], clarify)
    fix r ec1 msg1 w1
    assume "xfer_post (unat (insize msg)) ec msg w (r, ec1, msg1, w1)"
    then have facts: "nat r \<le> n" "same_msg msg msg1" "same_dev ec ec1" "xfer_frame w w1"
      using assms(4) by (auto simp: xfer_post_def)
    have fail: "xfer_post n ec msg w (- ENOMEM, ec1, msg1, w1\<lparr>knext := Suc (knext w1)\<rparr>)"
      using facts by (simp add: xfer_post_def xfer_frame_knext)
    define smsg where "smsg = (msg_of_image E (map (kjunk w1 (knext w1))
        [0..<sizeof_cmd E + sizeof_comms_status E]))
      \<lparr>version := 0, command := cmd_get_comms_status E, insize := of_nat (sizeof_comms_status E), outsize := 0\<rparr>"
    define w2 where "w2 = w1\<lparr>knext := Suc (knext w1), klive := knext w1 # klive w1\<rparr>"
    have smsg: "msg_fits smsg" "length (mdata smsg) = sizeof_comms_status E"
      "unat (insize smsg) \<le> n"
      using small size assms(5) by (simp_all add: smsg_def msg_fits_def image)
    have "ok (poll_status E cmd_xfer EC_COMMAND_RETRIES r ec1 msg1 smsg w2) (xfer_post n ec1 msg1 w2)"
      by (rule poll_status_ok [OF assms(1) smsg(1,2) facts(1) smsg(3)])
    then have poll: "ok (poll_status E cmd_xfer EC_COMMAND_RETRIES r ec1 msg1 smsg w2)
        (\<lambda>(r, ec', msg', w'). \<exists>w3. kfree (knext w1) w' = Some w3 \<and> xfer_post n ec msg w (r, ec', msg', w3))"
    proof (rule ok_mono, clarify)
      fix r' ec' msg' w'
      assume post: "xfer_post n ec1 msg1 w2 (r', ec', msg', w')"
      then obtain k x where w': "w' = w2\<lparr>knext := k, xcalls := x\<rparr>" by (auto simp: xfer_post_def xfer_frame_def)
      then have "kfree (knext w1) w' = Some (w1\<lparr>knext := k, xcalls := x\<rparr>)"
        by (simp add: w2_def kfree_def)
      moreover have "xfer_frame w (w1\<lparr>knext := k, xcalls := x\<rparr>)"
        using facts(4) by (rule xfer_frame_trans) (auto simp: xfer_frame_def)
      ultimately show "\<exists>w3. kfree (knext w1) w' = Some w3 \<and> xfer_post n ec msg w (r', ec', msg', w3)"
        using post facts by (auto simp: xfer_post_def intro: same_dev_trans same_msg_trans)
    qed
    show "ok (if result msg1 \<noteq> res_in_progress E then Some (r, ec1, msg1, w1)
       else case kmalloc (sizeof_cmd E + sizeof_comms_status E) w1 of
         (None, w) \<Rightarrow> Some (- ENOMEM, ec1, msg1, w)
       | (Some (k, junk), w) \<Rightarrow>
           let status_msg = (msg_of_image E junk)\<lparr>version := 0, command := cmd_get_comms_status E,
                 insize := of_nat (sizeof_comms_status E), outsize := 0\<rparr>
           in do {
             (ret, ec, msg, w) \<leftarrow> poll_status E cmd_xfer EC_COMMAND_RETRIES r ec1 msg1 status_msg w;
             w \<leftarrow> kfree k w;
             Some (ret, ec, msg, w)
           }) (xfer_post n ec msg w)"
      using facts fail poll
      by (auto simp: kmalloc_def Let_def ok_bind smsg_def [symmetric] w2_def [symmetric] xfer_post_def
          elim!: okE)
  qed
qed

end

definition xfer_sizes :: "ec_env \<Rightarrow> ec_dev \<Rightarrow> ec_msg \<Rightarrow> ec_msg \<Rightarrow> int \<Rightarrow> bool" where
  "xfer_sizes E ec msg msg' r \<longleftrightarrow> length (mdata msg') = length (mdata msg) \<and>
     command msg' = command msg \<and> outsize msg' = outsize msg \<and>
     insize msg' = min (insize msg) (ucast (max_response ec)) \<and>
     nat r \<le> max (unat (insize msg')) (sizeof_comms_status E)"

lemma unlock_same_dev:
  assumes "same_dev (ec\<lparr>ec_locked := True\<rparr>) ec'" and "\<not> ec_locked ec"
  shows "ec_locked ec'" and "same_dev ec (ec'\<lparr>ec_locked := False\<rparr>)"
proof -
  obtain i k where ec': "ec' = ec\<lparr>ec_locked := True, din := i, dout := k\<rparr>"
    "map_option length i = map_option length (din ec)" "map_option length k = map_option length (dout ec)"
    using assms(1) by (auto simp: same_dev_def)
  then show "ec_locked ec'" by simp
  have "ec'\<lparr>ec_locked := False\<rparr> = ec\<lparr>din := i, dout := k\<rparr>"
    using ec'(1) assms(2) by simp
  then show "same_dev ec (ec'\<lparr>ec_locked := False\<rparr>)"
    using ec'(2,3) unfolding same_dev_def by (intro exI [of _ i] exI [of _ k]) simp
qed

context ec_transport
begin

lemma cros_ec_cmd_xfer_ok:
  assumes env: "ec_env_ok E" and ready: "ec_ready E ec" and free: "\<not> ec_locked ec"
    and sizes: "unat (outsize msg) \<le> length (mdata msg)" "unat (insize msg) \<le> length (mdata msg)"
  shows "ok (cros_ec_cmd_xfer E cmd_xfer pkt_xfer ec msg w) (\<lambda>(r, ec', msg', w').
    same_dev ec ec' \<and> xfer_frame w w' \<and> xfer_sizes E ec msg msg' r)"
proof -
  define ec1 where "ec1 = ec\<lparr>ec_locked := True\<rparr>"
  define msg1 where "msg1 = (if insize msg > ucast (max_response ec)
      then msg\<lparr>insize := ucast (max_response ec)\<rparr> else msg)"
  have msg1: "mdata msg1 = mdata msg" "outsize msg1 = outsize msg" "command msg1 = command msg"
    "insize msg1 = min (insize msg) (ucast (max_response ec))"
    by (auto simp: msg1_def min_def not_less)
  have unlocked: "ec1\<lparr>ec_locked := False\<rparr> = ec" using free by (simp add: ec1_def)
  define limit where "limit = (if command msg < cmd_passthru_offset E 1 then max_request ec else max_passthru ec)"
  have send_ok: "ok (send_command E cmd_xfer pkt_xfer ec1 msg1 w)
      (xfer_post (max (unat (insize msg1)) (sizeof_comms_status E)) ec1 msg1 w)"
    if lim: "\<not> outsize msg > ucast limit"
  proof (rule send_command_ok [OF env])
    have ins: "unat (insize msg1) \<le> unat (max_response ec)"
      by (simp add: msg1 word_le_nat_alt [symmetric] min_def) (simp add: word_le_nat_alt)
    have outs: "unat (outsize msg) \<le> unat limit"
      using lim by (simp add: word_less_nat_alt)
    have "unat (insize msg1) \<le> unat (insize msg)"
      by (simp add: msg1 min_def)  (simp add: word_le_nat_alt)
    then show "msg_fits msg1"
      using sizes ins outs unat_u16_less [of limit] unat_u16_less [of "max_response ec"]
      by (simp add: msg_fits_def msg1(1,2))
    assume "2 < proto_version ec1"
    then show "has_pkt_xfer ec1 \<and> pkt_ready ec1 msg1"
      using ready ins outs
      by (auto simp: ec1_def ec_ready_def pkt_ready_def msg1(1,2) limit_def split: if_splits)
  qed simp_all
  define send where "send = do { (ret, ec, msg, w) \<leftarrow> send_command E cmd_xfer pkt_xfer ec1 msg1 w;
      ec \<leftarrow> ec_unlock ec; Some (ret, ec, msg, w) }"
  have step: "cros_ec_cmd_xfer E cmd_xfer pkt_xfer ec msg w =
     (if outsize msg1 > ucast limit then do { ec \<leftarrow> ec_unlock ec1; Some (- EMSGSIZE, ec, msg1, w) }
      else send)"
    unfolding cros_ec_cmd_xfer_def ec_lock_def send_def msg1_def limit_def ec1_def
    using ready free by (simp add: ec_ready_def Let_def)
  show ?thesis
  proof (cases "outsize msg > ucast limit")
    case True
    then show ?thesis
      by (simp add: step msg1 ec_unlock_def unlocked xfer_sizes_def) (simp add: ec1_def)
  next
    case False
    have "ok send (\<lambda>(r, ec', msg', w').
        same_dev ec ec' \<and> xfer_frame w w' \<and> xfer_sizes E ec msg msg' r)"
      unfolding send_def ok_bind
    proof (rule ok_mono [OF send_ok [OF False]], clarify)
      fix r ec' msg' w'
      assume "xfer_post (max (unat (insize msg1)) (sizeof_comms_status E)) ec1 msg1 w (r, ec', msg', w')"
      then have p: "nat r \<le> max (unat (insize msg1)) (sizeof_comms_status E)" "same_msg msg1 msg'"
        "same_dev ec1 ec'" "xfer_frame w w'"
        by (simp_all add: xfer_post_def)
      note u = unlock_same_dev [OF p(3) [unfolded ec1_def] free]
      show "ok (do { ec \<leftarrow> ec_unlock ec'; Some (r, ec, msg', w') })
          (\<lambda>(r, ec', msg', w'). same_dev ec ec' \<and> xfer_frame w w' \<and> xfer_sizes E ec msg msg' r)"
        using u p msg1 by (simp add: ec_unlock_def xfer_sizes_def same_msg_def)
    qed
    with False show ?thesis by (simp add: step msg1)
  qed
qed

end

section \<open>What the packets contain\<close>

text \<open>
  Both builders, run on a buffer that is large enough: they write only their packet,
  behind whatever the bus driver has put in front of it, and the packet carries the data.
\<close>

lemma prepare_packet_ok:
  assumes env: "ec_env_ok E" and proto: "proto_version ec = 3"
    and size: "unat (outsize msg) + 8 \<le> dout_size ec" and data: "unat (outsize msg) \<le> length (mdata msg)"
    and out: "dout ec = Some out" "dout_off ec + 8 + unat (outsize msg) \<le> length out"
  shows "ok (prepare_packet E ec msg) (\<lambda>(n, ec'). n = 8 + int (unat (outsize msg)) \<and>
    (\<exists>hdr. length hdr = 8 \<and>
      ec' = ec\<lparr>dout := Some (take (dout_off ec) out @ hdr @ take (unat (outsize msg)) (mdata msg) @
        drop (dout_off ec + 8 + unat (outsize msg)) out)\<rparr> \<and>
      sum_list hdr + sum_list (take (unat (outsize msg)) (mdata msg)) = 0))"
proof -
  obtain a b c d where o: "out = a @ b @ c @ d" "length a = dout_off ec" "length b = 8"
    "length c = unat (outsize msg)"
    using out(2) by (rule split_buf3)
  define req where "req = request_image E 3 (ucast (command msg))
     (ucast (version msg)) 0 (ucast (outsize msg))"
  define dat where "dat = take (unat (outsize msg)) (mdata msg)"
  define hdr where "hdr = req[checksum_off E := - (sum_list req + sum_list dat)]"
  have req: "length req = 8" "req ! checksum_off E = 0" "checksum_off E < 8"
    "sizeof_request E = 8" "host_request_version E = 3"
    using env by (auto simp: ec_env_ok_def req_def)
  have dat: "length dat = unat (outsize msg)" using data by (simp add: dat_def)
  have r: "buf_read (mdata msg) 0 (unat (outsize msg)) = Some dat"
    using data by (simp add: buf_read_def dat_def)
  have set: "buf_set (a @ req @ dat @ d) (dout_off ec + checksum_off E) x =
      Some (a @ req[checksum_off E := x] @ dat @ d)" for x
    using req o(2) by (simp add: buf_set_def list_update_append)
  have w: "buf_write (a @ req @ c @ d) (dout_off ec + 8) dat = Some (a @ req @ dat @ d)"
    using buf_write_exact [of "dout_off ec + 8" "a @ req" dat c d] o req(1) dat by simp
  have run: "prepare_packet E ec msg = Some (8 + int (unat (outsize msg)),
      ec\<lparr>dout := Some (a @ hdr @ dat @ d)\<rparr>)"
    using proto size out(1) o req
    by (simp add: prepare_packet_def req_def [symmetric] Let_def r w set hdr_def)
  have sum: "sum_list hdr + sum_list dat = 0"
    using req by (simp add: hdr_def sum_list_update_word)
  show ?thesis
    unfolding run dat_def [symmetric]
    using sum req o by (auto intro!: exI [of _ hdr] simp: hdr_def)
qed

lemma cros_ec_prepare_tx_v2_ok:
  assumes env: "ec_env_ok E" and proto: "proto_version ec \<le> 2"
    and size: "outsize msg \<le> proto2_max_param_size E" and data: "unat (outsize msg) \<le> length (mdata msg)"
    and out: "dout ec = Some out" "dout_off ec + 4 + unat (outsize msg) \<le> length out"
  shows "ok (cros_ec_prepare_tx E ec msg) (\<lambda>(n, ec'). n = 4 + int (unat (outsize msg)) \<and>
    (let pkt = [ucast (cmd_version0 E + version msg), ucast (command msg), ucast (outsize msg)] @
       take (unat (outsize msg)) (mdata msg) in
     ec' = ec\<lparr>dout := Some (take (dout_off ec) out @ pkt @ [sum_list pkt] @
       drop (dout_off ec + 4 + unat (outsize msg)) out)\<rparr>))"
proof -
  define hdr :: "byte list" where
    "hdr = [ucast (cmd_version0 E + version msg), ucast (command msg), ucast (outsize msg)]"
  define dat where "dat = take (unat (outsize msg)) (mdata msg)"
  have "dout_off ec + 3 + unat (outsize msg) \<le> length out" using out(2) by simp
  then obtain a b c r where o: "out = a @ b @ c @ r" "length a = dout_off ec" "length b = 3"
    "length c = unat (outsize msg)"
    by (rule split_buf3)
  then obtain x d where r: "r = x # d" using out(2) by (cases r) auto
  have sizes: "msg_tx_header_bytes E = 3" "msg_tx_proto_bytes E = 4"
    using env by (simp_all add: ec_env_ok_def)
  have dat: "length dat = unat (outsize msg)" and hdr: "length hdr = 3"
    using data by (simp_all add: dat_def hdr_def)
  have rd: "buf_read (mdata msg) 0 (unat (outsize msg)) = Some dat"
    using data by (simp add: buf_read_def dat_def)
  have w: "buf_write (a @ hdr @ c @ x # d) (dout_off ec + 3) dat = Some (a @ hdr @ dat @ x # d)"
    using buf_write_exact [of "dout_off ec + 3" "a @ hdr" dat c "x # d"] o hdr dat by simp
  have set: "buf_set (a @ hdr @ dat @ x # d) (dout_off ec + 3 + unat (outsize msg)) y =
      Some (a @ hdr @ dat @ y # d)" for y
    using o hdr dat by (simp add: buf_set_def list_update_append)
  have run: "cros_ec_prepare_tx E ec msg = Some (4 + int (unat (outsize msg)),
      ec\<lparr>dout := Some (a @ hdr @ dat @ (sum_list hdr + sum_list dat) # d)\<rparr>)"
    using leD [OF proto] leD [OF size] out(1) o r hdr dat
    by (simp add: cros_ec_prepare_tx_def hdr_def [symmetric] sizes Let_def rd w set)
  show ?thesis
    unfolding run dat_def [symmetric] hdr_def [symmetric]
    using o r hdr dat by (simp add: Let_def)
qed

section \<open>The headers of the protocol\<close>

text \<open>
  The values the kernel's header \<open>cros_ec_commands.h\<close> gives to the parameters, for the
  theorems at concrete inputs; all fields are little-endian.
\<close>

definition cros_headers :: ec_env where
  "cros_headers = \<lparr>
     sizeof_cmd = 20,
     dec_cmd = (\<lambda>b. (le32_at b 0, le32_at b 4, le32_at b 8, le32_at b 12, le32_at b 16)),
     enc_cmd = (\<lambda>(v, c, os, is, r). le32_bytes v @ le32_bytes c @ le32_bytes os @ le32_bytes is @ le32_bytes r),
     proto_version_unknown = 0,
     host_request_version = 3,
     sizeof_request = 8,
     request_image = (\<lambda>sv cmd cv res len.
       [sv, 0, ucast cmd, ucast (drop_bit 8 cmd), cv, res, ucast len, ucast (drop_bit 8 len)]),
     checksum_off = 1,
     sizeof_response = 8,
     response_data_len = (\<lambda>b. le16_at b 4),
     cmd_version0 = 0xdc,
     proto2_max_param_size = 0xfc,
     msg_tx_header_bytes = 3,
     msg_tx_proto_bytes = 4,
     msg_bytes = 0x104,
     res_success = 0,
     res_in_progress = 8,
     res_invalid_command = 1,
     cmd_get_comms_status = 9,
     cmd_hello = 1,
     cmd_get_protocol_info = 0xb,
     cmd_passthru_offset = (\<lambda>n. 0x4000 * of_nat n),
     sizeof_comms_status = 4,
     comms_status_flags = (\<lambda>b. le32_at b 0),
     comms_status_processing = 1,
     sizeof_protocol_info = 12,
     info_max_request = (\<lambda>b. le16_at b 4),
     info_max_response = (\<lambda>b. le16_at b 6),
     info_versions = (\<lambda>b. le32_at b 0),
     sizeof_hello_params = 4,
     sizeof_hello_response = 4,
     hello_params_image = le32_bytes,
     hello_out_data = (\<lambda>b. le32_at b 0),
     max_response_overhead = 2,
     max_request_overhead = 1,
     command_protocol_3 = 0xda\<rparr>"

lemma dec_enc_cros:
  "dec_cmd cros_headers (enc_cmd cros_headers h) = h"
proof -
  obtain v c q i r where h: "h = (v, c, q, i, r)" by (cases h)
  show ?thesis
    using le32_roundtrip [of "[]" v "le32_bytes c @ le32_bytes q @ le32_bytes i @ le32_bytes r"]
      le32_roundtrip [of "le32_bytes v" c "le32_bytes q @ le32_bytes i @ le32_bytes r"]
      le32_roundtrip [of "le32_bytes v @ le32_bytes c" q "le32_bytes i @ le32_bytes r"]
      le32_roundtrip [of "le32_bytes v @ le32_bytes c @ le32_bytes q" i "le32_bytes r"]
      le32_roundtrip [of "le32_bytes v @ le32_bytes c @ le32_bytes q @ le32_bytes i" r "[]"]
    by (simp add: h cros_headers_def)
qed

lemma cros_headers_ok: "ec_env_ok cros_headers"
  unfolding ec_env_ok_def
  by (intro conjI allI dec_enc_cros) (simp_all add: cros_headers_def case_prod_unfold)

end
