(* ===== verification/CrosI2c.thy ===== *)
theory CrosI2c
  imports CrosProto
begin

text \<open>
  The I2C bus driver of the embedded controller, \<open>cros_ec_i2c.c\<close>: the two transfer
  functions the protocol code calls through \<open>cmd_xfer\<close> and \<open>pkt_xfer\<close>, and the probe
  function that sets up the device.

  The bus is an oracle: \<open>i2c n out\<close> answers the \<open>n\<close>-th transfer, whose request bytes are
  \<open>out\<close>, with the return value of \<open>i2c_transfer\<close> and the byte it puts at each position of
  the receive buffer.
\<close>

type_synonym i2c_bus = "nat \<Rightarrow> byte list \<Rightarrow> int \<times> (nat \<Rightarrow> byte)"

definition i2c_transfer :: "i2c_bus \<Rightarrow> byte list \<Rightarrow> nat \<Rightarrow> 'z world_scheme \<Rightarrow> int \<times> byte list \<times> 'z world_scheme" where
  "i2c_transfer i2c out n w =
     (let (ret, f) = i2c (xcalls w) out in (ret, map f [0..<n], w\<lparr>xcalls := Suc (xcalls w)\<rparr>))"

text \<open>The length of a bus message is 16 bits wide (the kernel's \<open>struct i2c_msg\<close>).\<close>

definition i2c_len :: "u32 \<Rightarrow> nat" where
  "i2c_len n = unat (ucast n :: u16)"

text \<open>
  The framing of protocol 3 on this bus: one protocol byte before the request header, a
  result and a length byte before the response header (both structures are declared in
  the file as packed).
\<close>

definition sizeof_request_i2c :: "ec_env \<Rightarrow> nat" where
  "sizeof_request_i2c E = 1 + sizeof_request E"

definition sizeof_response_i2c :: "ec_env \<Rightarrow> nat" where
  "sizeof_response_i2c E = 2 + sizeof_response E"

text \<open>
  What the code does with the answer of the bus: \<open>ret\<close> is the value of \<open>i2c_transfer\<close> and
  \<open>in_buf\<close> the receive buffer afterwards.
\<close>

definition pkt_xfer_reply :: "ec_env \<Rightarrow> byte list \<Rightarrow> int \<Rightarrow> ec_msg \<Rightarrow> (int \<times> ec_msg) option" where
  "pkt_xfer_reply E in_buf ret msg =
     (if ret < 0 then Some (ret, msg)
      else if ret \<noteq> 2 then Some (- EIO, msg)
      else do {
        code \<leftarrow> buf_get in_buf 0;
        packet_length \<leftarrow> buf_get in_buf 1;
        let msg = msg\<lparr>result := ucast code\<rparr>;
        (if result msg = res_in_progress E then Some (- EAGAIN, msg)
         else if result msg \<noteq> res_success E \<and> ucast code = res_invalid_command E \<and> packet_length = 0
         then Some (- EPROTONOSUPPORT, msg)
         else if unat packet_length < sizeof_response E then Some (- EBADMSG, msg)
         else do {
           hdr \<leftarrow> buf_read in_buf 2 (sizeof_response E);
           let data_len = response_data_len E hdr;
           (if insize msg < ucast data_len then Some (- EMSGSIZE, msg)
            else do {
              payload \<leftarrow> buf_read in_buf (sizeof_response_i2c E) (unat data_len);
              data \<leftarrow> buf_write (mdata msg) 0 payload;
              let msg = msg\<lparr>mdata := data\<rparr>;
              let sum = sum_list hdr + sum_list payload;
              Some (if sum \<noteq> 0 then - EBADMSG else int (unat data_len), msg)
            })
         })
      })"

text \<open>
  The packet lengths are \<open>int\<close>s computed from unsigned 32-bit sizes, so they are read as
  signed words in the two \<open>BUG_ON\<close> checks.
\<close>

definition cros_ec_pkt_xfer_i2c :: "ec_env \<Rightarrow> i2c_bus \<Rightarrow> 'z ec_xfer" where
  "cros_ec_pkt_xfer_i2c E i2c ec msg w =
     (let in_packet = insize msg + of_nat (sizeof_response_i2c E);
          out_packet = outsize msg + of_nat (sizeof_request_i2c E) in
      if sint in_packet > int (din_size ec) then None
      else if sint out_packet > int (dout_size ec) then None
      else do {
        out \<leftarrow> dout ec;
        out \<leftarrow> buf_set out (dout_off ec) (command_protocol_3 E);
        let ec = ec\<lparr>dout := Some out, dout_off := dout_off ec + 1\<rparr>;
        (ret, ec) \<leftarrow> cros_ec_prepare_tx E ec msg;
        let ec = ec\<lparr>dout_off := dout_off ec - 1\<rparr>;
        out \<leftarrow> dout ec;
        req \<leftarrow> buf_read out (dout_off ec) (i2c_len out_packet);
        let (ret, reply, w) = i2c_transfer i2c req (i2c_len in_packet) w;
        in_buf \<leftarrow> din ec;
        in_buf \<leftarrow> buf_write in_buf 0 reply;
        let ec = ec\<lparr>din := Some in_buf\<rparr>;
        (r, msg) \<leftarrow> pkt_xfer_reply E in_buf ret msg;
        Some (r, ec, msg, w)
      })"

text \<open>\<open>kfree\<close> of a pointer that may be NULL.\<close>

definition kfree_opt :: "nat option \<Rightarrow> 'z world_scheme \<Rightarrow> 'z world_scheme option" where
  "kfree_opt p w = (case p of None \<Rightarrow> Some w | Some k \<Rightarrow> kfree k w)"

text \<open>The part of \<open>cros_ec_cmd_xfer_i2c\<close> after both buffers are allocated, up to its label \<open>done\<close>.\<close>

definition cmd_xfer_i2c_body ::
  "ec_env \<Rightarrow> i2c_bus \<Rightarrow> byte list \<Rightarrow> byte list \<Rightarrow> ec_msg \<Rightarrow> 'z world_scheme \<Rightarrow>
   (int \<times> ec_msg \<times> 'z world_scheme) option" where
  "cmd_xfer_i2c_body E i2c in_buf out_buf msg w = do {
     let hdr = [ucast (cmd_version0 E + version msg), ucast (command msg), ucast (outsize msg)];
     out_buf \<leftarrow> buf_write out_buf 0 hdr;
     data \<leftarrow> buf_read (mdata msg) 0 (unat (outsize msg));
     out_buf \<leftarrow> buf_write out_buf 3 data;
     out_buf \<leftarrow> buf_set out_buf (3 + unat (outsize msg)) (sum_list hdr + sum_list data);
     req \<leftarrow> buf_read out_buf 0 (i2c_len (outsize msg + 4));
     let (ret, reply, w) = i2c_transfer i2c req (i2c_len (insize msg + 3)) w;
     in_buf \<leftarrow> buf_write in_buf 0 reply;
     (if ret < 0 then Some (ret, msg, w)
      else if ret \<noteq> 2 then Some (- EIO, msg, w)
      else do {
        code \<leftarrow> buf_get in_buf 0;
        let msg = msg\<lparr>result := ucast code\<rparr>;
        let ret = cros_ec_check_result E msg;
        (if ret \<noteq> 0 then Some (ret, msg, w)
         else do {
           len \<leftarrow> buf_get in_buf 1;
           (if ucast len > insize msg then Some (- ENOSPC, msg, w)
            else do {
              payload \<leftarrow> buf_read in_buf 2 (unat len);
              data \<leftarrow> buf_write (mdata msg) 0 payload;
              let msg = msg\<lparr>mdata := data\<rparr>;
              let sum = code + len + sum_list payload;
              check \<leftarrow> buf_get in_buf (2 + unat len);
              Some (if sum \<noteq> check then - EBADMSG else int (unat len), msg, w)
            })
         })
      })
   }"

definition cros_ec_cmd_xfer_i2c :: "ec_env \<Rightarrow> i2c_bus \<Rightarrow> 'z ec_xfer" where
  "cros_ec_cmd_xfer_i2c E i2c ec msg w = do {
     (ret, msg, in_p, out_p, w) \<leftarrow>
       (case kzalloc (unat (insize msg + 3)) w of
          (None, w) \<Rightarrow> Some (- ENOMEM, msg, None, None, w)
        | (Some (i, in_buf), w) \<Rightarrow>
            (case kzalloc (unat (outsize msg + 4)) w of
               (None, w) \<Rightarrow> Some (- ENOMEM, msg, Some i, None, w)
             | (Some (k, out_buf), w) \<Rightarrow> do {
                 (ret, msg, w) \<leftarrow> cmd_xfer_i2c_body E i2c in_buf out_buf msg w;
                 Some (ret, msg, Some i, Some k, w)
               }));
     w \<leftarrow> kfree_opt in_p w;
     w \<leftarrow> kfree_opt out_p w;
     Some (ret, ec, msg, w)
   }"

text \<open>
  What \<open>cros_ec_i2c_probe\<close> sets up before it registers the device: the transfer functions
  (here: the flag for \<open>pkt_xfer\<close>) and the sizes of the first buffers. \<open>register\<close> stands for
  \<open>cros_ec_register\<close>.
\<close>

definition cros_ec_i2c_probe ::
  "ec_env \<Rightarrow> (ec_dev \<Rightarrow> int) \<Rightarrow> 'z world_scheme \<Rightarrow> int \<times> ec_dev option \<times> 'z world_scheme" where
  "cros_ec_i2c_probe E register w =
     (case devm_kzalloc 0 w of
        (None, w) \<Rightarrow> (- ENOMEM, None, w)
      | (Some _, w) \<Rightarrow>
          let ec = \<lparr>max_request = 0, max_response = 0, max_passthru = 0, proto_version = 0,
                din = None, dout = None, dout_off = 0,
                din_size = sizeof_response_i2c E + sizeof_protocol_info E,
                dout_size = sizeof_request_i2c E, has_pkt_xfer = True, ec_locked = False\<rparr>;
              err = register ec in
          if err \<noteq> 0 then (err, Some ec, w) else (0, Some ec, w))"

text \<open>
  Removing, suspending and resuming hand the device to the core driver; \<open>core\<close> stands for
  \<open>cros_ec_remove\<close>, \<open>cros_ec_suspend\<close> and \<open>cros_ec_resume\<close>.
\<close>

definition cros_ec_i2c_remove :: "(ec_dev \<Rightarrow> int \<times> ec_dev) \<Rightarrow> ec_dev \<Rightarrow> int \<times> ec_dev" where
  "cros_ec_i2c_remove core ec = (0, snd (core ec))"

definition cros_ec_i2c_suspend :: "(ec_dev \<Rightarrow> int \<times> ec_dev) \<Rightarrow> ec_dev \<Rightarrow> int \<times> ec_dev" where
  "cros_ec_i2c_suspend core ec = core ec"

definition cros_ec_i2c_resume :: "(ec_dev \<Rightarrow> int \<times> ec_dev) \<Rightarrow> ec_dev \<Rightarrow> int \<times> ec_dev" where
  "cros_ec_i2c_resume core ec = core ec"

section \<open>The two transfer functions keep the contract\<close>

text \<open>
  What a packet transfer gives beyond the contract: a result that is not negative is the
  number of data bytes copied to the message, and the response header and these bytes sum
  to zero.
\<close>

definition reply_checked :: "int \<Rightarrow> ec_dev \<Rightarrow> ec_msg \<Rightarrow> bool" where
  "reply_checked r ec msg \<longleftrightarrow> (0 \<le> r \<longrightarrow> (\<exists>b. din ec = Some b \<and> 10 + nat r \<le> length b \<and>
     take (nat r) (mdata msg) = take (nat r) (drop 10 b) \<and>
     sum_list (take 8 (drop 2 b)) + sum_list (take (nat r) (mdata msg)) = 0))"

lemma reply_checked_neg [simp]: "r < 0 \<Longrightarrow> reply_checked r ec msg"
  by (simp add: reply_checked_def)

lemma i2c_len_le: "i2c_len n \<le> unat n"
  by (simp add: i2c_len_def unsigned_ucast_eq take_bit_nat_less_eq_self)

lemma pkt_xfer_reply_ok:
  assumes env: "ec_env_ok E" and buf: "unat (insize msg) + 10 \<le> length b"
    and fits: "unat (insize msg) \<le> length (mdata msg)"
  shows "ok (pkt_xfer_reply E b ret msg) (\<lambda>(r, msg').
    nat r \<le> unat (insize msg) \<and> same_msg msg msg' \<and>
    (din ec = Some b \<longrightarrow> reply_checked r ec msg'))"
proof -
  have sizes: "sizeof_response_i2c E = 10" "sizeof_response E = 8"
    using env by (simp_all add: ec_env_ok_def sizeof_response_i2c_def)
  show ?thesis
    using buf fits
    by (auto simp: pkt_xfer_reply_def ok_simps sizes Let_def same_msg_def not_less word_le_nat_alt
        reply_checked_def)
qed

lemma xfer_frame_step [simp]: "xfer_frame w (w\<lparr>knext := a, xcalls := b\<rparr>)"
  unfolding xfer_frame_def by blast

lemma xfer_frame_xcalls [simp]: "xfer_frame w (w\<lparr>xcalls := b\<rparr>)"
  unfolding xfer_frame_def by (rule exI [of _ "knext w"], rule exI [of _ b]) simp

lemma xfer_frame_knext_only [simp]: "xfer_frame w (w\<lparr>knext := a\<rparr>)"
  by (rule xfer_frame_knext) simp

lemma same_dev_fields:
  assumes "same_dev ec ec'"
  shows "ec_locked ec' = ec_locked ec" and "map_option length (din ec') = map_option length (din ec)"
    and "dout_off ec' = dout_off ec"
  using assms by (auto simp: same_dev_def)

lemma pkt_xfer_i2c_run:
  assumes env: "ec_env_ok E" and fits: "msg_fits msg" and ready: "pkt_ready ec msg"
    and i1: "din ec = Some i1"
  obtains o2 req i2 n where
    "cros_ec_pkt_xfer_i2c E i2c ec msg w =
      (pkt_xfer_reply E i2 (fst (i2c (xcalls w) req)) msg \<bind>
        (\<lambda>(r, msg). Some (r, ec\<lparr>din := Some i2, dout := Some o2\<rparr>, msg, w\<lparr>xcalls := Suc (xcalls w)\<rparr>)))"
    and "i2 = map (snd (i2c (xcalls w) req)) [0..<n] @ drop n i1"
    and "n = i2c_len (insize msg + 10)" and "n \<le> length i1"
    and "same_dev ec (ec\<lparr>din := Some i2, dout := Some o2\<rparr>)"
proof -
  have sizes: "sizeof_request_i2c E = 9" "sizeof_response_i2c E = 10"
    using env by (simp_all add: ec_env_ok_def sizeof_request_i2c_def sizeof_response_i2c_def)
  have small: "unat (insize msg) < 2 ^ 16" "unat (outsize msg) < 2 ^ 16"
    using fits by (simp_all add: msg_fits_def)
  note in_len = small_sum [OF small(1), of 10] and out_len = small_sum [OF small(2), of 9]
  obtain o1 where bufs: "dout ec = Some o1" "unat (outsize msg) + 9 \<le> length o1"
    "unat (insize msg) + 10 \<le> length i1"
    using ready i1 by (auto simp: pkt_ready_def)
  have dev: "proto_version ec = 3" "dout_off ec = 0"
    "unat (insize msg) + 10 \<le> din_size ec" "unat (outsize msg) + 9 \<le> dout_size ec"
    using ready by (simp_all add: pkt_ready_def)
  define ec1 where "ec1 = ec\<lparr>dout := Some (o1[0 := command_protocol_3 E]), dout_off := 1\<rparr>"
  have "ok (prepare_packet E ec1 msg) (\<lambda>(n, ec'). n = 8 + int (unat (outsize msg)) \<and>
    (\<exists>hdr. length hdr = 8 \<and>
      ec' = ec1\<lparr>dout := Some (take (dout_off ec1) (o1[0 := command_protocol_3 E]) @ hdr @
        take (unat (outsize msg)) (mdata msg) @
        drop (dout_off ec1 + 8 + unat (outsize msg)) (o1[0 := command_protocol_3 E]))\<rparr> \<and>
      sum_list hdr + sum_list (take (unat (outsize msg)) (mdata msg)) = 0))"
    by (rule prepare_packet_ok [OF env])
      (use dev bufs fits in \<open>simp_all add: ec1_def msg_fits_def\<close>)
  then obtain k o2 where prep: "cros_ec_prepare_tx E ec1 msg = Some (k, ec1\<lparr>dout := Some o2\<rparr>)"
    "length o2 = length o1"
    using bufs dev fits
    by (elim okE) (auto simp: ec1_def cros_ec_prepare_tx_def msg_fits_def)
  define req where "req = take (i2c_len (outsize msg + 9)) o2"
  define f where "f = snd (i2c (xcalls w) req)"
  define n where "n = i2c_len (insize msg + 10)"
  define i2 where "i2 = map f [0..<n] @ drop n i1"
  define w2 where "w2 = w\<lparr>xcalls := Suc (xcalls w)\<rparr>"
  define ec2 where "ec2 = ec\<lparr>din := Some i2, dout := Some o2\<rparr>"
  have n: "n \<le> length i1" "i2c_len (outsize msg + 9) \<le> length o2"
    using i2c_len_le [of "insize msg + 10"] i2c_len_le [of "outsize msg + 9"] in_len out_len bufs prep(2)
    by (simp_all add: n_def)
  have "sint (insize msg + 10) = int (unat (insize msg) + 10)"
    "sint (outsize msg + 9) = int (unat (outsize msg) + 9)"
    using in_len(2) out_len(2) by simp_all
  then have bounds: "\<not> int (din_size ec) < sint (insize msg + 10)"
    "\<not> int (dout_size ec) < sint (outsize msg + 9)" "o1 \<noteq> []"
    using dev(3,4) bufs(2) by (simp_all only: of_nat_less_iff not_less) auto
  have steps: "buf_read o2 0 (i2c_len (outsize msg + 9)) = Some req"
    "i2c_transfer i2c req (i2c_len (insize msg + 10)) w = (fst (i2c (xcalls w) req), map f [0..<n], w2)"
    "buf_write i1 0 (map f [0..<n]) = Some i2"
    using n by (simp_all add: buf_read_def req_def i2c_transfer_def n_def w2_def buf_write_def i2_def
        f_def case_prod_unfold Let_def)
  have back_again: "ec\<lparr>dout := Some o2, dout_off := 0, din := Some i2\<rparr> = ec2"
    using dev(2) by (cases ec) (simp add: ec2_def)
  have run: "cros_ec_pkt_xfer_i2c E i2c ec msg w =
      (pkt_xfer_reply E i2 (fst (i2c (xcalls w) req)) msg \<bind>
        (\<lambda>(r, msg). Some (r, ec2, msg, w2)))"
    using dev(2) i1 bufs(1) bounds prep(1) steps back_again
    by (simp add: cros_ec_pkt_xfer_i2c_def sizes Let_def ec1_def buf_set_def)
  have "same_dev ec (ec\<lparr>din := Some i2, dout := Some o2\<rparr>)" unfolding same_dev_def
    using bufs prep(2) i1 n by (intro exI [of _ "Some i2"] exI [of _ "Some o2"]) (simp add: i2_def)
  with run n show thesis
    by (intro that [of i2 req o2 n]) (simp_all add: w2_def i2_def f_def n_def ec2_def)
qed

lemma pkt_xfer_i2c_ok:
  assumes env: "ec_env_ok E" and fits: "msg_fits msg" and ready: "pkt_ready ec msg"
  shows "ok (cros_ec_pkt_xfer_i2c E i2c ec msg w) (\<lambda>(r, ec', msg', w').
    xfer_post (unat (insize msg)) ec msg w (r, ec', msg', w') \<and> reply_checked r ec' msg')"
proof -
  obtain i1 where i1: "din ec = Some i1" "unat (insize msg) + 10 \<le> length i1"
    using ready by (auto simp: pkt_ready_def)
  obtain o2 req i2 n where run: "cros_ec_pkt_xfer_i2c E i2c ec msg w =
      (pkt_xfer_reply E i2 (fst (i2c (xcalls w) req)) msg \<bind>
        (\<lambda>(r, msg). Some (r, ec\<lparr>din := Some i2, dout := Some o2\<rparr>, msg, w\<lparr>xcalls := Suc (xcalls w)\<rparr>)))"
    and i2: "i2 = map (snd (i2c (xcalls w) req)) [0..<n] @ drop n i1" "n \<le> length i1"
    and same: "same_dev ec (ec\<lparr>din := Some i2, dout := Some o2\<rparr>)"
    by (rule pkt_xfer_i2c_run [OF env fits ready i1(1)])
  have "ok (pkt_xfer_reply E i2 (fst (i2c (xcalls w) req)) msg) (\<lambda>(r, msg').
      nat r \<le> unat (insize msg) \<and> same_msg msg msg' \<and>
      (din (ec\<lparr>din := Some i2, dout := Some o2\<rparr>) = Some i2 \<longrightarrow>
        reply_checked r (ec\<lparr>din := Some i2, dout := Some o2\<rparr>) msg'))"
    by (rule pkt_xfer_reply_ok [OF env])
      (use fits i1 i2 in \<open>simp_all add: msg_fits_def\<close>)
  then show ?thesis
    unfolding run ok_bind
    by (rule ok_mono) (use same in \<open>auto simp: xfer_post_def\<close>)
qed

lemma check_result_not_positive [simp]: "nat (cros_ec_check_result E msg) = 0"
  by (simp add: cros_ec_check_result_def)

lemma cmd_xfer_i2c_body_ok:
  assumes fits: "msg_fits msg"
    and bufs: "length in_buf = unat (insize msg) + 3" "length out_buf = unat (outsize msg) + 4"
  shows "ok (cmd_xfer_i2c_body E i2c in_buf out_buf msg w) (\<lambda>(r, msg', w').
    nat r \<le> unat (insize msg) \<and> same_msg msg msg' \<and> w' = w\<lparr>xcalls := Suc (xcalls w)\<rparr>)"
proof -
  have small: "unat (insize msg) < 2 ^ 16" "unat (outsize msg) < 2 ^ 16"
    and data: "unat (outsize msg) \<le> length (mdata msg)" "unat (insize msg) \<le> length (mdata msg)"
    using fits by (simp_all add: msg_fits_def)
  have lens: "i2c_len (outsize msg + 4) \<le> unat (outsize msg) + 4" "i2c_len (insize msg + 3) \<le> unat (insize msg) + 3"
    using i2c_len_le [of "outsize msg + 4"] i2c_len_le [of "insize msg + 3"]
      small_sum(1) [OF small(1), of 3] small_sum(1) [OF small(2), of 4] by simp_all
  show ?thesis
    unfolding cmd_xfer_i2c_body_def i2c_transfer_def
    using bufs lens data
    by (auto simp: ok_simps Let_def same_msg_def not_less word_le_nat_alt split: prod.splits)
qed

lemma cmd_xfer_i2c_ok:
  assumes fits: "msg_fits msg"
  shows "ok (cros_ec_cmd_xfer_i2c E i2c ec msg w) (xfer_post (unat (insize msg)) ec msg w)"
proof -
  have small: "unat (insize msg) < 2 ^ 16" "unat (outsize msg) < 2 ^ 16"
    using fits by (simp_all add: msg_fits_def)
  have lens: "unat (insize msg + 3) = unat (insize msg) + 3" "unat (outsize msg + 4) = unat (outsize msg) + 4"
    using small_sum(1) [OF small(1), of 3] small_sum(1) [OF small(2), of 4] by simp_all
  note body = cmd_xfer_i2c_body_ok [OF fits]
  show ?thesis
    unfolding cros_ec_cmd_xfer_i2c_def kzalloc_def kfree_opt_def
    using lens
    by (auto simp: ok_simps Let_def xfer_post_def intro!: ok_mono [OF body])
qed

interpretation i2c: ec_transport E "cros_ec_cmd_xfer_i2c E i2c" "cros_ec_pkt_xfer_i2c E i2c" for E i2c
proof unfold_locales
  fix msg ec and w :: "'a world_scheme"
  assume "ec_env_ok E" "msg_fits msg"
  then show "ok (cros_ec_cmd_xfer_i2c E i2c ec msg w) (xfer_post (unat (insize msg)) ec msg w)"
    by (simp add: cmd_xfer_i2c_ok)
next
  fix msg ec and w :: "'a world_scheme"
  assume "ec_env_ok E" "msg_fits msg" "pkt_ready ec msg"
  then show "ok (cros_ec_pkt_xfer_i2c E i2c ec msg w) (xfer_post (unat (insize msg)) ec msg w)"
    by (rule ok_mono [OF pkt_xfer_i2c_ok]) auto
qed

section \<open>The embedded controller over the bus\<close>

definition i2c_ec_cmd_xfer :: "ec_env \<Rightarrow> i2c_bus \<Rightarrow> 'z ec_xfer" where
  "i2c_ec_cmd_xfer E i2c = cros_ec_cmd_xfer E (cros_ec_cmd_xfer_i2c E i2c) (cros_ec_pkt_xfer_i2c E i2c)"

text \<open>
  C6: A command sent through \<open>cros_ec_cmd_xfer\<close> over the I2C driver, on a device whose
  protocol has been negotiated to sizes its buffers hold, never faults, whatever the bus and
  the controller answer: no \<open>BUG_ON\<close> fires, no buffer is overrun, the mutex is free again,
  every temporary buffer is released, the transfer buffers keep their sizes, the reply is
  cut to the negotiated response size and fits the caller's message.
\<close>

theorem ec_cmd_xfer_safe:
  assumes "ec_env_ok E" and "ec_ready E ec" and "\<not> ec_locked ec"
    and "unat (outsize msg) \<le> length (mdata msg)" and "unat (insize msg) \<le> length (mdata msg)"
  shows "ok (i2c_ec_cmd_xfer E i2c ec msg w) (\<lambda>(r, ec', msg', w').
    \<not> ec_locked ec' \<and> ec_ready E ec' \<and> klive w' = klive w \<and> uout w' = uout w \<and>
    map_option length (din ec') = map_option length (din ec) \<and>
    length (mdata msg') = length (mdata msg) \<and> outsize msg' = outsize msg \<and>
    insize msg' = min (insize msg) (ucast (max_response ec)) \<and>
    nat r \<le> max (unat (insize msg')) (sizeof_comms_status E))"
proof -
  have "ok (i2c_ec_cmd_xfer E i2c ec msg w) (\<lambda>(r, ec', msg', w').
    same_dev ec ec' \<and> xfer_frame w w' \<and> xfer_sizes E ec msg msg' r)"
    unfolding i2c_ec_cmd_xfer_def by (rule i2c.cros_ec_cmd_xfer_ok [OF assms])
  then show ?thesis
    by (rule ok_mono)
      (use assms(2,3) in \<open>auto simp: xfer_sizes_def same_dev_ready same_dev_fields xfer_frame_fields\<close>)
qed

section \<open>Negotiating over the bus\<close>

text \<open>
  A controller that answers every packet with the same well-formed protocol information:
  success, a full header, the right data length and checksum.
\<close>

definition answers_info :: "ec_env \<Rightarrow> (nat \<Rightarrow> byte) \<Rightarrow> byte list \<Rightarrow> bool" where
  "answers_info E f info \<longleftrightarrow>
     ucast (f 0) = res_success E \<and> 8 \<le> unat (f 1) \<and>
     unat (response_data_len E (map f [2..<10])) = sizeof_protocol_info E \<and>
     info = map f [10..<10 + sizeof_protocol_info E] \<and>
     sum_list (map f [2..<10]) + sum_list info = 0"

lemma pkt_xfer_answered:
  assumes env: "ec_env_ok E" and ready: "pkt_ready ec msg"
    and msg: "length (mdata msg) = sizeof_protocol_info E" "outsize msg = 0"
      "insize msg = of_nat (sizeof_protocol_info E)" "sizeof_protocol_info E < 2 ^ 15"
    and ans: "answers_info E f info"
  shows "\<exists>ec'. cros_ec_pkt_xfer_i2c E (\<lambda>_ _. (2, f)) ec msg w =
      Some (int (sizeof_protocol_info E), ec', msg\<lparr>result := res_success E, mdata := info\<rparr>,
        w\<lparr>xcalls := Suc (xcalls w)\<rparr>) \<and> same_dev ec ec'"
proof -
  define sz where "sz = sizeof_protocol_info E"
  have ins: "unat (insize msg) = sz" using msg(3,4) by (simp add: unat_of_nat sz_def)
  have fits: "msg_fits msg" using msg ins by (simp add: msg_fits_def sz_def)
  have sizes: "sizeof_response_i2c E = 10" "sizeof_response E = 8" "res_success E \<noteq> res_in_progress E"
    using env by (simp_all add: ec_env_ok_def sizeof_response_i2c_def)
  obtain i1 where i1: "din ec = Some i1" "sz + 10 \<le> length i1"
    using ready ins by (auto simp: pkt_ready_def)
  obtain o2 req i2 n where run: "cros_ec_pkt_xfer_i2c E (\<lambda>_ _. (2, f)) ec msg w =
      (pkt_xfer_reply E i2 2 msg \<bind>
        (\<lambda>(r, msg). Some (r, ec\<lparr>din := Some i2, dout := Some o2\<rparr>, msg, w\<lparr>xcalls := Suc (xcalls w)\<rparr>)))"
    and i2: "i2 = map f [0..<n] @ drop n i1" "n = i2c_len (insize msg + 10)"
    and same: "same_dev ec (ec\<lparr>din := Some i2, dout := Some o2\<rparr>)"
    using pkt_xfer_i2c_run [OF env fits ready i1(1), of "\<lambda>_ _. (2, f)" w thesis]
    by simp
  have n: "n = sz + 10"
    using small_sum(1) [of "insize msg" 10] ins msg(4)
    by (simp add: i2(2) i2c_len_def unsigned_ucast_eq take_bit_nat_eq_self sz_def)
  have parts: "buf_get i2 0 = Some (f 0)" "buf_get i2 (Suc 0) = Some (f 1)"
    "buf_read i2 2 8 = Some (map f [2..<10])" "buf_read i2 10 sz = Some (map f [10..<10 + sz])"
    using i1 by (auto simp: i2(1) n buf_get_def buf_read_def drop_map take_map nth_append
        add.commute [of 10] simp flip: numeral_2_eq_2)
  define hdr where "hdr = map f [2..<10]"
  have info: "info = map f [10..<10 + sz]" and sum: "sum_list hdr + sum_list info = 0"
    and head: "ucast (f 0) = res_success E" "8 \<le> unat (f 1)"
    using ans unfolding answers_info_def sz_def hdr_def by blast+
  have wr: "buf_write (mdata msg) 0 info = Some info"
    using msg(1) by (simp add: buf_write_def info sz_def)
  have dlen: "unat (response_data_len E hdr) = sz"
    and ndl: "\<not> insize msg < ucast (response_data_len E hdr)"
    using ans ins unfolding answers_info_def sz_def hdr_def
    by (blast, simp add: word_less_nat_alt)
  have "pkt_xfer_reply E i2 2 msg = Some (int sz, msg\<lparr>result := res_success E, mdata := info\<rparr>)"
    using parts [folded hdr_def info] wr sizes dlen ndl sum head
    by (simp add: pkt_xfer_reply_def Let_def not_less)
  with run same show ?thesis by (auto simp: sz_def)
qed

definition dev3 :: "ec_env \<Rightarrow> ec_dev \<Rightarrow> bool" where
  "dev3 E ec \<longleftrightarrow> proto_version ec = 3 \<and> has_pkt_xfer ec \<and> dout_off ec = 0 \<and>
     sizeof_protocol_info E + 10 \<le> din_size ec \<and> 9 \<le> dout_size ec \<and>
     (\<exists>b. din ec = Some b \<and> sizeof_protocol_info E + 10 \<le> length b) \<and>
     (\<exists>b. dout ec = Some b \<and> 9 \<le> length b)"

lemma proto_query_answered:
  assumes env: "ec_env_ok E" and dev: "dev3 E ec"
    and msg: "length (mdata msg) = sizeof_protocol_info E" "sizeof_protocol_info E < 2 ^ 15"
    and ans: "answers_info E f info"
  shows "\<exists>ec' msg'. cros_ec_host_command_proto_query E cmd (cros_ec_pkt_xfer_i2c E (\<lambda>_ _. (2, f))) ec devidx msg w =
      Some (0, ec', msg', w\<lparr>xcalls := Suc (xcalls w)\<rparr>) \<and> mdata msg' = info \<and> same_dev ec ec'"
proof -
  define q where "q = \<lparr>version = 0,
          command = or (cmd_passthru_offset E devidx) (cmd_get_protocol_info E),
          outsize = 0, insize = of_nat (sizeof_protocol_info E), result = 0, mdata = mdata msg\<rparr>"
  have "unat (insize q) = sizeof_protocol_info E" using msg(2) by (simp add: q_def unat_of_nat)
  then have ready: "pkt_ready ec q" using dev by (auto simp: dev3_def pkt_ready_def q_def)
  obtain ec' where pkt: "cros_ec_pkt_xfer_i2c E (\<lambda>_ _. (2, f)) ec q w =
      Some (int (sizeof_protocol_info E), ec', q\<lparr>result := res_success E, mdata := info\<rparr>,
        w\<lparr>xcalls := Suc (xcalls w)\<rparr>)" "same_dev ec ec'"
    using pkt_xfer_answered [OF env ready _ _ _ msg(2) ans, of w] msg by (auto simp: q_def)
  have codes: "res_success E \<noteq> res_in_progress E" "res_success E \<noteq> res_invalid_command E"
    using env by (simp_all add: ec_env_ok_def)
  have "send_command E cmd (cros_ec_pkt_xfer_i2c E (\<lambda>_ _. (2, f))) ec q w =
      Some (int (sizeof_protocol_info E), ec', q\<lparr>result := res_success E, mdata := info\<rparr>,
        w\<lparr>xcalls := Suc (xcalls w)\<rparr>)"
    using dev codes pkt(1) by (simp add: send_command_def dev3_def)
  then show ?thesis
    using dev codes pkt(2)
    by (auto simp: cros_ec_host_command_proto_query_def q_def [symmetric] dev3_def)
qed

text \<open>The sizes that \<open>cros_ec_query_all\<close> derives from the protocol information.\<close>

definition negotiated :: "ec_env \<Rightarrow> byte list \<Rightarrow> ec_dev \<Rightarrow> ec_dev" where
  "negotiated E info ec = ec\<lparr>
     max_request := info_max_request E info - 8,
     max_response := info_max_response E info - 8,
     proto_version := word_of_int (min 3 (int (fls_nat (unat (info_versions E info))) - 1)),
     din_size := unat (info_max_response E info - 8) + 8 + max_response_overhead E,
     dout_size := unat (info_max_request E info - 8) + 8 + max_request_overhead E\<rparr>"

lemma query_versions_first:
  assumes env: "ec_env_ok E" and dev: "dev3 E (ec\<lparr>proto_version := 3\<rparr>)"
    and msg: "length (mdata msg) = sizeof_protocol_info E" "sizeof_protocol_info E < 2 ^ 15"
    and ans: "answers_info E f info"
  shows "\<exists>ec1 msg1. same_dev (ec\<lparr>proto_version := 3\<rparr>) ec1 \<and> length (mdata msg1) = sizeof_protocol_info E \<and>
    query_versions E cmd (cros_ec_pkt_xfer_i2c E (\<lambda>_ _. (2, f))) ec msg w =
    do {
      (ret, ec2, msg2, w) \<leftarrow> cros_ec_host_command_proto_query E cmd (cros_ec_pkt_xfer_i2c E (\<lambda>_ _. (2, f)))
        (negotiated E info ec1) 1 msg1 (w\<lparr>xcalls := Suc (xcalls w)\<rparr>);
      (if ret \<noteq> 0 then Some (ret, True, ec2\<lparr>max_passthru := 0\<rparr>, w)
       else do {
         info \<leftarrow> buf_read (mdata msg2) 0 (sizeof_protocol_info E);
         Some (ret, True, ec2\<lparr>max_passthru := info_max_request E info - of_nat (sizeof_request E)\<rparr>, w)
       })
    }"
proof -
  obtain ec1 msg1 where q: "cros_ec_host_command_proto_query E cmd (cros_ec_pkt_xfer_i2c E (\<lambda>_ _. (2, f)))
      (ec\<lparr>proto_version := 3\<rparr>) 0 msg w = Some (0, ec1, msg1, w\<lparr>xcalls := Suc (xcalls w)\<rparr>)"
    "mdata msg1 = info" "same_dev (ec\<lparr>proto_version := 3\<rparr>) ec1"
    using proto_query_answered [OF env dev msg ans] by blast
  have len: "length info = sizeof_protocol_info E" using ans by (simp add: answers_info_def)
  have sizes: "sizeof_request E = 8" "sizeof_response E = 8" "host_request_version E = 3"
    using env by (simp_all add: ec_env_ok_def)
  show ?thesis
    using q len
    by (intro exI [of _ ec1] exI [of _ msg1])
      (simp add: query_versions_def buf_read_def sizes negotiated_def Let_def)
qed
lemma fls_nat_Suc: "0 < n \<Longrightarrow> fls_nat n = Suc (fls_nat (n div 2))"
  by (subst fls_nat.simps) simp

lemma fls_nat_ge4: "8 \<le> n \<Longrightarrow> 4 \<le> fls_nat n"
  using fls_nat_Suc [of n] fls_nat_Suc [of "n div 2"] fls_nat_Suc [of "n div 2 div 2"]
    fls_nat_Suc [of "n div 2 div 2 div 2"] by (simp add: div_mult2_eq [symmetric])

lemma fls_nat_0 [simp]: "fls_nat 0 = 0"
  by (simp add: fls_nat.simps)

lemma negotiated_proto3:
  "8 \<le> unat (info_versions E info) \<Longrightarrow> proto_version (negotiated E info ec) = 3"
  using fls_nat_ge4 [of "unat (info_versions E info)"] by (simp add: negotiated_def min_def)

lemma negotiated_dev3:
  assumes env: "ec_env_ok E" and dev: "dev3 E ec"
    and proto: "8 \<le> unat (info_versions E info)"
    and resp: "sizeof_protocol_info E \<le> unat (info_max_response E info - 8)"
  shows "dev3 E (negotiated E info ec)"
  using env dev resp negotiated_proto3 [OF proto, of ec]
  by (auto simp: dev3_def ec_env_ok_def negotiated_def)

lemma same_dev_dev3: "same_dev ec ec' \<Longrightarrow> dev3 E ec \<Longrightarrow> dev3 E ec'"
  by (auto simp: same_dev_def dev3_def)

lemma query_versions_answered:
  assumes env: "ec_env_ok E" and dev: "dev3 E (ec\<lparr>proto_version := 3\<rparr>)"
    and msg: "length (mdata msg) = sizeof_protocol_info E" "sizeof_protocol_info E < 2 ^ 15"
    and ans: "answers_info E f info" and proto: "8 \<le> unat (info_versions E info)"
    and resp: "sizeof_protocol_info E \<le> unat (info_max_response E info - 8)"
  shows "\<exists>ec1 ec2. same_dev (ec\<lparr>proto_version := 3\<rparr>) ec1 \<and> same_dev (negotiated E info ec1) ec2 \<and>
    query_versions E cmd (cros_ec_pkt_xfer_i2c E (\<lambda>_ _. (2, f))) ec msg w =
      Some (0, True, ec2\<lparr>max_passthru := info_max_request E info - 8\<rparr>,
        w\<lparr>xcalls := Suc (Suc (xcalls w))\<rparr>)"
proof -
  obtain ec1 msg1 where first: "same_dev (ec\<lparr>proto_version := 3\<rparr>) ec1"
    "length (mdata msg1) = sizeof_protocol_info E"
    "query_versions E cmd (cros_ec_pkt_xfer_i2c E (\<lambda>_ _. (2, f))) ec msg w =
    do {
      (ret, ec2, msg2, w) \<leftarrow> cros_ec_host_command_proto_query E cmd (cros_ec_pkt_xfer_i2c E (\<lambda>_ _. (2, f)))
        (negotiated E info ec1) 1 msg1 (w\<lparr>xcalls := Suc (xcalls w)\<rparr>);
      (if ret \<noteq> 0 then Some (ret, True, ec2\<lparr>max_passthru := 0\<rparr>, w)
       else do {
         info \<leftarrow> buf_read (mdata msg2) 0 (sizeof_protocol_info E);
         Some (ret, True, ec2\<lparr>max_passthru := info_max_request E info - of_nat (sizeof_request E)\<rparr>, w)
       })
    }"
    using query_versions_first [OF env dev msg ans, of cmd w] by blast
  have "dev3 E (negotiated E info ec1)"
    by (rule negotiated_dev3 [OF env same_dev_dev3 [OF first(1) dev] proto resp])
  then obtain ec2 msg2 where second: "cros_ec_host_command_proto_query E cmd
        (cros_ec_pkt_xfer_i2c E (\<lambda>_ _. (2, f))) (negotiated E info ec1) 1 msg1 (w\<lparr>xcalls := Suc (xcalls w)\<rparr>)
      = Some (0, ec2, msg2, w\<lparr>xcalls := Suc (Suc (xcalls w))\<rparr>)"
    "mdata msg2 = info" "same_dev (negotiated E info ec1) ec2"
    using proto_query_answered [OF env _ first(2) msg(2) ans, of "negotiated E info ec1" cmd 1
        "w\<lparr>xcalls := Suc (xcalls w)\<rparr>"] by auto
  have len: "length info = sizeof_protocol_info E" "sizeof_request E = 8"
    using ans env by (simp_all add: answers_info_def ec_env_ok_def)
  show ?thesis
    using first(1) second(3)
    by (intro exI [of _ ec1] exI [of _ ec2]) (simp add: first(3) second(1,2) len buf_read_def del: One_nat_def)
qed

definition i2c_ec_query_all ::
  "ec_env \<Rightarrow> i2c_bus \<Rightarrow> ec_dev \<Rightarrow> 'z world_scheme \<Rightarrow> (int \<times> ec_dev \<times> 'z world_scheme) option" where
  "i2c_ec_query_all E i2c = cros_ec_query_all E (cros_ec_cmd_xfer_i2c E i2c) (cros_ec_pkt_xfer_i2c E i2c)"

lemma length_msg_zeros: "length (mdata (msg_of_image E (replicate (sizeof_cmd E + k) 0))) = k"
  by (simp add: msg_of_image_def case_prod_unfold Let_def)

lemma prepare_tx_needs_version_3:
  assumes "ec_env_ok E" and "2 < proto_version ec" and "proto_version ec \<noteq> 3"
  shows "cros_ec_prepare_tx E ec msg = None"
  using assms by (simp add: cros_ec_prepare_tx_def prepare_packet_def ec_env_ok_def)

lemma pkt_xfer_needs_version_3:
  assumes "ec_env_ok E" and "2 < proto_version ec" and "proto_version ec \<noteq> 3"
  shows "cros_ec_pkt_xfer_i2c E i2c ec msg w = None"
  using assms prepare_tx_needs_version_3 [OF assms(1)]
  by (simp add: cros_ec_pkt_xfer_i2c_def Let_def bind_eq_None_conv)

text \<open>
  A controller whose protocol information names no version at all crashes the kernel:
  the version is computed as \<open>fls(0) - 1\<close>, which is 65535 in its 16 bits, and the next packet
  hits the \<open>BUG_ON\<close> of \<open>prepare_packet\<close>.
\<close>

theorem ec_query_all_no_version_bug:
  assumes env: "ec_env_ok E" and dev: "dev3 E (ec\<lparr>proto_version := 3\<rparr>)"
    and small: "sizeof_protocol_info E < 2 ^ 15" and ans: "answers_info E f info"
    and proto: "info_versions E info = 0" and mem: "\<not> kfail w (knext w)"
  shows "i2c_ec_query_all E (\<lambda>_ _. (2, f)) ec (w :: 'z world_scheme) = None"
proof -
  define w1 where "w1 = w\<lparr>knext := Suc (knext w), klive := knext w # klive w\<rparr>"
  define pkt where "pkt = (cros_ec_pkt_xfer_i2c E (\<lambda>_ _. (2, f)) :: 'z ec_xfer)"
  obtain ec1 msg1 where same: "same_dev (ec\<lparr>proto_version := 3\<rparr>) ec1"
    and first: "query_versions E (cros_ec_cmd_xfer_i2c E (\<lambda>_ _. (2, f))) pkt ec
      (msg_of_image E (replicate (sizeof_cmd E + sizeof_protocol_info E) 0)) w1 =
    do {
      (ret, ec2, msg2, w) \<leftarrow> cros_ec_host_command_proto_query E (cros_ec_cmd_xfer_i2c E (\<lambda>_ _. (2, f)))
        pkt (negotiated E info ec1) 1 msg1 (w1\<lparr>xcalls := Suc (xcalls w1)\<rparr>);
      (if ret \<noteq> 0 then Some (ret, True, ec2\<lparr>max_passthru := 0\<rparr>, w)
       else do {
         info \<leftarrow> buf_read (mdata msg2) 0 (sizeof_protocol_info E);
         Some (ret, True, ec2\<lparr>max_passthru := info_max_request E info - of_nat (sizeof_request E)\<rparr>, w)
       })
    }"
    using query_versions_first [OF env dev length_msg_zeros small ans] unfolding pkt_def by blast
  have v: "proto_version (negotiated E info ec1) = - 1" using proto by (simp add: negotiated_def)
  have "has_pkt_xfer (negotiated E info ec1)"
    using same dev by (auto simp: same_dev_def dev3_def negotiated_def)
  moreover have "pkt (negotiated E info ec1) msg w = None" for msg w
    unfolding pkt_def by (rule pkt_xfer_needs_version_3 [OF env]) (simp_all add: v)
  moreover have "2 < proto_version (negotiated E info ec1)" by (simp add: v)
  ultimately have "cros_ec_host_command_proto_query E c pkt (negotiated E info ec1) 1 msg1 w' = None" for c w'
    by (simp add: cros_ec_host_command_proto_query_def send_command_def Let_def)
  then show ?thesis
    using mem first
    by (simp add: i2c_ec_query_all_def cros_ec_query_all_def kzalloc_def pkt_def [symmetric] w1_def [symmetric] Let_def)
qed

text \<open>
  When the transfer buffer cannot be replaced after a successful negotiation, the query
  fails with \<open>-ENOMEM\<close> but keeps the negotiated version although both buffers are gone; the
  next command of any size the device accepts then uses the released buffer, whatever the
  bus does.
\<close>

theorem ec_query_all_nomem_dangling:
  assumes env: "ec_env_ok E" and dev: "dev3 E (ec\<lparr>proto_version := 3\<rparr>)" and free: "\<not> ec_locked ec"
    and small: "sizeof_protocol_info E < 2 ^ 15" and ans: "answers_info E f info"
    and proto: "8 \<le> unat (info_versions E info)"
    and resp: "sizeof_protocol_info E \<le> unat (info_max_response E info - 8)"
    and mem: "\<not> kfail w (knext w)" "kfail w (Suc (knext w))"
  shows "ok (i2c_ec_query_all E (\<lambda>_ _. (2, f)) ec w) (\<lambda>(r, ec', w'). r = - ENOMEM \<and>
    (\<forall>i2c msg w2. \<not> ucast (max_request ec') < outsize msg \<and> command msg < cmd_passthru_offset E 1 \<longrightarrow>
       i2c_ec_cmd_xfer E i2c ec' msg (w2 :: 'z world_scheme) = None))"
proof -
  define w1 where "w1 = w\<lparr>knext := Suc (knext w), klive := knext w # klive w\<rparr>"
  obtain ec1 ec2 where same: "same_dev (ec\<lparr>proto_version := 3\<rparr>) ec1"
    and q: "same_dev (negotiated E info ec1) ec2"
    "query_versions E (cros_ec_cmd_xfer_i2c E (\<lambda>_ _. (2, f))) (cros_ec_pkt_xfer_i2c E (\<lambda>_ _. (2, f))) ec
       (msg_of_image E (replicate (sizeof_cmd E + sizeof_protocol_info E) 0)) w1 =
      Some (0, True, ec2\<lparr>max_passthru := info_max_request E info - 8\<rparr>,
        w1\<lparr>xcalls := Suc (Suc (xcalls w1))\<rparr>)"
    using query_versions_answered [OF env dev length_msg_zeros small ans proto resp] by blast
  define ec' where "ec' = ec2\<lparr>max_passthru := info_max_request E info - 8, din := None, dout := None\<rparr>"
  have run: "i2c_ec_query_all E (\<lambda>_ _. (2, f)) ec w =
      Some (- ENOMEM, ec', w\<lparr>knext := Suc (Suc (knext w)), xcalls := Suc (Suc (xcalls w))\<rparr>)"
    using mem
    by (simp add: i2c_ec_query_all_def cros_ec_query_all_def kzalloc_def devm_kzalloc_def Let_def
        w1_def [symmetric] q(2) ec'_def) (simp add: w1_def kfree_def)
  have three: "proto_version (negotiated E info ec1) = 3" by (rule negotiated_proto3 [OF proto])
  have dev': "proto_version ec' = 3" "dout ec' = None" "\<not> ec_locked ec'" "has_pkt_xfer ec'"
    using q(1) three same free dev by (auto simp: ec'_def same_dev_def negotiated_def dev3_def)
  have "cros_ec_pkt_xfer_i2c E i2c (ec'\<lparr>ec_locked := True\<rparr>) m w2 = None" for i2c m and w2 :: "'z world_scheme"
    using dev' by (simp add: cros_ec_pkt_xfer_i2c_def Let_def)
  then have "i2c_ec_cmd_xfer E i2c ec' msg w2 = None"
    if "\<not> ucast (max_request ec') < outsize msg" "command msg < cmd_passthru_offset E 1"
    for i2c msg and w2 :: "'z world_scheme"
    using that dev' env
    by (simp add: i2c_ec_cmd_xfer_def cros_ec_cmd_xfer_def ec_lock_def send_command_def ec_env_ok_def Let_def)
  then show ?thesis by (simp add: run)
qed
section \<open>Concrete runs\<close>

definition ec_world :: world where
  "ec_world = \<lparr>umem = \<lambda>_ _. Some 0, utime = 0, uout = [], kfail = \<lambda>_. False, kjunk = \<lambda>_ _. 0,
     knext = 0, klive = [], xcalls = 0\<rparr>"

definition ec_probed :: ec_dev where
  "ec_probed = \<lparr>max_request = 0, max_response = 0, max_passthru = 0, proto_version = 0,
     din = Some (replicate 22 0), dout = Some (replicate 9 0), dout_off = 0,
     din_size = 22, dout_size = 9, has_pkt_xfer = True, ec_locked = False\<rparr>"

definition info_reply :: "byte \<Rightarrow> byte \<Rightarrow> nat \<Rightarrow> byte" where
  "info_reply versions check i =
     (if i < 22 then [0, 20, 3, check, 0, 0, 12, 0, 0, 0, versions, 0, 0, 0, 72, 0, 72, 0, 0, 0, 0, 0] ! i else 0)"

definition info_bytes :: "byte \<Rightarrow> byte list" where
  "info_bytes versions = [versions, 0, 0, 0, 72, 0, 72, 0, 0, 0, 0, 0]"

lemma ec_probed_dev3: "dev3 cros_headers (ec_probed\<lparr>proto_version := 3\<rparr>)"
  by (simp add: dev3_def ec_probed_def cros_headers_def)

lemma info_reply_answers:
  "answers_info cros_headers (info_reply 8 89) (info_bytes 8)"
  "answers_info cros_headers (info_reply 0 97) (info_bytes 0)"
  by (simp_all add: answers_info_def info_reply_def info_bytes_def cros_headers_def le16_at_def)

lemma info_sizes:
  "sizeof_protocol_info cros_headers < 2 ^ 15" "8 \<le> unat (info_versions cros_headers (info_bytes 8))"
  "sizeof_protocol_info cros_headers \<le> unat (info_max_response cros_headers (info_bytes 8) - 8)"
  "info_versions cros_headers (info_bytes 0) = 0"
  by (simp_all add: info_bytes_def cros_headers_def le16_at_def le32_at_def)


lemma ec_query_all_no_version_bug_witness:
  "i2c_ec_query_all cros_headers (\<lambda>_ _. (2, info_reply 0 97)) ec_probed ec_world = None"
  by (rule ec_query_all_no_version_bug [OF cros_headers_ok ec_probed_dev3 info_sizes(1) info_reply_answers(2)
        info_sizes(4)]) (simp add: ec_world_def)

lemma ec_query_all_nomem_dangling_witness:
  "ok (i2c_ec_query_all cros_headers (\<lambda>_ _. (2, info_reply 8 89)) ec_probed
       (ec_world\<lparr>kfail := \<lambda>n. n = 1\<rparr>)) (\<lambda>(r, ec', w'). r = - ENOMEM \<and>
    (\<forall>i2c msg w2. \<not> ucast (max_request ec') < outsize msg \<and> command msg < cmd_passthru_offset cros_headers 1 \<longrightarrow>
       i2c_ec_cmd_xfer cros_headers i2c ec' msg (w2 :: world) = None))"
  by (rule ec_query_all_nomem_dangling [OF cros_headers_ok ec_probed_dev3 _ info_sizes(1)
        info_reply_answers(1) info_sizes(2,3)]) (simp_all add: ec_world_def ec_probed_def)

definition ec_negotiated :: ec_dev where
  "ec_negotiated = \<lparr>max_request = 8, max_response = 8, max_passthru = 0, proto_version = 3,
     din = Some (replicate 18 0), dout = Some (replicate 17 0), dout_off = 0,
     din_size = 18, dout_size = 17, has_pkt_xfer = True, ec_locked = False\<rparr>"

definition ec_hello :: ec_msg where
  "ec_hello = \<lparr>version = 0, command = 1, outsize = 4, insize = 4, result = 0, mdata = [1, 2, 3, 4]\<rparr>"

lemma ec_cmd_xfer_safe_witness:
  "ok (i2c_ec_cmd_xfer cros_headers (\<lambda>_ _. (2, info_reply 8 89)) ec_negotiated ec_hello ec_world)
    (\<lambda>(r, ec', msg', w'). \<not> ec_locked ec' \<and> ec_ready cros_headers ec' \<and> klive w' = klive ec_world \<and>
    uout w' = uout ec_world \<and>
    map_option length (din ec') = map_option length (din ec_negotiated) \<and>
    length (mdata msg') = length (mdata ec_hello) \<and> outsize msg' = outsize ec_hello \<and>
    insize msg' = min (insize ec_hello) (ucast (max_response ec_negotiated)) \<and>
    nat r \<le> max (unat (insize msg')) (sizeof_comms_status cros_headers))"
  by (rule ec_cmd_xfer_safe [OF cros_headers_ok])
    (simp_all add: ec_ready_def ec_negotiated_def ec_hello_def cros_headers_def)

text \<open>
  A packet of protocol version 3 is the header followed by the command's data, and all
  its bytes sum to zero; the bytes the bus driver put in front of it stay as they are.
\<close>

theorem ec_packet_sums_to_zero:
  assumes "ec_env_ok E" and "proto_version ec = 3"
    and "unat (outsize msg) + 8 \<le> dout_size ec" and "unat (outsize msg) \<le> length (mdata msg)"
    and "dout ec = Some out" and "dout_off ec + 8 + unat (outsize msg) \<le> length out"
  shows "ok (prepare_packet E ec msg) (\<lambda>(n, ec'). n = 8 + int (unat (outsize msg)) \<and>
    (\<exists>out'. dout ec' = Some out' \<and> length out' = length out \<and>
       take (dout_off ec) out' = take (dout_off ec) out \<and>
       sum_list (take (nat n) (drop (dout_off ec) out')) = 0 \<and>
       take (unat (outsize msg)) (drop (dout_off ec + 8) out') = take (unat (outsize msg)) (mdata msg)))"
proof (rule ok_mono [OF prepare_packet_ok [OF assms]], clarify)
  fix n hdr
  assume hdr: "length hdr = 8" "sum_list hdr + sum_list (take (unat (outsize msg)) (mdata msg)) = 0"
  define len where "len = unat (outsize msg)"
  define out' where "out' = take (dout_off ec) out @ hdr @ take len (mdata msg) @ drop (dout_off ec + 8 + len) out"
  have lens: "length (take (dout_off ec) out) = dout_off ec" "length (take len (mdata msg)) = len"
    using assms(4,6) by (simp_all add: len_def)
  have 1: "drop (dout_off ec) out' = hdr @ take len (mdata msg) @ drop (dout_off ec + 8 + len) out"
    and 2: "drop (dout_off ec + 8) out' = take len (mdata msg) @ drop (dout_off ec + 8 + len) out"
    using lens hdr(1) by (simp_all add: out'_def)
  have n: "nat (8 + int len) = 8 + len" by simp
  show "8 + int (unat (outsize msg)) = 8 + int (unat (outsize msg)) \<and>
    (\<exists>x. dout (ec\<lparr>dout := Some (take (dout_off ec) out @ hdr @ take (unat (outsize msg)) (mdata msg) @
            drop (dout_off ec + 8 + unat (outsize msg)) out)\<rparr>) = Some x \<and> length x = length out \<and>
       take (dout_off ec) x = take (dout_off ec) out \<and>
       sum_list (take (nat (8 + int (unat (outsize msg)))) (drop (dout_off ec) x)) = 0 \<and>
       take (unat (outsize msg)) (drop (dout_off ec + 8) x) = take (unat (outsize msg)) (mdata msg))"
    unfolding len_def [symmetric] out'_def [symmetric] n
    using assms(6) hdr lens by (simp add: 1 2 len_def [symmetric]) (simp add: out'_def len_def)
qed

lemma ec_packet_sums_to_zero_witness:
  "ok (prepare_packet cros_headers ec_negotiated ec_hello) (\<lambda>(n, ec'). n = 8 + int (unat (outsize ec_hello)) \<and>
    (\<exists>out'. dout ec' = Some out' \<and> length out' = length (replicate 17 (0 :: byte)) \<and>
       take (dout_off ec_negotiated) out' = take (dout_off ec_negotiated) (replicate 17 0) \<and>
       sum_list (take (nat n) (drop (dout_off ec_negotiated) out')) = 0 \<and>
       take (unat (outsize ec_hello)) (drop (dout_off ec_negotiated + 8) out')
         = take (unat (outsize ec_hello)) (mdata ec_hello)))"
  by (rule ec_packet_sums_to_zero [OF cros_headers_ok])
    (simp_all add: ec_negotiated_def ec_hello_def)



end
