(* ===== verification/CrosDev.thy ===== *)
theory CrosDev
  imports CrosI2c
begin

text \<open>
  The character device of the embedded controller, \<open>cros_ec_dev.c\<close>: reading the version,
  the ioctl that passes a command through to the controller (the original and the file with
  the double-fetch patch), the ioctl that reads its memory, and the set-up and removal of the
  device and of the driver.

  \<open>xfer\<close> stands for \<open>cros_ec_cmd_xfer\<close>, the entry point of the protocol code; the
  theorems use it over the I2C driver.
\<close>

section \<open>Data\<close>

text \<open>\<open>struct cros_ec_dev\<close>: the offset added to every command, and the controller behind it.\<close>

record ec_cdev =
  cmd_offset :: u32
  chip :: ec_dev

text \<open>
  What the file takes from \<open>cros_ec_dev.h\<close> and the protocol header: the version text of the
  driver, the layout of the version reply and of the memory request, and the ioctl numbers.
\<close>

record ec_dev_env =
  dev_version :: "byte list"
  cmd_get_version :: u32
  sizeof_version_resp :: nat
  ro_off :: nat
  rw_off :: nat
  image_off :: nat
  sizeof_readmem :: nat
  readmem_offset :: "byte list \<Rightarrow> u32"
  readmem_bytes :: "byte list \<Rightarrow> u32"
  readmem_buffer_off :: nat
  dev_ioc :: u32
  ioc_xcmd :: u32
  ioc_rdmem :: u32

text \<open>The image number lies behind both version texts, inside the reply.\<close>

definition ec_dev_env_ok :: "ec_dev_env \<Rightarrow> bool" where
  "ec_dev_env_ok D \<longleftrightarrow> ro_off D \<le> image_off D \<and> rw_off D \<le> image_off D \<and>
     image_off D + 4 \<le> sizeof_version_resp D \<and> sizeof_version_resp D < 2 ^ 16 \<and>
     readmem_buffer_off D \<le> sizeof_readmem D"

section \<open>Text\<close>

definition bytes_of :: "string \<Rightarrow> byte list" where
  "bytes_of s = map of_char s"

text \<open>The C string that starts at an offset: up to a NUL, which must come inside the object.\<close>

definition cstr_at :: "byte list \<Rightarrow> nat \<Rightarrow> byte list option" where
  "cstr_at b off =
     (let t = drop off b in if 0 \<in> set t then Some (takeWhile (\<lambda>x. x \<noteq> 0) t) else None)"

fun dec_digits :: "nat \<Rightarrow> byte list" where
  "dec_digits n = (if n < 10 then [48 + of_nat n] else dec_digits (n div 10) @ [48 + of_nat (n mod 10)])"

declare dec_digits.simps [simp del]

definition dec_int :: "int \<Rightarrow> byte list" where
  "dec_int i = (if i < 0 then bytes_of ''-'' @ dec_digits (nat (- i)) else dec_digits (nat i))"

text \<open>What \<open>snprintf\<close> leaves in a buffer of \<open>n > 0\<close> bytes, without the closing NUL.\<close>

definition snprintf :: "nat \<Rightarrow> byte list \<Rightarrow> byte list" where
  "snprintf n text = take (n - 1) text"

section \<open>Reading the version\<close>

definition current_image_name :: "byte list list" where
  "current_image_name = map bytes_of [''unknown'', ''read-only'', ''read-write'', ''invalid'']"

definition nl :: "byte list" where
  "nl = [10]"

text \<open>The text \<open>ec_get_version\<close> makes of the reply, and its result.\<close>

definition version_text :: "ec_env \<Rightarrow> ec_dev_env \<Rightarrow> nat \<Rightarrow> int \<Rightarrow> ec_msg \<Rightarrow> (int \<times> byte list) option" where
  "version_text E D maxlen ret msg =
     (if ret < 0 then Some (ret, [])
      else if result msg \<noteq> res_success E
      then Some (- EINVAL, snprintf maxlen (dev_version D @ nl @
        bytes_of ''Unknown EC version: EC returned '' @ dec_int (sint (result msg)) @ nl))
      else do {
        image \<leftarrow> buf_read (mdata msg) (image_off D) 4;
        data \<leftarrow> (if unat (le32_at image 0) \<ge> length current_image_name
          then buf_write (mdata msg) (image_off D) (le32_bytes 3) else Some (mdata msg));
        ro \<leftarrow> cstr_at data (ro_off D);
        rw \<leftarrow> cstr_at data (rw_off D);
        name \<leftarrow> buf_get current_image_name (unat (le32_at data (image_off D)));
        Some (0, snprintf maxlen (dev_version D @ nl @ ro @ nl @ rw @ nl @ name @ nl))
      })"

definition ec_get_version ::
  "ec_env \<Rightarrow> ec_dev_env \<Rightarrow> 'z ec_xfer \<Rightarrow> ec_cdev \<Rightarrow> nat \<Rightarrow> 'z world_scheme \<Rightarrow>
   (int \<times> byte list \<times> ec_cdev \<times> 'z world_scheme) option" where
  "ec_get_version E D xfer ec maxlen w =
     (case kmalloc (sizeof_cmd E + sizeof_version_resp D) w of
        (None, w) \<Rightarrow> Some (- ENOMEM, [], ec, w)
      | (Some (k, junk), w) \<Rightarrow> do {
          let msg = (msg_of_image E junk)\<lparr>version := 0, command := cmd_get_version D + cmd_offset ec,
            insize := of_nat (sizeof_version_resp D), outsize := 0\<rparr>;
          (ret, dev, msg, w) \<leftarrow> xfer (chip ec) msg w;
          let ec = ec\<lparr>chip := dev\<rparr>;
          (ret, str) \<leftarrow> version_text E D maxlen ret msg;
          w \<leftarrow> kfree k w;
          Some (ret, str, ec, w)
        })"

text \<open>
  Opening keeps a pointer to the device in the file, releasing does nothing; reading copies
  the version text once, at offset 0. The array \<open>msg\<close> has room for the reply and the driver's
  version text with its NUL.
\<close>

definition ec_device_open :: "ec_cdev \<Rightarrow> int \<times> ec_cdev" where
  "ec_device_open ec = (0, ec)"

definition ec_device_release :: "ec_cdev \<Rightarrow> int" where
  "ec_device_release ec = 0"

definition ec_device_read ::
  "ec_env \<Rightarrow> ec_dev_env \<Rightarrow> 'z ec_xfer \<Rightarrow> ec_cdev \<Rightarrow> nat \<Rightarrow> nat \<Rightarrow> int \<Rightarrow> 'z world_scheme \<Rightarrow>
   (int \<times> int \<times> ec_cdev \<times> 'z world_scheme) option" where
  "ec_device_read E D xfer ec buffer len offset w =
     (if offset \<noteq> 0 then Some (0, offset, ec, w)
      else do {
        (ret, msg, ec, w) \<leftarrow> ec_get_version E D xfer ec
          (sizeof_version_resp D + (length (dev_version D) + 1)) w;
        (if ret \<noteq> 0 then Some (ret, offset, ec, w)
         else
           let count = min len (length msg) in
           (case copy_to_user buffer (take count msg) w of
              (True, w) \<Rightarrow> Some (- EFAULT, offset, ec, w)
            | (False, w) \<Rightarrow> Some (int count, int count, ec, w)))
      })"

section \<open>Passing a command through\<close>

text \<open>
  The part of \<open>ec_device_ioctl_xcmd\<close> after the second fetch: \<open>u_cmd\<close> is the header of the
  first fetch, \<open>img\<close> the object \<open>s_cmd\<close> points to.
\<close>

definition xcmd_run ::
  "ec_env \<Rightarrow> 'z ec_xfer \<Rightarrow> ec_cdev \<Rightarrow> nat \<Rightarrow> ec_msg \<Rightarrow> byte list \<Rightarrow> 'z world_scheme \<Rightarrow>
   (int \<times> ec_cdev \<times> 'z world_scheme) option" where
  "xcmd_run E xfer ec arg u_cmd img w = do {
     let s_cmd = msg_of_image E img;
     let s_cmd = s_cmd\<lparr>command := command s_cmd + cmd_offset ec\<rparr>;
     (ret, dev, s_cmd, w) \<leftarrow> xfer (chip ec) s_cmd w;
     let ec = ec\<lparr>chip := dev\<rparr>;
     (if ret < 0 then Some (ret, ec, w)
      else do {
        out \<leftarrow> buf_read (image_of_msg E s_cmd) 0 (sizeof_cmd E + unat (insize u_cmd));
        (case copy_to_user arg out w of
           (True, w) \<Rightarrow> Some (- EFAULT, ec, w)
         | (False, w) \<Rightarrow> Some (ret, ec, w))
      })
   }"

definition ec_device_ioctl_xcmd ::
  "ec_env \<Rightarrow> 'z ec_xfer \<Rightarrow> ec_cdev \<Rightarrow> nat \<Rightarrow> 'z world_scheme \<Rightarrow>
   (int \<times> ec_cdev \<times> 'z world_scheme) option" where
  "ec_device_ioctl_xcmd E xfer ec arg w =
     (case copy_from_user arg (sizeof_cmd E) w of
        (None, w) \<Rightarrow> Some (- EFAULT, ec, w)
      | (Some hdr, w) \<Rightarrow>
          let u_cmd = msg_of_image E hdr in
          (case kmalloc (sizeof_cmd E + unat (max (outsize u_cmd) (insize u_cmd))) w of
             (None, w) \<Rightarrow> Some (- ENOMEM, ec, w)
           | (Some (k, junk), w) \<Rightarrow> do {
               (ret, ec, w) \<leftarrow>
                 (case copy_from_user arg (sizeof_cmd E + unat (outsize u_cmd)) w of
                    (None, w) \<Rightarrow> Some (- EFAULT, ec, w)
                  | (Some bs, w) \<Rightarrow> do {
                      img \<leftarrow> buf_write junk 0 bs;
                      xcmd_run E xfer ec arg u_cmd img w
                    });
               w \<leftarrow> kfree k w;
               Some (ret, ec, w)
             }))"

text \<open>The patched file compares the two headers byte by byte before it goes on.\<close>

definition ec_device_ioctl_xcmd_patched ::
  "ec_env \<Rightarrow> 'z ec_xfer \<Rightarrow> ec_cdev \<Rightarrow> nat \<Rightarrow> 'z world_scheme \<Rightarrow>
   (int \<times> ec_cdev \<times> 'z world_scheme) option" where
  "ec_device_ioctl_xcmd_patched E xfer ec arg w =
     (case copy_from_user arg (sizeof_cmd E) w of
        (None, w) \<Rightarrow> Some (- EFAULT, ec, w)
      | (Some hdr, w) \<Rightarrow>
          let u_cmd = msg_of_image E hdr in
          (case kmalloc (sizeof_cmd E + unat (max (outsize u_cmd) (insize u_cmd))) w of
             (None, w) \<Rightarrow> Some (- ENOMEM, ec, w)
           | (Some (k, junk), w) \<Rightarrow> do {
               (ret, ec, w) \<leftarrow>
                 (case copy_from_user arg (sizeof_cmd E + unat (outsize u_cmd)) w of
                    (None, w) \<Rightarrow> Some (- EFAULT, ec, w)
                  | (Some bs, w) \<Rightarrow> do {
                      img \<leftarrow> buf_write junk 0 bs;
                      s_hdr \<leftarrow> buf_read img 0 (sizeof_cmd E);
                      (if hdr \<noteq> s_hdr then Some (- EFAULT, ec, w)
                       else xcmd_run E xfer ec arg u_cmd img w)
                    });
               w \<leftarrow> kfree k w;
               Some (ret, ec, w)
             }))"

text \<open>
  \<open>readmem\<close> stands for the function pointer \<open>cmd_readmem\<close> (\<open>None\<close> when it is NULL): it
  takes offset, length and the buffer, and gives its result and the buffer afterwards.
\<close>

definition ec_device_ioctl_readmem ::
  "ec_dev_env \<Rightarrow> (u32 \<Rightarrow> u32 \<Rightarrow> byte list \<Rightarrow> int \<times> byte list) option \<Rightarrow> ec_cdev \<Rightarrow> nat \<Rightarrow>
   'z world_scheme \<Rightarrow> (int \<times> 'z world_scheme) option" where
  "ec_device_ioctl_readmem D readmem ec arg w =
     (case readmem of
        None \<Rightarrow> Some (- ENOTTY, w)
      | Some f \<Rightarrow>
          (case copy_from_user arg (sizeof_readmem D) w of
             (None, w) \<Rightarrow> Some (- EFAULT, w)
           | (Some s_mem, w) \<Rightarrow>
               let (num, buf) = f (readmem_offset D s_mem) (readmem_bytes D s_mem)
                     (drop (readmem_buffer_off D) s_mem) in
               if num \<le> 0 then Some (num, w)
               else do {
                 s_mem \<leftarrow> buf_write s_mem (readmem_buffer_off D) buf;
                 (case copy_to_user arg s_mem w of
                    (True, w) \<Rightarrow> Some (- EFAULT, w)
                  | (False, w) \<Rightarrow> Some (0, w))
               }))"

definition ec_device_ioctl ::
  "ec_env \<Rightarrow> ec_dev_env \<Rightarrow> 'z ec_xfer \<Rightarrow> (u32 \<Rightarrow> u32 \<Rightarrow> byte list \<Rightarrow> int \<times> byte list) option \<Rightarrow>
   ec_cdev \<Rightarrow> u32 \<Rightarrow> nat \<Rightarrow> 'z world_scheme \<Rightarrow> (int \<times> ec_cdev \<times> 'z world_scheme) option" where
  "ec_device_ioctl E D xfer readmem ec cmd arg w =
     (if and (drop_bit 8 cmd) 0xff \<noteq> dev_ioc D then Some (- ENOTTY, ec, w)
      else if cmd = ioc_xcmd D then ec_device_ioctl_xcmd E xfer ec arg w
      else if cmd = ioc_rdmem D then do {
        (ret, w) \<leftarrow> ec_device_ioctl_readmem D readmem ec arg w;
        Some (ret, ec, w)
      }
      else Some (- ENOTTY, ec, w))"

section \<open>Set-up and removal\<close>

text \<open>
  The platform device and what is registered for it. The results of the kernel's functions
  are arguments: \<open>0\<close> is success. The memory of \<open>struct cros_ec_dev\<close> is the entry \<open>k\<close> of
  the live objects.
\<close>

record ec_pdev =
  drvdata :: "nat option"
  cdev_live :: bool
  class_dev_live :: bool

definition ec_device_probe ::
  "nat \<Rightarrow> int \<Rightarrow> int \<Rightarrow> int \<Rightarrow> ec_pdev \<Rightarrow> 'z world_scheme \<Rightarrow> (int \<times> ec_pdev \<times> 'z world_scheme) option" where
  "ec_device_probe sizeof_ec cdev_add dev_set_name device_add p w =
     (case kzalloc sizeof_ec w of
        (None, w) \<Rightarrow> Some (- ENOMEM, p, w)
      | (Some (k, ec), w) \<Rightarrow>
          let p = p\<lparr>drvdata := Some k\<rparr>;
              undo = (\<lambda>err p w. do { w \<leftarrow> kfree k w; Some (err, p, w) }) in
          if cdev_add \<noteq> 0 then undo cdev_add p w
          else
            let p = p\<lparr>cdev_live := True\<rparr> in
            if dev_set_name \<noteq> 0 then undo dev_set_name (p\<lparr>drvdata := None, cdev_live := False\<rparr>) w
            else if device_add \<noteq> 0 then undo device_add (p\<lparr>drvdata := None, cdev_live := False\<rparr>) w
            else Some (0, p\<lparr>class_dev_live := True\<rparr>, w))"

text \<open>The release function of the class device frees the memory when it is unregistered.\<close>

definition ec_remove :: "nat \<Rightarrow> 'z world_scheme \<Rightarrow> 'z world_scheme option" where
  "ec_remove k w = kfree k w"

definition ec_device_remove :: "ec_pdev \<Rightarrow> 'z world_scheme \<Rightarrow> (int \<times> ec_pdev \<times> 'z world_scheme) option" where
  "ec_device_remove p w = do {
     k \<leftarrow> drvdata p;
     let p = p\<lparr>cdev_live := False\<rparr>;
     w \<leftarrow> ec_remove k w;
     Some (0, p\<lparr>class_dev_live := False\<rparr>, w)
   }"

text \<open>
  The driver's registrations. A character region is (major, first minor, number of minors);
  the kernel releases a region only when all three match, and \<open>unregister_chrdev\<close> asks
  for the 256 minors that \<open>register_chrdev\<close> reserves.
\<close>

record ec_driver =
  class_registered :: bool
  ec_major :: nat
  regions :: "(nat \<times> nat \<times> nat) list"
  driver_registered :: bool

definition CROS_MAX_DEV :: nat where
  "CROS_MAX_DEV = 128"

definition unregister_region :: "nat \<Rightarrow> nat \<Rightarrow> nat \<Rightarrow> ec_driver \<Rightarrow> ec_driver" where
  "unregister_region major minor n d = d\<lparr>regions := remove1 (major, minor, n) (regions d)\<rparr>"

definition cros_ec_dev_init :: "int \<Rightarrow> int \<times> nat \<Rightarrow> int \<Rightarrow> ec_driver \<Rightarrow> int \<times> ec_driver" where
  "cros_ec_dev_init class_register alloc_chrdev platform_driver_register d =
     (if class_register \<noteq> 0 then (class_register, d)
      else
        let d = d\<lparr>class_registered := True\<rparr>;
            (ret, major) = alloc_chrdev in
        if ret < 0 then (ret, d\<lparr>class_registered := False\<rparr>)
        else
          let d = d\<lparr>regions := (major, 0, CROS_MAX_DEV) # regions d, ec_major := major\<rparr> in
          if platform_driver_register < 0
          then (platform_driver_register,
            (unregister_region (ec_major d) 0 CROS_MAX_DEV d)\<lparr>class_registered := False\<rparr>)
          else (0, d\<lparr>driver_registered := True\<rparr>))"

definition cros_ec_dev_exit :: "ec_driver \<Rightarrow> ec_driver" where
  "cros_ec_dev_exit d =
     (unregister_region (ec_major d) 0 256 (d\<lparr>driver_registered := False\<rparr>))\<lparr>class_registered := False\<rparr>"

lemma le32_small_high_byte: "unat (le32_at b i) < 4 \<Longrightarrow> b ! (i + 3) = 0"
proof -
  have top: "p + 256 * (q + 256 * (r + 256 * s)) < 4 \<Longrightarrow> s = 0" for p q r s :: nat by simp
  assume "unat (le32_at b i) < 4"
  then have "unat (b ! (i + 3)) = 0" unfolding unat_le32_at by (rule top)
  then show ?thesis by (simp add: unat_eq_0)
qed
section \<open>What the ioctl needs of the transfer\<close>

text \<open>
  The contract the device code relies on: a message whose two sizes fit its data area is
  transferred without a fault; the area keeps its length, the kernel's state changes only in
  its counters, and the device stays usable.
\<close>

locale ec_entry =
  fixes E :: ec_env
    and xfer :: "'z ec_xfer"
    and usable :: "ec_dev \<Rightarrow> bool"
  assumes xfer_law: "\<lbrakk>ec_env_ok E; usable dev; unat (outsize msg) \<le> length (mdata msg);
        unat (insize msg) \<le> length (mdata msg)\<rbrakk> \<Longrightarrow>
      ok (xfer dev msg w) (\<lambda>(r, dev', msg', w').
        usable dev' \<and> xfer_frame w w' \<and> length (mdata msg') = length (mdata msg))"
begin

lemma length_image: "ec_env_ok E \<Longrightarrow> length (image_of_msg E m) = sizeof_cmd E + length (mdata m)"
  by (simp add: image_of_msg_def ec_env_ok_def)

lemma length_mdata_image: "length (mdata (msg_of_image E b)) = length b - sizeof_cmd E"
  by (simp add: msg_of_image_def case_prod_unfold Let_def)

lemma xcmd_run_ok:
  assumes env: "ec_env_ok E" and use: "usable (chip ec)"
    and len: "length img = sizeof_cmd E + unat (max (outsize u_cmd) (insize u_cmd))"
    and same: "outsize (msg_of_image E img) = outsize u_cmd" "insize (msg_of_image E img) = insize u_cmd"
  shows "ok (xcmd_run E xfer ec arg u_cmd img w) (\<lambda>(r, ec', w').
    usable (chip ec') \<and> klive w' = klive w \<and>
    copies_within (\<lambda>p n. p = arg \<and> n = sizeof_cmd E + unat (insize u_cmd)) w w')"
proof -
  define s where "s = (msg_of_image E img)\<lparr>command := command (msg_of_image E img) + cmd_offset ec\<rparr>"
  have data: "length (mdata s) = unat (max (outsize u_cmd) (insize u_cmd))"
    using len by (simp add: s_def length_mdata_image)
  have fits: "unat (outsize u_cmd) \<le> length (mdata s)" "unat (insize u_cmd) \<le> length (mdata s)"
    by (simp_all add: data word_le_nat_alt [symmetric])
  have call: "ok (xfer (chip ec) s w) (\<lambda>(r, dev', msg', w').
      usable dev' \<and> xfer_frame w w' \<and> length (mdata msg') = length (mdata s))"
    by (rule xfer_law [OF env use]) (use fits same in \<open>simp_all add: s_def\<close>)
  show ?thesis
    unfolding xcmd_run_def Let_def s_def [symmetric] ok_bind
    by (rule ok_mono [OF call])
      (use fits(2) in \<open>auto simp: ok_simps length_image [OF env] copy_to_user_def copies_within_def
         dest: xfer_frame_fields split: prod.splits\<close>)
qed

lemma xcmd_patched_ok:
  assumes env: "ec_env_ok E" and use: "usable (chip ec)"
  shows "ok (ec_device_ioctl_xcmd_patched E xfer ec arg w) (\<lambda>(r, ec', w').
    usable (chip ec') \<and> klive w' = klive w \<and>
    copies_within (\<lambda>p n. p = arg \<and>
      (\<forall>hdr. ufetch (umem w (utime w)) arg (sizeof_cmd E) = Some hdr \<longrightarrow>
         n = sizeof_cmd E + unat (insize (msg_of_image E hdr)))) w w')"
proof (cases "ufetch (umem w (utime w)) arg (sizeof_cmd E)")
  case None
  with use show ?thesis by (simp add: ec_device_ioctl_xcmd_patched_def copy_from_user_def)
next
  case (Some hdr)
  then have hdr: "length hdr = sizeof_cmd E" by (rule length_ufetch)
  define u_cmd where "u_cmd = msg_of_image E hdr"
  have run: "ok (xcmd_run E xfer ec arg u_cmd img w1) (\<lambda>(r, ec', w').
        usable (chip ec') \<and> klive w' = klive w1 \<and>
        copies_within (\<lambda>p n. p = arg \<and> n = sizeof_cmd E + unat (insize u_cmd)) w1 w')"
    if "take (sizeof_cmd E) img = hdr"
      and "length img = sizeof_cmd E + unat (max (outsize u_cmd) (insize u_cmd))" for img w1
    by (rule xcmd_run_ok [OF env use that(2)])
      (use that(1) hdr in \<open>simp_all add: u_cmd_def msg_of_image_def case_prod_unfold Let_def\<close>)
  have le: "unat (outsize u_cmd) \<le> unat (max (outsize u_cmd) (insize u_cmd))"
    by (simp add: word_le_nat_alt [symmetric])
  show ?thesis
    unfolding ec_device_ioctl_xcmd_patched_def copy_from_user_def kmalloc_def
    using use Some le
    by (auto simp: ok_simps Let_def u_cmd_def [symmetric] copies_within_def dest!: length_ufetch
       intro!: ok_mono [OF run] split: option.splits)
qed

end
context ec_entry
begin

lemma cstr_at_ok:
  assumes "off \<le> i" and "i < length b" and "b ! i = 0"
  shows "\<exists>s. cstr_at b off = Some s"
proof -
  have "drop off b ! (i - off) = 0" and "i - off < length (drop off b)" using assms by simp_all
  then have "0 \<in> set (drop off b)" by (metis nth_mem)
  then show ?thesis by (simp add: cstr_at_def)
qed

lemma length_snprintf: "length (snprintf n s) \<le> n - Suc 0"
  by (simp add: snprintf_def)

lemma version_text_ok:
  assumes D: "ec_dev_env_ok D" and len: "length (mdata msg) = sizeof_version_resp D"
  shows "ok (version_text E D n r msg) (\<lambda>(r', s). r' = 0 \<longrightarrow> length s \<le> n - 1)"
proof (cases "r < 0 \<or> result msg \<noteq> res_success E")
  case True
  then show ?thesis by (auto simp: version_text_def)
next
  case reply: False
  define data where "data = mdata msg"
  have names: "length current_image_name = 4" by (simp add: current_image_name_def)
  have room: "image_off D + 4 \<le> length data" using D len by (simp add: ec_dev_env_ok_def data_def)
  obtain data' where d: "(if unat (le32_at (take 4 (drop (image_off D) data)) 0) \<ge> length current_image_name
        then buf_write data (image_off D) (le32_bytes 3) else Some data) = Some data'"
    "length data' = length data" "unat (le32_at data' (image_off D)) < 4"
  proof (cases "unat (le32_at (take 4 (drop (image_off D) data)) 0) \<ge> 4")
    case True
    define d3 where "d3 = take (image_off D) data @ le32_bytes 3 @ drop (image_off D + 4) data"
    have "le32_at d3 (image_off D) = 3"
      using le32_roundtrip [of "take (image_off D) data" 3 "drop (image_off D + 4) data"] room
      by (simp add: d3_def)
    then show thesis
      using True names room by (intro that [of d3]) (simp_all add: buf_write_def d3_def)
  next
    case False
    have "le32_at (take 4 (drop (image_off D) data)) 0 = le32_at data (image_off D)"
      using room by (simp add: le32_at_def add.commute)
    with False names show thesis by (intro that [of data]) simp_all
  qed
  have z: "data' ! (image_off D + 3) = 0" by (rule le32_small_high_byte [OF d(3)])
  obtain ro rw where "cstr_at data' (ro_off D) = Some ro" "cstr_at data' (rw_off D) = Some rw"
    using cstr_at_ok [OF _ _ z, of "ro_off D"] cstr_at_ok [OF _ _ z, of "rw_off D"] D room d(2)
    by (auto simp: ec_dev_env_ok_def)
  moreover have "buf_read data (image_off D) 4 = Some (take 4 (drop (image_off D) data))"
    using room by (simp add: buf_read_def)
  moreover obtain nm where "buf_get current_image_name (unat (le32_at data' (image_off D))) = Some nm"
    using d(3) names by (simp add: buf_get_def)
  ultimately show ?thesis
    using reply
    by (simp only: version_text_def de_Morgan_disj not_not if_False data_def [symmetric] d(1) bind.bind_lunit ok_Some)
      (simp add: length_snprintf)
qed

lemma ec_get_version_ok:
  assumes env: "ec_env_ok E" and use: "usable (chip ec)" and D: "ec_dev_env_ok D"
  shows "ok (ec_get_version E D xfer ec n w) (\<lambda>(r, s, ec', w').
    usable (chip ec') \<and> klive w' = klive w \<and> uout w' = uout w \<and> (r = 0 \<longrightarrow> length s \<le> n - 1))"
proof -
  define sz where "sz = sizeof_version_resp D"
  have small: "sz < 2 ^ 16" using D by (simp add: ec_dev_env_ok_def sz_def)
  define msg where "msg = (msg_of_image E (map (kjunk w (knext w)) [0..<sizeof_cmd E + sz]))
    \<lparr>version := 0, command := cmd_get_version D + cmd_offset ec, insize := of_nat sz, outsize := 0\<rparr>"
  define w1 where "w1 = w\<lparr>knext := Suc (knext w), klive := knext w # klive w\<rparr>"
  have len: "length (mdata msg) = sz" by (simp add: msg_def length_mdata_image)
  have call: "ok (xfer (chip ec) msg w1) (\<lambda>(r, dev', msg', w').
      usable dev' \<and> xfer_frame w1 w' \<and> length (mdata msg') = length (mdata msg))"
    by (rule xfer_law [OF env use]) (use small len in \<open>simp_all add: msg_def unat_of_nat\<close>)
  have kf: "kfree (knext w) w' = Some (w'\<lparr>klive := klive w\<rparr>)" "uout w' = uout w"
    if "xfer_frame w1 w'" for w'
    using xfer_frame_fields [OF that] by (simp_all add: kfree_def w1_def)
  have vt: "ok (version_text E D n r m) (\<lambda>(r', s). r' = 0 \<longrightarrow> length s \<le> n - 1)"
    if "length (mdata m) = length (mdata msg)" for r m
    by (rule version_text_ok [OF D]) (simp add: that len sz_def [symmetric])
  show ?thesis
  proof (cases "kfail w (knext w)")
    case True
    with use show ?thesis by (simp add: ec_get_version_def kmalloc_def)
  next
    case False
    then have alloc: "kmalloc (sizeof_cmd E + sz) w =
        (Some (knext w, map (kjunk w (knext w)) [0..<sizeof_cmd E + sz]), w1)"
      by (simp add: kmalloc_def w1_def sz_def Let_def)
    show ?thesis
      unfolding ec_get_version_def sz_def [symmetric] alloc prod.case option.case Let_def
        msg_def [symmetric] ok_bind
      by (rule ok_mono [OF call]) (auto simp: ok_bind kf intro!: ok_mono [OF vt])
  qed
qed

lemma ec_device_read_ok:
  assumes env: "ec_env_ok E" and use: "usable (chip ec)" and D: "ec_dev_env_ok D"
  shows "ok (ec_device_read E D xfer ec buffer len off w) (\<lambda>(r, off', ec', w').
    usable (chip ec') \<and> klive w' = klive w \<and>
    copies_within (\<lambda>p n. p = buffer \<and> n \<le> len \<and>
      n \<le> sizeof_version_resp D + length (dev_version D)) w w')"
  unfolding ec_device_read_def copy_to_user_def
  using use
  by (auto simp: ok_simps Let_def copies_within_def intro!: ok_mono [OF ec_get_version_ok [OF env use D]])

end

section \<open>The device over the I2C driver\<close>

definition ec_usable :: "ec_env \<Rightarrow> ec_dev \<Rightarrow> bool" where
  "ec_usable E dev \<longleftrightarrow> ec_ready E dev \<and> \<not> ec_locked dev"

interpretation i2c_entry: ec_entry E "i2c_ec_cmd_xfer E i2c" "ec_usable E" for E i2c
proof unfold_locales
  fix dev and msg :: ec_msg and w :: "'a world_scheme"
  assume h: "ec_env_ok E" "ec_usable E dev" "unat (outsize msg) \<le> length (mdata msg)"
    "unat (insize msg) \<le> length (mdata msg)"
  then have "ok (i2c_ec_cmd_xfer E i2c dev msg w) (\<lambda>(r, ec', msg', w').
      same_dev dev ec' \<and> xfer_frame w w' \<and> xfer_sizes E dev msg msg' r)"
    unfolding i2c_ec_cmd_xfer_def by (intro i2c.cros_ec_cmd_xfer_ok) (simp_all add: ec_usable_def)
  then show "ok (i2c_ec_cmd_xfer E i2c dev msg w) (\<lambda>(r, dev', msg', w').
      ec_usable E dev' \<and> xfer_frame w w' \<and> length (mdata msg') = length (mdata msg))"
    by (rule ok_mono)
      (use h(2) in \<open>auto simp: ec_usable_def xfer_sizes_def same_dev_ready same_dev_fields\<close>)
qed

text \<open>
  C3: The pass-through ioctl of the patched file never faults, for every behaviour of user
  space between its two fetches, of the bus and of the controller: no kernel buffer is
  overrun, \<open>s_cmd\<close> is released on every path, the device stays ready and unlocked, and at
  most one copy goes to user space, to the argument's address, of the size the first fetch
  asked for.
\<close>

theorem ec_xcmd_patched_safe:
  assumes "ec_env_ok E" and "ec_ready E (chip ec)" and "\<not> ec_locked (chip ec)"
  shows "ok (ec_device_ioctl_xcmd_patched E (i2c_ec_cmd_xfer E i2c) ec arg w) (\<lambda>(r, ec', w').
    ec_ready E (chip ec') \<and> \<not> ec_locked (chip ec') \<and> klive w' = klive w \<and>
    copies_within (\<lambda>p n. p = arg \<and>
      (\<forall>hdr. ufetch (umem w (utime w)) arg (sizeof_cmd E) = Some hdr \<longrightarrow>
         n = sizeof_cmd E + unat (insize (msg_of_image E hdr)))) w w')"
  by (rule ok_mono [OF i2c_entry.xcmd_patched_ok])
    (use assms in \<open>auto simp: ec_usable_def\<close>)

text \<open>
  C4: The double fetch of the original ioctl: when user space raises the request size after
  the first fetch, beyond the buffer that was allocated for it but within what the device
  accepts, building the packet reads past the end of \<open>s_cmd\<close>.
\<close>

theorem ec_xcmd_race:
  assumes env: "ec_env_ok E" and dev: "ec_ready E (chip ec)" "proto_version (chip ec) = 3" "\<not> ec_locked (chip ec)"
    and first: "ufetch (umem w (utime w)) arg (sizeof_cmd E) = Some hdr"
    and second: "ufetch (umem w (Suc (utime w))) arg
      (sizeof_cmd E + unat (outsize (msg_of_image E hdr))) = Some bs"
    and grown: "max (outsize (msg_of_image E hdr)) (insize (msg_of_image E hdr)) < outsize (msg_of_image E bs)"
    and lim: "outsize (msg_of_image E bs) \<le> ucast (max_request (chip ec))"
      "command (msg_of_image E bs) + cmd_offset ec < cmd_passthru_offset E 1"
    and mem: "\<not> kfail w (knext w)"
  shows "ec_device_ioctl_xcmd E (i2c_ec_cmd_xfer E i2c) ec arg w = None"
proof -
  define u where "u = msg_of_image E hdr"
  define n where "n = unat (max (outsize u) (insize u))"
  have lens: "length hdr = sizeof_cmd E" "length bs = sizeof_cmd E + unat (outsize u)"
    using first second by (auto dest: length_ufetch simp: u_def)
  have le: "unat (outsize u) \<le> n" by (simp add: n_def word_le_nat_alt [symmetric])
  define img where "img = bs @ drop (length bs) (map (kjunk w (knext w)) [0..<sizeof_cmd E + n])"
  define s where "s = (msg_of_image E img)\<lparr>command := command (msg_of_image E img) + cmd_offset ec\<rparr>"
  have take_img: "take (sizeof_cmd E) img = take (sizeof_cmd E) bs" using lens by (simp add: img_def)
  have s: "outsize s = outsize (msg_of_image E bs)" "command s = command (msg_of_image E bs) + cmd_offset ec"
    "length (mdata s) = n"
    using take_img lens le by (simp_all add: s_def msg_of_image_def case_prod_unfold Let_def img_def)
  have big: "n < unat (outsize s)"
    using grown by (simp add: s(1) n_def u_def word_less_nat_alt)
  have tx: "cros_ec_prepare_tx E d m = None"
    if "proto_version d = 3" "outsize m = outsize s" "mdata m = mdata s" for d m
    using that env s(3) big
    by (simp add: cros_ec_prepare_tx_def prepare_packet_def ec_env_ok_def buf_read_def Let_def
        bind_eq_None_conv)
  have pkt: "cros_ec_pkt_xfer_i2c E i2c d m w2 = None"
    if "proto_version d = 3" "outsize m = outsize s" "mdata m = mdata s"
    for d m and w2 :: "'a world_scheme"
    using tx that by (simp add: cros_ec_pkt_xfer_i2c_def Let_def bind_eq_None_conv)
  have "i2c_ec_cmd_xfer E i2c (chip ec) s w2 = None" for w2 :: "'a world_scheme"
    using dev lim env pkt
    by (simp add: i2c_ec_cmd_xfer_def cros_ec_cmd_xfer_def ec_lock_def send_command_def ec_ready_def
        Let_def s(1,2) leD)
  then have run: "xcmd_run E (i2c_ec_cmd_xfer E i2c) ec arg u img w2 = None" for w2 :: "'a world_scheme"
    by (simp add: xcmd_run_def Let_def s_def [symmetric])
  have "buf_write (map (kjunk w (knext w)) [0..<sizeof_cmd E + n]) 0 bs = Some img"
    using lens le by (simp add: buf_write_def img_def)
  with run mem show ?thesis
    using first second
    by (simp add: ec_device_ioctl_xcmd_def copy_from_user_def kmalloc_def Let_def u_def [symmetric] n_def [symmetric])
qed

text \<open>
  C5: Without a race the patch changes nothing: when user memory stays as it is, the
  original and the patched ioctl have the same results, for every transfer function.
\<close>

theorem ec_xcmd_patch_equiv:
  assumes stable: "umem_stable w"
  shows "ec_device_ioctl_xcmd_patched E xfer ec arg w = ec_device_ioctl_xcmd E xfer ec arg w"
proof (cases "ufetch (umem w (utime w)) arg (sizeof_cmd E)")
  case None
  then show ?thesis
    by (simp add: ec_device_ioctl_xcmd_def ec_device_ioctl_xcmd_patched_def copy_from_user_def)
next
  case (Some hdr)
  define u where "u = msg_of_image E hdr"
  show ?thesis
  proof (cases "ufetch (umem w (Suc (utime w))) arg (sizeof_cmd E + unat (outsize u))")
    case None
    with Some show ?thesis
      by (simp add: ec_device_ioctl_xcmd_def ec_device_ioctl_xcmd_patched_def copy_from_user_def
          kmalloc_def Let_def u_def [symmetric])
  next
    case bs: (Some bs)
    have "take (sizeof_cmd E) bs = hdr"
      using ufetch_prefix [OF bs, of "sizeof_cmd E"] Some stable_umem [OF stable, of "Suc (utime w)" "utime w"] by simp
    moreover have "length bs = sizeof_cmd E + unat (outsize u)" using bs by (rule length_ufetch)
    ultimately have "buf_read img 0 (sizeof_cmd E) = Some hdr" if "buf_write junk 0 bs = Some img" for junk img
      using that by (auto simp: buf_write_def buf_read_def split: if_splits)
    then show ?thesis
      using Some bs
      by (auto simp: ec_device_ioctl_xcmd_def ec_device_ioctl_xcmd_patched_def copy_from_user_def
          kmalloc_def Let_def u_def [symmetric] intro!: Option.bind_cong arg_cong [where f = "\<lambda>m. Option.bind m _"])
  qed
qed

text \<open>
  The file shows uninitialised kernel memory to user space, patched or not: when the
  controller returns no data and the caller asked for a longer reply than its request, the
  bytes behind the request are what the allocator happened to return.
\<close>

theorem ec_xcmd_leaks_kernel_memory:
  assumes env: "ec_env_ok E"
    and first: "ufetch (umem w (utime w)) arg (sizeof_cmd E) = Some hdr"
    and second: "ufetch (umem w (Suc (utime w))) arg
      (sizeof_cmd E + unat (outsize (msg_of_image E hdr))) = Some (hdr @ data)"
    and sizes: "outsize (msg_of_image E hdr) < insize (msg_of_image E hdr)"
    and mem: "\<not> kfail w (knext w)"
    and mapped: "ufetch (umem w (Suc (Suc (utime w)))) arg
      (sizeof_cmd E + unat (insize (msg_of_image E hdr))) \<noteq> None"
    and empty_reply: "\<And>m w. xfer (chip ec) m w = Some (0, chip ec, m, w)"
  shows "ok (ec_device_ioctl_xcmd_patched E xfer ec arg w) (\<lambda>(r, ec', w').
    r = 0 \<and> (\<exists>out. uout w' = (arg, out) # uout w \<and>
      drop (sizeof_cmd E + unat (outsize (msg_of_image E hdr))) out =
      map (kjunk w (knext w)) [sizeof_cmd E + unat (outsize (msg_of_image E hdr)) ..<
        sizeof_cmd E + unat (insize (msg_of_image E hdr))]))"
proof -
  define u where "u = msg_of_image E hdr"
  have lens: "length hdr = sizeof_cmd E" "length data = unat (outsize u)"
    using first second by (auto dest!: length_ufetch simp: u_def)
  have n: "unat (max (outsize u) (insize u)) = unat (insize u)" "unat (outsize u) \<le> unat (insize u)"
    using sizes by (auto simp: u_def max_def word_less_nat_alt word_le_nat_alt)
  define junk where "junk = map (kjunk w (knext w)) [0..<sizeof_cmd E + unat (insize u)]"
  define img where "img = hdr @ data @ drop (sizeof_cmd E + unat (outsize u)) junk"
  have img: "buf_write junk 0 (hdr @ data) = Some img" "buf_read img 0 (sizeof_cmd E) = Some hdr"
    using lens n by (simp_all add: buf_write_def buf_read_def img_def junk_def)
  define s where "s = (msg_of_image E img)\<lparr>command := command (msg_of_image E img) + cmd_offset ec\<rparr>"
  have s: "mdata s = data @ drop (sizeof_cmd E + unat (outsize u)) junk"
    using lens by (simp add: s_def msg_of_image_def case_prod_unfold Let_def img_def)
  obtain h where h: "image_of_msg E s = h @ data @ drop (sizeof_cmd E + unat (outsize u)) junk"
    "length h = sizeof_cmd E"
    using env by (simp add: image_of_msg_def s ec_env_ok_def)
  have "buf_read (image_of_msg E s) 0 (sizeof_cmd E + unat (insize u)) = Some (image_of_msg E s)"
    using h lens n by (simp add: buf_read_def junk_def)
  then have "ok (xcmd_run E xfer ec arg u img w2) (\<lambda>(r, ec', w'). r = 0 \<and> klive w' = klive w2 \<and>
      uout w' = (arg, image_of_msg E s) # uout w2)"
    if "ufetch (umem w2 (utime w2)) arg (sizeof_cmd E + unat (insize u)) \<noteq> None" for w2 :: "'a world_scheme"
    using that h lens n
    by (simp add: xcmd_run_def Let_def s_def [symmetric] empty_reply copy_to_user_def junk_def)
  note run = this
  have tail: "drop (sizeof_cmd E + unat (outsize u)) (image_of_msg E s) =
      map (kjunk w (knext w)) [sizeof_cmd E + unat (outsize u) ..< sizeof_cmd E + unat (insize u)]"
    using h lens by (simp add: junk_def drop_map)
  show ?thesis
    using first second mem mapped img tail
    by (auto simp: ec_device_ioctl_xcmd_patched_def copy_from_user_def kmalloc_def Let_def u_def [symmetric] n
        ok_simps junk_def [symmetric] intro!: ok_mono [OF run])
qed
text \<open>
  Reading the version never faults and copies out no more than the caller asked for and
  no more than the driver's version text and the reply can make: the image number the driver
  clamps ends both version texts of the firmware even when these have no terminating NUL.
\<close>

theorem ec_read_safe:
  assumes "ec_env_ok E" and "ec_dev_env_ok D" and "ec_ready E (chip ec)" and "\<not> ec_locked (chip ec)"
  shows "ok (ec_device_read E D (i2c_ec_cmd_xfer E i2c) ec buffer len off w) (\<lambda>(r, off', ec', w').
    ec_ready E (chip ec') \<and> \<not> ec_locked (chip ec') \<and> klive w' = klive w \<and>
    copies_within (\<lambda>p n. p = buffer \<and> n \<le> len \<and>
      n \<le> sizeof_version_resp D + length (dev_version D)) w w')"
  by (rule ok_mono [OF i2c_entry.ec_device_read_ok]) (use assms in \<open>auto simp: ec_usable_def\<close>)

text \<open>
  Setting up a device either fails with its memory released and nothing registered, or
  succeeds, and then removing the device gives back everything.
\<close>

theorem ec_probe_remove:
  assumes "\<not> cdev_live p" and "\<not> class_dev_live p"
  shows "ok (ec_device_probe n cdev_add dev_set_name device_add p w) (\<lambda>(r, p', w').
    (r \<noteq> 0 \<longrightarrow> klive w' = klive w \<and> \<not> cdev_live p' \<and> \<not> class_dev_live p') \<and>
    (r = 0 \<longrightarrow> cdev_live p' \<and> class_dev_live p' \<and>
       ok (ec_device_remove p' w') (\<lambda>(r2, p2, w2). r2 = 0 \<and> klive w2 = klive w \<and>
         \<not> cdev_live p2 \<and> \<not> class_dev_live p2)))"
  using assms
  by (auto simp: ec_device_probe_def ec_device_remove_def ec_remove_def kzalloc_def Let_def ok_simps)

text \<open>
  A failing initialisation of the driver leaves nothing registered, but a driver that was
  initialised and unloaded leaves its range of 128 device numbers reserved: the exit function
  asks for a range of 256, which it never had.
\<close>

theorem cros_ec_dev_exit_leaves_region:
  assumes "\<not> class_registered d" and "\<not> driver_registered d" and "regions d = []"
    and "cros_ec_dev_init class_register alloc_chrdev driver_register d = (r, d')"
  shows "(r \<noteq> 0 \<longrightarrow> regions d' = [] \<and> \<not> class_registered d' \<and> \<not> driver_registered d') \<and>
    (r = 0 \<longrightarrow> regions (cros_ec_dev_exit d') = [(ec_major d', 0, CROS_MAX_DEV)])"
  using assms
  by (auto simp: cros_ec_dev_init_def cros_ec_dev_exit_def unregister_region_def CROS_MAX_DEV_def
      Let_def split: prod.splits if_splits)

section \<open>Concrete runs of the device\<close>

definition cros_dev_headers :: ec_dev_env where
  "cros_dev_headers = \<lparr>dev_version = bytes_of ''1.0.0'', cmd_get_version = 2, sizeof_version_resp = 100,
     ro_off = 0, rw_off = 32, image_off = 96, sizeof_readmem = 264, readmem_offset = (\<lambda>b. le32_at b 0),
     readmem_bytes = (\<lambda>b. le32_at b 4), readmem_buffer_off = 8, dev_ioc = 0xec,
     ioc_xcmd = 0xc014ec00, ioc_rdmem = 0xc108ec01\<rparr>"

definition ec_node :: ec_cdev where
  "ec_node = \<lparr>cmd_offset = 0, chip = ec_negotiated\<rparr>"

text \<open>User memory that holds a command whose request size is 2 at first and 6 from the second access on.\<close>

definition ec_user_cmd :: "byte \<Rightarrow> nat \<Rightarrow> byte option" where
  "ec_user_cmd n i = Some (if i = 4 then 1 else if i = 8 then n else if i = 12 then 4 else 0)"

definition ec_racing :: world where
  "ec_racing = ec_world\<lparr>umem := \<lambda>t. if t = 0 then ec_user_cmd 2 else ec_user_cmd 6,
     kjunk := \<lambda>_ i. of_nat (100 + i)\<rparr>"

definition ec_quiet :: world where
  "ec_quiet = ec_racing\<lparr>umem := \<lambda>_. ec_user_cmd 2\<rparr>"

lemma ec_node_ready:
  "ec_ready cros_headers (chip ec_node)" "\<not> ec_locked (chip ec_node)" "proto_version (chip ec_node) = 3"
  by (simp_all add: ec_node_def ec_ready_def ec_negotiated_def cros_headers_def)

lemma cros_dev_headers_ok: "ec_dev_env_ok cros_dev_headers"
  by (simp add: ec_dev_env_ok_def cros_dev_headers_def)

lemma ec_xcmd_patched_safe_witness:
  "ok (ec_device_ioctl_xcmd_patched cros_headers (i2c_ec_cmd_xfer cros_headers (\<lambda>_ _. (2, info_reply 8 89)))
      ec_node 0 ec_racing) (\<lambda>(r, ec', w').
    ec_ready cros_headers (chip ec') \<and> \<not> ec_locked (chip ec') \<and> klive w' = klive ec_racing \<and>
    copies_within (\<lambda>p n. p = 0 \<and>
      (\<forall>hdr. ufetch (umem ec_racing (utime ec_racing)) 0 (sizeof_cmd cros_headers) = Some hdr \<longrightarrow>
         n = sizeof_cmd cros_headers + unat (insize (msg_of_image cros_headers hdr)))) ec_racing w')"
  by (rule ec_xcmd_patched_safe [OF cros_headers_ok ec_node_ready(1,2)])

definition ec_hdr :: "byte \<Rightarrow> byte list" where
  "ec_hdr n = [0, 0, 0, 0, 1, 0, 0, 0, n, 0, 0, 0, 4, 0, 0, 0, 0, 0, 0, 0]"

lemma ec_hdr_fields:
  "outsize (msg_of_image cros_headers (ec_hdr n @ xs)) = ucast n"
  "insize (msg_of_image cros_headers (ec_hdr n @ xs)) = 4"
  "command (msg_of_image cros_headers (ec_hdr n @ xs)) = 1"
  by (simp_all add: msg_of_image_def cros_headers_def ec_hdr_def le32_at_def)

lemmas ec_hdr_fields_0 = ec_hdr_fields [where xs = "[]", simplified append_Nil2]

lemma ec_user_fetch:
  "ufetch (ec_user_cmd n) 0 20 = Some (ec_hdr n)" "ufetch (ec_user_cmd n) 0 22 = Some (ec_hdr n @ [0, 0])"
  "ufetch (ec_user_cmd n) 0 24 = Some (ec_hdr n @ [0, 0, 0, 0])"
  by (simp_all add: ufetch_def ec_user_cmd_def ec_hdr_def upt_rec)

lemma ec_xcmd_race_witness:
  "ec_device_ioctl_xcmd cros_headers (i2c_ec_cmd_xfer cros_headers (\<lambda>_ _. (2, info_reply 8 89)))
     ec_node 0 ec_racing = None"
proof -
  have E: "sizeof_cmd cros_headers = 20" "cmd_passthru_offset cros_headers (Suc 0) = 0x4000"
    by (simp_all add: cros_headers_def)
  show ?thesis
    by (rule ec_xcmd_race [OF cros_headers_ok ec_node_ready(1,3,2), where hdr = "ec_hdr 2" and bs = "ec_hdr 6 @ [0, 0]"])
      (simp_all add: ec_racing_def ec_world_def ec_user_fetch E ec_hdr_fields ec_hdr_fields_0 ec_node_def
        ec_negotiated_def)
qed

lemma ec_xcmd_patch_equiv_witness:
  "ec_device_ioctl_xcmd_patched cros_headers (i2c_ec_cmd_xfer cros_headers (\<lambda>_ _. (2, info_reply 8 89)))
     ec_node 0 ec_quiet =
   ec_device_ioctl_xcmd cros_headers (i2c_ec_cmd_xfer cros_headers (\<lambda>_ _. (2, info_reply 8 89)))
     ec_node 0 ec_quiet"
  by (rule ec_xcmd_patch_equiv) (simp add: umem_stable_def ec_quiet_def)

lemma ec_xcmd_leaks_kernel_memory_witness:
  "ok (ec_device_ioctl_xcmd_patched cros_headers (\<lambda>d m w. Some (0, d, m, w)) ec_node 0 ec_quiet)
    (\<lambda>(r, ec', w'). r = 0 \<and> (\<exists>out. uout w' = (0, out) # uout ec_quiet \<and>
      drop (20 + unat (outsize (msg_of_image cros_headers (ec_hdr 2)))) out =
      map (kjunk ec_quiet (knext ec_quiet)) [20 + unat (outsize (msg_of_image cros_headers (ec_hdr 2))) ..<
        20 + unat (insize (msg_of_image cros_headers (ec_hdr 2)))]))"
proof -
  have E: "sizeof_cmd cros_headers = 20" by (simp add: cros_headers_def)
  show ?thesis
    by (rule ec_xcmd_leaks_kernel_memory [OF cros_headers_ok, where data = "[0, 0]", unfolded E])
      (simp_all add: ec_quiet_def ec_racing_def ec_world_def ec_user_fetch ec_hdr_fields_0 ec_node_def)
qed

lemma ec_read_safe_witness:
  "ok (ec_device_read cros_headers cros_dev_headers (i2c_ec_cmd_xfer cros_headers (\<lambda>_ _. (2, info_reply 8 89)))
      ec_node 7 64 0 ec_quiet) (\<lambda>(r, off', ec', w').
    ec_ready cros_headers (chip ec') \<and> \<not> ec_locked (chip ec') \<and> klive w' = klive ec_quiet \<and>
    copies_within (\<lambda>p n. p = 7 \<and> n \<le> 64 \<and>
      n \<le> sizeof_version_resp cros_dev_headers + length (dev_version cros_dev_headers)) ec_quiet w')"
  by (rule ec_read_safe [OF cros_headers_ok cros_dev_headers_ok ec_node_ready(1,2)])

lemma ec_probe_remove_witness:
  "ok (ec_device_probe 8 0 (- ENOMEM) 0 \<lparr>drvdata = None, cdev_live = False, class_dev_live = False\<rparr> ec_quiet)
    (\<lambda>(r, p', w').
    (r \<noteq> 0 \<longrightarrow> klive w' = klive ec_quiet \<and> \<not> cdev_live p' \<and> \<not> class_dev_live p') \<and>
    (r = 0 \<longrightarrow> cdev_live p' \<and> class_dev_live p' \<and>
       ok (ec_device_remove p' w') (\<lambda>(r2, p2, w2). r2 = 0 \<and> klive w2 = klive ec_quiet \<and>
         \<not> cdev_live p2 \<and> \<not> class_dev_live p2)))"
  by (rule ec_probe_remove) simp_all

lemma cros_ec_dev_exit_leaves_region_witness:
  "regions (cros_ec_dev_exit (snd (cros_ec_dev_init 0 (0, 240) 0
     \<lparr>class_registered = False, ec_major = 0, regions = [], driver_registered = False\<rparr>))) = [(240, 0, 128)]"
  using cros_ec_dev_exit_leaves_region
    [where d = "\<lparr>class_registered = False, ec_major = 0, regions = [], driver_registered = False\<rparr>",
      OF _ _ _ prod.collapse [symmetric], of 0 "(0, 240)" 0]
  by (simp add: cros_ec_dev_init_def CROS_MAX_DEV_def)

end
