(* ===== verification/Sclp.thy ===== *)
theory Sclp
  imports Kernel
begin

text \<open>
  The ioctl interface of the s390 service-call processor, \<open>sclp_ctl.c\<close>. The file under
  \<open>patched_files\<close> is the same text as the one under \<open>bug_files\<close>: the third access of the
  request block's length field is not protected in either.
\<close>

section \<open>Data\<close>

text \<open>
  What the file takes from \<open>asm/sclp_ctl.h\<close>, \<open>sclp.h\<close> and the kernel: the layout of the
  ioctl argument and of the request block's header, the page size, the conversion of a
  31-bit pointer and the ioctl number.
\<close>

record sclp_env =
  sizeof_ctl_sccb :: nat
  ctl_cmdw :: "byte list \<Rightarrow> u32"
  ctl_sccb :: "byte list \<Rightarrow> u64"
  sizeof_sccb_header :: nat
  sccb_length :: "byte list \<Rightarrow> u16"
  PAGE_SIZE :: nat
  compat_ptr :: "u64 \<Rightarrow> nat"
  SCLP_CTL_SCCB :: u32

text \<open>The length field lies in the header, and the header in the smallest block allowed.\<close>

definition sclp_env_ok :: "sclp_env \<Rightarrow> bool" where
  "sclp_env_ok S \<longleftrightarrow> sizeof_sccb_header S \<le> 8 \<and> 8 \<le> PAGE_SIZE S \<and>
     (\<forall>b. sizeof_sccb_header S \<le> length b \<longrightarrow> sccb_length S (take (sizeof_sccb_header S) b) = sccb_length S b)"

text \<open>
  The service call itself (\<open>sclp_sync_request\<close>) is an oracle: the \<open>n\<close>-th call, with command
  word and page, gives its return code and the page as the firmware left it.
\<close>

type_synonym sclp_fw = "nat \<Rightarrow> u32 \<Rightarrow> byte list \<Rightarrow> int \<times> byte list"

section \<open>Operations\<close>

definition sclp_ctl_sccb_wlist :: "u32 list" where
  "sclp_ctl_sccb_wlist = [0x00400002, 0x00410002]"

definition sclp_ctl_cmdw_supported :: "u32 \<Rightarrow> bool" where
  "sclp_ctl_cmdw_supported cmdw \<longleftrightarrow> cmdw \<in> set sclp_ctl_sccb_wlist"

definition u64_to_uptr :: "sclp_env \<Rightarrow> bool \<Rightarrow> u64 \<Rightarrow> nat" where
  "u64_to_uptr S is_compat v = (if is_compat then compat_ptr S v else unat v)"

definition sclp_sync_request :: "sclp_fw \<Rightarrow> u32 \<Rightarrow> byte list \<Rightarrow> 'z world_scheme \<Rightarrow> int \<times> byte list \<times> 'z world_scheme" where
  "sclp_sync_request fw cmdw page w =
     (let (rc, page) = fw (xcalls w) cmdw page in (rc, page, w\<lparr>xcalls := Suc (xcalls w)\<rparr>))"

text \<open>The part after the length check, up to the label \<open>out_free\<close>.\<close>

definition sccb_request ::
  "sclp_env \<Rightarrow> sclp_fw \<Rightarrow> u32 \<Rightarrow> nat \<Rightarrow> byte list \<Rightarrow> 'z world_scheme \<Rightarrow> (int \<times> 'z world_scheme) option" where
  "sccb_request S fw cmdw uptr sccb w =
     (case copy_from_user uptr (unat (sccb_length S sccb)) w of
        (None, w) \<Rightarrow> Some (- EFAULT, w)
      | (Some bs, w) \<Rightarrow> do {
          sccb \<leftarrow> buf_write sccb 0 bs;
          let (rc, sccb, w) = sclp_sync_request fw cmdw sccb w;
          (if rc \<noteq> 0 then Some (rc, w)
           else do {
             out \<leftarrow> buf_read sccb 0 (unat (sccb_length S sccb));
             (case copy_to_user uptr out w of
                (True, w) \<Rightarrow> Some (- EFAULT, w)
              | (False, w) \<Rightarrow> Some (rc, w))
           })
        })"

definition sclp_ctl_ioctl_sccb ::
  "sclp_env \<Rightarrow> sclp_fw \<Rightarrow> bool \<Rightarrow> nat \<Rightarrow> 'z world_scheme \<Rightarrow> (int \<times> 'z world_scheme) option" where
  "sclp_ctl_ioctl_sccb S fw is_compat user_area w =
     (case copy_from_user user_area (sizeof_ctl_sccb S) w of
        (None, w) \<Rightarrow> Some (- EFAULT, w)
      | (Some ctl, w) \<Rightarrow>
          if \<not> sclp_ctl_cmdw_supported (ctl_cmdw S ctl) then Some (- EOPNOTSUPP, w)
          else (case kzalloc (PAGE_SIZE S) w of
             (None, w) \<Rightarrow> Some (- ENOMEM, w)
           | (Some (page, sccb), w) \<Rightarrow>
               let uptr = u64_to_uptr S is_compat (ctl_sccb S ctl) in
               (case copy_from_user uptr (sizeof_sccb_header S) w of
                  (None, w) \<Rightarrow> do { w \<leftarrow> kfree page w; Some (- EFAULT, w) }
                | (Some hdr, w) \<Rightarrow> do {
                    sccb \<leftarrow> buf_write sccb 0 hdr;
                    (if unat (sccb_length S sccb) > PAGE_SIZE S \<or> sccb_length S sccb < 8
                     then Some (- EINVAL, w)
                     else do {
                       (rc, w) \<leftarrow> sccb_request S fw (ctl_cmdw S ctl) uptr sccb w;
                       w \<leftarrow> kfree page w;
                       Some (rc, w)
                     })
                  })))"

definition sclp_ctl_ioctl ::
  "sclp_env \<Rightarrow> sclp_fw \<Rightarrow> bool \<Rightarrow> u32 \<Rightarrow> u64 \<Rightarrow> 'z world_scheme \<Rightarrow> (int \<times> 'z world_scheme) option" where
  "sclp_ctl_ioctl S fw is_compat cmd arg w =
     (let argp = (if is_compat then compat_ptr S arg else unat arg) in
      if cmd = SCLP_CTL_SCCB S then sclp_ctl_ioctl_sccb S fw is_compat argp w
      else Some (- ENOTTY, w))"

text \<open>
  Registration of the misc device: the set of registered names, and the result of
  \<open>misc_register\<close> as an argument.
\<close>

definition sclp_ctl_init :: "int \<Rightarrow> string set \<Rightarrow> int \<times> string set" where
  "sclp_ctl_init misc_register devs = (misc_register, if misc_register = 0 then insert ''sclp'' devs else devs)"

definition sclp_ctl_exit :: "string set \<Rightarrow> string set" where
  "sclp_ctl_exit devs = devs - {''sclp''}"

section \<open>Safety without a race\<close>

text \<open>
  The firmware keeps the page a page and answers within it: a successful reply has a length
  field that the page holds.
\<close>

definition fw_in_page :: "sclp_env \<Rightarrow> sclp_fw \<Rightarrow> bool" where
  "fw_in_page S fw \<longleftrightarrow> (\<forall>n c p rc p'. fw n c p = (rc, p') \<longrightarrow> length p' = length p \<and>
     (unat (sccb_length S p) \<le> length p \<longrightarrow> unat (sccb_length S p') \<le> length p'))"

lemma sccb_length_written:
  assumes "sclp_env_ok S" and "sizeof_sccb_header S \<le> length bs"
  shows "sccb_length S (bs @ rest) = sccb_length S bs"
  using assms unfolding sclp_env_ok_def
  by (metis length_append take_append trans_le_add1 diff_is_0_eq take0 append_Nil2)

lemma sccb_request_ok:
  assumes S: "sclp_env_ok S" and fw: "fw_in_page S fw"
    and len: "length sccb = PAGE_SIZE S" "unat (sccb_length S sccb) \<le> PAGE_SIZE S" "8 \<le> unat (sccb_length S sccb)"
    and same: "\<And>bs. ufetch (umem w (utime w)) uptr (unat (sccb_length S sccb)) = Some bs \<Longrightarrow>
      take (sizeof_sccb_header S) bs = take (sizeof_sccb_header S) sccb"
  shows "ok (sccb_request S fw cmdw uptr sccb w) (\<lambda>(r, w'). klive w' = klive w \<and> knext w' = knext w \<and>
    umem w' = umem w \<and> copies_within (\<lambda>p n. p = uptr \<and> n \<le> PAGE_SIZE S) w w')"
proof (cases "ufetch (umem w (utime w)) uptr (unat (sccb_length S sccb))")
  case None
  then show ?thesis by (simp add: sccb_request_def copy_from_user_def)
next
  case (Some bs)
  define page where "page = bs @ drop (length bs) sccb"
  have lbs: "length bs = unat (sccb_length S sccb)" using Some by (rule length_ufetch)
  have hdr: "sizeof_sccb_header S \<le> length bs" "sizeof_sccb_header S \<le> length sccb"
    using S lbs len by (simp_all add: sclp_env_ok_def)
  have page: "buf_write sccb 0 bs = Some page" "length page = PAGE_SIZE S"
    using lbs len by (simp_all add: buf_write_def page_def)
  have "sccb_length S page = sccb_length S (take (sizeof_sccb_header S) bs)"
    using sccb_length_written [OF S hdr(1)] S hdr by (simp add: page_def sclp_env_ok_def)
  also have "\<dots> = sccb_length S sccb"
    using same [OF Some] S hdr by (simp add: sclp_env_ok_def)
  finally have plen: "unat (sccb_length S page) \<le> length page" using len page by simp
  obtain rc p' where call: "fw (xcalls w) cmdw page = (rc, p')" by fastforce
  have p': "length p' = PAGE_SIZE S" "unat (sccb_length S p') \<le> PAGE_SIZE S"
    using fw call plen page(2) unfolding fw_in_page_def by metis+
  show ?thesis
    using Some page(1) call p'
    by (auto simp: sccb_request_def copy_from_user_def sclp_sync_request_def copy_to_user_def ok_simps
        Let_def copies_within_def)
qed

text \<open>
  C9: Without a race the service-call ioctl never faults and copies at most one page back, to
  the block the argument names; it returns its page on every path but one.
\<close>

theorem sclp_stable_safe:
  assumes S: "sclp_env_ok S" and fw: "fw_in_page S fw" and stable: "umem_stable w"
  shows "ok (sclp_ctl_ioctl_sccb S fw is_compat area w) (\<lambda>(r, w').
    (klive w' = klive w \<or> r = - EINVAL \<and> klive w' = knext w # klive w) \<and>
    copies_within (\<lambda>p n. n \<le> PAGE_SIZE S \<and>
      (\<forall>ctl. ufetch (umem w (utime w)) area (sizeof_ctl_sccb S) = Some ctl \<longrightarrow>
         p = u64_to_uptr S is_compat (ctl_sccb S ctl))) w w')"
proof (cases "ufetch (umem w (utime w)) area (sizeof_ctl_sccb S)")
  case None
  then show ?thesis by (simp add: sclp_ctl_ioctl_sccb_def copy_from_user_def)
next
  case (Some ctl)
  define uptr where "uptr = u64_to_uptr S is_compat (ctl_sccb S ctl)"
  define m where "m = umem w 0"
  have m: "umem w t = m" for t using stable by (simp add: umem_stable_def m_def)
  show ?thesis
  proof (cases "ufetch m uptr (sizeof_sccb_header S)")
    case None
    with Some show ?thesis
      by (auto simp: sclp_ctl_ioctl_sccb_def copy_from_user_def kzalloc_def Let_def m uptr_def [symmetric] ok_simps)
  next
    case hdr: (Some hdr)
    define sccb where "sccb = hdr @ drop (length hdr) (replicate (PAGE_SIZE S) (0 :: byte))"
    have lhdr: "length hdr = sizeof_sccb_header S" "sizeof_sccb_header S \<le> PAGE_SIZE S"
      using hdr S by (auto dest: length_ufetch simp: sclp_env_ok_def)
    have bw: "buf_write (replicate (PAGE_SIZE S) 0) 0 hdr = Some sccb" "length sccb = PAGE_SIZE S"
      using lhdr by (simp_all add: buf_write_def sccb_def)
    have req: "ok (sccb_request S fw cmdw uptr sccb w1) (\<lambda>(r, w'). klive w' = klive w1 \<and> knext w' = knext w1 \<and>
        umem w' = umem w1 \<and> copies_within (\<lambda>p n. p = uptr \<and> n \<le> PAGE_SIZE S) w1 w')"
      if "\<not> (unat (sccb_length S sccb) > PAGE_SIZE S \<or> sccb_length S sccb < 8)" "umem w1 = umem w" for cmdw w1
    proof (rule sccb_request_ok [OF S fw bw(2)])
      show l8: "8 \<le> unat (sccb_length S sccb)" using that(1) by (simp add: word_less_nat_alt)
      fix bs
      assume "ufetch (umem w1 (utime w1)) uptr (unat (sccb_length S sccb)) = Some bs"
      then have "ufetch m uptr (sizeof_sccb_header S) = Some (take (sizeof_sccb_header S) bs)"
        using S l8 that(2) m by (intro ufetch_prefix) (auto simp: sclp_env_ok_def)
      then show "take (sizeof_sccb_header S) bs = take (sizeof_sccb_header S) sccb"
        using hdr lhdr by (simp add: sccb_def)
    qed (use that in simp)
    show ?thesis
      using Some hdr bw(1)
      by (auto simp: sclp_ctl_ioctl_sccb_def copy_from_user_def kzalloc_def Let_def m uptr_def [symmetric]
          ok_simps copies_within_def not_less intro!: ok_mono [OF req])
        (fastforce dest: bspec)+
  qed
qed

section \<open>The race and the lost page\<close>

text \<open>
  C10: The double fetch that the tool left in place: when user space enlarges the length field
  beyond a page between the check and the second fetch, and the firmware accepts the block,
  the reply is copied out from behind the page. This is the text of the file under
  \<open>patched_files\<close>.
\<close>

theorem sclp_race_overread:
  assumes S: "sclp_env_ok S"
    and ctl: "ufetch (umem w (utime w)) area (sizeof_ctl_sccb S) = Some ctl"
      "sclp_ctl_cmdw_supported (ctl_cmdw S ctl)"
    and first: "ufetch (umem w (Suc (utime w))) (u64_to_uptr S is_compat (ctl_sccb S ctl)) (sizeof_sccb_header S) = Some hdr"
    and checked: "unat (sccb_length S hdr) \<le> PAGE_SIZE S" "8 \<le> unat (sccb_length S hdr)"
    and second: "ufetch (umem w (Suc (Suc (utime w)))) (u64_to_uptr S is_compat (ctl_sccb S ctl))
        (unat (sccb_length S hdr)) = Some bs"
    and grown: "PAGE_SIZE S < unat (sccb_length S bs)"
    and fw: "\<And>n c p. fw n c p = (0, p)" and mem: "\<not> kfail w (knext w)"
  shows "sclp_ctl_ioctl_sccb S fw is_compat area w = None"
proof -
  define uptr where "uptr = u64_to_uptr S is_compat (ctl_sccb S ctl)"
  define sccb where "sccb = hdr @ drop (length hdr) (replicate (PAGE_SIZE S) (0 :: byte))"
  have lhdr: "length hdr = sizeof_sccb_header S" "sizeof_sccb_header S \<le> PAGE_SIZE S"
    using first S by (auto dest: length_ufetch simp: sclp_env_ok_def)
  have len: "sccb_length S sccb = sccb_length S hdr"
    unfolding sccb_def by (rule sccb_length_written [OF S]) (simp add: lhdr)
  define page where "page = bs @ drop (length bs) sccb"
  have lbs: "length bs = unat (sccb_length S hdr)" using second by (rule length_ufetch)
  have lpage: "length sccb = PAGE_SIZE S" "length page = PAGE_SIZE S"
    using lhdr lbs checked by (simp_all add: sccb_def page_def)
  have "sccb_length S page = sccb_length S bs"
    unfolding page_def by (rule sccb_length_written [OF S]) (use S lbs checked in \<open>simp add: sclp_env_ok_def\<close>)
  then have big: "buf_read page 0 (unat (sccb_length S page)) = None"
    using grown lpage by (simp add: buf_read_def)
  have steps: "buf_write (replicate (PAGE_SIZE S) 0) 0 hdr = Some sccb" "buf_write sccb 0 bs = Some page"
    using lhdr lbs checked lpage by (simp_all add: buf_write_def sccb_def page_def)
  have small: "\<not> sccb_length S hdr < 8" using checked by (simp add: word_less_nat_alt)
  show ?thesis
    using ctl first second steps checked small big
    by (simp add: sclp_ctl_ioctl_sccb_def sccb_request_def copy_from_user_def kzalloc_def Let_def mem
        uptr_def [symmetric] len sclp_sync_request_def fw)
qed

text \<open>Calling the ioctl \<open>n\<close> times with the same argument.\<close>

primrec sclp_calls ::
  "sclp_env \<Rightarrow> sclp_fw \<Rightarrow> bool \<Rightarrow> nat \<Rightarrow> nat \<Rightarrow> 'z world_scheme \<Rightarrow> 'z world_scheme option" where
  "sclp_calls S fw is_compat area 0 w = Some w"
| "sclp_calls S fw is_compat area (Suc n) w = do {
     (r, w) \<leftarrow> sclp_ctl_ioctl_sccb S fw is_compat area w;
     sclp_calls S fw is_compat area n w
   }"

lemma sclp_bad_length:
  assumes S: "sclp_env_ok S" and stable: "umem_stable w" and mem: "\<And>n. \<not> kfail w n"
    and ctl: "ufetch (umem w 0) area (sizeof_ctl_sccb S) = Some ctl"
      "sclp_ctl_cmdw_supported (ctl_cmdw S ctl)"
    and hdr: "ufetch (umem w 0) (u64_to_uptr S is_compat (ctl_sccb S ctl)) (sizeof_sccb_header S) = Some hdr"
    and bad: "PAGE_SIZE S < unat (sccb_length S hdr) \<or> sccb_length S hdr < 8"
  shows "sclp_ctl_ioctl_sccb S fw is_compat area w =
    Some (- EINVAL, w\<lparr>utime := Suc (Suc (utime w)), knext := Suc (knext w), klive := knext w # klive w\<rparr>)"
proof -
  define sccb where "sccb = hdr @ drop (length hdr) (replicate (PAGE_SIZE S) (0 :: byte))"
  define m0 where "m0 = umem w 0"
  have m: "umem w t = m0" for t unfolding m0_def by (rule stable_umem [OF stable])
  have lhdr: "length hdr = sizeof_sccb_header S" "sizeof_sccb_header S \<le> PAGE_SIZE S"
    using hdr S by (auto dest: length_ufetch simp: sclp_env_ok_def)
  have len: "sccb_length S sccb = sccb_length S hdr"
    unfolding sccb_def by (rule sccb_length_written [OF S]) (simp add: lhdr)
  have bw: "buf_write (replicate (PAGE_SIZE S) 0) 0 hdr = Some sccb"
    using lhdr by (simp add: buf_write_def sccb_def)
  show ?thesis
    using ctl [unfolded m] hdr [unfolded m] bad bw mem
    by (auto simp: sclp_ctl_ioctl_sccb_def copy_from_user_def kzalloc_def Let_def m len)
qed

text \<open>
  A block with a bad length costs a page of kernel memory each time: \<open>n\<close> calls leave \<open>n\<close>
  pages that nothing can release, because the length check returns without freeing the page.
\<close>

theorem sclp_bad_length_leaks:
  assumes S: "sclp_env_ok S" and stable: "umem_stable w" and mem: "\<And>n. \<not> kfail w n"
    and ctl: "ufetch (umem w 0) area (sizeof_ctl_sccb S) = Some ctl"
      "sclp_ctl_cmdw_supported (ctl_cmdw S ctl)"
    and hdr: "ufetch (umem w 0) (u64_to_uptr S is_compat (ctl_sccb S ctl)) (sizeof_sccb_header S) = Some hdr"
    and bad: "PAGE_SIZE S < unat (sccb_length S hdr) \<or> sccb_length S hdr < 8"
  shows "ok (sclp_calls S fw is_compat area n w) (\<lambda>w'. length (klive w') = length (klive w) + n)"
  using stable mem ctl hdr
proof (induction n arbitrary: w)
  case (Suc n)
  define w1 where "w1 = w\<lparr>utime := Suc (Suc (utime w)), knext := Suc (knext w), klive := knext w # klive w\<rparr>"
  have call: "sclp_ctl_ioctl_sccb S fw is_compat area w = Some (- EINVAL, w1)"
    unfolding w1_def by (rule sclp_bad_length [OF S Suc.prems(1) _ Suc.prems(3-5) bad]) (rule Suc.prems(2))
  have same: "umem w1 = umem w" "kfail w1 = kfail w" by (simp_all add: w1_def)
  have stable1: "umem_stable w1" using Suc.prems(1) unfolding umem_stable_def same .
  have "ok (sclp_calls S fw is_compat area n w1) (\<lambda>w'. length (klive w') = length (klive w1) + n)"
    by (rule Suc.IH [OF stable1]; (unfold same)?; rule Suc.prems)
  then show ?case by (simp add: call) (simp add: w1_def)
qed simp

section \<open>Concrete runs\<close>

definition sclp_headers :: sclp_env where
  "sclp_headers = \<lparr>sizeof_ctl_sccb = 12, ctl_cmdw = (\<lambda>b. le32_at b 0), ctl_sccb = (\<lambda>b. ucast (le32_at b 4)),
     sizeof_sccb_header = 8, sccb_length = (\<lambda>b. le16_at b 0), PAGE_SIZE = 4096,
     compat_ptr = (\<lambda>v. unat (take_bit 31 v)), SCLP_CTL_SCCB = 0xc010104b\<rparr>"

definition sclp_user :: "byte \<Rightarrow> byte \<Rightarrow> nat \<Rightarrow> byte option" where
  "sclp_user a n i = Some (if i = 0 then 2 else if i = 2 then 0x40 else if i = 4 then 64
     else if i = 64 then a else if i = 65 then n else 0)"

definition sclp_world :: "byte \<Rightarrow> world" where
  "sclp_world n = \<lparr>umem = \<lambda>t. if t < 2 then sclp_user 8 0 else sclp_user 8 n, utime = 0, uout = [],
     kfail = \<lambda>_. False, kjunk = \<lambda>_ _. 0, knext = 0, klive = [], xcalls = 0\<rparr>"

lemma sclp_headers_ok: "sclp_env_ok sclp_headers"
  by (auto simp: sclp_env_ok_def sclp_headers_def le16_at_def)

lemma sclp_user_ctl:
  "ufetch (sclp_user a n) 0 12 = Some [2, 0, 0x40, 0, 64, 0, 0, 0, 0, 0, 0, 0]"
  "ufetch (sclp_user a n) 64 8 = Some [a, n, 0, 0, 0, 0, 0, 0]"
  by (simp_all add: ufetch_def sclp_user_def upt_rec)

lemma sclp_ctl_fields:
  "sclp_ctl_cmdw_supported (ctl_cmdw sclp_headers [2, 0, 0x40, 0, 64, 0, 0, 0, 0, 0, 0, 0])"
  "u64_to_uptr sclp_headers False (ctl_sccb sclp_headers [2, 0, 0x40, 0, 64, 0, 0, 0, 0, 0, 0, 0]) = 64"
  by (simp_all add: sclp_headers_def sclp_ctl_cmdw_supported_def sclp_ctl_sccb_wlist_def le32_at_def u64_to_uptr_def)

lemma sclp_stable_safe_witness:
  "ok (sclp_ctl_ioctl_sccb sclp_headers (\<lambda>_ _ p. (0, p)) False 0 (sclp_world 0)) (\<lambda>(r, w').
    (klive w' = klive (sclp_world 0) \<or> r = - EINVAL \<and> klive w' = knext (sclp_world 0) # klive (sclp_world 0)) \<and>
    copies_within (\<lambda>p n. n \<le> PAGE_SIZE sclp_headers \<and>
      (\<forall>ctl. ufetch (umem (sclp_world 0) (utime (sclp_world 0))) 0 (sizeof_ctl_sccb sclp_headers) = Some ctl \<longrightarrow>
         p = u64_to_uptr sclp_headers False (ctl_sccb sclp_headers ctl))) (sclp_world 0) w')"
  by (rule sclp_stable_safe [OF sclp_headers_ok])
    (simp_all add: fw_in_page_def umem_stable_def sclp_world_def)

lemma sclp_race_overread_witness:
  "sclp_ctl_ioctl_sccb sclp_headers (\<lambda>_ _ p. (0, p)) False 0 (sclp_world 17) = None"
  by (rule sclp_race_overread [OF sclp_headers_ok, where hdr = "[8, 0, 0, 0, 0, 0, 0, 0]"
        and bs = "[8, 17, 0, 0, 0, 0, 0, 0]" and ctl = "[2, 0, 0x40, 0, 64, 0, 0, 0, 0, 0, 0, 0]"])
    (simp_all only: sclp_ctl_fields,
     simp_all add: sclp_world_def sclp_user_ctl sclp_headers_def le16_at_def)

lemma sclp_bad_length_leaks_witness:
  "ok (sclp_calls sclp_headers (\<lambda>_ _ p. (0, p)) False 0 3 ((sclp_world 0)\<lparr>umem := \<lambda>_. sclp_user 4 0\<rparr>))
    (\<lambda>w'. length (klive w') = 3)"
  using sclp_bad_length_leaks [OF sclp_headers_ok, where w = "(sclp_world 0)\<lparr>umem := \<lambda>_. sclp_user 4 0\<rparr>"
      and area = 0 and ctl = "[2, 0, 0x40, 0, 64, 0, 0, 0, 0, 0, 0, 0]" and is_compat = False
      and hdr = "[4, 0, 0, 0, 0, 0, 0, 0]" and n = 3 and fw = "\<lambda>_ _ p. (0, p)"]
  by (simp add: umem_stable_def sclp_world_def sclp_ctl_fields)
    (simp add: sclp_user_ctl sclp_headers_def le16_at_def)

end
