(* ===== verification/Aac.thy ===== *)
theory Aac
  imports Kernel
begin

text \<open>
  The fibs of the Adaptec RAID driver: the objects a command travels in, their pool, and
  sending and completing one. The code is in \<open>commsup.c\<close>; \<open>Commctrl\<close>, \<open>AacEvents\<close> and
  \<open>RawSrb\<close> build on this theory.

  A fib of the pool is named by its index in \<open>dev->fibs\<close>. Its hardware part, which the
  adapter reads and writes, is a header and the bytes behind it. What the adapter does is an
  oracle: it may refuse a fib, and it may answer with any header and data, or never.
\<close>

section \<open>Data\<close>

text \<open>The header of a hardware fib (\<open>struct aac_fibhdr\<close>); \<open>hdr_other\<close> are fields the code never touches.\<close>

record fib_hdr =
  XferState :: u32
  Command :: u16
  StructType :: u8
  Size :: u16
  SenderSize :: u16
  SenderFibAddress :: u32
  ReceiverFibAddress :: u32
  Handle :: u32
  hdr_other :: "byte list"

record hw_fib =
  header :: fib_hdr
  fdata :: "byte list"

text \<open>\<open>struct fib\<close>: \<open>next\<close> links the free list; \<open>done\<close> is 0 (sent), 1 (answered) or 2 (given up).\<close>

record fib =
  ftype :: nat
  fsize :: nat
  next_fib :: "nat option"
  hw_fib_va :: hw_fib
  fflags :: u32
  done_state :: nat
  callback :: "nat option"
  callback_data :: nat

text \<open>A listener for adapter events (\<open>struct aac_fib_context\<close>); \<open>cid\<close> names the allocation.\<close>

record aac_fib_context =
  cid :: nat
  ctype :: nat
  csize :: nat
  unique :: u32
  cjiffies :: u32
  ccount :: int
  wait_sem :: nat
  cfibs :: "(nat \<times> nat \<times> byte list) list"

text \<open>
  The device. \<open>dfibs\<close> is the pool, \<open>contexts\<close> the list of listeners (\<open>fib_list\<close>),
  \<open>queues_up\<close> says that \<open>dev->queues\<close> is not NULL, \<open>interrupts\<close> counts
  \<open>aac_adapter_interrupt\<close>.
\<close>

record aac_dev =
  max_fib_size :: nat
  dfibs :: "fib list"
  free_fib :: "nat option"
  in_reset :: bool
  queues_up :: bool
  sync_mode :: bool
  sync_fib :: "nat option"
  sync_fib_list :: "nat list"
  management_fib_count :: nat
  numpending :: int
  fib_timeouts :: nat
  contexts :: "aac_fib_context list"
  aif_thread :: bool
  thread_restarts :: nat
  has_fsa_dev :: bool
  interrupts :: nat
  delivered :: nat

text \<open>What the code takes from \<open>aacraid.h\<close>.\<close>

record aac_env =
  sizeof_fibhdr :: nat
  fib_dec :: "byte list \<Rightarrow> fib_hdr"
  fib_enc :: "fib_hdr \<Rightarrow> byte list"
  FIB_MAGICS :: "u8 list"
  HostOwned :: u32
  FibInitialized :: u32
  FibEmpty :: u32
  FastResponseCapable :: u32
  AsyncFlag :: u32
  ResponseExpected :: u32
  NoResponseExpected :: u32
  SentFromHost :: u32
  SentFromAdapter :: u32
  HostProcessed :: u32
  AdapterProcessed :: u32
  NormalPriority :: u32
  FIB_CONTEXT_FLAG_TIMED_OUT :: u32
  FIB_CONTEXT_FLAG :: u32
  FIB_CONTEXT_FLAG_WAIT :: u32
  FSAFS_NTC_FIB_CONTEXT :: nat
  sizeof_fib :: nat
  AAC_NUM_MGT_FIB :: nat
  sizeof_hw_fib :: nat

text \<open>
  Headers have one size and decode from their encoding; bytes encode back from a decoded
  header; the bit \<open>HostOwned\<close> is none of the bits the code clears; there is a magic number.
\<close>

definition aac_env_ok :: "aac_env \<Rightarrow> bool" where
  "aac_env_ok A \<longleftrightarrow>
     (\<forall>h. length (fib_enc A h) = sizeof_fibhdr A) \<and>
     (\<forall>b. length b = sizeof_fibhdr A \<longrightarrow> fib_enc A (fib_dec A b) = b) \<and>
     and (HostOwned A) (not (FastResponseCapable A)) \<noteq> 0 \<and>
     HostOwned A \<noteq> 0 \<and> and (HostOwned A) (AdapterProcessed A) = 0 \<and>
     FIB_MAGICS A \<noteq> [] \<and> sizeof_fibhdr A \<le> 64"

section \<open>The hardware fib as bytes\<close>

definition hw_size :: "aac_env \<Rightarrow> hw_fib \<Rightarrow> nat" where
  "hw_size A hw = sizeof_fibhdr A + length (fdata hw)"

definition hw_image :: "aac_env \<Rightarrow> hw_fib \<Rightarrow> byte list" where
  "hw_image A hw = fib_enc A (header hw) @ fdata hw"

text \<open>Copying bytes over the start of a fib, at least over its header; a fault when they do not fit.\<close>

definition hw_store :: "aac_env \<Rightarrow> hw_fib \<Rightarrow> byte list \<Rightarrow> hw_fib option" where
  "hw_store A hw bs =
     (if sizeof_fibhdr A \<le> length bs \<and> length bs \<le> hw_size A hw
      then Some (let n = sizeof_fibhdr A; d = drop n bs in
        hw\<lparr>header := fib_dec A (take n bs), fdata := d @ drop (length d) (fdata hw)\<rparr>)
      else None)"

lemma length_hw_image: "aac_env_ok A \<Longrightarrow> length (hw_image A hw) = hw_size A hw"
  by (simp add: hw_image_def hw_size_def aac_env_ok_def)

lemma hw_size_store: "hw_store A hw bs = Some hw' \<Longrightarrow> hw_size A hw' = hw_size A hw"
  by (auto simp: hw_store_def hw_size_def Let_def split: if_splits)

lemma hw_size_header [simp]: "hw_size A (hw\<lparr>header := h\<rparr>) = hw_size A hw"
  by (simp add: hw_size_def)

section \<open>The pool\<close>

definition get_fib :: "aac_dev \<Rightarrow> nat \<Rightarrow> fib option" where
  "get_fib dev i = buf_get (dfibs dev) i"

definition set_fib :: "nat \<Rightarrow> fib \<Rightarrow> aac_dev \<Rightarrow> aac_dev" where
  "set_fib i f dev = dev\<lparr>dfibs := (dfibs dev)[i := f]\<rparr>"

definition set_xfer :: "(u32 \<Rightarrow> u32) \<Rightarrow> fib \<Rightarrow> fib" where
  "set_xfer g f = f\<lparr>hw_fib_va := (hw_fib_va f)\<lparr>header := (header (hw_fib_va f))\<lparr>XferState := g (XferState (header (hw_fib_va f)))\<rparr>\<rparr>\<rparr>"

definition xfer :: "fib \<Rightarrow> u32" where
  "xfer f = XferState (header (hw_fib_va f))"

definition aac_fib_alloc :: "aac_env \<Rightarrow> aac_dev \<Rightarrow> (nat option \<times> aac_dev) option" where
  "aac_fib_alloc A dev =
     (case free_fib dev of
        None \<Rightarrow> Some (None, dev)
      | Some i \<Rightarrow> do {
          f \<leftarrow> get_fib dev i;
          let dev = dev\<lparr>free_fib := next_fib f\<rparr>;
          let f = (set_xfer (\<lambda>_. 0) f)\<lparr>ftype := FSAFS_NTC_FIB_CONTEXT A, fsize := sizeof_fib A,
            fflags := 0, callback := None, callback_data := 0\<rparr>;
          Some (Some i, set_fib i f dev)
        })"

definition aac_fib_free :: "aac_env \<Rightarrow> nat \<Rightarrow> aac_dev \<Rightarrow> aac_dev option" where
  "aac_fib_free A i dev = do {
     f \<leftarrow> get_fib dev i;
     (if done_state f = 2 then Some dev
      else
        let dev = (if and (fflags f) (FIB_CONTEXT_FLAG_TIMED_OUT A) \<noteq> 0
                   then dev\<lparr>fib_timeouts := Suc (fib_timeouts dev)\<rparr> else dev) in
        Some ((set_fib i (f\<lparr>next_fib := free_fib dev\<rparr>) dev)\<lparr>free_fib := Some i\<rparr>))
   }"

text \<open>The header of a fresh fib, and putting it into a fib of the pool.\<close>

definition fresh_header :: "aac_env \<Rightarrow> u32 \<Rightarrow> aac_dev \<Rightarrow> fib_hdr" where
  "fresh_header A hw_fib_pa dev =
     (fib_dec A (replicate (sizeof_fibhdr A) 0))\<lparr>StructType := hd (FIB_MAGICS A),
       Size := of_nat (max_fib_size dev),
       XferState := or (HostOwned A) (or (FibInitialized A) (or (FibEmpty A) (FastResponseCapable A))),
       ReceiverFibAddress := hw_fib_pa,
       SenderSize := of_nat (max_fib_size dev)\<rparr>"

definition aac_fib_init :: "aac_env \<Rightarrow> u32 \<Rightarrow> nat \<Rightarrow> aac_dev \<Rightarrow> aac_dev option" where
  "aac_fib_init A hw_fib_pa i dev = do {
     f \<leftarrow> get_fib dev i;
     Some (set_fib i (f\<lparr>hw_fib_va := (hw_fib_va f)\<lparr>header := fresh_header A hw_fib_pa dev\<rparr>\<rparr>) dev)
   }"

definition fib_dealloc :: "fib \<Rightarrow> fib" where
  "fib_dealloc f = set_xfer (\<lambda>_. 0) f"

text \<open>\<open>BUG()\<close> is a fault.\<close>

definition aac_fib_complete :: "aac_env \<Rightarrow> nat \<Rightarrow> aac_dev \<Rightarrow> (int \<times> aac_dev) option" where
  "aac_fib_complete A i dev = do {
     f \<leftarrow> get_fib dev i;
     (if xfer f = 0 then Some (0, dev)
      else if StructType (header (hw_fib_va f)) \<notin> set (FIB_MAGICS A) then Some (- EINVAL, dev)
      else if and (xfer f) (SentFromHost A) \<noteq> 0 \<and> and (xfer f) (AdapterProcessed A) \<noteq> 0
      then Some (0, set_fib i (fib_dealloc f) dev)
      else if and (xfer f) (SentFromHost A) \<noteq> 0 then Some (0, set_fib i (fib_dealloc f) dev)
      else if and (xfer f) (HostOwned A) \<noteq> 0 then Some (0, set_fib i (fib_dealloc f) dev)
      else None)
   }"

section \<open>Sending\<close>

text \<open>
  How a wait for the adapter can end: the answer came (with the flag that says it was timed
  out elsewhere), the waiting task was interrupted, the time ran out, or the adapter was
  found sick. The answer is the fib as the adapter left it.
\<close>

datatype wait_end = Answered hw_fib bool | Interrupted | Ran_out | Sick

text \<open>
  The adapter: whether the \<open>n\<close>-th delivery is refused, and how the wait for it ends.
\<close>

record aac_fw =
  refuses :: "nat \<Rightarrow> hw_fib \<Rightarrow> bool"
  answers :: "nat \<Rightarrow> hw_fib \<Rightarrow> wait_end"

text \<open>
  Handing a fib to the adapter. The adapter transfers \<open>header.Size\<close> bytes of the fib, so a
  size larger than the object is an access outside it.
\<close>

definition aac_adapter_deliver :: "aac_env \<Rightarrow> aac_fw \<Rightarrow> fib \<Rightarrow> aac_dev \<Rightarrow> (bool \<times> aac_dev) option" where
  "aac_adapter_deliver A fw f dev =
     (if unat (Size (header (hw_fib_va f))) > hw_size A (hw_fib_va f) then None
      else Some (refuses fw (delivered dev) (hw_fib_va f), dev\<lparr>delivered := Suc (delivered dev)\<rparr>))"

text \<open>What the answer changes: the fib, its \<open>done\<close> flag, and the count of waiting commands.\<close>

definition take_answer :: "aac_env \<Rightarrow> nat \<Rightarrow> hw_fib \<Rightarrow> bool \<Rightarrow> aac_dev \<Rightarrow> aac_dev option" where
  "take_answer A i hw timed_out dev = do {
     f \<leftarrow> get_fib dev i;
     Some ((set_fib i (f\<lparr>hw_fib_va := hw, done_state := 1,
         fflags := (if timed_out then or (fflags f) (FIB_CONTEXT_FLAG_TIMED_OUT A) else fflags f)\<rparr>) dev)
       \<lparr>management_fib_count := management_fib_count dev - 1\<rparr>)
   }"

text \<open>The header as \<open>aac_fib_send\<close> fills it in.\<close>

definition send_header :: "aac_env \<Rightarrow> u16 \<Rightarrow> nat \<Rightarrow> nat \<Rightarrow> bool \<Rightarrow> bool \<Rightarrow> fib_hdr \<Rightarrow> fib_hdr" where
  "send_header A command i sz wait reply h =
     (let x = (if \<not> wait \<and> reply then or (XferState h) (or (AsyncFlag A) (ResponseExpected A))
               else if \<not> wait then or (XferState h) (NoResponseExpected A)
               else or (XferState h) (ResponseExpected A)) in
      h\<lparr>XferState := or x (SentFromHost A), SenderFibAddress := push_bit 2 (of_nat i),
        Handle := of_nat i + 1, Command := command,
        Size := of_nat (sizeof_fibhdr A + sz)\<rparr>)"

text \<open>Waiting for the answer of a delivered fib, from the label after the delivery on.\<close>

definition fib_wait :: "aac_env \<Rightarrow> aac_fw \<Rightarrow> nat \<Rightarrow> int \<Rightarrow> aac_dev \<Rightarrow> (int \<times> aac_dev) option" where
  "fib_wait A fw i wait dev = do {
     f \<leftarrow> get_fib dev i;
     (case answers fw (delivered dev) (hw_fib_va f) of
        Answered hw timed_out \<Rightarrow> do {
          dev \<leftarrow> take_answer A i hw timed_out dev;
          f \<leftarrow> get_fib dev i;
          Some (if and (fflags f) (FIB_CONTEXT_FLAG_TIMED_OUT A) \<noteq> 0 then - ETIMEDOUT else 0, dev)
        }
      | Interrupted \<Rightarrow> Some (- ERESTARTSYS, set_fib i (f\<lparr>done_state := 2\<rparr>) dev)
      | Ran_out \<Rightarrow>
          if wait < 0 then Some (- ETIMEDOUT, dev\<lparr>numpending := numpending dev - 1\<rparr>)
          else Some (- ERESTARTSYS, set_fib i (f\<lparr>done_state := 2\<rparr>) dev)
      | Sick \<Rightarrow>
          if wait < 0 then Some (- EFAULT, dev)
          else Some (- ERESTARTSYS, set_fib i (f\<lparr>done_state := 2\<rparr>) dev))
   }"

text \<open>
  The synchronous mode of the adapter: one command at a time, the others queue up; an
  interrupted wait is \<open>-EFAULT\<close> here.
\<close>

definition fib_send_sync :: "aac_env \<Rightarrow> aac_fw \<Rightarrow> nat \<Rightarrow> int \<Rightarrow> aac_dev \<Rightarrow> (int \<times> aac_dev) option" where
  "fib_send_sync A fw i wait dev = do {
     f \<leftarrow> get_fib dev i;
     dev \<leftarrow>
       (if sync_fib dev \<noteq> None then Some (dev\<lparr>sync_fib_list := sync_fib_list dev @ [i]\<rparr>)
        else if unat (Size (header (hw_fib_va f))) > hw_size A (hw_fib_va f) then None
        else Some (dev\<lparr>sync_fib := Some i, delivered := Suc (delivered dev)\<rparr>));
     (if wait = 0 then Some (- EINPROGRESS, dev)
      else
        let dev = set_fib i (f\<lparr>fflags := or (fflags f) (FIB_CONTEXT_FLAG_WAIT A)\<rparr>) dev in
        (case answers fw (delivered dev) (hw_fib_va f) of
           Answered hw timed_out \<Rightarrow> do {
             dev \<leftarrow> take_answer A i hw timed_out dev;
             Some (0, dev)
           }
         | _ \<Rightarrow> Some (- EFAULT, set_fib i (f\<lparr>fflags := and (fflags f) (not (FIB_CONTEXT_FLAG_WAIT A))\<rparr>) dev)))
   }"

definition aac_fib_send ::
  "aac_env \<Rightarrow> aac_fw \<Rightarrow> u16 \<Rightarrow> nat \<Rightarrow> nat \<Rightarrow> int \<Rightarrow> bool \<Rightarrow> nat option \<Rightarrow> nat \<Rightarrow> aac_dev \<Rightarrow>
   (int \<times> aac_dev) option" where
  "aac_fib_send A fw command i sz wait reply cb cb_data dev = do {
     f \<leftarrow> get_fib dev i;
     (if and (xfer f) (HostOwned A) = 0 then Some (- EBUSY, dev)
      else
        let f = f\<lparr>fflags := 0\<rparr> in
        if wait \<noteq> 0 \<and> \<not> reply then Some (- EINVAL, set_fib i f dev)
        else
          let h = send_header A command i sz (wait \<noteq> 0) reply (header (hw_fib_va f));
              f = f\<lparr>hw_fib_va := (hw_fib_va f)\<lparr>header := h\<rparr>\<rparr> in
          if Size h > SenderSize h then Some (- EMSGSIZE, set_fib i f dev)
          else
            let f = set_xfer (\<lambda>x. or x (NormalPriority A)) f;
                f = (if wait = 0 then f\<lparr>callback := cb, callback_data := cb_data, fflags := FIB_CONTEXT_FLAG A\<rparr> else f);
                f = f\<lparr>done_state := 0\<rparr>;
                dev = set_fib i f dev in
            if \<not> queues_up dev then Some (- EBUSY, dev)
            else if wait \<noteq> 0 \<and> management_fib_count dev \<ge> AAC_NUM_MGT_FIB A then Some (- EBUSY, dev)
            else
              let dev = (if wait \<noteq> 0 then dev\<lparr>management_fib_count := Suc (management_fib_count dev)\<rparr> else dev) in
              if sync_mode dev then fib_send_sync A fw i wait dev
              else do {
                (refused, dev) \<leftarrow> aac_adapter_deliver A fw f dev;
                (if refused
                 then Some (- EBUSY, if wait \<noteq> 0
                   then dev\<lparr>management_fib_count := management_fib_count dev - 1\<rparr> else dev)
                 else if wait \<noteq> 0 then fib_wait A fw i wait dev
                 else Some (if reply then - EINPROGRESS else 0, dev))
              })
   }"

section \<open>The free list\<close>

text \<open>
  The pool's free list is a chain through \<open>next_fib\<close>. \<open>free_list dev xs\<close> says that it runs
  through the fibs \<open>xs\<close>, in this order, without a cycle, and that none of them is one the
  driver gave up while the adapter still had it.
\<close>

fun chain :: "nat option list \<Rightarrow> nat option \<Rightarrow> nat list \<Rightarrow> bool" where
  "chain ns None [] \<longleftrightarrow> True"
| "chain ns (Some i) (x # xs) \<longleftrightarrow> i = x \<and> i < length ns \<and> chain ns (ns ! i) xs"
| "chain ns None (x # xs) \<longleftrightarrow> False"
| "chain ns (Some i) [] \<longleftrightarrow> False"

definition nexts :: "aac_dev \<Rightarrow> nat option list" where
  "nexts dev = map next_fib (dfibs dev)"

definition free_list :: "aac_dev \<Rightarrow> nat list \<Rightarrow> bool" where
  "free_list dev xs \<longleftrightarrow> chain (nexts dev) (free_fib dev) xs \<and> distinct xs \<and>
     (\<forall>i \<in> set xs. done_state (dfibs dev ! i) \<noteq> 2)"

lemma chain_in_range: "chain ns p xs \<Longrightarrow> x \<in> set xs \<Longrightarrow> x < length ns"
  by (induction ns p xs rule: chain.induct) auto

lemma chain_update: "i \<notin> set xs \<Longrightarrow> chain (ns[i := n]) p xs \<longleftrightarrow> chain ns p xs"
  by (induction ns p xs rule: chain.induct) auto

lemma chain_unique: "chain ns p xs \<Longrightarrow> chain ns p ys \<Longrightarrow> xs = ys"
proof (induction ns p xs arbitrary: ys rule: chain.induct)
  case (2 ns i x xs)
  then show ?case by (cases ys) auto
next
  case (1 ns)
  then show ?case by (cases ys) auto
qed auto

lemma nexts_set_fib: "nexts (set_fib i f dev) = (nexts dev)[i := next_fib f]"
  by (simp add: nexts_def set_fib_def map_update)

lemma get_set_fib [simp]:
  "get_fib (set_fib i f dev) i = (if i < length (dfibs dev) then Some f else None)"
  by (simp add: get_fib_def set_fib_def buf_get_def)

lemma set_xfer_keeps [simp]:
  "next_fib (set_xfer g f) = next_fib f" "done_state (set_xfer g f) = done_state f"
  "fflags (set_xfer g f) = fflags f" "hw_size A (hw_fib_va (set_xfer g f)) = hw_size A (hw_fib_va f)"
  "xfer (set_xfer g f) = g (xfer f)"
  by (simp_all add: set_xfer_def xfer_def)

text \<open>
  What sending and completing a fib leave alone: everything of the device but the fib itself
  and the counters, and of the fib its link and the size of its hardware part.
\<close>

definition dev_frame :: "aac_env \<Rightarrow> nat \<Rightarrow> aac_dev \<Rightarrow> aac_dev \<Rightarrow> bool" where
  "dev_frame A i dev dev' \<longleftrightarrow>
     max_fib_size dev' = max_fib_size dev \<and> free_fib dev' = free_fib dev \<and> contexts dev' = contexts dev \<and>
     in_reset dev' = in_reset dev \<and> length (dfibs dev') = length (dfibs dev) \<and>
     (\<forall>j. j \<noteq> i \<longrightarrow> dfibs dev' ! j = dfibs dev ! j) \<and> next_fib (dfibs dev' ! i) = next_fib (dfibs dev ! i) \<and>
     hw_size A (hw_fib_va (dfibs dev' ! i)) = hw_size A (hw_fib_va (dfibs dev ! i))"

lemma dev_frame_refl [simp]: "dev_frame A i dev dev"
  by (simp add: dev_frame_def)

lemma dev_frame_trans: "dev_frame A i a b \<Longrightarrow> dev_frame A i b c \<Longrightarrow> dev_frame A i a c"
  by (simp add: dev_frame_def)

lemma dev_frame_nexts:
  assumes "dev_frame A i dev dev'"
  shows "nexts dev' = nexts dev"
  using assms unfolding dev_frame_def nexts_def
  by (auto intro!: nth_equalityI) 

lemma dev_frame_free_list:
  assumes "dev_frame A i dev dev'" and "i \<notin> set xs"
  shows "free_list dev' xs = free_list dev xs"
proof -
  have "dfibs dev' ! j = dfibs dev ! j" if "j \<in> set xs" for j
    using assms that unfolding dev_frame_def by metis
  then show ?thesis
    using dev_frame_nexts [OF assms(1)] assms(1) by (simp add: free_list_def dev_frame_def)
qed

section \<open>The pool hands out and takes back\<close>

lemma aac_fib_alloc_ok:
  assumes "free_list dev xs"
  shows "ok (aac_fib_alloc A dev) (\<lambda>(r, dev'). case r of
     None \<Rightarrow> xs = [] \<and> dev' = dev
   | Some i \<Rightarrow> \<exists>ys. xs = i # ys \<and> i \<notin> set ys \<and> free_list dev' ys \<and> i < length (dfibs dev) \<and>
       length (dfibs dev') = length (dfibs dev) \<and> done_state (dfibs dev' ! i) \<noteq> 2 \<and>
       xfer (dfibs dev' ! i) = 0 \<and> fflags (dfibs dev' ! i) = 0 \<and>
       hw_size A (hw_fib_va (dfibs dev' ! i)) = hw_size A (hw_fib_va (dfibs dev ! i)) \<and>
       max_fib_size dev' = max_fib_size dev \<and> contexts dev' = contexts dev \<and> in_reset dev' = in_reset dev \<and>
       (\<forall>j. j \<noteq> i \<longrightarrow> dfibs dev' ! j = dfibs dev ! j))"
proof (cases "free_fib dev")
  case None
  then have "xs = []" using assms by (cases xs) (auto simp: free_list_def)
  with None show ?thesis by (simp add: aac_fib_alloc_def)
next
  case (Some i)
  then obtain ys where xs: "xs = i # ys" using assms by (cases xs) (auto simp: free_list_def)
  have i: "i < length (dfibs dev)" "chain (nexts dev) (next_fib (dfibs dev ! i)) ys" "i \<notin> set ys"
    "done_state (dfibs dev ! i) \<noteq> 2"
    using assms Some by (auto simp: free_list_def xs nexts_def)
  have same: "(nexts dev)[i := next_fib (dfibs dev ! i)] = nexts dev"
    using i(1) by (simp add: nexts_def list_update_same_conv)
  show ?thesis
    using assms Some i
    by (auto simp: aac_fib_alloc_def get_fib_def buf_get_def set_fib_def free_list_def xs nexts_def
        map_update same [unfolded nexts_def] set_xfer_def xfer_def split: option.splits)
      (metis nth_list_update_neq)+
qed

lemma aac_fib_free_ok:
  assumes "free_list dev ys" and "i \<notin> set ys" and "i < length (dfibs dev)"
    and "done_state (dfibs dev ! i) \<noteq> 2"
  shows "ok (aac_fib_free A i dev) (\<lambda>dev'. free_list dev' (i # ys) \<and>
     max_fib_size dev' = max_fib_size dev \<and> contexts dev' = contexts dev \<and> in_reset dev' = in_reset dev \<and>
     length (dfibs dev') = length (dfibs dev) \<and>
     (\<forall>j. hw_fib_va (dfibs dev' ! j) = hw_fib_va (dfibs dev ! j)))"
  using assms
  by (auto simp: aac_fib_free_def get_fib_def buf_get_def set_fib_def free_list_def nexts_def map_update
      chain_update nth_list_update Let_def)

section \<open>Sending keeps the pool\<close>

text \<open>A fib that \<open>aac_fib_complete\<close> can complete without reaching its \<open>BUG()\<close>.\<close>

definition completes :: "aac_env \<Rightarrow> hw_fib \<Rightarrow> bool" where
  "completes A hw \<longleftrightarrow> XferState (header hw) = 0 \<or> StructType (header hw) \<notin> set (FIB_MAGICS A) \<or>
     and (XferState (header hw)) (SentFromHost A) \<noteq> 0 \<or> and (XferState (header hw)) (HostOwned A) \<noteq> 0"

text \<open>
  What the theorems need of the adapter: an answer has the size of the fib it answers and a
  state the host can complete.
\<close>

definition fw_ok :: "aac_env \<Rightarrow> aac_fw \<Rightarrow> bool" where
  "fw_ok A fw \<longleftrightarrow> (\<forall>n hw hw' t. answers fw n hw = Answered hw' t \<longrightarrow>
     hw_size A hw' = hw_size A hw \<and> completes A hw')"

lemma and_or_zero: "and (or a b) (c :: u32) = 0 \<longleftrightarrow> and a c = 0 \<and> and b c = 0"
  by (auto simp: bit_eq_iff bit_simps)

lemma aac_fib_complete_ok:
  assumes "i < length (dfibs dev)" and "completes A (hw_fib_va (dfibs dev ! i))"
  shows "ok (aac_fib_complete A i dev) (\<lambda>(r, dev'). (r = 0 \<or> r = - EINVAL) \<and> dev_frame A i dev dev' \<and>
    done_state (dfibs dev' ! i) = done_state (dfibs dev ! i))"
  using assms
  by (auto simp: aac_fib_complete_def get_fib_def buf_get_def completes_def xfer_def fib_dealloc_def
      set_fib_def dev_frame_def set_xfer_def nth_list_update hw_size_def)

definition send_post :: "aac_env \<Rightarrow> nat \<Rightarrow> aac_dev \<Rightarrow> int \<times> aac_dev \<Rightarrow> bool" where
  "send_post A i dev = (\<lambda>(r, dev'). dev_frame A i dev dev' \<and>
     (done_state (dfibs dev' ! i) = 2 \<longleftrightarrow> r = - ERESTARTSYS) \<and>
     (completes A (hw_fib_va (dfibs dev ! i)) \<or> r = 0 \<longrightarrow> completes A (hw_fib_va (dfibs dev' ! i))))"

lemma take_answer_ok:
  assumes "i < length (dfibs dev)" and "hw_size A hw = hw_size A (hw_fib_va (dfibs dev ! i))" and "completes A hw"
  shows "ok (take_answer A i hw t dev) (\<lambda>dev'. dev_frame A i dev dev' \<and> done_state (dfibs dev' ! i) = 1 \<and>
    completes A (hw_fib_va (dfibs dev' ! i)))"
  using assms
  by (auto simp: take_answer_def get_fib_def buf_get_def set_fib_def dev_frame_def)

lemma fib_wait_ok:
  assumes fw: "fw_ok A fw" and i: "i < length (dfibs dev)" and open_fib: "done_state (dfibs dev ! i) \<noteq> 2"
    and compl: "completes A (hw_fib_va (dfibs dev ! i))"
  shows "ok (fib_wait A fw i wait dev) (send_post A i dev)"
proof (cases "answers fw (delivered dev) (hw_fib_va (dfibs dev ! i))")
  case (Answered hw t)
  then have hw: "hw_size A hw = hw_size A (hw_fib_va (dfibs dev ! i))" "completes A hw"
    using fw by (auto simp: fw_ok_def)
  show ?thesis
    using take_answer_ok [OF i hw, of t] i Answered
    by (auto simp: fib_wait_def get_fib_def buf_get_def send_post_def dev_frame_def elim!: okE)
qed (use i open_fib compl in \<open>auto simp: fib_wait_def get_fib_def buf_get_def send_post_def set_fib_def dev_frame_def\<close>)

lemma fib_send_sync_ok:
  assumes fw: "fw_ok A fw" and i: "i < length (dfibs dev)" and open_fib: "done_state (dfibs dev ! i) \<noteq> 2"
    and compl: "completes A (hw_fib_va (dfibs dev ! i))"
    and size: "unat (Size (header (hw_fib_va (dfibs dev ! i)))) \<le> hw_size A (hw_fib_va (dfibs dev ! i))"
  shows "ok (fib_send_sync A fw i wait dev) (send_post A i dev)"
proof -
  define f where "f = dfibs dev ! i"
  define dev1 where "dev1 = (if sync_fib dev \<noteq> None then dev\<lparr>sync_fib_list := sync_fib_list dev @ [i]\<rparr>
      else dev\<lparr>sync_fib := Some i, delivered := Suc (delivered dev)\<rparr>)"
  define dev2 where "dev2 = set_fib i (f\<lparr>fflags := or (fflags f) (FIB_CONTEXT_FLAG_WAIT A)\<rparr>) dev1"
  have fr: "dev_frame A i dev dev1" "length (dfibs dev1) = length (dfibs dev)" "dfibs dev1 = dfibs dev"
    by (simp_all add: dev1_def dev_frame_def)
  have fr2: "dev_frame A i dev dev2" "i < length (dfibs dev2)" "hw_fib_va (dfibs dev2 ! i) = hw_fib_va f"
    using i fr by (simp_all add: dev2_def set_fib_def dev_frame_def f_def)
  have run: "fib_send_sync A fw i wait dev =
      (if wait = 0 then Some (- EINPROGRESS, dev1)
       else (case answers fw (delivered dev1) (hw_fib_va f) of
           Answered hw timed_out \<Rightarrow> do { dev \<leftarrow> take_answer A i hw timed_out dev2; Some (0, dev) }
         | _ \<Rightarrow> Some (- EFAULT, set_fib i (f\<lparr>fflags := and (fflags f) (not (FIB_CONTEXT_FLAG_WAIT A))\<rparr>) dev2)))"
    unfolding dev2_def dev1_def f_def using i size
    by (cases "sync_fib dev")
      (simp_all add: fib_send_sync_def get_fib_def buf_get_def set_fib_def Let_def split: wait_end.split)
  have fail: "dev_frame A i dev (set_fib i (f\<lparr>fflags := x\<rparr>) dev2)" for x
    using fr2 i by (simp add: dev2_def set_fib_def dev_frame_def f_def)
  show ?thesis
  proof (cases "answers fw (delivered dev1) (hw_fib_va f)")
    case (Answered hw t)
    then have hw: "hw_size A hw = hw_size A (hw_fib_va (dfibs dev2 ! i))" "completes A hw"
      using fw fr2(3) by (auto simp: fw_ok_def)
    show ?thesis
      using take_answer_ok [OF fr2(2) hw, of t] fr fr2(1) i Answered open_fib compl
      by (auto simp: run send_post_def elim!: okE dest: dev_frame_trans [OF fr2(1)])
  qed (use fail fr fr2 i open_fib compl in \<open>auto simp: run send_post_def set_fib_def f_def\<close>)
qed

lemma aac_fib_send_ok:
  assumes fw: "fw_ok A fw" and i: "i < length (dfibs dev)" and open_fib: "done_state (dfibs dev ! i) \<noteq> 2"
    and room: "sizeof_fibhdr A + sz \<le> hw_size A (hw_fib_va (dfibs dev ! i))"
  shows "ok (aac_fib_send A fw command i sz wait reply cb d dev) (send_post A i dev)"
proof -
  define f where "f = dfibs dev ! i"
  have g: "get_fib dev i = Some f" using i by (simp add: get_fib_def buf_get_def f_def)
  show ?thesis
  proof (cases "and (xfer f) (HostOwned A) = 0")
    case True
    then show ?thesis using g open_fib by (simp add: aac_fib_send_def send_post_def)
  next
    case owned: False
    define h where "h = send_header A command i sz (wait \<noteq> 0) reply (header (hw_fib_va f))"
    have hx: "and (XferState h) (HostOwned A) \<noteq> 0" "unat (Size h) \<le> sizeof_fibhdr A + sz"
      using owned unat_of_nat_le [where 'a = 16, of "sizeof_fibhdr A + sz"]
      by (auto simp: h_def send_header_def Let_def and_or_zero xfer_def)
    define f1 where "f1 = f\<lparr>fflags := 0\<rparr>"
    define f2 where "f2 = f1\<lparr>hw_fib_va := (hw_fib_va f1)\<lparr>header := h\<rparr>\<rparr>"
    define f3 where "f3 = (let f = set_xfer (\<lambda>x. or x (NormalPriority A)) f2;
          f = (if wait = 0 then f\<lparr>callback := cb, callback_data := d, fflags := FIB_CONTEXT_FLAG A\<rparr> else f)
        in f\<lparr>done_state := 0\<rparr>)"
    have f3: "next_fib f3 = next_fib f" "hw_size A (hw_fib_va f3) = hw_size A (hw_fib_va f)"
      "done_state f3 = 0" "Size (header (hw_fib_va f3)) = Size h"
      "completes A (hw_fib_va f3)" "completes A (hw_fib_va f2)"
      using hx by (auto simp: f3_def f2_def f1_def Let_def set_xfer_def hw_size_def completes_def and_or_zero)
    define mgmt where "mgmt dev = (if wait \<noteq> 0 then dev\<lparr>management_fib_count := Suc (management_fib_count dev)\<rparr>
      else dev)" for dev :: aac_dev
    define dev3 where "dev3 = set_fib i f3 dev"
    define dev4 where "dev4 = mgmt dev3"
    have fr: "dev_frame A i dev dev3" "dev_frame A i dev dev4" "i < length (dfibs dev4)" "dfibs dev4 ! i = f3"
      "dfibs dev3 ! i = f3"
      using i f3(1,2) by (simp_all add: dev3_def dev4_def mgmt_def set_fib_def dev_frame_def f_def)
    have post: "send_post A i dev4 r \<Longrightarrow> send_post A i dev r" for r
      using fr(4) f3(5) by (auto simp: send_post_def dest: dev_frame_trans [OF fr(2)])
    have size: "unat (Size h) \<le> hw_size A (hw_fib_va f)"
      using hx(2) room by (simp add: f_def)
    have sync: "ok (fib_send_sync A fw i wait dev4) (send_post A i dev)"
      by (rule ok_mono [OF fib_send_sync_ok [OF fw fr(3)]]) (use fr f3 size post in auto)
    have deliver: "aac_adapter_deliver A fw f3 dev4 =
        Some (refuses fw (delivered dev4) (hw_fib_va f3), dev4\<lparr>delivered := Suc (delivered dev4)\<rparr>)"
      using f3 size by (simp add: aac_adapter_deliver_def)
    have wait: "ok (fib_wait A fw i wait (dev4\<lparr>delivered := Suc (delivered dev4)\<rparr>)) (send_post A i dev)"
    proof (rule ok_mono [OF fib_wait_ok [OF fw]])
      fix r
      assume "send_post A i (dev4\<lparr>delivered := Suc (delivered dev4)\<rparr>) r"
      then have "send_post A i dev4 r" by (auto simp: send_post_def dev_frame_def)
      then show "send_post A i dev r" by (rule post)
    qed (use fr f3 in auto)
    have others: "send_post A i dev (r, dev5)"
      if "dfibs dev5 = dfibs dev4" "dev_frame A i dev4 dev5" "r \<noteq> - ERESTARTSYS" for r dev5
      using that fr f3 by (auto simp: send_post_def intro: dev_frame_trans [OF fr(2)])
    have early: "send_post A i dev (r, set_fib i f2 dev)" "send_post A i dev (r, set_fib i f1 dev)"
      if "r \<noteq> - ERESTARTSYS" "r \<noteq> 0" for r
      using that i open_fib f3(6)
      by (auto simp: send_post_def set_fib_def dev_frame_def f2_def f1_def f_def)
    have dev3_post: "send_post A i dev (- EBUSY, dev3)"
      using fr f3 by (simp add: send_post_def)
    have run: "aac_fib_send A fw command i sz wait reply cb d dev =
      (if wait \<noteq> 0 \<and> \<not> reply then Some (- EINVAL, set_fib i f1 dev)
       else if Size h > SenderSize h then Some (- EMSGSIZE, set_fib i f2 dev)
       else if \<not> queues_up dev3 then Some (- EBUSY, dev3)
       else if wait \<noteq> 0 \<and> management_fib_count dev3 \<ge> AAC_NUM_MGT_FIB A then Some (- EBUSY, dev3)
       else if sync_mode dev4 then fib_send_sync A fw i wait dev4
       else do {
                (refused, dev) \<leftarrow> aac_adapter_deliver A fw f3 dev4;
                (if refused
                 then Some (- EBUSY, if wait \<noteq> 0
                   then dev\<lparr>management_fib_count := management_fib_count dev - 1\<rparr> else dev)
                 else if wait \<noteq> 0 then fib_wait A fw i wait dev
                 else Some (if reply then - EINPROGRESS else 0, dev))
              })"
      using g owned
      unfolding aac_fib_send_def dev4_def mgmt_def dev3_def f3_def f2_def f1_def h_def Let_def
      by simp
    show ?thesis
      unfolding run using others early sync wait dev3_post
      by (auto simp: deliver dev_frame_def)
  qed
qed

section \<open>The header of the driver\<close>

text \<open>The layout and the numbers that \<open>aacraid.h\<close> gives to the parameters.\<close>

definition aac_hdr_dec :: "byte list \<Rightarrow> fib_hdr" where
  "aac_hdr_dec b = \<lparr>XferState = le32_at b 0, Command = le16_at b 4, StructType = b ! 6, Size = le16_at b 8,
     SenderSize = le16_at b 10, SenderFibAddress = le32_at b 12, ReceiverFibAddress = le32_at b 16,
     Handle = le32_at b 20, hdr_other = b ! 7 # drop 24 b\<rparr>"

definition aac_hdr_enc :: "fib_hdr \<Rightarrow> byte list" where
  "aac_hdr_enc h = (let rest = take 9 (hdr_other h @ replicate 9 0) in
     le32_bytes (XferState h) @ le16_bytes (Command h) @ [StructType h, hd rest] @
     le16_bytes (Size h) @ le16_bytes (SenderSize h) @ le32_bytes (SenderFibAddress h) @
     le32_bytes (ReceiverFibAddress h) @ le32_bytes (Handle h) @ tl rest)"

definition aac_headers :: aac_env where
  "aac_headers = \<lparr>sizeof_fibhdr = 32, fib_dec = aac_hdr_dec, fib_enc = aac_hdr_enc, FIB_MAGICS = [1, 4, 5],
     HostOwned = 1, FibInitialized = 4, FibEmpty = 8, FastResponseCapable = 0x80000, AsyncFlag = 0x2000,
     ResponseExpected = 0x80, NoResponseExpected = 0x100, SentFromHost = 0x20, SentFromAdapter = 0x40,
     HostProcessed = 0x400, AdapterProcessed = 0x200, NormalPriority = 0x1000,
     FIB_CONTEXT_FLAG_TIMED_OUT = 1, FIB_CONTEXT_FLAG = 2, FIB_CONTEXT_FLAG_WAIT = 4,
     FSAFS_NTC_FIB_CONTEXT = 0x30c, sizeof_fib = 128, AAC_NUM_MGT_FIB = 8, sizeof_hw_fib = 512\<rparr>"

lemma length_aac_hdr_enc: "length (aac_hdr_enc h) = 32"
  by (simp add: aac_hdr_enc_def Let_def)

lemma aac_hdr_enc_dec:
  assumes "length b = 32"
  shows "aac_hdr_enc (aac_hdr_dec b) = b"
proof -
  have "b = map ((!) b) [0..<32]" using assms by (metis map_nth)
  also have "[0..<32] = [0, 1, 2, 3, 4, 5, 6, 7] @ [8..<24] @ [24..<32]" by code_simp
  finally have b: "b = map ((!) b) [0, 1, 2, 3, 4, 5, 6, 7] @ map ((!) b) [8..<24] @ map ((!) b) [24..<32]"
    by (simp only: map_append)
  have "drop 24 (map ((!) b) [0..<length b]) = map ((!) b) [24..<length b]"
    by (simp only: drop_map drop_upt add_0)
  then have d: "drop 24 b = map ((!) b) [24..<32]" by (simp only: map_nth assms [symmetric])
  have "aac_hdr_enc (aac_hdr_dec b) = map ((!) b) [0, 1, 2, 3, 4, 5, 6, 7] @ map ((!) b) [8..<24] @ map ((!) b) [24..<32]"
    by (simp add: aac_hdr_enc_def aac_hdr_dec_def Let_def le32_bytes_at le16_bytes_at d numeral_2_eq_2)
  then show ?thesis by (simp only: b [symmetric])
qed

lemma aac_headers_ok: "aac_env_ok aac_headers"
  unfolding aac_env_ok_def
  by (auto simp: aac_headers_def length_aac_hdr_enc aac_hdr_enc_dec)

text \<open>A device with two fibs of 64 bytes, and an adapter that answers every fib as done.\<close>

definition demo_fib :: "nat option \<Rightarrow> fib" where
  "demo_fib n = \<lparr>ftype = 0, fsize = 0, next_fib = n,
     hw_fib_va = \<lparr>header = aac_hdr_dec (replicate 32 0), fdata = replicate 32 0\<rparr>, fflags = 0,
     done_state = 0, callback = None, callback_data = 0\<rparr>"

definition aac_demo :: aac_dev where
  "aac_demo = \<lparr>max_fib_size = 64, dfibs = [demo_fib (Some 1), demo_fib None], free_fib = Some 0,
     in_reset = False, queues_up = True, sync_mode = False, sync_fib = None, sync_fib_list = [],
     management_fib_count = 0, numpending = 0, fib_timeouts = 0, contexts = [], aif_thread = True,
     thread_restarts = 0, has_fsa_dev = True, interrupts = 0, delivered = 0\<rparr>"

definition aac_answering :: aac_fw where
  "aac_answering = \<lparr>refuses = \<lambda>_ _. False,
     answers = \<lambda>_ hw. Answered (hw\<lparr>header := (header hw)\<lparr>XferState := 0\<rparr>\<rparr>) False\<rparr>"

lemma aac_answering_ok: "fw_ok A aac_answering"
  by (auto simp: fw_ok_def aac_answering_def completes_def)

lemma aac_demo_free: "free_list aac_demo [0, 1]"
  by (simp add: free_list_def aac_demo_def nexts_def demo_fib_def)

end
