(* ===== verification/Commctrl.thy ===== *)
theory Commctrl
  imports Aac
begin

text \<open>
  The ioctl interface of the Adaptec RAID driver, \<open>commctrl.c\<close>: sending a fib built by user
  space (the original and the file with the double-fetch patch). The other requests are in
  \<open>AacEvents\<close> (listeners), \<open>RawSrb\<close> (raw SCSI requests) and \<open>AacIoctl\<close> (the dispatch).
\<close>

section \<open>Sending a fib from user space\<close>

text \<open>The size of the copy, computed from the header of the first fetch.\<close>

definition send_fib_size :: "aac_env \<Rightarrow> fib_hdr \<Rightarrow> nat" where
  "send_fib_size A h =
     (let s = unat (Size h) + sizeof_fibhdr A in
      if s < unat (SenderSize h) then unat (SenderSize h) else s)"

text \<open>
  The end of \<open>ioctl_send_fib\<close>, its label \<open>cleanup\<close>: \<open>saved\<close> is the object that was put in
  the fib's place, if one was, and the fib's own hardware part.
\<close>

definition send_fib_cleanup ::
  "aac_env \<Rightarrow> nat \<Rightarrow> (nat \<times> hw_fib) option \<Rightarrow> int \<Rightarrow> aac_dev \<Rightarrow> 'z world_scheme \<Rightarrow>
   (int \<times> aac_dev \<times> 'z world_scheme) option" where
  "send_fib_cleanup A i saved retval dev w = do {
     (dev, w) \<leftarrow>
       (case saved of
          None \<Rightarrow> Some (dev, w)
        | Some (k, hw) \<Rightarrow> do {
            w \<leftarrow> kfree k w;
            f \<leftarrow> get_fib dev i;
            Some (set_fib i (f\<lparr>hw_fib_va := hw\<rparr>) dev, w)
          });
     dev \<leftarrow> (if retval \<noteq> - ERESTARTSYS then aac_fib_free A i dev else Some dev);
     Some (retval, dev, w)
   }"

text \<open>
  Making room: when the request is larger than a fib of the pool, a buffer of its size takes
  the place of the fib's hardware part for the time of the request. The result is an error
  or what \<open>send_fib_cleanup\<close> has to restore.
\<close>

definition make_room ::
  "aac_env \<Rightarrow> nat \<Rightarrow> nat \<Rightarrow> aac_dev \<Rightarrow> 'z world_scheme \<Rightarrow>
   ((int + (nat \<times> hw_fib) option) \<times> aac_dev \<times> 'z world_scheme) option" where
  "make_room A i sz dev w =
     (if sz \<le> max_fib_size dev then Some (Inr None, dev, w)
      else if sz > 2048 then Some (Inl (- EINVAL), dev, w)
      else (case kmalloc sz w of
          (None, w) \<Rightarrow> Some (Inl (- ENOMEM), dev, w)
        | (Some (k, junk), w) \<Rightarrow> do {
            f \<leftarrow> get_fib dev i;
            junk \<leftarrow> buf_write junk (max_fib_size dev) (replicate (sz - max_fib_size dev) 0);
            old \<leftarrow> buf_read (hw_image A (hw_fib_va f)) 0 (max_fib_size dev);
            bytes \<leftarrow> buf_write junk 0 old;
            let hw = \<lparr>header = fib_dec A (take (sizeof_fibhdr A) bytes), fdata = drop (sizeof_fibhdr A) bytes\<rparr>;
            Some (Inr (Some (k, hw_fib_va f)), set_fib i (f\<lparr>hw_fib_va := hw\<rparr>) dev, w)
          }))"

text \<open>Sending what was fetched, or the break point, and copying the answer back.\<close>

definition send_fib_run ::
  "aac_env \<Rightarrow> aac_fw \<Rightarrow> u16 \<Rightarrow> nat \<Rightarrow> nat \<Rightarrow> nat \<Rightarrow> aac_dev \<Rightarrow> 'z world_scheme \<Rightarrow>
   (int \<times> aac_dev \<times> 'z world_scheme) option" where
  "send_fib_run A fw TakeABreakPt i arg sz dev w = do {
     f \<leftarrow> get_fib dev i;
     let h = header (hw_fib_va f);
     (retval, dev) \<leftarrow>
       (if Command h = TakeABreakPt
        then Some (0, (set_fib i (set_xfer (\<lambda>_. 0) f) dev)\<lparr>interrupts := Suc (interrupts dev)\<rparr>)
        else do {
          (retval, dev) \<leftarrow> aac_fib_send A fw (Command h) i (unat (Size h)) 1 True None 0 dev;
          (if retval \<noteq> 0 then Some (retval, dev)
           else do {
             (c, dev) \<leftarrow> aac_fib_complete A i dev;
             Some (if c \<noteq> 0 then - EINVAL else 0, dev)
           })
        });
     (if retval \<noteq> 0 then Some (retval, dev, w)
      else do {
        f \<leftarrow> get_fib dev i;
        out \<leftarrow> buf_read (hw_image A (hw_fib_va f)) 0 sz;
        (case copy_to_user arg out w of
           (True, w) \<Rightarrow> Some (- EFAULT, dev, w)
         | (False, w) \<Rightarrow> Some (0, dev, w))
      })
   }"

text \<open>The second fetch, over the first one's header.\<close>

definition fetch_fib ::
  "aac_env \<Rightarrow> nat \<Rightarrow> nat \<Rightarrow> nat \<Rightarrow> aac_dev \<Rightarrow> 'z world_scheme \<Rightarrow>
   (byte list option \<times> aac_dev \<times> 'z world_scheme) option" where
  "fetch_fib A i arg n dev w =
     (case copy_from_user arg n w of
        (None, w) \<Rightarrow> Some (None, dev, w)
      | (Some bs, w) \<Rightarrow> do {
          f \<leftarrow> get_fib dev i;
          hw \<leftarrow> hw_store A (hw_fib_va f) bs;
          Some (Some bs, set_fib i (f\<lparr>hw_fib_va := hw\<rparr>) dev, w)
        })"

definition ioctl_send_fib ::
  "aac_env \<Rightarrow> aac_fw \<Rightarrow> u16 \<Rightarrow> nat \<Rightarrow> aac_dev \<Rightarrow> 'z world_scheme \<Rightarrow>
   (int \<times> aac_dev \<times> 'z world_scheme) option" where
  "ioctl_send_fib A fw TakeABreakPt arg dev w =
     (if in_reset dev then Some (- EBUSY, dev, w)
      else do {
        (fibptr, dev) \<leftarrow> aac_fib_alloc A dev;
        (case fibptr of
           None \<Rightarrow> Some (- ENOMEM, dev, w)
         | Some i \<Rightarrow> do {
             (got, dev, w) \<leftarrow> fetch_fib A i arg (sizeof_fibhdr A) dev w;
             (case got of
                None \<Rightarrow> do { dev \<leftarrow> aac_fib_free A i dev; Some (- EFAULT, dev, w) }
              | Some hdr \<Rightarrow> do {
                  let sz = send_fib_size A (fib_dec A hdr);
                  (room, dev, w) \<leftarrow> make_room A i sz dev w;
                  (case room of
                     Inl err \<Rightarrow> send_fib_cleanup A i None err dev w
                   | Inr saved \<Rightarrow> do {
                       (got, dev, w) \<leftarrow> fetch_fib A i arg sz dev w;
                       (case got of
                          None \<Rightarrow> send_fib_cleanup A i saved (- EFAULT) dev w
                        | Some _ \<Rightarrow> do {
                            (retval, dev, w) \<leftarrow> send_fib_run A fw TakeABreakPt i arg sz dev w;
                            send_fib_cleanup A i saved retval dev w
                          })
                     })
                })
           })
      })"

text \<open>
  The patched file keeps a copy \<open>hd\<close> of the first header and compares it with the header of
  the second fetch. The copy is released only when the two differ. The first definition is
  the part from the second fetch on, the second the part after the copy was made.
\<close>

definition patched_fetched ::
  "aac_env \<Rightarrow> aac_fw \<Rightarrow> u16 \<Rightarrow> nat \<Rightarrow> nat \<Rightarrow> byte list \<Rightarrow> nat \<Rightarrow> nat \<Rightarrow> (nat \<times> hw_fib) option \<Rightarrow>
   aac_dev \<Rightarrow> 'z world_scheme \<Rightarrow> (int \<times> aac_dev \<times> 'z world_scheme) option" where
  "patched_fetched A fw TakeABreakPt i arg hdr hdcopy sz saved dev w = do {
     (got, dev, w) \<leftarrow> fetch_fib A i arg sz dev w;
     (case got of
        None \<Rightarrow> send_fib_cleanup A i saved (- EFAULT) dev w
      | Some bs \<Rightarrow>
          if hdr \<noteq> take (sizeof_fibhdr A) bs
          then do {
            w \<leftarrow> kfree hdcopy w;
            send_fib_cleanup A i saved (- EFAULT) dev w
          }
          else do {
            (retval, dev, w) \<leftarrow> send_fib_run A fw TakeABreakPt i arg sz dev w;
            send_fib_cleanup A i saved retval dev w
          })
   }"

definition patched_rest ::
  "aac_env \<Rightarrow> aac_fw \<Rightarrow> u16 \<Rightarrow> nat \<Rightarrow> nat \<Rightarrow> byte list \<Rightarrow> nat \<Rightarrow> aac_dev \<Rightarrow> 'z world_scheme \<Rightarrow>
   (int \<times> aac_dev \<times> 'z world_scheme) option" where
  "patched_rest A fw TakeABreakPt i arg hdr hdcopy dev w = do {
     let sz = send_fib_size A (fib_dec A hdr);
     (room, dev, w) \<leftarrow> make_room A i sz dev w;
     (case room of
        Inl err \<Rightarrow> send_fib_cleanup A i None err dev w
      | Inr saved \<Rightarrow> patched_fetched A fw TakeABreakPt i arg hdr hdcopy sz saved dev w)
   }"

definition ioctl_send_fib_patched ::
  "aac_env \<Rightarrow> aac_fw \<Rightarrow> u16 \<Rightarrow> nat \<Rightarrow> aac_dev \<Rightarrow> 'z world_scheme \<Rightarrow>
   (int \<times> aac_dev \<times> 'z world_scheme) option" where
  "ioctl_send_fib_patched A fw TakeABreakPt arg dev w =
     (if in_reset dev then Some (- EBUSY, dev, w)
      else do {
        (fibptr, dev) \<leftarrow> aac_fib_alloc A dev;
        (case fibptr of
           None \<Rightarrow> Some (- ENOMEM, dev, w)
         | Some i \<Rightarrow> do {
             (got, dev, w) \<leftarrow> fetch_fib A i arg (sizeof_fibhdr A) dev w;
             (case got of
                None \<Rightarrow> do { dev \<leftarrow> aac_fib_free A i dev; Some (- EFAULT, dev, w) }
              | Some hdr \<Rightarrow>
                  (case kmalloc (sizeof_fibhdr A) w of
                     (None, w) \<Rightarrow> send_fib_cleanup A i None (- EFAULT) dev w
                   | (Some (hdcopy, _), w) \<Rightarrow> patched_rest A fw TakeABreakPt i arg hdr hdcopy dev w))
           })
      })"

section \<open>The patched ioctl is safe\<close>

text \<open>
  The pool before a request: its free list, every fib large enough, and the two header sizes
  within a fib.
\<close>

definition pool_ok :: "aac_env \<Rightarrow> aac_dev \<Rightarrow> bool" where
  "pool_ok A dev \<longleftrightarrow> sizeof_fibhdr A \<le> max_fib_size dev \<and>
     (\<forall>i < length (dfibs dev). max_fib_size dev \<le> hw_size A (hw_fib_va (dfibs dev ! i)))"

text \<open>A fib taken from the pool: its index, the rest of the free list, and its state.\<close>

definition holds_fib :: "aac_env \<Rightarrow> nat \<Rightarrow> nat list \<Rightarrow> aac_dev \<Rightarrow> bool" where
  "holds_fib A i ys dev \<longleftrightarrow> i < length (dfibs dev) \<and> i \<notin> set ys \<and> free_list dev ys \<and>
     done_state (dfibs dev ! i) \<noteq> 2"

lemma fetch_fib_ok:
  assumes holds: "holds_fib A i ys dev" and n: "sizeof_fibhdr A \<le> n"
    and fit: "n \<le> hw_size A (hw_fib_va (dfibs dev ! i))"
  shows "ok (fetch_fib A i arg n dev w) (\<lambda>(r, dev', w'). w' = w\<lparr>utime := Suc (utime w)\<rparr> \<and>
    r = ufetch (umem w (utime w)) arg n \<and>
    (case r of None \<Rightarrow> dev' = dev
     | Some bs \<Rightarrow> holds_fib A i ys dev' \<and> dev_frame A i dev dev' \<and>
         header (hw_fib_va (dfibs dev' ! i)) = fib_dec A (take (sizeof_fibhdr A) bs)))"
proof (cases "ufetch (umem w (utime w)) arg n")
  case None
  then show ?thesis by (simp add: fetch_fib_def copy_from_user_def)
next
  case (Some bs)
  then have len: "length bs = n" by (rule length_ufetch)
  define f where "f = dfibs dev ! i"
  obtain hw where hw: "hw_store A (hw_fib_va f) bs = Some hw"
    "header hw = fib_dec A (take (sizeof_fibhdr A) bs)"
    using len n fit by (simp add: hw_store_def f_def Let_def)
  then have size: "hw_size A hw = hw_size A (hw_fib_va f)" using hw_size_store by blast
  have i: "i < length (dfibs dev)" using holds by (simp add: holds_fib_def)
  define dev' where "dev' = set_fib i (f\<lparr>hw_fib_va := hw\<rparr>) dev"
  have fr: "dev_frame A i dev dev'"
    using i size by (simp add: dev'_def set_fib_def dev_frame_def f_def)
  have "holds_fib A i ys dev'"
    using holds dev_frame_free_list [OF fr, of ys] i
    by (simp add: holds_fib_def dev'_def set_fib_def f_def)
  then show ?thesis
    using Some hw i fr
    by (simp add: fetch_fib_def copy_from_user_def get_fib_def buf_get_def f_def [symmetric] dev'_def [symmetric])
      (simp add: dev'_def set_fib_def)
qed

lemma make_room_ok:
  assumes A: "aac_env_ok A" and pool: "pool_ok A dev" and holds: "holds_fib A i ys dev"
  shows "ok (make_room A i sz dev w) (\<lambda>(r, dev', w'). holds_fib A i ys dev' \<and>
    utime w' = utime w \<and> umem w' = umem w \<and> uout w' = uout w \<and>
    max_fib_size dev' = max_fib_size dev \<and> contexts dev' = contexts dev \<and> in_reset dev' = in_reset dev \<and>
    (case r of
       Inl e \<Rightarrow> e \<noteq> 0 \<and> e \<noteq> - ERESTARTSYS \<and> dev' = dev \<and> klive w' = klive w
     | Inr None \<Rightarrow> dev' = dev \<and> w' = w \<and> sz \<le> max_fib_size dev
     | Inr (Some (k, hw)) \<Rightarrow> klive w' = k # klive w \<and> hw = hw_fib_va (dfibs dev ! i) \<and>
         hw_size A (hw_fib_va (dfibs dev' ! i)) = sz \<and> sz \<le> 2048 \<and> k = knext w \<and>
         length (dfibs dev') = length (dfibs dev) \<and> (\<forall>j. j \<noteq> i \<longrightarrow> dfibs dev' ! j = dfibs dev ! j)))"
proof (cases "sz \<le> max_fib_size dev \<or> sz > 2048 \<or> kfail w (knext w)")
  case True
  then show ?thesis
    using holds by (auto simp: make_room_def kmalloc_def Let_def)
next
  case False
  define f where "f = dfibs dev ! i"
  define mx where "mx = max_fib_size dev"
  have i: "i < length (dfibs dev)" "i \<notin> set ys" using holds by (simp_all add: holds_fib_def)
  have f: "mx \<le> hw_size A (hw_fib_va f)" "sizeof_fibhdr A \<le> mx" "mx \<le> sz"
    using pool i False by (simp_all add: pool_ok_def f_def mx_def)
  define junk where "junk = map (kjunk w (knext w)) [0..<sz]"
  define bytes where "bytes = take mx (hw_image A (hw_fib_va f)) @ replicate (sz - mx) 0"
  have lim: "length (hw_image A (hw_fib_va f)) = hw_size A (hw_fib_va f)"
    by (rule length_hw_image [OF A])
  have 1: "buf_write junk mx (replicate (sz - mx) 0) = Some (take mx junk @ replicate (sz - mx) 0)"
    "buf_read (hw_image A (hw_fib_va f)) 0 mx = Some (take mx (hw_image A (hw_fib_va f)))"
    "buf_write (take mx junk @ replicate (sz - mx) 0) 0 (take mx (hw_image A (hw_fib_va f))) = Some bytes"
    "length bytes = sz"
    using f lim by (simp_all add: buf_write_def buf_read_def junk_def bytes_def)
  define hw where "hw = \<lparr>header = fib_dec A (take (sizeof_fibhdr A) bytes), fdata = drop (sizeof_fibhdr A) bytes\<rparr>"
  define dev' where "dev' = set_fib i (f\<lparr>hw_fib_va := hw\<rparr>) dev"
  define w' where "w' = w\<lparr>knext := Suc (knext w), klive := knext w # klive w\<rparr>"
  have hw: "hw_size A hw = sz" using f 1(4) by (simp add: hw_def hw_size_def)
  have run: "make_room A i sz dev w = Some (Inr (Some (knext w, hw_fib_va f)), dev', w')"
    using False i 1
    by (simp add: make_room_def kmalloc_def get_fib_def buf_get_def f_def [symmetric] mx_def [symmetric]
        junk_def [symmetric] hw_def [symmetric] dev'_def w'_def Let_def)
  have "free_list dev' ys = free_list dev ys"
  proof -
    have "nexts dev' = nexts dev"
      using i by (simp add: nexts_set_fib dev'_def) (simp add: nexts_def f_def list_update_same_conv)
    moreover have "dfibs dev' ! j = dfibs dev ! j" if "j \<in> set ys" for j
      using that i by (simp add: dev'_def set_fib_def) (metis nth_list_update_neq)
    ultimately show ?thesis by (simp add: free_list_def) (simp add: dev'_def set_fib_def)
  qed
  then have "holds_fib A i ys dev'"
    using holds i by (simp add: holds_fib_def) (simp add: dev'_def set_fib_def f_def)
  then show ?thesis
    using False i hw by (simp add: run) (simp add: dev'_def w'_def set_fib_def f_def)
qed

lemma send_fib_size_bounds:
  "unat (Size h) + sizeof_fibhdr A \<le> send_fib_size A h" "sizeof_fibhdr A \<le> send_fib_size A h"
  by (auto simp: send_fib_size_def Let_def)

lemma holds_fib_frame:
  assumes "holds_fib A i ys dev" and "dev_frame A i dev dev'" and "done_state (dfibs dev' ! i) \<noteq> 2"
  shows "holds_fib A i ys dev'"
  using assms dev_frame_free_list [OF assms(2), of ys] by (simp add: holds_fib_def dev_frame_def)

lemma send_fib_run_ok:
  assumes A: "aac_env_ok A" and fw: "fw_ok A fw" and holds: "holds_fib A i ys dev"
    and size: "unat (Size (header (hw_fib_va (dfibs dev ! i)))) + sizeof_fibhdr A \<le> sz"
    and fit: "sz \<le> hw_size A (hw_fib_va (dfibs dev ! i))"
  shows "ok (send_fib_run A fw brk i arg sz dev w) (\<lambda>(r, dev', w'). dev_frame A i dev dev' \<and>
    (done_state (dfibs dev' ! i) = 2 \<longleftrightarrow> r = - ERESTARTSYS) \<and> klive w' = klive w \<and> knext w' = knext w \<and>
    copies_within (\<lambda>p n. p = arg \<and> n = sz) w w')"
proof -
  define f where "f = dfibs dev ! i"
  have i: "i < length (dfibs dev)" "done_state f \<noteq> 2" using holds by (simp_all add: holds_fib_def f_def)
  have g: "get_fib dev i = Some f" using i by (simp add: get_fib_def buf_get_def f_def)
  define run where "run = (if Command (header (hw_fib_va f)) = brk
        then Some (0, (set_fib i (set_xfer (\<lambda>_. 0) f) dev)\<lparr>interrupts := Suc (interrupts dev)\<rparr>)
        else do {
          (retval, dev) \<leftarrow> aac_fib_send A fw (Command (header (hw_fib_va f))) i (unat (Size (header (hw_fib_va f)))) 1 True None 0 dev;
          (if retval \<noteq> 0 then Some (retval, dev)
           else do {
             (c, dev) \<leftarrow> aac_fib_complete A i dev;
             Some (if c \<noteq> 0 then - EINVAL else 0, dev)
           })
        })"
  have send: "ok (aac_fib_send A fw (Command (header (hw_fib_va f))) i (unat (Size (header (hw_fib_va f)))) 1 True None 0 dev)
      (send_post A i dev)"
    by (rule aac_fib_send_ok [OF fw i(1)]) (use i fit size in \<open>simp_all add: f_def\<close>)
  have run_ok: "ok run (\<lambda>(r, dev'). dev_frame A i dev dev' \<and> (done_state (dfibs dev' ! i) = 2 \<longleftrightarrow> r = - ERESTARTSYS))"
  proof (cases "Command (header (hw_fib_va f)) = brk")
    case True
    then show ?thesis
      using i by (simp add: run_def dev_frame_def set_fib_def f_def)
  next
    case False
    have "ok (if r \<noteq> 0 then Some (r, d) else do { (c, dev) \<leftarrow> aac_fib_complete A i d; Some (if c \<noteq> 0 then - EINVAL else 0, dev) })
        (\<lambda>(r, dev'). dev_frame A i dev dev' \<and> (done_state (dfibs dev' ! i) = 2 \<longleftrightarrow> r = - ERESTARTSYS))"
      if post: "send_post A i dev (r, d)" for r d
    proof (cases "r = 0")
      case True
      have fr: "dev_frame A i dev d" "i < length (dfibs d)" "completes A (hw_fib_va (dfibs d ! i))"
        "done_state (dfibs d ! i) \<noteq> 2"
        using post i True by (auto simp: send_post_def dev_frame_def)
      show ?thesis
        using True aac_fib_complete_ok [OF fr(2,3)] fr
        by (auto elim!: okE dest: dev_frame_trans [OF fr(1)])
    qed (use post in \<open>simp add: send_post_def\<close>)
    then show ?thesis
      using False unfolding run_def by (auto simp: ok_bind intro!: ok_mono [OF send])
  qed
  have "ok (if r \<noteq> 0 then Some (r, d, w) else do {
        f \<leftarrow> get_fib d i;
        out \<leftarrow> buf_read (hw_image A (hw_fib_va f)) 0 sz;
        (case copy_to_user arg out w of (True, w) \<Rightarrow> Some (- EFAULT, d, w) | (False, w) \<Rightarrow> Some (0, d, w)) })
      (\<lambda>(r, dev', w'). dev_frame A i dev dev' \<and>
    (done_state (dfibs dev' ! i) = 2 \<longleftrightarrow> r = - ERESTARTSYS) \<and> klive w' = klive w \<and> knext w' = knext w \<and>
    copies_within (\<lambda>p n. p = arg \<and> n = sz) w w')"
    if "dev_frame A i dev d" "done_state (dfibs d ! i) = 2 \<longleftrightarrow> r = - ERESTARTSYS" for r d
    using that i fit length_hw_image [OF A]
    by (auto simp: get_fib_def buf_get_def dev_frame_def buf_read_def copy_to_user_def copies_within_def)
  then show ?thesis
    unfolding send_fib_run_def g bind.bind_lunit Let_def run_def [symmetric] ok_bind
    by (auto intro!: ok_mono [OF run_ok])
qed

text \<open>The device after a request: the fib is back, unless the adapter still has it.\<close>

definition gives_back :: "nat \<Rightarrow> nat list \<Rightarrow> int \<Rightarrow> aac_dev \<Rightarrow> aac_dev \<Rightarrow> bool" where
  "gives_back i ys r dev dev' \<longleftrightarrow> free_list dev' (if r = - ERESTARTSYS then ys else i # ys) \<and>
     max_fib_size dev' = max_fib_size dev \<and> contexts dev' = contexts dev \<and> in_reset dev' = in_reset dev \<and>
     length (dfibs dev') = length (dfibs dev)"

lemma send_fib_cleanup_ok:
  assumes i: "i < length (dfibs dev)" "i \<notin> set ys" and list: "free_list dev ys"
    and fin: "done_state (dfibs dev ! i) = 2 \<longleftrightarrow> r = - ERESTARTSYS"
    and live: "case saved of None \<Rightarrow> True | Some (k, hw) \<Rightarrow> k \<in> set (klive w)"
  shows "ok (send_fib_cleanup A i saved r dev w) (\<lambda>(r', dev', w'). r' = r \<and> gives_back i ys r dev dev' \<and>
    (case saved of None \<Rightarrow> w' = w
     | Some (k, hw) \<Rightarrow> w' = w\<lparr>klive := remove1 k (klive w)\<rparr> \<and> hw_fib_va (dfibs dev' ! i) = hw))"
proof -
  define dev1 where "dev1 = (case saved of None \<Rightarrow> dev
    | Some (k, hw) \<Rightarrow> set_fib i ((dfibs dev ! i)\<lparr>hw_fib_va := hw\<rparr>) dev)"
  define w1 where "w1 = (case saved of None \<Rightarrow> w | Some (k, hw) \<Rightarrow> w\<lparr>klive := remove1 k (klive w)\<rparr>)"
  have "nexts dev1 = nexts dev"
    using i by (auto simp: dev1_def nexts_def set_fib_def map_update list_update_same_conv split: option.splits)
  moreover have "dfibs dev1 ! j = dfibs dev ! j" if "j \<in> set ys" for j
    using that i by (auto simp: dev1_def set_fib_def nth_list_update split: option.splits)
  ultimately have list1: "free_list dev1 ys"
    using list by (simp add: free_list_def) (simp add: dev1_def set_fib_def split: option.splits)
  have d1: "length (dfibs dev1) = length (dfibs dev)" "max_fib_size dev1 = max_fib_size dev"
    "contexts dev1 = contexts dev" "in_reset dev1 = in_reset dev"
    "done_state (dfibs dev1 ! i) = done_state (dfibs dev ! i)"
    "\<And>k hw. saved = Some (k, hw) \<Longrightarrow> hw_fib_va (dfibs dev1 ! i) = hw"
    using i by (auto simp: dev1_def set_fib_def split: option.splits)
  have run: "send_fib_cleanup A i saved r dev w =
      do { dev \<leftarrow> (if r \<noteq> - ERESTARTSYS then aac_fib_free A i dev1 else Some dev1); Some (r, dev, w1) }"
    using live i by (cases saved) (auto simp: send_fib_cleanup_def kfree_def get_fib_def buf_get_def dev1_def w1_def)
  show ?thesis
  proof (cases "r = - ERESTARTSYS")
    case True
    then show ?thesis unfolding run using list1 d1 by (auto simp: gives_back_def w1_def split: option.splits)
  next
    case False
    have i1: "i < length (dfibs dev1)" "done_state (dfibs dev1 ! i) \<noteq> 2" using i d1 fin False by auto
    show ?thesis
      unfolding run using aac_fib_free_ok [OF list1 i(2) i1, of A] d1 False
      by (auto simp: gives_back_def w1_def split: option.splits elim!: okE)
  qed
qed

lemma gives_back_trans: "gives_back i ys r b c \<Longrightarrow> max_fib_size b = max_fib_size a \<Longrightarrow> contexts b = contexts a \<Longrightarrow>
    in_reset b = in_reset a \<Longrightarrow> length (dfibs b) = length (dfibs a) \<Longrightarrow> gives_back i ys r a c"
  by (simp add: gives_back_def)

lemma pool_ok_frame: "dev_frame A i dev dev' \<Longrightarrow> pool_ok A dev \<Longrightarrow> pool_ok A dev'"
  unfolding pool_ok_def dev_frame_def by metis

definition saved_live :: "(nat \<times> hw_fib) option \<Rightarrow> nat list \<Rightarrow> nat list" where
  "saved_live saved ks = (case saved of None \<Rightarrow> ks | Some (k, hw) \<Rightarrow> k # ks)"

lemma finish_ok:
  assumes holds: "i < length (dfibs dev)" "i \<notin> set ys" "free_list dev ys"
    and fin: "done_state (dfibs dev ! i) = 2 \<longleftrightarrow> r = - ERESTARTSYS"
    and live: "klive w = saved_live saved ks"
  shows "ok (send_fib_cleanup A i saved r dev w) (\<lambda>(r', dev', w'). r' = r \<and> gives_back i ys r dev dev' \<and>
    klive w' = ks \<and> uout w' = uout w)"
  by (rule ok_mono [OF send_fib_cleanup_ok [OF holds fin]])
    (use live in \<open>auto simp: saved_live_def split: option.splits\<close>)

text \<open>What the patched request guarantees from the copy of the header on.\<close>

definition patched_post ::
  "nat \<Rightarrow> nat list \<Rightarrow> nat \<Rightarrow> nat list \<Rightarrow> nat \<Rightarrow> aac_dev \<Rightarrow> 'z world_scheme \<Rightarrow> int \<times> aac_dev \<times> 'z world_scheme \<Rightarrow> bool" where
  "patched_post i ys hdcopy ks arg dev w = (\<lambda>(r, dev', w'). gives_back i ys r dev dev' \<and>
    (klive w' = ks \<and> r = - EFAULT \<or> klive w' = hdcopy # ks) \<and>
    copies_within (\<lambda>p n. p = arg \<and> n \<le> max (max_fib_size dev) 2048) w w')"

text \<open>Two states of the device that differ in the fib in use only.\<close>

definition same_pool :: "aac_dev \<Rightarrow> aac_dev \<Rightarrow> bool" where
  "same_pool dev dev' \<longleftrightarrow> max_fib_size dev' = max_fib_size dev \<and> contexts dev' = contexts dev \<and>
     in_reset dev' = in_reset dev \<and> length (dfibs dev') = length (dfibs dev)"

lemma same_pool_frame: "same_pool a b \<Longrightarrow> dev_frame A i b c \<Longrightarrow> same_pool a c"
  by (simp add: same_pool_def dev_frame_def)

lemma gives_back_pool: "gives_back i ys r b c \<Longrightarrow> same_pool a b \<Longrightarrow> gives_back i ys r a c"
  by (simp add: gives_back_def same_pool_def)

lemma finish_post:
  assumes holds: "i < length (dfibs dev1)" "i \<notin> set ys" "free_list dev1 ys" and same: "same_pool dev dev1"
    and fin: "done_state (dfibs dev1 ! i) = 2 \<longleftrightarrow> r = - ERESTARTSYS"
    and live: "klive w1 = saved_live saved ks' \<and> (ks' = hdcopy # ks \<or> ks' = ks \<and> r = - EFAULT)"
    and out: "copies_within (\<lambda>p n. p = arg \<and> n \<le> max (max_fib_size dev) 2048) w w1"
  shows "ok (send_fib_cleanup A i saved r dev1 w1) (patched_post i ys hdcopy ks arg dev w)"
  by (rule ok_mono [OF finish_ok [OF holds fin, of w1 saved ks']])
    (use live out gives_back_pool [OF _ same] in \<open>auto simp: patched_post_def copies_within_def\<close>)

lemma patched_fetched_ok:
  assumes A: "aac_env_ok A" and fw: "fw_ok A fw" and holds: "holds_fib A i ys dev1"
    and same: "same_pool dev dev1"
    and sz: "sz = send_fib_size A (fib_dec A hdr)" and fit: "sz \<le> hw_size A (hw_fib_va (dfibs dev1 ! i))"
    and lim: "sz \<le> max (max_fib_size dev) 2048"
    and live: "klive w1 = saved_live saved (hdcopy # ks)" and out: "uout w1 = uout w"
    and new: "\<And>k hw. saved = Some (k, hw) \<Longrightarrow> k \<noteq> hdcopy"
  shows "ok (patched_fetched A fw brk i arg hdr hdcopy sz saved dev1 w1) (patched_post i ys hdcopy ks arg dev w)"
proof -
  note szb = send_fib_size_bounds [where h = "fib_dec A hdr" and A = A, folded sz]
  define w2 where "w2 = w1\<lparr>utime := Suc (utime w1)\<rparr>"
  have w2: "klive w2 = saved_live saved (hdcopy # ks)" "uout w2 = uout w" using live out by (simp_all add: w2_def)
  show ?thesis
    unfolding patched_fetched_def ok_bind
  proof (rule ok_mono [OF fetch_fib_ok [OF holds szb(2) fit]], clarify, goal_cases)
    case (1 got dev2 w')
    show ?case
    proof (cases "ufetch (umem w1 (utime w1)) arg sz")
      case None
      with 1 show ?thesis
        by (simp add: w2_def [symmetric],
            intro finish_post [where ks' = "hdcopy # ks"])
          (use holds same w2 in \<open>simp_all add: holds_fib_def\<close>)
    next
      case (Some bs)
      then have d2: "holds_fib A i ys dev2" "dev_frame A i dev1 dev2"
        "header (hw_fib_va (dfibs dev2 ! i)) = fib_dec A (take (sizeof_fibhdr A) bs)"
        using 1 by auto
      note same2 = same_pool_frame [OF same d2(2)]
      show ?thesis
      proof (cases "hdr = take (sizeof_fibhdr A) bs")
        case False
        define w3 where "w3 = w2\<lparr>klive := remove1 hdcopy (klive w2)\<rparr>"
        have "klive w3 = saved_live saved ks" "kfree hdcopy w2 = Some w3"
          using w2 new by (auto simp: w3_def saved_live_def kfree_def split: option.splits)
        moreover have "ok (send_fib_cleanup A i saved (- EFAULT) dev2 w3) (patched_post i ys hdcopy ks arg dev w)"
          by (rule finish_post [where ks' = ks])
            (use d2 same2 w2 calculation in \<open>simp_all add: holds_fib_def w3_def\<close>)
        ultimately show ?thesis using 1 Some False by (simp add: w2_def [symmetric])
      next
        case True
        have size: "unat (Size (header (hw_fib_va (dfibs dev2 ! i)))) + sizeof_fibhdr A \<le> sz"
          and fit2: "sz \<le> hw_size A (hw_fib_va (dfibs dev2 ! i))"
          using d2 True szb(1) fit by (simp_all add: dev_frame_def)
        have "ok (do { (retval, dev, w) \<leftarrow> send_fib_run A fw brk i arg sz dev2 w2;
            send_fib_cleanup A i saved retval dev w }) (patched_post i ys hdcopy ks arg dev w)"
          unfolding ok_bind
        proof (rule ok_mono [OF send_fib_run_ok [OF A fw d2(1) size fit2]], clarify, goal_cases)
          case (1 r dev3 w3)
          then show ?case
            by (intro finish_post [where ks' = "hdcopy # ks"] same_pool_frame [OF same2])
              (use d2(1) w2 lim dev_frame_free_list [of A i dev2 dev3 ys] in
                \<open>auto simp: holds_fib_def dev_frame_def copies_within_def\<close>)
        qed
        with Some 1 True show ?thesis by (simp add: w2_def [symmetric])
      qed
    qed
  qed
qed

lemma patched_rest_ok:
  assumes A: "aac_env_ok A" and fw: "fw_ok A fw" and pool: "pool_ok A dev" and holds: "holds_fib A i ys dev"
    and live: "klive w = hdcopy # ks" and fresh: "hdcopy < knext w"
  shows "ok (patched_rest A fw brk i arg hdr hdcopy dev w) (patched_post i ys hdcopy ks arg dev w)"
proof -
  define sz where "sz = send_fib_size A (fib_dec A hdr)"
  show ?thesis
    unfolding patched_rest_def Let_def sz_def [symmetric] ok_bind
  proof (rule ok_mono [OF make_room_ok [OF A pool holds]], clarify, goal_cases)
    case (1 room dev1 w1)
    then have same: "same_pool dev dev1"
      by (auto simp: same_pool_def split: sum.splits option.splits)
    show ?case
    proof (cases room)
      case (Inl err)
      with 1 same show ?thesis
        by (simp, intro finish_post [where ks' = "hdcopy # ks"])
          (use live in \<open>auto simp: holds_fib_def saved_live_def\<close>)
    next
      case (Inr saved)
      have fit: "sz \<le> hw_size A (hw_fib_va (dfibs dev1 ! i))"
        using 1 Inr pool holds by (auto simp: pool_ok_def holds_fib_def split: option.splits)
      have lim: "sz \<le> max (max_fib_size dev) 2048"
        using 1 Inr by (auto split: option.splits)
      show ?thesis
        unfolding Inr sum.case
        by (rule patched_fetched_ok [OF A fw _ same sz_def fit lim])
          (use 1 Inr live fresh in \<open>auto simp: saved_live_def split: option.splits\<close>)
    qed
  qed
qed

lemma send_fib_patched_core:
  assumes A: "aac_env_ok A" and fw: "fw_ok A fw" and pool: "pool_ok A dev" and list: "free_list dev xs"
  shows "ok (ioctl_send_fib_patched A fw brk arg dev w) (\<lambda>(r, dev', w').
    free_list dev' (if r = - ERESTARTSYS then tl xs else xs) \<and> contexts dev' = contexts dev \<and>
    (klive w' = klive w \<and> r \<noteq> 0 \<or> klive w' = knext w # klive w) \<and>
    copies_within (\<lambda>p n. p = arg \<and> n \<le> max (max_fib_size dev) 2048) w w')"
proof (cases "in_reset dev")
  case True
  then show ?thesis using list by (simp add: ioctl_send_fib_patched_def)
next
  case False
  show ?thesis
    unfolding ioctl_send_fib_patched_def ok_bind if_not_P [OF False]
  proof (rule ok_mono [OF aac_fib_alloc_ok [OF list]], clarify, goal_cases)
    case (1 p dev1)
    show ?case
    proof (cases p)
      case None
      with 1 list show ?thesis by simp
    next
      case (Some i)
      then obtain ys where ys: "xs = i # ys" "i \<notin> set ys" "free_list dev1 ys" and d1: "i < length (dfibs dev1)"
        "length (dfibs dev1) = length (dfibs dev)" "done_state (dfibs dev1 ! i) \<noteq> 2"
        "contexts dev1 = contexts dev" "max_fib_size dev1 = max_fib_size dev"
        and szi: "hw_size A (hw_fib_va (dfibs dev1 ! i)) = hw_size A (hw_fib_va (dfibs dev ! i))"
        "\<forall>j. j \<noteq> i \<longrightarrow> dfibs dev1 ! j = dfibs dev ! j"
        using 1 by auto
      have szs: "hw_size A (hw_fib_va (dfibs dev1 ! j)) = hw_size A (hw_fib_va (dfibs dev ! j))" for j
        using szi by (cases "j = i") auto
      have holds: "holds_fib A i ys dev1" using ys d1 by (simp add: holds_fib_def)
      have pool1: "pool_ok A dev1" using pool d1 szs by (simp add: pool_ok_def)
      have n: "sizeof_fibhdr A \<le> hw_size A (hw_fib_va (dfibs dev1 ! i))" by (simp add: hw_size_def)
      show ?thesis
        unfolding Some option.case ok_bind
      proof (rule ok_mono [OF fetch_fib_ok [OF holds order.refl n]], clarify, goal_cases)
        case (1 got dev2 w')
        define w2 where "w2 = w\<lparr>utime := Suc (utime w)\<rparr>"
        show ?case
        proof (cases "ufetch (umem w (utime w)) arg (sizeof_fibhdr A)")
          case None
          with 1 show ?thesis
            using aac_fib_free_ok [OF ys(3,2) d1(1,3), of A] d1 ys(1) by (auto elim!: okE)
        next
          case (Some hdr)
          then have d2: "holds_fib A i ys dev2" "dev_frame A i dev1 dev2" and w2: "klive w2 = klive w" "knext w2 = knext w"
            "uout w2 = uout w"
            using 1 by (auto simp: w2_def)
          have pool2: "pool_ok A dev2" by (rule pool_ok_frame [OF d2(2) pool1])
          have fin: "patched_post i ys h (klive w) arg dev2 w3 x \<Longrightarrow> uout w3 = uout w \<Longrightarrow> h = knext w \<Longrightarrow>
            (case x of (r, dev', w') \<Rightarrow> free_list dev' (if r = - ERESTARTSYS then tl xs else xs) \<and>
              contexts dev' = contexts dev \<and> (klive w' = klive w \<and> r \<noteq> 0 \<or> klive w' = knext w # klive w) \<and>
              copies_within (\<lambda>p n. p = arg \<and> n \<le> max (max_fib_size dev) 2048) w w')" for x h w3
            using d1 d2(2) ys(1) by (auto simp: patched_post_def gives_back_def dev_frame_def copies_within_def)
          show ?thesis
          proof (cases "kfail w2 (knext w2)")
            case True
            define w3 where "w3 = w2\<lparr>knext := Suc (knext w2)\<rparr>"
            have "ok (send_fib_cleanup A i None (- EFAULT) dev2 w3) (patched_post i ys (knext w) (klive w) arg dev2 w2)"
              by (rule finish_post [where ks' = "klive w"])
                (use d2 w2 in \<open>simp_all add: holds_fib_def same_pool_def saved_live_def w3_def\<close>)
            then show ?thesis
              using 1 Some True w2 fin by (auto simp: kmalloc_def Let_def w3_def w2_def elim!: okE)
          next
            case False
            define w3 where "w3 = w2\<lparr>knext := Suc (knext w2), klive := knext w2 # klive w2\<rparr>"
            have "ok (patched_rest A fw brk i arg hdr (knext w2) dev2 w3)
                (patched_post i ys (knext w2) (klive w) arg dev2 w3)"
              by (rule patched_rest_ok [OF A fw pool2 d2(1)]) (simp_all add: w3_def w2)
            then show ?thesis
              using 1 Some False w2 fin [of _ w3] by (auto simp: kmalloc_def Let_def w3_def w2_def elim!: okE)
          qed
        qed
      qed
    qed
  qed
qed

lemma fetch_fib_counters:
  "fetch_fib A i arg n dev w = Some (r, dev', w') \<Longrightarrow> queues_up dev' = queues_up dev \<and>
    management_fib_count dev' = management_fib_count dev \<and> sync_mode dev' = sync_mode dev"
  by (auto simp: fetch_fib_def copy_from_user_def set_fib_def bind_eq_Some_conv split: option.splits)

lemma aac_fib_send_overrun:
  assumes i: "i < length (dfibs dev)" and own: "and (XferState h) (HostOwned A) \<noteq> 0"
    and h: "header (hw_fib_va (dfibs dev ! i)) = h"
    and up: "queues_up dev" "management_fib_count dev < AAC_NUM_MGT_FIB A" "\<not> sync_mode dev"
    and grown: "hw_size A (hw_fib_va (dfibs dev ! i)) < unat (Size h) + sizeof_fibhdr A"
      "unat (Size h) + sizeof_fibhdr A \<le> unat (SenderSize h)"
  shows "aac_fib_send A fw cmd i (unat (Size h)) 1 True cb d dev = None"
proof -
  define n where "n = sizeof_fibhdr A + unat (Size h)"
  have "n < 2 ^ 16" using grown(2) unat_u16_less [of "SenderSize h"] by (simp add: n_def)
  then have n: "unat (of_nat n :: u16) = n" by (simp add: unat_of_nat take_bit_nat_eq_self)
  have le: "\<not> SenderSize h < of_nat n" unfolding word_less_nat_alt n using grown(2) by (simp add: n_def)
  have "n > hw_size A (hw_fib_va (dfibs dev ! i))" using grown(1) by (simp add: n_def)
  then show ?thesis
    using i own h up n le
    by (simp add: aac_fib_send_def get_fib_def buf_get_def xfer_def send_header_def Let_def set_fib_def
        aac_adapter_deliver_def set_xfer_def hw_size_def n_def [symmetric] del: of_nat_add)
qed


text \<open>
  Every request the patched ioctl serves successfully costs a block of kernel memory: the
  copy of the header is still allocated when it returns 0.
\<close>

theorem aac_send_fib_patch_leaks:
  assumes "aac_env_ok A" and "fw_ok A fw" and "pool_ok A dev" and "free_list dev xs"
  shows "ok (ioctl_send_fib_patched A fw brk arg dev w) (\<lambda>(r, dev', w').
    r = 0 \<longrightarrow> klive w' = knext w # klive w)"
  by (rule ok_mono [OF send_fib_patched_core [OF assms]]) auto

text \<open>
  C12: The double fetch of the original ioctl: when user space enlarges the two sizes of the
  header between the fetches, so that they exceed the fib, the driver hands the adapter a fib
  whose size field reaches past the end of its memory.
\<close>

theorem aac_send_fib_race:
  assumes A: "aac_env_ok A" and list: "free_list dev (i # ys)" and reset: "\<not> in_reset dev"
    and up: "queues_up dev" "management_fib_count dev < AAC_NUM_MGT_FIB A" "\<not> sync_mode dev"
    and first: "ufetch (umem w (utime w)) arg (sizeof_fibhdr A) = Some hdr"
    and small: "send_fib_size A (fib_dec A hdr) \<le> max_fib_size dev"
      "send_fib_size A (fib_dec A hdr) \<le> hw_size A (hw_fib_va (dfibs dev ! i))"
    and second: "ufetch (umem w (Suc (utime w))) arg (send_fib_size A (fib_dec A hdr)) = Some bs"
    and h: "h = fib_dec A (take (sizeof_fibhdr A) bs)" "Command h \<noteq> brk" "and (XferState h) (HostOwned A) \<noteq> 0"
    and grown: "hw_size A (hw_fib_va (dfibs dev ! i)) < unat (Size h) + sizeof_fibhdr A"
      "unat (Size h) + sizeof_fibhdr A \<le> unat (SenderSize h)"
  shows "ioctl_send_fib A fw brk arg dev w = None"
proof -
  obtain dev1 where alloc: "aac_fib_alloc A dev = Some (Some i, dev1)" and d1: "i < length (dfibs dev1)"
      "hw_size A (hw_fib_va (dfibs dev1 ! i)) = hw_size A (hw_fib_va (dfibs dev ! i))"
      "max_fib_size dev1 = max_fib_size dev" and holds: "holds_fib A i ys dev1"
    and up1: "queues_up dev1" "management_fib_count dev1 < AAC_NUM_MGT_FIB A" "\<not> sync_mode dev1"
  proof -
    have a: "ok (aac_fib_alloc A dev) (\<lambda>(r, dev'). queues_up dev' = queues_up dev \<and>
        management_fib_count dev' = management_fib_count dev \<and> sync_mode dev' = sync_mode dev)"
      using list by (auto simp: aac_fib_alloc_def set_fib_def get_fib_def buf_get_def free_list_def nexts_def
          Let_def split: option.splits)
    show thesis
      using ok_conj [OF aac_fib_alloc_ok [OF list, of A] a] up that
      by (auto simp: holds_fib_def elim!: okE split: option.splits)
  qed
  define sz where "sz = send_fib_size A (fib_dec A hdr)"
  have szb: "sizeof_fibhdr A \<le> sz" by (simp add: sz_def send_fib_size_bounds)
  define w1 where "w1 = w\<lparr>utime := Suc (utime w)\<rparr>"
  have n: "sizeof_fibhdr A \<le> hw_size A (hw_fib_va (dfibs dev1 ! i))" by (simp add: hw_size_def)
  obtain dev2 where f1: "fetch_fib A i arg (sizeof_fibhdr A) dev1 w = Some (Some hdr, dev2, w1)"
    "holds_fib A i ys dev2" "dev_frame A i dev1 dev2"
    and e1: "queues_up dev2 = queues_up dev1" "management_fib_count dev2 = management_fib_count dev1"
      "sync_mode dev2 = sync_mode dev1"
    using fetch_fib_ok [OF holds order.refl n, of arg w] first fetch_fib_counters [of A i arg _ dev1 w]
    by (auto simp: w1_def elim!: okE)
  have n2: "sz \<le> hw_size A (hw_fib_va (dfibs dev2 ! i))"
    using f1(3) d1 small by (simp add: dev_frame_def sz_def)
  obtain dev3 w3 where f2: "fetch_fib A i arg sz dev2 w1 = Some (Some bs, dev3, w3)"
    "dev_frame A i dev2 dev3" "header (hw_fib_va (dfibs dev3 ! i)) = h"
    and e2: "queues_up dev3 = queues_up dev2" "management_fib_count dev3 = management_fib_count dev2"
      "sync_mode dev3 = sync_mode dev2"
    using fetch_fib_ok [OF f1(2) szb n2, of arg w1] second fetch_fib_counters [of A i arg _ dev2 w1] h(1)
    by (auto simp: w1_def sz_def elim!: okE)
  have i3: "i < length (dfibs dev3)" using f1(3) f2(2) d1 by (simp add: dev_frame_def)
  have room: "make_room A i sz dev2 w1 = Some (Inr None, dev2, w1)"
    using small f1(3) d1 by (simp add: make_room_def dev_frame_def sz_def)
  have "aac_fib_send A fw (Command h) i (unat (Size h)) 1 True None 0 dev3 = None"
    by (rule aac_fib_send_overrun [OF i3])
      (use f2 f1(3) d1 up1 e1 e2 h grown in \<open>simp_all add: dev_frame_def\<close>)
  then have "send_fib_run A fw brk i arg sz dev3 w3 = None"
    using i3 f2(3) h(2) by (simp add: send_fib_run_def get_fib_def buf_get_def Let_def)
  then show ?thesis
    using reset alloc f1(1) room f2(1) by (simp add: ioctl_send_fib_def sz_def [symmetric] Let_def)
qed

lemma aac_demo_pool: "pool_ok aac_headers aac_demo"
  by (simp add: pool_ok_def aac_headers_def aac_demo_def hw_size_def demo_fib_def nth_Cons' less_Suc_eq)

text \<open>
  User memory with a request of 8 bytes of data; from the second access on, the two sizes of
  the racing one are larger than a fib.
\<close>

definition aac_user :: "byte \<Rightarrow> byte \<Rightarrow> nat \<Rightarrow> byte option" where
  "aac_user n m i = Some (if i = 0 then 1 else if i = 4 then 7 else if i = 8 then n else if i = 10 then m else 0)"

definition aac_racing :: world where
  "aac_racing = \<lparr>umem = \<lambda>t. if t = 0 then aac_user 8 40 else aac_user 100 200, utime = 0, uout = [],
     kfail = \<lambda>_. False, kjunk = \<lambda>_ _. 0, knext = 0, klive = [], xcalls = 0\<rparr>"

lemma aac_user_fetch:
  "ufetch (aac_user n m) 0 32 = Some ([1, 0, 0, 0, 7, 0, 0, 0, n, 0, m, 0] @ replicate 20 0)"
  "ufetch (aac_user n m) 0 40 = Some ([1, 0, 0, 0, 7, 0, 0, 0, n, 0, m, 0] @ replicate 28 0)"
  by (simp_all add: ufetch_def aac_user_def upt_rec eval_nat_numeral)


lemma aac_send_fib_patch_leaks_witness:
  "ok (ioctl_send_fib_patched aac_headers aac_answering 7 0 aac_demo (aac_racing\<lparr>umem := \<lambda>_. aac_user 8 40\<rparr>))
    (\<lambda>(r, dev', w'). r = 0 \<and> klive w' = [0])"
proof -
  have "ok (ioctl_send_fib_patched aac_headers aac_answering 7 0 aac_demo (aac_racing\<lparr>umem := \<lambda>_. aac_user 8 40\<rparr>))
    (\<lambda>(r, dev', w'). r = 0)"
    by code_simp
  from ok_conj [OF this aac_send_fib_patch_leaks [OF aac_headers_ok aac_answering_ok aac_demo_pool aac_demo_free]]
  show ?thesis by (rule ok_mono) (auto simp: aac_racing_def)
qed

lemma aac_send_fib_race_witness:
  "ioctl_send_fib aac_headers aac_answering 0 0 aac_demo aac_racing = None"
proof -
  define hdr :: "byte list" where "hdr = [1, 0, 0, 0, 7, 0, 0, 0, 8, 0, 40, 0] @ replicate 20 0"
  define bs :: "byte list" where "bs = [1, 0, 0, 0, 7, 0, 0, 0, 100, 0, 200, 0] @ replicate 28 0"
  have sz: "send_fib_size aac_headers (fib_dec aac_headers hdr) = 40"
    by (simp add: send_fib_size_def aac_headers_def aac_hdr_dec_def hdr_def le16_at_def Let_def)
  have h: "XferState (aac_hdr_dec (take 32 bs)) = 1" "Command (aac_hdr_dec (take 32 bs)) = 7"
    "Size (aac_hdr_dec (take 32 bs)) = 100" "SenderSize (aac_hdr_dec (take 32 bs)) = 200"
    by (simp_all add: aac_hdr_dec_def bs_def le16_at_def le32_at_def)
  show ?thesis
    by (rule aac_send_fib_race [OF aac_headers_ok aac_demo_free, where hdr = hdr and bs = bs
          and h = "aac_hdr_dec (take 32 bs)"], unfold sz)
      (simp_all add: h, simp_all add: aac_demo_def aac_racing_def aac_headers_def demo_fib_def hw_size_def
        aac_user_fetch hdr_def bs_def)
qed

end
