(* ===== verification/AacEvents.thy ===== *)
theory AacEvents
  imports Aac
begin

text \<open>
  Adapter events: the listeners that user programs open on the RAID driver, how they fetch
  the events from their queue, and how the driver queues one for every listener.
  The listeners' side is in \<open>commctrl.c\<close>, the posting side in \<open>commsup.c\<close>.
\<close>

section \<open>Data\<close>

text \<open>
  What the code takes from \<open>aacraid.h\<close> and the module parameters. A listener is identified
  to user space by the low half of its address, \<open>low32\<close>.
\<close>

record aif_env =
  sizeof_fib_context :: nat
  FSAFS_NTC_GET_ADAPTER_FIB_CONTEXT :: nat
  sizeof_fib_ioctl :: nat
  ioc_fibctx :: "byte list \<Rightarrow> u32"
  ioc_wait :: "byte list \<Rightarrow> bool"
  ioc_fib :: "byte list \<Rightarrow> nat"
  AifCmdEventNotify :: u32
  AifEnExpEvent :: u32
  AifExeFirmwarePanic :: u32
  AifHighPriority :: u32
  aifcmd_enc :: "u32 \<Rightarrow> u32 \<Rightarrow> u32 list \<Rightarrow> byte list"
  aif_timeout :: u64
  aac_check_reset :: int
  low32 :: "nat \<Rightarrow> u32"

text \<open>An event of four words fits into a fib behind its header.\<close>

definition aif_env_ok :: "aac_env \<Rightarrow> aif_env \<Rightarrow> bool" where
  "aif_env_ok A E \<longleftrightarrow> (\<forall>c s d. length d = 4 \<longrightarrow> sizeof_fibhdr A + length (aifcmd_enc E c s d) \<le> sizeof_hw_fib A)"

section \<open>The list of listeners\<close>

definition find_ctx :: "nat \<Rightarrow> aac_dev \<Rightarrow> aac_fib_context option" where
  "find_ctx c dev = find (\<lambda>x. cid x = c) (contexts dev)"

definition upd_ctx :: "nat \<Rightarrow> (aac_fib_context \<Rightarrow> aac_fib_context) \<Rightarrow> aac_dev \<Rightarrow> aac_dev" where
  "upd_ctx c g dev = dev\<lparr>contexts := map (\<lambda>x. if cid x = c then g x else x) (contexts dev)\<rparr>"

definition stamp :: "u64 \<Rightarrow> nat \<Rightarrow> aac_dev \<Rightarrow> aac_dev" where
  "stamp now c dev = upd_ctx c (\<lambda>x. x\<lparr>cjiffies := ucast now\<rparr>) dev"

section \<open>Opening\<close>

text \<open>
  The search for an unused identifier starts over whenever one is taken; it may run forever,
  which is \<open>None\<close>.
\<close>

partial_function (option) unique_loop :: "u32 list \<Rightarrow> u32 list \<Rightarrow> u32 \<Rightarrow> u32 option" where
  "unique_loop all rest u =
     (case rest of
        [] \<Rightarrow> Some u
      | x # xs \<Rightarrow> if x = u then unique_loop all all (u + 1) else unique_loop all xs u)"

definition open_getadapter_fib ::
  "aif_env \<Rightarrow> u64 \<Rightarrow> nat \<Rightarrow> aac_dev \<Rightarrow> 'z world_scheme \<Rightarrow> (int \<times> aac_dev \<times> 'z world_scheme) option" where
  "open_getadapter_fib E now arg dev w =
     (case kmalloc (sizeof_fib_context E) w of
        (None, w) \<Rightarrow> Some (- ENOMEM, dev, w)
      | (Some (k, _), w) \<Rightarrow> do {
          u \<leftarrow> unique_loop (map unique (contexts dev)) (map unique (contexts dev)) (low32 E k);
          let fibctx = \<lparr>cid = k, ctype = FSAFS_NTC_GET_ADAPTER_FIB_CONTEXT E, csize = sizeof_fib_context E,
            unique = u, cjiffies = ucast now, ccount = 0, wait_sem = 0, cfibs = []\<rparr>;
          let dev = dev\<lparr>contexts := contexts dev @ [fibctx]\<rparr>;
          (case copy_to_user arg (le32_bytes u) w of
             (True, w) \<Rightarrow> Some (- EFAULT, dev, w)
           | (False, w) \<Rightarrow> Some (0, dev, w))
        })"

section \<open>Closing\<close>

primrec free_fibs :: "(nat \<times> nat \<times> byte list) list \<Rightarrow> 'z world_scheme \<Rightarrow> 'z world_scheme option" where
  "free_fibs [] w = Some w"
| "free_fibs (f # fs) w = do {
     w \<leftarrow> kfree (fst (snd f)) w;
     w \<leftarrow> kfree (fst f) w;
     free_fibs fs w
   }"

definition aac_close_fib_context ::
  "nat \<Rightarrow> aac_dev \<Rightarrow> 'z world_scheme \<Rightarrow> (int \<times> aac_dev \<times> 'z world_scheme) option" where
  "aac_close_fib_context c dev w = do {
     x \<leftarrow> find_ctx c dev;
     w \<leftarrow> free_fibs (cfibs x) w;
     let dev = dev\<lparr>contexts := filter (\<lambda>y. cid y \<noteq> c) (contexts dev)\<rparr>;
     w \<leftarrow> kfree c w;
     Some (0, dev, w)
   }"

text \<open>The fields the code checks before it trusts a listener it found.\<close>

definition ctx_sound :: "aif_env \<Rightarrow> aac_fib_context \<Rightarrow> bool" where
  "ctx_sound E x \<longleftrightarrow> ctype x = FSAFS_NTC_GET_ADAPTER_FIB_CONTEXT E \<and> csize x = sizeof_fib_context E"

definition close_getadapter_fib ::
  "aif_env \<Rightarrow> nat \<Rightarrow> aac_dev \<Rightarrow> 'z world_scheme \<Rightarrow> (int \<times> aac_dev \<times> 'z world_scheme) option" where
  "close_getadapter_fib E arg dev w =
     (case find (\<lambda>x. unique x = of_nat arg) (contexts dev) of
        None \<Rightarrow> Some (0, dev, w)
      | Some x \<Rightarrow>
          if \<not> ctx_sound E x then Some (- EINVAL, dev, w)
          else aac_close_fib_context (cid x) dev w)"

section \<open>Fetching an event\<close>

text \<open>
  A task that waits for an event sleeps without the lock: what happens in the meantime is
  given as a list of events, each another task's run on the driver or a signal. The wait ends
  with the semaphore taken, with a signal, or not at all; waking up on a listener that
  another task has freed is a fault.
\<close>

datatype 'w sleep = Signal | Runs "aac_dev \<Rightarrow> 'w \<Rightarrow> (aac_dev \<times> 'w) option"

datatype slept = Down | Signalled | Asleep

fun down_interruptible ::
  "nat \<Rightarrow> 'z world_scheme sleep list \<Rightarrow> aac_dev \<Rightarrow> 'z world_scheme \<Rightarrow>
   (slept \<times> 'z world_scheme sleep list \<times> aac_dev \<times> 'z world_scheme) option" where
  "down_interruptible c evs dev w = do {
     x \<leftarrow> find_ctx c dev;
     (if wait_sem x > 0
      then Some (Down, evs, upd_ctx c (\<lambda>x. x\<lparr>wait_sem := wait_sem x - 1\<rparr>) dev, w)
      else (case evs of
          [] \<Rightarrow> Some (Asleep, [], dev, w)
        | Signal # evs \<Rightarrow> Some (Signalled, evs, dev, w)
        | Runs g # evs \<Rightarrow> do {
            (dev, w) \<leftarrow> g dev w;
            down_interruptible c evs dev w
          }))
   }"

definition restart_thread :: "aac_dev \<Rightarrow> aac_dev" where
  "restart_thread dev =
     (if \<not> aif_thread dev \<and> \<not> in_reset dev \<and> queues_up dev \<and> has_fsa_dev dev
      then dev\<lparr>aif_thread := False, thread_restarts := Suc (thread_restarts dev)\<rparr> else dev)"

text \<open>Handing the oldest event to user space and freeing the driver's copy.\<close>

definition return_fib ::
  "u64 \<Rightarrow> nat \<Rightarrow> nat \<Rightarrow> (nat \<times> nat \<times> byte list) \<Rightarrow> aac_dev \<Rightarrow> 'z world_scheme \<Rightarrow>
   (int \<times> aac_dev \<times> 'z world_scheme) option" where
  "return_fib now c ubuf fib dev w =
     (let dev = upd_ctx c (\<lambda>x. x\<lparr>cfibs := tl (cfibs x), ccount := ccount x - 1\<rparr>) dev;
          (bad, w) = copy_to_user ubuf (snd (snd fib)) w in do {
        w \<leftarrow> kfree (fst (snd fib)) w;
        w \<leftarrow> kfree (fst fib) w;
        (if bad then Some (- EFAULT, dev, w) else Some (0, stamp now c dev, w))
      })"

declare down_interruptible.simps [simp del]

lemma find_map_same:
  "(\<And>x. P (f x) = P x) \<Longrightarrow> find P (map f xs) = map_option f (find P xs)"
  by (induction xs) auto

lemma find_upd_ctx [simp]:
  "(\<And>x. cid (g x) = cid x) \<Longrightarrow>
   find_ctx c (upd_ctx d g dev) = map_option (\<lambda>x. if cid x = d then g x else x) (find_ctx c dev)"
  unfolding find_ctx_def upd_ctx_def by (simp add: find_map_same)

lemma find_ctx_cid: "find_ctx c dev = Some x \<Longrightarrow> cid x = c"
  unfolding find_ctx_def by (auto simp: find_Some_iff)

lemma find_restart [simp]: "find_ctx c (restart_thread dev) = find_ctx c dev"
  by (simp add: find_ctx_def restart_thread_def)

definition sem_of :: "nat \<Rightarrow> aac_dev \<Rightarrow> nat" where
  "sem_of c dev = (case find_ctx c dev of None \<Rightarrow> 0 | Some x \<Rightarrow> wait_sem x)"

lemma sem_of_Some: "find_ctx c dev = Some x \<Longrightarrow> sem_of c dev = wait_sem x"
  and sem_of_restart: "sem_of c (restart_thread dev) = sem_of c dev"
  by (simp_all add: sem_of_def)

text \<open>Taking the semaphore used it up or one of the events.\<close>

lemma down_decreases:
  "down_interruptible c evs dev w = Some (Down, evs', dev', w') \<Longrightarrow>
   (length evs', sem_of c dev') \<in> {(a, b). a < length evs \<or> a = length evs \<and> b < sem_of c dev}"
proof (induction evs arbitrary: dev w)
  case Nil
  then show ?case
    by (subst (asm) down_interruptible.simps)
      (auto simp: bind_eq_Some_conv sem_of_def dest: find_ctx_cid split: if_splits)
next
  case (Cons e evs)
  then show ?case
    by (subst (asm) (2) down_interruptible.simps)
      (fastforce simp: bind_eq_Some_conv sem_of_def dest: find_ctx_cid split: if_splits sleep.splits)
qed

function next_loop ::
  "u64 \<Rightarrow> nat \<Rightarrow> bool \<Rightarrow> nat \<Rightarrow> 'z world_scheme sleep list \<Rightarrow> aac_dev \<Rightarrow> 'z world_scheme \<Rightarrow>
   (int option \<times> aac_dev \<times> 'z world_scheme) option" where
  "next_loop now c wait ubuf evs dev w = do {
     x \<leftarrow> find_ctx c dev;
     (case cfibs x of
        fib # _ \<Rightarrow> do {
          (status, dev, w) \<leftarrow> return_fib now c ubuf fib dev w;
          Some (Some status, dev, w)
        }
      | [] \<Rightarrow>
          let dev = restart_thread dev in
          if \<not> wait then Some (Some (- EAGAIN), stamp now c dev, w)
          else do {
            (s, evs, dev, w) \<leftarrow> down_interruptible c evs dev w;
            (case s of
               Down \<Rightarrow> next_loop now c wait ubuf evs dev w
             | Signalled \<Rightarrow> Some (Some (- ERESTARTSYS), stamp now c dev, w)
             | Asleep \<Rightarrow> Some (None, dev, w))
          })
   }"
  by pat_completeness auto
termination
  by (relation "inv_image (less_than <*lex*> less_than) (\<lambda>(now, c, wait, ubuf, evs, dev, w). (length evs, sem_of c dev))")
    (auto dest!: down_decreases simp: sem_of_Some sem_of_restart)

definition next_getadapter_fib ::
  "aif_env \<Rightarrow> u64 \<Rightarrow> nat \<Rightarrow> 'z world_scheme sleep list \<Rightarrow> aac_dev \<Rightarrow> 'z world_scheme \<Rightarrow>
   (int option \<times> aac_dev \<times> 'z world_scheme) option" where
  "next_getadapter_fib E now arg evs dev w =
     (case copy_from_user arg (sizeof_fib_ioctl E) w of
        (None, w) \<Rightarrow> Some (Some (- EFAULT), dev, w)
      | (Some f, w) \<Rightarrow>
          (case find (\<lambda>x. unique x = ioc_fibctx E f) (contexts dev) of
             None \<Rightarrow> Some (Some (- EINVAL), dev, w)
           | Some x \<Rightarrow>
               if \<not> ctx_sound E x then Some (Some (- EINVAL), dev, w)
               else next_loop now (cid x) (ioc_wait E f) (ioc_fib E f) evs dev w))"

section \<open>Posting an event\<close>

text \<open>The event a sick adapter causes: its code is \<open>blink\<close>.\<close>

definition panic_event :: "aac_env \<Rightarrow> aif_env \<Rightarrow> int \<Rightarrow> aac_dev \<Rightarrow> byte list \<Rightarrow> byte list option" where
  "panic_event A E blink dev hw_fib = do {
     hw_fib \<leftarrow> buf_write hw_fib 0 (fib_enc A (fresh_header A 0 dev));
     buf_write hw_fib (sizeof_fibhdr A)
       (aifcmd_enc E (AifCmdEventNotify E) 0xFFFFFFFF
         [AifEnExpEvent E, AifExeFirmwarePanic E, AifHighPriority E, of_int blink])
   }"

definition post_event ::
  "aac_env \<Rightarrow> aif_env \<Rightarrow> int \<Rightarrow> nat \<Rightarrow> aac_dev \<Rightarrow> 'z world_scheme \<Rightarrow> (aac_dev \<times> 'z world_scheme) option" where
  "post_event A E blink c dev w =
     (let (hw_fib, w) = kzalloc (sizeof_hw_fib A) w;
          (fib, w) = kzalloc (sizeof_fib A) w in
      (case (fib, hw_fib) of
         (Some (k, _), Some (h, zeros)) \<Rightarrow> do {
           bs \<leftarrow> panic_event A E blink dev zeros;
           Some (upd_ctx c (\<lambda>x. x\<lparr>cfibs := cfibs x @ [(k, h, bs)], ccount := ccount x + 1,
             wait_sem := Suc (wait_sem x)\<rparr>) dev, w)
         }
       | (Some (k, _), None) \<Rightarrow> do { w \<leftarrow> kfree k w; Some (dev, w) }
       | (None, Some (h, _)) \<Rightarrow> do { w \<leftarrow> kfree h w; Some (dev, w) }
       | (None, None) \<Rightarrow> Some (dev, w)))"

text \<open>
  One event for every listener on the list; a listener with a backlog of more than 20 events
  that has not fetched one for the time-out is closed instead.
\<close>

primrec fan_out ::
  "aac_env \<Rightarrow> aif_env \<Rightarrow> u64 \<Rightarrow> int \<Rightarrow> nat list \<Rightarrow> aac_dev \<Rightarrow> 'z world_scheme \<Rightarrow>
   (aac_dev \<times> 'z world_scheme) option" where
  "fan_out A E time_now blink [] dev w = Some (dev, w)"
| "fan_out A E time_now blink (c # cs) dev w = do {
     x \<leftarrow> find_ctx c dev;
     (dev, w) \<leftarrow>
       (if ccount x > 20 \<and> time_now - ucast (cjiffies x) > aif_timeout E
        then do { (_, dev, w) \<leftarrow> aac_close_fib_context c dev w; Some (dev, w) }
        else post_event A E blink c dev w);
     fan_out A E time_now blink cs dev w
   }"

text \<open>
  The periodic check. \<open>busy\<close> is a failed attempt at the lock, \<open>blink\<close> the adapter's code,
  \<open>ignores_reset\<close> its option; \<open>reset\<close> is \<open>_aac_reset_adapter\<close>, with its argument \<open>forced\<close>.
\<close>

definition aac_check_health ::
  "aac_env \<Rightarrow> aif_env \<Rightarrow> u64 \<Rightarrow> bool \<Rightarrow> int \<Rightarrow> bool \<Rightarrow> (bool \<Rightarrow> aac_dev \<Rightarrow> int \<times> aac_dev) \<Rightarrow>
   aac_dev \<Rightarrow> 'z world_scheme \<Rightarrow> (int \<times> aac_dev \<times> 'z world_scheme) option" where
  "aac_check_health A E time_now busy blink ignores_reset reset dev w =
     (if busy \<or> in_reset dev \<or> blink = 0 then Some (0, dev, w)
      else do {
        let dev = dev\<lparr>in_reset := True\<rparr>;
        (dev, w) \<leftarrow> fan_out A E time_now blink (map cid (contexts dev)) dev w;
        (if blink < 0 \<or> aac_check_reset E = 0 \<or> aac_check_reset E = 1 \<and> ignores_reset
         then Some (blink, dev\<lparr>in_reset := False\<rparr>, w)
         else
           let (r, dev) = reset (aac_check_reset E \<noteq> 1) dev in Some (r, dev, w))
      })"

declare next_loop.simps [simp del]

section \<open>The identifiers are unique\<close>

declare unique_loop.simps [code]

lemma unique_loop_step:
  "unique_loop all rest u = (if u \<in> set rest then unique_loop all all (u + 1) else Some u)"
proof (induction rest)
  case Nil
  show ?case by (subst unique_loop.simps) simp
next
  case (Cons x xs)
  then show ?case by (subst unique_loop.simps) auto
qed

lemma unique_loop_finds:
  "u + of_nat n \<notin> set all \<Longrightarrow> \<exists>v. unique_loop all all u = Some v \<and> v \<notin> set all"
proof (induction n arbitrary: u)
  case 0
  then show ?case by (subst unique_loop_step) simp
next
  case (Suc n)
  then have "(u + 1) + of_nat n \<notin> set all" by (simp add: algebra_simps)
  from Suc.IH [OF this] show ?case
    by (subst unique_loop_step) auto
qed

lemma unique_loop_ok:
  assumes "length all < 2 ^ 32"
  shows "ok (unique_loop all all u) (\<lambda>v. v \<notin> set all)"
proof -
  have "card (set all) < card (UNIV :: u32 set)"
    using assms card_length [of all] by (simp add: card_word)
  then have "set all \<noteq> UNIV" by auto
  then obtain v where v: "v \<notin> set all" by auto
  have "u + of_nat (unat (v - u)) = v" by simp
  with v have "u + of_nat (unat (v - u)) \<notin> set all" by simp
  from unique_loop_finds [OF this] show ?thesis by auto
qed

section \<open>The objects of the listeners\<close>

text \<open>
  The invariant: the live kernel objects are exactly those of the rest of the kernel
  (\<open>base\<close>), the listeners, and the two objects of every queued event; no object is used
  twice; every listener's counter is the length of its queue; identifiers are unique.
\<close>

definition fib_objs :: "(nat \<times> nat \<times> byte list) list \<Rightarrow> nat list" where
  "fib_objs fs = concat (map (\<lambda>f. [fst (snd f), fst f]) fs)"

definition aif_objs :: "aac_fib_context list \<Rightarrow> nat list" where
  "aif_objs xs = concat (map (\<lambda>x. cid x # fib_objs (cfibs x)) xs)"

definition aif_inv :: "aif_env \<Rightarrow> nat list \<Rightarrow> aac_dev \<Rightarrow> 'z world_scheme \<Rightarrow> bool" where
  "aif_inv E base dev w \<longleftrightarrow>
     mset (klive w) = mset (base @ aif_objs (contexts dev)) \<and> distinct (base @ aif_objs (contexts dev)) \<and>
     (\<forall>k \<in> set (klive w). k < knext w) \<and> distinct (map unique (contexts dev)) \<and>
     (\<forall>x \<in> set (contexts dev). ctx_sound E x \<and> ccount x = int (length (cfibs x)))"

lemma fib_objs_simps [simp]:
  "fib_objs [] = []" "fib_objs (f # fs) = fst (snd f) # fst f # fib_objs fs"
  "fib_objs (fs @ gs) = fib_objs fs @ fib_objs gs"
  by (simp_all add: fib_objs_def)

lemma aif_objs_simps [simp]:
  "aif_objs [] = []" "aif_objs (x # xs) = cid x # fib_objs (cfibs x) @ aif_objs xs"
  "aif_objs (xs @ ys) = aif_objs xs @ aif_objs ys"
  by (simp_all add: aif_objs_def)

lemma cid_in_objs: "x \<in> set xs \<Longrightarrow> cid x \<in> set (aif_objs xs)"
  by (auto simp: aif_objs_def)

lemma aif_inv_live: "aif_inv E base dev w \<Longrightarrow> set (klive w) = set base \<union> set (aif_objs (contexts dev))"
  unfolding aif_inv_def by (metis set_append set_mset_mset)

text \<open>A listener that was found splits the list; the operations on it act on its place.\<close>

lemma split_ctx:
  assumes inv: "aif_inv E base dev w" and found: "find_ctx c dev = Some x"
  obtains ys zs where "contexts dev = ys @ x # zs" and "cid x = c"
    and "\<And>g. contexts (upd_ctx c g dev) = ys @ g x # zs"
    and "filter (\<lambda>y. cid y \<noteq> c) (contexts dev) = ys @ zs"
proof -
  have c: "cid x = c" by (rule find_ctx_cid [OF found])
  have "x \<in> set (contexts dev)" using found unfolding find_ctx_def by (auto simp: find_Some_iff)
  then obtain ys zs where split: "contexts dev = ys @ x # zs" by (auto simp: in_set_conv_decomp)
  have "distinct (aif_objs (ys @ x # zs))" using inv split by (simp add: aif_inv_def)
  then have "c \<notin> set (aif_objs ys)" "c \<notin> set (aif_objs zs)" using c by auto
  then have "\<forall>y \<in> set ys \<union> set zs. cid y \<noteq> c" using cid_in_objs by fastforce
  then have "map (\<lambda>y. if cid y = c then g y else y) ys = ys" "map (\<lambda>y. if cid y = c then g y else y) zs = zs" for g
    by (auto intro!: map_idI)
  moreover have "filter (\<lambda>y. cid y \<noteq> c) ys = ys" "filter (\<lambda>y. cid y \<noteq> c) zs = zs"
    using \<open>\<forall>y \<in> set ys \<union> set zs. cid y \<noteq> c\<close> by (auto intro!: filter_True)
  ultimately show thesis
    using split c by (intro that [of ys zs]) (simp_all add: upd_ctx_def)
qed

lemma free_fibs_ok:
  "mset (klive w) = M + mset (fib_objs fs) \<Longrightarrow>
   ok (free_fibs fs w) (\<lambda>w'. mset (klive w') = M \<and> w' = w\<lparr>klive := klive w'\<rparr>)"
proof (induction fs arbitrary: w)
  case Nil
  then show ?case by simp
next
  case (Cons f fs)
  have 1: "mset (klive w) = (M + mset (fib_objs fs) + {#fst f#}) + {#fst (snd f)#}" using Cons.prems by simp
  obtain w1 where w1: "kfree (fst (snd f)) w = Some w1" "w1 = w\<lparr>klive := klive w1\<rparr>"
    and 2: "mset (klive w1) = (M + mset (fib_objs fs)) + {#fst f#}"
    using kfree_mset [OF 1] by (auto elim: okE)
  obtain w2 where w2: "kfree (fst f) w1 = Some w2" "w2 = w1\<lparr>klive := klive w2\<rparr>"
    and 3: "mset (klive w2) = M + mset (fib_objs fs)"
    using kfree_mset [OF 2] by (auto elim: okE)
  have "w\<lparr>klive := k\<rparr> = w2\<lparr>klive := k\<rparr>" for k
    by (subst w2(2), subst w1(2)) simp
  then show ?case using Cons.IH [OF 3] w1(1) w2(1) by simp
qed

section \<open>Every operation keeps the invariant\<close>

lemma aif_inv_world: "klive w' = klive w \<Longrightarrow> knext w' = knext w \<Longrightarrow> aif_inv E base dev w' = aif_inv E base dev w"
  by (simp add: aif_inv_def)

lemma aif_inv_knext: "klive w' = klive w \<Longrightarrow> knext w \<le> knext w' \<Longrightarrow> aif_inv E base dev w \<Longrightarrow> aif_inv E base dev w'"
  by (fastforce simp: aif_inv_def)

lemma aif_inv_contexts: "contexts dev' = contexts dev \<Longrightarrow> aif_inv E base dev' w = aif_inv E base dev w"
  by (simp add: aif_inv_def)

lemma distinct_cids: "distinct (aif_objs xs) \<Longrightarrow> distinct (map cid xs)"
  by (induction xs) (auto dest: cid_in_objs)

lemma aif_inv_cids: "aif_inv E base dev w \<Longrightarrow> distinct (map cid (contexts dev))"
  by (simp add: aif_inv_def distinct_cids)

lemma aif_inv_upd_same:
  assumes g: "\<And>x. cid (g x) = cid x \<and> cfibs (g x) = cfibs x \<and> unique (g x) = unique x \<and>
    ctype (g x) = ctype x \<and> csize (g x) = csize x \<and> ccount (g x) = ccount x"
  shows "aif_inv E base (upd_ctx c g dev) w = aif_inv E base dev w"
proof -
  define f where "f x = (if cid x = c then g x else x)" for x
  have f: "cid (f x) = cid x" "cfibs (f x) = cfibs x" "unique (f x) = unique x" "ctx_sound E (f x) = ctx_sound E x"
    "ccount (f x) = ccount x" for x
    by (simp_all add: f_def g ctx_sound_def)
  have "aif_objs (map f xs) = aif_objs xs" "map unique (map f xs) = map unique xs" for xs
    by (induction xs) (simp_all add: f)
  moreover have "contexts (upd_ctx c g dev) = map f (contexts dev)" by (simp add: upd_ctx_def f_def)
  ultimately show ?thesis by (simp only: aif_inv_def) (simp add: f)
qed

lemma aif_inv_stamp [simp]: "aif_inv E base (stamp now c dev) w = aif_inv E base dev w"
  unfolding stamp_def by (rule aif_inv_upd_same) simp

lemma aif_inv_sem [simp]:
  "aif_inv E base (upd_ctx c (\<lambda>x. x\<lparr>wait_sem := wait_sem x - Suc 0\<rparr>) dev) w = aif_inv E base dev w"
  by (rule aif_inv_upd_same) simp

lemma aif_inv_restart [simp]: "aif_inv E base (restart_thread dev) w = aif_inv E base dev w"
  by (rule aif_inv_contexts) (simp add: restart_thread_def)

lemma contexts_upd: "length (contexts (upd_ctx c g dev)) = length (contexts dev)"
  "(\<And>x. cid (g x) = cid x) \<Longrightarrow> map cid (contexts (upd_ctx c g dev)) = map cid (contexts dev)"
  by (simp_all add: upd_ctx_def comp_def)

lemma open_getadapter_fib_ok:
  assumes inv: "aif_inv E base dev w" and few: "length (contexts dev) < 2 ^ 32"
  shows "ok (open_getadapter_fib E now arg dev w) (\<lambda>(r, dev', w'). aif_inv E base dev' w' \<and>
    (if r = - ENOMEM then dev' = dev
     else \<exists>x. contexts dev' = contexts dev @ [x] \<and> unique x \<notin> unique ` set (contexts dev) \<and> cfibs x = [] \<and>
       (r = 0 \<and> uout w' = (arg, le32_bytes (unique x)) # uout w \<or> r = - EFAULT \<and> uout w' = uout w)))"
proof (cases "kfail w (knext w)")
  case True
  then show ?thesis using inv
    by (auto simp: open_getadapter_fib_def kmalloc_def Let_def intro: aif_inv_knext)
next
  case False
  obtain u where u: "unique_loop (map unique (contexts dev)) (map unique (contexts dev)) (low32 E (knext w)) = Some u"
    "u \<notin> unique ` set (contexts dev)"
    using unique_loop_ok [of "map unique (contexts dev)" "low32 E (knext w)"] few by (auto elim: okE)
  have fresh: "knext w \<notin> set base" "knext w \<notin> set (aif_objs (contexts dev))"
    using inv aif_inv_live [OF inv] by (auto simp: aif_inv_def)
  have "\<forall>k \<in> set base \<union> set (aif_objs (contexts dev)). k < knext w"
    using inv aif_inv_live [OF inv] by (auto simp: aif_inv_def)
  then have less: "k \<in> set base \<Longrightarrow> k < Suc (knext w)" "k \<in> set (aif_objs (contexts dev)) \<Longrightarrow> k < Suc (knext w)" for k
    by (simp_all add: less_SucI)
  show ?thesis
    using False u fresh inv aif_inv_live [OF inv] less
    by (auto simp: open_getadapter_fib_def kmalloc_def Let_def copy_to_user_def aif_inv_def ctx_sound_def)
qed

lemma aac_close_fib_context_ok:
  assumes inv: "aif_inv E base dev w" and x: "find_ctx c dev = Some x"
  shows "ok (aac_close_fib_context c dev w) (\<lambda>(r, dev', w'). r = 0 \<and> aif_inv E base dev' w' \<and> uout w' = uout w \<and>
    contexts dev' = filter (\<lambda>y. cid y \<noteq> c) (contexts dev))"
proof -
  obtain ys zs where split: "contexts dev = ys @ x # zs" "cid x = c" "filter (\<lambda>y. cid y \<noteq> c) (contexts dev) = ys @ zs"
    using split_ctx [OF inv x] by metis
  define M where "M = mset (base @ aif_objs (ys @ zs))"
  have 1: "mset (klive w) = (M + {#c#}) + mset (fib_objs (cfibs x))"
    using inv split by (simp add: aif_inv_def M_def)
  obtain w1 where w1: "free_fibs (cfibs x) w = Some w1" "w1 = w\<lparr>klive := klive w1\<rparr>"
    and 2: "mset (klive w1) = M + {#c#}"
    using free_fibs_ok [OF 1] by (auto elim: okE)
  obtain w2 where w2: "kfree c w1 = Some w2" "w2 = w1\<lparr>klive := klive w2\<rparr>" and 3: "mset (klive w2) = M"
    using kfree_mset [OF 2] by (auto elim: okE)
  have same: "knext w2 = knext w" "uout w2 = uout w"
    by (subst w2(2), subst w1(2), simp)+
  have "set (klive w2) \<subseteq> set (klive w)"
    using 3 1 by (metis set_mset_mset mset_subset_eq_add_left subset_mset.trans set_mset_mono)
  then have "aif_inv E base (dev\<lparr>contexts := ys @ zs\<rparr>) w2"
    using inv split 3 by (auto simp: aif_inv_def M_def same)
  then show ?thesis using x w1(1) w2(1) same split by (simp add: aac_close_fib_context_def)
qed

lemma close_getadapter_fib_ok:
  assumes inv: "aif_inv E base dev w"
  shows "ok (close_getadapter_fib E arg dev w) (\<lambda>(r, dev', w'). r = 0 \<and> aif_inv E base dev' w' \<and> uout w' = uout w \<and>
    contexts dev' = filter (\<lambda>y. unique y \<noteq> of_nat arg) (contexts dev))"
proof (cases "find (\<lambda>x. unique x = of_nat arg) (contexts dev)")
  case None
  then have "\<forall>x \<in> set (contexts dev). unique x \<noteq> of_nat arg" by (auto simp: find_None_iff)
  then have "filter (\<lambda>y. unique y \<noteq> of_nat arg) (contexts dev) = contexts dev" by (simp add: filter_id_conv)
  then show ?thesis using None inv by (simp add: close_getadapter_fib_def)
next
  case (Some x)
  then have x: "x \<in> set (contexts dev)" "unique x = of_nat arg" by (auto simp: find_Some_iff)
  have inj: "inj_on cid (set (contexts dev))" "inj_on unique (set (contexts dev))"
    using aif_inv_cids [OF inv] inv by (simp_all add: distinct_map aif_inv_def)
  have "find_ctx (cid x) dev \<noteq> None" using x by (auto simp: find_ctx_def find_None_iff)
  then obtain y where y: "find_ctx (cid x) dev = Some y" by auto
  have "filter (\<lambda>y. cid y \<noteq> cid x) (contexts dev) = filter (\<lambda>y. unique y \<noteq> of_nat arg) (contexts dev)"
    using inj x by (intro filter_cong) (auto simp: inj_on_def)
  then show ?thesis
    using Some inv x aac_close_fib_context_ok [OF inv y] by (simp add: close_getadapter_fib_def aif_inv_def)
qed

lemma length_stamp [simp]: "length (contexts (stamp now c dev)) = length (contexts dev)"
  by (simp add: stamp_def contexts_upd)

lemma length_restart: "length (contexts (restart_thread dev)) = length (contexts dev)"
  by (simp add: restart_thread_def)

lemma find_stamp [simp]:
  "find_ctx d (stamp now c dev) = map_option (\<lambda>x. if cid x = c then x\<lparr>cjiffies := ucast now\<rparr> else x) (find_ctx d dev)"
  by (simp add: stamp_def)

lemma return_fib_ok:
  assumes inv: "aif_inv E base dev w" and x: "find_ctx c dev = Some x" and fs: "cfibs x = fib # rest"
  shows "ok (return_fib now c ubuf fib dev w) (\<lambda>(r, dev', w'). aif_inv E base dev' w' \<and>
    length (contexts dev') = length (contexts dev) \<and>
    (\<exists>x'. find_ctx c dev' = Some x' \<and> cfibs x' = rest) \<and>
    (r = 0 \<and> uout w' = (ubuf, snd (snd fib)) # uout w \<or> r = - EFAULT \<and> uout w' = uout w))"
proof -
  define g :: "aac_fib_context \<Rightarrow> aac_fib_context" where "g = (\<lambda>x. x\<lparr>cfibs := tl (cfibs x), ccount := ccount x - 1\<rparr>)"
  obtain ys zs where split: "contexts dev = ys @ x # zs" "cid x = c" "contexts (upd_ctx c g dev) = ys @ g x # zs"
    using split_ctx [OF inv x] by metis
  define M where "M = mset (base @ aif_objs (ys @ g x # zs))"
  obtain bad w0 where cp: "copy_to_user ubuf (snd (snd fib)) w = (bad, w0)" by fastforce
  then have w0: "klive w0 = klive w" "knext w0 = knext w"
    "uout w0 = (if bad then uout w else (ubuf, snd (snd fib)) # uout w)"
    by (auto simp: copy_to_user_def split: if_splits)
  have 1: "mset (klive w0) = (M + {#fst fib#}) + {#fst (snd fib)#}"
    using inv split fs by (simp add: aif_inv_def M_def g_def w0)
  obtain w1 where w1: "kfree (fst (snd fib)) w0 = Some w1" "w1 = w0\<lparr>klive := klive w1\<rparr>"
    and 2: "mset (klive w1) = M + {#fst fib#}"
    using kfree_mset [OF 1] by (auto elim: okE)
  obtain w2 where w2: "kfree (fst fib) w1 = Some w2" "w2 = w1\<lparr>klive := klive w2\<rparr>" and 3: "mset (klive w2) = M"
    using kfree_mset [OF 2] by (auto elim: okE)
  have same: "knext w2 = knext w" "uout w2 = uout w0"
    by (subst w2(2), subst w1(2), simp add: w0)+
  have "mset (klive w) = (M + {#fst fib#}) + {#fst (snd fib)#}" using 1 by (simp add: w0)
  then have "set (klive w2) \<subseteq> set (klive w)"
    using 3 by (metis set_mset_mset mset_subset_eq_add_left subset_mset.trans set_mset_mono)
  then have inv2: "aif_inv E base (upd_ctx c g dev) w2"
    using inv split 3 fs by (auto simp: aif_inv_def M_def same g_def ctx_sound_def)
  have "find_ctx c (upd_ctx c g dev) = Some (g x)" using x split by (simp add: g_def)
  moreover have "return_fib now c ubuf fib dev w =
      (if bad then Some (- EFAULT, upd_ctx c g dev, w2) else Some (0, stamp now c (upd_ctx c g dev), w2))"
    using cp w1(1) w2(1) by (simp add: return_fib_def g_def)
  moreover have "cfibs (g x) = rest" using fs by (simp add: g_def)
  ultimately show ?thesis
    using inv2 w0(3) same split(2) by (simp add: length_stamp contexts_upd)
qed

text \<open>What the tasks may do that run while another one waits for listener \<open>c\<close>.\<close>

definition sleep_ok :: "aif_env \<Rightarrow> nat list \<Rightarrow> nat \<Rightarrow> 'z world_scheme sleep list \<Rightarrow> bool" where
  "sleep_ok E base c evs \<longleftrightarrow> (\<forall>g dev w. Runs g \<in> set evs \<longrightarrow> aif_inv E base dev w \<longrightarrow> find_ctx c dev \<noteq> None \<longrightarrow>
     ok (g dev w) (\<lambda>(dev', w'). aif_inv E base dev' w' \<and> find_ctx c dev' \<noteq> None))"

lemma down_interruptible_ok:
  "aif_inv E base dev w \<Longrightarrow> find_ctx c dev \<noteq> None \<Longrightarrow> sleep_ok E base c evs \<Longrightarrow>
   ok (down_interruptible c evs dev w) (\<lambda>(s, evs', dev', w'). aif_inv E base dev' w' \<and> find_ctx c dev' \<noteq> None \<and>
     sleep_ok E base c evs' \<and> (evs = [] \<longrightarrow> evs' = [] \<and> length (contexts dev') = length (contexts dev)))"
proof (induction evs arbitrary: dev w)
  case Nil
  then show ?case
    by (subst down_interruptible.simps) (auto simp: ok_simps sleep_ok_def contexts_upd)
next
  case (Cons e evs)
  then obtain x where x: "find_ctx c dev = Some x" by auto
  have rest: "sleep_ok E base c evs" using Cons.prems(3) by (auto simp: sleep_ok_def)
  show ?case
  proof (cases "wait_sem x > 0")
    case True
    then show ?thesis using Cons.prems x by (subst down_interruptible.simps) (auto simp: ok_simps)
  next
    case False
    show ?thesis
    proof (cases e)
      case Signal
      then show ?thesis using Cons.prems x False rest by (subst down_interruptible.simps) (auto simp: ok_simps)
    next
      case (Runs g)
      have "ok (g dev w) (\<lambda>(dev', w'). aif_inv E base dev' w' \<and> find_ctx c dev' \<noteq> None)"
        using Cons.prems Runs unfolding sleep_ok_def by auto
      then obtain dev1 w1 where 1: "g dev w = Some (dev1, w1)" "aif_inv E base dev1 w1" "find_ctx c dev1 \<noteq> None"
        by (auto elim!: okE)
      show ?thesis using Cons.IH [OF 1(2,3) rest] x False Runs 1(1)
        by (subst down_interruptible.simps) (auto elim!: ok_mono)
    qed
  qed
qed

lemma next_loop_ok:
  "aif_inv E base dev w \<Longrightarrow> find_ctx c dev \<noteq> None \<Longrightarrow> sleep_ok E base c evs \<Longrightarrow>
   ok (next_loop now c wait ubuf evs dev w) (\<lambda>(r, dev', w'). aif_inv E base dev' w' \<and> find_ctx c dev' \<noteq> None \<and>
     (evs = [] \<longrightarrow> length (contexts dev') = length (contexts dev)))"
proof (induction now c wait ubuf evs dev w rule: next_loop.induct)
  case (1 now c wait ubuf evs dev w)
  then obtain x where x: "find_ctx c dev = Some x" by auto
  show ?case
  proof (cases "cfibs x")
    case (Cons fib rest)
    then show ?thesis
      by (subst next_loop.simps) (use return_fib_ok [OF 1(2) x Cons, of now ubuf] x in \<open>auto simp: ok_bind elim!: okE\<close>)
  next
    case Nil
    show ?thesis
    proof (cases wait)
      case False
      then show ?thesis using 1(2) x Nil by (subst next_loop.simps) (auto simp: ok_simps Let_def length_restart)
    next
      case True
      obtain s evs1 dev1 w1 where d: "down_interruptible c evs (restart_thread dev) w = Some (s, evs1, dev1, w1)"
        "aif_inv E base dev1 w1" "find_ctx c dev1 \<noteq> None" "sleep_ok E base c evs1"
        "evs = [] \<longrightarrow> evs1 = [] \<and> length (contexts dev1) = length (contexts dev)"
        using down_interruptible_ok [of E base "restart_thread dev" w c evs] 1(2-4)
        by (auto simp: length_restart elim!: okE)
      have "s = Down \<Longrightarrow> ?thesis"
        using 1(1) [OF x Nil refl _ d(1) refl refl refl] d True x Nil
        by (subst next_loop.simps) (auto simp: Let_def elim!: ok_mono)
      moreover have "s \<noteq> Down \<Longrightarrow> ?thesis"
        using d True x Nil by (subst next_loop.simps) (cases s; auto simp: Let_def)
      ultimately show ?thesis by blast
    qed
  qed
qed

lemma panic_event_ok:
  assumes "aac_env_ok A" and "aif_env_ok A E" and "length zeros = sizeof_hw_fib A"
  shows "ok (panic_event A E blink dev zeros) (\<lambda>bs. length bs = sizeof_hw_fib A)"
proof -
  let ?cmd = "aifcmd_enc E (AifCmdEventNotify E) 0xFFFFFFFF
    [AifEnExpEvent E, AifExeFirmwarePanic E, AifHighPriority E, of_int blink]"
  have "sizeof_fibhdr A + length ?cmd \<le> sizeof_hw_fib A" using assms(2) by (simp add: aif_env_ok_def)
  moreover have "length (fib_enc A h) = sizeof_fibhdr A" for h using assms(1) by (simp add: aac_env_ok_def)
  ultimately show ?thesis
    using assms(3) unfolding panic_event_def ok_bind
    by (simp add: ok_buf_write del: of_int_numeral)
qed

lemma post_event_ok:
  assumes A: "aac_env_ok A" and E: "aif_env_ok A E" and inv: "aif_inv E base dev w" and x: "find_ctx c dev = Some x"
  shows "ok (post_event A E blink c dev w) (\<lambda>(dev', w'). aif_inv E base dev' w' \<and> uout w' = uout w \<and>
    map cid (contexts dev') = map cid (contexts dev))"
proof (cases "kfail w (knext w) \<or> kfail w (Suc (knext w))")
  case True
  then show ?thesis
    using inv by (auto simp: post_event_def kzalloc_def Let_def ok_simps intro: aif_inv_knext)
next
  case False
  define h where "h = knext w"
  define k where "k = Suc h"
  define w' where "w' = w\<lparr>knext := Suc k, klive := k # h # klive w\<rparr>"
  obtain bs where bs: "panic_event A E blink dev (replicate (sizeof_hw_fib A) 0) = Some bs"
    using panic_event_ok [OF A E, of "replicate (sizeof_hw_fib A) 0" blink dev] by (auto elim: okE)
  define g :: "aac_fib_context \<Rightarrow> aac_fib_context"
    where "g = (\<lambda>x. x\<lparr>cfibs := cfibs x @ [(k, h, bs)], ccount := ccount x + 1, wait_sem := Suc (wait_sem x)\<rparr>)"
  have run: "post_event A E blink c dev w = Some (upd_ctx c g dev, w')"
    using False bs by (simp add: post_event_def kzalloc_def Let_def w'_def k_def h_def g_def)
  obtain ys zs where split: "contexts dev = ys @ x # zs" "cid x = c" "contexts (upd_ctx c g dev) = ys @ g x # zs"
    using split_ctx [OF inv x] by metis
  have less: "\<forall>i \<in> set base \<union> set (aif_objs (contexts dev)). i < h"
    using inv aif_inv_live [OF inv] by (auto simp: aif_inv_def h_def)
  then have fresh: "h \<notin> set base \<union> set (aif_objs (contexts dev))" "k \<notin> set base \<union> set (aif_objs (contexts dev))"
    by (auto simp: k_def dest!: bspec)
  have live: "\<forall>i \<in> set (klive w'). i < knext w'"
    using less aif_inv_live [OF inv] by (auto simp: w'_def k_def dest!: bspec intro: less_SucI)
  have "aif_inv E base (upd_ctx c g dev) w'"
    using inv split fresh live
    by (auto simp: aif_inv_def w'_def g_def ctx_sound_def k_def)
  moreover have "map cid (contexts (upd_ctx c g dev)) = map cid (contexts dev)"
    by (rule contexts_upd) (simp add: g_def)
  ultimately show ?thesis by (simp add: run w'_def)
qed

lemma fan_out_ok:
  assumes A: "aac_env_ok A" and E: "aif_env_ok A E"
  shows "aif_inv E base dev w \<Longrightarrow> distinct cs \<Longrightarrow> set cs \<subseteq> cid ` set (contexts dev) \<Longrightarrow>
    ok (fan_out A E now blink cs dev w) (\<lambda>(dev', w'). aif_inv E base dev' w' \<and> uout w' = uout w \<and>
      length (contexts dev') \<le> length (contexts dev))"
proof (induction cs arbitrary: dev w)
  case Nil
  then show ?case by simp
next
  case (Cons c cs)
  then have "find_ctx c dev \<noteq> None" by (auto simp: find_ctx_def find_None_iff)
  then obtain x where x: "find_ctx c dev = Some x" by auto
  define step where "step = (if ccount x > 20 \<and> now - ucast (cjiffies x) > aif_timeout E
    then do { (_, dev, w) \<leftarrow> aac_close_fib_context c dev w; Some (dev, w) }
    else post_event A E blink c dev w)"
  have rest: "set cs \<subseteq> cid ` {y \<in> set (contexts dev). cid y \<noteq> c}"
  proof
    fix i assume "i \<in> set cs"
    then have "i \<in> cid ` set (contexts dev)" "i \<noteq> c" using Cons.prems(2,3) by auto
    then show "i \<in> cid ` {y \<in> set (contexts dev). cid y \<noteq> c}" by blast
  qed
  have "ok step (\<lambda>(dev', w'). aif_inv E base dev' w' \<and> uout w' = uout w \<and> set cs \<subseteq> cid ` set (contexts dev') \<and>
      length (contexts dev') \<le> length (contexts dev))"
  proof (cases "ccount x > 20 \<and> now - ucast (cjiffies x) > aif_timeout E")
    case True
    then show ?thesis
      using aac_close_fib_context_ok [OF Cons.prems(1) x] rest by (auto simp: step_def ok_bind elim!: ok_mono)
  next
    case False
    have same: "cid ` set (contexts dev') = cid ` set (contexts dev)" "length (contexts dev') = length (contexts dev)"
      if "map cid (contexts dev') = map cid (contexts dev)" for dev' :: aac_dev
      using that by (metis set_map, metis length_map)
    from False have step: "step = post_event A E blink c dev w" by (auto simp: step_def)
    obtain dev1 w1 where 1: "step = Some (dev1, w1)" "aif_inv E base dev1 w1" "uout w1 = uout w"
      and m: "map cid (contexts dev1) = map cid (contexts dev)"
      using post_event_ok [OF A E Cons.prems(1) x, of blink] by (auto simp: step elim!: okE)
    show ?thesis using 1 same [OF m] Cons.prems(3) by simp
  qed
  then obtain dev1 w1 where 1: "step = Some (dev1, w1)" "aif_inv E base dev1 w1" "uout w1 = uout w"
    "set cs \<subseteq> cid ` set (contexts dev1)" "length (contexts dev1) \<le> length (contexts dev)"
    by (auto elim!: okE)
  have "distinct cs" using Cons.prems(2) by simp
  from Cons.IH [OF 1(2) this 1(4)] show ?case
    using x 1(1,3,5) by (auto simp: step_def [symmetric] elim!: ok_mono)
qed

section \<open>Sequences of operations\<close>

text \<open>
  The operations user space and the monitoring thread issue, in any order. Here nobody
  sleeps in a fetch; \<open>reset\<close> is the reset of the adapter.
\<close>

datatype aif_op = Open u64 nat | Fetch u64 nat | Close nat | Health u64 bool int bool

fun aif_exec ::
  "aac_env \<Rightarrow> aif_env \<Rightarrow> (bool \<Rightarrow> aac_dev \<Rightarrow> int \<times> aac_dev) \<Rightarrow> aif_op \<Rightarrow> aac_dev \<Rightarrow> 'z world_scheme \<Rightarrow>
   (aac_dev \<times> 'z world_scheme) option" where
  "aif_exec A E reset (Open now arg) dev w = do { (_, dev, w) \<leftarrow> open_getadapter_fib E now arg dev w; Some (dev, w) }"
| "aif_exec A E reset (Fetch now arg) dev w = do { (_, dev, w) \<leftarrow> next_getadapter_fib E now arg [] dev w; Some (dev, w) }"
| "aif_exec A E reset (Close arg) dev w = do { (_, dev, w) \<leftarrow> close_getadapter_fib E arg dev w; Some (dev, w) }"
| "aif_exec A E reset (Health now busy blink ign) dev w =
     do { (_, dev, w) \<leftarrow> aac_check_health A E now busy blink ign reset dev w; Some (dev, w) }"

primrec aif_run ::
  "aac_env \<Rightarrow> aif_env \<Rightarrow> (bool \<Rightarrow> aac_dev \<Rightarrow> int \<times> aac_dev) \<Rightarrow> aif_op list \<Rightarrow> aac_dev \<Rightarrow> 'z world_scheme \<Rightarrow>
   (aac_dev \<times> 'z world_scheme) option" where
  "aif_run A E reset [] dev w = Some (dev, w)"
| "aif_run A E reset (op # ops) dev w = do {
     (dev, w) \<leftarrow> aif_exec A E reset op dev w;
     aif_run A E reset ops dev w
   }"

lemma find_unique:
  "x \<in> set xs \<Longrightarrow> distinct (map k xs) \<Longrightarrow> v = k x \<Longrightarrow> find (\<lambda>y. k y = v) xs = Some x"
  by (induction xs) auto

lemma next_getadapter_fib_ok:
  assumes inv: "aif_inv E base dev w"
  shows "ok (next_getadapter_fib E now arg [] dev w) (\<lambda>(r, dev', w'). aif_inv E base dev' w' \<and>
    length (contexts dev') = length (contexts dev))"
proof (cases "ufetch (umem w (utime w)) arg (sizeof_fib_ioctl E)")
  case None
  then show ?thesis using inv by (simp add: next_getadapter_fib_def copy_from_user_def aif_inv_def)
next
  case (Some f)
  define w1 where "w1 = w\<lparr>utime := Suc (utime w)\<rparr>"
  have inv1: "aif_inv E base dev w1" using inv by (simp add: w1_def aif_inv_def)
  show ?thesis
  proof (cases "find (\<lambda>x. unique x = ioc_fibctx E f) (contexts dev)")
    case None
    then show ?thesis using Some inv1
      by (simp add: next_getadapter_fib_def copy_from_user_def w1_def)
  next
    case found: (Some x)
    then have "x \<in> set (contexts dev)" by (auto simp: find_Some_iff)
    then have x: "find_ctx (cid x) dev \<noteq> None" "ctx_sound E x"
      using inv by (auto simp: find_ctx_def find_None_iff aif_inv_def)
    then show ?thesis
      using Some found next_loop_ok [OF inv1 x(1), of "[]" now "ioc_wait E f" "ioc_fib E f"]
      by (auto simp: next_getadapter_fib_def copy_from_user_def w1_def sleep_ok_def elim!: ok_mono)
  qed
qed

lemma aac_check_health_ok:
  assumes A: "aac_env_ok A" and E: "aif_env_ok A E" and inv: "aif_inv E base dev w"
    and reset: "\<And>f d. contexts (snd (reset f d)) = contexts d"
  shows "ok (aac_check_health A E now busy blink ign reset dev w) (\<lambda>(r, dev', w'). aif_inv E base dev' w' \<and>
    length (contexts dev') \<le> length (contexts dev))"
proof -
  define dev1 where "dev1 = dev\<lparr>in_reset := True\<rparr>"
  have inv1: "aif_inv E base dev1 w" using inv by (simp add: dev1_def aif_inv_def)
  have "ok (fan_out A E now blink (map cid (contexts dev1)) dev1 w) (\<lambda>(dev', w'). aif_inv E base dev' w' \<and> uout w' = uout w \<and>
      length (contexts dev') \<le> length (contexts dev1))"
    by (rule fan_out_ok [OF A E inv1 aif_inv_cids [OF inv1]]) simp
  then obtain dev2 w2 where f: "fan_out A E now blink (map cid (contexts dev1)) dev1 w = Some (dev2, w2)"
    "aif_inv E base dev2 w2" "length (contexts dev2) \<le> length (contexts dev)"
    by (auto simp: dev1_def elim!: okE)
  obtain r dev3 where r: "reset (aac_check_reset E \<noteq> 1) dev2 = (r, dev3)" by fastforce
  then have "contexts dev3 = contexts dev2" using reset [of "aac_check_reset E \<noteq> 1" dev2] by simp
  then show ?thesis using f r inv
    by (simp add: aac_check_health_def dev1_def [symmetric] Let_def aif_inv_def)
qed

lemma aif_exec_ok:
  assumes A: "aac_env_ok A" and E: "aif_env_ok A E" and inv: "aif_inv E base dev w"
    and reset: "\<And>f d. contexts (snd (reset f d)) = contexts d" and few: "length (contexts dev) < 2 ^ 32"
  shows "ok (aif_exec A E reset op dev w) (\<lambda>(dev', w'). aif_inv E base dev' w' \<and>
    length (contexts dev') \<le> Suc (length (contexts dev)))"
proof (cases op)
  case (Open now arg)
  with open_getadapter_fib_ok [OF inv few, of now arg] show ?thesis
    by (auto simp: ok_bind elim!: ok_mono split: if_splits)
next
  case (Fetch now arg)
  with next_getadapter_fib_ok [OF inv, of now arg] show ?thesis by (auto simp: ok_bind elim!: ok_mono)
next
  case (Close arg)
  with close_getadapter_fib_ok [OF inv, of arg] show ?thesis
    by (auto simp: ok_bind elim!: ok_mono intro: le_SucI [OF length_filter_le])
next
  case (Health now busy blink ign)
  with aac_check_health_ok [where reset = reset, OF A E inv reset, of now busy blink ign] show ?thesis
    by (auto simp: ok_bind elim!: ok_mono)
qed

text \<open>
  C13: Whatever sequence of opening, fetching, closing and health checks runs, with whatever
  arguments, allocation failures and unmapped user addresses: the driver never faults, the
  live kernel objects stay exactly the listeners and their queued events, so no event is
  freed twice or lost and a driver whose listeners are all closed has leaked nothing; the
  identifiers stay unique and the counters stay the lengths of the queues.
\<close>

theorem aac_aif_run_safe:
  assumes A: "aac_env_ok A" and E: "aif_env_ok A E"
    and reset: "\<And>f d. contexts (snd (reset f d)) = contexts d"
    and inv: "aif_inv E base dev w" and few: "length (contexts dev) + length ops < 2 ^ 32"
  shows "ok (aif_run A E reset ops dev w) (\<lambda>(dev', w').
    mset (klive w') = mset base + mset (aif_objs (contexts dev')) \<and> distinct (aif_objs (contexts dev')) \<and>
    (contexts dev' = [] \<longrightarrow> mset (klive w') = mset base) \<and> distinct (map unique (contexts dev')) \<and>
    (\<forall>x \<in> set (contexts dev'). ccount x = int (length (cfibs x))))"
  using inv few
proof (induction ops arbitrary: dev w)
  case Nil
  then show ?case by (auto simp: aif_inv_def)
next
  case (Cons op ops)
  then have "length (contexts dev) < 2 ^ 32" by simp
  then obtain dev1 w1 where 1: "aif_exec A E reset op dev w = Some (dev1, w1)" "aif_inv E base dev1 w1"
    "length (contexts dev1) \<le> Suc (length (contexts dev))"
    using aif_exec_ok [where reset = reset and op = op, OF A E Cons.prems(1) reset] by (auto elim!: okE)
  then have "length (contexts dev1) + length ops < 2 ^ 32" using Cons.prems(2) by simp
  from Cons.IH [OF 1(2) this] show ?case by (simp add: 1(1))
qed

text \<open>
  Opening a listener always returns: the search for an identifier ends as long as fewer
  than \<open>2 ^ 32\<close> listeners are open, and the one it finds is in use by no other. Unless memory
  is short the new listener is at the end of the list, empty, and user space is told its
  identifier; when that copy fails, the call fails and the listener stays registered.
\<close>

theorem aac_open_fresh:
  assumes "aif_inv E base dev w" and "length (contexts dev) < 2 ^ 32"
  shows "ok (open_getadapter_fib E now arg dev w) (\<lambda>(r, dev', w').
    (if r = - ENOMEM then dev' = dev
     else \<exists>x. contexts dev' = contexts dev @ [x] \<and> unique x \<notin> unique ` set (contexts dev) \<and> cfibs x = [] \<and>
       (r = 0 \<and> uout w' = (arg, le32_bytes (unique x)) # uout w \<or> r = - EFAULT \<and> uout w' = uout w)))"
  by (rule ok_mono [OF open_getadapter_fib_ok [OF assms]]) auto

text \<open>
  A fetch on a listener with queued events takes exactly the oldest one off its queue and
  hands it to user space; when the copy fails the event is lost all the same.
\<close>

theorem aac_next_fifo:
  assumes inv: "aif_inv E base dev w" and x: "x \<in> set (contexts dev)" "cfibs x = fib # rest"
    and f: "ufetch (umem w (utime w)) arg (sizeof_fib_ioctl E) = Some f" "ioc_fibctx E f = unique x"
  shows "ok (next_getadapter_fib E now arg evs dev w) (\<lambda>(r, dev', w').
    (\<exists>x'. find_ctx (cid x) dev' = Some x' \<and> cfibs x' = rest) \<and>
    (r = Some 0 \<and> uout w' = (ioc_fib E f, snd (snd fib)) # uout w \<or> r = Some (- EFAULT) \<and> uout w' = uout w))"
proof -
  define w1 where "w1 = w\<lparr>utime := Suc (utime w)\<rparr>"
  have inv1: "aif_inv E base dev w1" using inv by (simp add: w1_def aif_inv_def)
  have found: "find (\<lambda>y. unique y = ioc_fibctx E f) (contexts dev) = Some x"
    using inv x f(2) by (intro find_unique) (auto simp: aif_inv_def)
  have here: "find_ctx (cid x) dev = Some x"
    unfolding find_ctx_def using aif_inv_cids [OF inv] x by (intro find_unique) auto
  have "ctx_sound E x" using inv x by (simp add: aif_inv_def)
  then have run: "next_getadapter_fib E now arg evs dev w = next_loop now (cid x) (ioc_wait E f) (ioc_fib E f) evs dev w1"
    using f found by (simp add: next_getadapter_fib_def copy_from_user_def w1_def)
  have "uout w1 = uout w" by (simp add: w1_def)
  with return_fib_ok [OF inv1 here x(2), of now "ioc_fib E f"] show ?thesis
    by (subst run, subst next_loop.simps) (auto simp: here x(2) elim!: okE)
qed

text \<open>
  While a task waits for an event without the lock, nothing holds the listener: when
  another task closes it in the meantime, the waiting task wakes up in freed memory.
\<close>

theorem aac_next_close_race:
  assumes inv: "aif_inv E base dev w" and x: "x \<in> set (contexts dev)" "cfibs x = []" "wait_sem x = 0"
    and f: "ufetch (umem w (utime w)) arg (sizeof_fib_ioctl E) = Some f" "ioc_fibctx E f = unique x" "ioc_wait E f"
    and closer: "of_nat arg2 = unique x"
      "g = (\<lambda>dev w. do { (_, dev, w) \<leftarrow> close_getadapter_fib E arg2 dev w; Some (dev, w) })"
  shows "next_getadapter_fib E now arg (Runs g # evs) dev w = None"
proof -
  define w1 where "w1 = w\<lparr>utime := Suc (utime w)\<rparr>"
  define dev1 where "dev1 = restart_thread dev"
  have inv1: "aif_inv E base dev1 w1" using inv by (simp add: w1_def aif_inv_def dev1_def restart_thread_def)
  have found: "find (\<lambda>y. unique y = ioc_fibctx E f) (contexts dev) = Some x"
    using inv x f(2) by (intro find_unique) (auto simp: aif_inv_def)
  have here: "find_ctx (cid x) dev = Some x"
    unfolding find_ctx_def using aif_inv_cids [OF inv] x by (intro find_unique) auto
  have "ctx_sound E x" using inv x by (simp add: aif_inv_def)
  then have run: "next_getadapter_fib E now arg (Runs g # evs) dev w =
      next_loop now (cid x) (ioc_wait E f) (ioc_fib E f) (Runs g # evs) dev w1"
    using f found by (simp add: next_getadapter_fib_def copy_from_user_def w1_def)
  obtain dev2 w2 where g: "g dev1 w1 = Some (dev2, w2)"
    and left: "contexts dev2 = filter (\<lambda>y. unique y \<noteq> of_nat arg2) (contexts dev1)"
    using close_getadapter_fib_ok [OF inv1, of arg2] by (auto simp: closer(2) elim!: okE)
  have inj: "inj_on cid (set (contexts dev))" using aif_inv_cids [OF inv] by (simp add: distinct_map)
  have "contexts dev1 = contexts dev" by (simp add: dev1_def restart_thread_def)
  then have "find_ctx (cid x) dev2 = None"
    using left inj x closer(1) by (auto simp: find_ctx_def find_None_iff dest: inj_onD)
  then have "down_interruptible (cid x) evs dev2 w2 = None"
    by (subst down_interruptible.simps) simp
  then have "down_interruptible (cid x) (Runs g # evs) dev1 w1 = None"
    using here x(3) g by (subst down_interruptible.simps) (simp add: dev1_def)
  then show ?thesis
    using here x(2) f(3) by (subst run, subst next_loop.simps) (simp add: dev1_def Let_def)
qed

section \<open>The properties on concrete inputs\<close>

definition aif_headers :: aif_env where
  "aif_headers = \<lparr>sizeof_fib_context = 72, FSAFS_NTC_GET_ADAPTER_FIB_CONTEXT = 0x307, sizeof_fib_ioctl = 16,
     ioc_fibctx = \<lambda>b. le32_at b 0, ioc_wait = \<lambda>b. b ! 4 \<noteq> 0, ioc_fib = \<lambda>b. unat (b ! 8),
     AifCmdEventNotify = 1, AifEnExpEvent = 23, AifExeFirmwarePanic = 3, AifHighPriority = 3,
     aifcmd_enc = \<lambda>c s d. concat (map le32_bytes (c # s # d)), aif_timeout = 120, aac_check_reset = 1,
     low32 = of_nat\<rparr>"

lemma aif_headers_ok: "aif_env_ok aac_headers aif_headers"
  by (auto simp: aif_env_ok_def aif_headers_def aac_headers_def length_Suc_conv numeral_eq_Suc)

definition aif_demo_ctx :: "(nat \<times> nat \<times> byte list) list \<Rightarrow> aac_fib_context" where
  "aif_demo_ctx fs = \<lparr>cid = 0, ctype = 0x307, csize = 72, unique = 0, cjiffies = 0, ccount = int (length fs),
     wait_sem = 0, cfibs = fs\<rparr>"

definition aif_demo :: "(nat \<times> nat \<times> byte list) list \<Rightarrow> aac_dev" where
  "aif_demo fs = aac_demo\<lparr>contexts := [aif_demo_ctx fs]\<rparr>"

text \<open>User memory with a request to wait on listener 0, and the objects 0 to \<open>n - 1\<close> allocated.\<close>

definition aif_world :: "nat \<Rightarrow> world" where
  "aif_world n = \<lparr>umem = \<lambda>_ i. Some (if i = 4 then 1 else 0), utime = 0, uout = [], kfail = \<lambda>_. False,
     kjunk = \<lambda>_ _. 0, knext = n, klive = [0..<n], xcalls = 0\<rparr>"

lemma aif_demo_inv: "aif_inv aif_headers [] (aif_demo []) (aif_world 1)"
  "aif_inv aif_headers [] (aif_demo [(2, 1, bs)]) (aif_world 3)"
  by (simp_all add: aif_inv_def aif_demo_def aif_demo_ctx_def aif_world_def ctx_sound_def aif_headers_def
      upt_rec fib_objs_def)

lemma aif_user_request: "ufetch (umem (aif_world n) (utime (aif_world n))) 0 16 = Some [0, 0, 0, 0, 1, 0, 0, 0, 0, 0, 0, 0, 0, 0, 0, 0]"
  by (simp add: ufetch_def aif_world_def upt_rec)

lemma aac_aif_run_safe_witness:
  "ok (aif_run aac_headers aif_headers (\<lambda>_ d. (0, d)) [Open 0 0, Health 0 False 1 False, Fetch 0 0, Close 0]
      (aif_demo []) (aif_world 1)) (\<lambda>(dev', w').
    mset (klive w') = mset [] + mset (aif_objs (contexts dev')) \<and> distinct (aif_objs (contexts dev')) \<and>
    (contexts dev' = [] \<longrightarrow> mset (klive w') = mset []) \<and> distinct (map unique (contexts dev')) \<and>
    (\<forall>x \<in> set (contexts dev'). ccount x = int (length (cfibs x))))"
  by (rule aac_aif_run_safe [OF aac_headers_ok aif_headers_ok _ aif_demo_inv(1)]) (simp_all add: aif_demo_def)

lemma aac_open_fresh_witness:
  "ok (open_getadapter_fib aif_headers 0 0 (aif_demo []) (aif_world 1)) (\<lambda>(r, dev', w').
    (if r = - ENOMEM then dev' = aif_demo []
     else \<exists>x. contexts dev' = contexts (aif_demo []) @ [x] \<and> unique x \<notin> unique ` set (contexts (aif_demo [])) \<and>
       cfibs x = [] \<and> (r = 0 \<and> uout w' = (0, le32_bytes (unique x)) # uout (aif_world 1) \<or>
         r = - EFAULT \<and> uout w' = uout (aif_world 1))))"
  by (rule aac_open_fresh [OF aif_demo_inv(1)]) (simp add: aif_demo_def)

lemma aac_next_fifo_witness:
  "ok (next_getadapter_fib aif_headers 0 0 [] (aif_demo [(2, 1, [7])]) (aif_world 3)) (\<lambda>(r, dev', w').
    (\<exists>x'. find_ctx 0 dev' = Some x' \<and> cfibs x' = []) \<and>
    (r = Some 0 \<and> uout w' = [(0, [7])] \<or> r = Some (- EFAULT) \<and> uout w' = []))"
  using aac_next_fifo [OF aif_demo_inv(2) [of "[7]"], of "aif_demo_ctx [(2, 1, [7])]" "(2, 1, [7])" "[]" 0
      "[0, 0, 0, 0, 1, 0, 0, 0, 0, 0, 0, 0, 0, 0, 0, 0]" 0 "[]"] aif_user_request [of 3]
  by (simp add: aif_headers_def aif_demo_def aif_demo_ctx_def le32_at_def) (simp add: aif_world_def)

lemma aac_next_close_race_witness:
  "next_getadapter_fib aif_headers 0 0
     [Runs (\<lambda>dev w. do { (_, dev, w) \<leftarrow> close_getadapter_fib aif_headers 0 dev w; Some (dev, w) })]
     (aif_demo []) (aif_world 1) = None"
  by (rule aac_next_close_race [OF aif_demo_inv(1), of "aif_demo_ctx []" 0
      "[0, 0, 0, 0, 1, 0, 0, 0, 0, 0, 0, 0, 0, 0, 0, 0]" 0])
    (use aif_user_request [of 1] in \<open>simp_all add: aif_headers_def aif_demo_def aif_demo_ctx_def le32_at_def\<close>)

end
