(* ===== verification/MicPage.thy ===== *)
theory MicPage
  imports Kernel
begin

text \<open>
  The device page of the Intel MIC driver and the life of a virtio device on it:
  \<open>mic_virtio.c\<close> from \<open>mic_virtio_init_post\<close> on, with the structures of \<open>mic_common.h\<close>.
  The page is shared between host and card; user space supplies the descriptor that is added
  to it. Both the original and the patched copy of the descriptor are modelled.

  The card's part is an oracle: whether it acknowledges a request in time. Other writes of
  the card to the page between two steps of the host are not modelled, but the theorems hold
  for every content of the page at the start of an operation.
\<close>

section \<open>The structures of the device page\<close>

text \<open>
  \<open>struct mic_device_desc\<close> has five bytes and is aligned to 8; \<open>struct mic_vqconfig\<close> has two
  64-bit words and a 16-bit one; \<open>struct mic_device_ctrl\<close> a 64-bit word and seven bytes;
  \<open>struct mic_bootparam\<close> a 32-bit word, four bytes and two 64-bit words.
\<close>

definition sizeof_desc :: nat where "sizeof_desc = 8"
definition sizeof_vqconfig :: nat where "sizeof_vqconfig = 24"
definition sizeof_ctrl :: nat where "sizeof_ctrl = 16"
definition sizeof_bootparam :: nat where "sizeof_bootparam = 24"
definition sizeof_vring_info :: nat where "sizeof_vring_info = 8"
definition MIC_MAX_VRINGS :: nat where "MIC_MAX_VRINGS = 4"
definition MIC_MAX_VRING_ENTRIES :: nat where "MIC_MAX_VRING_ENTRIES = 128"
definition MIC_MAX_DESC_BLK_SIZE :: nat where "MIC_MAX_DESC_BLK_SIZE = 256"
definition MIC_DP_SIZE :: nat where "MIC_DP_SIZE = 4096"
definition MIC_MAGIC :: u32 where "MIC_MAGIC = 0xc0ffee00"

text \<open>The fields of a descriptor that starts at the head of a byte list.\<close>

definition d_type :: "byte list \<Rightarrow> byte" where "d_type d = d ! 0"
definition d_num_vq :: "byte list \<Rightarrow> nat" where "d_num_vq d = unat (d ! 1)"
definition d_feature_len :: "byte list \<Rightarrow> nat" where "d_feature_len d = unat (d ! 2)"
definition d_config_len :: "byte list \<Rightarrow> nat" where "d_config_len d = unat (d ! 3)"

definition mic_align :: "nat \<Rightarrow> nat \<Rightarrow> nat" where
  "mic_align a x = (a + x - 1) div x * x"

definition mic_desc_size :: "byte list \<Rightarrow> nat" where
  "mic_desc_size d = sizeof_desc + d_num_vq d * sizeof_vqconfig + d_feature_len d * 2 + d_config_len d"

definition mic_aligned_desc_size :: "byte list \<Rightarrow> nat" where
  "mic_aligned_desc_size d = mic_align (mic_desc_size d) 8"

definition mic_total_desc_size :: "byte list \<Rightarrow> nat" where
  "mic_total_desc_size d = mic_aligned_desc_size d + sizeof_ctrl"

text \<open>Offsets behind a descriptor at offset \<open>off\<close>: queue configuration, feature bits, configuration space.\<close>

definition mic_vq_config :: "nat \<Rightarrow> nat \<Rightarrow> nat" where
  "mic_vq_config off i = off + sizeof_desc + i * sizeof_vqconfig"

definition mic_vq_features :: "nat \<Rightarrow> byte list \<Rightarrow> nat" where
  "mic_vq_features off d = mic_vq_config off (d_num_vq d)"

definition mic_vq_configspace :: "nat \<Rightarrow> byte list \<Rightarrow> nat" where
  "mic_vq_configspace off d = mic_vq_features off d + d_feature_len d * 2"

section \<open>The state\<close>

text \<open>
  A ring of a device: its mutex, memory and info block, the host's view of it, and the buffer
  for DMA. \<open>buf\<close> is \<open>None\<close> where the unchecked allocation failed.
\<close>

record mic_vringh =
  vr_mutex :: bool
  vr_va :: nat
  vr_len :: nat
  avail_idx :: u16
  vr_magic :: u32
  vrh_num :: u16
  vring_used :: u64
  completed :: nat
  last_avail_idx :: u16
  last_used_idx :: u16
  vhead :: u16
  buf :: "nat option"
  buf_da :: "u64 option"

text \<open>A virtio device; \<open>dd\<close> and \<open>dc\<close> are the offsets of its descriptor and control block in the page.\<close>

record mic_vdev =
  vid :: nat
  virtio_id :: byte
  dd :: nat
  dc :: nat
  mvr :: "mic_vringh list"
  virtio_db :: byte
  virtio_cookie :: nat
  poll_wake :: bool

text \<open>
  The card: its device page, the lock, the list of devices, the doorbells rung so far, the
  interrupt handlers requested and the DMA mappings held.
\<close>

record mic_device =
  dp :: "byte list"
  mic_mutex :: bool
  vdev_list :: "nat list"
  doorbells :: "byte list"
  irqs :: "nat list"
  dmaps :: "u64 list"

text \<open>
  Services from outside: the size of a ring's memory, the \<open>n\<close>-th DMA mapping (\<open>None\<close> when it
  fails), the results of \<open>vringh_init_kern\<close>, for the feature bits and the size of the ring,
  and of the interrupt request (negative when it fails), the next doorbell, the time left when
  the \<open>n\<close>-th wait for the card ends, and the two requests to the card.
\<close>

record mic_env =
  vring_size :: "nat \<Rightarrow> nat"
  map_addr :: "nat \<Rightarrow> u64 option"
  vringh_ret :: "nat \<Rightarrow> byte list \<Rightarrow> u16 \<Rightarrow> int"
  irq_ret :: "nat \<Rightarrow> int"
  next_db :: "nat \<Rightarrow> byte"
  wait_left :: "nat \<Rightarrow> int"
  PARAM_CONFIG_CHANGED :: byte
  PARAM_DEV_REMOVE :: byte

section \<open>Access to the page\<close>

definition dp_put :: "nat \<Rightarrow> byte list \<Rightarrow> mic_device \<Rightarrow> mic_device option" where
  "dp_put off bs mdev = do { d \<leftarrow> buf_write (dp mdev) off bs; Some (mdev\<lparr>dp := d\<rparr>) }"

definition desc_at :: "mic_device \<Rightarrow> nat \<Rightarrow> byte list option" where
  "desc_at mdev off = buf_read (dp mdev) off sizeof_desc"

text \<open>The fields of a control block, as offsets, and the doorbell of the boot parameters.\<close>

definition c_config_change :: nat where "c_config_change = 8"
definition c_vdev_reset :: nat where "c_vdev_reset = 9"
definition c_guest_ack :: nat where "c_guest_ack = 10"
definition c_host_ack :: nat where "c_host_ack = 11"
definition c_used_address_updated :: nat where "c_used_address_updated = 12"
definition c_c2h_vdev_db :: nat where "c_c2h_vdev_db = 13"
definition c_h2c_vdev_db :: nat where "c_h2c_vdev_db = 14"
definition b_h2c_config_db :: nat where "b_h2c_config_db = 4"

definition le64_at :: "byte list \<Rightarrow> nat \<Rightarrow> u64" where
  "le64_at b i = ucast (le32_at b i) + push_bit 32 (ucast (le32_at b (i + 4)))"

definition le64_bytes :: "u64 \<Rightarrow> byte list" where
  "le64_bytes v = le32_bytes (ucast v) @ le32_bytes (ucast (drop_bit 32 v))"

definition mutex_lock :: "mic_device \<Rightarrow> mic_device option" where
  "mutex_lock mdev = (if mic_mutex mdev then None else Some (mdev\<lparr>mic_mutex := True\<rparr>))"

definition mutex_unlock :: "mic_device \<Rightarrow> mic_device" where
  "mutex_unlock mdev = mdev\<lparr>mic_mutex := False\<rparr>"

definition mic_map_single :: "mic_env \<Rightarrow> mic_device \<Rightarrow> 'z world_scheme \<Rightarrow> u64 option \<times> mic_device \<times> 'z world_scheme" where
  "mic_map_single E mdev w =
     (let w' = w\<lparr>xcalls := Suc (xcalls w)\<rparr> in
      (case map_addr E (xcalls w) of
         None \<Rightarrow> (None, mdev, w')
       | Some a \<Rightarrow> (Some a, mdev\<lparr>dmaps := a # dmaps mdev\<rparr>, w')))"

text \<open>Releasing a mapping that is not held is a fault.\<close>

definition mic_unmap_single :: "u64 \<Rightarrow> mic_device \<Rightarrow> mic_device option" where
  "mic_unmap_single a mdev =
     (if a \<in> set (dmaps mdev) then Some (mdev\<lparr>dmaps := remove1 a (dmaps mdev)\<rparr>) else None)"

definition send_intr :: "byte \<Rightarrow> mic_device \<Rightarrow> mic_device" where
  "send_intr db mdev = mdev\<lparr>doorbells := db # doorbells mdev\<rparr>"

section \<open>Copying a descriptor from user space\<close>

text \<open>
  The search for a free entry of the page: type 0 or -1. The limit is an unsigned difference.
\<close>

function find_slot :: "mic_device \<Rightarrow> nat \<Rightarrow> nat \<Rightarrow> nat option option" where
  "find_slot mdev limit i =
     (if i < limit then do {
        devp \<leftarrow> desc_at mdev i;
        (if d_type devp = 0 \<or> d_type devp = -1 then Some (Some i)
         else find_slot mdev limit (i + mic_total_desc_size devp))
      } else Some None)"
  by pat_completeness auto
termination
  by (relation "measure (\<lambda>(mdev, limit, i). limit - i)")
    (auto simp: mic_total_desc_size_def sizeof_ctrl_def)

declare find_slot.simps [simp del]

definition slot_limit :: "byte list \<Rightarrow> nat" where
  "slot_limit dd_config = unat (of_nat MIC_DP_SIZE - of_nat (mic_total_desc_size dd_config) :: u32)"

text \<open>The ring sizes of a descriptor in a buffer: the first \<open>n\<close> of them.\<close>

fun vq_nums_ok :: "byte list \<Rightarrow> nat \<Rightarrow> nat \<Rightarrow> bool option" where
  "vq_nums_ok b i 0 = Some True"
| "vq_nums_ok b i (Suc n) = do {
     num \<leftarrow> buf_read b (mic_vq_config 0 i + 16) 2;
     (if unat (le16_at num 0) > MIC_MAX_VRING_ENTRIES then Some False else vq_nums_ok b (Suc i) n)
   }"

text \<open>From the second fetch on: checking the rings, finding a slot, storing the entry.\<close>

definition dp_entry_store ::
  "byte list \<Rightarrow> byte list \<Rightarrow> mic_device \<Rightarrow> (int \<times> (byte \<times> nat) option \<times> mic_device) option" where
  "dp_entry_store ddh dd_config mdev = do {
     nums \<leftarrow> vq_nums_ok dd_config 0 (d_num_vq ddh);
     (if \<not> nums then Some (- EINVAL, None, mdev)
      else do {
        slot \<leftarrow> find_slot mdev (slot_limit dd_config) sizeof_bootparam;
        (case slot of
           None \<Rightarrow> Some (- EINVAL, None, mdev)
         | Some off \<Rightarrow> do {
             let typ = d_type dd_config;
             let dd_config = dd_config[0 := 0];
             img \<leftarrow> buf_read dd_config 0 (mic_desc_size dd_config);
             mdev \<leftarrow> dp_put off img mdev;
             Some (0, Some (typ, off), mdev)
           })
      })
   }"

definition dd_ok :: "byte list \<Rightarrow> bool" where
  "dd_ok ddh \<longleftrightarrow> mic_aligned_desc_size ddh \<le> MIC_MAX_DESC_BLK_SIZE \<and> d_num_vq ddh \<le> MIC_MAX_VRINGS"

definition mic_copy_dp_entry ::
  "nat \<Rightarrow> mic_device \<Rightarrow> 'z world_scheme \<Rightarrow> (int \<times> (byte \<times> nat) option \<times> mic_device \<times> 'z world_scheme) option" where
  "mic_copy_dp_entry argp mdev w =
     (case copy_from_user argp sizeof_desc w of
        (None, w) \<Rightarrow> Some (- EFAULT, None, mdev, w)
      | (Some ddh, w) \<Rightarrow>
          if \<not> dd_ok ddh then Some (- EINVAL, None, mdev, w)
          else (case kmalloc (mic_desc_size ddh) w of
             (None, w) \<Rightarrow> Some (- ENOMEM, None, mdev, w)
           | (Some (k, _), w) \<Rightarrow>
               (case copy_from_user argp (mic_desc_size ddh) w of
                  (None, w) \<Rightarrow> do { w \<leftarrow> kfree k w; Some (- EFAULT, None, mdev, w) }
                | (Some dd_config, w) \<Rightarrow> do {
                    (ret, entry, mdev) \<leftarrow> dp_entry_store ddh dd_config mdev;
                    w \<leftarrow> kfree k w;
                    Some (ret, entry, mdev, w)
                  })))"

definition mic_copy_dp_entry_patched ::
  "nat \<Rightarrow> mic_device \<Rightarrow> 'z world_scheme \<Rightarrow> (int \<times> (byte \<times> nat) option \<times> mic_device \<times> 'z world_scheme) option" where
  "mic_copy_dp_entry_patched argp mdev w =
     (case copy_from_user argp sizeof_desc w of
        (None, w) \<Rightarrow> Some (- EFAULT, None, mdev, w)
      | (Some ddh, w) \<Rightarrow>
          if \<not> dd_ok ddh then Some (- EINVAL, None, mdev, w)
          else (case kmalloc (mic_desc_size ddh) w of
             (None, w) \<Rightarrow> Some (- ENOMEM, None, mdev, w)
           | (Some (k, _), w) \<Rightarrow>
               (case copy_from_user argp (mic_desc_size ddh) w of
                  (None, w) \<Rightarrow> do { w \<leftarrow> kfree k w; Some (- EFAULT, None, mdev, w) }
                | (Some dd_config, w) \<Rightarrow>
                    if ddh \<noteq> take sizeof_desc dd_config
                    then do { w \<leftarrow> kfree k w; Some (- EFAULT, None, mdev, w) }
                    else do {
                      (ret, entry, mdev) \<leftarrow> dp_entry_store ddh dd_config mdev;
                      w \<leftarrow> kfree k w;
                      Some (ret, entry, mdev, w)
                    })))"

section \<open>Adding a device\<close>

definition mic_init_device_ctrl :: "nat \<Rightarrow> mic_vdev \<Rightarrow> mic_device \<Rightarrow> (mic_vdev \<times> mic_device) option" where
  "mic_init_device_ctrl devpage mvdev mdev = do {
     d \<leftarrow> desc_at mdev devpage;
     let c = devpage + mic_aligned_desc_size d;
     mdev \<leftarrow> dp_put (c + c_config_change) [0] mdev;
     mdev \<leftarrow> dp_put (c + c_guest_ack) [0] mdev;
     mdev \<leftarrow> dp_put (c + c_vdev_reset) [0] mdev;
     mdev \<leftarrow> dp_put (c + c_host_ack) [0] mdev;
     mdev \<leftarrow> dp_put (c + c_used_address_updated) [0] mdev;
     mdev \<leftarrow> dp_put (c + c_c2h_vdev_db) [-1] mdev;
     mdev \<leftarrow> dp_put (c + c_h2c_vdev_db) [-1] mdev;
     Some (mvdev\<lparr>dc := c\<rparr>, mdev)
   }"

definition page_align :: "nat \<Rightarrow> nat" where
  "page_align n = mic_align n 4096"

text \<open>
  One ring, with number \<open>i\<close>: \<open>Inl\<close> is the error with which the function jumps to its
  error label.
\<close>

definition add_ring ::
  "mic_env \<Rightarrow> nat \<Rightarrow> mic_vdev \<Rightarrow> mic_device \<Rightarrow> 'z world_scheme \<Rightarrow>
   ((int + unit) \<times> mic_vdev \<times> mic_device \<times> 'z world_scheme) option" where
  "add_ring E i mvdev mdev w = do {
     r \<leftarrow> buf_get (mvr mvdev) i;
     num \<leftarrow> buf_read (dp mdev) (mic_vq_config (dd mvdev) i + 16) 2;
     let num = le16_at num 0;
     let r = r\<lparr>vr_mutex := False\<rparr>;
     let vr_size = page_align (vring_size E (unat num) + sizeof_vring_info);
     (case kzalloc vr_size w of
        (None, w) \<Rightarrow> Some (Inl (- ENOMEM), mvdev\<lparr>mvr := (mvr mvdev)[i := r]\<rparr>, mdev, w)
      | (Some (va, _), w) \<Rightarrow>
          let r = r\<lparr>vr_va := va, vr_len := vr_size, avail_idx := 0,
            vr_magic := MIC_MAGIC + ucast (virtio_id mvdev) + of_nat i\<rparr> in
          (case mic_map_single E mdev w of
             (None, mdev, w) \<Rightarrow> do {
               w \<leftarrow> kfree va w;
               Some (Inl (- ENOMEM), mvdev\<lparr>mvr := (mvr mvdev)[i := r]\<rparr>, mdev, w)
             }
           | (Some vr_addr, mdev, w) \<Rightarrow> do {
               mdev \<leftarrow> dp_put (mic_vq_config (dd mvdev) i) (le64_bytes vr_addr) mdev;
               d \<leftarrow> desc_at mdev (dd mvdev);
               features \<leftarrow> buf_read (dp mdev) (mic_vq_features (dd mvdev) d) 4;
               let ret = vringh_ret E (xcalls w) features num;
               let w = w\<lparr>xcalls := Suc (xcalls w)\<rparr>;
               (if ret \<noteq> 0 then Some (Inl ret, mvdev\<lparr>mvr := (mvr mvdev)[i := r]\<rparr>, mdev, w)
                else
                  let (b, w) = kmalloc (page_align (64 * 1024)) w;
                      (a, mdev, w) = mic_map_single E mdev w;
                      r = r\<lparr>vrh_num := num, completed := 0, last_avail_idx := 0, last_used_idx := 0,
                        vring_used := 0, vhead := -1, buf := map_option fst b, buf_da := a\<rparr> in
                  Some (Inr (), mvdev\<lparr>mvr := (mvr mvdev)[i := r]\<rparr>, mdev, w))
             }))
   }"

text \<open>The number of rings is read from the page in every round.\<close>

function add_rings ::
  "mic_env \<Rightarrow> nat \<Rightarrow> mic_vdev \<Rightarrow> mic_device \<Rightarrow> 'z world_scheme \<Rightarrow>
   ((int \<times> nat + unit) \<times> mic_vdev \<times> mic_device \<times> 'z world_scheme) option" where
  "add_rings E i mvdev mdev w = do {
     d \<leftarrow> desc_at mdev (dd mvdev);
     (if i < d_num_vq d then do {
        (r, mvdev, mdev, w) \<leftarrow> add_ring E i mvdev mdev w;
        (case r of
           Inl e \<Rightarrow> Some (Inl (e, i), mvdev, mdev, w)
         | Inr _ \<Rightarrow> add_rings E (Suc i) mvdev mdev w)
      } else Some (Inr (), mvdev, mdev, w))
   }"
  by pat_completeness auto
termination
proof (relation "measure (\<lambda>(E, i, mvdev, mdev, w). 256 - i)", goal_cases)
  case (2 E i mvdev mdev w d)
  have "d_num_vq d < 256" unfolding d_num_vq_def using unat_u8_less [of "d ! 1"] by simp
  with 2 show ?case by simp
qed simp

declare add_rings.simps [simp del]

text \<open>The error label: rings \<open>0\<close> to \<open>n - 1\<close> are given back, their DMA buffers are not.\<close>

primrec undo_rings :: "nat \<Rightarrow> nat list \<Rightarrow> mic_vdev \<Rightarrow> mic_device \<Rightarrow> 'z world_scheme \<Rightarrow>
    (mic_device \<times> 'z world_scheme) option" where
  "undo_rings off [] mvdev mdev w = Some (mdev, w)"
| "undo_rings off (j # js) mvdev mdev w = do {
     r \<leftarrow> buf_get (mvr mvdev) j;
     a \<leftarrow> buf_read (dp mdev) (mic_vq_config off j) 8;
     mdev \<leftarrow> mic_unmap_single (le64_at a 0) mdev;
     w \<leftarrow> kfree (vr_va r) w;
     undo_rings off js mvdev mdev w
   }"

type_synonym 'w copy_entry = "nat \<Rightarrow> mic_device \<Rightarrow> 'w \<Rightarrow> (int \<times> (byte \<times> nat) option \<times> mic_device \<times> 'w) option"

text \<open>From the rings on. The device becomes visible to the card with the store of its type, last.\<close>

definition add_device_rings ::
  "mic_env \<Rightarrow> byte \<Rightarrow> nat \<Rightarrow> mic_vdev \<Rightarrow> mic_device \<Rightarrow> 'z world_scheme \<Rightarrow>
   (int \<times> mic_vdev \<times> mic_device \<times> 'z world_scheme) option" where
  "add_device_rings E typ off mvdev mdev w = do {
     (r, mvdev, mdev, w) \<leftarrow> add_rings E 0 mvdev mdev w;
     (case r of
        Inl (e, i) \<Rightarrow> do {
          (mdev, w) \<leftarrow> undo_rings off [0..<i] mvdev mdev w;
          Some (e, mvdev, mutex_unlock mdev, w)
        }
      | Inr _ \<Rightarrow> do {
          d \<leftarrow> desc_at mdev off;
          let mvdev = mvdev\<lparr>virtio_db := next_db E (xcalls w)\<rparr>;
          let irq = irq_ret E (xcalls w);
          let w = w\<lparr>xcalls := Suc (xcalls w)\<rparr>;
          (if irq < 0 then do {
             (mdev, w) \<leftarrow> undo_rings off [0..<d_num_vq d] mvdev mdev w;
             Some (irq, mvdev, mutex_unlock mdev, w)
           }
           else do {
             let mvdev = mvdev\<lparr>virtio_cookie := nat irq\<rparr>;
             let mdev = mdev\<lparr>irqs := nat irq # irqs mdev\<rparr>;
             mdev \<leftarrow> dp_put (dc mvdev + c_c2h_vdev_db) [virtio_db mvdev] mdev;
             let mdev = mdev\<lparr>vdev_list := vdev_list mdev @ [vid mvdev]\<rparr>;
             mdev \<leftarrow> dp_put off [typ] mdev;
             db \<leftarrow> buf_get (dp mdev) b_h2c_config_db;
             let mdev = (if db \<noteq> -1 then send_intr db mdev else mdev);
             Some (0, mvdev, mutex_unlock mdev, w)
           })
        })
   }"

definition mic_virtio_add_device ::
  "mic_env \<Rightarrow> 'z world_scheme copy_entry \<Rightarrow> nat \<Rightarrow> mic_vdev \<Rightarrow> mic_device \<Rightarrow> 'z world_scheme \<Rightarrow>
   (int \<times> mic_vdev \<times> mic_device \<times> 'z world_scheme) option" where
  "mic_virtio_add_device E copy_entry argp mvdev mdev w = do {
     mdev \<leftarrow> mutex_lock mdev;
     (ret, entry, mdev, w) \<leftarrow> copy_entry argp mdev w;
     (case entry of
        None \<Rightarrow> Some (ret, mvdev, mutex_unlock mdev, w)
      | Some (typ, off) \<Rightarrow>
          if ret \<noteq> 0 then Some (ret, mvdev, mutex_unlock mdev, w)
          else do {
            (mvdev, mdev) \<leftarrow> mic_init_device_ctrl off mvdev mdev;
            add_device_rings E typ off (mvdev\<lparr>dd := off, virtio_id := typ\<rparr>) mdev w
          })
   }"

section \<open>Waiting for the card\<close>

text \<open>At most \<open>n\<close> waits of a tenth of a second; the result is the last one's, 0 when all ran out.\<close>

fun wait_guest_ack :: "mic_env \<Rightarrow> nat \<Rightarrow> 'z world_scheme \<Rightarrow> int \<times> 'z world_scheme" where
  "wait_guest_ack E 0 w = (0, w)"
| "wait_guest_ack E (Suc n) w =
     (let ret = wait_left E (xcalls w); w = w\<lparr>xcalls := Suc (xcalls w)\<rparr> in
      if ret \<noteq> 0 then (ret, w) else wait_guest_ack E n w)"

section \<open>Removing a device\<close>

primrec del_rings :: "nat \<Rightarrow> nat list \<Rightarrow> mic_vdev \<Rightarrow> mic_device \<Rightarrow> 'z world_scheme \<Rightarrow>
    (mic_device \<times> 'z world_scheme) option" where
  "del_rings off [] mvdev mdev w = Some (mdev, w)"
| "del_rings off (j # js) mvdev mdev w = do {
     r \<leftarrow> buf_get (mvr mvdev) j;
     mdev \<leftarrow> (case buf_da r of None \<Rightarrow> None | Some a \<Rightarrow> mic_unmap_single a mdev);
     w \<leftarrow> (case buf r of None \<Rightarrow> Some w | Some b \<Rightarrow> kfree b w);
     a \<leftarrow> buf_read (dp mdev) (mic_vq_config off j) 8;
     mdev \<leftarrow> mic_unmap_single (le64_at a 0) mdev;
     w \<leftarrow> kfree (vr_va r) w;
     del_rings off js mvdev mdev w
   }"

text \<open>The request to the card, where it has told its doorbell.\<close>

definition hot_remove :: "mic_env \<Rightarrow> byte \<Rightarrow> mic_vdev \<Rightarrow> mic_device \<Rightarrow> 'z world_scheme \<Rightarrow> (mic_device \<times> 'z world_scheme) option" where
  "hot_remove E db mvdev mdev w =
     (if db = -1 then Some (mdev, w)
      else do {
        mdev \<leftarrow> dp_put (dc mvdev + c_config_change) [PARAM_DEV_REMOVE E] mdev;
        let mdev = send_intr db mdev;
        let (_, w) = wait_guest_ack E 100 w;
        mdev \<leftarrow> dp_put (dc mvdev + c_config_change) [0] mdev;
        mdev \<leftarrow> dp_put (dc mvdev + c_guest_ack) [0] mdev;
        Some (mdev, w)
      })"

definition mic_virtio_del_device ::
  "mic_env \<Rightarrow> mic_vdev \<Rightarrow> mic_device \<Rightarrow> 'z world_scheme \<Rightarrow> (mic_device \<times> 'z world_scheme) option" where
  "mic_virtio_del_device E mvdev mdev w = do {
     mdev \<leftarrow> mutex_lock mdev;
     db \<leftarrow> buf_get (dp mdev) b_h2c_config_db;
     (mdev, w) \<leftarrow> hot_remove E db mvdev mdev w;
     let mdev = mdev\<lparr>irqs := remove1 (virtio_cookie mvdev) (irqs mdev)\<rparr>;
     d \<leftarrow> desc_at mdev (dd mvdev);
     (mdev, w) \<leftarrow> del_rings (dd mvdev) [0..<d_num_vq d] mvdev mdev w;
     let mdev = mdev\<lparr>vdev_list := remove1 (vid mvdev) (vdev_list mdev)\<rparr>;
     mdev \<leftarrow> dp_put (dd mvdev) [-1] mdev;
     Some (mutex_unlock mdev, w)
   }"

section \<open>Changing the configuration\<close>

text \<open>The mutexes of all rings, in order; taking a held one would block forever and is a fault.\<close>

primrec lock_rings :: "nat list \<Rightarrow> mic_vdev \<Rightarrow> mic_vdev option" where
  "lock_rings [] mvdev = Some mvdev"
| "lock_rings (i # is) mvdev = do {
     r \<leftarrow> buf_get (mvr mvdev) i;
     (if vr_mutex r then None else lock_rings is (mvdev\<lparr>mvr := (mvr mvdev)[i := r\<lparr>vr_mutex := True\<rparr>]\<rparr>))
   }"

primrec unlock_rings :: "nat list \<Rightarrow> mic_vdev \<Rightarrow> mic_vdev option" where
  "unlock_rings [] mvdev = Some mvdev"
| "unlock_rings (i # is) mvdev = do {
     r \<leftarrow> buf_get (mvr mvdev) i;
     unlock_rings is (mvdev\<lparr>mvr := (mvr mvdev)[i := r\<lparr>vr_mutex := False\<rparr>]\<rparr>)
   }"

text \<open>The part under the locks, up to the label \<open>exit\<close>.\<close>

definition config_change_locked ::
  "mic_env \<Rightarrow> nat \<Rightarrow> byte list \<Rightarrow> mic_vdev \<Rightarrow> mic_device \<Rightarrow> 'z world_scheme \<Rightarrow>
   (int \<times> mic_device \<times> 'z world_scheme) option" where
  "config_change_locked E argp d mvdev mdev w = do {
     db \<leftarrow> buf_get (dp mdev) b_h2c_config_db;
     (if db = -1 \<or> d_type d = -1 then Some (- EIO, mdev, w)
      else (case copy_from_user argp (d_config_len d) w of
          (None, w) \<Rightarrow> Some (- EFAULT, mdev, w)
        | (Some bs, w) \<Rightarrow> do {
            mdev \<leftarrow> dp_put (mic_vq_configspace (dd mvdev) d) bs mdev;
            mdev \<leftarrow> dp_put (dc mvdev + c_config_change) [PARAM_CONFIG_CHANGED E] mdev;
            let mdev = send_intr db mdev;
            let (ret, w) = wait_guest_ack E 100 w;
            mdev \<leftarrow> dp_put (dc mvdev + c_config_change) [0] mdev;
            mdev \<leftarrow> dp_put (dc mvdev + c_guest_ack) [0] mdev;
            Some (ret, mdev, w)
          }))
   }"

definition mic_virtio_config_change ::
  "mic_env \<Rightarrow> nat \<Rightarrow> mic_vdev \<Rightarrow> mic_device \<Rightarrow> 'z world_scheme \<Rightarrow>
   (int \<times> mic_vdev \<times> mic_device \<times> 'z world_scheme) option" where
  "mic_virtio_config_change E argp mvdev mdev w = do {
     mdev \<leftarrow> mutex_lock mdev;
     d \<leftarrow> desc_at mdev (dd mvdev);
     mvdev \<leftarrow> lock_rings [0..<d_num_vq d] mvdev;
     (ret, mdev, w) \<leftarrow> config_change_locked E argp d mvdev mdev w;
     mvdev \<leftarrow> unlock_rings [0..<d_num_vq d] mvdev;
     Some (ret, mvdev, mutex_unlock mdev, w)
   }"

section \<open>Events from the card\<close>

text \<open>\<open>aper\<close> is the base of the card's memory in the host's address space.\<close>

primrec set_used_rings :: "u64 \<Rightarrow> nat list \<Rightarrow> mic_vdev \<Rightarrow> mic_device \<Rightarrow> mic_vdev option" where
  "set_used_rings aper [] mvdev mdev = Some mvdev"
| "set_used_rings aper (i # is) mvdev mdev = do {
     a \<leftarrow> buf_read (dp mdev) (mic_vq_config (dd mvdev) i + 8) 8;
     (if le64_at a 0 = 0 then set_used_rings aper is mvdev mdev
      else do {
        r \<leftarrow> buf_get (mvr mvdev) i;
        set_used_rings aper is (mvdev\<lparr>mvr := (mvr mvdev)[i := r\<lparr>vring_used := aper + le64_at a 0\<rparr>]\<rparr>) mdev
      })
   }"

definition mic_virtio_init_post :: "u64 \<Rightarrow> mic_vdev \<Rightarrow> mic_device \<Rightarrow> (mic_vdev \<times> mic_device) option" where
  "mic_virtio_init_post aper mvdev mdev = do {
     d \<leftarrow> desc_at mdev (dd mvdev);
     mvdev \<leftarrow> set_used_rings aper [0..<d_num_vq d] mvdev mdev;
     mdev \<leftarrow> dp_put (dc mvdev + c_used_address_updated) [0] mdev;
     Some (mvdev, mdev)
   }"

primrec reset_rings :: "nat list \<Rightarrow> mic_vdev \<Rightarrow> mic_vdev option" where
  "reset_rings [] mvdev = Some mvdev"
| "reset_rings (i # is) mvdev = do {
     r \<leftarrow> buf_get (mvr mvdev) i;
     reset_rings is (mvdev\<lparr>mvr := (mvr mvdev)[i := r\<lparr>avail_idx := 0, completed := 0, last_avail_idx := 0,
       last_used_idx := 0\<rparr>]\<rparr>)
   }"

definition mic_virtio_device_reset :: "mic_vdev \<Rightarrow> mic_device \<Rightarrow> (mic_vdev \<times> mic_device) option" where
  "mic_virtio_device_reset mvdev mdev = do {
     d \<leftarrow> desc_at mdev (dd mvdev);
     mvdev \<leftarrow> lock_rings [0..<d_num_vq d] mvdev;
     mdev \<leftarrow> dp_put (dd mvdev + 4) [0] mdev;
     mdev \<leftarrow> dp_put (dc mvdev + c_vdev_reset) [0] mdev;
     mdev \<leftarrow> dp_put (dc mvdev + c_host_ack) [1] mdev;
     mvdev \<leftarrow> reset_rings [0..<d_num_vq d] mvdev;
     mvdev \<leftarrow> unlock_rings [0..<d_num_vq d] mvdev;
     Some (mvdev, mdev)
   }"

text \<open>All devices of a card.\<close>

primrec mic_virtio_reset_devices :: "mic_vdev list \<Rightarrow> mic_device \<Rightarrow> (mic_vdev list \<times> mic_device) option" where
  "mic_virtio_reset_devices [] mdev = Some ([], mdev)"
| "mic_virtio_reset_devices (v # vs) mdev = do {
     (v, mdev) \<leftarrow> mic_virtio_device_reset v mdev;
     (vs, mdev) \<leftarrow> mic_virtio_reset_devices vs mdev;
     Some (v\<lparr>poll_wake := True\<rparr> # vs, mdev)
   }"

definition mic_bh_handler :: "u64 \<Rightarrow> mic_vdev \<Rightarrow> mic_device \<Rightarrow> (mic_vdev \<times> mic_device) option" where
  "mic_bh_handler aper mvdev mdev = do {
     updated \<leftarrow> buf_get (dp mdev) (dc mvdev + c_used_address_updated);
     (mvdev, mdev) \<leftarrow> (if updated \<noteq> 0 then mic_virtio_init_post aper mvdev mdev else Some (mvdev, mdev));
     reset \<leftarrow> buf_get (dp mdev) (dc mvdev + c_vdev_reset);
     (mvdev, mdev) \<leftarrow> (if reset \<noteq> 0 then mic_virtio_device_reset mvdev mdev else Some (mvdev, mdev));
     Some (mvdev\<lparr>poll_wake := True\<rparr>, mdev)
   }"

section \<open>The copied descriptor stays inside the page\<close>

lemma d_fields_take [simp]:
  "d_num_vq (take 8 d) = d_num_vq d" "d_feature_len (take 8 d) = d_feature_len d"
  "d_config_len (take 8 d) = d_config_len d" "d_type (take 8 d) = d_type d"
  by (simp_all add: d_num_vq_def d_feature_len_def d_config_len_def d_type_def)

lemma d_fields_retyped [simp]:
  "d_num_vq (d[0 := x]) = d_num_vq d" "d_feature_len (d[0 := x]) = d_feature_len d"
  "d_config_len (d[0 := x]) = d_config_len d"
  by (simp_all add: d_num_vq_def d_feature_len_def d_config_len_def)

lemma desc_size_cong:
  "mic_desc_size (take 8 d) = mic_desc_size d" "mic_total_desc_size (take 8 d) = mic_total_desc_size d"
  "mic_aligned_desc_size (take 8 d) = mic_aligned_desc_size d"
  "mic_desc_size (d[0 := x]) = mic_desc_size d" "mic_total_desc_size (d[0 := x]) = mic_total_desc_size d"
  "mic_aligned_desc_size (d[0 := x]) = mic_aligned_desc_size d"
  by (simp_all add: mic_desc_size_def mic_total_desc_size_def mic_aligned_desc_size_def)

lemma mic_align_ge: "0 < x \<Longrightarrow> a \<le> mic_align a x"
  unfolding mic_align_def using div_mult_mod_eq [of "a + x - 1" x] mod_less_divisor [of x "a + x - 1"] by linarith

lemma desc_size_le: "mic_desc_size d \<le> mic_aligned_desc_size d"
  "8 + d_num_vq d * 24 \<le> mic_desc_size d" "8 \<le> mic_desc_size d"
  "mic_aligned_desc_size d + 16 = mic_total_desc_size d"
  by (simp_all add: mic_aligned_desc_size_def mic_align_ge mic_total_desc_size_def sizeof_ctrl_def)
    (simp_all add: mic_desc_size_def sizeof_desc_def sizeof_vqconfig_def)

lemma slot_limit_eq:
  assumes "mic_total_desc_size d \<le> MIC_DP_SIZE"
  shows "slot_limit d = MIC_DP_SIZE - mic_total_desc_size d"
proof -
  have "slot_limit d = unat (of_nat (MIC_DP_SIZE - mic_total_desc_size d) :: u32)"
    using assms by (simp add: slot_limit_def)
  also have "\<dots> = MIC_DP_SIZE - mic_total_desc_size d"
    by (simp add: MIC_DP_SIZE_def unat_of_nat take_bit_nat_eq_self)
  finally show ?thesis .
qed

definition page_ok :: "mic_device \<Rightarrow> bool" where
  "page_ok mdev \<longleftrightarrow> length (dp mdev) = MIC_DP_SIZE"

lemma find_slot_ok:
  assumes "page_ok mdev" and "limit + 16 \<le> MIC_DP_SIZE"
  shows "ok (find_slot mdev limit i) (\<lambda>r. case r of None \<Rightarrow> True
    | Some off \<Rightarrow> i \<le> off \<and> off < limit \<and> dp mdev ! off \<in> {0, -1})"
  using assms
proof (induction mdev limit i rule: find_slot.induct)
  case (1 mdev limit i)
  show ?case
  proof (cases "i < limit")
    case False
    then show ?thesis by (subst find_slot.simps) simp
  next
    case True
    define d where "d = take 8 (drop i (dp mdev))"
    have d: "desc_at mdev i = Some d" "d_type d = dp mdev ! i"
      using True 1(2,3) by (simp_all add: desc_at_def buf_read_def sizeof_desc_def d_def page_ok_def d_type_def)
    show ?thesis
    proof (cases "d_type d = 0 \<or> d_type d = -1")
      case True
      then show ?thesis using \<open>i < limit\<close> d by (subst find_slot.simps) auto
    next
      case False
      note IH = 1(1) [OF True d(1) False 1(2,3)]
      show ?thesis
        using True d(1) False IH by (subst find_slot.simps) (auto elim!: ok_mono split: option.splits)
    qed
  qed
qed

text \<open>The size of ring \<open>i\<close> in a descriptor image.\<close>

definition d_ring_num :: "byte list \<Rightarrow> nat \<Rightarrow> nat" where
  "d_ring_num b i = unat (le16_at b (mic_vq_config 0 i + 16))"

lemma le16_at_take: "k + 2 \<le> length b \<Longrightarrow> le16_at (take 2 (drop k b)) 0 = le16_at b k"
  by (simp add: le16_at_def)

lemma vq_nums_ok_ok:
  "8 + (i + n) * 24 \<le> length b \<Longrightarrow>
   ok (vq_nums_ok b i n) (\<lambda>r. r = (\<forall>j. i \<le> j \<longrightarrow> j < i + n \<longrightarrow> d_ring_num b j \<le> MIC_MAX_VRING_ENTRIES))"
proof (induction n arbitrary: i)
  case 0
  then show ?case by simp
next
  case (Suc n)
  define k where "k = mic_vq_config 0 i + 16"
  have k: "k + 2 \<le> length b" using Suc.prems by (simp add: k_def mic_vq_config_def sizeof_desc_def sizeof_vqconfig_def)
  then have read: "buf_read b k 2 = Some (take 2 (drop k b))" "unat (le16_at (take 2 (drop k b)) 0) = d_ring_num b i"
    by (simp_all add: buf_read_def le16_at_take d_ring_num_def k_def)
  have IH: "ok (vq_nums_ok b (Suc i) n) (\<lambda>r. r = (\<forall>j. Suc i \<le> j \<longrightarrow> j < Suc i + n \<longrightarrow> d_ring_num b j \<le> MIC_MAX_VRING_ENTRIES))"
    by (rule Suc.IH) (use Suc.prems in simp)
  have split: "(\<forall>j. i \<le> j \<longrightarrow> j < i + Suc n \<longrightarrow> P j) \<longleftrightarrow> P i \<and> (\<forall>j. Suc i \<le> j \<longrightarrow> j < Suc i + n \<longrightarrow> P j)" for P
  proof (intro iffI conjI allI impI)
    fix j assume "P i \<and> (\<forall>j. Suc i \<le> j \<longrightarrow> j < Suc i + n \<longrightarrow> P j)" "i \<le> j" "j < i + Suc n"
    then show "P j" by (cases "j = i") auto
  qed auto
  show ?case
    unfolding split [where P = "\<lambda>j. d_ring_num b j \<le> MIC_MAX_VRING_ENTRIES"]
    using read IH by (simp add: k_def [symmetric])
qed

text \<open>What a stored entry satisfies: a free slot in the page, within it, everything else untouched.\<close>

definition entry_stored :: "byte list \<Rightarrow> byte \<Rightarrow> nat \<Rightarrow> mic_device \<Rightarrow> mic_device \<Rightarrow> bool" where
  "entry_stored img typ off mdev mdev' \<longleftrightarrow>
     length img = mic_desc_size img \<and> d_type img = 0 \<and> sizeof_bootparam \<le> off \<and>
     off + mic_total_desc_size img \<le> MIC_DP_SIZE \<and> dp mdev ! off \<in> {0, -1} \<and>
     d_num_vq img \<le> MIC_MAX_VRINGS \<and> (\<forall>j < d_num_vq img. d_ring_num img j \<le> MIC_MAX_VRING_ENTRIES) \<and>
     mdev' = mdev\<lparr>dp := overwrite off img (dp mdev)\<rparr>"

lemma dp_entry_store_ok:
  assumes page: "page_ok mdev" and len: "length dd_config = mic_desc_size dd_config"
    and dd: "dd_ok (take 8 dd_config)"
  shows "ok (dp_entry_store (take 8 dd_config) dd_config mdev) (\<lambda>(r, e, mdev').
    (case e of None \<Rightarrow> r = - EINVAL \<and> mdev' = mdev
     | Some (typ, off) \<Rightarrow> r = 0 \<and> typ = d_type dd_config \<and> entry_stored (dd_config[0 := 0]) typ off mdev mdev'))"
proof -
  define b where "b = dd_config"
  define nums where "nums = (\<forall>j < d_num_vq b. d_ring_num b j \<le> MIC_MAX_VRING_ENTRIES)"
  have small: "mic_total_desc_size b \<le> 272" "d_num_vq b \<le> MIC_MAX_VRINGS"
    using dd desc_size_le(4) [of b] by (simp_all add: dd_ok_def desc_size_cong MIC_MAX_DESC_BLK_SIZE_def b_def)
  have big: "24 \<le> mic_total_desc_size b" using desc_size_le [of b] by linarith
  have "ok (vq_nums_ok b 0 (d_num_vq b)) (\<lambda>r. r = nums)"
    using vq_nums_ok_ok [of 0 "d_num_vq b" b] desc_size_le(2) [of b] len by (simp add: nums_def b_def)
  then have vq: "vq_nums_ok b 0 (d_num_vq b) = Some nums" by (auto elim: okE)
  define limit where "limit = MIC_DP_SIZE - mic_total_desc_size b"
  have limit: "slot_limit b = limit" "limit + 16 \<le> MIC_DP_SIZE" "limit + mic_total_desc_size b = MIC_DP_SIZE"
    using small big by (simp_all add: limit_def slot_limit_eq MIC_DP_SIZE_def)
  obtain slot where slot: "find_slot mdev limit sizeof_bootparam = Some slot" "case slot of None \<Rightarrow> True
    | Some off \<Rightarrow> sizeof_bootparam \<le> off \<and> off < limit \<and> dp mdev ! off \<in> {0, -1}"
    using find_slot_ok [OF page limit(2), of sizeof_bootparam] by (auto elim: okE)
  have "d_ring_num (b[0 := x]) j = d_ring_num b j" for x j
    by (simp add: d_ring_num_def le16_at_def mic_vq_config_def sizeof_desc_def)
  then have nums': "nums \<longleftrightarrow> (\<forall>j < d_num_vq (b[0 := 0]). d_ring_num (b[0 := 0]) j \<le> MIC_MAX_VRING_ENTRIES)"
    by (simp add: nums_def)
  have img: "buf_read (b[0 := 0]) 0 (mic_desc_size b) = Some (b[0 := 0])" "0 < mic_desc_size b"
    using len desc_size_le(3) [of b] by (simp_all add: buf_read_def b_def)
  show ?thesis
  proof (cases "nums \<and> slot \<noteq> None")
    case False
    then show ?thesis using vq slot limit by (auto simp: dp_entry_store_def b_def [symmetric])
  next
    case True
    then obtain off where off: "slot = Some off" "sizeof_bootparam \<le> off" "off < limit" "dp mdev ! off \<in> {0, -1}"
      using slot by auto
    have fits: "off + mic_total_desc_size b \<le> MIC_DP_SIZE" using off(3) limit(3) by simp
    have "off + length b \<le> length (dp mdev)"
      using fits desc_size_le [of b] len page by (simp add: b_def page_ok_def)
    then show ?thesis
      using True vq slot off img limit fits small len nums'
      by (simp add: dp_entry_store_def b_def [symmetric] desc_size_cong dp_put_def buf_write_overwrite
          entry_stored_def d_type_def)
  qed
qed

lemma copy_dp_entry_patched_ok:
  assumes page: "page_ok mdev"
  shows "ok (mic_copy_dp_entry_patched argp mdev w) (\<lambda>(r, e, mdev', w'). klive w' = klive w \<and> knext w \<le> knext w' \<and>
    uout w' = uout w \<and> xcalls w' = xcalls w \<and> kfail w' = kfail w \<and>
    (case e of None \<Rightarrow> r < 0 \<and> mdev' = mdev
     | Some (typ, off) \<Rightarrow> r = 0 \<and> (\<exists>img. entry_stored img typ off mdev mdev')))"
proof (cases "ufetch (umem w (utime w)) argp sizeof_desc")
  case None
  then show ?thesis by (simp add: mic_copy_dp_entry_patched_def copy_from_user_def)
next
  case (Some ddh)
  define w1 where "w1 = w\<lparr>utime := Suc (utime w)\<rparr>"
  show ?thesis
  proof (cases "\<not> dd_ok ddh \<or> kfail w1 (knext w1)")
    case True
    then show ?thesis using Some
      by (auto simp: mic_copy_dp_entry_patched_def copy_from_user_def w1_def kmalloc_def Let_def)
  next
    case False
    define w2 where "w2 = w1\<lparr>knext := Suc (knext w1), klive := knext w1 # klive w1\<rparr>"
    define w3 where "w3 = w2\<lparr>utime := Suc (utime w2)\<rparr>"
    have free: "kfree (knext w1) w3 = Some (w3\<lparr>klive := klive w\<rparr>)"
      by (simp add: kfree_def w3_def w2_def w1_def)
    have run: "mic_copy_dp_entry_patched argp mdev w =
      (case ufetch (umem w2 (utime w2)) argp (mic_desc_size ddh) of
         None \<Rightarrow> Some (- EFAULT, None, mdev, w3\<lparr>klive := klive w\<rparr>)
       | Some b \<Rightarrow> if ddh \<noteq> take sizeof_desc b then Some (- EFAULT, None, mdev, w3\<lparr>klive := klive w\<rparr>)
           else do {
             (ret, entry, mdev) \<leftarrow> dp_entry_store ddh b mdev;
             Some (ret, entry, mdev, w3\<lparr>klive := klive w\<rparr>)
           })"
      using Some False free
      by (auto simp: mic_copy_dp_entry_patched_def copy_from_user_def kmalloc_def Let_def
          w1_def [symmetric] w2_def [symmetric] w3_def [symmetric] split: option.splits)
    have w3: "knext w \<le> knext w3" "uout w3 = uout w" "xcalls w3 = xcalls w" "kfail w3 = kfail w"
      by (simp_all add: w3_def w2_def w1_def)
    show ?thesis
    proof (cases "ufetch (umem w2 (utime w2)) argp (mic_desc_size ddh)")
      case None
      then show ?thesis using w3 by (simp add: run)
    next
      case b: (Some b)
      show ?thesis
      proof (cases "ddh = take 8 b")
        case False
        then show ?thesis using w3 b by (simp add: run sizeof_desc_def)
      next
        case True
        then have "length b = mic_desc_size b" using length_ufetch [OF b] by (simp add: desc_size_cong)
        from dp_entry_store_ok [OF page this] False True show ?thesis
          using w3 b by (fastforce simp: run sizeof_desc_def elim!: okE split: option.splits)
      qed
    qed
  qed
qed

text \<open>
  C14: The patched descriptor copy, for every race and every content of the page: it never
  faults, releases its buffer, and either changes nothing or stores, in a free slot between
  the boot parameters and the end of the page, a complete entry with room for its control
  block, at most four rings of at most 128 entries, and type 0, invisible to the card.
\<close>

theorem mic_dp_entry_patched_safe:
  assumes "length (dp mdev) = MIC_DP_SIZE"
  shows "ok (mic_copy_dp_entry_patched argp mdev w) (\<lambda>(r, e, mdev', w'). klive w' = klive w \<and>
    (case e of None \<Rightarrow> r < 0 \<and> mdev' = mdev
     | Some (typ, off) \<Rightarrow> r = 0 \<and> (\<exists>img. length img = mic_desc_size img \<and> d_type img = 0 \<and>
         sizeof_bootparam \<le> off \<and> off + mic_total_desc_size img \<le> MIC_DP_SIZE \<and> dp mdev ! off \<in> {0, -1} \<and>
         d_num_vq img \<le> MIC_MAX_VRINGS \<and> (\<forall>j < d_num_vq img. d_ring_num img j \<le> MIC_MAX_VRING_ENTRIES) \<and>
         mdev' = mdev\<lparr>dp := overwrite off img (dp mdev)\<rparr>)))"
  by (rule ok_mono [OF copy_dp_entry_patched_ok])
    (use assms in \<open>auto simp: page_ok_def entry_stored_def split: option.splits\<close>)

text \<open>
  C15: The original copy, when user space enlarges the descriptor between the two fetches: the
  entry is stored with the size of the second descriptor from a buffer of the first one's,
  a read past the end of the buffer.
\<close>

theorem mic_dp_entry_race:
  assumes page: "length (dp mdev) = MIC_DP_SIZE" and free: "dp mdev ! sizeof_bootparam = 0"
    and first: "ufetch (umem w (utime w)) argp sizeof_desc = Some ddh" "dd_ok ddh" "d_num_vq ddh = 0"
    and mem: "\<not> kfail w (knext w)"
    and second: "ufetch (umem w (Suc (utime w))) argp (mic_desc_size ddh) = Some b"
    and grown: "mic_desc_size ddh < mic_desc_size b" "mic_total_desc_size b + sizeof_bootparam < MIC_DP_SIZE"
  shows "mic_copy_dp_entry argp mdev w = None"
proof -
  have len: "length b = mic_desc_size ddh" using second by (rule length_ufetch)
  have limit: "slot_limit b = MIC_DP_SIZE - mic_total_desc_size b"
    by (rule slot_limit_eq) (use grown(2) in simp)
  have "find_slot mdev (slot_limit b) sizeof_bootparam = Some (Some sizeof_bootparam)"
    using page free grown(2)
    by (subst find_slot.simps)
      (auto simp: limit desc_at_def buf_read_def sizeof_bootparam_def sizeof_desc_def MIC_DP_SIZE_def d_type_def)
  moreover have "buf_read (b[0 := 0]) 0 (mic_desc_size b) = None"
    using grown(1) len by (simp add: buf_read_def)
  ultimately have "dp_entry_store ddh b mdev = None"
    using first(3) by (simp add: dp_entry_store_def desc_size_cong Let_def)
  then show ?thesis
    using first(1,2) mem second
    by (simp add: mic_copy_dp_entry_def copy_from_user_def kmalloc_def Let_def)
qed

section \<open>Rings are added and given back\<close>

lemma le64_roundtrip: "le64_at (le64_bytes v) 0 = v"
proof -
  have lo: "le32_at (le64_bytes v) 0 = ucast v"
    using le32_roundtrip [of "[]" "ucast v"] by (simp add: le64_bytes_def)
  have hi: "le32_at (le64_bytes v) 4 = ucast (drop_bit 32 v)"
    using le32_roundtrip [of "le32_bytes (ucast v)" "ucast (drop_bit 32 v)" "[]"] by (simp add: le64_bytes_def)
  have "ucast (ucast v :: u32) + push_bit 32 (ucast (ucast (drop_bit 32 v) :: u32)) = (v :: u64)"
  proof -
    have 1: "(ucast (ucast v :: u32) :: u64) = take_bit 32 v"
      by (rule bit_word_eqI) (auto simp: bit_simps)
    have 2: "(push_bit 32 (ucast (ucast (drop_bit 32 v) :: u32)) :: u64) = push_bit 32 (drop_bit 32 v)"
      by (rule bit_word_eqI) (auto simp: bit_simps)
    show ?thesis unfolding 1 2 using bits_ident [of 32 v] by (simp only: add.commute)
  qed
  then show ?thesis by (simp add: le64_at_def lo hi)
qed

lemma length_le64_bytes [simp]: "length (le64_bytes v) = 8"
  by (simp add: le64_bytes_def)

text \<open>What a ring owns: its memory, its DMA buffer, the mapping noted in the page and its buffer's.\<close>

definition buf_objs :: "mic_vringh \<Rightarrow> nat list" where
  "buf_objs r = (case buf r of None \<Rightarrow> [] | Some b \<Rightarrow> [b])"

definition da_objs :: "mic_vringh \<Rightarrow> u64 list" where
  "da_objs r = (case buf_da r of None \<Rightarrow> [] | Some a \<Rightarrow> [a])"

definition page_addr :: "mic_device \<Rightarrow> nat \<Rightarrow> nat \<Rightarrow> u64" where
  "page_addr mdev off j = le64_at (take 8 (drop (mic_vq_config off j) (dp mdev))) 0"

text \<open>
  What adding rings leaves alone: all of the card but the mappings and the ring addresses in
  the entry at \<open>off\<close> with \<open>n\<close> rings.
\<close>

definition page_frame :: "nat \<Rightarrow> nat \<Rightarrow> mic_device \<Rightarrow> mic_device \<Rightarrow> bool" where
  "page_frame off n mdev mdev' \<longleftrightarrow> length (dp mdev') = length (dp mdev) \<and> mic_mutex mdev' = mic_mutex mdev \<and>
     vdev_list mdev' = vdev_list mdev \<and> doorbells mdev' = doorbells mdev \<and> irqs mdev' = irqs mdev \<and>
     (\<forall>k. k < off + 8 \<or> off + 8 + 24 * n \<le> k \<longrightarrow> dp mdev' ! k = dp mdev ! k)"

lemma page_frame_refl [simp]: "page_frame off n mdev mdev"
  by (simp add: page_frame_def)

lemma page_frame_trans: "page_frame off n a b \<Longrightarrow> page_frame off n b c \<Longrightarrow> page_frame off n a c"
  by (simp add: page_frame_def)

lemma page_frame_desc:
  assumes "page_frame off n mdev mdev'" and "desc_at mdev off = Some d"
  shows "desc_at mdev' off = Some d"
proof -
  have "take 8 (drop off (dp mdev')) = take 8 (drop off (dp mdev))"
    using assms(1) by (intro slice_eqI) (auto simp: page_frame_def)
  then show ?thesis using assms by (auto simp: desc_at_def buf_read_def sizeof_desc_def page_frame_def split: if_splits)
qed

definition same_vdev :: "mic_vdev \<Rightarrow> mic_vdev \<Rightarrow> bool" where
  "same_vdev v v' \<longleftrightarrow> dd v' = dd v \<and> dc v' = dc v \<and> vid v' = vid v \<and> virtio_id v' = virtio_id v \<and>
     length (mvr v') = length (mvr v)"

text \<open>An entry in the page whose rings a device can hold.\<close>

definition entry_at :: "mic_device \<Rightarrow> nat \<Rightarrow> byte list \<Rightarrow> mic_vdev \<Rightarrow> bool" where
  "entry_at mdev off d mvdev \<longleftrightarrow> desc_at mdev off = Some d \<and> length (mvr mvdev) = MIC_MAX_VRINGS \<and>
     d_num_vq d \<le> MIC_MAX_VRINGS \<and> off + mic_total_desc_size d \<le> length (dp mdev) \<and> dd mvdev = off"

lemma entry_at_frame:
  "entry_at mdev off d mvdev \<Longrightarrow> page_frame off n mdev mdev' \<Longrightarrow> same_vdev mvdev mvdev' \<Longrightarrow> entry_at mdev' off d mvdev'"
  by (auto simp: entry_at_def same_vdev_def page_frame_desc) (simp add: page_frame_def)

lemma entry_room:
  assumes "entry_at mdev off d mvdev" and "i < d_num_vq d"
  shows "mic_vq_config off i + 18 \<le> length (dp mdev)" "off + 8 \<le> mic_vq_config off i"
    "mic_vq_config off i + 24 \<le> off + 8 + 24 * d_num_vq d" "mic_vq_features off d + 4 \<le> length (dp mdev)"
    "i < length (mvr mvdev)"
proof -
  have "off + 8 + d_num_vq d * 24 + 16 \<le> length (dp mdev)"
    using assms(1) desc_size_le [of d] unfolding entry_at_def by linarith
  moreover have "Suc i * 24 \<le> d_num_vq d * 24" using assms(2) by (intro mult_le_mono1) simp
  ultimately show "mic_vq_config off i + 18 \<le> length (dp mdev)" "off + 8 \<le> mic_vq_config off i"
    "mic_vq_config off i + 24 \<le> off + 8 + 24 * d_num_vq d" "mic_vq_features off d + 4 \<le> length (dp mdev)"
    unfolding mic_vq_features_def mic_vq_config_def sizeof_desc_def sizeof_vqconfig_def by simp_all
  show "i < length (mvr mvdev)" using assms by (simp add: entry_at_def)
qed

text \<open>One ring: on success it owns what is new; a failure in the middle may lose its memory.\<close>

lemma add_ring_ok:
  assumes entry: "entry_at mdev off d mvdev" and i: "i < d_num_vq d"
  shows "ok (add_ring E i mvdev mdev w) (\<lambda>(r, mvdev', mdev', w'). same_vdev mvdev mvdev' \<and>
    page_frame off (d_num_vq d) mdev mdev' \<and> (\<forall>j. j \<noteq> i \<longrightarrow> mvr mvdev' ! j = mvr mvdev ! j) \<and>
    (\<forall>j. j \<noteq> i \<longrightarrow> page_addr mdev' off j = page_addr mdev off j) \<and> uout w' = uout w \<and>
    (case r of
       Inl e \<Rightarrow> e \<noteq> 0 \<and> (\<exists>L D. klive w' = L @ klive w \<and> dmaps mdev' = D @ dmaps mdev)
     | Inr _ \<Rightarrow> klive w' = buf_objs (mvr mvdev' ! i) @ vr_va (mvr mvdev' ! i) # klive w \<and>
         dmaps mdev' = da_objs (mvr mvdev' ! i) @ page_addr mdev' off i # dmaps mdev))"
proof -
  note room = entry_room [OF entry i]
  define k where "k = mic_vq_config off i"
  have dd: "dd mvdev = off" and d: "desc_at mdev off = Some d" using entry by (simp_all add: entry_at_def)
  define num where "num = le16_at (take 2 (drop (k + 16) (dp mdev))) 0"
  have read: "buf_read (dp mdev) (k + 16) 2 = Some (take 2 (drop (k + 16) (dp mdev)))"
    using room(1) by (simp add: buf_read_def k_def)
  define mdevA where "mdevA a = mdev\<lparr>dmaps := a # dmaps mdev, dp := overwrite k (le64_bytes a) (dp mdev)\<rparr>" for a
  have put: "dp_put k (le64_bytes a) (mdev\<lparr>dmaps := a # dmaps mdev\<rparr>) = Some (mdevA a)" for a
    using room(1) by (simp add: dp_put_def buf_write_overwrite k_def mdevA_def)
  have fr: "page_frame off (d_num_vq d) mdev (mdevA a)" for a
    using room(1-3) unfolding page_frame_def mdevA_def k_def
    by (auto simp: length_overwrite nth_overwrite)
  have dA: "desc_at (mdevA a) off = Some d" for a by (rule page_frame_desc [OF fr d])
  have lenA: "length (dp (mdevA a)) = length (dp mdev)" for a using fr [of a] by (simp add: page_frame_def)
  have readA: "buf_read (dp (mdevA a)) (mic_vq_features off d) 4 =
      Some (take 4 (drop (mic_vq_features off d) (dp (mdevA a))))" for a
    using room(4) by (simp add: buf_read_def lenA)
  have pa: "page_addr (mdevA a) off i = a" for a
    using slice_overwrite_same [of k "le64_bytes a" "dp mdev"] room(1)
    by (simp add: page_addr_def mdevA_def k_def [symmetric] le64_roundtrip)
  have pa': "j \<noteq> i \<Longrightarrow> page_addr (mdevA a) off j = page_addr mdev off j" for a j
  proof -
    assume "j \<noteq> i"
    then have "mic_vq_config off j + 8 \<le> k \<or> k + 8 \<le> mic_vq_config off j"
      unfolding k_def mic_vq_config_def sizeof_vqconfig_def by presburger
    then show ?thesis
      using room(1) by (simp add: page_addr_def mdevA_def slice_overwrite_other k_def)
  qed
  have dmA: "dmaps (mdevA a) = a # dmaps mdev" for a by (simp add: mdevA_def)
  have frD: "page_frame off (d_num_vq d) mdev m \<Longrightarrow> page_frame off (d_num_vq d) mdev (m\<lparr>dmaps := x\<rparr>)" for m x
    by (simp add: page_frame_def)
  have paD: "page_addr (m\<lparr>dmaps := x\<rparr>) off j = page_addr m off j" for m x j
    by (simp add: page_addr_def)
  show ?thesis
    using room(5) d read put dA readA pa pa' fr frD dmA
    by (auto simp: add_ring_def buf_get_def dd k_def [symmetric] kzalloc_def kmalloc_def mic_map_single_def Let_def
        kfree_def same_vdev_def buf_objs_def da_objs_def paD num_def [symmetric] mdevA_def [symmetric]
        split: option.splits)
qed

text \<open>\<open>held\<close>: the rings \<open>js\<close> own their objects and mappings, next to \<open>K\<close> and \<open>D\<close>.\<close>

definition vas :: "nat list \<Rightarrow> mic_vdev \<Rightarrow> nat list" where
  "vas js v = map (\<lambda>j. vr_va (mvr v ! j)) js"

definition bufs :: "nat list \<Rightarrow> mic_vdev \<Rightarrow> nat list" where
  "bufs js v = concat (map (\<lambda>j. buf_objs (mvr v ! j)) js)"

definition das :: "nat list \<Rightarrow> mic_vdev \<Rightarrow> u64 list" where
  "das js v = concat (map (\<lambda>j. da_objs (mvr v ! j)) js)"

definition pas :: "nat \<Rightarrow> nat list \<Rightarrow> mic_device \<Rightarrow> u64 list" where
  "pas off js mdev = map (page_addr mdev off) js"

definition held :: "nat \<Rightarrow> nat list \<Rightarrow> mic_vdev \<Rightarrow> mic_device \<Rightarrow> 'z world_scheme \<Rightarrow> nat multiset \<Rightarrow> u64 multiset \<Rightarrow> bool" where
  "held off js v mdev w K D \<longleftrightarrow>
     mset (klive w) = K + mset (bufs js v) + mset (vas js v) \<and>
     mset (dmaps mdev) = D + mset (das js v) + mset (pas off js mdev)"

lemma ring_lists_Suc:
  "bufs [0..<Suc i] v = bufs [0..<i] v @ buf_objs (mvr v ! i)" "vas [0..<Suc i] v = vas [0..<i] v @ [vr_va (mvr v ! i)]"
  "das [0..<Suc i] v = das [0..<i] v @ da_objs (mvr v ! i)"
  "pas off [0..<Suc i] m = pas off [0..<i] m @ [page_addr m off i]"
  by (simp_all add: bufs_def vas_def das_def pas_def)

lemma add_rings_ok:
  "entry_at mdev off d mvdev \<Longrightarrow> i \<le> d_num_vq d \<Longrightarrow> held off [0..<i] mvdev mdev w K D \<Longrightarrow>
   ok (add_rings E i mvdev mdev w) (\<lambda>(r, mvdev', mdev', w'). same_vdev mvdev mvdev' \<and>
     page_frame off (d_num_vq d) mdev mdev' \<and> uout w' = uout w \<and>
     (case r of
        Inl (e, n) \<Rightarrow> e \<noteq> 0 \<and> n < d_num_vq d \<and> (\<exists>K' D'. K \<subseteq># K' \<and> D \<subseteq># D' \<and> held off [0..<n] mvdev' mdev' w' K' D')
      | Inr _ \<Rightarrow> held off [0..<d_num_vq d] mvdev' mdev' w' K D))"
proof (induction E i mvdev mdev w rule: add_rings.induct)
  case (1 E i mvdev mdev w)
  have d: "desc_at mdev (dd mvdev) = Some d" and dd: "dd mvdev = off" using 1(2) by (simp_all add: entry_at_def)
  show ?case
  proof (cases "i < d_num_vq d")
    case False
    then have "i = d_num_vq d" using 1(3) by simp
    then show ?thesis using 1(4) d by (subst add_rings.simps) (simp add: same_vdev_def)
  next
    case True
    obtain r v1 m1 w1 where step: "add_ring E i mvdev mdev w = Some (r, v1, m1, w1)" and same: "same_vdev mvdev v1"
      and fr: "page_frame off (d_num_vq d) mdev m1" and oth: "\<forall>j. j \<noteq> i \<longrightarrow> mvr v1 ! j = mvr mvdev ! j"
        "\<forall>j. j \<noteq> i \<longrightarrow> page_addr m1 off j = page_addr mdev off j" and out: "uout w1 = uout w"
      and own: "case r of
         Inl e \<Rightarrow> e \<noteq> 0 \<and> (\<exists>L D. klive w1 = L @ klive w \<and> dmaps m1 = D @ dmaps mdev)
       | Inr _ \<Rightarrow> klive w1 = buf_objs (mvr v1 ! i) @ vr_va (mvr v1 ! i) # klive w \<and>
           dmaps m1 = da_objs (mvr v1 ! i) @ page_addr m1 off i # dmaps mdev"
      using add_ring_ok [OF 1(2) True, of E w] by (auto elim!: okE)
    have lists: "bufs [0..<i] v1 = bufs [0..<i] mvdev" "vas [0..<i] v1 = vas [0..<i] mvdev"
      "das [0..<i] v1 = das [0..<i] mvdev" "pas off [0..<i] m1 = pas off [0..<i] mdev"
      using oth unfolding bufs_def vas_def das_def pas_def by (auto intro!: arg_cong [where f = concat])
    show ?thesis
    proof (cases r)
      case (Inl e)
      then obtain L M where LM: "e \<noteq> 0" "klive w1 = L @ klive w" "dmaps m1 = M @ dmaps mdev" using own by auto
      then have "held off [0..<i] v1 m1 w1 (mset L + K) (mset M + D)"
        using 1(4) lists by (simp add: held_def)
      then have "\<exists>K' D'. K \<subseteq># K' \<and> D \<subseteq># D' \<and> held off [0..<i] v1 m1 w1 K' D'"
        by (intro exI conjI) simp_all
      then show ?thesis
        using d step Inl True same fr out LM(1) by (subst add_rings.simps) simp
    next
      case (Inr u)
      have "held off [0..<Suc i] v1 m1 w1 K D"
        using own Inr 1(4) lists by (simp only: held_def ring_lists_Suc) simp
      from 1(1) [OF d True step refl refl refl Inr entry_at_frame [OF 1(2) fr same] _ this] True
      have "ok (add_rings E (Suc i) v1 m1 w1) (\<lambda>(r, mvdev', mdev', w'). same_vdev v1 mvdev' \<and>
         page_frame off (d_num_vq d) m1 mdev' \<and> uout w' = uout w1 \<and>
         (case r of
            Inl (e, n) \<Rightarrow> e \<noteq> 0 \<and> n < d_num_vq d \<and> (\<exists>K' D'. K \<subseteq># K' \<and> D \<subseteq># D' \<and> held off [0..<n] mvdev' mdev' w' K' D')
          | Inr _ \<Rightarrow> held off [0..<d_num_vq d] mvdev' mdev' w' K D))"
        by simp
      then show ?thesis
        using d step Inr True same out
        by (subst add_rings.simps) (auto simp: same_vdev_def intro: page_frame_trans [OF fr] elim!: ok_mono)
    qed
  qed
qed

lemma unmap_mset:
  assumes "mset (dmaps mdev) = D + {#a#}"
  shows "ok (mic_unmap_single a mdev) (\<lambda>m. mset (dmaps m) = D \<and> m = mdev\<lparr>dmaps := dmaps m\<rparr>)"
proof -
  have "a \<in># mset (dmaps mdev)" unfolding assms by simp
  then have "a \<in> set (dmaps mdev)" by (simp only: in_multiset_in_set)
  then show ?thesis using assms by (simp add: mic_unmap_single_def)
qed

lemma page_addr_dmaps [simp]: "page_addr (m\<lparr>dmaps := x\<rparr>) off j = page_addr m off j"
  by (simp add: page_addr_def)

lemma entry_at_dmaps [simp]: "entry_at (m\<lparr>dmaps := x\<rparr>) off d v = entry_at m off d v"
  by (simp add: entry_at_def desc_at_def)

lemma undo_rings_ok:
  "entry_at mdev off d v \<Longrightarrow> set js \<subseteq> {..<d_num_vq d} \<Longrightarrow>
   mset (klive w) = K + mset (vas js v) \<Longrightarrow> mset (dmaps mdev) = D + mset (pas off js mdev) \<Longrightarrow>
   ok (undo_rings off js v mdev w) (\<lambda>(mdev', w'). mset (klive w') = K \<and> mset (dmaps mdev') = D \<and>
     mdev' = mdev\<lparr>dmaps := dmaps mdev'\<rparr> \<and> w' = w\<lparr>klive := klive w'\<rparr>)"
proof (induction js arbitrary: mdev w)
  case Nil
  then show ?case by (simp add: vas_def pas_def)
next
  case (Cons j js)
  have j: "j < d_num_vq d" using Cons.prems(2) by simp
  note room = entry_room [OF Cons.prems(1) j]
  have read: "buf_read (dp mdev) (mic_vq_config off j) 8 = Some (take 8 (drop (mic_vq_config off j) (dp mdev)))"
    using room(1) by (simp add: buf_read_def)
  obtain m1 where m1: "mic_unmap_single (page_addr mdev off j) mdev = Some m1"
    "mset (dmaps m1) = D + mset (pas off js mdev)" "m1 = mdev\<lparr>dmaps := dmaps m1\<rparr>"
    using unmap_mset [of mdev "D + mset (pas off js mdev)"] Cons.prems(4) by (auto simp: pas_def elim!: okE)
  obtain w1 where w1: "kfree (vr_va (mvr v ! j)) w = Some w1" "mset (klive w1) = K + mset (vas js v)"
    "w1 = w\<lparr>klive := klive w1\<rparr>"
    using kfree_mset [of w "K + mset (vas js v)" "vr_va (mvr v ! j)"] Cons.prems(3) by (auto simp: vas_def elim!: okE)
  have "pas off js m1 = pas off js mdev" by (subst m1(3)) (simp add: pas_def)
  then have "mset (dmaps m1) = D + mset (pas off js m1)" using m1(2) by simp
  moreover have "entry_at m1 off d v" by (subst m1(3)) (simp add: Cons.prems(1))
  ultimately have "ok (undo_rings off js v m1 w1) (\<lambda>(mdev', w'). mset (klive w') = K \<and> mset (dmaps mdev') = D \<and>
     mdev' = m1\<lparr>dmaps := dmaps mdev'\<rparr> \<and> w' = w1\<lparr>klive := klive w'\<rparr>)"
    using Cons.IH [of m1 w1] Cons.prems(2) w1(2) by simp
  moreover have "m1\<lparr>dmaps := x\<rparr> = mdev\<lparr>dmaps := x\<rparr>" "w1\<lparr>klive := y\<rparr> = w\<lparr>klive := y\<rparr>" for x y
    by (subst m1(3), simp, subst w1(3), simp)
  ultimately show ?case
    using room(5) read m1(1) w1(1) by (simp add: buf_get_def page_addr_def)
qed

section \<open>Adding and removing a device\<close>

lemma dp_put_eq: "dp_put off bs mdev = (if off + length bs \<le> length (dp mdev)
  then Some (mdev\<lparr>dp := overwrite off bs (dp mdev)\<rparr>) else None)"
  by (simp add: dp_put_def buf_write_overwrite)

text \<open>Stores that leave the entry of \<open>n\<close> bytes at \<open>off\<close> and all but the page alone.\<close>

definition entry_frame :: "nat \<Rightarrow> nat \<Rightarrow> mic_device \<Rightarrow> mic_device \<Rightarrow> bool" where
  "entry_frame off n m m' \<longleftrightarrow> length (dp m') = length (dp m) \<and> dmaps m' = dmaps m \<and> vdev_list m' = vdev_list m \<and>
     irqs m' = irqs m \<and> doorbells m' = doorbells m \<and> mic_mutex m' = mic_mutex m \<and>
     (\<forall>k. off \<le> k \<longrightarrow> k < off + n \<longrightarrow> dp m' ! k = dp m ! k)"

lemma entry_frame_refl [simp]: "entry_frame off n m m"
  by (simp add: entry_frame_def)

lemma entry_frame_trans: "entry_frame off n a b \<Longrightarrow> entry_frame off n b c \<Longrightarrow> entry_frame off n a c"
  by (simp add: entry_frame_def)

lemma entry_frame_entry:
  assumes "entry_frame off (mic_desc_size d) m m'" and "entry_at m off d v"
  shows "entry_at m' off d v"
proof -
  have "take 8 (drop off (dp m')) = take 8 (drop off (dp m))"
    using assms(1) desc_size_le(3) [of d] by (intro slice_eqI) (auto simp: entry_frame_def)
  then show ?thesis
    using assms by (auto simp: entry_at_def desc_at_def buf_read_def sizeof_desc_def entry_frame_def split: if_splits)
qed

lemma entry_frame_pas:
  assumes "entry_frame off (mic_desc_size d) m m'" and "set js \<subseteq> {..<d_num_vq d}"
  shows "pas off js m' = pas off js m"
proof -
  have "page_addr m' off j = page_addr m off j" if "j \<in> set js" for j
  proof -
    have "Suc j * 24 \<le> d_num_vq d * 24" using that assms(2) by (intro mult_le_mono1) auto
    then have "8 + j * 24 + 24 \<le> mic_desc_size d" using desc_size_le(2) [of d] by simp
    then have "take 8 (drop (mic_vq_config off j) (dp m')) = take 8 (drop (mic_vq_config off j) (dp m))"
      using assms(1)
      by (intro slice_eqI) (auto simp: entry_frame_def mic_vq_config_def sizeof_desc_def sizeof_vqconfig_def)
    then show ?thesis by (simp add: page_addr_def)
  qed
  then show ?thesis by (simp add: pas_def)
qed

text \<open>A store of one byte into the control block.\<close>

lemma ctrl_put:
  assumes "entry_at m off d v" and "8 \<le> i" and "i < 16"
  shows "ok (dp_put (off + mic_aligned_desc_size d + i) [x] m) (entry_frame off (mic_desc_size d) m)"
proof -
  have "off + mic_aligned_desc_size d + 16 \<le> length (dp m)"
    using assms(1) desc_size_le(4) [of d] by (simp add: entry_at_def)
  moreover have "mic_desc_size d \<le> mic_aligned_desc_size d" by (rule desc_size_le)
  ultimately show ?thesis
    using assms(2,3) by (auto simp: dp_put_eq entry_frame_def length_overwrite nth_overwrite)
qed

lemmas ctrl_fields = c_config_change_def c_guest_ack_def c_vdev_reset_def c_host_ack_def
  c_used_address_updated_def c_c2h_vdev_db_def c_h2c_vdev_db_def

lemma ctrl_put_then:
  assumes "entry_at m off d v" and "entry_frame off (mic_desc_size d) m0 m" and "8 \<le> i" and "i < 16"
    and "\<And>m'. entry_frame off (mic_desc_size d) m0 m' \<Longrightarrow> entry_at m' off d v \<Longrightarrow> ok (f m') Q"
  shows "ok (Option.bind (dp_put (off + mic_aligned_desc_size d + i) [x] m) f) Q"
  unfolding ok_bind
  by (rule ok_mono [OF ctrl_put [OF assms(1,3,4)]])
    (rule assms(5), erule entry_frame_trans [OF assms(2)], erule entry_frame_entry [OF _ assms(1)])

lemma mic_init_device_ctrl_ok:
  assumes "entry_at m off d v"
  shows "ok (mic_init_device_ctrl off v m) (\<lambda>(v', m'). v' = v\<lparr>dc := off + mic_aligned_desc_size d\<rparr> \<and>
    entry_frame off (mic_desc_size d) m m')"
proof -
  have d: "desc_at m off = Some d" using assms by (simp add: entry_at_def)
  show ?thesis
    unfolding mic_init_device_ctrl_def Let_def d Option.bind.bind_lunit
    by (rule ctrl_put_then [OF assms entry_frame_refl], simp add: ctrl_fields, simp add: ctrl_fields,
        (rule ctrl_put_then, assumption, assumption, simp add: ctrl_fields, simp add: ctrl_fields)+, simp)
qed

lemma entry_at_retyped:
  assumes "entry_at m off d v"
  shows "ok (dp_put off [x] m) (\<lambda>m'. entry_at m' off (d[0 := x]) v \<and> dp m' ! off = x \<and> page_frame off 0 (m\<lparr>dp := dp m'\<rparr>) m' \<and>
    length (dp m') = length (dp m) \<and> m' = m\<lparr>dp := dp m'\<rparr> \<and> (\<forall>js. set js \<subseteq> {..<d_num_vq d} \<longrightarrow> pas off js m' = pas off js m))"
proof -
  have len: "off + 8 + d_num_vq d * 24 + 16 \<le> length (dp m)"
    using assms desc_size_le [of d] unfolding entry_at_def by linarith
  define b where "b = overwrite off [x] (dp m)"
  have b: "length b = length (dp m)" "b ! off = x" "\<And>k. k \<noteq> off \<Longrightarrow> b ! k = dp m ! k"
    using len by (auto simp: b_def length_overwrite nth_overwrite)
  have "take 8 (drop off b) = (take 8 (drop off (dp m)))[0 := x]"
    using len b by (intro nth_equalityI) (auto simp: nth_list_update)
  then have "entry_at (m\<lparr>dp := b\<rparr>) off (d[0 := x]) v"
    using assms len b(1) by (auto simp: entry_at_def desc_at_def buf_read_def sizeof_desc_def desc_size_cong)
  moreover have "pas off js (m\<lparr>dp := b\<rparr>) = pas off js m" for js
  proof -
    have "take 8 (drop (mic_vq_config off j) b) = take 8 (drop (mic_vq_config off j) (dp m))" for j
      using b by (intro slice_eqI) (auto simp: mic_vq_config_def sizeof_desc_def)
    then show ?thesis by (simp add: pas_def page_addr_def)
  qed
  moreover have "dp_put off [x] m = Some (m\<lparr>dp := b\<rparr>)" using len by (simp add: dp_put_eq b_def)
  ultimately show ?thesis using b by simp
qed

text \<open>
  The outcome of adding a device: on success the device is on the list with its rings, its
  interrupt and its entry; on failure nothing refers to it and nothing was freed that was
  not its own.
\<close>

definition device_up :: "nat \<Rightarrow> byte list \<Rightarrow> mic_vdev \<Rightarrow> mic_device \<Rightarrow> 'z world_scheme \<Rightarrow> nat multiset \<Rightarrow> u64 multiset \<Rightarrow> bool" where
  "device_up off d v m w K D \<longleftrightarrow> entry_at m off d v \<and> dc v = off + mic_aligned_desc_size d \<and>
     sizeof_bootparam \<le> off \<and> held off [0..<d_num_vq d] v m w K D"

definition add_post ::
  "mic_vdev \<Rightarrow> mic_device \<Rightarrow> 'z world_scheme \<Rightarrow> int \<times> mic_vdev \<times> mic_device \<times> 'z world_scheme \<Rightarrow> bool" where
  "add_post v m w = (\<lambda>(r, v', m', w'). \<not> mic_mutex m' \<and> length (dp m') = length (dp m) \<and> vid v' = vid v \<and>
     length (mvr v') = length (mvr v) \<and>
     (if r = 0
      then vdev_list m' = vdev_list m @ [vid v] \<and> irqs m' = virtio_cookie v' # irqs m \<and>
        (\<exists>off d. device_up off d v' m' w' (mset (klive w)) (mset (dmaps m)))
      else vdev_list m' = vdev_list m \<and> irqs m' = irqs m \<and> doorbells m' = doorbells m \<and>
        mset (klive w) \<subseteq># mset (klive w') \<and> mset (dmaps m) \<subseteq># mset (dmaps m')))"

lemma undo_after:
  assumes "entry_at m off d v" and "held off [0..<n] v m w K D" and "n \<le> d_num_vq d"
  shows "ok (undo_rings off [0..<n] v m w) (\<lambda>(m', w'). mset (klive w') = K + mset (bufs [0..<n] v) \<and>
    mset (dmaps m') = D + mset (das [0..<n] v) \<and> m' = m\<lparr>dmaps := dmaps m'\<rparr> \<and> w' = w\<lparr>klive := klive w'\<rparr>)"
  by (rule undo_rings_ok [OF assms(1)]) (use assms(2,3) in \<open>auto simp: held_def\<close>)

lemma add_device_rings_ok:
  assumes entry: "entry_at m off d v" and boot: "sizeof_bootparam \<le> off" and dc: "dc v = off + mic_aligned_desc_size d"
  shows "ok (add_device_rings E ty off v m w) (add_post v m w)"
proof -
  have start: "held off [0..<0] v m w (mset (klive w)) (mset (dmaps m))"
    by (simp add: held_def bufs_def vas_def das_def pas_def)
  obtain r v1 m1 w1 where rings: "add_rings E 0 v m w = Some (r, v1, m1, w1)" and same: "same_vdev v v1"
    and fr: "page_frame off (d_num_vq d) m m1" and res: "case r of
      Inl (e, n) \<Rightarrow> e \<noteq> 0 \<and> n < d_num_vq d \<and> (\<exists>K' D'. mset (klive w) \<subseteq># K' \<and> mset (dmaps m) \<subseteq># D' \<and> held off [0..<n] v1 m1 w1 K' D')
    | Inr _ \<Rightarrow> held off [0..<d_num_vq d] v1 m1 w1 (mset (klive w)) (mset (dmaps m))"
    using add_rings_ok [OF entry _ start, of E] by (auto elim!: okE)
  have entry1: "entry_at m1 off d v1" by (rule entry_at_frame [OF entry fr same])
  have fr': "length (dp m1) = length (dp m)" "vdev_list m1 = vdev_list m" "irqs m1 = irqs m" "doorbells m1 = doorbells m"
    using fr by (simp_all add: page_frame_def)
  have v1: "vid v1 = vid v" "length (mvr v1) = length (mvr v)" "dd v1 = off" "dc v1 = dc v"
    using same entry by (simp_all add: same_vdev_def entry_at_def)
  have fail: "e \<noteq> 0 \<Longrightarrow> K \<subseteq># mset (klive w2) \<Longrightarrow> D \<subseteq># mset (dmaps m2) \<Longrightarrow> mset (klive w) \<subseteq># K \<Longrightarrow> mset (dmaps m) \<subseteq># D \<Longrightarrow>
      m2 = m1\<lparr>dmaps := dmaps m2\<rparr> \<Longrightarrow> vid v2 = vid v \<Longrightarrow> length (mvr v2) = length (mvr v) \<Longrightarrow>
      add_post v m w (e, v2, mutex_unlock m2, w2)" for e K D m2 w2 v2
    using fr' unfolding add_post_def mutex_unlock_def
    by (auto intro: subset_mset.trans) (metis mic_device.select_convs mic_device.surjective mic_device.update_convs)+
  show ?thesis
  proof (cases r)
    case (Inl en)
    then obtain e n K D where n: "en = (e, n)" "e \<noteq> 0" "n < d_num_vq d" "mset (klive w) \<subseteq># K" "mset (dmaps m) \<subseteq># D"
      "held off [0..<n] v1 m1 w1 K D"
      using res by (cases en) auto
    from undo_after [OF entry1 n(6)] n(3) obtain m2 w2 where u: "undo_rings off [0..<n] v1 m1 w1 = Some (m2, w2)"
      "mset (klive w2) = K + mset (bufs [0..<n] v1)" "mset (dmaps m2) = D + mset (das [0..<n] v1)"
      "m2 = m1\<lparr>dmaps := dmaps m2\<rparr>"
      by (auto elim!: okE)
    have "add_post v m w (e, v1, mutex_unlock m2, w2)"
      by (rule fail [OF n(2) _ _ n(4,5) u(4) v1(1,2)]) (simp_all add: u(2,3))
    then show ?thesis using rings Inl n(1) u(1) by (simp add: add_device_rings_def)
  next
    case (Inr u)
    define K D where KD: "K = mset (klive w)" "D = mset (dmaps m)"
    have hold: "held off [0..<d_num_vq d] v1 m1 w1 K D" using res Inr by (simp add: KD)
    have desc: "desc_at m1 off = Some d" using entry1 by (simp add: entry_at_def)
    define v2 where "v2 = v1\<lparr>virtio_db := next_db E (xcalls w1)\<rparr>"
    define w2 where "w2 = w1\<lparr>xcalls := Suc (xcalls w1)\<rparr>"
    have hold2: "held off [0..<d_num_vq d] v2 m1 w2 K D" "entry_at m1 off d v2"
      using hold entry1 by (simp_all add: held_def bufs_def vas_def das_def v2_def w2_def entry_at_def)
    show ?thesis
    proof (cases "irq_ret E (xcalls w1) < 0")
      case True
      from undo_after [OF hold2(2,1)] obtain m3 w3 where u: "undo_rings off [0..<d_num_vq d] v2 m1 w2 = Some (m3, w3)"
        "mset (klive w3) = K + mset (bufs [0..<d_num_vq d] v2)" "mset (dmaps m3) = D + mset (das [0..<d_num_vq d] v2)"
        "m3 = m1\<lparr>dmaps := dmaps m3\<rparr>"
        by (auto elim!: okE)
      have "add_post v m w (irq_ret E (xcalls w1), v2, mutex_unlock m3, w3)"
        by (rule fail [where K = K and D = D]) (use True u v1 in \<open>simp_all add: KD v2_def\<close>)
      then show ?thesis
        using rings Inr desc True u(1) by (simp add: add_device_rings_def Let_def v2_def w2_def)
    next
      case False
      define irq where "irq = nat (irq_ret E (xcalls w1))"
      define v3 where "v3 = v2\<lparr>virtio_cookie := irq\<rparr>"
      define mA where "mA = m1\<lparr>irqs := irq # irqs m1\<rparr>"
      have entryA: "entry_at mA off d v3" and pasA: "pas off js mA = pas off js m1" for js
        using entry1 by (simp_all add: entry_at_def desc_at_def mA_def v3_def v2_def pas_def page_addr_def)
      have "ok (dp_put (dc v3 + c_c2h_vdev_db) [virtio_db v3] mA) (entry_frame off (mic_desc_size d) mA)"
        using ctrl_put [OF entryA, of c_c2h_vdev_db "virtio_db v3"] dc v1(4)
        by (simp add: ctrl_fields v3_def v2_def)
      then obtain mB where mB: "dp_put (dc v3 + c_c2h_vdev_db) [virtio_db v3] mA = Some mB"
        "entry_frame off (mic_desc_size d) mA mB"
        by (auto elim: okE)
      define mC where "mC = mB\<lparr>vdev_list := vdev_list mB @ [vid v3]\<rparr>"
      have entryC: "entry_at mC off d v3"
        using entry_frame_entry [OF mB(2) entryA] by (simp add: entry_at_def desc_at_def mC_def)
      obtain mD where mD: "dp_put off [ty] mC = Some mD" "entry_at mD off (d[0 := ty]) v3" "mD = mC\<lparr>dp := dp mD\<rparr>"
        "length (dp mD) = length (dp mC)" "\<forall>js. set js \<subseteq> {..<d_num_vq d} \<longrightarrow> pas off js mD = pas off js mC"
        using entry_at_retyped [OF entryC, of ty] by (auto elim!: okE)
      have js: "set [0..<d_num_vq d] \<subseteq> {..<d_num_vq d}" by auto
      have "pas off [0..<d_num_vq d] mD = pas off [0..<d_num_vq d] mC" using mD(5) js by blast
      also have "\<dots> = pas off [0..<d_num_vq d] mB" by (simp add: mC_def pas_def page_addr_def)
      also have "\<dots> = pas off [0..<d_num_vq d] m1" by (simp only: entry_frame_pas [OF mB(2) js] pasA)
      finally have pasD: "pas off [0..<d_num_vq d] mD = pas off [0..<d_num_vq d] m1" .
      have "dmaps mD = dmaps mC" "irqs mD = irqs mC" "vdev_list mD = vdev_list mC"
        by (subst mD(3), simp)+
      then have fields: "dmaps mD = dmaps m1" "irqs mD = irq # irqs m" "vdev_list mD = vdev_list m @ [vid v]"
        "length (dp mD) = length (dp m)"
        using mD(4) mB(2) fr' v1(1) by (simp_all add: mC_def entry_frame_def mA_def v3_def v2_def)
      have room: "b_h2c_config_db < length (dp mD)"
        using entryC mD(4) desc_size_le [of d] by (simp add: b_h2c_config_db_def entry_at_def)
      define mE where "mE = (if dp mD ! b_h2c_config_db \<noteq> -1 then send_intr (dp mD ! b_h2c_config_db) mD else mD)"
      have mE: "dp mE = dp mD" "dmaps mE = dmaps mD" "irqs mE = irqs mD" "vdev_list mE = vdev_list mD"
        by (simp_all add: mE_def send_intr_def)
      have run: "add_device_rings E ty off v m w = Some (0, v3, mutex_unlock mE, w2)"
        using rings Inr desc False mB(1) mD(1) room
        by (simp add: add_device_rings_def Let_def v2_def [symmetric] w2_def [symmetric] irq_def [symmetric]
            v3_def [symmetric] mA_def [symmetric] mC_def [symmetric] mE_def buf_get_def)
      have "entry_at (mutex_unlock mE) off (d[0 := ty]) v3"
        using mD(2) by (simp add: entry_at_def desc_at_def mutex_unlock_def mE)
      moreover have "held off [0..<d_num_vq (d[0 := ty])] v3 (mutex_unlock mE) w2 K D"
      proof -
        have "pas off js (mutex_unlock mE) = pas off js mD" for js
          by (simp add: pas_def page_addr_def mutex_unlock_def mE)
        then show ?thesis
          using hold2(1) pasD by (simp add: held_def bufs_def vas_def das_def mutex_unlock_def mE fields v3_def)
      qed
      ultimately have "device_up off (d[0 := ty]) v3 (mutex_unlock mE) w2 K D"
        using boot dc v1(4) by (simp add: device_up_def desc_size_cong v3_def v2_def)
      then show ?thesis
        using v1 unfolding run ok_Some add_post_def
        by (auto simp: KD mE fields mutex_unlock_def v3_def v2_def)
    qed
  qed
qed

lemma entry_stored_entry:
  assumes page: "page_ok m" and stored: "entry_stored img ty off m m'" and v: "length (mvr v) = MIC_MAX_VRINGS" "dd v = off"
  shows "entry_at m' off (take 8 img) v" "sizeof_bootparam \<le> off" "length (dp m') = length (dp m)"
proof -
  have img: "length img = mic_desc_size img" "off + mic_total_desc_size img \<le> MIC_DP_SIZE"
    and m': "m' = m\<lparr>dp := overwrite off img (dp m)\<rparr>" and n: "d_num_vq img \<le> MIC_MAX_VRINGS"
    using stored by (simp_all add: entry_stored_def)
  have fit: "off + length img \<le> length (dp m)" "8 \<le> length img"
    using img desc_size_le [of img] page by (simp_all add: page_ok_def)
  have "take 8 (drop off (overwrite off img (dp m))) = take 8 img"
  proof -
    have "take 8 (take (length img) (drop off (overwrite off img (dp m)))) = take 8 img"
      by (simp only: slice_overwrite_same [OF fit(1)])
    then show ?thesis using fit(2) by (simp add: min_def)
  qed
  then show "entry_at m' off (take 8 img) v"
    using v n img fit page
    by (simp add: m' entry_at_def desc_at_def buf_read_def length_overwrite sizeof_desc_def desc_size_cong page_ok_def)
  show "sizeof_bootparam \<le> off" using stored by (simp add: entry_stored_def)
  show "length (dp m') = length (dp m)" using fit by (simp add: m' length_overwrite)
qed

lemma add_post_start:
  assumes post: "add_post v m w x" and v: "vid v = vid v0" "length (mvr v) = length (mvr v0)"
    and m: "length (dp m) = length (dp m0)" "vdev_list m = vdev_list m0" "irqs m = irqs m0" "doorbells m = doorbells m0"
      "dmaps m = dmaps m0"
    and w: "klive w = klive w0"
  shows "add_post v0 m0 w0 x"
  using assms by (cases x) (auto simp: add_post_def)

lemma add_device_patched_ok:
  assumes page: "page_ok mdev" and free: "\<not> mic_mutex mdev" and v: "length (mvr mvdev) = MIC_MAX_VRINGS"
  shows "ok (mic_virtio_add_device E mic_copy_dp_entry_patched argp mvdev mdev w) (add_post mvdev mdev w)"
proof -
  define m1 where "m1 = mdev\<lparr>mic_mutex := True\<rparr>"
  have page1: "page_ok m1" using page by (simp add: page_ok_def m1_def)
  obtain r e m2 w2 where copy: "mic_copy_dp_entry_patched argp m1 w = Some (r, e, m2, w2)" "klive w2 = klive w"
    and res: "case e of None \<Rightarrow> r < 0 \<and> m2 = m1 | Some (ty, off) \<Rightarrow> r = 0 \<and> (\<exists>img. entry_stored img ty off m1 m2)"
    using copy_dp_entry_patched_ok [OF page1, of argp w] by (auto elim!: okE)
  show ?thesis
  proof (cases e)
    case None
    then show ?thesis
      using copy res free
      by (auto simp: mic_virtio_add_device_def mutex_lock_def m1_def mutex_unlock_def add_post_def)
  next
    case (Some to)
    then obtain ty off img where e: "e = Some (ty, off)" "r = 0" and img: "entry_stored img ty off m1 m2"
      using res by (cases to) auto
    define d where "d = take 8 img"
    define v1 where "v1 = mvdev\<lparr>dd := off, virtio_id := ty\<rparr>"
    have entry: "entry_at m2 off d v1" "sizeof_bootparam \<le> off" "length (dp m2) = length (dp m1)"
      using entry_stored_entry [OF page1 img, of v1] v by (simp_all add: d_def v1_def)
    then have "entry_at m2 off d (mvdev\<lparr>dd := off\<rparr>)" by (simp add: entry_at_def v1_def)
    from mic_init_device_ctrl_ok [OF this] obtain m3 where
      "mic_init_device_ctrl off (mvdev\<lparr>dd := off\<rparr>) m2 = Some (mvdev\<lparr>dd := off, dc := off + mic_aligned_desc_size d\<rparr>, m3)"
      and fr: "entry_frame off (mic_desc_size d) m2 m3"
      by (auto elim!: okE)
    then have init: "mic_init_device_ctrl off mvdev m2 = Some (mvdev\<lparr>dc := off + mic_aligned_desc_size d\<rparr>, m3)"
      using entry(1) by (auto simp: mic_init_device_ctrl_def Let_def bind_eq_Some_conv entry_at_def)
    define v2 where "v2 = v1\<lparr>dc := off + mic_aligned_desc_size d\<rparr>"
    have "entry_at m3 off d v2"
      using entry_frame_entry [OF fr entry(1)] by (simp add: entry_at_def v2_def)
    then have post: "ok (add_device_rings E ty off v2 m3 w2) (add_post v2 m3 w2)"
      by (rule add_device_rings_ok [OF _ entry(2)]) (simp add: v2_def)
    have m2: "m2 = m1\<lparr>dp := dp m2\<rparr>" using img by (simp add: entry_stored_def)
    have same: "length (dp m3) = length (dp mdev)" "vdev_list m3 = vdev_list mdev" "irqs m3 = irqs mdev"
      "doorbells m3 = doorbells mdev" "dmaps m3 = dmaps mdev"
      using fr entry(3) unfolding entry_frame_def
      by (simp_all add: m1_def) (subst m2, simp add: m1_def)+
    have "mvdev\<lparr>dc := off + mic_aligned_desc_size d, dd := off, virtio_id := ty\<rparr> = v2"
      by (simp add: v2_def v1_def)
    then have run: "mic_virtio_add_device E mic_copy_dp_entry_patched argp mvdev mdev w = add_device_rings E ty off v2 m3 w2"
      using free copy(1) e init by (simp add: mic_virtio_add_device_def mutex_lock_def m1_def)
    show ?thesis
      unfolding run
      by (rule ok_mono [OF post], erule add_post_start) (simp_all add: v2_def v1_def same copy(2))
  qed
qed

text \<open>Removing gives everything back, the buffers too.\<close>

lemma del_rings_ok:
  "entry_at mdev off d v \<Longrightarrow> set js \<subseteq> {..<d_num_vq d} \<Longrightarrow> (\<forall>j \<in> set js. buf_da (mvr v ! j) \<noteq> None) \<Longrightarrow>
   held off js v mdev w K D \<Longrightarrow>
   ok (del_rings off js v mdev w) (\<lambda>(mdev', w'). mset (klive w') = K \<and> mset (dmaps mdev') = D \<and>
     mdev' = mdev\<lparr>dmaps := dmaps mdev'\<rparr> \<and> w' = w\<lparr>klive := klive w'\<rparr>)"
proof (induction js arbitrary: mdev w)
  case Nil
  then show ?case by (simp add: held_def bufs_def vas_def das_def pas_def)
next
  case (Cons j js)
  have j: "j < d_num_vq d" using Cons.prems(2) by simp
  note room = entry_room [OF Cons.prems(1) j]
  define r where "r = mvr v ! j"
  obtain a where a: "buf_da r = Some a" using Cons.prems(3) by (auto simp: r_def)
  have read: "buf_read (dp mdev) (mic_vq_config off j) 8 = Some (take 8 (drop (mic_vq_config off j) (dp mdev)))"
    using room(1) by (simp add: buf_read_def)
  define D1 where "D1 = D + mset (das js v) + mset (pas off js mdev)"
  define K1 where "K1 = K + mset (bufs js v) + mset (vas js v)"
  have start: "mset (klive w) = K1 + mset (buf_objs r) + {#vr_va r#}" "mset (dmaps mdev) = (D1 + {#page_addr mdev off j#}) + {#a#}"
    using Cons.prems(4) a
    by (simp_all add: held_def bufs_def vas_def das_def pas_def r_def K1_def D1_def da_objs_def)
  obtain m1 where m1: "mic_unmap_single a mdev = Some m1" "mset (dmaps m1) = D1 + {#page_addr mdev off j#}"
    "m1 = mdev\<lparr>dmaps := dmaps m1\<rparr>"
    using unmap_mset [OF start(2)] by (auto elim!: okE)
  obtain m2 where m2: "mic_unmap_single (page_addr mdev off j) m1 = Some m2" "mset (dmaps m2) = D1" "m2 = m1\<lparr>dmaps := dmaps m2\<rparr>"
    using unmap_mset [OF m1(2)] by (auto elim!: okE)
  obtain w1 where w1: "(case buf r of None \<Rightarrow> Some w | Some b \<Rightarrow> kfree b w) = Some w1" "mset (klive w1) = K1 + {#vr_va r#}"
    "w1 = w\<lparr>klive := klive w1\<rparr>"
  proof (cases "buf r")
    case None
    then show ?thesis using that [of w] start(1) by (simp add: buf_objs_def)
  next
    case (Some b)
    then have "mset (klive w) = (K1 + {#vr_va r#}) + {#b#}" using start(1) by (simp add: buf_objs_def)
    from kfree_mset [OF this] show ?thesis using that Some by (auto elim!: okE)
  qed
  obtain w2 where w2: "kfree (vr_va r) w1 = Some w2" "mset (klive w2) = K1" "w2 = w1\<lparr>klive := klive w2\<rparr>"
    using kfree_mset [OF w1(2)] by (auto elim!: okE)
  have md: "m2\<lparr>dmaps := x\<rparr> = mdev\<lparr>dmaps := x\<rparr>" and wd: "w2\<lparr>klive := y\<rparr> = w\<lparr>klive := y\<rparr>" for x y
    by (subst m2(3), subst m1(3), simp, subst w2(3), subst w1(3), simp)
  have dp1: "dp m1 = dp mdev" and pas2: "pas off js m2 = pas off js mdev" and entry2: "entry_at m2 off d v"
    using Cons.prems(1) by (subst m1(3), simp, subst m2(3), subst m1(3), simp add: pas_def, subst m2(3), subst m1(3), simp)
  have "held off js v m2 w2 K D" using m2(2) w2(2) by (simp add: held_def pas2 K1_def D1_def)
  from Cons.IH [OF entry2 _ _ this] Cons.prems(2,3)
  have "ok (del_rings off js v m2 w2) (\<lambda>(mdev', w'). mset (klive w') = K \<and> mset (dmaps mdev') = D \<and>
     mdev' = m2\<lparr>dmaps := dmaps mdev'\<rparr> \<and> w' = w2\<lparr>klive := klive w'\<rparr>)"
    by simp
  then show ?case
    using room(5) read a m1(1) m2(1) w1(1) w2(1)
    by (simp add: buf_get_def r_def dp1 md wd page_addr_def)
qed


lemma wait_guest_ack_spec:
  "fst (wait_guest_ack E n w) = 0 \<longleftrightarrow> (\<forall>i < n. wait_left E (xcalls w + i) = 0)"
  "snd (wait_guest_ack E n w) = w\<lparr>xcalls := xcalls (snd (wait_guest_ack E n w))\<rparr>"
proof -
  show "fst (wait_guest_ack E n w) = 0 \<longleftrightarrow> (\<forall>i < n. wait_left E (xcalls w + i) = 0)"
    by (induction E n w rule: wait_guest_ack.induct) (auto simp: Let_def All_less_Suc2)
  show "snd (wait_guest_ack E n w) = w\<lparr>xcalls := xcalls (snd (wait_guest_ack E n w))\<rparr>"
  proof (induction E n w rule: wait_guest_ack.induct)
    case (2 E n w)
    show ?case
    proof (cases "wait_left E (xcalls w) = 0")
      case True
      from 2 [OF refl refl] True show ?thesis by (simp add: Let_def)
    qed (simp add: Let_def)
  qed simp
qed

lemma wait_klive: "klive (snd (wait_guest_ack E n w)) = klive w"
  by (subst wait_guest_ack_spec(2)) simp

lemma hot_remove_ok:
  assumes entryA: "entry_at mA off d v1" and dc: "dc v1 = off + mic_aligned_desc_size d"
  shows "ok (hot_remove E db v1 mA w1) (\<lambda>(m, w). entry_at m off d v1 \<and>
    pas off [0..<d_num_vq d] m = pas off [0..<d_num_vq d] mA \<and>
    dmaps m = dmaps mA \<and> vdev_list m = vdev_list mA \<and> irqs m = irqs mA \<and> klive w = klive w1)"
proof (cases "db = -1")
  case True
  then show ?thesis using entryA by (simp add: hot_remove_def)
next
  case False
  have js: "set [0..<d_num_vq d] \<subseteq> {..<d_num_vq d}" by auto
  obtain mB where mB: "dp_put (dc v1 + c_config_change) [PARAM_DEV_REMOVE E] mA = Some mB"
    "entry_frame off (mic_desc_size d) mA mB"
    using ctrl_put [OF entryA, of c_config_change "PARAM_DEV_REMOVE E"] dc by (auto simp: ctrl_fields elim: okE)
  define mC where "mC = send_intr (db) mB"
  have entryC: "entry_at mC off d v1"
    using entry_frame_entry [OF mB(2) entryA] by (simp add: entry_at_def desc_at_def mC_def send_intr_def)
  have pasC: "pas off [0..<d_num_vq d] mC = pas off [0..<d_num_vq d] mA"
    using entry_frame_pas [OF mB(2) js] by (simp add: mC_def send_intr_def pas_def page_addr_def)
  obtain mD where mD: "dp_put (dc v1 + c_config_change) [0] mC = Some mD" "entry_frame off (mic_desc_size d) mC mD"
    using ctrl_put [OF entryC, of c_config_change 0] dc by (auto simp: ctrl_fields elim: okE)
  have entryD: "entry_at mD off d v1" by (rule entry_frame_entry [OF mD(2) entryC])
  obtain mE where mE: "dp_put (dc v1 + c_guest_ack) [0] mD = Some mE" "entry_frame off (mic_desc_size d) mD mE"
    using ctrl_put [OF entryD, of c_guest_ack 0] dc by (auto simp: ctrl_fields elim: okE)
  obtain n wa where wait: "wait_guest_ack E 100 w1 = (n, wa)" "klive wa = klive w1"
    using wait_klive [of E 100 w1] by (cases "wait_guest_ack E 100 w1") simp
  have fr: "entry_frame off (mic_desc_size d) mC mE" by (rule entry_frame_trans [OF mD(2) mE(2)])
  show ?thesis
    using False mB(1) mD(1) mE(1) entry_frame_entry [OF fr entryC] entry_frame_pas [OF fr js] pasC fr mB(2) wait
    by (simp add: hot_remove_def mC_def [symmetric]) (simp add: entry_frame_def mC_def send_intr_def)
qed


section \<open>Changing the configuration\<close>

definition locked_rings :: "nat list \<Rightarrow> bool \<Rightarrow> mic_vringh list \<Rightarrow> mic_vringh list" where
  "locked_rings js b rs = map (\<lambda>j. if j \<in> set js then (rs ! j)\<lparr>vr_mutex := b\<rparr> else rs ! j) [0..<length rs]"

definition with_locks :: "nat list \<Rightarrow> bool \<Rightarrow> mic_vdev \<Rightarrow> mic_vdev" where
  "with_locks js b v = v\<lparr>mvr := locked_rings js b (mvr v)\<rparr>"

lemma locked_rings_nth: "i < length rs \<Longrightarrow>
    locked_rings js b rs ! i = (if i \<in> set js then (rs ! i)\<lparr>vr_mutex := b\<rparr> else rs ! i)"
  and length_locked_rings [simp]: "length (locked_rings js b rs) = length rs"
  by (simp_all add: locked_rings_def)

lemma with_locks_Cons:
  assumes "j < length (mvr v)" and "j \<notin> set js"
  shows "with_locks js b (v\<lparr>mvr := (mvr v)[j := (mvr v ! j)\<lparr>vr_mutex := b\<rparr>]\<rparr>) = with_locks (j # js) b v"
proof -
  have "locked_rings js b ((mvr v)[j := (mvr v ! j)\<lparr>vr_mutex := b\<rparr>]) = locked_rings (j # js) b (mvr v)"
    using assms by (intro nth_equalityI) (auto simp: locked_rings_nth nth_list_update)
  then show ?thesis by (simp add: with_locks_def)
qed

lemma with_locks_Nil: "with_locks [] b v = v"
  by (simp add: with_locks_def locked_rings_def map_nth)

lemma lock_rings_eq:
  "distinct js \<Longrightarrow> \<forall>j \<in> set js. j < length (mvr v) \<and> \<not> vr_mutex (mvr v ! j) \<Longrightarrow>
   lock_rings js v = Some (with_locks js True v)"
proof (induction js arbitrary: v)
  case (Cons j js)
  define v1 where "v1 = v\<lparr>mvr := (mvr v)[j := (mvr v ! j)\<lparr>vr_mutex := True\<rparr>]\<rparr>"
  have "\<forall>i \<in> set js. i < length (mvr v1) \<and> \<not> vr_mutex (mvr v1 ! i)"
    using Cons.prems by (auto simp: v1_def nth_list_update)
  then have "lock_rings js v1 = Some (with_locks js True v1)" using Cons by simp
  then show ?case using Cons.prems with_locks_Cons [of j v js True] by (simp add: buf_get_def v1_def)
qed (simp add: with_locks_Nil)

lemma unlock_rings_eq:
  "distinct js \<Longrightarrow> \<forall>j \<in> set js. j < length (mvr v) \<Longrightarrow> unlock_rings js v = Some (with_locks js False v)"
proof (induction js arbitrary: v)
  case (Cons j js)
  define v1 where "v1 = v\<lparr>mvr := (mvr v)[j := (mvr v ! j)\<lparr>vr_mutex := False\<rparr>]\<rparr>"
  have "unlock_rings js v1 = Some (with_locks js False v1)" using Cons by (simp add: v1_def)
  then show ?case using Cons.prems with_locks_Cons [of j v js False] by (simp add: buf_get_def v1_def)
qed (simp add: with_locks_Nil)

text \<open>Taking the locks and giving them back leaves the device as it was.\<close>

lemma with_locks_back:
  assumes "\<forall>j \<in> set js. j < length (mvr v) \<and> \<not> vr_mutex (mvr v ! j)"
  shows "with_locks js False (with_locks js True v) = v"
proof -
  have "locked_rings js False (locked_rings js True (mvr v)) = mvr v"
    using assms by (intro nth_equalityI) (auto simp: locked_rings_nth)
  then show ?thesis by (simp add: with_locks_def)
qed

text \<open>
  A configuration change that user space supplies and the card is asked to take: the new
  configuration is in the page, all locks are free again, and the result is 0 exactly when
  the card did not acknowledge it within the hundred waits; when it did, the result is the
  positive time that was left. A caller that takes 0 for success and a positive number for
  an error has them the wrong way round.
\<close>

theorem mic_config_change_result:
  assumes up: "entry_at mdev off d v" "dc v = off + mic_aligned_desc_size d" "\<not> mic_mutex mdev"
    and unlocked: "\<forall>r \<in> set (mvr v). \<not> vr_mutex r"
    and card: "dp mdev ! b_h2c_config_db \<noteq> -1" "d_type d \<noteq> -1"
    and user: "ufetch (umem w (utime w)) argp (d_config_len d) = Some bs"
  shows "ok (mic_virtio_config_change E argp v mdev w) (\<lambda>(r, v', m', w'). v' = v \<and> \<not> mic_mutex m' \<and>
    take (length bs) (drop (mic_vq_configspace off d) (dp m')) = bs \<and>
    (r = 0 \<longleftrightarrow> (\<forall>i < 100. wait_left E (xcalls w + i) = 0)))"
proof -
  define m1 where "m1 = mdev\<lparr>mic_mutex := True\<rparr>"
  have desc: "desc_at m1 (dd v) = Some d" and dd: "dd v = off" using up(1) by (simp_all add: entry_at_def desc_at_def m1_def)
  have room: "off + mic_desc_size d + 16 \<le> length (dp mdev)"
    using up(1) desc_size_le(1,4) [of d] unfolding entry_at_def by linarith
  then have db: "buf_get (dp m1) b_h2c_config_db = Some (dp mdev ! b_h2c_config_db)"
    by (simp add: buf_get_def m1_def b_h2c_config_db_def)
  define vl where "vl = with_locks [0..<d_num_vq d] True v"
  have "\<forall>j \<in> set [0..<d_num_vq d]. j < length (mvr v) \<and> \<not> vr_mutex (mvr v ! j)"
    using up(1) unlocked by (auto simp: entry_at_def)
  then have js: "\<forall>j \<in> set [0..<d_num_vq d]. j < length (mvr v) \<and> \<not> vr_mutex (mvr v ! j)" .
  have vl: "dd vl = off" "dc vl = dc v" "length (mvr vl) = length (mvr v)" using dd by (simp_all add: vl_def with_locks_def)
  have lock: "lock_rings [0..<d_num_vq d] v = Some vl" and unlock: "unlock_rings [0..<d_num_vq d] vl = Some v"
    using with_locks_back [OF js] js vl(3) by (simp_all add: lock_rings_eq unlock_rings_eq vl_def [symmetric])
  define k where "k = mic_vq_configspace off d"
  have len: "length bs = d_config_len d" using user by (rule length_ufetch)
  have k: "k + length bs = off + mic_desc_size d" "off + 8 \<le> k"
    unfolding k_def len mic_vq_configspace_def mic_vq_features_def mic_vq_config_def mic_desc_size_def
      sizeof_desc_def sizeof_vqconfig_def by simp_all
  define m2 where "m2 = m1\<lparr>dp := overwrite k bs (dp m1)\<rparr>"
  have put: "dp_put k bs m1 = Some m2" using k room by (simp add: dp_put_eq m2_def m1_def)
  have "take 8 (drop off (dp m2)) = take 8 (drop off (dp m1))"
    unfolding m2_def using k room by (simp add: slice_overwrite_other m1_def)
  then have entry2: "entry_at m2 off d v"
    using up(1) room k by (auto simp: entry_at_def desc_at_def buf_read_def sizeof_desc_def m2_def m1_def length_overwrite split: if_splits)
  obtain m3 where m3: "dp_put (dc v + c_config_change) [PARAM_CONFIG_CHANGED E] m2 = Some m3" "entry_frame off (mic_desc_size d) m2 m3"
    using ctrl_put [OF entry2, of c_config_change "PARAM_CONFIG_CHANGED E"] up(2) by (auto simp: ctrl_fields elim: okE)
  define m4 where "m4 = send_intr (dp mdev ! b_h2c_config_db) m3"
  have entry4: "entry_at m4 off d v"
    using entry_frame_entry [OF m3(2) entry2] by (simp add: entry_at_def desc_at_def m4_def send_intr_def)
  obtain m5 where m5: "dp_put (dc v + c_config_change) [0] m4 = Some m5" "entry_frame off (mic_desc_size d) m4 m5"
    using ctrl_put [OF entry4, of c_config_change 0] up(2) by (auto simp: ctrl_fields elim: okE)
  have entry5: "entry_at m5 off d v" by (rule entry_frame_entry [OF m5(2) entry4])
  obtain m6 where m6: "dp_put (dc v + c_guest_ack) [0] m5 = Some m6" "entry_frame off (mic_desc_size d) m5 m6"
    using ctrl_put [OF entry5, of c_guest_ack 0] up(2) by (auto simp: ctrl_fields elim: okE)
  obtain r w2 where wait: "wait_guest_ack E 100 (w\<lparr>utime := Suc (utime w)\<rparr>) = (r, w2)"
    "r = 0 \<longleftrightarrow> (\<forall>i < 100. wait_left E (xcalls w + i) = 0)"
    using wait_guest_ack_spec(1) [of E 100 "w\<lparr>utime := Suc (utime w)\<rparr>"] by (cases "wait_guest_ack E 100 (w\<lparr>utime := Suc (utime w)\<rparr>)") auto
  have run: "config_change_locked E argp d vl m1 w = Some (r, m6, w2)"
    using db card user put m3(1) m5(1) m6(1) wait(1)
    by (simp add: config_change_locked_def copy_from_user_def vl k_def [symmetric] m4_def [symmetric] Let_def)
  have "length (dp m6) = length (dp m2)" "\<And>j. off \<le> j \<Longrightarrow> j < off + mic_desc_size d \<Longrightarrow> dp m6 ! j = dp m2 ! j"
    using m3(2) m5(2) m6(2) by (simp_all add: entry_frame_def m4_def send_intr_def)
  then have "take (length bs) (drop k (dp m6)) = take (length bs) (drop k (dp m2))"
    using k by (intro slice_eqI) auto
  also have "\<dots> = bs" unfolding m2_def using k room by (simp add: slice_overwrite_same m1_def)
  finally show ?thesis
    using up(3) lock unlock run desc wait(2)
    by (simp add: mic_virtio_config_change_def mutex_lock_def m1_def [symmetric] k_def mutex_unlock_def)
qed

section \<open>The properties on concrete inputs\<close>

definition mic_services :: mic_env where
  "mic_services = \<lparr>vring_size = \<lambda>n. 16 * n + 2 * n + 6 + 8 * n, map_addr = \<lambda>n. Some (of_nat n), vringh_ret = \<lambda>_ _ _. 0,
     irq_ret = \<lambda>_. 7, next_db = \<lambda>_. 3, wait_left = \<lambda>_. 0, PARAM_CONFIG_CHANGED = 1, PARAM_DEV_REMOVE = 2\<rparr>"

definition mic_card :: mic_device where
  "mic_card = \<lparr>dp = replicate MIC_DP_SIZE 0, mic_mutex = False, vdev_list = [], doorbells = [], irqs = [], dmaps = []\<rparr>"

definition mic_ring :: mic_vringh where
  "mic_ring = \<lparr>vr_mutex = False, vr_va = 0, vr_len = 0, avail_idx = 0, vr_magic = 0, vrh_num = 0, vring_used = 0,
     completed = 0, last_avail_idx = 0, last_used_idx = 0, vhead = 0, buf = None, buf_da = None\<rparr>"

definition mic_dev0 :: mic_vdev where
  "mic_dev0 = \<lparr>vid = 0, virtio_id = 0, dd = sizeof_bootparam, dc = sizeof_bootparam + 8, mvr = replicate MIC_MAX_VRINGS mic_ring,
     virtio_db = 0, virtio_cookie = 0, poll_wake = False\<rparr>"

text \<open>
  User memory with a descriptor of type 1 without rings; in the racing world its configuration
  grows by a byte after the first access.
\<close>

definition mic_world :: "bool \<Rightarrow> world" where
  "mic_world racing = \<lparr>umem = \<lambda>t i. Some (if i = 0 then 1 else if i = 3 \<and> t > 0 \<and> racing then 1 else 0), utime = 0,
     uout = [], kfail = \<lambda>_. False, kjunk = \<lambda>_ _. 0, knext = 0, klive = [], xcalls = 0\<rparr>"

lemma mic_card_page: "length (dp mic_card) = MIC_DP_SIZE" "\<not> mic_mutex mic_card" "length (mvr mic_dev0) = MIC_MAX_VRINGS"
  "dp mic_card ! sizeof_bootparam = 0"
  by (simp_all add: mic_card_def mic_dev0_def sizeof_bootparam_def MIC_DP_SIZE_def)

lemma mic_user: "ufetch (umem (mic_world racing) 0) 0 8 = Some [1, 0, 0, 0, 0, 0, 0, 0]"
  "ufetch (umem (mic_world True) (Suc 0)) 0 8 = Some [1, 0, 0, 1, 0, 0, 0, 0]"
  "ufetch (umem (mic_world False) t) 0 8 = Some [1, 0, 0, 0, 0, 0, 0, 0]"
  by (simp_all add: ufetch_def mic_world_def upt_rec)

lemma mic_small_desc: "mic_desc_size [x, 0, 0, c, 0, 0, 0, 0] = 8 + unat c"
  "d_num_vq [x, 0, 0, c, 0, 0, 0, 0] = 0" "d_type [x, 0, 0, c, 0, 0, 0, 0] = x"
  by (simp_all add: mic_desc_size_def d_num_vq_def d_feature_len_def d_config_len_def sizeof_desc_def d_type_def)

lemma mic_dp_entry_patched_safe_witness:
  "ok (mic_copy_dp_entry_patched 0 mic_card (mic_world True)) (\<lambda>(r, e, mdev', w'). klive w' = klive (mic_world True) \<and>
    (case e of None \<Rightarrow> r < 0 \<and> mdev' = mic_card
     | Some (typ, off) \<Rightarrow> r = 0 \<and> (\<exists>img. length img = mic_desc_size img \<and> d_type img = 0 \<and>
         sizeof_bootparam \<le> off \<and> off + mic_total_desc_size img \<le> MIC_DP_SIZE \<and> dp mic_card ! off \<in> {0, -1} \<and>
         d_num_vq img \<le> MIC_MAX_VRINGS \<and> (\<forall>j < d_num_vq img. d_ring_num img j \<le> MIC_MAX_VRING_ENTRIES) \<and>
         mdev' = mic_card\<lparr>dp := overwrite off img (dp mic_card)\<rparr>)))"
  by (rule mic_dp_entry_patched_safe [OF mic_card_page(1)])

lemma mic_dp_entry_race_witness: "mic_copy_dp_entry 0 mic_card (mic_world True) = None"
proof (rule mic_dp_entry_race [OF mic_card_page(1,4)])
  show "ufetch (umem (mic_world True) (utime (mic_world True))) 0 sizeof_desc = Some [1, 0, 0, 0, 0, 0, 0, 0]"
    using mic_user(1) by (simp add: sizeof_desc_def mic_world_def)
  show "ufetch (umem (mic_world True) (Suc (utime (mic_world True)))) 0 (mic_desc_size [1, 0, 0, 0, 0, 0, 0, 0]) =
      Some [1, 0, 0, 1, 0, 0, 0, 0]"
    using mic_user(2) mic_small_desc(1) [of 1 0] by (simp add: mic_world_def)
qed (use mic_small_desc in \<open>simp_all add: dd_ok_def mic_aligned_desc_size_def mic_align_def mic_total_desc_size_def
    MIC_MAX_DESC_BLK_SIZE_def sizeof_ctrl_def sizeof_bootparam_def MIC_DP_SIZE_def mic_world_def\<close>)


lemma mic_card_entry: "entry_at mic_card sizeof_bootparam (replicate 8 0) mic_dev0"
  by (simp add: entry_at_def desc_at_def mic_card_def mic_dev0_def sizeof_desc_def sizeof_bootparam_def MIC_DP_SIZE_def
      buf_read_def MIC_MAX_VRINGS_def d_num_vq_def mic_total_desc_size_def mic_aligned_desc_size_def mic_align_def
      mic_desc_size_def sizeof_ctrl_def d_feature_len_def d_config_len_def)

lemma mic_config_change_result_witness:
  "ok (mic_virtio_config_change mic_services 0 mic_dev0 mic_card (mic_world False)) (\<lambda>(r, v', m', w'). v' = mic_dev0 \<and>
    \<not> mic_mutex m' \<and> take 0 (drop (mic_vq_configspace sizeof_bootparam (replicate 8 0)) (dp m')) = [] \<and>
    (r = 0 \<longleftrightarrow> (\<forall>i < 100. wait_left mic_services (xcalls (mic_world False) + i) = 0)))"
  using mic_config_change_result [OF mic_card_entry, of "mic_world False" 0 "[]" mic_services]
  by (simp add: mic_dev0_def mic_card_def mic_ring_def mic_aligned_desc_size_def mic_align_def mic_desc_size_def
      d_num_vq_def d_feature_len_def d_config_len_def sizeof_desc_def b_h2c_config_db_def MIC_DP_SIZE_def d_type_def ufetch_def
      MIC_MAX_VRINGS_def)

text \<open>A device without rings, on a page that has room, is added.\<close>

lemma add_device_no_rings:
  assumes entry: "entry_at m off d v" and dc: "dc v = off + mic_aligned_desc_size d" and none: "d_num_vq d = 0"
    and irq: "0 \<le> irq_ret E (xcalls w)"
  shows "ok (add_device_rings E ty off v m w) (\<lambda>(r, v', m', w'). r = 0 \<and>
    (\<forall>d. desc_at m' (dd v') = Some d \<longrightarrow> d_num_vq d = 0))"
proof -
  have desc: "desc_at m off = Some d" "dd v = off" using entry by (simp_all add: entry_at_def)
  then have rings: "add_rings E 0 v m w = Some (Inr (), v, m, w)" using none by (subst add_rings.simps) simp
  define v2 where "v2 = v\<lparr>virtio_db := next_db E (xcalls w), virtio_cookie := nat (irq_ret E (xcalls w))\<rparr>"
  define m1 where "m1 = m\<lparr>irqs := nat (irq_ret E (xcalls w)) # irqs m\<rparr>"
  have entry1: "entry_at m1 off d v2" using entry by (simp add: entry_at_def desc_at_def m1_def v2_def)
  then obtain m2 where m2: "dp_put (dc v2 + c_c2h_vdev_db) [virtio_db v2] m1 = Some m2" "entry_frame off (mic_desc_size d) m1 m2"
    using ctrl_put [OF entry1, of c_c2h_vdev_db "virtio_db v2"] dc by (auto simp: ctrl_fields v2_def elim: okE)
  define m3 where "m3 = m2\<lparr>vdev_list := vdev_list m2 @ [vid v2]\<rparr>"
  have entry3: "entry_at m3 off d v2"
    using entry_frame_entry [OF m2(2) entry1] by (simp add: entry_at_def desc_at_def m3_def)
  obtain m4 where m4: "dp_put off [ty] m3 = Some m4" "entry_at m4 off (d[0 := ty]) v2"
    using entry_at_retyped [OF entry3, of ty] by (auto elim!: okE)
  have db: "b_h2c_config_db < length (dp m4)"
    using m4(2) desc_size_le [of "d[0 := ty]"] by (simp add: entry_at_def b_h2c_config_db_def)
  show ?thesis
    using rings desc none irq m2(1) m4 db
    by (simp add: add_device_rings_def Let_def v2_def [symmetric] m1_def [symmetric] m3_def [symmetric] buf_get_def)
      (auto simp: mutex_unlock_def send_intr_def desc_at_def entry_at_def)
qed

lemma overwrite_same: "k + n \<le> N \<Longrightarrow> overwrite k (replicate n x) (replicate N x) = replicate N x"
  by (simp add: overwrite_def min_def flip: replicate_add)

lemma mic_card_added:
  "ok (mic_virtio_add_device mic_services mic_copy_dp_entry_patched 0 mic_dev0 mic_card (mic_world False))
    (\<lambda>(r, v', m', w'). r = 0 \<and> (\<forall>d. desc_at m' (dd v') = Some d \<longrightarrow> d_num_vq d = 0))"
proof -
  define m1 where "m1 = mic_card\<lparr>mic_mutex := True\<rparr>"
  define b :: "byte list" where "b = [1, 0, 0, 0, 0, 0, 0, 0]"
  have b: "mic_desc_size b = 8" "d_num_vq b = 0" "d_type b = 1" "mic_total_desc_size b = 24" "mic_aligned_desc_size b = 8"
    using mic_small_desc [of 1 0]
    by (simp_all add: b_def mic_total_desc_size_def mic_aligned_desc_size_def mic_align_def sizeof_ctrl_def)
  have "slot_limit b = 4072" using slot_limit_eq [of b] b by (simp add: MIC_DP_SIZE_def)
  then have "find_slot m1 (slot_limit b) sizeof_bootparam = Some (Some sizeof_bootparam)"
    by (subst find_slot.simps) (simp add: sizeof_bootparam_def desc_at_def m1_def mic_card_def buf_read_def sizeof_desc_def
        MIC_DP_SIZE_def d_type_def)
  moreover have zero: "b[0 := 0] = replicate 8 0" by (simp add: b_def eval_nat_numeral)
  moreover have "dp_put sizeof_bootparam (replicate 8 0) m1 = Some m1"
    by (simp add: dp_put_eq m1_def mic_card_def MIC_DP_SIZE_def sizeof_bootparam_def overwrite_same)
  ultimately have store: "dp_entry_store b b m1 = Some (0, Some (1, sizeof_bootparam), m1)"
    using b desc_size_cong(4) [of b 0] by (simp add: dp_entry_store_def buf_read_def Let_def)
  have u: "ufetch (umem (mic_world False) t) 0 8 = Some b" "\<not> kfail (mic_world False) n" "take 8 b = b" for t n
    using mic_user(3) by (simp_all add: b_def mic_world_def)
  obtain w1 where copy: "mic_copy_dp_entry_patched 0 m1 (mic_world False) = Some (0, Some (1, sizeof_bootparam), m1, w1)"
    using u store b
    by (auto simp: mic_copy_dp_entry_patched_def copy_from_user_def kmalloc_def Let_def sizeof_desc_def
        dd_ok_def MIC_MAX_DESC_BLK_SIZE_def kfree_def)
  have entry: "entry_at m1 sizeof_bootparam (replicate 8 0) mic_dev0"
    using mic_card_entry by (simp add: entry_at_def desc_at_def m1_def)
  have sz: "d_num_vq (replicate 8 0) = 0" by (simp add: d_num_vq_def)
  obtain v2 m2 where init: "mic_init_device_ctrl sizeof_bootparam mic_dev0 m1 = Some (v2, m2)"
    "v2 = mic_dev0\<lparr>dc := sizeof_bootparam + mic_aligned_desc_size (replicate 8 0)\<rparr>"
    "entry_frame sizeof_bootparam (mic_desc_size (replicate 8 0)) m1 m2"
    using mic_init_device_ctrl_ok [OF entry] by (auto elim!: okE)
  define v3 where "v3 = v2\<lparr>dd := sizeof_bootparam, virtio_id := 1\<rparr>"
  have "entry_at m2 sizeof_bootparam (replicate 8 0) v3"
    using entry_frame_entry [OF init(3) entry] by (simp add: entry_at_def v3_def init(2))
  from add_device_no_rings [OF this _ sz, of mic_services w1 1]
  have "ok (add_device_rings mic_services 1 sizeof_bootparam v3 m2 w1) (\<lambda>(r, v', m', w'). r = 0 \<and>
    (\<forall>d. desc_at m' (dd v') = Some d \<longrightarrow> d_num_vq d = 0))"
    by (simp add: v3_def init(2) mic_services_def)
  then show ?thesis
    using copy init(1) mic_card_page(2)
    by (simp add: mic_virtio_add_device_def mutex_lock_def m1_def [symmetric] v3_def)
qed


end
