(* ===== verification/MicCopy.thy ===== *)
theory MicCopy
  imports MicPage
begin

text \<open>
  Data transfer of the MIC virtio driver, \<open>mic_virtio.c\<close> up to \<open>mic_virtio_copy_desc\<close>: the DMA
  copies between user space and the card's memory, the walk over the descriptors of a ring,
  and the copy request. The DMA engine and the ring library of the kernel are oracles.
\<close>

section \<open>Data\<close>

text \<open>The end of a DMA transfer: no channel, no descriptor, an error of the submission, or of the wait.\<close>

datatype dma_end = No_channel | No_descriptor | Not_submitted int | Waited int

definition MIC_INT_DMA_BUF_SIZE :: nat where
  "MIC_INT_DMA_BUF_SIZE = page_align (64 * 1024)"

text \<open>
  The descriptors of one direction (\<open>struct vringh_kiov\<close>): base and length of each, the
  current one, their number, and how much of the current one is done.
\<close>

record kiov =
  kvec :: "(nat \<times> nat) list"
  ki :: nat
  kused :: nat
  kconsumed :: nat

text \<open>
  The parts of a device and a ring that a transfer works on: the card's memory, the ring's
  DMA buffer, the statistics, the descriptors, the head of the chain at hand (-1 for none),
  the index told to user space, the ring's own, and the chains completed so far (latest first);
  the doorbell of the card, the times it was rung, and the mutex of the ring.
\<close>

record mic_io =
  card :: "nat \<Rightarrow> byte"
  dma_buf :: "byte list"
  in_bytes :: nat
  in_bytes_dma :: nat
  out_bytes :: nat
  out_bytes_dma :: nat
  tx_dst_unaligned :: nat
  tx_len_unaligned :: nat
  riov :: kiov
  wiov :: kiov
  io_head :: u16
  info_avail_idx :: u16
  io_last_avail_idx :: u16
  used_ring :: "(u16 \<times> u32) list"
  h2c_vdev_db :: byte
  intrs :: "byte list"
  io_mutex :: bool

text \<open>
  The outside: the engine's alignment and the end of its \<open>n\<close>-th transfer; the \<open>n\<close>-th fetch of
  a chain with its result, descriptors, head and the ring's index behind it; whether the card
  wants a notification; whether it is still up; and the layout of a user's \<open>struct iovec\<close>.
\<close>

record mic_io_env =
  dma_align :: nat
  dma_end :: "nat \<Rightarrow> dma_end"
  getdesc :: "nat \<Rightarrow> int \<times> kiov \<times> kiov \<times> u16 \<times> u16"
  need_notify :: "nat \<Rightarrow> int"
  vdevup :: "nat \<Rightarrow> bool"
  sizeof_iovec :: nat
  v_base :: "byte list \<Rightarrow> nat"
  v_len :: "byte list \<Rightarrow> nat"

text \<open>The alignment is a power of two that divides the buffer.\<close>

definition io_env_ok :: "mic_io_env \<Rightarrow> bool" where
  "io_env_ok G \<longleftrightarrow> 0 < dma_align G \<and> dma_align G dvd MIC_INT_DMA_BUF_SIZE"

section \<open>DMA\<close>

definition dma_err :: "dma_end \<Rightarrow> int" where
  "dma_err e = (case e of No_channel \<Rightarrow> - EBUSY | No_descriptor \<Rightarrow> - ENOMEM | Not_submitted n \<Rightarrow> n | Waited n \<Rightarrow> n)"

text \<open>One transfer, with \<open>f\<close> for the effect it has when it ends without an error.\<close>

definition mic_sync_dma ::
  "mic_io_env \<Rightarrow> (mic_io \<Rightarrow> mic_io option) \<Rightarrow> mic_io \<Rightarrow> 'z world_scheme \<Rightarrow> (int \<times> mic_io \<times> 'z world_scheme) option" where
  "mic_sync_dma G f x w =
     (let err = dma_err (dma_end G (xcalls w)); w = w\<lparr>xcalls := Suc (xcalls w)\<rparr> in
      if err \<noteq> 0 then Some (err, x, w)
      else do { x \<leftarrow> f x; Some (0, x, w) })"

text \<open>From the card into the buffer, and back; both fault beyond the buffer.\<close>

definition dma_from_card :: "nat \<Rightarrow> nat \<Rightarrow> mic_io \<Rightarrow> mic_io option" where
  "dma_from_card daddr n x = do {
     b \<leftarrow> buf_write (dma_buf x) 0 (map (card x) [daddr..<daddr + n]);
     Some (x\<lparr>dma_buf := b\<rparr>)
   }"

definition card_write :: "nat \<Rightarrow> byte list \<Rightarrow> mic_io \<Rightarrow> mic_io" where
  "card_write a bs x = x\<lparr>card := \<lambda>i. if a \<le> i \<and> i < a + length bs then bs ! (i - a) else card x i\<rparr>"

definition dma_to_card :: "nat \<Rightarrow> nat \<Rightarrow> mic_io \<Rightarrow> mic_io option" where
  "dma_to_card daddr n x = do {
     bs \<leftarrow> buf_read (dma_buf x) 0 n;
     Some (card_write daddr bs x)
   }"

section \<open>Card to user space\<close>

lemma buf_size_pos: "0 < MIC_INT_DMA_BUF_SIZE"
  by (simp add: MIC_INT_DMA_BUF_SIZE_def page_align_def mic_align_def)

function to_user_loop ::
  "mic_io_env \<Rightarrow> nat \<Rightarrow> nat \<Rightarrow> nat \<Rightarrow> nat \<Rightarrow> mic_io \<Rightarrow> 'z world_scheme \<Rightarrow> (int \<times> mic_io \<times> 'z world_scheme) option" where
  "to_user_loop G ubuf len daddr dma_offset x w =
     (if len = 0 then Some (0, x, w)
      else do {
        let partlen = min len MIC_INT_DMA_BUF_SIZE;
        (err, x, w) \<leftarrow> mic_sync_dma G (dma_from_card daddr (mic_align partlen (dma_align G))) x w;
        (if err \<noteq> 0 then Some (err, x, w)
         else do {
           out \<leftarrow> buf_read (dma_buf x) dma_offset (partlen - dma_offset);
           (case copy_to_user ubuf out w of
              (True, w) \<Rightarrow> Some (- EFAULT, x, w)
            | (False, w) \<Rightarrow>
                to_user_loop G (ubuf + partlen) (len - partlen) (daddr + partlen) 0
                  (x\<lparr>in_bytes_dma := in_bytes_dma x + partlen, in_bytes := in_bytes x + partlen\<rparr>) w)
         })
      })"
  by pat_completeness auto
termination
  by (relation "measure (\<lambda>(G, ubuf, len, _). len)") (auto simp: buf_size_pos)

declare to_user_loop.simps [simp del]

definition mic_virtio_copy_to_user ::
  "mic_io_env \<Rightarrow> nat \<Rightarrow> nat \<Rightarrow> nat \<Rightarrow> mic_io \<Rightarrow> 'z world_scheme \<Rightarrow> (int \<times> mic_io \<times> 'z world_scheme) option" where
  "mic_virtio_copy_to_user G ubuf len daddr x w =
     (let dma_offset = daddr mod dma_align G in
      to_user_loop G ubuf (len + dma_offset) (daddr - dma_offset) dma_offset x w)"

section \<open>User space to card\<close>

text \<open>The loop, and the copy without DMA behind the label \<open>memcpy\<close>.\<close>

definition memcpy_to_card ::
  "nat \<Rightarrow> nat \<Rightarrow> nat \<Rightarrow> mic_io \<Rightarrow> 'z world_scheme \<Rightarrow> int \<times> mic_io \<times> 'z world_scheme" where
  "memcpy_to_card ubuf len daddr x w =
     (case copy_from_user ubuf len w of
        (None, w) \<Rightarrow> (- EFAULT, x, w)
      | (Some bs, w) \<Rightarrow> (0, (card_write daddr bs x)\<lparr>out_bytes := out_bytes x + len\<rparr>, w))"

function from_user_loop ::
  "mic_io_env \<Rightarrow> nat \<Rightarrow> nat \<Rightarrow> nat \<Rightarrow> mic_io \<Rightarrow> 'z world_scheme \<Rightarrow> (int \<times> mic_io \<times> 'z world_scheme) option" where
  "from_user_loop G ubuf len daddr x w =
     (if len = 0 then Some (memcpy_to_card ubuf 0 daddr x w)
      else
        let partlen = min len MIC_INT_DMA_BUF_SIZE in
        (case copy_from_user ubuf partlen w of
           (None, w) \<Rightarrow> Some (- EFAULT, x, w)
         | (Some bs, w) \<Rightarrow> do {
             b \<leftarrow> buf_write (dma_buf x) 0 bs;
             (err, x, w) \<leftarrow> mic_sync_dma G (dma_to_card daddr (mic_align partlen (dma_align G))) (x\<lparr>dma_buf := b\<rparr>) w;
             (if err \<noteq> 0 then Some (err, x, w)
              else from_user_loop G (ubuf + partlen) (len - partlen) (daddr + partlen)
                (x\<lparr>out_bytes_dma := out_bytes_dma x + partlen, out_bytes := out_bytes x + partlen\<rparr>) w)
           }))"
  by pat_completeness auto
termination
  by (relation "measure (\<lambda>(G, ubuf, len, _). len)") (auto simp: buf_size_pos)

declare from_user_loop.simps [simp del]

definition mic_virtio_copy_from_user ::
  "mic_io_env \<Rightarrow> nat \<Rightarrow> nat \<Rightarrow> nat \<Rightarrow> nat \<Rightarrow> mic_io \<Rightarrow> 'z world_scheme \<Rightarrow> (int \<times> mic_io \<times> 'z world_scheme) option" where
  "mic_virtio_copy_from_user G ubuf len daddr dlen x w =
     (if daddr mod dma_align G \<noteq> 0
      then Some (memcpy_to_card ubuf len daddr (x\<lparr>tx_dst_unaligned := tx_dst_unaligned x + len\<rparr>) w)
      else if mic_align len (dma_align G) > dlen
      then Some (memcpy_to_card ubuf len daddr (x\<lparr>tx_len_unaligned := tx_len_unaligned x + len\<rparr>) w)
      else from_user_loop G ubuf len daddr x w)"

section \<open>The walk over the descriptors\<close>

text \<open>
  One direction of a chain: \<open>rd\<close> copies to user space. The result is that of the last
  transfer, with the number of bytes copied.
\<close>

definition mic_transfer ::
  "mic_io_env \<Rightarrow> bool \<Rightarrow> nat \<Rightarrow> nat \<Rightarrow> nat \<Rightarrow> nat \<Rightarrow> mic_io \<Rightarrow> 'z world_scheme \<Rightarrow> (int \<times> mic_io \<times> 'z world_scheme) option" where
  "mic_transfer G rd ubuf n base dlen x w =
     (if rd then mic_virtio_copy_to_user G ubuf n base x w
      else mic_virtio_copy_from_user G ubuf n base dlen x w)"

definition used_up :: "kiov \<Rightarrow> bool" where
  "used_up v \<longleftrightarrow> kused v \<le> ki v"

text \<open>\<open>n\<close> bytes of the current element are done; a finished element gets its extent back.\<close>

definition kiov_advance :: "nat \<Rightarrow> nat \<Rightarrow> nat \<Rightarrow> kiov \<Rightarrow> kiov" where
  "kiov_advance n base l v =
     (let c = kconsumed v + n in
      if l - n = 0
      then v\<lparr>kvec := (kvec v)[ki v := (base + n - c, c)], kconsumed := 0, ki := Suc (ki v)\<rparr>
      else v\<lparr>kvec := (kvec v)[ki v := (base + n, l - n)], kconsumed := c\<rparr>)"

function mic_vringh_copy ::
  "mic_io_env \<Rightarrow> bool \<Rightarrow> kiov \<Rightarrow> nat \<Rightarrow> nat \<Rightarrow> nat \<Rightarrow> mic_io \<Rightarrow> 'z world_scheme \<Rightarrow>
   (int \<times> nat \<times> kiov \<times> mic_io \<times> 'z world_scheme) option" where
  "mic_vringh_copy G rd v ubuf len tot x w =
     (if len = 0 \<or> used_up v then Some (0, tot, v, x, w)
      else do {
        (base, l) \<leftarrow> buf_get (kvec v) (ki v);
        let partlen = min l len;
        (ret, x, w) \<leftarrow> mic_transfer G rd ubuf partlen base l x w;
        (if ret \<noteq> 0 then Some (ret, tot, v, x, w)
         else mic_vringh_copy G rd (kiov_advance partlen base l v) (ubuf + partlen) (len - partlen) (tot + partlen) x w)
      })"
  by pat_completeness auto
termination
  by (relation "measure (\<lambda>(G, rd, v, ubuf, len, tot, x, w). len + (kused v - ki v))")
     (auto simp: kiov_advance_def used_up_def Let_def min_def)

declare mic_vringh_copy.simps [simp del]

text \<open>The bytes of a direction that are done.\<close>

definition mic_vringh_iov_consumed :: "kiov \<Rightarrow> u32" where
  "mic_vringh_iov_consumed v = of_nat (kconsumed v) + sum_list (map (of_nat \<circ> snd) (take (ki v) (kvec v)))"

section \<open>The copy request\<close>

text \<open>
  A request of user space (\<open>struct mic_copy_desc\<close> of a header outside the repository): where
  its array of \<open>iovec\<close>s is, their number, the ring, and whether the used ring is updated.
\<close>

record mic_copy_desc =
  u_iov :: nat
  iovcnt :: u32
  vr_idx :: nat
  update_used :: bool
  out_len :: u32

definition mic_notify :: "mic_io \<Rightarrow> mic_io" where
  "mic_notify x = (if h2c_vdev_db x \<noteq> -1 then x\<lparr>intrs := h2c_vdev_db x # intrs x\<rparr> else x)"

definition chain_done :: "mic_io \<Rightarrow> bool" where
  "chain_done x \<longleftrightarrow> ki (riov x) = kused (riov x) \<and> ki (wiov x) = kused (wiov x)"

definition kiov_empty :: kiov where
  "kiov_empty = \<lparr>kvec = [], ki = 0, kused = 0, kconsumed = 0\<rparr>"

text \<open>
  The loop over the user's \<open>iovec\<close>s: \<open>p\<close> is the next one, \<open>cnt\<close> their number, \<open>ubuf\<close> and
  \<open>len\<close> what is left of the current one, \<open>out\<close> the bytes copied so far. It stops at an
  error, after the last \<open>iovec\<close>, or when the chain is processed. A pass copies to user space
  first and then from it; it counts a direction that failed as nothing.
\<close>

definition next_iovec :: "mic_io_env \<Rightarrow> nat \<Rightarrow> nat \<Rightarrow> nat \<Rightarrow> 'z world_scheme \<Rightarrow> (nat \<times> nat) option \<times> 'z world_scheme" where
  "next_iovec G p ubuf len w =
     (if len = 0
      then (case copy_from_user p (sizeof_iovec G) w of
              (None, w) \<Rightarrow> (None, w)
            | (Some iov, w) \<Rightarrow> (Some (v_base G iov, v_len G iov), w))
      else (Some (ubuf, len), w))"

definition copy_pass ::
  "mic_io_env \<Rightarrow> nat \<Rightarrow> nat \<Rightarrow> mic_io \<Rightarrow> 'z world_scheme \<Rightarrow> (int \<times> nat \<times> mic_io \<times> 'z world_scheme) option" where
  "copy_pass G ubuf len x w = do {
     (ret, n, v, x, w) \<leftarrow> mic_vringh_copy G True (riov x) ubuf len 0 x w;
     let x = x\<lparr>riov := v\<rparr>;
     (if ret \<noteq> 0 then Some (ret, 0, x, w)
      else do {
        (ret, n', v, x, w) \<leftarrow> mic_vringh_copy G False (wiov x) (ubuf + n) (len - n) 0 x w;
        let x = x\<lparr>wiov := v\<rparr>;
        Some (ret, if ret \<noteq> 0 then n else n + n', x, w)
      })
   }"

partial_function (option) iovec_loop ::
  "mic_io_env \<Rightarrow> nat \<Rightarrow> nat \<Rightarrow> nat \<Rightarrow> nat \<Rightarrow> u32 \<Rightarrow> int \<Rightarrow> mic_io \<Rightarrow> 'z world_scheme \<Rightarrow> (int \<times> u32 \<times> mic_io \<times> 'z world_scheme) option" where
  "iovec_loop G p cnt ubuf len out ret x w =
     (if cnt = 0 then Some (ret, out, x, w)
      else case next_iovec G p ubuf len w of
        (None, w) \<Rightarrow> Some (- EINVAL, out, x, w)
      | (Some (ubuf, len), w) \<Rightarrow>
          Option.bind (copy_pass G ubuf len x w) (\<lambda>(ret, n, x, w).
            if ret \<noteq> 0 \<or> chain_done x then Some (ret, out + of_nat n, x, w)
            else if len - n = 0 then iovec_loop G (p + sizeof_iovec G) (cnt - 1) (ubuf + n) 0 (out + of_nat n) ret x w
            else iovec_loop G p cnt (ubuf + n) (len - n) (out + of_nat n) ret x w))"

text \<open>The chain at hand goes to the used ring; the library empties the descriptors.\<close>

definition complete_chain :: "mic_io_env \<Rightarrow> mic_io \<Rightarrow> 'z world_scheme \<Rightarrow> mic_io \<times> 'z world_scheme" where
  "complete_chain G x w =
     (let total = mic_vringh_iov_consumed (riov x) + mic_vringh_iov_consumed (wiov x);
          x = x\<lparr>used_ring := (io_head x, total) # used_ring x, io_head := -1\<rparr>;
          x = (if need_notify G (xcalls w) > 0 then mic_notify x else x);
          x = x\<lparr>riov := kiov_empty, wiov := kiov_empty, info_avail_idx := io_last_avail_idx x\<rparr>
      in (x, w\<lparr>xcalls := Suc (xcalls w)\<rparr>))"

definition copy_chain ::
  "mic_io_env \<Rightarrow> mic_copy_desc \<Rightarrow> int \<Rightarrow> mic_io \<Rightarrow> 'z world_scheme \<Rightarrow> (int \<times> mic_copy_desc \<times> mic_io \<times> 'z world_scheme) option" where
  "copy_chain G c ret x w = do {
     (ret, out, x, w) \<leftarrow> iovec_loop G (u_iov c) (unat (iovcnt c)) 0 0 0 ret x w;
     let (x, w) = (if io_head x \<noteq> -1 \<and> out \<noteq> 0 \<and> update_used c then complete_chain G x w else (x, w));
     Some (ret, c\<lparr>out_len := out\<rparr>, x, w)
   }"

definition mic_virtio_copy ::
  "mic_io_env \<Rightarrow> mic_copy_desc \<Rightarrow> mic_io \<Rightarrow> 'z world_scheme \<Rightarrow> (int \<times> mic_copy_desc \<times> mic_io \<times> 'z world_scheme) option" where
  "mic_virtio_copy G c x w =
     (let c = c\<lparr>out_len := 0\<rparr> in
      if chain_done x then
        (let (ret, rv, wv, h, i) = getdesc G (xcalls w);
             w = w\<lparr>xcalls := Suc (xcalls w)\<rparr>;
             x = x\<lparr>riov := rv, wiov := wv, io_head := h, io_last_avail_idx := i\<rparr> in
         if ret \<le> 0 then Some (ret, c, x, w) else copy_chain G c ret x w)
      else copy_chain G c 0 x w)"

text \<open>The ring \<open>x\<close> is the one the request names; \<open>n\<close> is the number of rings of the device.\<close>

definition mic_verify_copy_args :: "nat \<Rightarrow> mic_copy_desc \<Rightarrow> int" where
  "mic_verify_copy_args n c = (if vr_idx c \<ge> n then - EINVAL else 0)"

definition mic_virtio_copy_desc ::
  "mic_io_env \<Rightarrow> nat \<Rightarrow> mic_copy_desc \<Rightarrow> mic_io \<Rightarrow> 'z world_scheme \<Rightarrow> (int \<times> mic_copy_desc \<times> mic_io \<times> 'z world_scheme) option" where
  "mic_virtio_copy_desc G n c x w =
     (let err = mic_verify_copy_args n c in
      if err \<noteq> 0 then Some (err, c, x, w)
      else if io_mutex x then None
      else
        (let x = x\<lparr>io_mutex := True\<rparr> in do {
           (err, c, x, w) \<leftarrow>
             (if \<not> vdevup G (xcalls w) then Some (- ENODEV, c, x, w\<lparr>xcalls := Suc (xcalls w)\<rparr>)
              else mic_virtio_copy G c x (w\<lparr>xcalls := Suc (xcalls w)\<rparr>));
           Some (err, c, x\<lparr>io_mutex := False\<rparr>, w)
         }))"

section \<open>User memory after a run\<close>

text \<open>
  \<open>user_after out m\<close> is what the copies \<open>out\<close>, latest first, make of the user memory \<open>m\<close>.
\<close>

fun user_after :: "(nat \<times> byte list) list \<Rightarrow> (nat \<Rightarrow> byte) \<Rightarrow> nat \<Rightarrow> byte" where
  "user_after [] m = m"
| "user_after ((p, bs) # out) m = (\<lambda>a. if p \<le> a \<and> a < p + length bs then bs ! (a - p) else user_after out m a)"

lemma user_after_append: "user_after (xs @ ys) m = user_after xs (user_after ys m)"
  by (induction xs) (auto simp: fun_eq_iff)

definition ubytes :: "nat \<Rightarrow> nat \<Rightarrow> (nat \<Rightarrow> byte) \<Rightarrow> (nat \<Rightarrow> byte) \<Rightarrow> nat \<Rightarrow> byte" where
  "ubytes p n f m = (\<lambda>a. if p \<le> a \<and> a < p + n then f (a - p) else m a)"

text \<open>\<open>delivered w w' p n f\<close>: the run from \<open>w\<close> to \<open>w'\<close> stored the bytes \<open>f\<close> at \<open>p\<close> and nothing else.\<close>

definition delivered :: "'z world_scheme \<Rightarrow> 'z world_scheme \<Rightarrow> nat \<Rightarrow> nat \<Rightarrow> (nat \<Rightarrow> byte) \<Rightarrow> bool" where
  "delivered w w' p n f \<longleftrightarrow>
     (\<exists>new. uout w' = new @ uout w \<and> (\<forall>m. user_after new m = ubytes p n f m))"

lemma delivered_nothing: "uout w' = uout w \<Longrightarrow> delivered w w' p 0 f"
  by (auto simp: delivered_def ubytes_def fun_eq_iff)

lemma delivered_copy:
  "uout w' = (p, map f [0..<n]) # uout w \<Longrightarrow> delivered w w' p n f"
  by (auto simp: delivered_def ubytes_def fun_eq_iff intro!: exI [of _ "[(p, map f [0..<n])]"])

lemma delivered_append:
  assumes "delivered w w1 p n f" and "delivered w1 w2 (p + n) k (\<lambda>i. f (n + i))"
  shows "delivered w w2 p (n + k) f"
proof -
  obtain a b where "uout w1 = a @ uout w" "uout w2 = b @ uout w1"
    and "\<And>m. user_after a m = ubytes p n f m" "\<And>m. user_after b m = ubytes (p + n) k (\<lambda>i. f (n + i)) m"
    using assms unfolding delivered_def by metis
  then show ?thesis
    unfolding delivered_def
    by (intro exI [of _ "b @ a"]) (auto simp: user_after_append ubytes_def fun_eq_iff)
qed

section \<open>The alignment\<close>

lemma mic_align_bounds:
  assumes "0 < a" shows "n \<le> mic_align n a" and "mic_align n a < n + a"
proof -
  obtain k where a: "a = Suc k" using assms by (cases a) auto
  have "mic_align n a + (n + k) mod a = n + k"
    using div_mult_mod_eq [of "n + k" a] by (simp add: mic_align_def a)
  moreover have "(n + k) mod a < Suc k" using assms unfolding a by (rule mod_less_divisor)
  ultimately show "n \<le> mic_align n a" and "mic_align n a < n + a" using a by linarith+
qed

lemma mic_align_le:
  assumes "0 < a" and "a dvd b" and "n \<le> b" shows "mic_align n a \<le> b"
proof -
  obtain k where b: "b = k * a" using assms(2) by (metis dvd_def mult.commute)
  have "mic_align n a < Suc k * a"
    using mic_align_bounds(2) [OF assms(1), of n] assms(3) b by simp
  then have "(n + a - 1) div a < Suc k" unfolding mic_align_def using mult_less_cancel2 by blast
  then have "(n + a - 1) div a \<le> k" by simp
  then show ?thesis unfolding mic_align_def b by (rule mult_le_mono1)
qed

lemma align_full:
  assumes "0 < a" and "a dvd n" shows "mic_align n a = n"
  using mic_align_bounds(1) [OF assms(1), of n] mic_align_le [OF assms, of n] by simp

section \<open>From the card to user space\<close>

text \<open>What a transfer to user space leaves alone.\<close>

definition same_but_in :: "mic_io \<Rightarrow> mic_io \<Rightarrow> bool" where
  "same_but_in x x' \<longleftrightarrow> length (dma_buf x') = length (dma_buf x) \<and>
     x' = x\<lparr>dma_buf := dma_buf x', in_bytes := in_bytes x', in_bytes_dma := in_bytes_dma x'\<rparr>"

lemma same_but_in_refl [simp]: "same_but_in x x"
  by (simp add: same_but_in_def)

lemma same_but_in_trans: "same_but_in x y \<Longrightarrow> same_but_in y z \<Longrightarrow> same_but_in x z"
  by (cases x; cases y; cases z) (simp add: same_but_in_def)

definition dma_works :: "mic_io_env \<Rightarrow> bool" where
  "dma_works G \<longleftrightarrow> (\<forall>n. dma_err (dma_end G n) = 0)"

definition user_mapped :: "'z world_scheme \<Rightarrow> bool" where
  "user_mapped w \<longleftrightarrow> (\<forall>t p. umem w t p \<noteq> None)"

lemma ufetch_mapped: "user_mapped w \<Longrightarrow> ufetch (umem w t) p n \<noteq> None"
  unfolding ufetch_def those_None set_map image_iff user_mapped_def by metis

text \<open>
  One pass of the loop: the part, less the bytes before the address, reaches the user, or
  the loop ends with an error of the engine or of the copy.
\<close>

lemma to_user_pass:
  assumes G: "io_env_ok G" and buf: "length (dma_buf x) = MIC_INT_DMA_BUF_SIZE"
    and len: "0 < len" and off: "off \<le> min len MIC_INT_DMA_BUF_SIZE"
  defines "k \<equiv> min len MIC_INT_DMA_BUF_SIZE"
  obtains
    e x' w' where "to_user_loop G ubuf len daddr off x w = Some (e, x', w')" and "e \<noteq> 0"
      and "same_but_in x x'" and "uout w' = uout w" and "umem w' = umem w" and "klive w' = klive w"
      and "dma_works G \<Longrightarrow> \<not> user_mapped w"
  | x' w' where "to_user_loop G ubuf len daddr off x w = to_user_loop G (ubuf + k) (len - k) (daddr + k) 0 x' w'"
      and "same_but_in x x'" and "umem w' = umem w" and "klive w' = klive w"
      and "delivered w w' ubuf (k - off) (\<lambda>i. card x (daddr + off + i))"
      and "in_bytes x' = in_bytes x + k"
proof -
  define n where "n = mic_align k (dma_align G)"
  define w1 where "w1 = w\<lparr>xcalls := Suc (xcalls w)\<rparr>"
  define b where "b = overwrite 0 (map (card x) [daddr..<daddr + n]) (dma_buf x)"
  have a: "0 < dma_align G" "dma_align G dvd MIC_INT_DMA_BUF_SIZE" using G by (auto simp: io_env_ok_def)
  have "n \<le> MIC_INT_DMA_BUF_SIZE" using mic_align_le [OF a, of k] by (simp add: n_def k_def)
  then have w: "buf_write (dma_buf x) 0 (map (card x) [daddr..<daddr + n]) = Some b" and lb: "length b = length (dma_buf x)"
    by (simp_all add: buf_write_overwrite b_def buf length_overwrite)
  have kn: "k \<le> n" using mic_align_bounds(1) [OF a(1)] by (simp add: n_def)
  have ok: "off \<le> k" using off by (simp add: k_def)
  have kl: "k \<le> length b" using buf lb by (simp add: k_def)
  have take: "take (k - off) (drop off b) = map (\<lambda>i. card x (daddr + off + i)) [0..<k - off]"
    using kn ok lb buf by (intro nth_equalityI) (auto simp: b_def overwrite_def k_def nth_append add.assoc)
  have read: "buf_read b off (k - off) = Some (map (\<lambda>i. card x (daddr + off + i)) [0..<k - off])"
    using ok lb kl by (simp add: buf_read_def take)
  show thesis
  proof (cases "dma_err (dma_end G (xcalls w)) = 0")
    case False
    then have "to_user_loop G ubuf len daddr off x w = Some (dma_err (dma_end G (xcalls w)), x, w1)"
      using len by (subst to_user_loop.simps) (simp add: mic_sync_dma_def w1_def)
    from that(1) [OF this False] show thesis using False by (auto simp: w1_def dma_works_def)
  next
    case dma: True
    define x1 where "x1 = x\<lparr>dma_buf := b\<rparr>"
    have bx: "dma_buf x1 = b" by (simp add: x1_def)
    have sync: "mic_sync_dma G (dma_from_card daddr n) x w = Some (0, x1, w1)"
      using dma w by (simp add: mic_sync_dma_def dma_from_card_def w1_def x1_def)
    have loop: "to_user_loop G ubuf len daddr off x w =
       (case copy_to_user ubuf (map (\<lambda>i. card x (daddr + off + i)) [0..<k - off]) w1 of
              (True, w) \<Rightarrow> Some (- EFAULT, x1, w)
            | (False, w) \<Rightarrow>
                to_user_loop G (ubuf + k) (len - k) (daddr + k) 0
                  (x1\<lparr>in_bytes_dma := in_bytes_dma x1 + k, in_bytes := in_bytes x1 + k\<rparr>) w)"
      using len sync read by (subst to_user_loop.simps) (simp add: k_def [symmetric] n_def [symmetric] bx)
    show thesis
    proof (cases "copy_to_user ubuf (map (\<lambda>i. card x (daddr + off + i)) [0..<k - off]) w1")
      case (Pair err w2)
      show thesis
      proof (cases err)
        case True
        then have "w2 = w1\<lparr>utime := Suc (utime w1)\<rparr>" "\<not> user_mapped w1"
          using Pair ufetch_mapped [of w1 "utime w1" ubuf "k - off"] by (auto simp: copy_to_user_def split: if_splits)
        moreover have "to_user_loop G ubuf len daddr off x w = Some (- EFAULT, x1, w2)" using loop Pair True by simp
        ultimately show thesis using lb by (intro that(1) [of "- EFAULT" x1 w2]) (auto simp: w1_def x1_def same_but_in_def user_mapped_def)
      next
        case False
        then have "w2 = w1\<lparr>utime := Suc (utime w1), uout := (ubuf, map (\<lambda>i. card x (daddr + off + i)) [0..<k - off]) # uout w1\<rparr>"
          using Pair by (auto simp: copy_to_user_def split: if_splits)
        then show thesis using loop Pair False lb
          by (intro that(2) [of "x1\<lparr>in_bytes_dma := in_bytes_dma x1 + k, in_bytes := in_bytes x1 + k\<rparr>" w2]) (auto simp: w1_def x1_def same_but_in_def intro!: delivered_copy)
      qed
    qed
  qed
qed
lemma same_but_in_fields:
  assumes "same_but_in x x'"
  shows "card x' = card x" and "length (dma_buf x') = length (dma_buf x)" and "riov x' = riov x" and "wiov x' = wiov x"
    and "io_head x' = io_head x" and "used_ring x' = used_ring x" and "io_mutex x' = io_mutex x"
  using assms by (cases x; cases x'; simp add: same_but_in_def)+

definition to_user_post :: "mic_io_env \<Rightarrow> nat \<Rightarrow> nat \<Rightarrow> nat \<Rightarrow> mic_io \<Rightarrow> 'z world_scheme \<Rightarrow> int \<times> mic_io \<times> 'z world_scheme \<Rightarrow> bool" where
  "to_user_post G ubuf len daddr x w = (\<lambda>(r, x', w'). same_but_in x x' \<and> umem w' = umem w \<and> klive w' = klive w \<and>
     (dma_works G \<and> user_mapped w \<longrightarrow> r = 0) \<and>
     (\<exists>k \<le> len. (r = 0 \<longrightarrow> k = len) \<and> delivered w w' ubuf k (\<lambda>i. card x (daddr + i))))"

lemma to_user_aligned:
  assumes "io_env_ok G" and "length (dma_buf x) = MIC_INT_DMA_BUF_SIZE"
  shows "ok (to_user_loop G ubuf len daddr 0 x w) (to_user_post G ubuf len daddr x w)"
  using assms(2)
proof (induction len arbitrary: ubuf daddr x w rule: less_induct)
  case (less len)
  show ?case
  proof (cases "len = 0")
    case True
    then show ?thesis by (subst to_user_loop.simps) (simp add: to_user_post_def delivered_nothing)
  next
    case False
    define k where "k = min len MIC_INT_DMA_BUF_SIZE"
    have k: "0 < k" "k \<le> len" using False buf_size_pos by (auto simp: k_def)
    show ?thesis
    proof (rule to_user_pass [OF assms(1) less.prems, of len 0, folded k_def])
      show "0 < len" and "0 \<le> k" using False by simp_all
    next
      fix e x' w' assume "to_user_loop G ubuf len daddr 0 x w = Some (e, x', w')" "e \<noteq> 0" "same_but_in x x'"
        "uout w' = uout w" "umem w' = umem w" "klive w' = klive w" "dma_works G \<Longrightarrow> \<not> user_mapped w"
      then show ?thesis by (auto simp: to_user_post_def intro!: exI [of _ 0] delivered_nothing)
    next
      fix x' w'
      assume go: "to_user_loop G ubuf len daddr 0 x w = to_user_loop G (ubuf + k) (len - k) (daddr + k) 0 x' w'"
        "same_but_in x x'" "umem w' = umem w" "klive w' = klive w"
        "delivered w w' ubuf (k - 0) (\<lambda>i. card x (daddr + 0 + i))"
      have del: "delivered w w' ubuf k (\<lambda>i. card x (daddr + i))" using go(5) by simp
      have 1: "length (dma_buf x') = MIC_INT_DMA_BUF_SIZE" and c: "card x' = card x"
        using go(2) less.prems by (simp_all add: same_but_in_fields)
      have "ok (to_user_loop G (ubuf + k) (len - k) (daddr + k) 0 x' w') (to_user_post G (ubuf + k) (len - k) (daddr + k) x' w')"
        using k by (intro less.IH [OF _ 1]) simp
      then show ?thesis unfolding go(1)
      proof (rule ok_mono)
        fix r assume "to_user_post G (ubuf + k) (len - k) (daddr + k) x' w' r"
        then obtain e y v j where r: "r = (e, y, v)" and j: "j \<le> len - k" "e = 0 \<Longrightarrow> j = len - k"
          and d: "delivered w' v (ubuf + k) j (\<lambda>i. card x (daddr + (k + i)))"
          and o: "same_but_in x' y" "umem v = umem w'" "klive v = klive w'" "dma_works G \<and> user_mapped w' \<longrightarrow> e = 0"
          by (auto simp: to_user_post_def c add.assoc)
        have "delivered w v ubuf (k + j) (\<lambda>i. card x (daddr + i))"
          by (rule delivered_append [OF del]) (rule d)
        moreover have "k + j \<le> len" "e = 0 \<Longrightarrow> k + j = len" using j k by auto
        ultimately show "to_user_post G ubuf len daddr x w r"
          using o same_but_in_trans [OF go(2) o(1)] go(3,4) unfolding r to_user_post_def
          by (auto simp: user_mapped_def)
      qed
    qed
  qed
qed

lemma to_user_zero: "to_user_loop G ubuf 0 daddr off x w = Some (0, x, w)"
  by (subst to_user_loop.simps) simp

lemma offset_bounds:
  assumes "io_env_ok G"
  shows "daddr mod dma_align G < dma_align G" and "dma_align G \<le> MIC_INT_DMA_BUF_SIZE"
  using assms buf_size_pos by (auto simp: io_env_ok_def dest: dvd_imp_le)


text \<open>
  C19: a copy to user space from an unaligned address that is longer than the DMA buffer has
  room for reports success, but it advances the user's pointer by the bytes before the
  address too: it leaves a hole in the user's buffer and writes past its end.
\<close>

theorem mic_copy_to_user_overrun:
  assumes "io_env_ok G" and "length (dma_buf x) = MIC_INT_DMA_BUF_SIZE"
    and "daddr mod dma_align G \<noteq> 0" and "MIC_INT_DMA_BUF_SIZE < len + daddr mod dma_align G"
    and "dma_works G" and "user_mapped w"
  shows "ok (mic_virtio_copy_to_user G ubuf len daddr x w) (\<lambda>(r, x', w'). r = 0 \<and>
     (\<exists>new. uout w' = new @ uout w \<and> (\<forall>m a. user_after new m a =
       (if ubuf \<le> a \<and> a < ubuf + MIC_INT_DMA_BUF_SIZE - daddr mod dma_align G then card x (daddr + (a - ubuf))
        else if ubuf + MIC_INT_DMA_BUF_SIZE \<le> a \<and> a < ubuf + len + daddr mod dma_align G
        then card x (daddr - daddr mod dma_align G + (a - ubuf))
        else m a))))"
proof -
  define off where "off = daddr mod dma_align G"
  define B where "B = MIC_INT_DMA_BUF_SIZE"
  have off: "0 < off" "off \<le> daddr" "off < B" "B < len + off"
    using assms(3,4) offset_bounds(1) [OF assms(1), of daddr] offset_bounds(2) [OF assms(1)] by (auto simp: off_def B_def)
  then have k: "min (len + off) B = B" by simp
  show ?thesis unfolding mic_virtio_copy_to_user_def Let_def off_def [symmetric] B_def [symmetric]
  proof (rule to_user_pass [OF assms(1,2), of "len + off" off, folded B_def, unfolded k])
    show "0 < len + off" "off \<le> B" using off by simp_all
  next
    assume "dma_works G \<Longrightarrow> \<not> user_mapped w"
    then show "ok (to_user_loop G ubuf (len + off) (daddr - off) off x w) Q" for Q using assms by simp
  next
    fix x' w'
    assume go: "to_user_loop G ubuf (len + off) (daddr - off) off x w =
        to_user_loop G (ubuf + B) (len + off - B) (daddr - off + B) 0 x' w'"
      "same_but_in x x'" "umem w' = umem w"
      and "delivered w w' ubuf (B - off) (\<lambda>i. card x (daddr - off + off + i))"
    then obtain n1 where 1: "uout w' = n1 @ uout w" "\<And>m. user_after n1 m = ubytes ubuf (B - off) (\<lambda>i. card x (daddr + i)) m"
      using off(2) by (auto simp: delivered_def)
    have x': "length (dma_buf x') = MIC_INT_DMA_BUF_SIZE" "card x' = card x"
      using go(2) assms(2) by (simp_all add: same_but_in_fields)
    from to_user_aligned [OF assms(1) x'(1)] obtain e y v
      where r: "to_user_loop G (ubuf + B) (len + off - B) (daddr - off + B) 0 x' w' = Some (e, y, v)"
        and p: "to_user_post G (ubuf + B) (len + off - B) (daddr - off + B) x' w' (e, y, v)"
      by (metis okE prod_cases3)
    have e: "e = 0" using p assms(5,6) go(3) by (simp add: to_user_post_def user_mapped_def)
    with p x' have "delivered w' v (ubuf + B) (len + off - B) (\<lambda>i. card x (daddr - off + B + i))"
      by (auto simp: to_user_post_def)
    then obtain n2 where 2: "uout v = n2 @ uout w'"
      "\<And>m. user_after n2 m = ubytes (ubuf + B) (len + off - B) (\<lambda>i. card x (daddr - off + B + i)) m"
      by (auto simp: delivered_def)
    show "ok (to_user_loop G ubuf (len + off) (daddr - off) off x w) (\<lambda>(r, x', w'). r = 0 \<and>
     (\<exists>new. uout w' = new @ uout w \<and> (\<forall>m a. user_after new m a =
       (if ubuf \<le> a \<and> a < ubuf + B - off then card x (daddr + (a - ubuf))
        else if ubuf + B \<le> a \<and> a < ubuf + len + off then card x (daddr - off + (a - ubuf)) else m a))))"
      unfolding go(1) r using e 1(1) 2(1) off
      by (auto simp: user_after_append 1(2) 2(2) ubytes_def add.commute [of off ubuf] intro!: exI [of _ "n2 @ n1"])
  qed
qed
section \<open>From user space to the card\<close>

lemma ufetch_nth:
  assumes "ufetch m p n = Some bs" and "i < n" shows "m (p + i) = Some (bs ! i)"
proof -
  have "those xs = Some ys \<Longrightarrow> i < length xs \<Longrightarrow> xs ! i = Some (ys ! i)" for xs ys and i :: nat
  proof (induction xs arbitrary: ys i)
    case Nil
    then show ?case by simp
  next
    case (Cons z zs)
    then show ?case by (cases i) (auto split: option.splits)
  qed
  from this [OF assms(1) [unfolded ufetch_def], of i] assms(2) show ?thesis by simp
qed

lemma mic_align_sub:
  assumes "0 < a" and "a dvd b" and "b \<le> n" shows "b + mic_align (n - b) a = mic_align n a"
proof -
  obtain k where b: "b = k * a" using assms(2) by (metis dvd_def mult.commute)
  have "n + a - 1 = (n - b + a - 1) + k * a" using assms(1,3) b by simp
  then have "(n + a - 1) div a = k + (n - b + a - 1) div a"
    using div_mult_self1 [of a "n - b + a - 1" k] assms(1) by (simp only:)
  then show ?thesis by (simp add: mic_align_def b add_mult_distrib)
qed

text \<open>What a transfer to the card leaves alone.\<close>

definition same_but_out :: "mic_io \<Rightarrow> mic_io \<Rightarrow> bool" where
  "same_but_out x x' \<longleftrightarrow> length (dma_buf x') = length (dma_buf x) \<and>
     x' = x\<lparr>card := card x', dma_buf := dma_buf x', out_bytes := out_bytes x', out_bytes_dma := out_bytes_dma x',
       tx_dst_unaligned := tx_dst_unaligned x', tx_len_unaligned := tx_len_unaligned x'\<rparr>"

lemma same_but_out_refl [simp]: "same_but_out x x"
  by (simp add: same_but_out_def)

lemma same_but_out_trans: "same_but_out x y \<Longrightarrow> same_but_out y z \<Longrightarrow> same_but_out x z"
  by (cases x; cases y; cases z) (simp add: same_but_out_def)

lemma same_but_out_fields:
  assumes "same_but_out x x'"
  shows "length (dma_buf x') = length (dma_buf x)" and "riov x' = riov x" and "wiov x' = wiov x"
    and "io_head x' = io_head x" and "used_ring x' = used_ring x" and "io_mutex x' = io_mutex x"
  using assms by (cases x; cases x'; simp add: same_but_out_def)+

text \<open>
  \<open>stored w x x' p a n e\<close>: the card's bytes at \<open>a\<close> are \<open>n\<close> bytes that user space had at \<open>p\<close>
  at some moment, and its memory is as before outside \<open>e\<close> bytes from there.
\<close>

definition stored :: "'z world_scheme \<Rightarrow> mic_io \<Rightarrow> mic_io \<Rightarrow> nat \<Rightarrow> nat \<Rightarrow> nat \<Rightarrow> nat \<Rightarrow> bool" where
  "stored w x x' p a n e \<longleftrightarrow> (\<forall>i<n. \<exists>t. umem w t (p + i) = Some (card x' (a + i))) \<and>
     (\<forall>i. i < a \<or> a + e \<le> i \<longrightarrow> card x' i = card x i)"

definition from_user_post :: "nat \<Rightarrow> nat \<Rightarrow> nat \<Rightarrow> nat \<Rightarrow> mic_io \<Rightarrow> 'z world_scheme \<Rightarrow> int \<times> mic_io \<times> 'z world_scheme \<Rightarrow> bool" where
  "from_user_post ubuf len daddr e x w = (\<lambda>(r, x', w'). same_but_out x x' \<and>
     umem w' = umem w \<and> klive w' = klive w \<and> uout w' = uout w \<and>
     stored w x x' ubuf daddr (if r = 0 then len else 0) e \<and> (r = 0 \<longrightarrow> out_bytes x' = out_bytes x + len))"

lemma card_write_other: "i < a \<or> a + length bs \<le> i \<Longrightarrow> card (card_write a bs x) i = card x i"
  by (auto simp: card_write_def)

lemma memcpy_to_card_post:
  assumes "len \<le> e"
  shows "from_user_post ubuf len daddr e x w (memcpy_to_card ubuf len daddr x w)"
proof (cases "copy_from_user ubuf len w")
  case (Pair b w1)
  then have b: "b = ufetch (umem w (utime w)) ubuf len" and w1: "w1 = w\<lparr>utime := Suc (utime w)\<rparr>"
    by (auto simp: copy_from_user_def)
  show ?thesis
  proof (cases b)
    case None
    then show ?thesis using Pair w1
      by (simp add: memcpy_to_card_def from_user_post_def stored_def)
  next
    case (Some bs)
    then have "length bs = len" and "\<And>i. i < len \<Longrightarrow> umem w (utime w) (ubuf + i) = Some (bs ! i)"
      using b length_ufetch ufetch_nth by metis+
    then have "stored w x (card_write daddr bs x\<lparr>out_bytes := out_bytes x + len\<rparr>) ubuf daddr len e"
      using assms unfolding stored_def by (auto simp: card_write_def)
    then show ?thesis using Pair Some w1
      by (simp add: memcpy_to_card_def from_user_post_def) (simp add: card_write_def same_but_out_def)
  qed
qed

lemma from_user_loop_post:
  assumes G: "io_env_ok G" and "length (dma_buf x) = MIC_INT_DMA_BUF_SIZE"
  shows "ok (from_user_loop G ubuf len daddr x w) (from_user_post ubuf len daddr (mic_align len (dma_align G)) x w)"
  using assms(2)
proof (induction len arbitrary: ubuf daddr x w rule: less_induct)
  case (less len)
  note buf = less.prems
  have a: "0 < dma_align G" "dma_align G dvd MIC_INT_DMA_BUF_SIZE" using G by (auto simp: io_env_ok_def)
  show ?case
  proof (cases "len = 0")
    case True
    then show ?thesis using memcpy_to_card_post [of 0 _ ubuf daddr x w]
      by (subst from_user_loop.simps) simp
  next
    case False
    define k where "k = min len MIC_INT_DMA_BUF_SIZE"
    define n where "n = mic_align k (dma_align G)"
    define w1 where "w1 = w\<lparr>utime := Suc (utime w)\<rparr>"
    have k: "0 < k" "k \<le> len" using False buf_size_pos by (auto simp: k_def)
    have kn: "k \<le> n" using mic_align_bounds(1) [OF a(1)] by (simp add: n_def)
    have nB: "n \<le> MIC_INT_DMA_BUF_SIZE" using mic_align_le [OF a, of k] by (simp add: n_def k_def)
    show ?thesis
    proof (cases "ufetch (umem w (utime w)) ubuf k")
      case None
      then have "from_user_loop G ubuf len daddr x w = Some (- EFAULT, x, w1)"
        using False by (subst from_user_loop.simps) (simp add: k_def [symmetric] copy_from_user_def w1_def)
      then show ?thesis by (simp add: from_user_post_def stored_def w1_def)
    next
      case (Some bs)
      then have bs: "length bs = k" "\<And>i. i < k \<Longrightarrow> umem w (utime w) (ubuf + i) = Some (bs ! i)"
        using length_ufetch ufetch_nth by metis+
      define b where "b = overwrite 0 bs (dma_buf x)"
      have wr: "buf_write (dma_buf x) 0 bs = Some b" and lb: "length b = MIC_INT_DMA_BUF_SIZE"
        using kn nB by (simp_all add: buf_write_overwrite b_def buf bs length_overwrite)
      have rd: "buf_read b 0 n = Some (take n b)" using lb nB by (simp add: buf_read_def)
      define x1 where "x1 = x\<lparr>dma_buf := b\<rparr>"
      define x2 where "x2 = card_write daddr (take n b) x1"
      define w2 where "w2 = w1\<lparr>xcalls := Suc (xcalls w1)\<rparr>"
      define e where "e = dma_err (dma_end G (xcalls w1))"
      define x3 where "x3 = x2\<lparr>out_bytes_dma := out_bytes_dma x2 + k, out_bytes := out_bytes x2 + k\<rparr>"
      have bx: "dma_buf x1 = b" by (simp add: x1_def)
      have sync: "mic_sync_dma G (dma_to_card daddr n) x1 w1 = Some (if e \<noteq> 0 then (e, x1, w2) else (0, x2, w2))"
        by (simp add: mic_sync_dma_def dma_to_card_def rd bx x2_def w2_def e_def [symmetric])
      have loop: "from_user_loop G ubuf len daddr x w =
         (if e \<noteq> 0 then Some (e, x1, w2) else from_user_loop G (ubuf + k) (len - k) (daddr + k) x3 w2)"
        using False Some wr sync
        by (subst from_user_loop.simps)
          (simp add: k_def [symmetric] n_def [symmetric] copy_from_user_def w1_def [symmetric] x1_def [symmetric] x3_def)
      have w2: "umem w2 = umem w" "klive w2 = klive w" "uout w2 = uout w" by (simp_all add: w2_def w1_def)
      have so: "same_but_out x x1" "same_but_out x x3" using buf lb
        by (simp_all add: same_but_out_def x1_def x2_def x3_def card_write_def)
      have bi: "b ! i = bs ! i" if "i < k" for i
        using that kn nB buf bs by (simp add: b_def nth_overwrite)
      have c3: "card x3 (daddr + i) = bs ! i" if "i < k" for i
        using that kn nB lb by (simp add: x3_def x2_def card_write_def bi)
      have f3: "card x3 i = card x i" if "i < daddr \<or> daddr + n \<le> i" for i
        using that lb nB by (auto simp: x3_def x2_def x1_def card_write_def)
      have o3: "out_bytes x3 = out_bytes x + k" by (simp add: x3_def x2_def x1_def card_write_def)
      show ?thesis
      proof (cases "e = 0")
        case False
        then show ?thesis using so(1) w2 by (simp add: loop from_user_post_def stored_def x1_def)
      next
        case True
        have "ok (from_user_loop G (ubuf + k) (len - k) (daddr + k) x3 w2)
          (from_user_post (ubuf + k) (len - k) (daddr + k) (mic_align (len - k) (dma_align G)) x3 w2)"
          using k so(2) buf by (intro less.IH) (simp_all add: same_but_out_fields)
        moreover have tot: "n \<le> mic_align len (dma_align G)" "k + mic_align (len - k) (dma_align G) \<le> mic_align len (dma_align G)"
        proof -
          have "n \<le> mic_align len (dma_align G) \<and> k + mic_align (len - k) (dma_align G) \<le> mic_align len (dma_align G)"
          proof (cases "len \<le> MIC_INT_DMA_BUF_SIZE")
            case True
            then show ?thesis using mic_align_bounds(1) [OF a(1), of len] a(1) by (simp add: n_def k_def mic_align_def)
          next
            case False
            then have kB: "k = MIC_INT_DMA_BUF_SIZE" by (simp add: k_def)
            then have "n = k" using nB kn by simp
            then show ?thesis using mic_align_sub [OF a, of len] False kB mic_align_bounds(1) [OF a(1), of len] k by simp
          qed
          then show "n \<le> mic_align len (dma_align G)" "k + mic_align (len - k) (dma_align G) \<le> mic_align len (dma_align G)" by auto
        qed
        ultimately show ?thesis unfolding loop using True
        proof (simp only: not_True_eq_False simp_thms if_False, elim ok_mono)
          fix r assume "from_user_post (ubuf + k) (len - k) (daddr + k) (mic_align (len - k) (dma_align G)) x3 w2 r"
          then obtain q y v where r: "r = (q, y, v)" and o: "same_but_out x3 y" "umem v = umem w" "klive v = klive w" "uout v = uout w"
            and st: "stored w x3 y (ubuf + k) (daddr + k) (if q = 0 then len - k else 0) (mic_align (len - k) (dma_align G))"
            and ob: "q = 0 \<longrightarrow> out_bytes y = out_bytes x + len"
            using k by (cases r) (auto simp: from_user_post_def w2 o3 stored_def)
          have "stored w x y ubuf daddr (if q = 0 then len else 0) (mic_align len (dma_align G))"
            unfolding stored_def
          proof (intro conjI allI impI)
            fix i assume i: "i < (if q = 0 then len else 0)"
            show "\<exists>t. umem w t (ubuf + i) = Some (card y (daddr + i))"
            proof (cases "i < k")
              case True
              have "card y (daddr + i) = card x3 (daddr + i)" using st True unfolding stored_def by auto
              then show ?thesis using True c3 bs(2) by metis
            next
              case False
              then have "i - k < (if q = 0 then len - k else 0)" using i by (auto split: if_splits)
              then obtain t where "umem w t (ubuf + k + (i - k)) = Some (card y (daddr + k + (i - k)))"
                using st unfolding stored_def by blast
              then show ?thesis using False by auto
            qed
          next
            fix i assume i: "i < daddr \<or> daddr + mic_align len (dma_align G) \<le> i"
            have "card y i = card x3 i" using st i tot unfolding stored_def by auto
            also have "\<dots> = card x i" using i tot by (intro f3) auto
            finally show "card y i = card x i" .
          qed
          then show "from_user_post ubuf len daddr (mic_align len (dma_align G)) x w r"
            using o same_but_out_trans [OF so(2) o(1)] ob unfolding r from_user_post_def by simp
        qed
      qed
    qed
  qed
qed
text \<open>
  C20: for every race, engine and alignment a copy to the card never leaves the DMA buffer,
  changes the card's memory only within the descriptor, and when it succeeds the card holds
  at every place a byte that the user's buffer had there at some moment of the call.
\<close>

theorem mic_copy_from_user_delivers:
  assumes "io_env_ok G" and "length (dma_buf x) = MIC_INT_DMA_BUF_SIZE" and "len \<le> dlen"
  shows "ok (mic_virtio_copy_from_user G ubuf len daddr dlen x w) (\<lambda>(r, x', w').
     same_but_out x x' \<and> umem w' = umem w \<and> klive w' = klive w \<and> uout w' = uout w \<and>
     (\<forall>i. i < daddr \<or> daddr + dlen \<le> i \<longrightarrow> card x' i = card x i) \<and>
     (r = 0 \<longrightarrow> (\<forall>i<len. \<exists>t. umem w t (ubuf + i) = Some (card x' (daddr + i))) \<and> out_bytes x' = out_bytes x + len))"
proof (cases "daddr mod dma_align G \<noteq> 0 \<or> dlen < mic_align len (dma_align G)")
  case True
  define y where "y = (if daddr mod dma_align G \<noteq> 0 then x\<lparr>tx_dst_unaligned := tx_dst_unaligned x + len\<rparr>
    else x\<lparr>tx_len_unaligned := tx_len_unaligned x + len\<rparr>)"
  have y: "same_but_out x y" "card y = card x" "out_bytes y = out_bytes x"
    by (simp_all add: y_def same_but_out_def)
  have "mic_virtio_copy_from_user G ubuf len daddr dlen x w = Some (memcpy_to_card ubuf len daddr y w)"
    using True by (auto simp: mic_virtio_copy_from_user_def y_def)
  then show ?thesis using memcpy_to_card_post [OF assms(3), of ubuf daddr y w] same_but_out_trans [OF y(1)] y(2,3)
    by (auto simp: from_user_post_def stored_def split: if_splits)
next
  case False
  then have "mic_virtio_copy_from_user G ubuf len daddr dlen x w = from_user_loop G ubuf len daddr x w"
    by (simp add: mic_virtio_copy_from_user_def)
  then show ?thesis using from_user_loop_post [OF assms(1,2), of ubuf len daddr w] False
    by (auto elim!: ok_mono simp: from_user_post_def stored_def split: if_splits)
qed

section \<open>The walk over a chain\<close>

text \<open>What every transfer leaves alone: all but the card's memory, the buffer and the statistics.\<close>

definition io_frame :: "mic_io \<Rightarrow> mic_io \<Rightarrow> bool" where
  "io_frame x x' \<longleftrightarrow> length (dma_buf x') = length (dma_buf x) \<and> riov x' = riov x \<and> wiov x' = wiov x \<and>
     io_head x' = io_head x \<and> used_ring x' = used_ring x \<and> io_mutex x' = io_mutex x"

lemma io_frame_refl [simp]: "io_frame x x"
  by (simp add: io_frame_def)

lemma io_frame_trans: "io_frame x y \<Longrightarrow> io_frame y z \<Longrightarrow> io_frame x z"
  by (simp add: io_frame_def)

definition world_frame :: "'z world_scheme \<Rightarrow> 'z world_scheme \<Rightarrow> bool" where
  "world_frame w w' \<longleftrightarrow> umem w' = umem w \<and> klive w' = klive w"

lemma world_frame_refl [simp]: "world_frame w w"
  by (simp add: world_frame_def)

lemma world_frame_trans: "world_frame w w1 \<Longrightarrow> world_frame w1 w2 \<Longrightarrow> world_frame w w2"
  by (simp add: world_frame_def)

lemma to_user_frame:
  assumes "io_env_ok G" and "length (dma_buf x) = MIC_INT_DMA_BUF_SIZE"
  shows "ok (mic_virtio_copy_to_user G ubuf len daddr x w) (\<lambda>(r, x', w'). io_frame x x' \<and> world_frame w w')"
proof -
  have fr: "same_but_in x y \<Longrightarrow> io_frame x y" for x y by (simp add: io_frame_def same_but_in_fields)
  define off where "off = daddr mod dma_align G"
  have off: "off \<le> min (len + off) MIC_INT_DMA_BUF_SIZE"
    using offset_bounds(1) [OF assms(1), of daddr] offset_bounds(2) [OF assms(1)] by (simp add: off_def)
  show ?thesis
  proof (cases "len + off = 0")
    case True
    then show ?thesis by (simp add: mic_virtio_copy_to_user_def off_def [symmetric] to_user_zero)
  next
    case False
    then have "0 < len + off" by simp
    then show ?thesis unfolding mic_virtio_copy_to_user_def Let_def off_def [symmetric]
    proof (rule to_user_pass [OF assms(1,2) _ off])
      fix e x' w' assume "to_user_loop G ubuf (len + off) (daddr - off) off x w = Some (e, x', w')" "same_but_in x x'"
        "umem w' = umem w" "klive w' = klive w"
      then show "ok (to_user_loop G ubuf (len + off) (daddr - off) off x w) (\<lambda>(r, x', w'). io_frame x x' \<and> world_frame w w')"
        using fr by (simp add: world_frame_def)
    next
      fix x' w' k
      assume go: "to_user_loop G ubuf (len + off) (daddr - off) off x w =
          to_user_loop G (ubuf + min (len + off) MIC_INT_DMA_BUF_SIZE) (len + off - min (len + off) MIC_INT_DMA_BUF_SIZE)
            (daddr - off + min (len + off) MIC_INT_DMA_BUF_SIZE) 0 x' w'"
        "same_but_in x x'" "umem w' = umem w" "klive w' = klive w"
      have "length (dma_buf x') = MIC_INT_DMA_BUF_SIZE" using go(2) assms(2) by (simp add: same_but_in_fields)
      from to_user_aligned [OF assms(1) this]
      show "ok (to_user_loop G ubuf (len + off) (daddr - off) off x w) (\<lambda>(r, x', w'). io_frame x x' \<and> world_frame w w')"
        unfolding go(1)
        by (rule ok_mono) (use go(2-4) fr in \<open>auto simp: to_user_post_def world_frame_def intro: io_frame_trans\<close>)
    qed
  qed
qed

lemma transfer_frame:
  assumes "io_env_ok G" and "length (dma_buf x) = MIC_INT_DMA_BUF_SIZE" and "n \<le> l"
  shows "ok (mic_transfer G rd ubuf n base l x w) (\<lambda>(r, x', w'). io_frame x x' \<and> world_frame w w')"
proof -
  have "ok (mic_virtio_copy_from_user G ubuf n base l x w) (\<lambda>(r, x', w'). io_frame x x' \<and> world_frame w w')"
  proof (cases "base mod dma_align G \<noteq> 0 \<or> l < mic_align n (dma_align G)")
    case True
    then show ?thesis
      by (auto simp: mic_virtio_copy_from_user_def memcpy_to_card_def card_write_def copy_from_user_def io_frame_def
        world_frame_def split: option.splits)
  next
    case False
    then have e: "mic_virtio_copy_from_user G ubuf n base l x w = from_user_loop G ubuf n base x w"
      by (simp add: mic_virtio_copy_from_user_def)
    show ?thesis unfolding e using from_user_loop_post [OF assms(1,2)]
      by (rule ok_mono) (auto simp: from_user_post_def io_frame_def world_frame_def same_but_out_fields)
  qed
  then show ?thesis using to_user_frame [OF assms(1,2), of ubuf n base w] by (simp add: mic_transfer_def)
qed

text \<open>
  A direction is well formed when its position is within its descriptors; \<open>kiov_done\<close> counts
  the bytes behind the position.
\<close>

definition kiov_ok :: "kiov \<Rightarrow> bool" where
  "kiov_ok v \<longleftrightarrow> ki v \<le> kused v \<and> kused v \<le> length (kvec v)"

definition kiov_done :: "kiov \<Rightarrow> nat" where
  "kiov_done v = kconsumed v + sum_list (map snd (take (ki v) (kvec v)))"

lemma consumed_done: "mic_vringh_iov_consumed v = of_nat (kiov_done v)"
proof -
  have "sum_list (map (of_nat \<circ> snd) ys) = (of_nat (sum_list (map snd ys)) :: u32)" for ys :: "(nat \<times> nat) list"
    by (induction ys) auto
  then show ?thesis by (simp add: mic_vringh_iov_consumed_def kiov_done_def)
qed

lemma kiov_advance_ok:
  assumes "kiov_ok v" and "ki v < kused v"
  shows "kiov_ok (kiov_advance n base l v)" and "kused (kiov_advance n base l v) = kused v"
    and "kiov_done (kiov_advance n base l v) = kiov_done v + n"
  using assms by (auto simp: kiov_ok_def kiov_advance_def kiov_done_def Let_def take_Suc_conv_app_nth)

lemma vringh_copy_ok:
  assumes G: "io_env_ok G" and "length (dma_buf x) = MIC_INT_DMA_BUF_SIZE" and "kiov_ok v"
  shows "ok (mic_vringh_copy G rd v ubuf len tot x w) (\<lambda>(ret, t, v', x', w'). io_frame x x' \<and> world_frame w w' \<and>
    kiov_ok v' \<and> tot \<le> t \<and> t \<le> tot + len \<and> kiov_done v' + tot = kiov_done v + t \<and>
    (ret = 0 \<longrightarrow> t = tot + len \<or> ki v' = kused v'))"
  using assms
proof (induction G rd v ubuf len tot x w rule: mic_vringh_copy.induct)
  case (1 G rd v ubuf len tot x w)
  show ?case
  proof (cases "len = 0 \<or> used_up v")
    case True
    then show ?thesis using "1.prems"
      by (subst mic_vringh_copy.simps) (auto simp: used_up_def kiov_ok_def)
  next
    case False
    then have v: "ki v < kused v" "ki v < length (kvec v)" using "1.prems" by (auto simp: used_up_def kiov_ok_def)
    obtain base l where e: "kvec v ! ki v = (base, l)" by (metis prod.exhaust)
    then have g: "buf_get (kvec v) (ki v) = Some (base, l)" using v by (simp add: buf_get_def)
    define k where "k = min l len"
    obtain r x1 w1 where t: "mic_transfer G rd ubuf k base l x w = Some (r, x1, w1)"
      and f: "io_frame x x1" "world_frame w w1"
      using transfer_frame [OF "1.prems"(1,2), of k l rd ubuf base w]
      by (auto simp: k_def elim!: okE)
    have step: "mic_vringh_copy G rd v ubuf len tot x w =
       (if r \<noteq> 0 then Some (r, tot, v, x1, w1)
        else mic_vringh_copy G rd (kiov_advance k base l v) (ubuf + k) (len - k) (tot + k) x1 w1)"
      using False g t by (subst mic_vringh_copy.simps) (simp add: k_def Let_def)
    show ?thesis
    proof (cases "r = 0")
      case False
      then show ?thesis using f "1.prems" by (simp add: step)
    next
      case True
      have "ok (mic_vringh_copy G rd (kiov_advance k base l v) (ubuf + k) (len - k) (tot + k) x1 w1)
        (\<lambda>(ret, t, v', x', w'). io_frame x1 x' \<and> world_frame w1 w' \<and> kiov_ok v' \<and> tot + k \<le> t \<and> t \<le> tot + k + (len - k) \<and>
          kiov_done v' + (tot + k) = kiov_done (kiov_advance k base l v) + t \<and> (ret = 0 \<longrightarrow> t = tot + k + (len - k) \<or> ki v' = kused v'))"
        using f "1.prems" v True
        by (intro "1.IH" [OF False g refl k_def t refl refl]) (simp_all add: io_frame_def kiov_advance_ok)
      then show ?thesis unfolding step using f True v "1.prems"(3)
        by (auto elim!: ok_mono simp: kiov_advance_ok k_def intro: io_frame_trans world_frame_trans)
    qed
  qed
qed

section \<open>The copy request\<close>

definition io_ok :: "mic_io \<Rightarrow> bool" where
  "io_ok x \<longleftrightarrow> length (dma_buf x) = MIC_INT_DMA_BUF_SIZE \<and> kiov_ok (riov x) \<and> kiov_ok (wiov x)"

text \<open>The bytes of the chain at hand that are done, as the used ring reports them.\<close>

definition chain_consumed :: "mic_io \<Rightarrow> u32" where
  "chain_consumed x = mic_vringh_iov_consumed (riov x) + mic_vringh_iov_consumed (wiov x)"

text \<open>The part of the state that only the completion of a chain changes.\<close>

definition ring_frame :: "mic_io \<Rightarrow> mic_io \<Rightarrow> bool" where
  "ring_frame x x' \<longleftrightarrow> io_head x' = io_head x \<and> used_ring x' = used_ring x \<and> io_mutex x' = io_mutex x"

lemma of_nat_add_eq: "(a :: nat) = b + c \<Longrightarrow> (of_nat a :: u32) = of_nat b + of_nat c"
  by simp

lemma copy_pass_ok:
  assumes "io_env_ok G" and "io_ok x"
  shows "ok (copy_pass G ubuf len x w) (\<lambda>(ret, n, x', w'). io_ok x' \<and> ring_frame x x' \<and> world_frame w w' \<and>
     (ret = 0 \<longrightarrow> chain_consumed x' = chain_consumed x + of_nat n \<and> n \<le> len \<and> (n = len \<or> chain_done x')))"
proof -
  have x: "length (dma_buf x) = MIC_INT_DMA_BUF_SIZE" "kiov_ok (riov x)" "kiov_ok (wiov x)"
    using assms(2) by (simp_all add: io_ok_def)
  from vringh_copy_ok [OF assms(1) x(1,2), of True ubuf len 0 w]
  obtain r n v x1 w1 where c1: "mic_vringh_copy G True (riov x) ubuf len 0 x w = Some (r, n, v, x1, w1)"
    and f1: "io_frame x x1" "world_frame w w1" "kiov_ok v" "n \<le> len" "kiov_done v = kiov_done (riov x) + n"
      "r = 0 \<Longrightarrow> n = len \<or> ki v = kused v"
    by (auto elim!: okE)
  define x2 where "x2 = x1\<lparr>riov := v\<rparr>"
  have x2: "length (dma_buf x2) = MIC_INT_DMA_BUF_SIZE" "kiov_ok (riov x2)" "kiov_ok (wiov x2)" "riov x2 = v" "wiov x2 = wiov x"
    and fx2: "ring_frame x x2"
    using f1 x by (simp_all add: x2_def io_frame_def ring_frame_def)
  have wx: "wiov x1 = wiov x2" by (simp add: x2_def)
  show ?thesis
  proof (cases "r = 0")
    case False
    then show ?thesis using x2 fx2 f1(2) by (simp add: copy_pass_def c1 x2_def [symmetric] io_ok_def)
  next
    case True
    from vringh_copy_ok [OF assms(1) x2(1,3), of False "ubuf + n" "len - n" 0 w1]
    obtain s n' u x3 w3 where c2: "mic_vringh_copy G False (wiov x2) (ubuf + n) (len - n) 0 x2 w1 = Some (s, n', u, x3, w3)"
      and f3: "io_frame x2 x3" "world_frame w1 w3" "kiov_ok u" "n' \<le> len - n" "kiov_done u = kiov_done (wiov x2) + n'"
        "s = 0 \<Longrightarrow> n' = len - n \<or> ki u = kused u"
      by (auto elim!: okE)
    define x4 where "x4 = x3\<lparr>wiov := u\<rparr>"
    have x4: "io_ok x4" "ring_frame x x4" "riov x4 = v" "wiov x4 = u"
      using f3 x2 fx2 by (simp_all add: x4_def io_frame_def ring_frame_def io_ok_def)
    have con: "chain_consumed x4 = chain_consumed x + of_nat (n + n')"
      using f1(5) f3(5) x4 x2 by (simp add: chain_consumed_def consumed_done)
    have "copy_pass G ubuf len x w = Some (s, if s \<noteq> 0 then n else n + n', x4, w3)"
      using c2 True wx by (simp add: copy_pass_def c1 x2_def [symmetric] x4_def)
    then show ?thesis using x4 con f1 f3 True world_frame_trans [OF f1(2) f3(2)]
      by (auto simp: chain_done_def)
  qed
qed

lemma next_iovec_frame: "next_iovec G p ubuf len w = (r, w') \<Longrightarrow> world_frame w w'"
  by (auto simp: next_iovec_def copy_from_user_def world_frame_def split: if_splits option.splits)

lemma iovec_loop_ok:
  assumes "io_env_ok G" and "io_ok x"
  shows "ok (iovec_loop G p cnt ubuf len out ret x w) (\<lambda>(ret', out', x', w'). io_ok x' \<and> ring_frame x x' \<and> world_frame w w' \<and>
     (ret' = 0 \<or> cnt = 0 \<longrightarrow> chain_consumed x' + out = chain_consumed x + out'))"
  using assms(2)
proof (induction cnt arbitrary: p ubuf len out ret x w)
  case 0
  then show ?case by (subst iovec_loop.simps) (simp add: ring_frame_def)
next
  case (Suc cnt)
  obtain nx w1 where nx: "next_iovec G p ubuf len w = (nx, w1)" by (metis prod.exhaust)
  note w1 = next_iovec_frame [OF nx]
  show ?case
  proof (cases nx)
    case None
    then show ?thesis using nx w1 Suc.prems by (subst iovec_loop.simps) (simp add: ring_frame_def)
  next
    case (Some e)
    obtain b l where e: "e = (b, l)" by (metis prod.exhaust)
    from copy_pass_ok [OF assms(1) Suc.prems, of b l w1] obtain r n x2 w2
      where c: "copy_pass G b l x w1 = Some (r, n, x2, w2)" and f: "io_ok x2" "ring_frame x x2" "world_frame w1 w2"
        "r = 0 \<Longrightarrow> chain_consumed x2 = chain_consumed x + of_nat n" "r = 0 \<Longrightarrow> n = l \<or> chain_done x2"
      by (auto elim!: okE)
    have w2: "world_frame w w2" by (rule world_frame_trans [OF w1 f(3)])
    have step: "iovec_loop G p (Suc cnt) ubuf len out ret x w =
       (if r \<noteq> 0 \<or> chain_done x2 then Some (r, out + of_nat n, x2, w2)
        else iovec_loop G (p + sizeof_iovec G) cnt (b + n) 0 (out + of_nat n) r x2 w2)"
      using f(5) by (subst iovec_loop.simps) (auto simp: nx Some e c)
    show ?thesis
    proof (cases "r \<noteq> 0 \<or> chain_done x2")
      case True
      then show ?thesis using f w2 by (auto simp: step)
    next
      case False
      show ?thesis unfolding step if_not_P [OF False]
        by (rule ok_mono [OF Suc.IH [OF f(1), of "p + sizeof_iovec G" "b + n" 0 "out + of_nat n" r w2]])
          (use f False w2 in \<open>auto simp: ring_frame_def intro: world_frame_trans\<close>)
    qed
  qed
qed
text \<open>What the library promises of a fetched chain: well formed, at its start.\<close>

definition fresh_chains :: "mic_io_env \<Rightarrow> bool" where
  "fresh_chains G \<longleftrightarrow> (\<forall>n. case getdesc G n of (r, rv, wv, h, i) \<Rightarrow>
     kiov_ok rv \<and> kiov_ok wv \<and> kiov_done rv = 0 \<and> kiov_done wv = 0)"

text \<open>
  The result of working on the chain that \<open>x\<close> has: nothing is completed, or the chain at
  hand is, once, with the number of bytes done.
\<close>

definition chain_result :: "mic_copy_desc \<Rightarrow> mic_io \<Rightarrow> u32 \<Rightarrow> u16 \<Rightarrow> int \<Rightarrow> u32 \<Rightarrow> mic_io \<Rightarrow> bool" where
  "chain_result c x start h r out x' \<longleftrightarrow>
     used_ring x' = used_ring x \<and> (r = 0 \<longrightarrow> chain_consumed x' = start + out) \<or>
     update_used c \<and> out \<noteq> 0 \<and> h \<noteq> -1 \<and> io_head x' = -1 \<and> chain_done x' \<and>
       (\<exists>total. used_ring x' = (h, total) # used_ring x \<and> (r = 0 \<longrightarrow> total = start + out))"

definition fetched_head :: "mic_io_env \<Rightarrow> 'z world_scheme \<Rightarrow> u16" where
  "fetched_head G w = (case getdesc G (Suc (xcalls w)) of (r, rv, wv, h, i) \<Rightarrow> h)"

lemma mic_notify_fields [simp]:
  "used_ring (mic_notify x) = used_ring x" "io_head (mic_notify x) = io_head x" "io_mutex (mic_notify x) = io_mutex x"
  "dma_buf (mic_notify x) = dma_buf x"
  by (simp_all add: mic_notify_def)

lemma complete_chain_fields:
  "complete_chain G x w = (x', w') \<Longrightarrow> used_ring x' = (io_head x, chain_consumed x) # used_ring x \<and> io_head x' = -1 \<and>
   chain_done x' \<and> io_mutex x' = io_mutex x \<and> (io_ok x \<longrightarrow> io_ok x') \<and> world_frame w w'"
  by (auto simp: complete_chain_def chain_consumed_def chain_done_def kiov_empty_def io_ok_def kiov_ok_def
    world_frame_def Let_def split: if_splits)

lemma copy_chain_ok:
  assumes "io_env_ok G" and "io_ok x"
  shows "ok (copy_chain G c ret x w) (\<lambda>(r, c', x', w'). io_ok x' \<and> io_mutex x' = io_mutex x \<and> world_frame w w' \<and>
     chain_result c x (chain_consumed x) (io_head x) r (out_len c') x')"
proof -
  from iovec_loop_ok [OF assms, of "u_iov c" "unat (iovcnt c)" 0 0 0 ret w]
  obtain r out x1 w1 where l: "iovec_loop G (u_iov c) (unat (iovcnt c)) 0 0 0 ret x w = Some (r, out, x1, w1)"
    and f: "io_ok x1" "ring_frame x x1" "world_frame w w1" "r = 0 \<Longrightarrow> chain_consumed x1 = chain_consumed x + out"
    by (auto elim!: okE)
  show ?thesis
  proof (cases "io_head x1 \<noteq> -1 \<and> out \<noteq> 0 \<and> update_used c")
    case False
    then show ?thesis using f by (simp add: copy_chain_def l ring_frame_def chain_result_def del: de_Morgan_conj)
  next
    case True
    obtain x2 w2 where c: "complete_chain G x1 w1 = (x2, w2)" by (metis prod.exhaust)
    note d = complete_chain_fields [OF c]
    have "copy_chain G c ret x w = Some (r, c\<lparr>out_len := out\<rparr>, x2, w2)"
      using True by (simp add: copy_chain_def l c)
    then show ?thesis using d f True world_frame_trans [OF f(3), of w2]
      by (simp add: ring_frame_def chain_result_def)
  qed
qed

section \<open>Witnesses\<close>

definition io_env_ex :: mic_io_env where
  "io_env_ex = \<lparr>dma_align = 64, dma_end = (\<lambda>n. Waited 0),
     getdesc = (\<lambda>n. (1, \<lparr>kvec = [(128, 4)], ki = 0, kused = 1, kconsumed = 0\<rparr>, kiov_empty, 3, 1)),
     need_notify = (\<lambda>n. 1), vdevup = (\<lambda>n. True), sizeof_iovec = 16, v_base = (\<lambda>b. 1000), v_len = (\<lambda>b. 4)\<rparr>"

definition io_ex :: mic_io where
  "io_ex = \<lparr>card = (\<lambda>a. of_nat a), dma_buf = replicate MIC_INT_DMA_BUF_SIZE 0, in_bytes = 0, in_bytes_dma = 0, out_bytes = 0,
     out_bytes_dma = 0, tx_dst_unaligned = 0, tx_len_unaligned = 0, riov = kiov_empty, wiov = kiov_empty, io_head = -1,
     info_avail_idx = 0, io_last_avail_idx = 0, used_ring = [], h2c_vdev_db = 5, intrs = [], io_mutex = False\<rparr>"

definition io_world :: world where
  "io_world = \<lparr>umem = (\<lambda>t a. Some (of_nat (a + t))), utime = 0, uout = [], kfail = (\<lambda>n. False), kjunk = (\<lambda>n i. 0),
     knext = 0, klive = [], xcalls = 0\<rparr>"

lemma buf_size: "MIC_INT_DMA_BUF_SIZE = 65536"
  by (simp add: MIC_INT_DMA_BUF_SIZE_def page_align_def mic_align_def)

lemma io_ex_facts:
  "io_env_ok io_env_ex" "dma_works io_env_ex" "length (dma_buf io_ex) = MIC_INT_DMA_BUF_SIZE" "user_mapped io_world"
  "fresh_chains io_env_ex" "io_ok io_ex" "\<not> io_mutex io_ex" "dma_align io_env_ex = 64" "chain_done io_ex"
  by (simp_all add: io_env_ok_def dma_works_def dma_err_def user_mapped_def fresh_chains_def io_ok_def io_env_ex_def io_ex_def
    kiov_ok_def kiov_done_def kiov_empty_def io_world_def buf_size chain_done_def)


lemma mic_copy_to_user_overrun_witness:
  "ok (mic_virtio_copy_to_user io_env_ex 1000 65536 1 io_ex io_world) (\<lambda>(r, x', w'). r = 0 \<and>
     (\<exists>new. uout w' = new @ uout io_world \<and> (\<forall>m. user_after new m 66536 = 0 \<and> user_after new m 66535 = m 66535)))"
proof -
  have "1 mod dma_align io_env_ex \<noteq> 0" "MIC_INT_DMA_BUF_SIZE < 65536 + 1 mod dma_align io_env_ex"
    by (simp_all add: io_ex_facts(8) buf_size)
  from mic_copy_to_user_overrun [OF io_ex_facts(1,3) this io_ex_facts(2,4), of 1000] show ?thesis
    by (rule ok_mono) (auto simp: io_ex_facts(8) buf_size io_ex_def)
qed

lemma mic_copy_from_user_delivers_witness:
  "ok (mic_virtio_copy_from_user io_env_ex 1000 3 128 64 io_ex io_world) (\<lambda>(r, x', w').
     \<forall>i. i < 128 \<or> 192 \<le> i \<longrightarrow> card x' i = of_nat i)"
  by (rule ok_mono [OF mic_copy_from_user_delivers [OF io_ex_facts(1,3), of 3 64 1000 128 io_world]])
    (auto simp: io_ex_def)


end
