(* ===== verification/RawSrb.thy ===== *)
theory RawSrb
  imports Commctrl
begin

text \<open>
  Raw SCSI requests from user space: \<open>aac_send_raw_srb\<close> of \<open>commctrl.c\<close>. The size of the
  request is fetched first, then the request with that size; its data lies in up to 32
  buffers that user space names in a scatter-gather list of 32-bit or 64-bit entries.
\<close>

section \<open>Data\<close>

text \<open>The request of the user (\<open>struct user_aac_srb\<close>) and of the adapter (\<open>struct aac_srb\<close>), without the list.\<close>

record user_srb =
  us_channel :: u32
  us_id :: u32
  us_lun :: u32
  us_timeout :: u32
  us_flags :: u32
  us_cdb_size :: u32
  us_cdb :: "byte list"
  us_sg_count :: u32

record srb =
  srb_function :: u32
  srb_channel :: u32
  srb_id :: u32
  srb_lun :: u32
  srb_timeout :: u32
  srb_flags :: u32
  srb_retry_limit :: u32
  srb_cdb_size :: u32
  srb_cdb :: "byte list"

text \<open>
  What the code takes from \<open>aacraid.h\<close>: sizes, the position of the field \<open>count\<close>, decoders
  of the user's structures and encoders of the adapter's. \<open>srb_fixed\<close> and \<open>user_fixed\<close> are
  the sizes of the two requests without the one entry their types hold. \<open>srb_put\<close> sets the
  fields of \<open>srb\<close> in the fixed part, \<open>srb_totals\<close> its fields \<open>count\<close> and \<open>sg.count\<close>.
\<close>

record srb_env =
  srb_fixed :: nat
  user_fixed :: nat
  sizeof_sgentry :: nat
  sizeof_sgentry64 :: nat
  sizeof_user_sgentry :: nat
  sizeof_user_sgentry64 :: nat
  sizeof_srb_reply :: nat
  count_off :: nat
  count_dec :: "byte list \<Rightarrow> u32"
  user_dec :: "byte list \<Rightarrow> user_srb"
  user_sg_dec :: "byte list \<Rightarrow> u32 \<times> u32"
  user_sg64_dec :: "byte list \<Rightarrow> u32 \<times> u32 \<times> u32"
  srb_put :: "srb \<Rightarrow> byte list \<Rightarrow> byte list"
  srb_totals :: "u32 \<Rightarrow> u32 \<Rightarrow> byte list \<Rightarrow> byte list"
  sg_enc :: "u32 \<Rightarrow> u32 \<Rightarrow> byte list"
  sg64_enc :: "u32 \<Rightarrow> u32 \<Rightarrow> u32 \<Rightarrow> byte list"
  sg_count :: "byte list \<Rightarrow> u32"
  sg64_count :: "byte list \<Rightarrow> u32"
  SRBF_ExecuteScsi :: u32
  SRB_DataIn :: u32
  SRB_DataOut :: u32
  ScsiPortCommand :: u16
  ScsiPortCommand64 :: u16

text \<open>
  The host: whether the caller has \<open>CAP_SYS_ADMIN\<close>, two options of the adapter, the limit of
  a transfer, the bus address of the \<open>n\<close>-th mapping, and what a transfer from the device
  leaves in a buffer.
\<close>

record srb_host =
  sys_admin :: bool
  sgmap_host64 :: bool
  new_comm :: bool
  max_sectors :: nat
  dma_addr :: "nat \<Rightarrow> u64"
  dma_fill :: "nat \<Rightarrow> byte list \<Rightarrow> byte list"

text \<open>The mappings for the device that were made, latest first.\<close>

record srb_world = world +
  dma_maps :: "(nat \<times> u64) list"

type_synonym 'z sw = "'z srb_world_scheme"

text \<open>A buffer of the list: the user's address, the object, its bytes.\<close>

type_synonym sg_buf = "nat \<times> nat \<times> byte list"

datatype dma_dir = DMA_BIDIRECTIONAL | DMA_TO_DEVICE | DMA_FROM_DEVICE | DMA_NONE

definition data_dir :: "srb_env \<Rightarrow> u32 \<Rightarrow> dma_dir" where
  "data_dir E flags =
     (let d = and flags (or (SRB_DataIn E) (SRB_DataOut E)) in
      if d = SRB_DataOut E then DMA_TO_DEVICE
      else if d = or (SRB_DataIn E) (SRB_DataOut E) then DMA_BIDIRECTIONAL
      else if d = SRB_DataIn E then DMA_FROM_DEVICE
      else DMA_NONE)"

section \<open>The list of buffers\<close>

text \<open>The user's entry \<open>i\<close>, read as a 32-bit or as a 64-bit one: its address and its count.\<close>

definition user_entry :: "srb_env \<Rightarrow> byte list \<Rightarrow> nat \<Rightarrow> (nat \<times> u32) option" where
  "user_entry E u i = do {
     e \<leftarrow> buf_read u (user_fixed E + i * sizeof_user_sgentry E) (sizeof_user_sgentry E);
     (let (a, n) = user_sg_dec E e in Some (unat a, n))
   }"

definition user_entry64 :: "srb_env \<Rightarrow> byte list \<Rightarrow> nat \<Rightarrow> (nat \<times> u32) option" where
  "user_entry64 E u i = do {
     e \<leftarrow> buf_read u (user_fixed E + i * sizeof_user_sgentry64 E) (sizeof_user_sgentry64 E);
     (let (lo, hi, n) = user_sg64_dec E e in Some (unat lo + 2 ^ 32 * unat hi, n))
   }"

text \<open>Storing the adapter's entry \<open>i\<close> behind the fixed part of its request.\<close>

definition put_entry :: "srb_env \<Rightarrow> nat \<Rightarrow> u64 \<Rightarrow> u32 \<Rightarrow> byte list \<Rightarrow> byte list option" where
  "put_entry E i a n d = buf_write d (srb_fixed E + i * sizeof_sgentry E) (sg_enc E (ucast a) n)"

definition put_entry64 :: "srb_env \<Rightarrow> nat \<Rightarrow> u64 \<Rightarrow> u32 \<Rightarrow> byte list \<Rightarrow> byte list option" where
  "put_entry64 E i a n d =
     buf_write d (srb_fixed E + i * sizeof_sgentry64 E) (sg64_enc E (ucast a) (ucast (drop_bit 32 a)) n)"

text \<open>
  The four loops over the list differ in how they read an entry, from where they take the
  number of bytes to copy from the user, and how they store an entry.
\<close>

record sg_view =
  v_entry :: "nat \<Rightarrow> (nat \<times> u32) option"
  v_copy :: "nat \<Rightarrow> u32 option"
  v_put :: "nat \<Rightarrow> u64 \<Rightarrow> u32 \<Rightarrow> byte list \<Rightarrow> byte list option"

text \<open>
  The adapter takes 64-bit entries and the user gave them; the adapter takes them and the user
  gave 32-bit entries; the adapter takes 32-bit entries and the user gave 64-bit ones, or
  32-bit ones. The second loop reads the entries from a 32-bit copy of the list, but the
  bytes to copy from the list read as a 64-bit one.
\<close>

definition view_64_64 :: "srb_env \<Rightarrow> byte list \<Rightarrow> sg_view" where
  "view_64_64 E u = \<lparr>v_entry = user_entry64 E u, v_copy = \<lambda>i. map_option snd (user_entry64 E u i), v_put = put_entry64 E\<rparr>"

definition view_64_32 :: "srb_env \<Rightarrow> byte list \<Rightarrow> sg_view" where
  "view_64_32 E u = \<lparr>v_entry = user_entry E u, v_copy = \<lambda>i. map_option snd (user_entry64 E u i), v_put = put_entry64 E\<rparr>"

definition view_32_64 :: "srb_env \<Rightarrow> byte list \<Rightarrow> sg_view" where
  "view_32_64 E u = \<lparr>v_entry = user_entry64 E u, v_copy = \<lambda>i. map_option snd (user_entry64 E u i), v_put = put_entry E\<rparr>"

definition view_32_32 :: "srb_env \<Rightarrow> byte list \<Rightarrow> sg_view" where
  "view_32_32 E u = \<lparr>v_entry = user_entry E u, v_copy = \<lambda>i. map_option snd (user_entry E u i), v_put = put_entry E\<rparr>"

definition sg_limit :: "srb_host \<Rightarrow> nat" where
  "sg_limit H = (if new_comm H then max_sectors H * 512 else 65536)"

text \<open>Changing the data of a fib.\<close>

definition poke :: "nat \<Rightarrow> (byte list \<Rightarrow> byte list option) \<Rightarrow> aac_dev \<Rightarrow> aac_dev option" where
  "poke i g dev = do {
     f \<leftarrow> get_fib dev i;
     d \<leftarrow> g (fdata (hw_fib_va f));
     Some (set_fib i (f\<lparr>hw_fib_va := (hw_fib_va f)\<lparr>fdata := d\<rparr>\<rparr>) dev)
   }"

text \<open>The data of a buffer, from the user when the request has data for the device; \<open>None\<close> when it cannot be copied.\<close>

definition sg_data :: "u32 option \<Rightarrow> bool \<Rightarrow> nat \<Rightarrow> byte list \<Rightarrow> 'z world_scheme \<Rightarrow> (byte list option \<times> 'z world_scheme) option" where
  "sg_data c out a b w =
     (if out then do {
        c \<leftarrow> c;
        (case copy_from_user a (unat c) w of
           (None, w) \<Rightarrow> Some (None, w)
         | (Some bs, w) \<Rightarrow> do { b \<leftarrow> buf_write b 0 bs; Some (Some b, w) })
      } else Some (Some b, w))"

definition pci_map_single :: "srb_host \<Rightarrow> nat \<Rightarrow> 'z sw \<Rightarrow> u64 \<times> 'z sw" where
  "pci_map_single H k w =
     (let a = dma_addr H (xcalls w) in (a, w\<lparr>xcalls := Suc (xcalls w), dma_maps := (k, a) # dma_maps w\<rparr>))"

text \<open>One pass of a loop: an error code, or 0 and one more buffer. The array of the buffers has 32 places.\<close>

definition sg_pass ::
  "srb_host \<Rightarrow> sg_view \<Rightarrow> bool \<Rightarrow> nat \<Rightarrow> nat \<Rightarrow> sg_buf list \<Rightarrow> u32 \<Rightarrow> aac_dev \<Rightarrow> 'z sw \<Rightarrow>
   (int \<times> sg_buf list \<times> u32 \<times> aac_dev \<times> 'z sw) option" where
  "sg_pass H V out fib i bufs nbytes dev w = do {
     (a, n) \<leftarrow> v_entry V i;
     (if unat n > sg_limit H then Some (- EINVAL, bufs, nbytes, dev, w)
      else (case kmalloc (unat n) w of
          (None, w) \<Rightarrow> Some (- ENOMEM, bufs, nbytes, dev, w)
        | (Some (k, b), w) \<Rightarrow>
            if length bufs \<ge> 32 then None
            else do {
              (r, w) \<leftarrow> sg_data (v_copy V i) out a b w;
              (case r of
                 None \<Rightarrow> Some (- EFAULT, bufs @ [(a, k, b)], nbytes, dev, w)
               | Some b \<Rightarrow>
                   (let (dma, w) = pci_map_single H k w in do {
                      dev \<leftarrow> poke fib (v_put V i dma n) dev;
                      Some (0, bufs @ [(a, k, b)], nbytes + n, dev, w)
                    }))
            }))
   }"

primrec sg_loop ::
  "nat \<Rightarrow> srb_host \<Rightarrow> sg_view \<Rightarrow> bool \<Rightarrow> nat \<Rightarrow> nat \<Rightarrow> sg_buf list \<Rightarrow> u32 \<Rightarrow> aac_dev \<Rightarrow> 'z sw \<Rightarrow>
   (int \<times> sg_buf list \<times> u32 \<times> aac_dev \<times> 'z sw) option" where
  "sg_loop 0 H V out fib i bufs nbytes dev w = Some (0, bufs, nbytes, dev, w)"
| "sg_loop (Suc n) H V out fib i bufs nbytes dev w = do {
     (rc, bufs, nbytes, dev, w) \<leftarrow> sg_pass H V out fib i bufs nbytes dev w;
     (if rc \<noteq> 0 then Some (rc, bufs, nbytes, dev, w) else sg_loop n H V out fib (Suc i) bufs nbytes dev w)
   }"

text \<open>The four loops; \<open>fits64\<close> says that the request has the size of one with 64-bit entries.\<close>

definition sg_lists ::
  "srb_env \<Rightarrow> srb_host \<Rightarrow> bool \<Rightarrow> byte list \<Rightarrow> nat \<Rightarrow> bool \<Rightarrow> nat \<Rightarrow> aac_dev \<Rightarrow> 'z sw \<Rightarrow>
   (int \<times> sg_buf list \<times> u32 \<times> aac_dev \<times> 'z sw) option" where
  "sg_lists E H fits64 u n out fib dev w =
     (if sgmap_host64 H then
        if fits64 then sg_loop n H (view_64_64 E u) out fib 0 [] 0 dev w
        else (case kmalloc (4 + n * sizeof_user_sgentry E) w of
            (None, w) \<Rightarrow> Some (- ENOMEM, [], 0, dev, w)
          | (Some (usg, _), w) \<Rightarrow> do {
              (rc, bufs, nbytes, dev, w) \<leftarrow> sg_loop n H (view_64_32 E u) out fib 0 [] 0 dev w;
              w \<leftarrow> kfree usg w;
              Some (rc, bufs, nbytes, dev, w)
            })
      else if fits64 then sg_loop n H (view_32_64 E u) out fib 0 [] 0 dev w
      else sg_loop n H (view_32_32 E u) out fib 0 [] 0 dev w)"

section \<open>The request\<close>

text \<open>
  Data from the device, back to the user: the number of bytes is read from the fib again. The
  loop makes a pass even when there is no buffer; then it copies from the address 0.
\<close>

definition entry_count :: "srb_env \<Rightarrow> srb_host \<Rightarrow> nat \<Rightarrow> byte list \<Rightarrow> u32 option" where
  "entry_count E H i d =
     (if sgmap_host64 H
      then map_option (sg64_count E) (buf_read d (srb_fixed E + i * sizeof_sgentry64 E) (sizeof_sgentry64 E))
      else map_option (sg_count E) (buf_read d (srb_fixed E + i * sizeof_sgentry E) (sizeof_sgentry E)))"

primrec copy_bufs :: "srb_env \<Rightarrow> srb_host \<Rightarrow> nat \<Rightarrow> byte list \<Rightarrow> sg_buf list \<Rightarrow> 'z world_scheme \<Rightarrow> (bool \<times> 'z world_scheme) option" where
  "copy_bufs E H i d [] w = Some (True, w)"
| "copy_bufs E H i d (x # xs) w = do {
     n \<leftarrow> entry_count E H i d;
     bs \<leftarrow> buf_read (snd (snd x)) 0 (unat n);
     (case copy_to_user (fst x) bs w of
        (True, w) \<Rightarrow> Some (False, w)
      | (False, w) \<Rightarrow> copy_bufs E H (Suc i) d xs w)
   }"

definition copy_data :: "srb_env \<Rightarrow> srb_host \<Rightarrow> byte list \<Rightarrow> sg_buf list \<Rightarrow> 'z world_scheme \<Rightarrow> (bool \<times> 'z world_scheme) option" where
  "copy_data E H d bufs w =
     (if bufs = [] then do { n \<leftarrow> entry_count E H 0 d; (if n = 0 then Some (True, w) else None) }
      else copy_bufs E H 0 d bufs w)"

text \<open>After a successful answer: the data, then the reply, which lies where the request was.\<close>

definition raw_answer ::
  "srb_env \<Rightarrow> srb_host \<Rightarrow> nat \<Rightarrow> nat \<Rightarrow> u32 \<Rightarrow> sg_buf list \<Rightarrow> aac_dev \<Rightarrow> 'z world_scheme \<Rightarrow>
   (int \<times> 'z world_scheme) option" where
  "raw_answer E H fib user_reply flags bufs dev w = do {
     f \<leftarrow> get_fib dev fib;
     let d = fdata (hw_fib_va f);
     (good, w) \<leftarrow> (if and flags (SRB_DataIn E) \<noteq> 0 then copy_data E H d bufs w else Some (True, w));
     (if \<not> good then Some (- EFAULT, w)
      else do {
        reply \<leftarrow> buf_read d 0 (sizeof_srb_reply E);
        (case copy_to_user user_reply reply w of (True, w) \<Rightarrow> Some (- EFAULT, w) | (False, w) \<Rightarrow> Some (0, w))
      })
   }"

definition actual_fibsize :: "srb_env \<Rightarrow> u32 \<Rightarrow> nat" where
  "actual_fibsize E n = srb_fixed E + unat (and n 0xff) * sizeof_sgentry E"

definition actual_fibsize64 :: "srb_env \<Rightarrow> u32 \<Rightarrow> nat" where
  "actual_fibsize64 E n = actual_fibsize E n + unat (and n 0xff) * (sizeof_sgentry64 E - sizeof_sgentry E)"

definition fixed_srb :: "srb_env \<Rightarrow> user_srb \<Rightarrow> srb" where
  "fixed_srb E u = \<lparr>srb_function = SRBF_ExecuteScsi E, srb_channel = us_channel u, srb_id = us_id u, srb_lun = us_lun u,
     srb_timeout = us_timeout u, srb_flags = us_flags u, srb_retry_limit = 0, srb_cdb_size = us_cdb_size u, srb_cdb = us_cdb u\<rparr>"

definition set_fixed :: "srb_env \<Rightarrow> (byte list \<Rightarrow> byte list) \<Rightarrow> byte list \<Rightarrow> byte list option" where
  "set_fixed E g d = do { old \<leftarrow> buf_read d 0 (srb_fixed E); buf_write d 0 (g old) }"

text \<open>Sending the request, and its end. The device fills the buffers while the request waits.\<close>

definition raw_send ::
  "aac_env \<Rightarrow> srb_env \<Rightarrow> srb_host \<Rightarrow> aac_fw \<Rightarrow> nat \<Rightarrow> nat \<Rightarrow> user_srb \<Rightarrow> sg_buf list \<Rightarrow> u32 \<Rightarrow> aac_dev \<Rightarrow> 'z sw \<Rightarrow>
   (int \<times> sg_buf list \<times> aac_dev \<times> 'z sw) option" where
  "raw_send A E H fw fib user_reply us bufs nbytes dev w = do {
     dev \<leftarrow> poke fib (set_fixed E (srb_totals E nbytes (if us_sg_count us \<noteq> 0 then of_nat (length bufs) else 0))) dev;
     (status, dev) \<leftarrow>
       (if sgmap_host64 H
        then aac_fib_send A fw (ScsiPortCommand64 E) fib (actual_fibsize64 E (us_sg_count us)) 1 True None 0 dev
        else aac_fib_send A fw (ScsiPortCommand E) fib (actual_fibsize E (us_sg_count us)) 1 True None 0 dev);
     let bufs = map (\<lambda>(a, k, b). (a, k, dma_fill H k b)) bufs;
     (if status = - ERESTARTSYS then Some (- ERESTARTSYS, bufs, dev, w)
      else if status \<noteq> 0 then Some (- ENXIO, bufs, dev, w)
      else do {
        (rc, w) \<leftarrow> raw_answer E H fib user_reply (us_flags us) bufs dev w;
        Some (rc, bufs, dev, w)
      })
   }"

text \<open>The request that was fetched, as the bytes \<open>u\<close>.\<close>

definition raw_request ::
  "aac_env \<Rightarrow> srb_env \<Rightarrow> srb_host \<Rightarrow> aac_fw \<Rightarrow> nat \<Rightarrow> nat \<Rightarrow> byte list \<Rightarrow> aac_dev \<Rightarrow> 'z sw \<Rightarrow>
   (int \<times> sg_buf list \<times> aac_dev \<times> 'z sw) option" where
  "raw_request A E H fw fib arg u dev w = do {
     let us = user_dec E u;
     let n = us_sg_count us;
     dev \<leftarrow> poke fib (set_fixed E (srb_put E (fixed_srb E us))) dev;
     (if unat n > 32 then Some (- EINVAL, [], dev, w)
      else if actual_fibsize E n \<noteq> length u \<and> actual_fibsize64 E n \<noteq> length u then Some (- EINVAL, [], dev, w)
      else if data_dir E (us_flags us) = DMA_NONE \<and> n \<noteq> 0 then Some (- EINVAL, [], dev, w)
      else do {
        (rc, bufs, nbytes, dev, w) \<leftarrow>
          sg_lists E H (actual_fibsize64 E n = length u) u (unat n) (and (us_flags us) (SRB_DataOut E) \<noteq> 0) fib dev w;
        (if rc \<noteq> 0 then Some (rc, bufs, dev, w)
         else raw_send A E H fw fib (arg + length u) us bufs nbytes dev w)
      })
   }"

primrec free_bufs :: "sg_buf list \<Rightarrow> 'z world_scheme \<Rightarrow> 'z world_scheme option" where
  "free_bufs [] w = Some w"
| "free_bufs (x # xs) w = do { w \<leftarrow> kfree (fst (snd x)) w; free_bufs xs w }"

definition raw_cleanup ::
  "aac_env \<Rightarrow> nat \<Rightarrow> nat option \<Rightarrow> sg_buf list \<Rightarrow> int \<Rightarrow> aac_dev \<Rightarrow> 'z sw \<Rightarrow> (int \<times> aac_dev \<times> 'z sw) option" where
  "raw_cleanup A fib usr bufs rcode dev w = do {
     w \<leftarrow> (case usr of None \<Rightarrow> Some w | Some k \<Rightarrow> kfree k w);
     w \<leftarrow> free_bufs bufs w;
     dev \<leftarrow> (if rcode \<noteq> - ERESTARTSYS
       then do { (_, dev) \<leftarrow> aac_fib_complete A fib dev; aac_fib_free A fib dev } else Some dev);
     Some (rcode, dev, w)
   }"

text \<open>From the fetch of the size on.\<close>

definition raw_fetch ::
  "aac_env \<Rightarrow> srb_env \<Rightarrow> srb_host \<Rightarrow> aac_fw \<Rightarrow> nat \<Rightarrow> nat \<Rightarrow> aac_dev \<Rightarrow> 'z sw \<Rightarrow> (int \<times> aac_dev \<times> 'z sw) option" where
  "raw_fetch A E H fw fib arg dev w =
     (case copy_from_user (arg + count_off E) 4 w of
        (None, w) \<Rightarrow> raw_cleanup A fib None [] (- EFAULT) dev w
      | (Some bs, w) \<Rightarrow>
          let fibsize = unat (count_dec E bs) in
          if fibsize < user_fixed E \<or> fibsize > max_fib_size dev - sizeof_fibhdr A
          then raw_cleanup A fib None [] (- EINVAL) dev w
          else (case kmalloc fibsize w of
              (None, w) \<Rightarrow> raw_cleanup A fib None [] (- ENOMEM) dev w
            | (Some (k, _), w) \<Rightarrow>
                (case copy_from_user arg fibsize w of
                   (None, w) \<Rightarrow> raw_cleanup A fib (Some k) [] (- EFAULT) dev w
                 | (Some u, w) \<Rightarrow> do {
                     (rc, bufs, dev, w) \<leftarrow> raw_request A E H fw fib arg u dev w;
                     raw_cleanup A fib (Some k) bufs rc dev w
                   })))"

definition aac_send_raw_srb ::
  "aac_env \<Rightarrow> srb_env \<Rightarrow> srb_host \<Rightarrow> aac_fw \<Rightarrow> u32 \<Rightarrow> nat \<Rightarrow> aac_dev \<Rightarrow> 'z sw \<Rightarrow> (int \<times> aac_dev \<times> 'z sw) option" where
  "aac_send_raw_srb A E H fw hw_fib_pa arg dev w =
     (if in_reset dev then Some (- EBUSY, dev, w)
      else if \<not> sys_admin H then Some (- EPERM, dev, w)
      else do {
        (fibptr, dev) \<leftarrow> aac_fib_alloc A dev;
        (case fibptr of
           None \<Rightarrow> Some (- ENOMEM, dev, w)
         | Some fib \<Rightarrow> do {
             dev \<leftarrow> aac_fib_init A hw_fib_pa fib dev;
             f \<leftarrow> get_fib dev fib;
             let dev = set_fib fib (set_xfer (\<lambda>x. and x (not (FastResponseCapable A))) f) dev;
             raw_fetch A E H fw fib arg dev w
           })
      })"

section \<open>Facts about the pieces\<close>

text \<open>
  The two requests have the same fixed part and entries of the same sizes, the reply fits into
  the fixed part; the encoders have these sizes, and an entry decodes to its count.
\<close>

definition srb_env_ok :: "srb_env \<Rightarrow> bool" where
  "srb_env_ok E \<longleftrightarrow> user_fixed E = srb_fixed E \<and> sizeof_user_sgentry E = sizeof_sgentry E \<and>
     sizeof_user_sgentry64 E = sizeof_sgentry64 E \<and> sizeof_sgentry E \<le> sizeof_sgentry64 E \<and>
     sizeof_srb_reply E \<le> srb_fixed E \<and>
     (\<forall>s d. length d = srb_fixed E \<longrightarrow> length (srb_put E s d) = srb_fixed E) \<and>
     (\<forall>a b d. length d = srb_fixed E \<longrightarrow> length (srb_totals E a b d) = srb_fixed E) \<and>
     (\<forall>a n. length (sg_enc E a n) = sizeof_sgentry E \<and> sg_count E (sg_enc E a n) = n) \<and>
     (\<forall>lo hi n. length (sg64_enc E lo hi n) = sizeof_sgentry64 E \<and> sg64_count E (sg64_enc E lo hi n) = n)"

text \<open>A device that answers leaves the list of the request alone, and fills no buffer beyond its end.\<close>

definition fw_keeps :: "srb_env \<Rightarrow> aac_fw \<Rightarrow> bool" where
  "fw_keeps E fw \<longleftrightarrow> (\<forall>n hw hw' t. answers fw n hw = Answered hw' t \<longrightarrow>
     drop (srb_fixed E) (fdata hw') = drop (srb_fixed E) (fdata hw))"

definition fills_within :: "srb_host \<Rightarrow> bool" where
  "fills_within H \<longleftrightarrow> (\<forall>k b. length (dma_fill H k b) = length b)"

abbreviation data_of :: "aac_dev \<Rightarrow> nat \<Rightarrow> byte list" where
  "data_of dev i \<equiv> fdata (hw_fib_va (dfibs dev ! i))"

lemma buf_read_write_before:
  "buf_write d off xs = Some d' \<Longrightarrow> o2 + n \<le> off \<Longrightarrow> buf_read d' o2 n = buf_read d o2 n"
  by (auto simp: buf_write_Some_iff buf_read_def drop_take)

lemma buf_read_after_fixed:
  assumes "drop k d' = drop k d" and "length d' = length d" and "k \<le> o2"
  shows "buf_read d' o2 n = buf_read d o2 n"
proof -
  have "drop o2 d' = drop (o2 - k) (drop k d')" and "drop o2 d = drop (o2 - k) (drop k d)" using assms(3) by simp_all
  then have "drop o2 d' = drop o2 d" using assms(1) by simp
  then show ?thesis using assms(2) by (simp add: buf_read_def)
qed

lemma entry_count_fixed:
  assumes "drop (srb_fixed E) d' = drop (srb_fixed E) d" and "length d' = length d"
  shows "entry_count E H j d' = entry_count E H j d"
  using buf_read_after_fixed [OF assms] by (simp add: entry_count_def)

lemma poke_ok:
  assumes "holds_fib A i ys dev" and "ok (g (data_of dev i)) (\<lambda>d. length d = length (data_of dev i) \<and> Q d)"
  shows "ok (poke i g dev) (\<lambda>dev'. holds_fib A i ys dev' \<and> dev_frame A i dev dev' \<and>
    length (data_of dev' i) = length (data_of dev i) \<and> Q (data_of dev' i) \<and>
    header (hw_fib_va (dfibs dev' ! i)) = header (hw_fib_va (dfibs dev ! i)))"
proof -
  have i: "i < length (dfibs dev)" using assms(1) by (simp add: holds_fib_def)
  from assms(2) obtain d where d: "g (data_of dev i) = Some d" "length d = length (data_of dev i)" "Q d" by (auto elim!: okE)
  define f where "f = dfibs dev ! i"
  define dev' where "dev' = set_fib i (f\<lparr>hw_fib_va := (hw_fib_va f)\<lparr>fdata := d\<rparr>\<rparr>) dev"
  have p: "poke i g dev = Some dev'"
    using i d by (simp add: poke_def get_fib_def buf_get_def dev'_def f_def)
  have fr: "dev_frame A i dev dev'" and ds: "done_state (dfibs dev' ! i) \<noteq> 2"
    using i d(2) assms(1) by (simp_all add: dev'_def set_fib_def dev_frame_def f_def hw_size_def holds_fib_def)
  from holds_fib_frame [OF assms(1) fr ds] fr show ?thesis
    using i d by (simp add: p) (simp add: dev'_def set_fib_def f_def)
qed

lemma set_fixed_ok:
  assumes "srb_fixed E \<le> length d" and "length (g (take (srb_fixed E) d)) = srb_fixed E"
  shows "ok (set_fixed E g d) (\<lambda>d'. length d' = length d \<and> drop (srb_fixed E) d' = drop (srb_fixed E) d)"
  using assms by (simp add: set_fixed_def ok_simps)

definition put_any :: "srb_env \<Rightarrow> srb_host \<Rightarrow> nat \<Rightarrow> u64 \<Rightarrow> u32 \<Rightarrow> byte list \<Rightarrow> byte list option" where
  "put_any E H = (if sgmap_host64 H then put_entry64 E else put_entry E)"

lemma put_any_ok:
  assumes "srb_env_ok E" and "srb_fixed E + 32 * sizeof_sgentry64 E \<le> length d" and "i < 32"
  shows "ok (put_any E H i a n d) (\<lambda>d'. length d' = length d \<and> entry_count E H i d' = Some n \<and>
    (\<forall>j<i. entry_count E H j d' = entry_count E H j d))"
proof -
  have sz: "sizeof_sgentry E \<le> sizeof_sgentry64 E" using assms(1) by (simp add: srb_env_ok_def)
  have b: "i * s + s \<le> 32 * sizeof_sgentry64 E" if "s \<le> sizeof_sgentry64 E" for s
  proof -
    have "i * s + s = Suc i * s" by simp
    also have "\<dots> \<le> 32 * sizeof_sgentry64 E" using assms(3) that by (intro mult_le_mono) simp_all
    finally show ?thesis .
  qed
  have before: "j * s + s \<le> i * s" if "j < i" for j s :: nat
    using mult_le_mono1 [OF Suc_leI [OF that], of s] by simp
  have e: "length (sg_enc E x n) = sizeof_sgentry E" "sg_count E (sg_enc E x n) = n"
    "length (sg64_enc E x y n) = sizeof_sgentry64 E" "sg64_count E (sg64_enc E x y n) = n" for x y
    using assms(1) by (simp_all add: srb_env_ok_def)
  show ?thesis
  proof (cases "sgmap_host64 H")
    case True
    define xs where "xs = sg64_enc E (ucast a) (ucast (drop_bit 32 a)) n"
    have x: "length xs = sizeof_sgentry64 E" "sg64_count E xs = n" by (simp_all add: xs_def e)
    then have "srb_fixed E + i * sizeof_sgentry64 E + length xs \<le> length d"
      using b [OF order.refl] assms(2) by (simp only: x)
    then obtain d' where d': "buf_write d (srb_fixed E + i * sizeof_sgentry64 E) xs = Some d'" by (simp add: buf_write_def)
    have p: "put_any E H i a n d = Some d'" using True d' by (simp add: put_any_def put_entry64_def xs_def)
    show ?thesis unfolding p
      using True buf_read_write_same [OF d'] length_buf_write [OF d'] x buf_read_write_before [OF d'] before
      by (simp add: entry_count_def)
  next
    case False
    define xs where "xs = sg_enc E (ucast a) n"
    have x: "length xs = sizeof_sgentry E" "sg_count E xs = n" by (simp_all add: xs_def e)
    then have "srb_fixed E + i * sizeof_sgentry E + length xs \<le> length d"
      using b [OF sz] assms(2) by (simp only: x)
    then obtain d' where d': "buf_write d (srb_fixed E + i * sizeof_sgentry E) xs = Some d'" by (simp add: buf_write_def)
    have p: "put_any E H i a n d = Some d'" using False d' by (simp add: put_any_def put_entry_def xs_def)
    show ?thesis unfolding p
      using False buf_read_write_same [OF d'] length_buf_write [OF d'] x buf_read_write_before [OF d'] before
      by (simp add: entry_count_def)
  qed
qed

section \<open>The loops\<close>

definition bufs_ids :: "sg_buf list \<Rightarrow> nat multiset" where
  "bufs_ids bufs = mset (map (fst \<circ> snd) bufs)"

lemma bufs_ids_simps [simp]: "bufs_ids [] = {#}" "bufs_ids (x # xs) = {#fst (snd x)#} + bufs_ids xs"
  "bufs_ids (xs @ ys) = bufs_ids xs + bufs_ids ys"
  by (simp_all add: bufs_ids_def)

text \<open>The fib holds the list of the buffers, with their sizes.\<close>

definition listed :: "srb_env \<Rightarrow> srb_host \<Rightarrow> byte list \<Rightarrow> sg_buf list \<Rightarrow> bool" where
  "listed E H d bufs \<longleftrightarrow> (\<forall>j<length bufs. \<exists>n. entry_count E H j d = Some n \<and> unat n = length (snd (snd (bufs ! j))))"

text \<open>A fib under construction, in a device that otherwise is \<open>dev0\<close>.\<close>

definition building :: "aac_env \<Rightarrow> srb_env \<Rightarrow> nat \<Rightarrow> nat list \<Rightarrow> aac_dev \<Rightarrow> aac_dev \<Rightarrow> bool" where
  "building A E i ys dev0 dev \<longleftrightarrow> holds_fib A i ys dev \<and> same_pool dev0 dev \<and>
     srb_fixed E + 32 * sizeof_sgentry64 E \<le> length (data_of dev i) \<and>
     hw_size A (hw_fib_va (dfibs dev ! i)) = hw_size A (hw_fib_va (dfibs dev0 ! i)) \<and>
     header (hw_fib_va (dfibs dev ! i)) = header (hw_fib_va (dfibs dev0 ! i))"

lemma building_poke:
  assumes "building A E i ys dev0 dev" and "ok (g (data_of dev i)) (\<lambda>d. length d = length (data_of dev i) \<and> Q d)"
  shows "ok (poke i g dev) (\<lambda>dev'. building A E i ys dev0 dev' \<and> Q (data_of dev' i) \<and>
    length (data_of dev' i) = length (data_of dev i))"
proof -
  have h: "holds_fib A i ys dev" using assms(1) by (simp add: building_def)
  show ?thesis
    by (rule ok_mono [OF poke_ok [where g = g and Q = Q, OF h assms(2)]])
      (use assms(1) same_pool_frame in \<open>auto simp: building_def hw_size_def\<close>)
qed

text \<open>A view that reads entries the request holds, copies as much as it allocates, and stores entries of the adapter's kind.\<close>

definition good_view :: "srb_env \<Rightarrow> srb_host \<Rightarrow> sg_view \<Rightarrow> bool \<Rightarrow> nat \<Rightarrow> bool" where
  "good_view E H V out n \<longleftrightarrow> v_put V = put_any E H \<and>
     (\<forall>i<n. \<exists>a c. v_entry V i = Some (a, c) \<and> (out \<longrightarrow> v_copy V i = Some c))"

definition early_code :: "int \<Rightarrow> bool" where
  "early_code rc \<longleftrightarrow> rc \<in> {- EINVAL, - ENOMEM, - EFAULT}"

definition sg_inv ::
  "aac_env \<Rightarrow> srb_env \<Rightarrow> srb_host \<Rightarrow> nat \<Rightarrow> nat list \<Rightarrow> nat multiset \<Rightarrow> aac_dev \<Rightarrow> sg_buf list \<Rightarrow> aac_dev \<Rightarrow> 'z sw \<Rightarrow> bool" where
  "sg_inv A E H i ys B dev0 bufs dev w \<longleftrightarrow> building A E i ys dev0 dev \<and> mset (klive w) = B + bufs_ids bufs"

definition sg_post ::
  "aac_env \<Rightarrow> srb_env \<Rightarrow> srb_host \<Rightarrow> nat \<Rightarrow> nat list \<Rightarrow> nat multiset \<Rightarrow> aac_dev \<Rightarrow> nat \<Rightarrow> int \<times> sg_buf list \<times> u32 \<times> aac_dev \<times> 'z sw \<Rightarrow> bool" where
  "sg_post A E H i ys B dev0 n = (\<lambda>(rc, bufs, t, dev, w). sg_inv A E H i ys B dev0 bufs dev w \<and>
     (if rc = 0 then length bufs = n \<and> listed E H (data_of dev i) bufs else early_code rc))"

lemma listed_append:
  assumes "listed E H d bufs" and "entry_count E H (length bufs) d' = Some n" and "unat n = length b"
    and "\<forall>j<length bufs. entry_count E H j d' = entry_count E H j d"
  shows "listed E H d' (bufs @ [(a, k, b)])"
  using assms by (auto simp: listed_def nth_append less_Suc_eq)

lemma listed_fixed:
  "drop (srb_fixed E) d' = drop (srb_fixed E) d \<Longrightarrow> length d' = length d \<Longrightarrow> listed E H d' bufs = listed E H d bufs"
  using entry_count_fixed [of E d' d H] by (simp add: listed_def)

lemma sg_data_ok:
  assumes "out \<longrightarrow> c = Some n" and "length b = unat n"
  shows "ok (sg_data c out a b w) (\<lambda>(r, w'). klive w' = klive w \<and> (case r of None \<Rightarrow> True | Some b' \<Rightarrow> length b' = unat n))"
proof (cases out)
  case True
  show ?thesis
  proof (cases "ufetch (umem w (utime w)) a (unat n)")
    case None
    then show ?thesis using True assms by (simp add: sg_data_def copy_from_user_def)
  next
    case (Some bs)
    then have "length bs = unat n" by (rule length_ufetch)
    then show ?thesis using True assms Some by (simp add: sg_data_def copy_from_user_def ok_buf_write ok_bind)
  qed
qed (use assms in \<open>simp add: sg_data_def\<close>)

lemma sg_pass_ok:
  assumes E: "srb_env_ok E" and V: "good_view E H V out n" and i: "i < n" "n \<le> 32"
    and inv: "sg_inv A E H fib ys B dev0 bufs dev w" "length bufs = i" "listed E H (data_of dev fib) bufs"
  shows "ok (sg_pass H V out fib i bufs nb dev w) (sg_post A E H fib ys B dev0 (Suc i))"
proof -
  from V i(1) obtain a c where e: "v_entry V i = Some (a, c)" and cp: "out \<longrightarrow> v_copy V i = Some c" and put: "v_put V = put_any E H"
    by (auto simp: good_view_def)
  show ?thesis
  proof (cases "unat c > sg_limit H \<or> kfail w (knext w)")
    case True
    then show ?thesis using e inv(1)
      by (auto simp: sg_pass_def kmalloc_def Let_def sg_post_def sg_inv_def early_code_def)
  next
    case False
    define k where "k = knext w"
    define b where "b = map (kjunk w k) [0..<unat c]"
    define w1 where "w1 = w\<lparr>knext := Suc k, klive := k # klive w\<rparr>"
    have km: "kmalloc (unat c) w = (Some (k, b), w1)"
      using False by (simp add: kmalloc_def k_def b_def w1_def Let_def)
    have m1: "mset (klive w1) = B + bufs_ids bufs + {#k#}" using inv(1) by (simp add: w1_def sg_inv_def)
    have "length b = unat c" by (simp add: b_def)
    from sg_data_ok [OF cp this] obtain r w2 where d: "sg_data (v_copy V i) out a b w1 = Some (r, w2)"
      and m2: "mset (klive w2) = B + bufs_ids bufs + {#k#}" and lb: "\<And>b'. r = Some b' \<Longrightarrow> length b' = unat c"
      using m1 by (fastforce elim!: okE)
    show ?thesis
    proof (cases r)
      case None
      then show ?thesis using e False km d m2 inv(1,2) i
        by (auto simp: sg_pass_def sg_post_def sg_inv_def early_code_def)
    next
      case (Some b')
      obtain dma w3 where p: "pci_map_single H k w2 = (dma, w3)" by (metis prod.exhaust)
      then have m3: "mset (klive w3) = B + bufs_ids (bufs @ [(a, k, b')])"
        using m2 by (auto simp: pci_map_single_def Let_def)
      have bl: "building A E fib ys dev0 dev" using inv(1) by (simp add: sg_inv_def)
      have "srb_fixed E + 32 * sizeof_sgentry64 E \<le> length (data_of dev fib)" using bl by (simp add: building_def)
      from put_any_ok [OF E this, of i H dma c] i
      have "ok (v_put V i dma c (data_of dev fib)) (\<lambda>d'. length d' = length (data_of dev fib) \<and>
          (entry_count E H i d' = Some c \<and> (\<forall>j<i. entry_count E H j d' = entry_count E H j (data_of dev fib))))"
        by (simp add: put)
      from building_poke [where g = "v_put V i dma c" and Q = "\<lambda>d'. entry_count E H i d' = Some c \<and>
          (\<forall>j<i. entry_count E H j d' = entry_count E H j (data_of dev fib))", OF bl this] obtain dev' where pk: "poke fib (v_put V i dma c) dev = Some dev'"
        and b2: "building A E fib ys dev0 dev'" "entry_count E H i (data_of dev' fib) = Some c"
          "\<forall>j<i. entry_count E H j (data_of dev' fib) = entry_count E H j (data_of dev fib)"
        by (auto elim!: okE)
      have "listed E H (data_of dev' fib) (bufs @ [(a, k, b')])"
        using listed_append [OF inv(3)] b2 inv(2) lb [OF Some] by simp
      then show ?thesis using e False km d Some p pk b2(1) m3 inv(2) i
        by (simp add: sg_pass_def sg_post_def sg_inv_def)
    qed
  qed
qed

lemma sg_loop_ok:
  fixes w :: "'z sw"
  assumes E: "srb_env_ok E" and V: "good_view E H V out N" and n: "i + n = N" "N \<le> 32"
    and inv: "sg_inv A E H fib ys B dev0 bufs dev w" "length bufs = i" "listed E H (data_of dev fib) bufs"
  shows "ok (sg_loop n H V out fib i bufs nb dev w) (sg_post A E H fib ys B dev0 N)"
  using n(1) inv
proof (induction n arbitrary: i bufs nb dev w)
  case 0
  then show ?case by (simp add: sg_post_def)
next
  case (Suc n)
  have i: "i < N" using Suc.prems(1) by simp
  show ?case
  proof (simp, rule ok_bindI [OF sg_pass_ok [OF E V i n(2) Suc.prems(2-4)]], clarify)
    fix rc bufs' nb' dev' w' assume p: "sg_post A E H fib ys B dev0 (Suc i) (rc, bufs', nb', dev', w' :: 'z sw)"
    show "ok (if rc \<noteq> 0 then Some (rc, bufs', nb', dev', w') else sg_loop n H V out fib (Suc i) bufs' nb' dev' w')
        (sg_post A E H fib ys B dev0 N)"
    proof (cases "rc = 0")
      case True
      have "ok (sg_loop n H V out fib (Suc i) bufs' nb' dev' w') (sg_post A E H fib ys B dev0 N)"
        by (rule Suc.IH) (use p True Suc.prems(1) in \<open>simp_all add: sg_post_def\<close>)
      then show ?thesis using True by simp
    next
      case False
      then show ?thesis using p by (simp add: sg_post_def)
    qed
  qed
qed

lemma small_count:
  assumes "unat (c :: u32) \<le> 32"
  shows "unat (and c 0xff) = unat c"
proof -
  have "and c 0xff = take_bit 8 c" by (simp add: take_bit_eq_mask mask_numeral)
  then show ?thesis using assms by (simp add: unsigned_take_bit_eq take_bit_nat_eq_self)
qed

lemma sizes_small:
  assumes "srb_env_ok E" and "unat n \<le> 32"
  shows "actual_fibsize E n = srb_fixed E + unat n * sizeof_sgentry E"
    and "actual_fibsize64 E n = srb_fixed E + unat n * sizeof_sgentry64 E"
proof -
  have "sizeof_sgentry E \<le> sizeof_sgentry64 E" using assms(1) by (simp add: srb_env_ok_def)
  then have "unat n * sizeof_sgentry E + unat n * (sizeof_sgentry64 E - sizeof_sgentry E) = unat n * sizeof_sgentry64 E"
    by (simp add: distrib_left [symmetric])
  then show "actual_fibsize E n = srb_fixed E + unat n * sizeof_sgentry E"
    and "actual_fibsize64 E n = srb_fixed E + unat n * sizeof_sgentry64 E"
    by (simp_all add: actual_fibsize_def actual_fibsize64_def small_count [OF assms(2)])
qed

lemma entry_fits: "i < n \<Longrightarrow> n * s \<le> m \<Longrightarrow> f + i * s + s \<le> f + (m :: nat)"
proof -
  assume "i < n" "n * s \<le> m"
  then have "Suc i * s \<le> m" by (meson Suc_leI le_trans mult_le_mono1)
  then show ?thesis by simp
qed

lemma user_entries:
  assumes "srb_env_ok E" and "i < n"
  shows "length u = srb_fixed E + n * sizeof_sgentry E \<Longrightarrow> \<exists>a c. user_entry E u i = Some (a, c)"
    and "length u = srb_fixed E + n * sizeof_sgentry64 E \<Longrightarrow> \<exists>a c. user_entry64 E u i = Some (a, c)"
  using assms(1) entry_fits [OF assms(2) order.refl, of "srb_fixed E"]
  by (auto simp: user_entry_def user_entry64_def buf_read_def srb_env_ok_def split: prod.splits)

text \<open>All four loops are safe, but the second one only for a request without data for the device.\<close>

lemma sg_lists_ok:
  assumes E: "srb_env_ok E" and n: "n \<le> 32"
    and u: "length u = srb_fixed E + n * (if fits64 then sizeof_sgentry64 E else sizeof_sgentry E)"
    and bug: "sgmap_host64 H \<Longrightarrow> out \<Longrightarrow> fits64"
    and inv: "building A E fib ys dev0 dev" "mset (klive w) = B"
  shows "ok (sg_lists E H fits64 u n out fib dev w) (sg_post A E H fib ys B dev0 n)"
proof -
  have start: "sg_inv A E H fib ys B' dev0 [] dev w" "listed E H (data_of dev fib) []" if "mset (klive w) = B'" for w :: "'a sw" and B'
    using inv(1) that by (simp_all add: sg_inv_def listed_def)
  have e64: "fits64 \<Longrightarrow> i < n \<Longrightarrow> \<exists>a c. user_entry64 E u i = Some (a, c)" for i
    using user_entries(2) [OF E, of i n u] u by simp
  have e32: "\<not> fits64 \<Longrightarrow> i < n \<Longrightarrow> \<exists>a c. user_entry E u i = Some (a, c)" for i
    using user_entries(1) [OF E, of i n u] u by simp
  have loop: "ok (sg_loop n H V out fib 0 [] 0 dev w) (sg_post A E H fib ys B' dev0 n)"
    if "good_view E H V out n" "mset (klive w) = B'" for V B' and w :: "'a sw"
    by (rule sg_loop_ok [OF E that(1) _ n start(1) [OF that(2)] _ start(2) [OF that(2)]]) simp_all
  show ?thesis
  proof (cases "sgmap_host64 H \<and> \<not> fits64")
    case False
    have "good_view E H (view_64_64 E u) out n" if "sgmap_host64 H" "fits64"
      using that e64 by (fastforce simp: good_view_def view_64_64_def put_any_def)
    moreover have "good_view E H (view_32_64 E u) out n" if "\<not> sgmap_host64 H" "fits64"
      using that e64 by (fastforce simp: good_view_def view_32_64_def put_any_def)
    moreover have "good_view E H (view_32_32 E u) out n" if "\<not> sgmap_host64 H" "\<not> fits64"
      using that e32 by (fastforce simp: good_view_def view_32_32_def put_any_def)
    ultimately show ?thesis using False loop inv(2) by (simp add: sg_lists_def)
  next
    case True
    then have view: "good_view E H (view_64_32 E u) out n"
      using e32 bug by (fastforce simp: good_view_def view_64_32_def put_any_def)
    show ?thesis
    proof (cases "kfail w (knext w)")
      case fail: True
      then show ?thesis using True start [of w B] inv(2)
        by (simp add: sg_lists_def kmalloc_def Let_def sg_post_def early_code_def) (simp add: sg_inv_def)
    next
      case False
      define w1 where "w1 = w\<lparr>knext := Suc (knext w), klive := knext w # klive w\<rparr>"
      have "mset (klive w1) = B + {#knext w#}" using inv(2) by (simp add: w1_def)
      from loop [OF view this] obtain rc bufs nb dev' w2
        where l: "sg_loop n H (view_64_32 E u) out fib 0 [] 0 dev w1 = Some (rc, bufs, nb, dev', w2)"
          and p: "sg_post A E H fib ys (B + {#knext w#}) dev0 n (rc, bufs, nb, dev', w2)"
        by (auto elim!: okE)
      then have "mset (klive w2) = B + bufs_ids bufs + {#knext w#}" by (simp add: sg_post_def sg_inv_def)
      from kfree_mset [OF this] obtain w3 where k: "kfree (knext w) w2 = Some w3" and m: "mset (klive w3) = B + bufs_ids bufs"
        by (auto elim!: okE)
      then show ?thesis using True False l p
        by (simp add: sg_lists_def kmalloc_def Let_def w1_def [symmetric]) (simp add: sg_post_def sg_inv_def)
    qed
  qed
qed

section \<open>Sending\<close>

text \<open>Sending leaves the list in the fib alone when the device does.\<close>

definition same_list :: "srb_env \<Rightarrow> nat \<Rightarrow> aac_dev \<Rightarrow> aac_dev \<Rightarrow> bool" where
  "same_list E i dev dev' \<longleftrightarrow> drop (srb_fixed E) (data_of dev' i) = drop (srb_fixed E) (data_of dev i)"

lemma take_answer_list:
  assumes "drop (srb_fixed E) (fdata hw) = drop (srb_fixed E) (data_of dev i)" and "take_answer A i hw t dev = Some dev'"
  shows "same_list E i dev dev'"
  using assms by (auto simp: take_answer_def get_fib_def buf_get_def set_fib_def same_list_def bind_eq_Some_conv split: if_splits)

lemma same_list_trans: "same_list E i a b \<Longrightarrow> same_list E i b c \<Longrightarrow> same_list E i a c"
  by (simp add: same_list_def)

lemma same_list_set:
  "i < length (dfibs dev) \<Longrightarrow> fdata (hw_fib_va f) = data_of dev i \<Longrightarrow> same_list E i dev (set_fib i f dev)"
  by (simp add: same_list_def set_fib_def)

lemma fib_wait_list:
  assumes "fw_keeps E fw" and "fib_wait A fw i wait dev = Some (r, dev')"
  shows "same_list E i dev dev'"
proof -
  obtain f where f: "get_fib dev i = Some f" using assms(2) by (auto simp: fib_wait_def bind_eq_Some_conv)
  then have i: "i < length (dfibs dev)" "f = dfibs dev ! i" by (auto simp: get_fib_def buf_get_def split: if_splits)
  show ?thesis
  proof (cases "answers fw (delivered dev) (hw_fib_va f)")
    case (Answered hw t)
    then have "drop (srb_fixed E) (fdata hw) = drop (srb_fixed E) (data_of dev i)" using assms(1) i(2) by (auto simp: fw_keeps_def)
    from take_answer_list [OF this] show ?thesis using assms(2) f Answered by (auto simp: fib_wait_def bind_eq_Some_conv)
  qed (use assms(2) f i in \<open>auto simp: fib_wait_def same_list_def set_fib_def split: if_splits\<close>)
qed

lemma fib_send_sync_list:
  assumes "fw_keeps E fw" and "fib_send_sync A fw i wait dev = Some (r, dev')"
  shows "same_list E i dev dev'"
proof -
  obtain f where f: "get_fib dev i = Some f" using assms(2) by (auto simp: fib_send_sync_def bind_eq_Some_conv)
  then have i: "i < length (dfibs dev)" "f = dfibs dev ! i" by (auto simp: get_fib_def buf_get_def split: if_splits)
  obtain dev1 where d1: "(if sync_fib dev \<noteq> None then Some (dev\<lparr>sync_fib_list := sync_fib_list dev @ [i]\<rparr>)
        else if unat (Size (header (hw_fib_va f))) > hw_size A (hw_fib_va f) then None
        else Some (dev\<lparr>sync_fib := Some i, delivered := Suc (delivered dev)\<rparr>)) = Some dev1" (is "?m = _")
    using assms(2) f by (cases ?m) (auto simp: fib_send_sync_def)
  then have d: "dfibs dev1 = dfibs dev" by (auto split: if_splits)
  define dev2 where "dev2 = set_fib i (f\<lparr>fflags := or (fflags f) (FIB_CONTEXT_FLAG_WAIT A)\<rparr>) dev1"
  have run: "(if wait = 0 then Some (- EINPROGRESS, dev1)
      else (case answers fw (delivered dev1) (hw_fib_va f) of
           Answered hw timed_out \<Rightarrow> do { dev \<leftarrow> take_answer A i hw timed_out dev2; Some (0, dev) }
         | _ \<Rightarrow> Some (- EFAULT, set_fib i (f\<lparr>fflags := and (fflags f) (not (FIB_CONTEXT_FLAG_WAIT A))\<rparr>) dev2))) = Some (r, dev')"
    using assms(2) f d1 by (auto simp: fib_send_sync_def dev2_def Let_def set_fib_def split: wait_end.splits if_splits)
  have s2: "same_list E i dev dev2" "data_of dev2 i = data_of dev i" "i < length (dfibs dev2)"
    using i d by (simp_all add: same_list_def dev2_def set_fib_def)
  show ?thesis
  proof (cases "answers fw (delivered dev1) (hw_fib_va f)")
    case (Answered hw t)
    then have "drop (srb_fixed E) (fdata hw) = drop (srb_fixed E) (data_of dev2 i)"
      using assms(1) i(2) s2(2) by (auto simp: fw_keeps_def)
    from take_answer_list [OF this] show ?thesis using run Answered s2(1) d
      by (auto simp: same_list_def bind_eq_Some_conv split: if_splits)
  qed (use run s2 d i in \<open>auto simp: same_list_def set_fib_def split: if_splits\<close>)
qed

lemma aac_fib_send_list:
  assumes fw: "fw_keeps E fw" and send: "aac_fib_send A fw cmd i sz wait reply cb d dev = Some (r, dev')"
  shows "same_list E i dev dev'"
proof -
  obtain f where f: "get_fib dev i = Some f" using send by (auto simp: aac_fib_send_def bind_eq_Some_conv)
  then have i: "i < length (dfibs dev)" "f = dfibs dev ! i" by (auto simp: get_fib_def buf_get_def split: if_splits)
  define f1 where "f1 = f\<lparr>fflags := 0\<rparr>"
  define f2 where "f2 = f1\<lparr>hw_fib_va := (hw_fib_va f1)\<lparr>header := send_header A cmd i sz (wait \<noteq> 0) reply (header (hw_fib_va f))\<rparr>\<rparr>"
  define f3 where "f3 = (let f = set_xfer (\<lambda>x. or x (NormalPriority A)) f2;
          f = (if wait = 0 then f\<lparr>callback := cb, callback_data := d, fflags := FIB_CONTEXT_FLAG A\<rparr> else f)
        in f\<lparr>done_state := 0\<rparr>)"
  have fd: "fdata (hw_fib_va f1) = data_of dev i" "fdata (hw_fib_va f2) = data_of dev i" "fdata (hw_fib_va f3) = data_of dev i"
    by (simp_all add: f3_def f2_def f1_def set_xfer_def Let_def i(2))
  define mgmt where "mgmt dev = (if wait \<noteq> 0 then dev\<lparr>management_fib_count := Suc (management_fib_count dev)\<rparr> else dev)" for dev :: aac_dev
  define dev4 where "dev4 = mgmt (set_fib i f3 dev)"
  define dev5 where "dev5 = dev4\<lparr>delivered := Suc (delivered dev4)\<rparr>"
  have s: "same_list E i dev (set_fib i f1 dev)" "same_list E i dev (set_fib i f2 dev)" "same_list E i dev (set_fib i f3 dev)"
    using i fd by (simp_all add: same_list_set)
  then have s4: "same_list E i dev dev4" "same_list E i dev dev5" by (simp_all add: dev4_def dev5_def mgmt_def same_list_def)
  have run: "aac_fib_send A fw cmd i sz wait reply cb d dev =
      (if and (xfer f) (HostOwned A) = 0 then Some (- EBUSY, dev)
       else if wait \<noteq> 0 \<and> \<not> reply then Some (- EINVAL, set_fib i f1 dev)
       else if Size (header (hw_fib_va f2)) > SenderSize (header (hw_fib_va f2)) then Some (- EMSGSIZE, set_fib i f2 dev)
       else if \<not> queues_up (set_fib i f3 dev) then Some (- EBUSY, set_fib i f3 dev)
       else if wait \<noteq> 0 \<and> management_fib_count (set_fib i f3 dev) \<ge> AAC_NUM_MGT_FIB A then Some (- EBUSY, set_fib i f3 dev)
       else if sync_mode dev4 then fib_send_sync A fw i wait dev4
       else do {
                (refused, dev) \<leftarrow> aac_adapter_deliver A fw f3 dev4;
                (if refused
                 then Some (- EBUSY, if wait \<noteq> 0
                   then dev\<lparr>management_fib_count := management_fib_count dev - 1\<rparr> else dev)
                 else if wait \<noteq> 0 then fib_wait A fw i wait dev
                 else Some (if reply then - EINPROGRESS else 0, dev))
              })"
    using f unfolding aac_fib_send_def dev4_def mgmt_def f3_def f2_def f1_def Let_def
    by (cases "and (xfer f) (HostOwned A) = 0") simp_all
  define Q where "Q x \<longleftrightarrow> (\<forall>r dev'. x = Some (r, dev') \<longrightarrow> same_list E i dev dev')" for x :: "(int \<times> aac_dev) option"
  have Q_if: "Q (if c then a else b)" if "Q a" "Q b" for c a b using that by simp
  have Q_leaf: "Q None" "same_list E i dev d' \<Longrightarrow> Q (Some (r', d'))" for d' r' by (simp_all add: Q_def)
  have Q_wait: "Q (fib_wait A fw i wait dev5)" using fib_wait_list [OF fw] same_list_trans [OF s4(2)] by (auto simp: Q_def)
  have Q_sync: "Q (fib_send_sync A fw i wait dev4)" using fib_send_sync_list [OF fw] same_list_trans [OF s4(1)] by (auto simp: Q_def)
  have s6: "same_list E i dev (if wait \<noteq> 0 then dev5\<lparr>management_fib_count := management_fib_count dev5 - 1\<rparr> else dev5)"
    using s4(2) by (simp add: same_list_def)
  have Q_deliver: "Q (do {
                (refused, dev) \<leftarrow> aac_adapter_deliver A fw f3 dev4;
                (if refused
                 then Some (- EBUSY, if wait \<noteq> 0
                   then dev\<lparr>management_fib_count := management_fib_count dev - 1\<rparr> else dev)
                 else if wait \<noteq> 0 then fib_wait A fw i wait dev
                 else Some (if reply then - EINPROGRESS else 0, dev))
              })"
    using Q_wait Q_leaf s4 s6 by (simp add: aac_adapter_deliver_def dev5_def [symmetric])
  have "Q (aac_fib_send A fw cmd i sz wait reply cb d dev)" unfolding run
    by (intro Q_if Q_leaf Q_sync Q_deliver s) (simp add: same_list_def)
  then show ?thesis using send by (simp add: Q_def)
qed

section \<open>The request to its end\<close>

lemma copy_bufs_ok:
  assumes "\<forall>j<length xs. \<exists>n. entry_count E H (i + j) d = Some n \<and> unat n = length (snd (snd (xs ! j)))"
  shows "ok (copy_bufs E H i d xs w) (\<lambda>(r, w'). klive w' = klive w)"
  using assms
proof (induction xs arbitrary: i w)
  case (Cons x xs)
  from Cons.prems obtain n where n: "entry_count E H i d = Some n" "unat n = length (snd (snd x))" by force
  have "\<forall>j<length xs. \<exists>n. entry_count E H (Suc i + j) d = Some n \<and> unat n = length (snd (snd (xs ! j)))"
    using Cons.prems by (metis Suc_less_eq add_Suc_shift length_Cons nth_Cons_Suc)
  note IH = Cons.IH [OF this]
  obtain g w1 where c: "copy_to_user (fst x) (snd (snd x)) w = (g, w1)" by (metis prod.exhaust)
  then have "klive w1 = klive w" by (auto simp: copy_to_user_def split: if_splits)
  then show ?case using n c IH [of w1] by (cases g) (simp_all add: ok_simps)
qed simp

lemma raw_answer_ok:
  assumes "i < length (dfibs dev)" and "listed E H (data_of dev i) bufs" and "sizeof_srb_reply E \<le> length (data_of dev i)"
    and "and flags (SRB_DataIn E) \<noteq> 0 \<Longrightarrow> bufs \<noteq> []"
  shows "ok (raw_answer E H i p flags bufs dev w) (\<lambda>(r, w'). (r = 0 \<or> r = - EFAULT) \<and> klive w' = klive w)"
proof -
  have "ok (if and flags (SRB_DataIn E) \<noteq> 0 then copy_data E H (data_of dev i) bufs w else Some (True, w)) (\<lambda>(g, w'). klive w' = klive w)"
    using copy_bufs_ok [of bufs E H 0 "data_of dev i" w] assms(2,4) by (simp add: copy_data_def listed_def)
  then obtain g w1 where "(if and flags (SRB_DataIn E) \<noteq> 0 then copy_data E H (data_of dev i) bufs w else Some (True, w)) = Some (g, w1)"
    and "klive w1 = klive w" by (auto elim!: okE)
  then show ?thesis using assms(1,3)
    by (simp add: raw_answer_def get_fib_def buf_get_def Let_def ok_simps copy_to_user_def)
qed

text \<open>The fib, the device and the buffers when the request is over.\<close>

definition raw_post ::
  "aac_env \<Rightarrow> nat \<Rightarrow> nat list \<Rightarrow> nat multiset \<Rightarrow> aac_dev \<Rightarrow> int \<times> sg_buf list \<times> aac_dev \<times> 'z sw \<Rightarrow> bool" where
  "raw_post A i ys B dev0 = (\<lambda>(rc, bufs, dev, w). i < length (dfibs dev) \<and> i \<notin> set ys \<and> free_list dev ys \<and> same_pool dev0 dev \<and>
     (done_state (dfibs dev ! i) = 2 \<longleftrightarrow> rc = - ERESTARTSYS) \<and> completes A (hw_fib_va (dfibs dev ! i)) \<and>
     mset (klive w) = B + bufs_ids bufs)"

lemma completes_header: "header hw' = header hw \<Longrightarrow> completes A hw' = completes A hw"
  by (simp add: completes_def)

lemma early_post:
  assumes "building A E i ys dev0 dev" and "completes A (hw_fib_va (dfibs dev0 ! i))" and "early_code rc"
    and "mset (klive w) = B + bufs_ids bufs"
  shows "raw_post A i ys B dev0 (rc, bufs, dev, w)"
  using assms completes_header [of "hw_fib_va (dfibs dev ! i)" "hw_fib_va (dfibs dev0 ! i)" A]
  by (auto simp: raw_post_def building_def holds_fib_def early_code_def)

lemma bufs_ids_fill: "bufs_ids (map (\<lambda>(a, k, b). (a, k, g k b)) bufs) = bufs_ids bufs"
  by (induction bufs) auto

lemma listed_fill:
  "fills_within H \<Longrightarrow> listed E H d (map (\<lambda>(a, k, b). (a, k, dma_fill H k b)) bufs) = listed E H d bufs"
  by (simp add: listed_def fills_within_def case_prod_beta)

lemma raw_send_ok:
  fixes w :: "'z sw"
  assumes E: "srb_env_ok E" and fw: "fw_ok A fw" "fw_keeps E fw" and H: "fills_within H"
    and build: "building A E i ys dev0 dev" and compl: "completes A (hw_fib_va (dfibs dev0 ! i))"
    and l: "listed E H (data_of dev i) bufs" "length bufs = unat (us_sg_count us)" "unat (us_sg_count us) \<le> 32"
    and "in": "and (us_flags us) (SRB_DataIn E) \<noteq> 0 \<Longrightarrow> us_sg_count us \<noteq> 0"
    and m: "mset (klive w) = B + bufs_ids bufs"
  shows "ok (raw_send A E H fw i p us bufs nb dev w) (raw_post A i ys B dev0)"
proof -
  define t where "t = srb_totals E nb (if us_sg_count us \<noteq> 0 then of_nat (length bufs) else 0)"
  have len: "srb_fixed E + 32 * sizeof_sgentry64 E \<le> length (data_of dev i)" using build by (simp add: building_def)
  have "length (t (take (srb_fixed E) (data_of dev i))) = srb_fixed E" using E len by (simp add: t_def srb_env_ok_def)
  with len have "ok (set_fixed E t (data_of dev i)) (\<lambda>d'. length d' = length (data_of dev i) \<and>
      drop (srb_fixed E) d' = drop (srb_fixed E) (data_of dev i))" by (intro set_fixed_ok) simp_all
  from building_poke [where g = "set_fixed E t" and Q = "\<lambda>d'. drop (srb_fixed E) d' = drop (srb_fixed E) (data_of dev i)", OF build this]
  obtain dev1 where 1: "poke i (set_fixed E t) dev = Some dev1" and b1: "building A E i ys dev0 dev1"
    and d1: "drop (srb_fixed E) (data_of dev1 i) = drop (srb_fixed E) (data_of dev i)" "length (data_of dev1 i) = length (data_of dev i)"
    by (auto elim!: okE)
  have h1: "holds_fib A i ys dev1" "same_pool dev0 dev1" using b1 by (simp_all add: building_def)
  then have i1: "i < length (dfibs dev1)" "done_state (dfibs dev1 ! i) \<noteq> 2" by (simp_all add: holds_fib_def)
  have c1: "completes A (hw_fib_va (dfibs dev1 ! i))" using b1 compl completes_header by (simp add: building_def completes_def)
  define sz where "sz = (if sgmap_host64 H then actual_fibsize64 E (us_sg_count us) else actual_fibsize E (us_sg_count us))"
  define cmd where "cmd = (if sgmap_host64 H then ScsiPortCommand64 E else ScsiPortCommand E)"
  have "sizeof_sgentry E \<le> sizeof_sgentry64 E" using E by (simp add: srb_env_ok_def)
  then have "unat (us_sg_count us) * sizeof_sgentry E \<le> 32 * sizeof_sgentry64 E"
    "unat (us_sg_count us) * sizeof_sgentry64 E \<le> 32 * sizeof_sgentry64 E"
    using l(3) by (intro mult_le_mono; simp)+
  then have "srb_fixed E + unat (us_sg_count us) * sizeof_sgentry E \<le> srb_fixed E + 32 * sizeof_sgentry64 E"
    "srb_fixed E + unat (us_sg_count us) * sizeof_sgentry64 E \<le> srb_fixed E + 32 * sizeof_sgentry64 E" by simp_all
  from this [THEN order_trans, OF len] have "sz \<le> length (data_of dev i)"
    by (cases "sgmap_host64 H") (simp_all only: sz_def sizes_small [OF E l(3)] if_True if_False)
  then have "sizeof_fibhdr A + sz \<le> hw_size A (hw_fib_va (dfibs dev1 ! i))"
    using d1(2) by (simp add: hw_size_def)
  from aac_fib_send_ok [OF fw(1) i1 this, of cmd 1 True None 0] obtain st dev2
    where 2: "aac_fib_send A fw cmd i sz 1 True None 0 dev1 = Some (st, dev2)" and p: "send_post A i dev1 (st, dev2)"
    by (auto elim!: okE)
  have fr: "dev_frame A i dev1 dev2" "done_state (dfibs dev2 ! i) = 2 \<longleftrightarrow> st = - ERESTARTSYS" "completes A (hw_fib_va (dfibs dev2 ! i))"
    using p c1 by (auto simp: send_post_def)
  define fbufs where "fbufs = map (\<lambda>(a, k, b). (a, k, dma_fill H k b)) bufs"
  have step: "raw_send A E H fw i p us bufs nb dev w =
     (if st = - ERESTARTSYS then Some (- ERESTARTSYS, fbufs, dev2, w)
      else if st \<noteq> 0 then Some (- ENXIO, fbufs, dev2, w)
      else do { (rc, w) \<leftarrow> raw_answer E H i p (us_flags us) fbufs dev2 w; Some (rc, fbufs, dev2, w) })"
    using 1 2 by (simp add: raw_send_def t_def sz_def cmd_def fbufs_def if_distrib Let_def split: if_splits)
  have ids: "bufs_ids fbufs = bufs_ids bufs" by (simp add: fbufs_def bufs_ids_fill)
  have base: "raw_post A i ys B dev0 (rc, fbufs, dev2, w')" if "rc = - ERESTARTSYS \<longleftrightarrow> st = - ERESTARTSYS" "klive w' = klive w" for rc and w' :: "'z sw"
    using that fr h1 i1 m ids same_pool_frame [OF h1(2) fr(1)] dev_frame_free_list [OF fr(1), of ys]
    by (simp add: raw_post_def holds_fib_def dev_frame_def)
  show ?thesis
  proof (cases "st = 0")
    case False
    then show ?thesis using base by (auto simp: step)
  next
    case True
    have sl: "same_list E i dev1 dev2" by (rule aac_fib_send_list [OF fw(2) 2])
    have l2: "length (data_of dev2 i) = length (data_of dev i)" using fr(1) d1(2) by (simp add: dev_frame_def hw_size_def)
    have "listed E H (data_of dev2 i) fbufs"
      using listed_fill [OF H, of E _ bufs] listed_fixed [of E "data_of dev2 i" "data_of dev i" H bufs] l(1) sl d1(1) l2
      by (simp add: fbufs_def same_list_def)
    moreover have "sizeof_srb_reply E \<le> length (data_of dev2 i)" using E len l2 by (simp add: srb_env_ok_def)
    moreover have "and (us_flags us) (SRB_DataIn E) \<noteq> 0 \<Longrightarrow> fbufs \<noteq> []"
      using "in" l(2) by (auto simp: fbufs_def unat_eq_zero)
    moreover have "i < length (dfibs dev2)" using fr(1) i1 by (simp add: dev_frame_def)
    ultimately obtain rc w2 where "raw_answer E H i p (us_flags us) fbufs dev2 w = Some (rc, w2)"
      and "rc = 0 \<or> rc = - EFAULT" "klive w2 = klive w"
      using raw_answer_ok [of i dev2 E H fbufs "us_flags us" p w] by (auto elim!: okE)
    then show ?thesis using True base by (auto simp: step)
  qed
qed

text \<open>
  A request that does not run into one of the two bugs below: data from the device has a
  buffer to go to, and data for a device that takes 64-bit entries comes in 64-bit entries.
\<close>

definition good_request :: "srb_env \<Rightarrow> srb_host \<Rightarrow> byte list \<Rightarrow> bool" where
  "good_request E H u \<longleftrightarrow>
     (let us = user_dec E u in
      (and (us_flags us) (SRB_DataIn E) \<noteq> 0 \<longrightarrow> us_sg_count us \<noteq> 0) \<and>
      (sgmap_host64 H \<and> and (us_flags us) (SRB_DataOut E) \<noteq> 0 \<longrightarrow> length u = actual_fibsize64 E (us_sg_count us)))"

lemma raw_request_ok:
  fixes w :: "'z sw"
  assumes E: "srb_env_ok E" and fw: "fw_ok A fw" "fw_keeps E fw" and H: "fills_within H"
    and build: "building A E i ys dev0 dev" and compl: "completes A (hw_fib_va (dfibs dev0 ! i))"
    and good: "good_request E H u" and m: "mset (klive w) = B"
  shows "ok (raw_request A E H fw i arg u dev w) (raw_post A i ys B dev0)"
proof -
  define us where "us = user_dec E u"
  define n where "n = us_sg_count us"
  define t where "t = srb_put E (fixed_srb E us)"
  define fits64 where "fits64 = (actual_fibsize64 E n = length u)"
  define out where "out = (and (us_flags us) (SRB_DataOut E) \<noteq> 0)"
  have len: "srb_fixed E + 32 * sizeof_sgentry64 E \<le> length (data_of dev i)" using build by (simp add: building_def)
  have "length (t (take (srb_fixed E) (data_of dev i))) = srb_fixed E" using E len by (simp add: t_def srb_env_ok_def)
  with len have "ok (set_fixed E t (data_of dev i)) (\<lambda>d'. length d' = length (data_of dev i) \<and> True)"
    by (intro ok_mono [OF set_fixed_ok]) simp_all
  from building_poke [where g = "set_fixed E t" and Q = "\<lambda>_. True", OF build this] obtain dev1 where 1: "poke i (set_fixed E t) dev = Some dev1"
    and b1: "building A E i ys dev0 dev1" by (auto elim!: okE)
  have step: "raw_request A E H fw i arg u dev w =
     (if unat n > 32 then Some (- EINVAL, [], dev1, w)
      else if actual_fibsize E n \<noteq> length u \<and> actual_fibsize64 E n \<noteq> length u then Some (- EINVAL, [], dev1, w)
      else if data_dir E (us_flags us) = DMA_NONE \<and> n \<noteq> 0 then Some (- EINVAL, [], dev1, w)
      else do {
        (rc, bufs, nb, dev, w) \<leftarrow> sg_lists E H fits64 u (unat n) out i dev1 w;
        (if rc \<noteq> 0 then Some (rc, bufs, dev, w) else raw_send A E H fw i (arg + length u) us bufs nb dev w)
      })"
    using 1 unfolding raw_request_def fits64_def out_def t_def n_def us_def Let_def by simp
  have early: "raw_post A i ys B dev0 (- EINVAL, [], dev1, w)"
    using early_post [OF b1 compl, of "- EINVAL" w B "[]"] m by (simp add: early_code_def)
  show ?thesis
  proof (cases "unat n > 32 \<or> actual_fibsize E n \<noteq> length u \<and> actual_fibsize64 E n \<noteq> length u \<or> data_dir E (us_flags us) = DMA_NONE \<and> n \<noteq> 0")
    case True
    then show ?thesis using early by (auto simp: step)
  next
    case False
    then have small: "unat n \<le> 32" by simp
    have "length u = srb_fixed E + unat n * (if fits64 then sizeof_sgentry64 E else sizeof_sgentry E)"
      using False sizes_small [OF E small] by (auto simp: fits64_def)
    moreover have "fits64" if "sgmap_host64 H" "out"
      using good that by (simp add: good_request_def fits64_def out_def us_def n_def Let_def)
    ultimately obtain rc bufs nb dev2 w2 where 2: "sg_lists E H fits64 u (unat n) out i dev1 w = Some (rc, bufs, nb, dev2, w2)"
      and p: "sg_post A E H i ys B dev0 (unat n) (rc, bufs, nb, dev2, w2)"
      using sg_lists_ok [OF E small _ _ b1 m, of u fits64 H out] by (auto elim!: okE)
    have go: "raw_request A E H fw i arg u dev w =
        (if rc \<noteq> 0 then Some (rc, bufs, dev2, w2) else raw_send A E H fw i (arg + length u) us bufs nb dev2 w2)"
      using False 2 by (auto simp: step)
    show ?thesis
    proof (cases "rc = 0")
      case False
      then show ?thesis using p early_post [OF _ compl, of E ys dev2 rc w2 B bufs] by (simp add: go sg_post_def sg_inv_def)
    next
      case True
      have "ok (raw_send A E H fw i (arg + length u) us bufs nb dev2 w2) (raw_post A i ys B dev0)"
        by (rule raw_send_ok [OF E fw H _ compl])
          (use p True small good in \<open>simp_all add: sg_post_def sg_inv_def n_def good_request_def us_def Let_def\<close>)
      then show ?thesis using True by (simp add: go)
    qed
  qed
qed

lemma free_bufs_ok: "mset (klive w) = B + bufs_ids bufs \<Longrightarrow> ok (free_bufs bufs w) (\<lambda>w'. mset (klive w') = B)"
proof (induction bufs arbitrary: w)
  case (Cons x xs)
  then have "mset (klive w) = (B + bufs_ids xs) + {#fst (snd x)#}" by simp
  from kfree_mset [OF this] show ?case by (auto simp: ok_bind intro: Cons.IH elim!: ok_mono)
qed simp

definition opt_id :: "nat option \<Rightarrow> nat multiset" where
  "opt_id k = (case k of None \<Rightarrow> {#} | Some k \<Rightarrow> {#k#})"

lemma raw_cleanup_ok:
  assumes "raw_post A i ys (B + opt_id usr) dev0 (rc, bufs, dev, w)"
  shows "ok (raw_cleanup A i usr bufs rc dev w) (\<lambda>(r, dev', w'). r = rc \<and> gives_back i ys rc dev0 dev' \<and> mset (klive w') = B)"
proof -
  have p: "i < length (dfibs dev)" "i \<notin> set ys" "free_list dev ys" "same_pool dev0 dev"
    "done_state (dfibs dev ! i) = 2 \<longleftrightarrow> rc = - ERESTARTSYS" "completes A (hw_fib_va (dfibs dev ! i))"
    and m: "mset (klive w) = B + opt_id usr + bufs_ids bufs"
    using assms by (simp_all add: raw_post_def)
  have "ok (case usr of None \<Rightarrow> Some w | Some k \<Rightarrow> kfree k w) (\<lambda>w'. mset (klive w') = B + bufs_ids bufs)"
  proof (cases usr)
    case (Some k)
    then have "mset (klive w) = B + bufs_ids bufs + {#k#}" using m by (simp add: opt_id_def)
    from kfree_mset [OF this] show ?thesis using Some by (auto elim!: ok_mono)
  qed (use m in \<open>simp add: opt_id_def\<close>)
  then obtain w1 where 1: "(case usr of None \<Rightarrow> Some w | Some k \<Rightarrow> kfree k w) = Some w1" and m1: "mset (klive w1) = B + bufs_ids bufs"
    by (auto elim!: okE)
  from free_bufs_ok [OF m1] obtain w2 where 2: "free_bufs bufs w1 = Some w2" and m2: "mset (klive w2) = B" by (auto elim!: okE)
  have "ok (if rc \<noteq> - ERESTARTSYS then do { (_, dev) \<leftarrow> aac_fib_complete A i dev; aac_fib_free A i dev } else Some dev)
      (\<lambda>dev'. gives_back i ys rc dev0 dev')"
  proof (cases "rc = - ERESTARTSYS")
    case True
    then show ?thesis using p(3,4) by (simp add: gives_back_def same_pool_def)
  next
    case False
    from aac_fib_complete_ok [OF p(1,6)] obtain r dev1 where c: "aac_fib_complete A i dev = Some (r, dev1)"
      and fr: "dev_frame A i dev dev1" and ds: "done_state (dfibs dev1 ! i) = done_state (dfibs dev ! i)"
      by (auto elim!: okE)
    have i1: "i < length (dfibs dev1)" "free_list dev1 ys" "done_state (dfibs dev1 ! i) \<noteq> 2"
      using p fr ds False dev_frame_free_list [OF fr p(2)] by (simp_all add: dev_frame_def)
    from aac_fib_free_ok [OF i1(2) p(2) i1(1,3), of A] show ?thesis
      using False c same_pool_frame [OF p(4) fr] by (auto simp: gives_back_def same_pool_def elim!: ok_mono)
  qed
  then show ?thesis using 1 2 m2 by (auto simp: raw_cleanup_def ok_bind elim!: ok_mono)
qed

lemma raw_fetch_ok:
  fixes w :: "'z sw"
  assumes E: "srb_env_ok E" and fw: "fw_ok A fw" "fw_keeps E fw" and H: "fills_within H"
    and build: "building A E i ys dev dev" and compl: "completes A (hw_fib_va (dfibs dev ! i))"
    and good: "\<And>n u. user_fixed E \<le> n \<Longrightarrow> ufetch (umem w (Suc (utime w))) arg n = Some u \<Longrightarrow> good_request E H u"
  shows "ok (raw_fetch A E H fw i arg dev w) (\<lambda>(r, dev', w'). gives_back i ys r dev dev' \<and> mset (klive w') = mset (klive w))"
proof -
  define w1 where "w1 = w\<lparr>utime := Suc (utime w)\<rparr>"
  have m1: "mset (klive w1) = mset (klive w)" by (simp add: w1_def)
  have early: "ok (raw_cleanup A i usr [] rc dev w') (\<lambda>(r, dev', w'). gives_back i ys r dev dev' \<and> mset (klive w') = mset (klive w))"
    if "early_code rc" "mset (klive w') = mset (klive w) + opt_id usr" for rc usr and w' :: "'z sw"
    by (rule ok_mono [OF raw_cleanup_ok [OF early_post [OF build compl that(1)]]]) (use that(2) in auto)
  show ?thesis
  proof (cases "ufetch (umem w (utime w)) (arg + count_off E) 4")
    case None
    then show ?thesis using early [of "- EFAULT" w1 None] m1
      by (simp add: raw_fetch_def copy_from_user_def w1_def early_code_def opt_id_def)
  next
    case (Some bs)
    define sz where "sz = unat (count_dec E bs)"
    show ?thesis
    proof (cases "sz < user_fixed E \<or> sz > max_fib_size dev - sizeof_fibhdr A")
      case True
      then show ?thesis using Some early [of "- EINVAL" w1 None] m1
        by (auto simp: raw_fetch_def copy_from_user_def w1_def early_code_def opt_id_def sz_def Let_def)
    next
      case size: False
      show ?thesis
      proof (cases "kfail w (knext w)")
        case True
        then show ?thesis using Some size early [of "- ENOMEM" "w1\<lparr>knext := Suc (knext w)\<rparr>" None] m1
          by (simp add: raw_fetch_def copy_from_user_def w1_def early_code_def opt_id_def sz_def Let_def kmalloc_def)
      next
        case False
        define k where "k = knext w"
        define w2 where "w2 = w1\<lparr>knext := Suc k, klive := k # klive w1\<rparr>"
        define w3 where "w3 = w2\<lparr>utime := Suc (utime w2)\<rparr>"
        have m3: "mset (klive w3) = mset (klive w) + opt_id (Some k)" by (simp add: w3_def w2_def w1_def opt_id_def)
        have step: "raw_fetch A E H fw i arg dev w = (case ufetch (umem w (Suc (utime w))) arg sz of
            None \<Rightarrow> raw_cleanup A i (Some k) [] (- EFAULT) dev w3
          | Some u \<Rightarrow> do { (rc, bufs, dev, w) \<leftarrow> raw_request A E H fw i arg u dev w3; raw_cleanup A i (Some k) bufs rc dev w })"
          using Some size False
          by (auto simp: raw_fetch_def copy_from_user_def w1_def w2_def w3_def k_def sz_def Let_def kmalloc_def split: option.splits)
        show ?thesis
        proof (cases "ufetch (umem w (Suc (utime w))) arg sz")
          case None
          then show ?thesis using early [of "- EFAULT" w3 "Some k"] m3 by (simp add: step early_code_def)
        next
          case u: (Some u)
          have "ok (raw_request A E H fw i arg u dev w3) (raw_post A i ys (mset (klive w) + opt_id (Some k)) dev)"
            using size by (intro raw_request_ok [OF E fw H build compl good [OF _ u] m3]) (simp add: sz_def)
          then show ?thesis unfolding step u option.case
            by (rule ok_bindI) (clarify, rule ok_mono [OF raw_cleanup_ok], assumption, auto)
        qed
      qed
    qed
  qed
qed

section \<open>Raw requests\<close>

text \<open>The fib of a request, fresh from the pool.\<close>

lemma raw_start:
  assumes A: "aac_env_ok A" and pool: "pool_ok A dev" and list: "free_list dev (i # ys)"
    and room: "sizeof_fibhdr A + srb_fixed E + 32 * sizeof_sgentry64 E \<le> max_fib_size dev"
  obtains dev1 dev2 f where "aac_fib_alloc A dev = Some (Some i, dev1)" and "aac_fib_init A pa i dev1 = Some dev2"
    and "get_fib dev2 i = Some f"
    and "building A E i ys (set_fib i (set_xfer (\<lambda>x. and x (not (FastResponseCapable A))) f) dev2)
      (set_fib i (set_xfer (\<lambda>x. and x (not (FastResponseCapable A))) f) dev2)"
    and "completes A (hw_fib_va (dfibs (set_fib i (set_xfer (\<lambda>x. and x (not (FastResponseCapable A))) f) dev2) ! i))"
    and "contexts (set_fib i (set_xfer (\<lambda>x. and x (not (FastResponseCapable A))) f) dev2) = contexts dev"
    and "max_fib_size (set_fib i (set_xfer (\<lambda>x. and x (not (FastResponseCapable A))) f) dev2) = max_fib_size dev"
proof -
  from aac_fib_alloc_ok [OF list, of A] list obtain dev1 where 1: "aac_fib_alloc A dev = Some (Some i, dev1)"
    and d1: "i \<notin> set ys" "free_list dev1 ys" "i < length (dfibs dev)" "length (dfibs dev1) = length (dfibs dev)"
      "done_state (dfibs dev1 ! i) \<noteq> 2" "hw_size A (hw_fib_va (dfibs dev1 ! i)) = hw_size A (hw_fib_va (dfibs dev ! i))"
      "max_fib_size dev1 = max_fib_size dev" "contexts dev1 = contexts dev"
    by (fastforce elim!: okE split: option.splits)
  define f where "f = (dfibs dev1 ! i)\<lparr>hw_fib_va := (hw_fib_va (dfibs dev1 ! i))\<lparr>header := fresh_header A pa dev1\<rparr>\<rparr>"
  define dev2 where "dev2 = set_fib i f dev1"
  define dev3 where "dev3 = set_fib i (set_xfer (\<lambda>x. and x (not (FastResponseCapable A))) f) dev2"
  have i: "i < length (dfibs dev1)" using d1 by simp
  have 2: "aac_fib_init A pa i dev1 = Some dev2" "get_fib dev2 i = Some f"
    using i by (simp_all add: aac_fib_init_def get_fib_def buf_get_def dev2_def f_def set_fib_def)
  have fr: "dev_frame A i dev1 dev3"
    using i by (simp add: dev_frame_def dev3_def dev2_def set_fib_def f_def set_xfer_def hw_size_def)
  have ds: "done_state (dfibs dev3 ! i) \<noteq> 2" using i d1(5) by (simp add: dev3_def dev2_def set_fib_def f_def)
  have "holds_fib A i ys dev1" using d1 by (simp add: holds_fib_def)
  from holds_fib_frame [OF this fr ds] have h3: "holds_fib A i ys dev3" .
  have "hw_size A (hw_fib_va (dfibs dev3 ! i)) = hw_size A (hw_fib_va (dfibs dev ! i))" using fr d1(6) by (simp add: dev_frame_def)
  moreover have "max_fib_size dev \<le> hw_size A (hw_fib_va (dfibs dev ! i))" using pool d1(3) by (simp add: pool_ok_def)
  ultimately have "srb_fixed E + 32 * sizeof_sgentry64 E \<le> length (data_of dev3 i)" using room by (simp add: hw_size_def)
  then have b3: "building A E i ys dev3 dev3" using h3 by (simp add: building_def same_pool_def)
  have "XferState (header (hw_fib_va (dfibs dev3 ! i))) =
      and (or (HostOwned A) (or (FibInitialized A) (or (FibEmpty A) (FastResponseCapable A)))) (not (FastResponseCapable A))"
    using i by (simp add: dev3_def dev2_def set_fib_def set_xfer_def f_def fresh_header_def)
  moreover have "and (and (or (HostOwned A) y) (not (FastResponseCapable A))) (HostOwned A) \<noteq> 0" for y
  proof -
    have "and (HostOwned A) (not (FastResponseCapable A)) \<noteq> 0" using A by (simp add: aac_env_ok_def)
    then show ?thesis by (auto simp: bit_eq_iff bit_simps)
  qed
  ultimately have c3: "completes A (hw_fib_va (dfibs dev3 ! i))" by (simp add: completes_def)
  show thesis
    by (rule that [OF 1 2(1) 2(2)]) (use b3 c3 fr d1 in \<open>simp_all add: dev3_def [symmetric] dev_frame_def\<close>)
qed

lemma aac_send_raw_srb_core:
  assumes A: "aac_env_ok A" and E: "srb_env_ok E" and fw: "fw_ok A fw" "fw_keeps E fw" and H: "fills_within H"
    and pool: "pool_ok A dev" and list: "free_list dev xs"
    and room: "sizeof_fibhdr A + srb_fixed E + 32 * sizeof_sgentry64 E \<le> max_fib_size dev"
    and good: "\<And>n u. user_fixed E \<le> n \<Longrightarrow> ufetch (umem w (Suc (utime w))) arg n = Some u \<Longrightarrow> good_request E H u"
  shows "ok (aac_send_raw_srb A E H fw pa arg dev w) (\<lambda>(r, dev', w').
    free_list dev' (if r = - ERESTARTSYS then tl xs else xs) \<and> contexts dev' = contexts dev \<and>
    mset (klive w') = mset (klive w))"
proof (cases "in_reset dev \<or> \<not> sys_admin H")
  case True
  then show ?thesis using list by (auto simp: aac_send_raw_srb_def)
next
  case False
  show ?thesis
  proof (cases xs)
    case Nil
    then have "aac_fib_alloc A dev = Some (None, dev)" using list aac_fib_alloc_ok [OF list, of A]
      by (auto elim!: okE split: option.splits)
    then show ?thesis using False list by (simp add: aac_send_raw_srb_def)
  next
    case (Cons i ys)
    from raw_start [OF A pool list [unfolded Cons] room, of pa] obtain dev1 dev2 f dev3
      where 1: "aac_fib_alloc A dev = Some (Some i, dev1)" "aac_fib_init A pa i dev1 = Some dev2" "get_fib dev2 i = Some f"
        and dev3: "dev3 = set_fib i (set_xfer (\<lambda>x. and x (not (FastResponseCapable A))) f) dev2"
        and b: "building A E i ys dev3 dev3" "completes A (hw_fib_va (dfibs dev3 ! i))" "contexts dev3 = contexts dev"
      by metis
    have "aac_send_raw_srb A E H fw pa arg dev w = raw_fetch A E H fw i arg dev3 w"
      using False 1 by (simp add: aac_send_raw_srb_def dev3 Let_def)
    then show ?thesis using b(3) Cons
      by (auto simp: gives_back_def intro!: ok_mono [OF raw_fetch_ok [OF E fw H b(1,2) good]])
  qed
qed

text \<open>
  A raw request never faults, whatever user space does between its fetches, however
  allocations fail and however the adapter answers, if it is not one of the two kinds of
  request below: nothing is accessed outside its buffer, every object is released, and the
  fib is back in the pool unless the wait for it was interrupted. The first fetch of the
  size and the size in the request itself need not agree.
\<close>

theorem aac_send_raw_srb_safe:
  assumes A: "aac_env_ok A" and E: "srb_env_ok E" and fw: "fw_ok A fw" "fw_keeps E fw" and H: "fills_within H"
    and pool: "pool_ok A dev" and list: "free_list dev xs"
    and room: "sizeof_fibhdr A + srb_fixed E + 32 * sizeof_sgentry64 E \<le> max_fib_size dev"
    and good: "\<And>n u. user_fixed E \<le> n \<Longrightarrow> ufetch (umem w (Suc (utime w))) arg n = Some u \<Longrightarrow> good_request E H u"
  shows "ok (aac_send_raw_srb A E H fw pa arg dev w) (\<lambda>(r, dev', w').
    free_list dev' (if r = - ERESTARTSYS then tl xs else xs) \<and> contexts dev' = contexts dev \<and>
    mset (klive w') = mset (klive w))"
  by (rule aac_send_raw_srb_core [OF A E fw H pool list room good])

text \<open>
  C26: an adapter that takes 64-bit entries, and a request with data for the device in one
  32-bit entry: the driver takes the number of bytes to copy from behind the end of the
  request, reading the list as one of 64-bit entries.
\<close>

theorem aac_raw_srb_sg32_overread:
  assumes A: "aac_env_ok A" and E: "srb_env_ok E" and pool: "pool_ok A dev" and list: "free_list dev (i # ys)"
    and room: "sizeof_fibhdr A + srb_fixed E + 32 * sizeof_sgentry64 E \<le> max_fib_size dev"
    and host: "\<not> in_reset dev" "sys_admin H" "sgmap_host64 H" "sizeof_sgentry E < sizeof_sgentry64 E" "\<And>n. \<not> kfail w n"
    and first: "ufetch (umem w (utime w)) (arg + count_off E) 4 = Some bs"
      "unat (count_dec E bs) = srb_fixed E + sizeof_sgentry E"
    and second: "ufetch (umem w (Suc (utime w))) arg (srb_fixed E + sizeof_sgentry E) = Some u"
    and req: "us_sg_count (user_dec E u) = 1" "and (us_flags (user_dec E u)) (SRB_DataOut E) \<noteq> 0"
      "data_dir E (us_flags (user_dec E u)) \<noteq> DMA_NONE"
      "unat (snd (user_sg_dec E (drop (srb_fixed E) u))) \<le> sg_limit H"
  shows "aac_send_raw_srb A E H fw pa arg dev w = None"
proof -
  from raw_start [OF A pool list room, of pa] obtain dev1 dev2 f dev3
    where 1: "aac_fib_alloc A dev = Some (Some i, dev1)" "aac_fib_init A pa i dev1 = Some dev2" "get_fib dev2 i = Some f"
      and dev3: "dev3 = set_fib i (set_xfer (\<lambda>x. and x (not (FastResponseCapable A))) f) dev2"
      and b: "building A E i ys dev3 dev3" "max_fib_size dev3 = max_fib_size dev"
    by metis
  have sizes: "user_fixed E = srb_fixed E" "sizeof_user_sgentry E = sizeof_sgentry E" "sizeof_user_sgentry64 E = sizeof_sgentry64 E"
    using E by (simp_all add: srb_env_ok_def)
  have u: "length u = srb_fixed E + sizeof_sgentry E" by (rule length_ufetch [OF second])
  have n1: "unat (us_sg_count (user_dec E u)) = 1" "and (1 :: u32) 0xff = 1" using req(1) by simp_all
  have act: "actual_fibsize E 1 = length u" "actual_fibsize64 E 1 \<noteq> length u"
    using u host(4) by (simp_all add: actual_fibsize_def actual_fibsize64_def)
  have e: "user_entry E u 0 = Some (unat (fst (user_sg_dec E (drop (srb_fixed E) u))), snd (user_sg_dec E (drop (srb_fixed E) u)))"
    using u by (simp add: user_entry_def buf_read_def sizes case_prod_beta)
  have e64: "user_entry64 E u 0 = None" using u host(4) by (simp add: user_entry64_def buf_read_def sizes)
  have pass: "sg_pass H (view_64_32 E u) True i 0 [] 0 d w' = None" if "\<And>n. \<not> kfail w' n" for d and w' :: "'a sw"
    using e e64 req(4) that by (simp add: sg_pass_def view_64_32_def kmalloc_def Let_def sg_data_def)
  have lists: "sg_lists E H False u 1 True i d w' = None" if "\<And>n. \<not> kfail w' n" for d and w' :: "'a sw"
    using host(3) that pass [of "w'\<lparr>knext := Suc (knext w'), klive := knext w' # klive w'\<rparr>" d]
    by (simp add: sg_lists_def kmalloc_def Let_def)
  have "raw_request A E H fw i arg u dev3 w' = None" if "\<And>n. \<not> kfail w' n" for w' :: "'a sw"
    using lists [OF that] req(1-3) act by (cases "poke i (set_fixed E (srb_put E (fixed_srb E (user_dec E u)))) dev3")
      (simp_all add: raw_request_def Let_def)
  moreover have "\<not> max_fib_size dev - sizeof_fibhdr A < srb_fixed E + sizeof_sgentry E" using room host(4) by linarith
  ultimately have "raw_fetch A E H fw i arg dev3 w = None"
    using first second host(5) room b(2) sizes host(4)
    by (simp add: raw_fetch_def copy_from_user_def kmalloc_def Let_def)
  then show ?thesis using host 1 by (simp add: aac_send_raw_srb_def dev3 Let_def)
qed

text \<open>
  A request for data from the device without a buffer for it: when the adapter left a number
  of bytes in the first entry, the driver copies that many bytes from the address 0.
\<close>

lemma raw_answer_no_buffer:
  assumes "get_fib dev i = Some f" and "and flags (SRB_DataIn E) \<noteq> 0"
    and "entry_count E H 0 (fdata (hw_fib_va f)) = Some n" and "n \<noteq> 0"
  shows "raw_answer E H i p flags [] dev w = None"
  using assms by (simp add: raw_answer_def copy_data_def Let_def)

section \<open>Concrete requests\<close>

text \<open>The layout of \<open>aacraid.h\<close> and its numbers.\<close>

definition srb_user_dec :: "byte list \<Rightarrow> user_srb" where
  "srb_user_dec b = \<lparr>us_channel = le32_at b 4, us_id = le32_at b 8, us_lun = le32_at b 12, us_timeout = le32_at b 16,
     us_flags = le32_at b 20, us_cdb_size = le32_at b 32, us_cdb = take 16 (drop 36 b), us_sg_count = le32_at b 52\<rparr>"

definition srb_put_bytes :: "srb \<Rightarrow> byte list \<Rightarrow> byte list" where
  "srb_put_bytes s d = le32_bytes (srb_function s) @ le32_bytes (srb_channel s) @ le32_bytes (srb_id s) @ le32_bytes (srb_lun s) @
     le32_bytes (srb_timeout s) @ le32_bytes (srb_flags s) @ take 4 (drop 24 d) @ le32_bytes (srb_retry_limit s) @
     le32_bytes (srb_cdb_size s) @ take 16 (srb_cdb s @ replicate 16 0) @ take 4 (drop 52 d)"

definition srb_headers :: srb_env where
  "srb_headers = \<lparr>srb_fixed = 56, user_fixed = 56, sizeof_sgentry = 8, sizeof_sgentry64 = 12, sizeof_user_sgentry = 8,
     sizeof_user_sgentry64 = 12, sizeof_srb_reply = 52, count_off = 24, count_dec = \<lambda>b. le32_at b 0, user_dec = srb_user_dec,
     user_sg_dec = \<lambda>b. (le32_at b 0, le32_at b 4), user_sg64_dec = \<lambda>b. (le32_at b 0, le32_at b 4, le32_at b 8),
     srb_put = srb_put_bytes, srb_totals = \<lambda>a b d. take 24 d @ le32_bytes a @ take 24 (drop 28 d) @ le32_bytes b,
     sg_enc = \<lambda>a n. le32_bytes a @ le32_bytes n, sg64_enc = \<lambda>lo hi n. le32_bytes lo @ le32_bytes hi @ le32_bytes n,
     sg_count = \<lambda>b. le32_at b 4, sg64_count = \<lambda>b. le32_at b 8,
     SRBF_ExecuteScsi = 0, SRB_DataIn = 0x40, SRB_DataOut = 0x80, ScsiPortCommand = 600, ScsiPortCommand64 = 601\<rparr>"

lemma srb_headers_ok: "srb_env_ok srb_headers"
proof -
  have "le32_at (le32_bytes a @ le32_bytes n) 4 = n" for a n
    using le32_roundtrip [of "le32_bytes a" n "[]"] by simp
  moreover have "le32_at (le32_bytes lo @ le32_bytes hi @ le32_bytes n) 8 = n" for lo hi n
    using le32_roundtrip [of "le32_bytes lo @ le32_bytes hi" n "[]"] by simp
  ultimately show ?thesis by (simp add: srb_env_ok_def srb_headers_def srb_put_bytes_def min_def)
qed

definition raw_fib :: "nat option \<Rightarrow> fib" where
  "raw_fib n = (demo_fib n)\<lparr>hw_fib_va := \<lparr>header = aac_hdr_dec (replicate 32 0), fdata = replicate 480 0\<rparr>\<rparr>"

definition raw_demo :: aac_dev where
  "raw_demo = aac_demo\<lparr>max_fib_size := 512, dfibs := [raw_fib (Some 1), raw_fib None]\<rparr>"

lemma raw_demo_ok: "pool_ok aac_headers raw_demo" "free_list raw_demo [0, 1]"
  by (simp_all add: pool_ok_def free_list_def nexts_def raw_demo_def aac_headers_def raw_fib_def demo_fib_def aac_demo_def hw_size_def
      nth_Cons' less_Suc_eq)

definition raw_host :: "bool \<Rightarrow> srb_host" where
  "raw_host h64 = \<lparr>sys_admin = True, sgmap_host64 = h64, new_comm = False, max_sectors = 8, dma_addr = \<lambda>_. 0, dma_fill = \<lambda>_ b. b\<rparr>"

lemma raw_answering_keeps: "fw_keeps E aac_answering"
  by (auto simp: fw_keeps_def aac_answering_def)

text \<open>
  A request at the address 0: 64 bytes with one 32-bit entry for 4 bytes, which go to the
  device. In the first of the two memories the size changes after it was fetched.
\<close>

definition raw_user :: "byte \<Rightarrow> nat \<Rightarrow> byte option" where
  "raw_user n i = Some (if i = 24 then n else if i = 20 then 0x80 else if i = 52 then 1 else if i = 60 then 4 else 0)"

definition raw_world :: "(nat \<Rightarrow> nat \<Rightarrow> byte option) \<Rightarrow> srb_world" where
  "raw_world m = \<lparr>umem = m, utime = 0, uout = [], kfail = \<lambda>_. False, kjunk = \<lambda>_ _. 0, knext = 0, klive = [], xcalls = 0, dma_maps = []\<rparr>"

lemma raw_user_fetch: "ufetch (raw_user m) p n = Some (map (\<lambda>i. the (raw_user m (p + i))) [0..<n])"
  unfolding ufetch_def by (rule those_map_Some) (simp add: raw_user_def)

lemma raw_user_fields:
  assumes "56 \<le> n"
  shows "us_flags (srb_user_dec (map (\<lambda>i. the (raw_user m i)) [0..<n])) = 0x80"
    and "us_sg_count (srb_user_dec (map (\<lambda>i. the (raw_user m i)) [0..<n])) = 1"
  using assms by (simp_all add: srb_user_dec_def le32_at_def raw_user_def)

theorem aac_send_raw_srb_safe_witness:
  "ok (aac_send_raw_srb aac_headers srb_headers (raw_host False) aac_answering 0 0 raw_demo
      (raw_world (\<lambda>t. if t = 0 then raw_user 64 else raw_user 200))) (\<lambda>(r, dev', w').
    free_list dev' (if r = - ERESTARTSYS then tl [0, 1] else [0, 1]) \<and> contexts dev' = contexts raw_demo \<and>
    mset (klive w') = {#})"
proof -
  have g: "good_request srb_headers (raw_host False) u"
    if "user_fixed srb_headers \<le> n" and u: "ufetch (umem (raw_world (\<lambda>t. if t = 0 then raw_user 64 else raw_user 200))
      (Suc (utime (raw_world (\<lambda>t. if t = 0 then raw_user 64 else raw_user 200))))) 0 n = Some u" for n u
  proof -
    have "56 \<le> n" using that(1) by (simp add: srb_headers_def)
    from raw_user_fields [OF this, of 200] u show ?thesis
      by (auto simp: raw_world_def raw_user_fetch good_request_def srb_headers_def raw_host_def Let_def)
  qed
  have fl: "fills_within (raw_host False)" by (simp add: fills_within_def raw_host_def)
  have room: "sizeof_fibhdr aac_headers + srb_fixed srb_headers + 32 * sizeof_sgentry64 srb_headers \<le> max_fib_size raw_demo"
    by (simp add: aac_headers_def srb_headers_def raw_demo_def)
  have kl: "mset (klive (raw_world m)) = {#}" for m by (simp add: raw_world_def)
  have "ok (aac_send_raw_srb aac_headers srb_headers (raw_host False) aac_answering 0 0 raw_demo
      (raw_world (\<lambda>t. if t = 0 then raw_user 64 else raw_user 200))) (\<lambda>(r, dev', w').
    free_list dev' (if r = - ERESTARTSYS then tl [0, 1] else [0, 1]) \<and> contexts dev' = contexts raw_demo \<and>
    mset (klive w') = mset (klive (raw_world (\<lambda>t. if t = 0 then raw_user 64 else raw_user 200))))"
    by (rule aac_send_raw_srb_safe [OF aac_headers_ok srb_headers_ok aac_answering_ok raw_answering_keeps fl raw_demo_ok room]) (rule g)
  then show ?thesis by (simp only: kl)
qed

theorem aac_raw_srb_sg32_overread_witness:
  "aac_send_raw_srb aac_headers srb_headers (raw_host True) aac_answering 0 0 raw_demo (raw_world (\<lambda>_. raw_user 64)) = None"
proof -
  define u where "u = map (\<lambda>i. the (raw_user 64 i)) [0..<64]"
  have first: "ufetch (raw_user 64) 24 4 = Some [64, 0, 0, 0]" by (simp add: raw_user_fetch raw_user_def upt_rec)
  have second: "ufetch (raw_user 64) 0 64 = Some u" by (simp add: raw_user_fetch u_def)
  have f: "us_flags (srb_user_dec u) = 0x80" "us_sg_count (srb_user_dec u) = 1"
    using raw_user_fields [of 64 64] by (simp_all add: u_def)
  have c: "le32_at (drop 56 u) 4 = 4"
    by (simp add: u_def drop_map le32_at_def raw_user_def)
  show ?thesis
    by (rule aac_raw_srb_sg32_overread [OF aac_headers_ok srb_headers_ok raw_demo_ok, where bs = "[64, 0, 0, 0]" and u = u])
      (use first second f c in \<open>simp_all add: raw_world_def srb_headers_def raw_host_def aac_headers_def raw_demo_def aac_demo_def
        data_dir_def sg_limit_def le32_at_def\<close>)
qed

end
