(* ===== verification/AacIoctl.thy ===== *)
theory AacIoctl
  imports RawSrb AacEvents
begin

text \<open>
  The requests of user space to the RAID driver as a whole: the version of the driver and the
  place of the adapter, and \<open>aac_do_ioctl\<close> of \<open>commctrl.c\<close>, which hands a request to one of
  the functions of the theories \<open>Commctrl\<close> (fibs), \<open>AacEvents\<close> (listeners) and \<open>RawSrb\<close> (raw
  SCSI requests). The property at the end joins their invariants.
\<close>

section \<open>Small requests\<close>

text \<open>
  What the dispatcher takes from headers and other files: the command numbers, the layout of
  \<open>struct revision\<close>, the text \<open>aac_driver_version\<close> with its terminator, the build number when
  \<open>AAC_DRIVER_BUILD\<close> is defined, \<open>simple_strtol\<close> with base 10 (the number at a position and
  the position behind it; \<open>None\<close> when it reads past the text), \<open>PCI_SLOT\<close>, and the requests
  the part of the driver for the adapter at hand serves itself (\<open>aac_dev_ioctl\<close>).
\<close>

record 'w ioctl_env =
  FSACTL_MINIPORT_REV_CHECK :: int
  FSACTL_SEND_LARGE_FIB :: int
  FSACTL_SENDFIB :: int
  FSACTL_OPEN_GET_ADAPTER_FIB :: int
  FSACTL_GET_NEXT_ADAPTER_FIB :: int
  FSACTL_CLOSE_GET_ADAPTER_FIB :: int
  FSACTL_SEND_RAW_SRB :: int
  FSACTL_GET_PCI_INFO :: int
  TakeABreakPt :: u16
  revision_enc :: "u32 \<Rightarrow> u32 \<Rightarrow> u32 \<Rightarrow> byte list"
  aac_driver_version :: "byte list"
  AAC_DRIVER_BUILD :: "u32 option"
  simple_strtol :: "byte list \<Rightarrow> nat \<Rightarrow> (int \<times> nat) option"
  pci_bus :: u32
  pci_devfn :: u32
  PCI_SLOT :: "u32 \<Rightarrow> u32"
  aac_dev_ioctl :: "int \<Rightarrow> nat \<Rightarrow> aac_dev \<Rightarrow> 'w \<Rightarrow> (int \<times> aac_dev \<times> 'w) option"

definition driver_version :: "'w ioctl_env \<Rightarrow> u32 option" where
  "driver_version C = do {
     (major, i) \<leftarrow> simple_strtol C (aac_driver_version C) 0;
     (minor, i) \<leftarrow> simple_strtol C (aac_driver_version C) (i + 1);
     (patch, i) \<leftarrow> simple_strtol C (aac_driver_version C) (i + 1);
     Some (or (push_bit 24 (of_int major)) 0x400 + push_bit 16 (of_int minor) + of_int patch)
   }"

definition check_revision :: "'z world_scheme ioctl_env \<Rightarrow> nat \<Rightarrow> 'z world_scheme \<Rightarrow> (int \<times> 'z world_scheme) option" where
  "check_revision C arg w = do {
     version \<leftarrow> driver_version C;
     let response = revision_enc C 1 version (case AAC_DRIVER_BUILD C of Some b \<Rightarrow> b | None \<Rightarrow> 9999);
     (case copy_to_user arg response w of
        (True, w) \<Rightarrow> Some (- EFAULT, w)
      | (False, w) \<Rightarrow> Some (0, w))
   }"

definition aac_get_pci_info :: "'z world_scheme ioctl_env \<Rightarrow> nat \<Rightarrow> 'z world_scheme \<Rightarrow> int \<times> 'z world_scheme" where
  "aac_get_pci_info C arg w =
     (case copy_to_user arg (le32_bytes (pci_bus C) @ le32_bytes (PCI_SLOT C (pci_devfn C))) w of
        (True, w) \<Rightarrow> (- EFAULT, w)
      | (False, w) \<Rightarrow> (0, w))"

section \<open>The dispatcher\<close>

text \<open>
  The part of the driver for the adapter at hand comes first; what it does not know is served
  here. \<open>send\<close> is the function that sends a fib, of which the two versions of the file differ.
  A fetch that waits for an event has no result yet, which is \<open>None\<close> as its result.
\<close>

definition dispatch ::
  "('z sw ioctl_env \<Rightarrow> nat \<Rightarrow> aac_dev \<Rightarrow> 'z sw \<Rightarrow> (int \<times> aac_dev \<times> 'z sw) option) \<Rightarrow>
   aac_env \<Rightarrow> aif_env \<Rightarrow> srb_env \<Rightarrow> srb_host \<Rightarrow> aac_fw \<Rightarrow> 'z sw ioctl_env \<Rightarrow> u32 \<Rightarrow> u64 \<Rightarrow> 'z sw sleep list \<Rightarrow>
   int \<Rightarrow> nat \<Rightarrow> aac_dev \<Rightarrow> 'z sw \<Rightarrow> (int option \<times> aac_dev \<times> 'z sw) option" where
  "dispatch send A I E H fw C hw_fib_pa now evs cmd arg dev w = do {
     (status, dev, w) \<leftarrow> aac_dev_ioctl C cmd arg dev w;
     (if status \<noteq> - ENOTTY then Some (Some status, dev, w)
      else if cmd = FSACTL_MINIPORT_REV_CHECK C then do {
        (status, w) \<leftarrow> check_revision C arg w; Some (Some status, dev, w) }
      else if cmd = FSACTL_SEND_LARGE_FIB C \<or> cmd = FSACTL_SENDFIB C then do {
        (status, dev, w) \<leftarrow> send C arg dev w; Some (Some status, dev, w) }
      else if cmd = FSACTL_OPEN_GET_ADAPTER_FIB C then do {
        (status, dev, w) \<leftarrow> open_getadapter_fib I now arg dev w; Some (Some status, dev, w) }
      else if cmd = FSACTL_GET_NEXT_ADAPTER_FIB C then next_getadapter_fib I now arg evs dev w
      else if cmd = FSACTL_CLOSE_GET_ADAPTER_FIB C then do {
        (status, dev, w) \<leftarrow> close_getadapter_fib I arg dev w; Some (Some status, dev, w) }
      else if cmd = FSACTL_SEND_RAW_SRB C then do {
        (status, dev, w) \<leftarrow> aac_send_raw_srb A E H fw hw_fib_pa arg dev w; Some (Some status, dev, w) }
      else if cmd = FSACTL_GET_PCI_INFO C then
        let (status, w) = aac_get_pci_info C arg w in Some (Some status, dev, w)
      else Some (Some (- ENOTTY), dev, w))
   }"

definition aac_do_ioctl ::
  "aac_env \<Rightarrow> aif_env \<Rightarrow> srb_env \<Rightarrow> srb_host \<Rightarrow> aac_fw \<Rightarrow> 'z sw ioctl_env \<Rightarrow> u32 \<Rightarrow> u64 \<Rightarrow> 'z sw sleep list \<Rightarrow>
   int \<Rightarrow> nat \<Rightarrow> aac_dev \<Rightarrow> 'z sw \<Rightarrow> (int option \<times> aac_dev \<times> 'z sw) option" where
  "aac_do_ioctl A I E H fw = dispatch (\<lambda>C. ioctl_send_fib A fw (TakeABreakPt C)) A I E H fw"

definition aac_do_ioctl_patched ::
  "aac_env \<Rightarrow> aif_env \<Rightarrow> srb_env \<Rightarrow> srb_host \<Rightarrow> aac_fw \<Rightarrow> 'z sw ioctl_env \<Rightarrow> u32 \<Rightarrow> u64 \<Rightarrow> 'z sw sleep list \<Rightarrow>
   int \<Rightarrow> nat \<Rightarrow> aac_dev \<Rightarrow> 'z sw \<Rightarrow> (int option \<times> aac_dev \<times> 'z sw) option" where
  "aac_do_ioctl_patched A I E H fw = dispatch (\<lambda>C. ioctl_send_fib_patched A fw (TakeABreakPt C)) A I E H fw"

section \<open>One request, whatever it is\<close>

text \<open>The requests on the listeners leave the pool of fibs alone.\<close>

definition same_fibs :: "aac_dev \<Rightarrow> aac_dev \<Rightarrow> bool" where
  "same_fibs dev dev' \<longleftrightarrow> dfibs dev' = dfibs dev \<and> free_fib dev' = free_fib dev"

lemma same_fibs_simps [simp]:
  "same_fibs dev dev" "same_fibs dev (upd_ctx c g dev)" "same_fibs dev (stamp now c dev)"
  "same_fibs dev (restart_thread dev)" "same_fibs dev (dev\<lparr>contexts := cs\<rparr>)"
  by (simp_all add: same_fibs_def upd_ctx_def stamp_def restart_thread_def)

lemma same_fibs_trans: "same_fibs a b \<Longrightarrow> same_fibs b c \<Longrightarrow> same_fibs a c"
  by (simp add: same_fibs_def)

lemma same_fibs_list: "same_fibs dev dev' \<Longrightarrow> free_list dev' xs = free_list dev xs"
  by (simp add: same_fibs_def free_list_def nexts_def)

lemma open_same_fibs: "open_getadapter_fib I now arg dev w = Some (r, dev', w') \<Longrightarrow> same_fibs dev dev'"
  by (auto simp: open_getadapter_fib_def kmalloc_def copy_to_user_def bind_eq_Some_conv Let_def split: if_splits)

lemma close_same_fibs: "close_getadapter_fib I arg dev w = Some (r, dev', w') \<Longrightarrow> same_fibs dev dev'"
  by (auto simp: close_getadapter_fib_def aac_close_fib_context_def bind_eq_Some_conv Let_def
      split: option.splits if_splits)

lemma return_same_fibs: "return_fib now c ubuf fib dev w = Some (r, dev', w') \<Longrightarrow> same_fibs dev dev'"
  by (auto simp: return_fib_def copy_to_user_def bind_eq_Some_conv Let_def split: if_splits
      intro: same_fibs_trans [OF same_fibs_simps(2) same_fibs_simps(3)])

lemma down_same_fibs: "down_interruptible c [] dev w = Some (s, evs', dev', w') \<Longrightarrow> same_fibs dev dev' \<and> evs' = []"
  by (subst (asm) down_interruptible.simps) (auto simp: bind_eq_Some_conv split: if_splits)

lemma next_same_fibs: "next_loop now c wait ubuf evs dev w = Some (r, dev', w') \<Longrightarrow> evs = [] \<Longrightarrow> same_fibs dev dev'"
proof (induction now c wait ubuf evs dev w arbitrary: r dev' w' rule: next_loop.induct)
  case (1 now c wait ubuf evs dev w)
  from 1(2) obtain x where x: "find_ctx c dev = Some x" by (subst (asm) next_loop.simps) (auto simp: bind_eq_Some_conv)
  show ?case
  proof (cases "cfibs x")
    case (Cons fib rest)
    with 1(2) x show ?thesis
      by (subst (asm) next_loop.simps) (auto simp: bind_eq_Some_conv dest: return_same_fibs)
  next
    case Nil
    show ?thesis
    proof (cases wait)
      case False
      with 1(2) x Nil show ?thesis
        by (subst (asm) next_loop.simps)
          (auto simp: bind_eq_Some_conv Let_def intro: same_fibs_trans [OF same_fibs_simps(4) same_fibs_simps(3)])
    next
      case True
      with 1(2,3) x Nil obtain s evs1 dev1 w1
        where d: "down_interruptible c evs (restart_thread dev) w = Some (s, evs1, dev1, w1)"
          and rest: "(case s of Down \<Rightarrow> next_loop now c wait ubuf evs1 dev1 w1
             | Signalled \<Rightarrow> Some (Some (- ERESTARTSYS), stamp now c dev1, w1)
             | Asleep \<Rightarrow> Some (None, dev1, w1)) = Some (r, dev', w')"
        by (subst (asm) next_loop.simps) (auto simp: bind_eq_Some_conv Let_def)
      from d 1(3) have f: "same_fibs dev dev1" "evs1 = []"
        by (auto dest!: down_same_fibs intro: same_fibs_trans [OF same_fibs_simps(4)])
      have again: "s = Down \<Longrightarrow> same_fibs dev1 dev'"
        using 1(1) [OF x Nil refl] True d rest f(2) by simp
      show ?thesis
        using rest f again by (cases s) (auto intro: same_fibs_trans)
    qed
  qed
qed

text \<open>The part of the driver for the adapter at hand keeps the pool and the listeners; what it does not know it leaves alone.\<close>

definition hba_ok :: "aif_env \<Rightarrow> 'z sw ioctl_env \<Rightarrow> nat list \<Rightarrow> nat list \<Rightarrow> bool" where
  "hba_ok I C base xs \<longleftrightarrow> (\<forall>cmd arg dev w. aif_inv I base dev w \<longrightarrow> free_list dev xs \<longrightarrow>
     ok (aac_dev_ioctl C cmd arg dev w) (\<lambda>(r, dev', w'). aif_inv I base dev' w' \<and> free_list dev' xs \<and>
       (r = - ENOTTY \<longrightarrow> dev' = dev \<and> w' = w)))"

text \<open>
  The end of a request: the pool is whole, but for a fib the adapter still has; the live
  objects are those of the rest of the kernel and of the listeners, but for one copy of a
  header (\<open>lost\<close>).
\<close>

definition ioctl_post ::
  "nat list \<Rightarrow> nat list \<Rightarrow> nat multiset \<Rightarrow> int option \<times> aac_dev \<times> 'z world_scheme \<Rightarrow> bool" where
  "ioctl_post base xs lost = (\<lambda>(r, dev', w'). (free_list dev' xs \<or> r = Some (- ERESTARTSYS) \<and> free_list dev' (tl xs)) \<and>
     (\<exists>extra. extra \<subseteq># lost \<and> mset (klive w') = mset base + mset (aif_objs (contexts dev')) + extra) \<and>
     distinct (map unique (contexts dev')))"

lemma ioctl_postI:
  "aif_inv I base dev' w' \<Longrightarrow> free_list dev' xs \<Longrightarrow> ioctl_post base xs lost (r, dev', w')"
  by (force simp: ioctl_post_def aif_inv_def intro: exI [of _ "{#}"])

lemma ioctl_post_same:
  "aif_inv I base dev w \<Longrightarrow> contexts dev' = contexts dev \<Longrightarrow>
   mset (klive w') = mset (klive w) + extra \<Longrightarrow> extra \<subseteq># lost \<Longrightarrow>
   free_list dev' (if status = - ERESTARTSYS then tl xs else xs) \<Longrightarrow> ioctl_post base xs lost (Some status, dev', w')"
  by (auto split: if_splits simp: ioctl_post_def aif_inv_def)

lemma ioctl_send_post:
  assumes inv: "aif_inv I base dev w" and pool: "aac_env_ok A" "fw_ok A fw" "pool_ok A dev" "free_list dev xs"
  shows "ok (ioctl_send_fib_patched A fw brk arg dev w) (\<lambda>(r, dev', w'). ioctl_post base xs {#knext w#} (Some r, dev', w'))"
  by (rule ok_mono [OF send_fib_patched_core [OF pool]]) (auto intro!: ioctl_post_same [OF inv])

lemma ioctl_open_post:
  assumes inv: "aif_inv I base dev w" and list: "free_list dev xs" and few: "length (contexts dev) < 2 ^ 32"
  shows "ok (open_getadapter_fib I now arg dev w) (\<lambda>(r, dev', w'). ioctl_post base xs lost (Some r, dev', w'))"
  by (rule ok_mono [OF open_getadapter_fib_ok [OF inv few]])
    (auto intro!: ioctl_postI simp: list dest!: open_same_fibs same_fibs_list [where xs = xs])

lemma ioctl_next_post:
  assumes inv: "aif_inv I base dev w" and list: "free_list dev xs"
  shows "ok (next_getadapter_fib I now arg [] dev w) (\<lambda>r. ioctl_post base xs lost r)"
proof -
  have "next_getadapter_fib I now arg [] dev w = Some (r, dev', w') \<Longrightarrow> same_fibs dev dev'" for r dev' w'
    by (auto simp: next_getadapter_fib_def copy_from_user_def split: option.splits if_splits dest!: next_same_fibs)
  then show ?thesis
    by (intro ok_mono [OF next_getadapter_fib_ok [OF inv]])
      (auto intro!: ioctl_postI simp: list dest!: same_fibs_list [where xs = xs])
qed

lemma ioctl_close_post:
  assumes inv: "aif_inv I base dev w" and list: "free_list dev xs"
  shows "ok (close_getadapter_fib I arg dev w) (\<lambda>(r, dev', w'). ioctl_post base xs lost (Some r, dev', w'))"
  by (rule ok_mono [OF close_getadapter_fib_ok [OF inv]])
    (auto intro!: ioctl_postI simp: list dest!: close_same_fibs same_fibs_list [where xs = xs])

lemma ok_ifI: "(b \<Longrightarrow> ok m Q) \<Longrightarrow> (\<not> b \<Longrightarrow> ok n Q) \<Longrightarrow> ok (if b then m else n) Q"
  by simp

lemma ok_ioctl: "ok m (\<lambda>(r, dev, w). Q (Some r, dev, w)) \<Longrightarrow> ok (do { (status, dev, w) \<leftarrow> m; Some (Some status, dev, w) }) Q"
  by (erule ok_bindI) auto

lemma ok_ioctl1: "ok m (\<lambda>(r, w). Q (Some r, dev, w)) \<Longrightarrow> ok (do { (status, w) \<leftarrow> m; Some (Some status, dev, w) }) Q"
  by (erule ok_bindI) auto

lemma ioctl_raw_post:
  assumes inv: "aif_inv I base dev w" and A: "aac_env_ok A" and E: "srb_env_ok E" and fw: "fw_ok A fw" "fw_keeps E fw"
    and H: "fills_within H" and pool: "pool_ok A dev" and list: "free_list dev xs"
    and room: "sizeof_fibhdr A + srb_fixed E + 32 * sizeof_sgentry64 E \<le> max_fib_size dev"
    and good: "\<And>n u. user_fixed E \<le> n \<Longrightarrow> ufetch (umem w (Suc (utime w))) arg n = Some u \<Longrightarrow> good_request E H u"
  shows "ok (aac_send_raw_srb A E H fw pa arg dev w) (\<lambda>(r, dev', w'). ioctl_post base xs lost (Some r, dev', w'))"
  by (rule ok_mono [OF aac_send_raw_srb_core [OF A E fw H pool list room]], rule good)
    (auto intro!: ioctl_post_same [OF inv, where extra = "{#}"])

lemma ioctl_small_post:
  assumes inv: "aif_inv I base dev w" and list: "free_list dev xs" and v: "driver_version C \<noteq> None"
  shows "ok (check_revision C arg w) (\<lambda>(r, w'). ioctl_post base xs lost (Some r, dev, w'))"
    and "(\<lambda>(r, w'). ioctl_post base xs lost (Some r, dev, w')) (aac_get_pci_info C arg w)"
proof -
  have "aif_inv I base dev (snd (copy_to_user p bs w))" for p bs
    using inv by (simp add: aif_inv_def copy_to_user_def)
  from ioctl_postI [OF this list] have p: "ioctl_post base xs lost (r, dev, snd (copy_to_user q bs w))" for r q bs .
  show "ok (check_revision C arg w) (\<lambda>(r, w'). ioctl_post base xs lost (Some r, dev, w'))"
    using v p by (auto simp: check_revision_def Let_def ok_simps split: option.splits prod.splits bool.splits) (metis snd_conv)+
  show "(\<lambda>(r, w'). ioctl_post base xs lost (Some r, dev, w')) (aac_get_pci_info C arg w)"
    using p by (auto simp: aac_get_pci_info_def split: prod.splits bool.splits) (metis snd_conv)+
qed


section \<open>A concrete driver\<close>

text \<open>\<open>simple_strtol\<close> without a sign, on a text that ends in 0.\<close>

fun digits :: "byte list \<Rightarrow> int \<Rightarrow> nat \<Rightarrow> (int \<times> nat) option" where
  "digits [] n i = None"
| "digits (c # cs) n i = (if 48 \<le> c \<and> c \<le> 57 then digits cs (10 * n + uint (c - 48)) (Suc i) else Some (n, i))"

definition strtol_text :: "byte list \<Rightarrow> nat \<Rightarrow> (int \<times> nat) option" where
  "strtol_text t i = digits (drop i t) 0 i"

text \<open>The numbers of the commands and the text \<open>1.2-0\<close>.\<close>

definition ioctl_headers :: "'w ioctl_env" where
  "ioctl_headers = \<lparr>FSACTL_MINIPORT_REV_CHECK = 2107, FSACTL_SEND_LARGE_FIB = 2138, FSACTL_SENDFIB = 2050,
     FSACTL_OPEN_GET_ADAPTER_FIB = 2100, FSACTL_GET_NEXT_ADAPTER_FIB = 2101, FSACTL_CLOSE_GET_ADAPTER_FIB = 2102,
     FSACTL_SEND_RAW_SRB = 2067, FSACTL_GET_PCI_INFO = 2119, TakeABreakPt = 1,
     revision_enc = \<lambda>a b c. le32_bytes a @ le32_bytes b @ le32_bytes c,
     aac_driver_version = [49, 46, 50, 45, 48, 0], AAC_DRIVER_BUILD = None, simple_strtol = strtol_text,
     pci_bus = 0, pci_devfn = 8, PCI_SLOT = \<lambda>d. and (drop_bit 3 d) 31,
     aac_dev_ioctl = \<lambda>_ _ dev w. Some (- ENOTTY, dev, w)\<rparr>"

lemma ioctl_headers_version: "driver_version ioctl_headers = Some 0x01020400"
  by code_simp

lemma ioctl_headers_hba: "hba_ok I ioctl_headers base xs"
  by (simp add: hba_ok_def ioctl_headers_def)

lemma ioctl_world_inv: "aif_inv I [] raw_demo (raw_world m)"
  by (simp add: aif_inv_def raw_demo_def aac_demo_def raw_world_def)


end
