(* ===== verification/AuditLog.thy ===== *)
theory AuditLog
  imports Kernel
begin

text \<open>
  The record side of the audit system, \<open>audit.c\<close>: the pool of audit buffers, formatting
  into a socket buffer, escaping of untrusted strings, the backlog, and the ways a record
  takes to user space (the audit daemon, the queue of held records, the console) or is lost.

  Memory of the kernel (buffers and socket buffers) is tracked in \<open>klive\<close>. A panic that the
  administrator asked for ends the run like a fault does: it is \<open>None\<close>.
\<close>

section \<open>The state\<close>

text \<open>A socket buffer: the object, the message type, the text behind the header, the room behind the text.\<close>

record skb =
  sk_id :: nat
  sk_type :: nat
  sk_text :: "byte list"
  sk_room :: nat

text \<open>A record under construction (\<open>struct audit_buffer\<close>); the second field is whether its allocations may sleep.\<close>

record abuf =
  ab_id :: nat
  ab_reclaim :: bool
  ab_skb :: "skb option"

text \<open>
  The variables of \<open>audit.c\<close>, with what has left the kernel: the records sent to the daemon
  and those printed, latest first.
\<close>

record audit_world = world +
  audit_initialized :: bool
  audit_enabled :: u32
  audit_ever_enabled :: u32
  audit_default :: bool
  audit_failure :: u32
  audit_pid :: int
  audit_rate_limit :: u32
  audit_backlog_limit :: u32
  audit_wait_master :: u32
  audit_wait :: u32
  audit_lost :: nat
  last_msg :: u64
  last_check :: u64
  messages :: u32
  serial_no :: u32
  freelist :: "nat list"
  skb_queue :: "skb list"
  hold_queue :: "skb list"
  sent :: "skb list"
  printed :: "skb list"

text \<open>
  The outside, asked by the number of the call: the clock, whether the console takes another
  message, the result of sending to the daemon, the room an allocation gives beyond the
  request, the wake-ups of a task that waits for the daemon (with the time left and the
  number of records the daemon's thread takes before it), the record types a filter drops,
  the time of day; and the length of the free list, the ticks of a second, the caller with its
  login and session. The security module gives the caller's label and its text, or an error.
\<close>

record audit_env =
  jiffies :: "nat \<Rightarrow> u64"
  printk_ok :: "nat \<Rightarrow> bool"
  unicast :: "nat \<Rightarrow> int"
  slack :: "nat \<Rightarrow> nat"
  wakeups :: "nat \<Rightarrow> (int \<times> nat) list"
  filter_type :: "nat \<Rightarrow> bool"
  clock :: "nat \<Rightarrow> nat \<times> nat"
  maxfree :: nat
  HZ :: u64
  cur_tgid :: int
  cur_auid :: u32
  cur_ses :: u32
  getsecid :: "nat \<Rightarrow> u32"
  secctx :: "nat \<Rightarrow> u32 \<Rightarrow> int \<times> byte list"

type_synonym 'z aw = "'z audit_world_scheme"

definition AUDIT_BUFSIZ :: nat where "AUDIT_BUFSIZ = 1024"
definition AUDITD_RETRIES :: nat where "AUDITD_RETRIES = 5"

text \<open>Numbers of the interface to user space (\<open>linux/audit.h\<close>).\<close>

abbreviation AUDIT_FAIL_SILENT :: u32 where "AUDIT_FAIL_SILENT \<equiv> 0"
abbreviation AUDIT_FAIL_PRINTK :: u32 where "AUDIT_FAIL_PRINTK \<equiv> 1"
abbreviation AUDIT_FAIL_PANIC :: u32 where "AUDIT_FAIL_PANIC \<equiv> 2"
abbreviation AUDIT_CONFIG_CHANGE :: nat where "AUDIT_CONFIG_CHANGE \<equiv> 1305"
abbreviation AUDIT_EXECVE :: nat where "AUDIT_EXECVE \<equiv> 1309"
abbreviation AUDIT_EOE :: nat where "AUDIT_EOE \<equiv> 1320"
abbreviation AUDIT_FEATURE_CHANGE :: nat where "AUDIT_FEATURE_CHANGE \<equiv> 1328"
abbreviation AUDIT_OFF :: u32 where "AUDIT_OFF \<equiv> 0"
abbreviation AUDIT_ON :: u32 where "AUDIT_ON \<equiv> 1"
abbreviation AUDIT_LOCKED :: u32 where "AUDIT_LOCKED \<equiv> 2"

text \<open>A call of the outside: its number.\<close>

definition tick :: "'z aw \<Rightarrow> nat \<times> 'z aw" where
  "tick w = (xcalls w, w\<lparr>xcalls := Suc (xcalls w)\<rparr>)"

section \<open>Loss\<close>

definition audit_panic :: "'z aw \<Rightarrow> 'z aw option" where
  "audit_panic w = (if audit_failure w = AUDIT_FAIL_PANIC \<and> audit_pid w \<noteq> 0 then None else Some w)"

definition audit_rate_check :: "audit_env \<Rightarrow> 'z aw \<Rightarrow> bool \<times> 'z aw" where
  "audit_rate_check A w =
     (if audit_rate_limit w = 0 then (True, w)
      else
        let w = w\<lparr>messages := messages w + 1\<rparr> in
        if messages w < audit_rate_limit w then (True, w)
        else
          let (n, w) = tick w; now = jiffies A n in
          if now - last_check w > HZ A then (True, w\<lparr>last_check := now, messages := 0\<rparr>) else (False, w))"

definition audit_log_lost :: "audit_env \<Rightarrow> 'z aw \<Rightarrow> 'z aw option" where
  "audit_log_lost A w =
     (let w = w\<lparr>audit_lost := Suc (audit_lost w)\<rparr> in
      if audit_failure w = AUDIT_FAIL_PANIC \<or> audit_rate_limit w = 0 then audit_panic w
      else
        let (n, w) = tick w; now = jiffies A n in
        if now - last_msg w > HZ A then audit_panic (w\<lparr>last_msg := now\<rparr>) else Some w)"

section \<open>Buffers\<close>

definition audit_buffer_free :: "audit_env \<Rightarrow> abuf \<Rightarrow> 'z aw \<Rightarrow> 'z aw option" where
  "audit_buffer_free A ab w = do {
     w \<leftarrow> (case ab_skb ab of None \<Rightarrow> Some w | Some s \<Rightarrow> kfree (sk_id s) w);
     (if length (freelist w) > maxfree A then kfree (ab_id ab) w
      else Some (w\<lparr>freelist := ab_id ab # freelist w\<rparr>))
   }"

text \<open>A buffer from the free list, or a new one; then its socket buffer with the header.\<close>

definition take_buffer :: "'z aw \<Rightarrow> nat option \<times> 'z aw" where
  "take_buffer w =
     (case freelist w of
        k # ks \<Rightarrow> (Some k, w\<lparr>freelist := ks\<rparr>)
      | [] \<Rightarrow> (case kmalloc 0 w of (None, w) \<Rightarrow> (None, w) | (Some (k, _), w) \<Rightarrow> (Some k, w)))"

definition audit_buffer_alloc ::
  "audit_env \<Rightarrow> bool \<Rightarrow> nat \<Rightarrow> 'z aw \<Rightarrow> (abuf option \<times> 'z aw) option" where
  "audit_buffer_alloc A reclaim type w =
     (case take_buffer w of
        (None, w) \<Rightarrow> Some (None, w)
      | (Some k, w) \<Rightarrow>
          (case kmalloc 0 w of
             (None, w) \<Rightarrow> do {
               w \<leftarrow> audit_buffer_free A \<lparr>ab_id = k, ab_reclaim = reclaim, ab_skb = None\<rparr> w;
               Some (None, w)
             }
           | (Some (s, _), w) \<Rightarrow>
               let (n, w) = tick w;
                   skb = \<lparr>sk_id = s, sk_type = type, sk_text = [], sk_room = AUDIT_BUFSIZ + slack A n\<rparr>
               in Some (Some \<lparr>ab_id = k, ab_reclaim = reclaim, ab_skb = Some skb\<rparr>, w)))"

section \<open>Text\<close>

text \<open>The bytes of an ASCII text, and numbers in decimal.\<close>

definition ascii :: "string \<Rightarrow> byte list" where
  "ascii s = map of_char s"

fun dec :: "nat \<Rightarrow> byte list" where
  "dec n = (if n < 10 then [48 + of_nat n] else dec (n div 10) @ [48 + of_nat (n mod 10)])"

declare dec.simps [simp del]

text \<open>More room behind the text; the result is the room, 0 when there is no memory.\<close>

definition audit_expand :: "audit_env \<Rightarrow> nat \<Rightarrow> skb \<Rightarrow> 'z aw \<Rightarrow> (nat \<times> skb \<times> 'z aw) option" where
  "audit_expand A extra s w =
     (let k = knext w; w = w\<lparr>knext := Suc k\<rparr> in
      if kfail w k then do { w \<leftarrow> audit_log_lost A w; Some (0, s, w) }
      else
        let (n, w) = tick w; room = sk_room s + extra + slack A n in
        Some (room, s\<lparr>sk_room := room\<rparr>, w))"

text \<open>Bytes written behind the text, of which the first \<open>n\<close> become text.\<close>

definition skb_write :: "byte list \<Rightarrow> nat \<Rightarrow> skb \<Rightarrow> skb option" where
  "skb_write bs n s =
     (if length bs \<le> sk_room s \<and> n \<le> length bs
      then Some (s\<lparr>sk_text := sk_text s @ take n bs, sk_room := sk_room s - n\<rparr>) else None)"

text \<open>
  A formatted text \<open>t\<close>. \<open>vsnprintf\<close> stores at most the room it is given, and answers the
  length of the whole text.
\<close>

definition vsnprintf :: "nat \<Rightarrow> byte list \<Rightarrow> byte list" where
  "vsnprintf avail t = (if length t < avail then t @ [0] else take (avail - 1) t @ [0])"

definition vformat_put :: "byte list \<Rightarrow> nat \<Rightarrow> skb \<Rightarrow> skb option" where
  "vformat_put t avail s =
     (if length t > 0 then skb_write (vsnprintf avail t) (length t) s else Some s)"

definition vformat_fit :: "audit_env \<Rightarrow> byte list \<Rightarrow> nat \<Rightarrow> skb \<Rightarrow> 'z aw \<Rightarrow> (skb \<times> 'z aw) option" where
  "vformat_fit A t avail s w =
     (if length t \<ge> avail then do {
        (avail, s, w) \<leftarrow> audit_expand A (max AUDIT_BUFSIZ (1 + length t - avail)) s w;
        (if avail = 0 then Some (s, w) else do { s \<leftarrow> vformat_put t avail s; Some (s, w) })
      } else do { s \<leftarrow> vformat_put t avail s; Some (s, w) })"

definition audit_log_vformat :: "audit_env \<Rightarrow> byte list \<Rightarrow> skb \<Rightarrow> 'z aw \<Rightarrow> (skb \<times> 'z aw) option" where
  "audit_log_vformat A t s w =
     (if sk_room s = 0 then do {
        (avail, s, w) \<leftarrow> audit_expand A AUDIT_BUFSIZ s w;
        (if avail = 0 then Some (s, w) else vformat_fit A t avail s w)
      } else vformat_fit A t (sk_room s) s w)"

definition hexdigit :: "nat \<Rightarrow> byte" where
  "hexdigit d = (if d < 10 then 48 + of_nat d else 55 + of_nat d)"

definition hex_byte_pack_upper :: "byte \<Rightarrow> byte list" where
  "hex_byte_pack_upper b = [hexdigit (unat b div 16), hexdigit (unat b mod 16)]"

definition hex_text :: "byte list \<Rightarrow> byte list" where
  "hex_text bs = concat (map hex_byte_pack_upper bs)"

definition n_hex :: "audit_env \<Rightarrow> byte list \<Rightarrow> skb \<Rightarrow> 'z aw \<Rightarrow> (skb \<times> 'z aw) option" where
  "n_hex A bs s w =
     (let avail = sk_room s; new_len = 2 * length bs in
      if new_len \<ge> avail then do {
        (avail, s, w) \<leftarrow> audit_expand A (AUDIT_BUFSIZ * ((new_len - avail) div AUDIT_BUFSIZ + 1)) s w;
        (if avail = 0 then Some (s, w)
         else do { s \<leftarrow> skb_write (hex_text bs @ [0]) new_len s; Some (s, w) })
      } else do { s \<leftarrow> skb_write (hex_text bs @ [0]) new_len s; Some (s, w) })"

definition n_string :: "audit_env \<Rightarrow> byte list \<Rightarrow> skb \<Rightarrow> 'z aw \<Rightarrow> (skb \<times> 'z aw) option" where
  "n_string A bs s w =
     (let avail = sk_room s; new_len = length bs + 3 in
      if new_len > avail then do {
        (avail, s, w) \<leftarrow> audit_expand A new_len s w;
        (if avail = 0 then Some (s, w)
         else do { s \<leftarrow> skb_write (34 # bs @ [34, 0]) (length bs + 2) s; Some (s, w) })
      } else do { s \<leftarrow> skb_write (34 # bs @ [34, 0]) (length bs + 2) s; Some (s, w) })"

text \<open>The operations on a buffer; without one they do nothing.\<close>

definition on_skb :: "(skb \<Rightarrow> 'z aw \<Rightarrow> (skb \<times> 'z aw) option) \<Rightarrow> abuf option \<Rightarrow> 'z aw \<Rightarrow> (abuf option \<times> 'z aw) option" where
  "on_skb f ab w =
     (case ab of
        None \<Rightarrow> Some (None, w)
      | Some a \<Rightarrow>
          (case ab_skb a of
             None \<Rightarrow> None
           | Some s \<Rightarrow> do { (s, w) \<leftarrow> f s w; Some (Some (a\<lparr>ab_skb := Some s\<rparr>), w) }))"

definition audit_log_format :: "audit_env \<Rightarrow> byte list \<Rightarrow> abuf option \<Rightarrow> 'z aw \<Rightarrow> (abuf option \<times> 'z aw) option" where
  "audit_log_format A t = on_skb (audit_log_vformat A t)"

definition audit_log_n_hex :: "audit_env \<Rightarrow> byte list \<Rightarrow> abuf option \<Rightarrow> 'z aw \<Rightarrow> (abuf option \<times> 'z aw) option" where
  "audit_log_n_hex A bs = on_skb (n_hex A bs)"

definition audit_log_n_string :: "audit_env \<Rightarrow> byte list \<Rightarrow> abuf option \<Rightarrow> 'z aw \<Rightarrow> (abuf option \<times> 'z aw) option" where
  "audit_log_n_string A bs = on_skb (n_string A bs)"

definition audit_string_contains_control :: "byte list \<Rightarrow> bool" where
  "audit_string_contains_control bs = list_ex (\<lambda>b. b = 34 \<or> b < 0x21 \<or> b > 0x7e) bs"

definition audit_log_n_untrustedstring :: "audit_env \<Rightarrow> byte list \<Rightarrow> abuf option \<Rightarrow> 'z aw \<Rightarrow> (abuf option \<times> 'z aw) option" where
  "audit_log_n_untrustedstring A bs =
     (if audit_string_contains_control bs then audit_log_n_hex A bs else audit_log_n_string A bs)"

section \<open>The way out\<close>

definition audit_hold_skb :: "skb \<Rightarrow> 'z aw \<Rightarrow> 'z aw option" where
  "audit_hold_skb s w =
     (if audit_default w \<and> (audit_backlog_limit w = 0 \<or> length (hold_queue w) < unat (audit_backlog_limit w))
      then Some (w\<lparr>hold_queue := hold_queue w @ [s]\<rparr>)
      else kfree (sk_id s) w)"

definition audit_printk_skb :: "audit_env \<Rightarrow> skb \<Rightarrow> 'z aw \<Rightarrow> 'z aw option" where
  "audit_printk_skb A s w = do {
     w \<leftarrow> (if sk_type s \<noteq> AUDIT_EOE then
             (let (n, w) = tick w in
              if printk_ok A n then Some (w\<lparr>printed := s # printed w\<rparr>) else audit_log_lost A w)
           else Some w);
     audit_hold_skb s w
   }"

text \<open>
  Sending to the daemon; \<open>attempts\<close> counts the failures so far. A record that was sent is
  the receiver's.
\<close>

function kauditd_send :: "audit_env \<Rightarrow> nat \<Rightarrow> skb \<Rightarrow> 'z aw \<Rightarrow> 'z aw option" where
  "kauditd_send A attempts s w =
     (let (n, w) = tick w; err = unicast A n in
      if err < 0 then
        (if audit_pid w \<noteq> 0 then
           (if err = - ECONNREFUSED \<or> err = - EPERM \<or> Suc attempts \<ge> AUDITD_RETRIES then do {
              w \<leftarrow> audit_log_lost A w;
              audit_hold_skb s (w\<lparr>audit_pid := 0\<rparr>)
            } else kauditd_send A (Suc attempts) s w)
         else audit_hold_skb s w)
      else do { w \<leftarrow> kfree (sk_id s) w; Some (w\<lparr>sent := s # sent w\<rparr>) })"
  by pat_completeness auto
termination
  by (relation "measure (\<lambda>(A, attempts, s, w). AUDITD_RETRIES - attempts)") (auto simp: AUDITD_RETRIES_def)

declare kauditd_send.simps [simp del]

definition kauditd_send_skb :: "audit_env \<Rightarrow> skb \<Rightarrow> 'z aw \<Rightarrow> 'z aw option" where
  "kauditd_send_skb A s w = kauditd_send A 0 s w"

definition consume_skb :: "skb option \<Rightarrow> 'z aw \<Rightarrow> 'z aw option" where
  "consume_skb s w = (case s of None \<Rightarrow> Some w | Some s \<Rightarrow> kfree (sk_id s) w)"

definition dequeue_held :: "'z aw \<Rightarrow> skb option \<times> 'z aw" where
  "dequeue_held w = (case hold_queue w of [] \<Rightarrow> (None, w) | s # ss \<Rightarrow> (Some s, w\<lparr>hold_queue := ss\<rparr>))"

partial_function (option) flush_loop :: "audit_env \<Rightarrow> skb option \<Rightarrow> 'z aw \<Rightarrow> 'z aw option" where
  "flush_loop A s w =
     (case s of
        None \<Rightarrow> consume_skb s w
      | Some x \<Rightarrow>
          if audit_pid w \<noteq> 0
          then Option.bind (kauditd_send_skb A x w) (\<lambda>w. case dequeue_held w of (s, w) \<Rightarrow> flush_loop A s w)
          else consume_skb s w)"

definition flush_hold_queue :: "audit_env \<Rightarrow> 'z aw \<Rightarrow> 'z aw option" where
  "flush_hold_queue A w =
     (if \<not> audit_default w \<or> audit_pid w = 0 then Some w
      else (case dequeue_held w of
        (None, w) \<Rightarrow> Some w
      | (Some s, w) \<Rightarrow> flush_loop A (Some s) w))"

text \<open>One turn of the thread \<open>kauditd\<close>; without a record it goes to sleep.\<close>

definition kauditd_turn :: "audit_env \<Rightarrow> 'z aw \<Rightarrow> 'z aw option" where
  "kauditd_turn A w = do {
     w \<leftarrow> flush_hold_queue A w;
     (case skb_queue w of
        [] \<Rightarrow> Some w
      | s # ss \<Rightarrow>
          let w = w\<lparr>skb_queue := ss\<rparr> in
          if audit_pid w \<noteq> 0 then kauditd_send_skb A s w else audit_printk_skb A s w)
   }"

primrec kauditd_turns :: "audit_env \<Rightarrow> nat \<Rightarrow> 'z aw \<Rightarrow> 'z aw option" where
  "kauditd_turns A 0 w = Some w"
| "kauditd_turns A (Suc n) w = Option.bind (kauditd_turn A w) (kauditd_turns A n)"

section \<open>Records\<close>

definition audit_serial :: "'z aw \<Rightarrow> u32 \<times> 'z aw" where
  "audit_serial w = (serial_no w + 1, w\<lparr>serial_no := serial_no w + 1\<rparr>)"

text \<open>
  The backlog: true when the record may be queued. A task that may sleep waits while the
  daemon's thread works; \<open>ws\<close> are its wake-ups, after the last one its time is over.
\<close>

definition backlog_full :: "nat \<Rightarrow> 'z aw \<Rightarrow> bool" where
  "backlog_full reserve w \<longleftrightarrow> audit_backlog_limit w \<noteq> 0 \<and> length (skb_queue w) > unat (audit_backlog_limit w + of_nat reserve)"

definition backlog_lost :: "audit_env \<Rightarrow> 'z aw \<Rightarrow> (bool \<times> 'z aw) option" where
  "backlog_lost A w =
     (let (_, w) = audit_rate_check A w in do { w \<leftarrow> audit_log_lost A w; Some (False, w\<lparr>audit_wait := 0\<rparr>) })"

fun backlog_wait :: "audit_env \<Rightarrow> bool \<Rightarrow> nat \<Rightarrow> (int \<times> nat) list \<Rightarrow> 'z aw \<Rightarrow> (bool \<times> 'z aw) option" where
  "backlog_wait A reclaim reserve [] w =
     (if \<not> backlog_full reserve w then Some (True, w) else backlog_lost A w)"
| "backlog_wait A reclaim reserve ((left, n) # ws) w =
     (if \<not> backlog_full reserve w then Some (True, w)
      else if reclaim \<and> audit_wait w \<noteq> 0 then do {
        w \<leftarrow> kauditd_turns A n w;
        (if left > 0 then backlog_wait A reclaim reserve ws w else backlog_lost A w)
      }
      else backlog_lost A w)"

text \<open>The time stamp and the number of the event come from the caller's context or are new.\<close>

type_synonym 'z stamp = "'z aw \<Rightarrow> (nat \<times> nat \<times> u32) \<times> 'z aw"

definition stamp_text :: "nat \<times> nat \<times> u32 \<Rightarrow> byte list" where
  "stamp_text t = (case t of (sec, msec, serial) \<Rightarrow>
     ascii ''audit('' @ dec sec @ ascii ''.'' @ drop 1 (dec (1000 + msec mod 1000)) @ ascii '':'' @ dec (unat serial) @ ascii ''): '')"

definition fresh_stamp :: "audit_env \<Rightarrow> 'z stamp" where
  "fresh_stamp A w =
     (let (n, w) = tick w; (sec, msec) = clock A n; (serial, w) = audit_serial w in ((sec, msec, serial), w))"

definition audit_log_start ::
  "audit_env \<Rightarrow> 'z stamp \<Rightarrow> bool \<Rightarrow> nat \<Rightarrow> 'z aw \<Rightarrow> (abuf option \<times> 'z aw) option" where
  "audit_log_start A stamp reclaim type w =
     (if \<not> audit_initialized w then Some (None, w)
      else if filter_type A type then Some (None, w)
      else
        let daemon = audit_pid w \<noteq> 0 \<and> audit_pid w = cur_tgid A;
            reserve = (if reclaim \<and> \<not> daemon then 0 else 5);
            reclaim = (reclaim \<and> \<not> daemon);
            (n, w) = tick w
        in do {
          (go, w) \<leftarrow> backlog_wait A reclaim reserve (wakeups A n) w;
          (if \<not> go then Some (None, w)
           else
             let w = (if reserve = 0 \<and> audit_wait w = 0 then w\<lparr>audit_wait := audit_wait_master w\<rparr> else w) in do {
               (ab, w) \<leftarrow> audit_buffer_alloc A reclaim type w;
               (case ab of
                  None \<Rightarrow> do { w \<leftarrow> audit_log_lost A w; Some (None, w) }
                | Some _ \<Rightarrow> (let (t, w) = stamp w in audit_log_format A (stamp_text t) ab w))
             })
        })"

text \<open>
  The end of a record. The copy for multicast listeners is their business alone and is not
  modelled.
\<close>

definition audit_log_end :: "audit_env \<Rightarrow> abuf option \<Rightarrow> 'z aw \<Rightarrow> 'z aw option" where
  "audit_log_end A ab w =
     (case ab of
        None \<Rightarrow> Some w
      | Some a \<Rightarrow>
          (let (go, w) = audit_rate_check A w in
           if \<not> go then do { w \<leftarrow> audit_log_lost A w; audit_buffer_free A a w }
           else (case ab_skb a of
             None \<Rightarrow> None
           | Some s \<Rightarrow> do {
               w \<leftarrow> (if audit_pid w \<noteq> 0 then Some (w\<lparr>skb_queue := skb_queue w @ [s]\<rparr>)
                     else audit_printk_skb A s w);
               audit_buffer_free A (a\<lparr>ab_skb := None\<rparr>) w
             })))"

text \<open>The pieces of a record: formatted text, or a string nobody trusts.\<close>

datatype piece = Text "byte list" | Untrusted "byte list"

primrec audit_put :: "audit_env \<Rightarrow> piece \<Rightarrow> abuf option \<Rightarrow> 'z aw \<Rightarrow> (abuf option \<times> 'z aw) option" where
  "audit_put A (Text t) = audit_log_format A t"
| "audit_put A (Untrusted bs) = audit_log_n_untrustedstring A bs"

primrec audit_puts :: "audit_env \<Rightarrow> piece list \<Rightarrow> abuf option \<Rightarrow> 'z aw \<Rightarrow> (abuf option \<times> 'z aw) option" where
  "audit_puts A [] ab w = Some (ab, w)"
| "audit_puts A (p # ps) ab w = do { (ab, w) \<leftarrow> audit_put A p ab w; audit_puts A ps ab w }"

definition audit_log :: "audit_env \<Rightarrow> 'z stamp \<Rightarrow> bool \<Rightarrow> nat \<Rightarrow> byte list \<Rightarrow> 'z aw \<Rightarrow> 'z aw option" where
  "audit_log A stamp reclaim type t w = do {
     (ab, w) \<leftarrow> audit_log_start A stamp reclaim type w;
     (case ab of
        None \<Rightarrow> Some w
      | Some _ \<Rightarrow> do { (ab, w) \<leftarrow> audit_log_format A t ab w; audit_log_end A ab w })
   }"

section \<open>What logging leaves alone\<close>

text \<open>Logging may allocate, ask the outside, and count losses.\<close>

definition log_frame :: "'z aw \<Rightarrow> 'z aw \<Rightarrow> bool" where
  "log_frame w w' \<longleftrightarrow> audit_lost w \<le> audit_lost w' \<and>
     w' = w\<lparr>knext := knext w', xcalls := xcalls w', audit_lost := audit_lost w', last_msg := last_msg w',
       last_check := last_check w', messages := messages w'\<rparr>"

lemma log_frame_refl [simp]: "log_frame w w"
  by (simp add: log_frame_def)

lemma log_frame_trans: "log_frame w w1 \<Longrightarrow> log_frame w1 w2 \<Longrightarrow> log_frame w w2"
  by (cases w; cases w1; cases w2) (simp add: log_frame_def)

lemma log_frame_fields:
  assumes "log_frame w w'"
  shows "klive w' = klive w" and "freelist w' = freelist w" and "skb_queue w' = skb_queue w" and "hold_queue w' = hold_queue w"
    and "sent w' = sent w" and "printed w' = printed w" and "audit_pid w' = audit_pid w" and "audit_failure w' = audit_failure w"
    and "kfail w' = kfail w" and "audit_default w' = audit_default w" and "audit_rate_limit w' = audit_rate_limit w"
    and "audit_backlog_limit w' = audit_backlog_limit w" and "audit_initialized w' = audit_initialized w"
    and "umem w' = umem w" and "utime w' = utime w" and "audit_enabled w' = audit_enabled w"
  using assms by (cases w; cases w'; simp add: log_frame_def)+

text \<open>The variables only the administrator sets, and what a larger state adds.\<close>

definition same_settings :: "'z aw \<Rightarrow> 'z aw \<Rightarrow> bool" where
  "same_settings w w' \<longleftrightarrow> audit_initialized w' = audit_initialized w \<and> audit_enabled w' = audit_enabled w \<and>
     audit_ever_enabled w' = audit_ever_enabled w \<and> audit_default w' = audit_default w \<and> audit_failure w' = audit_failure w \<and>
     audit_rate_limit w' = audit_rate_limit w \<and> audit_backlog_limit w' = audit_backlog_limit w \<and>
     audit_wait_master w' = audit_wait_master w \<and> audit_world.more w' = audit_world.more w"

lemma frame_settings: "log_frame w w' \<Longrightarrow> same_settings w w'"
  by (cases w; cases w') (simp add: log_frame_def same_settings_def)

definition no_panic :: "'z aw \<Rightarrow> bool" where
  "no_panic w \<longleftrightarrow> audit_failure w \<noteq> AUDIT_FAIL_PANIC"

lemma tick_frame: "tick w = (n, w') \<Longrightarrow> log_frame w w'"
  by (auto simp: tick_def log_frame_def)

lemma audit_log_lost_ok:
  assumes "no_panic w"
  shows "ok (audit_log_lost A w) (\<lambda>w'. log_frame w w' \<and> audit_lost w' = Suc (audit_lost w))"
  using assms by (auto simp: audit_log_lost_def audit_panic_def no_panic_def tick_def log_frame_def Let_def)

lemma audit_rate_check_frame: "audit_rate_check A w = (b, w') \<Longrightarrow> log_frame w w'"
  by (auto simp: audit_rate_check_def tick_def log_frame_def Let_def split: if_splits)

lemma audit_rate_check_off: "audit_rate_limit w = 0 \<Longrightarrow> audit_rate_check A w = (True, w)"
  by (simp add: audit_rate_check_def)

section \<open>Writing into a socket buffer\<close>

text \<open>
  A write appends its text or, when there is no memory, counts a loss and appends nothing;
  it never leaves the buffer.
\<close>

definition appended :: "byte list \<Rightarrow> skb \<Rightarrow> skb \<Rightarrow> bool" where
  "appended t s s' \<longleftrightarrow> sk_id s' = sk_id s \<and> sk_type s' = sk_type s \<and> sk_text s' = sk_text s @ t"

definition write_post :: "byte list \<Rightarrow> skb \<Rightarrow> 'z aw \<Rightarrow> skb \<times> 'z aw \<Rightarrow> bool" where
  "write_post t s w = (\<lambda>(s', w'). log_frame w w' \<and>
     (appended t s s' \<or> appended [] s s' \<and> audit_lost w < audit_lost w' \<and> (\<exists>n. kfail w n)))"

lemma skb_write_ok:
  assumes "length bs \<le> sk_room s" and "n \<le> length bs" and "take n bs = t"
  shows "ok (skb_write bs n s) (appended t s)"
  using assms by (simp add: skb_write_def appended_def)

lemma audit_expand_ok:
  assumes "no_panic w"
  shows "ok (audit_expand A extra s w) (\<lambda>(n, s', w'). log_frame w w' \<and> appended [] s s' \<and>
     (if n = 0 then s' = s \<and> (0 < extra \<longrightarrow> audit_lost w < audit_lost w' \<and> kfail w (knext w))
      else sk_room s' = n \<and> sk_room s + extra \<le> n \<and> audit_lost w' = audit_lost w))"
proof (cases "kfail w (knext w)")
  case True
  define w1 where "w1 = w\<lparr>knext := Suc (knext w)\<rparr>"
  have np: "no_panic w1" and f1: "log_frame w w1" using assms by (simp_all add: w1_def no_panic_def log_frame_def)
  show ?thesis using True audit_log_lost_ok [OF np, of A] log_frame_trans [OF f1]
    by (auto simp: audit_expand_def w1_def [symmetric] appended_def ok_bind Let_def elim!: ok_mono) (simp add: w1_def)
next
  case False
  then show ?thesis
    by (auto simp: audit_expand_def tick_def appended_def log_frame_def Let_def)
qed
lemma AUDIT_BUFSIZ_pos [simp]: "0 < AUDIT_BUFSIZ"
  by (simp add: AUDIT_BUFSIZ_def)

text \<open>The pattern of all writers: expand when needed, then write.\<close>

lemma expand_then_write:
  assumes "no_panic w" and "0 < extra"
    and "\<And>s' n. appended [] s s' \<Longrightarrow> sk_room s + extra \<le> n \<Longrightarrow> sk_room s' = n \<Longrightarrow> ok (f n s') (appended t s')"
  shows "ok (audit_expand A extra s w \<bind> (\<lambda>(avail, s, w).
      if avail = 0 then Some (s, w) else do { s \<leftarrow> f avail s; Some (s, w) })) (write_post t s w)"
proof -
  from audit_expand_ok [OF assms(1), of A extra s] obtain n s' w'
    where e: "audit_expand A extra s w = Some (n, s', w')" and f: "log_frame w w'" "appended [] s s'"
      and n: "if n = 0 then s' = s \<and> (0 < extra \<longrightarrow> audit_lost w < audit_lost w' \<and> kfail w (knext w))
        else sk_room s' = n \<and> sk_room s + extra \<le> n \<and> audit_lost w' = audit_lost w"
    by (auto elim!: okE)
  show ?thesis
  proof (cases "n = 0")
    case True
    then show ?thesis using e f n assms(2) by (auto simp: write_post_def)
  next
    case False
    then have "ok (f n s') (appended t s')" using n f by (intro assms(3)) auto
    then show ?thesis using e f False by (auto simp: write_post_def appended_def ok_bind elim!: ok_mono)
  qed
qed

lemma write_now:
  "ok m (appended t s) \<Longrightarrow> ok (m \<bind> (\<lambda>s. Some (s, w))) (write_post t s w)"
  by (auto simp: ok_bind write_post_def elim!: ok_mono)

lemma vformat_put_ok:
  assumes "length t < avail" and "avail \<le> sk_room s"
  shows "ok (vformat_put t avail s) (appended t s)"
proof (cases "t = []")
  case False
  then show ?thesis using assms
    by (simp add: vformat_put_def vsnprintf_def) (rule skb_write_ok, simp_all)
qed (simp add: vformat_put_def appended_def)

lemma vformat_fit_ok:
  assumes "no_panic w" and "avail \<le> sk_room s"
  shows "ok (vformat_fit A t avail s w) (write_post t s w)"
proof (cases "length t \<ge> avail")
  case True
  have "ok (vformat_put t n s') (appended t s')"
    if "sk_room s + max AUDIT_BUFSIZ (1 + length t - avail) \<le> n" "sk_room s' = n" for n s'
    using that assms(2) True by (intro vformat_put_ok) (auto simp: AUDIT_BUFSIZ_def max_def split: if_splits)
  then show ?thesis using True expand_then_write [OF assms(1), of "max AUDIT_BUFSIZ (1 + length t - avail)" s "vformat_put t" t A]
    by (simp add: vformat_fit_def AUDIT_BUFSIZ_def)
next
  case False
  then show ?thesis using assms(2) write_now [OF vformat_put_ok [of t avail s]] by (simp add: vformat_fit_def)
qed

lemma vformat_ok:
  assumes "no_panic w"
  shows "ok (audit_log_vformat A t s w) (write_post t s w)"
proof (cases "sk_room s = 0")
  case False
  then show ?thesis using vformat_fit_ok [OF assms] by (simp add: audit_log_vformat_def)
next
  case True
  from audit_expand_ok [OF assms, of A AUDIT_BUFSIZ s] obtain n s' w'
    where e: "audit_expand A AUDIT_BUFSIZ s w = Some (n, s', w')" and f: "log_frame w w'" "appended [] s s'"
      and n: "if n = 0 then s' = s \<and> audit_lost w < audit_lost w' \<and> kfail w (knext w)
        else sk_room s' = n \<and> audit_lost w' = audit_lost w"
    by (auto simp: AUDIT_BUFSIZ_def elim!: okE)
  show ?thesis
  proof (cases "n = 0")
    case True
    then show ?thesis using \<open>sk_room s = 0\<close> e f n by (auto simp: audit_log_vformat_def write_post_def)
  next
    case False
    have "no_panic w'" using assms f by (simp add: no_panic_def log_frame_fields)
    from vformat_fit_ok [OF this, of n s' A t] show ?thesis using \<open>sk_room s = 0\<close> e f n False
      by (auto simp: audit_log_vformat_def write_post_def appended_def log_frame_fields elim!: ok_mono
          intro: log_frame_trans)
  qed
qed

lemma length_hex_text [simp]: "length (hex_text bs) = 2 * length bs"
  by (induction bs) (simp_all add: hex_text_def hex_byte_pack_upper_def)

lemma n_hex_ok:
  assumes "no_panic w"
  shows "ok (n_hex A bs s w) (write_post (hex_text bs) s w)"
proof -
  have put: "ok (skb_write (hex_text bs @ [0]) (2 * length bs) s') (appended (hex_text bs) s')"
    if "2 * length bs < sk_room s'" for s'
    using that by (intro skb_write_ok) simp_all
  show ?thesis
  proof (cases "2 * length bs \<ge> sk_room s")
    case True
    define d where "d = 2 * length bs - sk_room s"
    have d: "d < AUDIT_BUFSIZ * (d div AUDIT_BUFSIZ + 1)"
      using dividend_less_div_times [of AUDIT_BUFSIZ d] by (simp add: AUDIT_BUFSIZ_def)
    show ?thesis using True put d
        expand_then_write [OF assms, of "AUDIT_BUFSIZ * (d div AUDIT_BUFSIZ + 1)" s
          "\<lambda>_. skb_write (hex_text bs @ [0]) (2 * length bs)" "hex_text bs" A]
      by (simp add: n_hex_def d_def [symmetric] Let_def) (simp add: d_def)
  next
    case False
    then show ?thesis using write_now [OF put, of s] by (simp add: n_hex_def Let_def)
  qed
qed

definition quoted :: "byte list \<Rightarrow> byte list" where
  "quoted bs = 34 # bs @ [34]"

lemma n_string_ok:
  assumes "no_panic w"
  shows "ok (n_string A bs s w) (write_post (quoted bs) s w)"
proof -
  have put: "ok (skb_write (34 # bs @ [34, 0]) (length bs + 2) s') (appended (quoted bs) s')"
    if "length bs + 3 \<le> sk_room s'" for s'
    using that by (intro skb_write_ok) (simp_all add: quoted_def)
  show ?thesis
  proof (cases "length bs + 3 > sk_room s")
    case True
    then show ?thesis using put
        expand_then_write [OF assms, of "length bs + 3" s "\<lambda>_. skb_write (34 # bs @ [34, 0]) (length bs + 2)" "quoted bs" A]
      by (simp add: n_string_def Let_def)
  next
    case False
    then show ?thesis using write_now [OF put, of s] by (simp add: n_string_def Let_def)
  qed
qed
section \<open>Strings nobody trusts\<close>

text \<open>How a reader of the log decodes the value of a field: up to the closing quote, else from hexadecimal.\<close>

definition unhex_digit :: "byte \<Rightarrow> nat option" where
  "unhex_digit b = (if 48 \<le> b \<and> b \<le> 57 then Some (unat b - 48) else if 65 \<le> b \<and> b \<le> 70 then Some (unat b - 55) else None)"

fun unhex :: "byte list \<Rightarrow> byte list option" where
  "unhex [] = Some []"
| "unhex [_] = None"
| "unhex (h # l # bs) =
     (case (unhex_digit h, unhex_digit l, unhex bs) of
        (Some x, Some y, Some r) \<Rightarrow> Some (of_nat (16 * x + y) # r)
      | _ \<Rightarrow> None)"

definition decode_value :: "byte list \<Rightarrow> byte list option" where
  "decode_value t =
     (case t of
        [] \<Rightarrow> None
      | c # cs \<Rightarrow> if c = 34 then (if length (dropWhile (\<lambda>b. b \<noteq> 34) cs) = 1 then Some (takeWhile (\<lambda>b. b \<noteq> 34) cs) else None)
          else unhex t)"

lemma decode_quoted:
  assumes "34 \<notin> set bs"
  shows "decode_value (quoted bs) = Some bs"
proof -
  have "takeWhile (\<lambda>b. b \<noteq> 34) (bs @ [34]) = bs" and "dropWhile (\<lambda>b. b \<noteq> 34) (bs @ [34]) = [34]"
    using assms by (auto simp: takeWhile_append dropWhile_append)
  then show ?thesis by (simp add: decode_value_def quoted_def)
qed

definition untrusted_text :: "byte list \<Rightarrow> byte list" where
  "untrusted_text bs = (if audit_string_contains_control bs then hex_text bs else quoted bs)"

lemma less_16_cases:
  assumes "(d :: nat) < 16" and "P 0" "P 1" "P 2" "P 3" "P 4" "P 5" "P 6" "P 7" "P 8" "P 9" "P 10" "P 11" "P 12" "P 13" "P 14" "P 15"
  shows "P d"
proof -
  have "d = 0 \<or> d = 1 \<or> d = 2 \<or> d = 3 \<or> d = 4 \<or> d = 5 \<or> d = 6 \<or> d = 7 \<or>
      d = 8 \<or> d = 9 \<or> d = 10 \<or> d = 11 \<or> d = 12 \<or> d = 13 \<or> d = 14 \<or> d = 15"
    using assms(1) by presburger
  with assms(2-) show ?thesis by blast
qed

lemma unhex_hexdigit: "d < 16 \<Longrightarrow> unhex_digit (hexdigit d) = Some d"
  by (erule less_16_cases) (simp_all add: unhex_digit_def hexdigit_def)

lemma hexdigit_plain: "d < 16 \<Longrightarrow> 0x21 \<le> hexdigit d \<and> hexdigit d \<le> 0x7e \<and> hexdigit d \<noteq> 34"
  by (erule less_16_cases) (simp_all add: hexdigit_def)

lemma unhex_hex_text: "unhex (hex_text bs) = Some bs"
proof (induction bs)
  case Nil
  then show ?case by (simp add: hex_text_def)
next
  case (Cons b bs)
  have "unat b div 16 < 16" using unat_u8_less [of b] by simp
  moreover have "(of_nat (16 * (unat b div 16) + unat b mod 16) :: byte) = b" by simp
  ultimately show ?case using Cons
    by (simp add: hex_text_def hex_byte_pack_upper_def unhex_hexdigit)
qed

lemma hex_text_plain: "x \<in> set (hex_text bs) \<Longrightarrow> 0x21 \<le> x \<and> x \<le> 0x7e \<and> x \<noteq> 34"
  using hexdigit_plain unat_u8_less
  by (fastforce simp: hex_text_def hex_byte_pack_upper_def less_mult_imp_div_less)

lemma decode_hex:
  assumes "bs \<noteq> []"
  shows "decode_value (hex_text bs) = Some bs"
proof -
  obtain c cs where c: "hex_text bs = c # cs" using assms by (cases bs) (auto simp: hex_text_def hex_byte_pack_upper_def)
  then have "c \<noteq> 34" using hex_text_plain [of c bs] by simp
  then show ?thesis using unhex_hex_text [of bs] by (simp add: decode_value_def c)
qed

lemma contains_control_quote: "\<not> audit_string_contains_control bs \<Longrightarrow> 34 \<notin> set bs"
  by (auto simp: audit_string_contains_control_def list_ex_iff)

lemma decode_untrusted: "decode_value (untrusted_text bs) = Some bs"
proof (cases "audit_string_contains_control bs")
  case True
  then have "bs \<noteq> []" by (auto simp: audit_string_contains_control_def)
  then show ?thesis using True decode_hex by (simp add: untrusted_text_def)
qed (simp add: untrusted_text_def decode_quoted contains_control_quote)

lemma untrusted_plain:
  "\<forall>x \<in> set (untrusted_text bs). 0x21 \<le> x \<and> x \<le> 0x7e"
proof (cases "audit_string_contains_control bs")
  case True
  then show ?thesis using hex_text_plain by (auto simp: untrusted_text_def)
next
  case False
  then have "b \<in> set bs \<Longrightarrow> 0x21 \<le> b \<and> b \<le> 0x7e" for b
    by (auto simp: audit_string_contains_control_def list_ex_iff not_less)
  then show ?thesis using False by (auto simp: untrusted_text_def quoted_def)
qed

lemma untrusted_ok:
  assumes "no_panic w" and "ab_skb ab = Some s"
  shows "ok (audit_log_n_untrustedstring A bs (Some ab) w) (\<lambda>(ab', w'). \<exists>s'. ab' = Some (ab\<lparr>ab_skb := Some s'\<rparr>) \<and>
     write_post (untrusted_text bs) s w (s', w'))"
  using n_hex_ok [OF assms(1), of A bs s] n_string_ok [OF assms(1), of A bs s] assms(2)
  by (auto simp: audit_log_n_untrustedstring_def audit_log_n_hex_def audit_log_n_string_def on_skb_def
      untrusted_text_def ok_bind elim!: ok_mono)

text \<open>
  C22: a string nobody trusts is written without leaving the buffer, as a value that a reader
  of the log decodes to exactly that string, whatever its bytes are; no byte of the value
  is a space or a control character, so it can neither end its field nor forge another one.
  Only when memory is short is it left out, and then a loss is counted.
\<close>

theorem audit_untrusted_roundtrip:
  assumes "no_panic w" and "ab_skb ab = Some s"
  shows "ok (audit_log_n_untrustedstring A bs (Some ab) w) (\<lambda>(ab', w'). \<exists>s' t. ab' = Some (ab\<lparr>ab_skb := Some s'\<rparr>) \<and>
     log_frame w w' \<and> sk_id s' = sk_id s \<and> sk_text s' = sk_text s @ t \<and>
     (decode_value t = Some bs \<and> (\<forall>x \<in> set t. 0x21 \<le> x \<and> x \<le> 0x7e) \<or>
      t = [] \<and> audit_lost w < audit_lost w' \<and> (\<exists>n. kfail w n)))"
proof (rule ok_mono [OF untrusted_ok [OF assms, of A bs]], clarify)
  fix w' s' assume "write_post (untrusted_text bs) s w (s', w')"
  then show "\<exists>s'' t. Some (ab\<lparr>ab_skb := Some s'\<rparr>) = Some (ab\<lparr>ab_skb := Some s''\<rparr>) \<and> log_frame w w' \<and> sk_id s'' = sk_id s \<and>
     sk_text s'' = sk_text s @ t \<and> (decode_value t = Some bs \<and> (\<forall>x \<in> set t. 0x21 \<le> x \<and> x \<le> 0x7e) \<or>
      t = [] \<and> audit_lost w < audit_lost w' \<and> (\<exists>n. kfail w n))"
    using decode_untrusted untrusted_plain
    by (intro exI [of _ s'] exI [of _ "drop (length (sk_text s)) (sk_text s')"]) (auto simp: write_post_def appended_def)
qed

section \<open>Ownership and the account of records\<close>

text \<open>
  The objects the log owns are the free buffers and the records in its two queues; \<open>B\<close> are
  everybody else's. Nothing is leaked or freed twice as long as these are all live objects.
\<close>

definition owned :: "'z aw \<Rightarrow> nat multiset" where
  "owned w = mset (freelist w) + mset (map sk_id (skb_queue w)) + mset (map sk_id (hold_queue w))"

definition pool_ok :: "audit_env \<Rightarrow> nat multiset \<Rightarrow> 'z aw \<Rightarrow> bool" where
  "pool_ok A B w \<longleftrightarrow> mset (klive w) = B + owned w \<and> length (freelist w) \<le> Suc (maxfree A) \<and> no_panic w"

text \<open>
  The records of which something is known: sent, printed, waiting for the daemon, or counted
  as lost. The mark of the end of an event carries no information and is not counted.
\<close>

definition real :: "skb \<Rightarrow> bool" where
  "real s \<longleftrightarrow> sk_type s \<noteq> AUDIT_EOE"

definition account :: "'z aw \<Rightarrow> nat" where
  "account w = length (filter real (sent w)) + length (printed w) + length (filter real (skb_queue w)) + audit_lost w"

definition worth :: "skb \<Rightarrow> nat" where
  "worth s = (if real s then 1 else 0)"

lemma owned_cong:
  "freelist w' = freelist w \<Longrightarrow> skb_queue w' = skb_queue w \<Longrightarrow> hold_queue w' = hold_queue w \<Longrightarrow> owned w' = owned w"
  by (simp add: owned_def)

lemma frame_pool:
  assumes "log_frame w w'"
  shows "pool_ok A B w' = pool_ok A B w" and "account w \<le> account w'" and "no_panic w' = no_panic w" and "owned w' = owned w"
proof -
  have "audit_lost w \<le> audit_lost w'" using assms by (simp add: log_frame_def)
  then show "account w \<le> account w'" by (simp add: account_def log_frame_fields [OF assms])
qed (simp_all add: pool_ok_def owned_def no_panic_def log_frame_fields [OF assms])

lemma lost_pool:
  assumes "no_panic w"
  shows "ok (audit_log_lost A w) (\<lambda>w'. log_frame w w' \<and> Suc (account w) \<le> account w')"
  by (rule ok_mono [OF audit_log_lost_ok [OF assms]]) (auto simp: account_def log_frame_fields)

lemma kfree_pool:
  assumes "pool_ok A (B + {#k#}) w"
  shows "ok (kfree k w) (\<lambda>w'. pool_ok A B w' \<and> w' = w\<lparr>klive := remove1 k (klive w)\<rparr>)"
proof -
  have m: "mset (klive w) = B + {#k#} + owned w" using assms by (simp add: pool_ok_def)
  then have "k \<in># mset (klive w)" by simp
  then have "k \<in> set (klive w)" by simp
  then show ?thesis using m assms by (simp add: ok_kfree pool_ok_def) (simp add: owned_def no_panic_def)
qed

text \<open>Giving back a buffer, with its record when it still has one.\<close>

definition buf_ids :: "abuf \<Rightarrow> nat multiset" where
  "buf_ids ab = {#ab_id ab#} + (case ab_skb ab of None \<Rightarrow> {#} | Some s \<Rightarrow> {#sk_id s#})"

lemma audit_buffer_free_ok:
  assumes "pool_ok A (B + buf_ids ab) w"
  shows "ok (audit_buffer_free A ab w) (\<lambda>w'. pool_ok A B w' \<and> account w' = account w \<and> audit_pid w' = audit_pid w)"
proof -
  define w1 where "w1 = (case ab_skb ab of None \<Rightarrow> w | Some s \<Rightarrow> w\<lparr>klive := remove1 (sk_id s) (klive w)\<rparr>)"
  have m: "mset (klive w) = B + buf_ids ab + owned w" using assms by (simp add: pool_ok_def)
  have s: "sk_id s \<in> set (klive w)" if "ab_skb ab = Some s" for s
  proof -
    have "sk_id s \<in># mset (klive w)" unfolding m by (simp add: buf_ids_def that)
    then show ?thesis by simp
  qed
  have 1: "(case ab_skb ab of None \<Rightarrow> Some w | Some s \<Rightarrow> kfree (sk_id s) w) = Some w1"
    using s by (auto simp: w1_def kfree_def split: option.splits)
  have m1: "mset (klive w1) = B + {#ab_id ab#} + owned w" and o1: "owned w1 = owned w" "freelist w1 = freelist w"
      "account w1 = account w" "audit_pid w1 = audit_pid w" "no_panic w1 = no_panic w"
    using m by (auto simp: w1_def buf_ids_def owned_def account_def no_panic_def split: option.splits)
  have "ab_id ab \<in># mset (klive w1)" unfolding m1 by simp
  then have live: "ab_id ab \<in> set (klive w1)" by simp
  show ?thesis
  proof (cases "length (freelist w) > maxfree A")
    case True
    then show ?thesis using live m1 o1 assms
      by (simp add: audit_buffer_free_def 1 ok_kfree pool_ok_def) (simp add: owned_def account_def no_panic_def)
  next
    case False
    then show ?thesis using m1 o1 assms
      by (simp add: audit_buffer_free_def 1 pool_ok_def) (simp add: owned_def account_def no_panic_def)
  qed
qed

lemma audit_hold_skb_ok:
  assumes "pool_ok A (B + {#sk_id s#}) w"
  shows "ok (audit_hold_skb s w) (\<lambda>w'. pool_ok A B w' \<and> account w' = account w \<and> audit_pid w' = audit_pid w \<and>
     skb_queue w' = skb_queue w)"
proof (cases "audit_default w \<and> (audit_backlog_limit w = 0 \<or> length (hold_queue w) < unat (audit_backlog_limit w))")
  case True
  then show ?thesis using assms
    by (simp add: audit_hold_skb_def pool_ok_def) (simp add: owned_def account_def no_panic_def)
next
  case False
  show ?thesis unfolding audit_hold_skb_def if_not_P [OF False]
    by (rule ok_mono [OF kfree_pool [OF assms]]) (auto simp: account_def)
qed
lemma pool_frame_add: "log_frame w w' \<Longrightarrow> pool_ok A B w \<Longrightarrow> pool_ok A B w'"
  by (simp add: frame_pool)

lemma no_panic_pool: "pool_ok A B w \<Longrightarrow> no_panic w"
  by (simp add: pool_ok_def)

text \<open>A record that is printed or sent keeps its worth in the account.\<close>

definition rid_of :: "audit_env \<Rightarrow> nat multiset \<Rightarrow> skb \<Rightarrow> 'z aw \<Rightarrow> 'z aw \<Rightarrow> bool" where
  "rid_of A B s w w' \<longleftrightarrow> pool_ok A B w' \<and> account w + worth s \<le> account w' \<and> skb_queue w' = skb_queue w"

lemma audit_printk_skb_ok:
  assumes "pool_ok A (B + {#sk_id s#}) w"
  shows "ok (audit_printk_skb A s w) (\<lambda>w'. rid_of A B s w w' \<and> audit_pid w' = audit_pid w)"
proof -
  have "ok (if sk_type s \<noteq> AUDIT_EOE then
       (let (n, w) = tick w in if printk_ok A n then Some (w\<lparr>printed := s # printed w\<rparr>) else audit_log_lost A w)
     else Some w) (\<lambda>w1. pool_ok A (B + {#sk_id s#}) w1 \<and> account w + worth s \<le> account w1 \<and> skb_queue w1 = skb_queue w \<and>
       audit_pid w1 = audit_pid w)"
  proof (cases "sk_type s \<noteq> AUDIT_EOE")
    case True
    obtain n w1 where t: "tick w = (n, w1)" by (metis prod.exhaust)
    note f = tick_frame [OF t]
    have p: "pool_ok A (B + {#sk_id s#}) w1" by (rule pool_frame_add [OF f assms])
    show ?thesis
    proof (cases "printk_ok A n")
      case pr: True
      have "pool_ok A (B + {#sk_id s#}) (w1\<lparr>printed := s # printed w1\<rparr>)"
        using p by (simp add: pool_ok_def) (simp add: owned_def no_panic_def)
      moreover have "account w + 1 \<le> account (w1\<lparr>printed := s # printed w1\<rparr>)"
        using frame_pool(2) [OF f] by (simp add: account_def)
      ultimately show ?thesis using True pr t by (simp add: worth_def real_def log_frame_fields [OF f])
    next
      case False
      have "ok (audit_log_lost A w1) (\<lambda>w'. pool_ok A (B + {#sk_id s#}) w' \<and> account w + worth s \<le> account w' \<and>
          skb_queue w' = skb_queue w \<and> audit_pid w' = audit_pid w)"
        using p f frame_pool(2) [OF f]
        by (intro ok_mono [OF lost_pool [OF no_panic_pool [OF p]]]) (auto simp: frame_pool(1) log_frame_fields worth_def)
      then show ?thesis using True False t by simp
    qed
  next
    case False
    then show ?thesis using assms by (simp add: worth_def real_def)
  qed
  then obtain w1 where 1: "(if sk_type s \<noteq> AUDIT_EOE then
       (let (n, w) = tick w in if printk_ok A n then Some (w\<lparr>printed := s # printed w\<rparr>) else audit_log_lost A w)
     else Some w) = Some w1" and p: "pool_ok A (B + {#sk_id s#}) w1" and a: "account w + worth s \<le> account w1"
      "skb_queue w1 = skb_queue w" "audit_pid w1 = audit_pid w"
    by (auto elim!: okE)
  show ?thesis unfolding audit_printk_skb_def 1
    using a by (auto simp: rid_of_def intro!: ok_mono [OF audit_hold_skb_ok [OF p]])
qed

lemma kauditd_send_ok:
  assumes "pool_ok A (B + {#sk_id s#}) w" and "audit_pid w \<noteq> 0"
  shows "ok (kauditd_send A n s w) (\<lambda>w'. rid_of A B s w w' \<and>
     (audit_pid w' = 0 \<or> audit_pid w' = audit_pid w \<and> hold_queue w' = hold_queue w))"
  using assms
proof (induction A n s w rule: kauditd_send.induct)
  case (1 A n s w)
  obtain k w1 where t: "tick w = (k, w1)" by (metis prod.exhaust)
  note f = tick_frame [OF t]
  have p: "pool_ok A (B + {#sk_id s#}) w1" by (rule pool_frame_add [OF f "1.prems"(1)])
  have step: "kauditd_send A n s w =
    (if unicast A k < 0 then
        (if audit_pid w1 \<noteq> 0 then
           (if unicast A k = - ECONNREFUSED \<or> unicast A k = - EPERM \<or> Suc n \<ge> AUDITD_RETRIES then do {
              w \<leftarrow> audit_log_lost A w1;
              audit_hold_skb s (w\<lparr>audit_pid := 0\<rparr>)
            } else kauditd_send A (Suc n) s w1)
         else audit_hold_skb s w1)
      else do { w \<leftarrow> kfree (sk_id s) w1; Some (w\<lparr>sent := s # sent w\<rparr>) })"
    by (subst kauditd_send.simps) (simp add: t)
  have pid: "audit_pid w1 \<noteq> 0" using "1.prems"(2) by (simp add: log_frame_fields [OF f])
  consider (sent) "unicast A k \<ge> 0"
    | (lost) "unicast A k < 0" "unicast A k = - ECONNREFUSED \<or> unicast A k = - EPERM \<or> Suc n \<ge> AUDITD_RETRIES"
    | (again) "unicast A k < 0" "\<not> (unicast A k = - ECONNREFUSED \<or> unicast A k = - EPERM \<or> Suc n \<ge> AUDITD_RETRIES)"
    by linarith
  then show ?case
  proof cases
    case sent
    then have "kauditd_send A n s w = do { w \<leftarrow> kfree (sk_id s) w1; Some (w\<lparr>sent := s # sent w\<rparr>) }" by (simp add: step)
    then show ?thesis using frame_pool(2) [OF f]
      by (simp add: ok_bind)
        (rule ok_mono [OF kfree_pool [OF p]], auto simp: rid_of_def worth_def account_def pool_ok_def owned_def no_panic_def log_frame_fields [OF f])
  next
    case lost
    from lost_pool [OF no_panic_pool [OF p], of A] obtain w2
      where 2: "audit_log_lost A w1 = Some w2" and f2: "log_frame w1 w2" and a2: "Suc (account w1) \<le> account w2"
      by (auto elim!: okE)
    have "pool_ok A (B + {#sk_id s#}) (w2\<lparr>audit_pid := 0\<rparr>)"
      using pool_frame_add [OF f2 p] by (simp add: pool_ok_def) (simp add: owned_def no_panic_def)
    from audit_hold_skb_ok [OF this] show ?thesis using lost pid 2 a2 frame_pool(2) [OF f]
      by (auto simp: step rid_of_def worth_def log_frame_fields [OF f] log_frame_fields [OF f2] account_def elim!: ok_mono)
  next
    case again
    then have e: "kauditd_send A n s w = kauditd_send A (Suc n) s w1" using pid by (simp add: step)
    have "ok (kauditd_send A (Suc n) s w1) (\<lambda>w'. rid_of A B s w1 w' \<and>
        (audit_pid w' = 0 \<or> audit_pid w' = audit_pid w1 \<and> hold_queue w' = hold_queue w1))"
      using again pid p t by (intro "1.IH" [of "(k, w1)" k w1 "unicast A k"]) (auto simp: prod_eq_iff)
    then show ?thesis unfolding e using frame_pool(2) [OF f]
      by (auto simp: rid_of_def log_frame_fields [OF f] elim!: ok_mono)
  qed
qed
lemma kauditd_send_skb_ok:
  assumes "pool_ok A (B + {#sk_id s#}) w" and "audit_pid w \<noteq> 0"
  shows "ok (kauditd_send_skb A s w) (\<lambda>w'. rid_of A B s w w' \<and>
     (audit_pid w' = 0 \<or> audit_pid w' = audit_pid w \<and> hold_queue w' = hold_queue w))"
  unfolding kauditd_send_skb_def by (rule kauditd_send_ok [OF assms])

text \<open>
  Emptying the queue of held records ends: a turn of the loop either takes one record from
  the queue for good or finds the daemon gone.
\<close>

definition held_or_none :: "nat multiset \<Rightarrow> skb option \<Rightarrow> nat multiset" where
  "held_or_none B s = (case s of None \<Rightarrow> B | Some x \<Rightarrow> B + {#sk_id x#})"

definition flushed :: "audit_env \<Rightarrow> nat multiset \<Rightarrow> 'z aw \<Rightarrow> 'z aw \<Rightarrow> bool" where
  "flushed A B w w' \<longleftrightarrow> pool_ok A B w' \<and> account w \<le> account w' \<and> skb_queue w' = skb_queue w"

lemma consume_skb_ok:
  assumes "pool_ok A (held_or_none B s) w"
  shows "ok (consume_skb s w) (flushed A B w)"
proof (cases s)
  case None
  then show ?thesis using assms by (simp add: consume_skb_def held_or_none_def flushed_def)
next
  case (Some x)
  then have "pool_ok A (B + {#sk_id x#}) w" using assms by (simp add: held_or_none_def)
  from kfree_pool [OF this] show ?thesis using Some
    by (auto simp: consume_skb_def flushed_def account_def elim!: ok_mono)
qed

lemma dequeue_held_ok:
  assumes "pool_ok A B w" and "dequeue_held w = (s, w')"
  shows "pool_ok A (held_or_none B s) w'" and "account w' = account w" and "skb_queue w' = skb_queue w"
    and "audit_pid w' = audit_pid w" and "s \<noteq> None \<Longrightarrow> length (hold_queue w) = Suc (length (hold_queue w'))"
  using assms by (auto simp: dequeue_held_def held_or_none_def pool_ok_def owned_def no_panic_def account_def split: list.splits)

lemma flush_loop_ok:
  assumes "pool_ok A (held_or_none B s) w"
  shows "ok (flush_loop A s w) (flushed A B w)"
  using assms
proof (induction "length (hold_queue w)" arbitrary: s w rule: less_induct)
  case less
  show ?case
  proof (cases "\<exists>x. s = Some x \<and> audit_pid w \<noteq> 0")
    case False
    then have "flush_loop A s w = consume_skb s w"
      by (subst flush_loop.simps) (auto split: option.splits)
    then show ?thesis using consume_skb_ok [OF less.prems] by simp
  next
    case True
    then obtain x where x: "s = Some x" and pid: "audit_pid w \<noteq> 0" by blast
    have "pool_ok A (B + {#sk_id x#}) w" using less.prems x by (simp add: held_or_none_def)
    from kauditd_send_skb_ok [OF this pid] obtain w1 where 1: "kauditd_send_skb A x w = Some w1"
      and r: "rid_of A B x w w1" and h: "audit_pid w1 = 0 \<or> hold_queue w1 = hold_queue w"
      by (auto elim!: okE)
    obtain s2 w2 where 2: "dequeue_held w1 = (s2, w2)" by (metis prod.exhaust)
    have p1: "pool_ok A B w1" using r by (simp add: rid_of_def)
    note d = dequeue_held_ok [OF p1 2]
    have e: "flush_loop A s w = flush_loop A s2 w2"
      using x pid by (subst flush_loop.simps) (simp add: 1 2)
    have "ok (flush_loop A s2 w2) (flushed A B w2)"
    proof (cases "s2 \<noteq> None \<and> audit_pid w2 \<noteq> 0")
      case True
      then have "length (hold_queue w2) < length (hold_queue w)" using h d(4,5) by auto
      then show ?thesis by (rule less.hyps) (rule d(1))
    next
      case False
      then have "flush_loop A s2 w2 = consume_skb s2 w2"
        by (subst flush_loop.simps) (auto split: option.splits)
      then show ?thesis using consume_skb_ok [OF d(1)] by simp
    qed
    then show ?thesis unfolding e using r d(2,3)
      by (auto simp: flushed_def rid_of_def elim!: ok_mono)
  qed
qed

definition progress :: "audit_env \<Rightarrow> nat multiset \<Rightarrow> nat \<Rightarrow> 'z aw \<Rightarrow> 'z aw \<Rightarrow> bool" where
  "progress A B n w w' \<longleftrightarrow> pool_ok A B w' \<and> account w + n \<le> account w'"

lemma progress_trans: "progress A B n w w1 \<Longrightarrow> progress A B k w1 w2 \<Longrightarrow> progress A B (n + k) w w2"
  by (simp add: progress_def)

lemma flush_hold_queue_ok:
  assumes "pool_ok A B w"
  shows "ok (flush_hold_queue A w) (flushed A B w)"
proof (cases "\<not> audit_default w \<or> audit_pid w = 0")
  case True
  then show ?thesis using assms by (simp add: flush_hold_queue_def flushed_def)
next
  case False
  obtain s w1 where d: "dequeue_held w = (s, w1)" by (metis prod.exhaust)
  note q = dequeue_held_ok [OF assms d]
  show ?thesis
  proof (cases s)
    case None
    then show ?thesis using False d q by (simp add: flush_hold_queue_def flushed_def held_or_none_def)
  next
    case (Some x)
    then show ?thesis using False d flush_loop_ok [OF q(1)] q(2,3)
      by (auto simp: flush_hold_queue_def flushed_def elim!: ok_mono)
  qed
qed

lemma kauditd_turn_ok:
  assumes "pool_ok A B w"
  shows "ok (kauditd_turn A w) (progress A B 0 w)"
proof -
  from flush_hold_queue_ok [OF assms] obtain w1 where 1: "flush_hold_queue A w = Some w1"
    and f: "pool_ok A B w1" "account w \<le> account w1"
    by (auto simp: flushed_def elim!: okE)
  show ?thesis
  proof (cases "skb_queue w1")
    case Nil
    then show ?thesis using 1 f by (simp add: kauditd_turn_def progress_def)
  next
    case (Cons s ss)
    define w2 where "w2 = w1\<lparr>skb_queue := ss\<rparr>"
    have p: "pool_ok A (B + {#sk_id s#}) w2" and a: "account w1 = account w2 + worth s"
      using f(1) Cons by (simp_all add: w2_def pool_ok_def owned_def no_panic_def account_def worth_def)
    have "ok (if audit_pid w2 \<noteq> 0 then kauditd_send_skb A s w2 else audit_printk_skb A s w2) (rid_of A B s w2)"
      using kauditd_send_skb_ok [OF p] audit_printk_skb_ok [OF p] by (auto elim!: ok_mono)
    moreover have "kauditd_turn A w = (if audit_pid w2 \<noteq> 0 then kauditd_send_skb A s w2 else audit_printk_skb A s w2)"
      using 1 Cons by (simp add: kauditd_turn_def w2_def)
    ultimately show ?thesis using f(2) a by (auto simp: rid_of_def progress_def elim!: ok_mono)
  qed
qed

lemma kauditd_turns_ok: "pool_ok A B w \<Longrightarrow> ok (kauditd_turns A n w) (progress A B 0 w)"
proof (induction n arbitrary: w)
  case 0
  then show ?case by (simp add: progress_def)
next
  case (Suc n)
  from kauditd_turn_ok [OF Suc.prems] obtain w1 where 1: "kauditd_turn A w = Some w1" and p: "progress A B 0 w w1"
    by (auto elim!: okE)
  then have "pool_ok A B w1" by (simp add: progress_def)
  from Suc.IH [OF this] show ?case using 1 progress_trans [OF p] by (auto elim!: ok_mono)
qed

lemma backlog_lost_ok:
  assumes "pool_ok A B w"
  shows "ok (backlog_lost A w) (\<lambda>(go, w'). \<not> go \<and> progress A B 1 w w')"
proof -
  obtain b w1 where r: "audit_rate_check A w = (b, w1)" by (metis prod.exhaust)
  note f = audit_rate_check_frame [OF r]
  have p: "pool_ok A B w1" and a: "account w \<le> account w1"
    using pool_frame_add [OF f assms] frame_pool(2) [OF f] by auto
  show ?thesis using lost_pool [OF no_panic_pool [OF p], of A] p a
    by (auto simp: backlog_lost_def r ok_bind progress_def elim!: ok_mono)
      (auto simp: pool_ok_def owned_def no_panic_def account_def log_frame_fields)
qed

lemma backlog_wait_ok:
  assumes "pool_ok A B w"
  shows "ok (backlog_wait A reclaim reserve ws w) (\<lambda>(go, w'). progress A B (if go then 0 else 1) w w')"
  using assms
proof (induction ws arbitrary: w)
  case Nil
  then show ?case using backlog_lost_ok [OF Nil.prems]
    by (auto simp: progress_def elim!: ok_mono)
next
  case (Cons e ws)
  obtain left n where e: "e = (left, n)" by (metis prod.exhaust)
  note lost = backlog_lost_ok
  show ?case
  proof (cases "backlog_full reserve w \<and> reclaim \<and> audit_wait w \<noteq> 0")
    case False
    then show ?thesis using backlog_lost_ok [OF Cons.prems] Cons.prems
      by (auto simp: e progress_def elim!: ok_mono)
  next
    case True
    from kauditd_turns_ok [OF Cons.prems] obtain w1 where 1: "kauditd_turns A n w = Some w1" and p: "progress A B 0 w w1"
      by (auto elim!: okE)
    then have p1: "pool_ok A B w1" by (simp add: progress_def)
    show ?thesis using True 1 p Cons.IH [OF p1] backlog_lost_ok [OF p1]
      by (cases "left > 0") (auto simp: e progress_def elim!: ok_mono)
  qed
qed

lemma take_buffer_ok:
  assumes "pool_ok A B w" and "take_buffer w = (k, w')"
  shows "account w' = account w" and "skb_queue w' = skb_queue w"
    and "pool_ok A (case k of None \<Rightarrow> B | Some i \<Rightarrow> B + {#i#}) w'"
  using assms
  by (auto simp: take_buffer_def pool_ok_def owned_def account_def no_panic_def kmalloc_def Let_def split: list.splits option.splits if_splits)

lemma audit_buffer_alloc_ok:
  assumes "pool_ok A B w"
  shows "ok (audit_buffer_alloc A reclaim type w) (\<lambda>(ab, w'). account w' = account w \<and>
    (case ab of None \<Rightarrow> pool_ok A B w'
     | Some a \<Rightarrow> pool_ok A (B + buf_ids a) w' \<and> (\<exists>s. ab_skb a = Some s \<and> sk_type s = type \<and> sk_text s = [])))"
proof -
  obtain k w1 where t: "take_buffer w = (k, w1)" by (metis prod.exhaust)
  note b = take_buffer_ok [OF assms t]
  show ?thesis
  proof (cases k)
    case None
    then show ?thesis using b t by (simp add: audit_buffer_alloc_def)
  next
    case (Some i)
    obtain r w2 where m: "kmalloc 0 w1 = (r, w2)" by (metis prod.exhaust)
    show ?thesis
    proof (cases r)
      case None
      then have p2: "pool_ok A (B + buf_ids \<lparr>ab_id = i, ab_reclaim = reclaim, ab_skb = None\<rparr>) w2" and a: "account w2 = account w1"
        using m b(3) Some by (auto simp: kmalloc_def pool_ok_def owned_def no_panic_def account_def buf_ids_def Let_def split: if_splits)
      from audit_buffer_free_ok [OF p2] show ?thesis using t Some m None a b(1)
        by (auto simp: audit_buffer_alloc_def ok_bind elim!: ok_mono)
    next
      case new: (Some p)
      then have p2: "pool_ok A (B + {#i#} + {#fst p#}) w2" and a: "account w2 = account w1"
        using m b(3) Some by (auto simp: kmalloc_def pool_ok_def owned_def no_panic_def account_def Let_def split: if_splits)
      obtain n w3 where t3: "tick w2 = (n, w3)" by (metis prod.exhaust)
      have w3: "pool_ok A (B + {#i#} + {#fst p#}) w3" "account w3 = account w2"
        using p2 t3 by (auto simp: tick_def pool_ok_def owned_def no_panic_def account_def)
      then show ?thesis using t Some m new t3 a b(1)
        by (auto simp: audit_buffer_alloc_def buf_ids_def add.assoc split: prod.splits)
    qed
  qed
qed

text \<open>A stamp may count events, but leaves the log and the settings alone.\<close>

definition quiet_stamp :: "'z stamp \<Rightarrow> bool" where
  "quiet_stamp st \<longleftrightarrow> (\<forall>w. let w' = snd (st w) in
     klive w' = klive w \<and> freelist w' = freelist w \<and> skb_queue w' = skb_queue w \<and> hold_queue w' = hold_queue w \<and>
     sent w' = sent w \<and> printed w' = printed w \<and> audit_lost w' = audit_lost w \<and> audit_failure w' = audit_failure w \<and>
     kfail w' = kfail w \<and> audit_pid w' = audit_pid w \<and> audit_initialized w' = audit_initialized w \<and>
     audit_rate_limit w' = audit_rate_limit w \<and> audit_backlog_limit w' = audit_backlog_limit w \<and> umem w' = umem w \<and> utime w' = utime w \<and>
     same_settings w w')"

lemma quiet_fresh_stamp: "quiet_stamp (fresh_stamp A)"
  by (simp add: quiet_stamp_def fresh_stamp_def tick_def audit_serial_def same_settings_def split: prod.splits)

lemma quiet_stamp_pool:
  assumes "quiet_stamp st" and "st w = (t, w')"
  shows "pool_ok A B w' = pool_ok A B w" and "account w' = account w" and "no_panic w' = no_panic w"
proof -
  have "snd (st w) = w'" using assms(2) by simp
  moreover note assms(1) [unfolded quiet_stamp_def Let_def, rule_format, of w]
  ultimately show "pool_ok A B w' = pool_ok A B w" and "account w' = account w" and "no_panic w' = no_panic w"
    by (simp_all add: pool_ok_def owned_def no_panic_def account_def)
qed

definition started :: "audit_env \<Rightarrow> nat multiset \<Rightarrow> nat \<Rightarrow> bool \<Rightarrow> 'z aw \<Rightarrow> abuf option \<times> 'z aw \<Rightarrow> bool" where
  "started A B type asked w = (\<lambda>(ab, w'). account w \<le> account w' \<and>
    (case ab of None \<Rightarrow> progress A B (if asked then 1 else 0) w w'
     | Some a \<Rightarrow> pool_ok A (B + buf_ids a) w' \<and> (\<exists>s. ab_skb a = Some s \<and> sk_type s = type)))"

lemma audit_log_start_ok:
  assumes "pool_ok A B w" and "quiet_stamp stamp"
  shows "ok (audit_log_start A stamp reclaim type w) (started A B type (audit_initialized w \<and> \<not> filter_type A type) w)"
proof (cases "audit_initialized w \<and> \<not> filter_type A type")
  case False
  then show ?thesis using assms(1) by (auto simp: audit_log_start_def started_def progress_def)
next
  case True
  define daemon where "daemon = (audit_pid w \<noteq> 0 \<and> audit_pid w = cur_tgid A)"
  define reserve :: nat where "reserve = (if reclaim \<and> \<not> daemon then 0 else 5)"
  obtain n w1 where t1: "tick w = (n, w1)" by (metis prod.exhaust)
  note f1 = tick_frame [OF t1]
  have p1: "pool_ok A B w1" and a1: "account w \<le> account w1"
    using pool_frame_add [OF f1 assms(1)] frame_pool(2) [OF f1] by auto
  from backlog_wait_ok [OF p1, of "reclaim \<and> \<not> daemon" reserve "wakeups A n"] obtain go w2
    where b: "backlog_wait A (reclaim \<and> \<not> daemon) reserve (wakeups A n) w1 = Some (go, w2)"
      and p2: "progress A B (if go then 0 else 1) w1 w2"
    by (auto elim!: okE)
  define w3 where "w3 = (if reserve = 0 \<and> audit_wait w2 = 0 then w2\<lparr>audit_wait := audit_wait_master w2\<rparr> else w2)"
  have step: "audit_log_start A stamp reclaim type w = (if \<not> go then Some (None, w2) else do {
       (ab, w) \<leftarrow> audit_buffer_alloc A (reclaim \<and> \<not> daemon) type w3;
       (case ab of
          None \<Rightarrow> do { w \<leftarrow> audit_log_lost A w; Some (None, w) }
        | Some _ \<Rightarrow> (let (t, w) = stamp w in audit_log_format A (stamp_text t) ab w)) })"
    using True t1 b by (simp add: audit_log_start_def daemon_def [symmetric] reserve_def [symmetric] w3_def Let_def)
  show ?thesis
  proof (cases go)
    case False
    then show ?thesis using p2 a1 True by (simp add: step started_def progress_def)
  next
    case go: True
    have p3: "pool_ok A B w3" "account w3 = account w2"
      using p2 by (auto simp: w3_def progress_def pool_ok_def owned_def no_panic_def account_def)
    from audit_buffer_alloc_ok [OF p3(1), of "reclaim \<and> \<not> daemon" type] obtain ab w4
      where al: "audit_buffer_alloc A (reclaim \<and> \<not> daemon) type w3 = Some (ab, w4)" and a4: "account w4 = account w3"
        and c4: "case ab of None \<Rightarrow> pool_ok A B w4
          | Some a \<Rightarrow> pool_ok A (B + buf_ids a) w4 \<and> (\<exists>s. ab_skb a = Some s \<and> sk_type s = type \<and> sk_text s = [])"
      by (auto elim!: okE)
    have acc: "account w \<le> account w4" using a1 p2 p3(2) a4 go by (simp add: progress_def)
    show ?thesis
    proof (cases ab)
      case None
      then have p4: "pool_ok A B w4" using c4 by simp
      from lost_pool [OF no_panic_pool [OF p4], of A] show ?thesis using True go None al acc p4
        by (auto simp: step started_def progress_def ok_bind frame_pool(1) elim!: ok_mono)
    next
      case (Some a)
      then obtain s where s: "ab_skb a = Some s" "sk_type s = type" and p4: "pool_ok A (B + buf_ids a) w4" using c4 by auto
      obtain st w5 where t5: "stamp w4 = (st, w5)" by (metis prod.exhaust)
      note q = quiet_stamp_pool [OF assms(2) t5]
      have "no_panic w5" using q(3) no_panic_pool [OF p4] by simp
      from vformat_ok [OF this, of A "stamp_text st" s] obtain s' w6
        where v: "audit_log_vformat A (stamp_text st) s w5 = Some (s', w6)" and f6: "log_frame w5 w6"
          and s': "sk_id s' = sk_id s" "sk_type s' = sk_type s"
        by (auto simp: write_post_def appended_def elim!: okE)
      have "audit_log_start A stamp reclaim type w = Some (Some (a\<lparr>ab_skb := Some s'\<rparr>), w6)"
        using go al Some t5 s v by (simp add: step audit_log_format_def on_skb_def)
      moreover have "pool_ok A (B + buf_ids (a\<lparr>ab_skb := Some s'\<rparr>)) w6"
        using pool_frame_add [OF f6] p4 q(1) s s' by (simp add: buf_ids_def)
      moreover have "account w \<le> account w6" using acc q(2) frame_pool(2) [OF f6] by simp
      ultimately show ?thesis using s s' by (simp add: started_def)
    qed
  qed
qed
primrec piece_text :: "piece \<Rightarrow> byte list" where
  "piece_text (Text t) = t"
| "piece_text (Untrusted bs) = untrusted_text bs"

lemma audit_put_ok:
  assumes "no_panic w" and "ab_skb ab = Some s"
  shows "ok (audit_put A p (Some ab) w) (\<lambda>(ab', w'). \<exists>s'. ab' = Some (ab\<lparr>ab_skb := Some s'\<rparr>) \<and> write_post (piece_text p) s w (s', w'))"
proof (cases p)
  case (Text t)
  then show ?thesis using vformat_ok [OF assms(1), of A t s] assms(2)
    by (auto simp: audit_log_format_def on_skb_def ok_bind elim!: ok_mono)
next
  case (Untrusted bs)
  then show ?thesis using untrusted_ok [OF assms] by simp
qed

text \<open>A whole record: every piece is there when memory suffices.\<close>

definition pieces_text :: "piece list \<Rightarrow> byte list" where
  "pieces_text ps = concat (map piece_text ps)"

lemma audit_puts_ok:
  assumes "no_panic w" and "ab_skb ab = Some s"
  shows "ok (audit_puts A ps (Some ab) w) (\<lambda>(ab', w'). \<exists>s'. ab' = Some (ab\<lparr>ab_skb := Some s'\<rparr>) \<and> log_frame w w' \<and>
    sk_id s' = sk_id s \<and> sk_type s' = sk_type s \<and> ((\<forall>n. \<not> kfail w n) \<longrightarrow> sk_text s' = sk_text s @ pieces_text ps))"
  using assms
proof (induction ps arbitrary: ab s w)
  case Nil
  then show ?case by (auto simp: pieces_text_def intro!: exI [of _ s])
next
  case (Cons p ps)
  from audit_put_ok [OF Cons.prems, of A p] obtain s1 w1
    where 1: "audit_put A p (Some ab) w = Some (Some (ab\<lparr>ab_skb := Some s1\<rparr>), w1)"
      and p: "write_post (piece_text p) s w (s1, w1)"
    by (auto elim!: okE)
  then have f: "log_frame w w1" by (simp add: write_post_def)
  have "no_panic w1" using Cons.prems(1) frame_pool(3) [OF f] by simp
  from Cons.IH [OF this, of "ab\<lparr>ab_skb := Some s1\<rparr>" s1] show ?case using 1 p
    by (auto simp: write_post_def appended_def pieces_text_def log_frame_fields [OF f] elim!: ok_mono
        intro: log_frame_trans [OF f])
qed

lemma audit_puts_none: "audit_puts A ps None w = Some (None, w)"
proof (induction ps)
  case (Cons p ps)
  then show ?case
    by (cases p) (auto simp: audit_log_format_def audit_log_n_untrustedstring_def audit_log_n_hex_def audit_log_n_string_def on_skb_def)
qed simp

lemma audit_log_end_ok:
  assumes "pool_ok A (B + buf_ids ab) w" and "ab_skb ab = Some s"
  shows "ok (audit_log_end A (Some ab) w) (progress A B (worth s) w)"
proof -
  obtain go w1 where r: "audit_rate_check A w = (go, w1)" by (metis prod.exhaust)
  note f = audit_rate_check_frame [OF r]
  have p1: "pool_ok A (B + buf_ids ab) w1" and a1: "account w \<le> account w1"
    using pool_frame_add [OF f assms(1)] frame_pool(2) [OF f] by auto
  show ?thesis
  proof (cases go)
    case False
    from lost_pool [OF no_panic_pool [OF p1], of A] obtain w2
      where l: "audit_log_lost A w1 = Some w2" and f2: "log_frame w1 w2" and a2: "Suc (account w1) \<le> account w2"
      by (auto elim!: okE)
    from audit_buffer_free_ok [OF pool_frame_add [OF f2 p1]] show ?thesis using False r l a1 a2
      by (auto simp: audit_log_end_def progress_def worth_def elim!: ok_mono)
  next
    case go: True
    define C where "C = B + {#ab_id ab#}"
    have pC: "pool_ok A (C + {#sk_id s#}) w1" using p1 assms(2) by (simp add: C_def buf_ids_def)
    have bi: "B + buf_ids (ab\<lparr>ab_skb := None\<rparr>) = C" by (simp add: C_def buf_ids_def)
    have "ok (if audit_pid w1 \<noteq> 0 then Some (w1\<lparr>skb_queue := skb_queue w1 @ [s]\<rparr>) else audit_printk_skb A s w1)
      (progress A C (worth s) w1)"
    proof (cases "audit_pid w1 \<noteq> 0")
      case True
      then show ?thesis using pC
        by (simp add: progress_def pool_ok_def account_def worth_def) (simp add: owned_def no_panic_def)
    next
      case False
      then show ?thesis using audit_printk_skb_ok [OF pC] by (auto simp: progress_def rid_of_def elim!: ok_mono)
    qed
    then obtain w2 where 2: "(if audit_pid w1 \<noteq> 0 then Some (w1\<lparr>skb_queue := skb_queue w1 @ [s]\<rparr>) else audit_printk_skb A s w1) = Some w2"
      and p2: "progress A C (worth s) w1 w2"
      by (auto elim!: okE)
    then have "pool_ok A (B + buf_ids (ab\<lparr>ab_skb := None\<rparr>)) w2" unfolding bi by (simp add: progress_def)
    from audit_buffer_free_ok [OF this] have "ok (audit_buffer_free A (ab\<lparr>ab_skb := None\<rparr>) w2) (progress A B (worth s) w)"
      using p2 a1 by (auto simp: progress_def elim!: ok_mono)
    moreover have "audit_log_end A (Some ab) w = audit_buffer_free A (ab\<lparr>ab_skb := None\<rparr>) w2"
      using go r assms(2) 2 by (simp add: audit_log_end_def)
    ultimately show ?thesis by simp
  qed
qed

section \<open>No silent loss\<close>

text \<open>
  A record from start to end, as every caller makes it, and the reachable states: records,
  turns of the daemon's thread, the daemon coming and going, changed limits. The number
  counts the records that were asked for.
\<close>

definition audit_record :: "audit_env \<Rightarrow> 'z stamp \<Rightarrow> bool \<Rightarrow> nat \<Rightarrow> piece list \<Rightarrow> 'z aw \<Rightarrow> 'z aw option" where
  "audit_record A stamp reclaim type ps w = do {
     (ab, w) \<leftarrow> audit_log_start A stamp reclaim type w;
     (ab, w) \<leftarrow> audit_puts A ps ab w;
     audit_log_end A ab w
   }"

definition asked :: "audit_env \<Rightarrow> nat \<Rightarrow> 'z aw \<Rightarrow> nat" where
  "asked A type w = (if audit_initialized w \<and> \<not> filter_type A type \<and> type \<noteq> AUDIT_EOE then 1 else 0)"

inductive audit_reach :: "audit_env \<Rightarrow> 'z stamp \<Rightarrow> 'z aw \<Rightarrow> nat \<Rightarrow> 'z aw \<Rightarrow> bool" for A st w0 where
  reach_start: "audit_reach A st w0 0 w0"
| reach_record: "audit_reach A st w0 n w \<Longrightarrow> audit_record A st reclaim type ps w = Some w' \<Longrightarrow>
    audit_reach A st w0 (n + asked A type w) w'"
| reach_daemon: "audit_reach A st w0 n w \<Longrightarrow> kauditd_turn A w = Some w' \<Longrightarrow> audit_reach A st w0 n w'"
| reach_connect: "audit_reach A st w0 n w \<Longrightarrow> audit_reach A st w0 n (w\<lparr>audit_pid := pid\<rparr>)"
| reach_limits: "audit_reach A st w0 n w \<Longrightarrow> audit_reach A st w0 n (w\<lparr>audit_rate_limit := r, audit_backlog_limit := b\<rparr>)"

lemma audit_record_ok:
  assumes "pool_ok A B w" and "quiet_stamp stamp"
  shows "ok (audit_record A stamp reclaim type ps w) (progress A B (asked A type w) w)"
proof -
  from audit_log_start_ok [OF assms, of reclaim type] obtain ab w1
    where 1: "audit_log_start A stamp reclaim type w = Some (ab, w1)"
      and s: "started A B type (audit_initialized w \<and> \<not> filter_type A type) w (ab, w1)"
    by (auto elim!: okE)
  show ?thesis
  proof (cases ab)
    case None
    then show ?thesis using 1 s
      by (auto simp: audit_record_def audit_puts_none audit_log_end_def started_def progress_def asked_def split: if_splits)
  next
    case (Some a)
    then obtain s where s: "ab_skb a = Some s" "sk_type s = type" and p: "pool_ok A (B + buf_ids a) w1" "account w \<le> account w1"
      using s by (auto simp: started_def)
    from audit_puts_ok [OF no_panic_pool [OF p(1)] s(1), of A ps] obtain s' w2
      where 2: "audit_puts A ps (Some a) w1 = Some (Some (a\<lparr>ab_skb := Some s'\<rparr>), w2)" and f: "log_frame w1 w2"
        and s': "sk_id s' = sk_id s" "sk_type s' = sk_type s"
      by (auto elim!: okE)
    have "pool_ok A (B + buf_ids (a\<lparr>ab_skb := Some s'\<rparr>)) w2"
      using pool_frame_add [OF f p(1)] s s' by (simp add: buf_ids_def)
    from audit_log_end_ok [OF this] have "ok (audit_log_end A (Some (a\<lparr>ab_skb := Some s'\<rparr>)) w2) (progress A B (worth s') w2)"
      by simp
    moreover have "asked A type w \<le> worth s'" using s(2) s'(2) by (simp add: asked_def worth_def real_def)
    ultimately show ?thesis using 1 Some 2 p(2) frame_pool(2) [OF f]
      by (auto simp: audit_record_def progress_def elim!: ok_mono)
  qed
qed

lemma pool_ok_pid: "pool_ok A B (w\<lparr>audit_pid := pid\<rparr>) = pool_ok A B w" "account (w\<lparr>audit_pid := pid\<rparr>) = account w"
  by (simp_all add: pool_ok_def account_def) (simp add: owned_def no_panic_def)

lemma pool_ok_limits:
  "pool_ok A B (w\<lparr>audit_rate_limit := r, audit_backlog_limit := b\<rparr>) = pool_ok A B w"
  "account (w\<lparr>audit_rate_limit := r, audit_backlog_limit := b\<rparr>) = account w"
  by (simp_all add: pool_ok_def account_def) (simp add: owned_def no_panic_def)

lemma audit_reach_progress:
  assumes "audit_reach A st w0 n w" and "pool_ok A B w0" and "quiet_stamp st"
  shows "progress A B n w0 w"
  using assms
proof (induction rule: audit_reach.induct)
  case reach_start
  then show ?case by (simp add: progress_def)
next
  case (reach_record n w reclaim type ps w')
  then have p: "progress A B n w0 w" by simp
  then have "pool_ok A B w" by (simp add: progress_def)
  from audit_record_ok [OF this reach_record.prems(2), of reclaim type ps] reach_record.hyps
  show ?case using progress_trans [OF p] by simp
next
  case (reach_daemon n w w')
  then have p: "progress A B n w0 w" by simp
  then have "pool_ok A B w" by (simp add: progress_def)
  from kauditd_turn_ok [OF this] reach_daemon.hyps show ?case using progress_trans [OF p] by fastforce
qed (simp_all add: progress_def pool_ok_pid pool_ok_limits)


section \<open>The user's memory and the settings\<close>

text \<open>
  Nothing here fetches from user space: every operation leaves its memory and its clock alone.
  Logging changes no setting of the administrator either, but it may lose the daemon.
\<close>

definition same_user :: "'z aw \<Rightarrow> 'z aw \<Rightarrow> bool" where
  "same_user w w' \<longleftrightarrow> umem w' = umem w \<and> utime w' = utime w \<and> same_settings w w'"

lemma same_user_refl [simp]: "same_user w w"
  by (simp add: same_user_def same_settings_def)

lemma same_user_trans: "same_user w w1 \<Longrightarrow> same_user w1 w2 \<Longrightarrow> same_user w w2"
  by (simp add: same_user_def same_settings_def)

lemma same_user_lost:
  "same_user (w\<lparr>audit_pid := pid\<rparr>) w' = same_user w w'" "same_user w (w'\<lparr>sent := ss\<rparr>) = same_user w w'"
  by (simp_all add: same_user_def same_settings_def)

lemma frame_same_user: "log_frame w w' \<Longrightarrow> same_user w w'"
  by (simp add: same_user_def log_frame_fields frame_settings)

lemma kfree_user: "kfree k w = Some w' \<Longrightarrow> same_user w w'"
  by (auto simp: kfree_def same_user_def same_settings_def split: if_splits)

lemma kmalloc_user: "kmalloc n w = (r, w') \<Longrightarrow> same_user w w'"
  by (auto simp: kmalloc_def same_user_def same_settings_def Let_def split: if_splits)

lemma audit_log_lost_user: "audit_log_lost A w = Some w' \<Longrightarrow> same_user w w'"
  by (auto simp: audit_log_lost_def audit_panic_def tick_def same_user_def same_settings_def Let_def split: if_splits)

lemma audit_rate_check_user: "audit_rate_check A w = (b, w') \<Longrightarrow> same_user w w'"
  by (rule frame_same_user) (rule audit_rate_check_frame)

lemma audit_hold_skb_user: "audit_hold_skb s w = Some w' \<Longrightarrow> same_user w w'"
  by (auto simp: audit_hold_skb_def same_user_def same_settings_def dest!: kfree_user split: if_splits)

lemma audit_printk_skb_user: "audit_printk_skb A s w = Some w' \<Longrightarrow> same_user w w'"
  by (auto simp: audit_printk_skb_def tick_def bind_eq_Some_conv Let_def same_user_def same_settings_def split: if_splits
      dest!: audit_hold_skb_user audit_log_lost_user)

lemma kauditd_send_user: "kauditd_send A n s w = Some w' \<Longrightarrow> same_user w w'"
proof (induction A n s w rule: kauditd_send.induct)
  case (1 A n s w)
  obtain k w1 where t: "tick w = (k, w1)" by (metis prod.exhaust)
  have u: "same_user w w1" by (rule frame_same_user) (rule tick_frame [OF t])
  show ?case using "1.prems" u
    by (subst (asm) kauditd_send.simps)
      (auto simp: t bind_eq_Some_conv Let_def same_user_lost split: if_splits intro: same_user_trans
        dest!: audit_hold_skb_user audit_log_lost_user kfree_user "1.IH" [OF refl t [symmetric] refl])
qed

lemma kauditd_send_skb_user: "kauditd_send_skb A s w = Some w' \<Longrightarrow> same_user w w'"
  by (simp add: kauditd_send_skb_def kauditd_send_user)

lemma consume_skb_user: "consume_skb s w = Some w' \<Longrightarrow> same_user w w'"
  by (auto simp: consume_skb_def split: option.splits dest: kfree_user)

lemma dequeue_held_user: "dequeue_held w = (s, w') \<Longrightarrow> same_user w w'"
  by (auto simp: dequeue_held_def same_user_def same_settings_def split: list.splits)

lemma flush_loop_user:
  assumes "flush_loop A s w = Some w'" shows "same_user w w'"
proof (rule flush_loop.raw_induct [where P = "\<lambda>A s w w'. same_user w w'", OF _ assms])
  fix loop :: "audit_env \<Rightarrow> skb option \<Rightarrow> 'a aw \<Rightarrow> 'a aw option" and A s w w'
  assume IH: "\<And>A s w w'. loop A s w = Some w' \<Longrightarrow> same_user w w'"
    and step: "(case s of None \<Rightarrow> consume_skb s w
      | Some x \<Rightarrow> if audit_pid w \<noteq> 0
          then kauditd_send_skb A x w \<bind> (\<lambda>w. case dequeue_held w of (s, w) \<Rightarrow> loop A s w)
          else consume_skb s w) = Some w'"
  show "same_user w w'"
  proof (cases s)
    case None
    then show ?thesis using step by (auto dest: consume_skb_user)
  next
    case (Some x)
    show ?thesis
    proof (cases "audit_pid w \<noteq> 0")
      case True
      then obtain w1 where 1: "kauditd_send_skb A x w = Some w1"
        and 2: "(case dequeue_held w1 of (s, w) \<Rightarrow> loop A s w) = Some w'"
        using step Some by (auto simp: bind_eq_Some_conv)
      obtain s2 w2 where d: "dequeue_held w1 = (s2, w2)" by (metis prod.exhaust)
      show ?thesis using kauditd_send_skb_user [OF 1] dequeue_held_user [OF d] IH [of A s2 w2 w'] 2 d
        by (simp add: same_user_def same_settings_def)
    next
      case False
      then show ?thesis using step Some by (auto dest: consume_skb_user)
    qed
  qed
qed

lemma flush_hold_queue_user: "flush_hold_queue A w = Some w' \<Longrightarrow> same_user w w'"
  by (auto simp: flush_hold_queue_def same_user_def same_settings_def split: if_splits option.splits prod.splits
      dest!: flush_loop_user dequeue_held_user)

lemma kauditd_turn_user:
  assumes "kauditd_turn A w = Some w'" shows "same_user w w'"
proof -
  obtain w1 where "flush_hold_queue A w = Some w1" using assms by (auto simp: kauditd_turn_def bind_eq_Some_conv)
  then show ?thesis using assms flush_hold_queue_user [of A w w1]
    by (cases "skb_queue w1")
      (auto simp: kauditd_turn_def same_user_def same_settings_def Let_def split: if_splits dest!: kauditd_send_skb_user audit_printk_skb_user)
qed

lemma kauditd_turns_user: "kauditd_turns A n w = Some w' \<Longrightarrow> same_user w w'"
  by (induction n arbitrary: w) (auto simp: bind_eq_Some_conv dest!: kauditd_turn_user intro: same_user_trans)

lemma backlog_lost_user: "backlog_lost A w = Some (go, w') \<Longrightarrow> same_user w w'"
  by (auto simp: backlog_lost_def bind_eq_Some_conv split: prod.splits dest!: audit_rate_check_user audit_log_lost_user)
    (auto simp: same_user_def same_settings_def)

lemma backlog_wait_user: "backlog_wait A r k ws w = Some (go, w') \<Longrightarrow> same_user w w'"
proof (induction ws arbitrary: w)
  case Nil
  then show ?case
    by (auto split: if_splits dest: backlog_lost_user)
next
  case (Cons e ws)
  then show ?case
    by (cases e) (auto simp: bind_eq_Some_conv split: if_splits
        intro: same_user_trans dest: backlog_lost_user kauditd_turns_user)
qed

lemma audit_buffer_free_user: "audit_buffer_free A ab w = Some w' \<Longrightarrow> same_user w w'"
  by (auto simp: audit_buffer_free_def bind_eq_Some_conv same_user_def same_settings_def split: if_splits option.splits dest!: kfree_user)

lemma audit_buffer_alloc_user: "audit_buffer_alloc A r t w = Some (ab, w') \<Longrightarrow> same_user w w'"
  by (auto simp: audit_buffer_alloc_def take_buffer_def tick_def bind_eq_Some_conv same_user_def same_settings_def Let_def
      split: if_splits option.splits prod.splits list.splits dest!: kmalloc_user audit_buffer_free_user)

lemma audit_log_end_user: "audit_log_end A ab w = Some w' \<Longrightarrow> same_user w w'"
  by (auto simp: audit_log_end_def bind_eq_Some_conv same_user_def same_settings_def Let_def
      split: if_splits option.splits prod.splits
      dest!: audit_buffer_free_user audit_printk_skb_user audit_rate_check_user audit_log_lost_user)
lemma audit_expand_user: "audit_expand A n s w = Some (k, s', w') \<Longrightarrow> same_user w w'"
  by (auto simp: audit_expand_def tick_def bind_eq_Some_conv same_user_def same_settings_def Let_def split: if_splits dest!: audit_log_lost_user)

lemma vformat_fit_user: "vformat_fit A t n s w = Some (s', w') \<Longrightarrow> same_user w w'"
  by (auto simp: vformat_fit_def bind_eq_Some_conv split: if_splits dest!: audit_expand_user)

lemma vformat_user: "audit_log_vformat A t s w = Some (s', w') \<Longrightarrow> same_user w w'"
  by (auto simp: audit_log_vformat_def bind_eq_Some_conv same_user_def same_settings_def split: if_splits
      dest!: audit_expand_user vformat_fit_user)

lemma audit_log_format_user: "audit_log_format A t ab w = Some (ab', w') \<Longrightarrow> same_user w w'"
  by (auto simp: audit_log_format_def on_skb_def bind_eq_Some_conv split: option.splits dest!: vformat_user)

lemma quiet_stamp_user: "quiet_stamp st \<Longrightarrow> st w = (t, w') \<Longrightarrow> same_user w w'"
  unfolding quiet_stamp_def Let_def same_user_def by (metis snd_conv)

lemma audit_log_start_user:
  assumes "quiet_stamp stamp" and "audit_log_start A stamp reclaim type w = Some (ab, w')"
  shows "same_user w w'"
proof (cases "audit_initialized w \<and> \<not> filter_type A type")
  case False
  then show ?thesis using assms(2) by (auto simp: audit_log_start_def split: if_splits)
next
  case True
  define daemon where "daemon = (audit_pid w \<noteq> 0 \<and> audit_pid w = cur_tgid A)"
  define reserve :: nat where "reserve = (if reclaim \<and> \<not> daemon then 0 else 5)"
  obtain n w1 where t: "tick w = (n, w1)" by (metis prod.exhaust)
  from assms(2) True obtain go w2 where b: "backlog_wait A (reclaim \<and> \<not> daemon) reserve (wakeups A n) w1 = Some (go, w2)"
    by (auto simp: audit_log_start_def daemon_def reserve_def t bind_eq_Some_conv Let_def)
  have u2: "same_user w w2"
    using frame_same_user [OF tick_frame [OF t]] backlog_wait_user [OF b] by (rule same_user_trans)
  define w3 where "w3 = (if reserve = 0 \<and> audit_wait w2 = 0 then w2\<lparr>audit_wait := audit_wait_master w2\<rparr> else w2)"
  have u3: "same_user w w3" using u2 by (auto simp: w3_def same_user_def same_settings_def)
  have step: "audit_log_start A stamp reclaim type w = (if \<not> go then Some (None, w2) else do {
       (ab, w) \<leftarrow> audit_buffer_alloc A (reclaim \<and> \<not> daemon) type w3;
       (case ab of
          None \<Rightarrow> do { w \<leftarrow> audit_log_lost A w; Some (None, w) }
        | Some _ \<Rightarrow> (let (t, w) = stamp w in audit_log_format A (stamp_text t) ab w)) })"
    using True t b by (simp add: audit_log_start_def daemon_def [symmetric] reserve_def [symmetric] w3_def Let_def)
  show ?thesis
  proof (cases go)
    case False
    then show ?thesis using assms(2) u2 by (simp add: step)
  next
    case True
    then obtain ab4 w4 where a: "audit_buffer_alloc A (reclaim \<and> \<not> daemon) type w3 = Some (ab4, w4)"
      and r: "(case ab4 of
          None \<Rightarrow> do { w \<leftarrow> audit_log_lost A w4; Some (None, w) }
        | Some _ \<Rightarrow> (let (t, w) = stamp w4 in audit_log_format A (stamp_text t) ab4 w)) = Some (ab, w')"
      using assms(2) by (auto simp: step bind_eq_Some_conv)
    have u4: "same_user w w4" by (rule same_user_trans [OF u3 audit_buffer_alloc_user [OF a]])
    obtain st w5 where s: "stamp w4 = (st, w5)" by (metis prod.exhaust)
    show ?thesis using r u4 quiet_stamp_user [OF assms(1) s]
      by (auto simp: s bind_eq_Some_conv same_user_def same_settings_def split: option.splits dest!: audit_log_lost_user audit_log_format_user)
  qed
qed

section \<open>A calm machine\<close>

text \<open>For the concrete instances: memory suffices, the clock stands, the daemon takes every record.\<close>

definition calm_env :: audit_env where
  "calm_env = \<lparr>jiffies = \<lambda>_. 0, printk_ok = \<lambda>_. True, unicast = \<lambda>_. 0, slack = \<lambda>_. 0, wakeups = \<lambda>_. [],
     filter_type = \<lambda>_. False, clock = \<lambda>_. (0, 0), maxfree = 0, HZ = 100, cur_tgid = 7, cur_auid = 0, cur_ses = 0,
     getsecid = \<lambda>_. 0, secctx = \<lambda>_ _. (0, [])\<rparr>"

definition calm_world :: audit_world where
  "calm_world = \<lparr>umem = \<lambda>_ _. None, utime = 0, uout = [], kfail = \<lambda>_. False, kjunk = \<lambda>_ _. 0, knext = 1, klive = [], xcalls = 0,
     audit_initialized = True, audit_enabled = 1, audit_ever_enabled = 1, audit_default = True, audit_failure = 1, audit_pid = 9,
     audit_rate_limit = 0, audit_backlog_limit = 0, audit_wait_master = 0, audit_wait = 0, audit_lost = 0, last_msg = 0,
     last_check = 0, messages = 0, serial_no = 0, freelist = [], skb_queue = [], hold_queue = [], sent = [], printed = []\<rparr>"

lemma calm_pool: "pool_ok calm_env {#} calm_world"
  by (simp add: pool_ok_def owned_def no_panic_def calm_world_def)

theorem audit_untrusted_roundtrip_witness:
  "ok (audit_log_n_untrustedstring calm_env [65, 34, 32]
      (Some \<lparr>ab_id = 1, ab_reclaim = True, ab_skb = Some \<lparr>sk_id = 2, sk_type = AUDIT_EXECVE, sk_text = [], sk_room = 3\<rparr>\<rparr>) calm_world)
    (\<lambda>(ab', w'). \<exists>s' t. ab' = Some \<lparr>ab_id = 1, ab_reclaim = True, ab_skb = Some s'\<rparr> \<and> sk_text s' = t \<and>
      decode_value t = Some [65, 34, 32])"
proof -
  have "\<not> (\<exists>n. kfail calm_world n)" and "no_panic calm_world" by (simp_all add: calm_world_def no_panic_def)
  then show ?thesis
    by (intro ok_mono [OF audit_untrusted_roundtrip [where s = "\<lparr>sk_id = 2, sk_type = AUDIT_EXECVE, sk_text = [], sk_room = 3\<rparr>"]]) auto
qed

end
