(* ===== verification/AuditRec.thy ===== *)
theory AuditRec
  imports AuditLog
begin

text \<open>
  Facts about a record while it is written, for all who write one: it owns its buffer and its
  socket buffer and writing keeps them in order (\<open>rec_ok\<close>); when a daemon is there, nothing
  is limited and memory suffices (\<open>steady\<close>), a record is started, holds what was written
  and joins the queue.
\<close>

section \<open>The record at hand\<close>

text \<open>The record at hand, if there is one, owns its objects and has its socket buffer.\<close>

definition opt_ids :: "abuf option \<Rightarrow> nat multiset" where
  "opt_ids ab = (case ab of None \<Rightarrow> {#} | Some a \<Rightarrow> buf_ids a)"

definition rec_ok :: "audit_env \<Rightarrow> nat multiset \<Rightarrow> abuf option \<Rightarrow> 'z aw \<Rightarrow> bool" where
  "rec_ok A B ab w \<longleftrightarrow> pool_ok A (B + opt_ids ab) w \<and> (\<forall>a. ab = Some a \<longrightarrow> ab_skb a \<noteq> None)"

lemma rec_ok_utime [simp]: "rec_ok A B ab (w\<lparr>utime := t\<rparr>) = rec_ok A B ab w"
  by (simp add: rec_ok_def pool_ok_def) (simp add: owned_def no_panic_def)

lemma on_skb_rec:
  assumes "rec_ok A B ab w" and "\<And>s. no_panic w \<Longrightarrow> ok (f s w) (write_post t s w)"
  shows "ok (on_skb f ab w) (\<lambda>(ab', w'). rec_ok A B ab' w' \<and> log_frame w w' \<and> (ab' = None \<longleftrightarrow> ab = None))"
proof (cases ab)
  case None
  then show ?thesis using assms(1) by (simp add: on_skb_def)
next
  case (Some a)
  then obtain s where s: "ab_skb a = Some s" and p: "pool_ok A (B + buf_ids a) w"
    using assms(1) by (auto simp: rec_ok_def opt_ids_def)
  from assms(2) [OF no_panic_pool [OF p], of s] show ?thesis using Some s p
    by (auto simp: on_skb_def ok_bind write_post_def appended_def rec_ok_def opt_ids_def buf_ids_def frame_pool(1) elim!: ok_mono)
qed

lemma format_rec:
  assumes "rec_ok A B ab w"
  shows "ok (audit_log_format A t ab w) (\<lambda>(ab', w'). rec_ok A B ab' w' \<and> log_frame w w' \<and> (ab' = None \<longleftrightarrow> ab = None))"
  unfolding audit_log_format_def by (rule on_skb_rec [OF assms]) (rule vformat_ok)

lemma hex_rec:
  assumes "rec_ok A B ab w"
  shows "ok (audit_log_n_hex A t ab w) (\<lambda>(ab', w'). rec_ok A B ab' w' \<and> log_frame w w' \<and> (ab' = None \<longleftrightarrow> ab = None))"
  unfolding audit_log_n_hex_def by (rule on_skb_rec [OF assms]) (rule n_hex_ok)

lemma string_rec:
  assumes "rec_ok A B ab w"
  shows "ok (audit_log_n_string A t ab w) (\<lambda>(ab', w'). rec_ok A B ab' w' \<and> log_frame w w' \<and> (ab' = None \<longleftrightarrow> ab = None))"
  unfolding audit_log_n_string_def by (rule on_skb_rec [OF assms]) (rule n_string_ok)

lemma put_recs:
  assumes "rec_ok A B ab w"
  shows "ok (audit_log_format A t ab w) (\<lambda>(ab', w'). rec_ok A B ab' w')"
    and "ok (audit_log_n_hex A t ab w) (\<lambda>(ab', w'). rec_ok A B ab' w')"
    and "ok (audit_log_n_string A t ab w) (\<lambda>(ab', w'). rec_ok A B ab' w')"
  by (rule ok_mono [OF format_rec [OF assms]] ok_mono [OF hex_rec [OF assms]] ok_mono [OF string_rec [OF assms]]; auto)+

section \<open>The log when nothing is lost\<close>

text \<open>A daemon is there, no limit is set, no filter drops records of the type, and memory suffices.\<close>

definition steady :: "audit_env \<Rightarrow> nat \<Rightarrow> 'z aw \<Rightarrow> bool" where
  "steady A type w \<longleftrightarrow> audit_initialized w \<and> \<not> filter_type A type \<and> audit_pid w \<noteq> 0 \<and> audit_rate_limit w = 0 \<and>
     audit_backlog_limit w = 0 \<and> (\<forall>n. \<not> kfail w n)"

lemma frame_steady: "log_frame w w' \<Longrightarrow> steady A type w' = steady A type w"
  by (simp add: steady_def log_frame_fields)

lemma audit_buffer_free_steady:
  "audit_buffer_free A ab w = Some w' \<Longrightarrow> skb_queue w' = skb_queue w \<and> steady A type w' = steady A type w"
  by (auto simp: audit_buffer_free_def kfree_def steady_def bind_eq_Some_conv split: option.splits if_splits)

lemma log_end_steady:
  assumes "audit_log_end A (Some a) w = Some w'" and "ab_skb a = Some s" and "steady A type w"
  shows "skb_queue w' = skb_queue w @ [s] \<and> steady A type w'"
proof -
  have "audit_rate_check A w = (True, w)" using assms(3) by (simp add: steady_def audit_rate_check_off)
  then have "audit_buffer_free A (a\<lparr>ab_skb := None\<rparr>) (w\<lparr>skb_queue := skb_queue w @ [s]\<rparr>) = Some w'"
    using assms by (simp add: audit_log_end_def steady_def)
  from audit_buffer_free_steady [OF this, of type] show ?thesis using assms(3) by (simp add: steady_def)
qed

lemma backlog_wait_free: "audit_backlog_limit w = 0 \<Longrightarrow> backlog_wait A r k ws w = Some (True, w)"
  by (cases ws) (auto simp: backlog_full_def)

lemma buffer_alloc_steady:
  assumes "steady A type w" and "audit_buffer_alloc A r ty w = Some (ab, w')"
  shows "(\<exists>a s. ab = Some a \<and> ab_skb a = Some s \<and> sk_text s = []) \<and> skb_queue w' = skb_queue w \<and> steady A type w'"
  using assms
  by (auto simp: audit_buffer_alloc_def take_buffer_def kmalloc_def tick_def steady_def Let_def split: list.splits option.splits)

lemma log_start_stamped:
  assumes "steady A type w" and "no_panic w" and "quiet_stamp stamp" and "audit_log_start A stamp True type w = Some (ab, w')"
  shows "(\<exists>a s u. ab = Some a \<and> ab_skb a = Some s \<and> sk_text s = stamp_text (fst (stamp u))) \<and> skb_queue w' = skb_queue w \<and> steady A type w'"
proof -
  obtain n w1 where t: "tick w = (n, w1)" by (metis prod.exhaust)
  note f = tick_frame [OF t]
  have s1: "steady A type w1" "skb_queue w1 = skb_queue w" "no_panic w1"
    using assms(1,2) frame_steady [OF f] frame_pool(3) [OF f] by (simp_all add: log_frame_fields [OF f])
  then have b: "backlog_wait A r k ws w1 = Some (True, w1)" for r k ws by (simp add: steady_def backlog_wait_free)
  define d where "d = (audit_pid w \<noteq> 0 \<and> audit_pid w = cur_tgid A)"
  define w2 where "w2 = (if \<not> d \<and> audit_wait w1 = 0 then w1\<lparr>audit_wait := audit_wait_master w1\<rparr> else w1)"
  have s2: "steady A type w2" "skb_queue w2 = skb_queue w" "no_panic w2"
    using s1 by (auto simp: w2_def steady_def no_panic_def)
  have step: "(do {
       (ab, w) \<leftarrow> audit_buffer_alloc A (\<not> d) type w2;
       (case ab of
          None \<Rightarrow> do { w \<leftarrow> audit_log_lost A w; Some (None, w) }
        | Some _ \<Rightarrow> (let (t, w) = stamp w in audit_log_format A (stamp_text t) ab w)) }) = Some (ab, w')"
    using assms(1,4) b t by (auto simp: audit_log_start_def steady_def Let_def d_def w2_def split: if_splits)
  then obtain ab3 w3 where al: "audit_buffer_alloc A (\<not> d) type w2 = Some (ab3, w3)"
    by (auto simp: bind_eq_Some_conv)
  from buffer_alloc_steady [OF s2(1) al] obtain a s where a: "ab3 = Some a" "ab_skb a = Some s" "sk_text s = []"
    and s3: "skb_queue w3 = skb_queue w" "steady A type w3" using s2 by auto
  obtain st w4 where st: "stamp w3 = (st, w4)" by (metis prod.exhaust)
  have "snd (stamp w3) = w4" using st by simp
  moreover note assms(3) [unfolded quiet_stamp_def Let_def, rule_format, of w3]
  ultimately have s4: "skb_queue w4 = skb_queue w" "steady A type w4" "audit_failure w4 = audit_failure w3"
    using s3 by (simp_all add: steady_def)
  have "audit_failure w3 = audit_failure w2" using al
    by (auto simp: audit_buffer_alloc_def take_buffer_def kmalloc_def tick_def Let_def audit_buffer_free_def kfree_def bind_eq_Some_conv
      split: list.splits option.splits if_splits)
  then have "no_panic w4" using s2(3) s4(3) by (simp add: no_panic_def)
  from vformat_ok [OF this, of A "stamp_text st" s] obtain s5 w5
    where v: "audit_log_vformat A (stamp_text st) s w4 = Some (s5, w5)" and p: "write_post (stamp_text st) s w4 (s5, w5)"
    by (auto elim!: okE)
  have f5: "log_frame w4 w5" and "sk_text s5 = stamp_text st" using p s4(2) a(3)
    by (auto simp: write_post_def appended_def steady_def)
  moreover from this have "ab = Some (a\<lparr>ab_skb := Some s5\<rparr>)" and "w' = w5"
    using step al a st v by (simp_all add: audit_log_format_def on_skb_def)
  ultimately show ?thesis using s4 frame_steady [OF f5] log_frame_fields(3) [OF f5]
    by (intro conjI exI [of _ "a\<lparr>ab_skb := Some s5\<rparr>"] exI [of _ s5] exI [of _ w3]) (simp_all add: st)
qed

lemma log_start_steady:
  assumes "steady A type w" and "no_panic w" and "quiet_stamp stamp" and "audit_log_start A stamp True type w = Some (ab, w')"
  shows "(\<exists>a s st. ab = Some a \<and> ab_skb a = Some s \<and> sk_text s = stamp_text st) \<and> skb_queue w' = skb_queue w \<and> steady A type w'"
  using log_start_stamped [OF assms] by blast

end
