(* ===== verification/AuditRecord.thy ===== *)
theory AuditRecord
  imports AuditRec
begin

text \<open>
  What \<open>audit.c\<close> writes into records of its own: the path and name of a file
  (\<open>audit_log_d_path\<close>, \<open>audit_log_name\<close>), its capabilities, the task that made the call, and
  the report of a denied link. Every part is a writer: it adds a known text to the record and
  keeps its objects in order.
\<close>

section \<open>Data\<close>

text \<open>
  What a path is for the log: the text \<open>d_path\<close> gives, or \<open>None\<close> when it fails. The part of
  an inode the log takes, with the label the security module gives it, and what the file
  system says of its capabilities: an error, or the two sets and the word \<open>magic_etc\<close>.
\<close>

type_synonym path = "byte list option"

record inode =
  i_ino :: u64
  i_dev :: u32
  i_mode :: u16
  i_uid :: u32
  i_gid :: u32
  i_rdev :: u32
  i_sid :: u32

type_synonym vfs_caps = "int + u32 list \<times> u32 list \<times> u32"

text \<open>
  An entry of the list of names (\<open>struct audit_names\<close>); the name itself is an object, of
  which the entry holds the number.
\<close>

record audit_names =
  n_name :: "nat option"
  n_len :: int
  n_hidden :: bool
  n_ino :: u64
  n_dev :: u32
  n_mode :: u16
  n_uid :: u32
  n_gid :: u32
  n_rdev :: u32
  n_osid :: u32
  n_fcap_permitted :: "u32 list"
  n_fcap_inheritable :: "u32 list"
  n_fcap_fE :: bool
  n_fcap_ver :: u32
  n_type :: nat
  n_should_free :: bool

text \<open>The task that makes the call, as a record describes it; no tty and no program file are \<open>None\<close>.\<close>

record task =
  tk_ppid :: int
  tk_pid :: int
  tk_uid :: u32
  tk_gid :: u32
  tk_euid :: u32
  tk_suid :: u32
  tk_fsuid :: u32
  tk_egid :: u32
  tk_sgid :: u32
  tk_fsgid :: u32
  tk_tty :: "byte list option"
  tk_comm :: "byte list"
  tk_exe :: "path option"

text \<open>Numbers of \<open>linux/audit.h\<close>, \<open>linux/limits.h\<close> and \<open>linux/capability.h\<close>.\<close>

abbreviation AUDIT_PATH :: nat where "AUDIT_PATH \<equiv> 1302"
abbreviation AUDIT_ANOM_LINK :: nat where "AUDIT_ANOM_LINK \<equiv> 1702"
abbreviation AUDIT_TYPE_NORMAL :: nat where "AUDIT_TYPE_NORMAL \<equiv> 1"
abbreviation AUDIT_TYPE_PARENT :: nat where "AUDIT_TYPE_PARENT \<equiv> 2"
abbreviation AUDIT_TYPE_CHILD_DELETE :: nat where "AUDIT_TYPE_CHILD_DELETE \<equiv> 3"
abbreviation AUDIT_TYPE_CHILD_CREATE :: nat where "AUDIT_TYPE_CHILD_CREATE \<equiv> 4"
abbreviation AUDIT_NAME_FULL :: int where "AUDIT_NAME_FULL \<equiv> -1"
abbreviation AUDIT_INO_UNSET :: u64 where "AUDIT_INO_UNSET \<equiv> -1"
abbreviation PATH_MAX :: nat where "PATH_MAX \<equiv> 4096"
abbreviation VFS_CAP_FLAGS_EFFECTIVE :: u32 where "VFS_CAP_FLAGS_EFFECTIVE \<equiv> 1"
abbreviation VFS_CAP_REVISION_MASK :: u32 where "VFS_CAP_REVISION_MASK \<equiv> 0xFF000000"
abbreviation VFS_CAP_REVISION_SHIFT :: nat where "VFS_CAP_REVISION_SHIFT \<equiv> 24"

text \<open>The macros \<open>MAJOR\<close> and \<open>MINOR\<close> of \<open>linux/kdev_t.h\<close>.\<close>

abbreviation MAJOR :: "u32 \<Rightarrow> nat" where "MAJOR d \<equiv> unat (drop_bit 20 d)"
abbreviation MINOR :: "u32 \<Rightarrow> nat" where "MINOR d \<equiv> unat (take_bit 20 d)"

section \<open>Numbers in a text\<close>

definition digit :: "nat \<Rightarrow> byte" where
  "digit d = (if d < 10 then 48 + of_nat d else 87 + of_nat d)"

fun radix :: "nat \<Rightarrow> nat \<Rightarrow> byte list" where
  "radix b n = (if b < 2 \<or> n < b then [digit n] else radix b (n div b) @ [digit (n mod b)])"

declare radix.simps [simp del]

definition padded :: "nat \<Rightarrow> byte list \<Rightarrow> byte list" where
  "padded k t = replicate (k - length t) 48 @ t"

definition signed_dec :: "int \<Rightarrow> byte list" where
  "signed_dec i = (if i < 0 then 45 # dec (nat (- i)) else dec (nat i))"

definition udec :: "'a::len word \<Rightarrow> byte list" where
  "udec v = dec (unat v)"

definition octal :: "u16 \<Rightarrow> byte list" where
  "octal m = (if m = 0 then [48] else 48 # radix 8 (unat m))"

definition device :: "u32 \<Rightarrow> byte list" where
  "device d = padded 2 (radix 16 (MAJOR d)) @ ascii '':'' @ padded 2 (radix 16 (MINOR d))"

section \<open>The parts of a record\<close>

text \<open>The path is written without asking whether there is a record.\<close>

definition audit_log_d_path ::
  "audit_env \<Rightarrow> byte list option \<Rightarrow> path \<Rightarrow> abuf option \<Rightarrow> 'z aw \<Rightarrow> (abuf option \<times> 'z aw) option" where
  "audit_log_d_path A prefix p ab w = do {
     (ab, w) \<leftarrow> (case prefix of None \<Rightarrow> Some (ab, w) | Some t \<Rightarrow> audit_log_format A t ab w);
     (if ab = None then None
      else (case kmalloc (PATH_MAX + 11) w of
          (None, w) \<Rightarrow> audit_log_n_string A (ascii ''<no_memory>'') ab w
        | (Some (k, _), w) \<Rightarrow> do {
            (ab, w) \<leftarrow> (case p of
               None \<Rightarrow> audit_log_n_string A (ascii ''<too_long>'') ab w
             | Some s \<Rightarrow> audit_log_n_untrustedstring A s ab w);
            w \<leftarrow> kfree k w;
            Some (ab, w)
          }))
   }"

definition audit_log_session_info :: "audit_env \<Rightarrow> abuf option \<Rightarrow> 'z aw \<Rightarrow> (abuf option \<times> 'z aw) option" where
  "audit_log_session_info A = audit_log_format A (ascii '' auid='' @ udec (cur_auid A) @ ascii '' ses='' @ udec (cur_ses A))"

definition audit_log_key :: "audit_env \<Rightarrow> byte list option \<Rightarrow> abuf option \<Rightarrow> 'z aw \<Rightarrow> (abuf option \<times> 'z aw) option" where
  "audit_log_key A key ab w = do {
     (ab, w) \<leftarrow> audit_log_format A (ascii '' key='') ab w;
     (case key of
        Some k \<Rightarrow> audit_log_n_untrustedstring A k ab w
      | None \<Rightarrow> audit_log_format A (ascii ''(null)'') ab w)
   }"

primrec log_words :: "audit_env \<Rightarrow> u32 list \<Rightarrow> abuf option \<Rightarrow> 'z aw \<Rightarrow> (abuf option \<times> 'z aw) option" where
  "log_words A [] ab w = Some (ab, w)"
| "log_words A (c # cs) ab w = do {
     (ab, w) \<leftarrow> audit_log_format A (padded 8 (radix 16 (unat c))) ab w;
     log_words A cs ab w
   }"

definition audit_log_cap :: "audit_env \<Rightarrow> string \<Rightarrow> u32 list \<Rightarrow> abuf option \<Rightarrow> 'z aw \<Rightarrow> (abuf option \<times> 'z aw) option" where
  "audit_log_cap A prefix cap ab w = do {
     (ab, w) \<leftarrow> audit_log_format A (ascii '' '' @ ascii prefix @ ascii ''='') ab w;
     log_words A (rev cap) ab w
   }"

definition audit_log_fcaps :: "audit_env \<Rightarrow> audit_names \<Rightarrow> abuf option \<Rightarrow> 'z aw \<Rightarrow> (abuf option \<times> 'z aw) option" where
  "audit_log_fcaps A n ab w = do {
     let perm = list_ex (\<lambda>c. c \<noteq> 0) (n_fcap_permitted n);
     let inh = list_ex (\<lambda>c. c \<noteq> 0) (n_fcap_inheritable n);
     (ab, w) \<leftarrow> (if perm then audit_log_cap A ''cap_fp'' (n_fcap_permitted n) ab w else Some (ab, w));
     (ab, w) \<leftarrow> (if inh then audit_log_cap A ''cap_fi'' (n_fcap_inheritable n) ab w else Some (ab, w));
     (if perm \<or> inh
      then audit_log_format A (ascii '' cap_fe='' @ dec (if n_fcap_fE n then 1 else 0) @ ascii '' cap_fver='' @ radix 16 (unat (n_fcap_ver n))) ab w
      else Some (ab, w))
   }"

definition audit_copy_fcaps :: "vfs_caps option \<Rightarrow> audit_names \<Rightarrow> int \<times> audit_names" where
  "audit_copy_fcaps dentry n =
     (case dentry of
        None \<Rightarrow> (0, n)
      | Some (Inl rc) \<Rightarrow> (rc, n)
      | Some (Inr (permitted, inheritable, magic_etc)) \<Rightarrow>
          (0, n\<lparr>n_fcap_permitted := permitted, n_fcap_inheritable := inheritable,
             n_fcap_fE := and magic_etc VFS_CAP_FLAGS_EFFECTIVE \<noteq> 0,
             n_fcap_ver := drop_bit VFS_CAP_REVISION_SHIFT (and magic_etc VFS_CAP_REVISION_MASK)\<rparr>))"

definition audit_copy_inode :: "vfs_caps option \<Rightarrow> inode \<Rightarrow> audit_names \<Rightarrow> audit_names" where
  "audit_copy_inode dentry i n =
     snd (audit_copy_fcaps dentry (n\<lparr>n_ino := i_ino i, n_dev := i_dev i, n_mode := i_mode i, n_uid := i_uid i,
       n_gid := i_gid i, n_rdev := i_rdev i, n_osid := i_sid i\<rparr>))"

definition nametype :: "nat \<Rightarrow> string" where
  "nametype t =
     (if t = AUDIT_TYPE_NORMAL then ''NORMAL''
      else if t = AUDIT_TYPE_PARENT then ''PARENT''
      else if t = AUDIT_TYPE_CHILD_DELETE then ''DELETE''
      else if t = AUDIT_TYPE_CHILD_CREATE then ''CREATE''
      else ''UNKNOWN'')"

section \<open>Records of paths and tasks\<close>

text \<open>
  The name of an entry. The name's object holds its text and the end behind it; bytes past
  that are no part of it.
\<close>

definition log_entry_name :: "audit_env \<Rightarrow> (nat \<Rightarrow> byte list) \<Rightarrow> path \<Rightarrow> audit_names \<Rightarrow> path option \<Rightarrow>
    abuf option \<Rightarrow> 'z aw \<Rightarrow> (abuf option \<times> 'z aw) option" where
  "log_entry_name A fname pwd n p ab w =
     (case p of
        Some q \<Rightarrow> audit_log_d_path A (Some (ascii '' name='')) q ab w
      | None \<Rightarrow>
          (case n_name n of
             None \<Rightarrow> audit_log_format A (ascii '' name=(null)'') ab w
           | Some k \<Rightarrow>
               if n_len n = AUDIT_NAME_FULL then do {
                 (ab, w) \<leftarrow> audit_log_format A (ascii '' name='') ab w;
                 audit_log_n_untrustedstring A (fname k) ab w
               }
               else if n_len n = 0 then audit_log_d_path A (Some (ascii '' name='')) pwd ab w
               else do {
                 (ab, w) \<leftarrow> audit_log_format A (ascii '' name='') ab w;
                 (if n_len n < 0 \<or> n_len n > int (length (fname k)) + 1 then None
                  else audit_log_n_untrustedstring A (take (nat (n_len n)) (fname k @ [0])) ab w)
               }))"

definition inode_text :: "audit_names \<Rightarrow> byte list" where
  "inode_text n = ascii '' inode='' @ udec (n_ino n) @ ascii '' dev='' @ device (n_dev n) @ ascii '' mode='' @ octal (n_mode n) @
     ascii '' ouid='' @ udec (n_uid n) @ ascii '' ogid='' @ udec (n_gid n) @ ascii '' rdev='' @ device (n_rdev n)"

text \<open>The label of an object; true when the security module cannot give its text.\<close>

definition log_osid :: "audit_env \<Rightarrow> u32 \<Rightarrow> abuf option \<Rightarrow> 'z aw \<Rightarrow> (bool \<times> abuf option \<times> 'z aw) option" where
  "log_osid A osid ab w =
     (if osid = 0 then Some (False, ab, w)
      else
        let (n, w) = tick w; (error, ctx) = secctx A n osid in
        if error \<noteq> 0 then do {
          (ab, w) \<leftarrow> audit_log_format A (ascii '' osid='' @ udec osid) ab w;
          Some (True, ab, w)
        }
        else do {
          (ab, w) \<leftarrow> audit_log_format A (ascii '' obj='' @ ctx) ab w;
          Some (False, ab, w)
        })"

text \<open>The fields of the record; the result is whether \<open>*call_panic\<close> is set.\<close>

definition name_fields :: "audit_env \<Rightarrow> (nat \<Rightarrow> byte list) \<Rightarrow> path \<Rightarrow> audit_names \<Rightarrow> path option \<Rightarrow> nat \<Rightarrow>
    abuf option \<Rightarrow> 'z aw \<Rightarrow> (bool \<times> abuf option \<times> 'z aw) option" where
  "name_fields A fname pwd n p record_num ab w = do {
     (ab, w) \<leftarrow> audit_log_format A (ascii ''item='' @ dec record_num) ab w;
     (ab, w) \<leftarrow> log_entry_name A fname pwd n p ab w;
     (ab, w) \<leftarrow> (if n_ino n \<noteq> AUDIT_INO_UNSET then audit_log_format A (inode_text n) ab w else Some (ab, w));
     (call_panic, ab, w) \<leftarrow> log_osid A (n_osid n) ab w;
     (ab, w) \<leftarrow> audit_log_format A (ascii '' nametype='') ab w;
     (ab, w) \<leftarrow> audit_log_format A (ascii (nametype (n_type n))) ab w;
     (ab, w) \<leftarrow> audit_log_fcaps A n ab w;
     Some (call_panic, ab, w)
   }"

definition audit_log_name :: "audit_env \<Rightarrow> 'z stamp \<Rightarrow> (nat \<Rightarrow> byte list) \<Rightarrow> path \<Rightarrow> audit_names \<Rightarrow> path option \<Rightarrow> nat \<Rightarrow>
    'z aw \<Rightarrow> (bool \<times> 'z aw) option" where
  "audit_log_name A stamp fname pwd n p record_num w = do {
     (ab, w) \<leftarrow> audit_log_start A stamp True AUDIT_PATH w;
     (if ab = None then Some (False, w)
      else do {
        (call_panic, ab, w) \<leftarrow> name_fields A fname pwd n p record_num ab w;
        w \<leftarrow> audit_log_end A ab w;
        Some (call_panic, w)
      })
   }"

definition audit_log_task_context :: "audit_env \<Rightarrow> abuf option \<Rightarrow> 'z aw \<Rightarrow> (int \<times> abuf option \<times> 'z aw) option" where
  "audit_log_task_context A ab w =
     (let (n, w) = tick w; sid = getsecid A n in
      if sid = 0 then Some (0, ab, w)
      else
        let (n, w) = tick w; (error, ctx) = secctx A n sid in
        if error \<noteq> 0 then
          (if error \<noteq> - EINVAL then do { w \<leftarrow> audit_panic w; Some (error, ab, w) } else Some (0, ab, w))
        else do {
          (ab, w) \<leftarrow> audit_log_format A (ascii '' subj='' @ ctx) ab w;
          Some (0, ab, w)
        })"

definition audit_log_d_path_exe :: "audit_env \<Rightarrow> path option \<Rightarrow> abuf option \<Rightarrow> 'z aw \<Rightarrow> (abuf option \<times> 'z aw) option" where
  "audit_log_d_path_exe A exe ab w =
     (case exe of
        None \<Rightarrow> audit_log_format A (ascii '' exe=(null)'') ab w
      | Some p \<Rightarrow> audit_log_d_path A (Some (ascii '' exe='')) p ab w)"

definition task_text :: "audit_env \<Rightarrow> task \<Rightarrow> byte list" where
  "task_text A t = ascii '' ppid='' @ signed_dec (tk_ppid t) @ ascii '' pid='' @ signed_dec (tk_pid t) @
     ascii '' auid='' @ udec (cur_auid A) @ ascii '' uid='' @ udec (tk_uid t) @ ascii '' gid='' @ udec (tk_gid t) @
     ascii '' euid='' @ udec (tk_euid t) @ ascii '' suid='' @ udec (tk_suid t) @ ascii '' fsuid='' @ udec (tk_fsuid t) @
     ascii '' egid='' @ udec (tk_egid t) @ ascii '' sgid='' @ udec (tk_sgid t) @ ascii '' fsgid='' @ udec (tk_fsgid t) @
     ascii '' tty='' @ (case tk_tty t of Some s \<Rightarrow> s | None \<Rightarrow> ascii ''(none)'') @ ascii '' ses='' @ udec (cur_ses A)"

definition audit_log_task_info :: "audit_env \<Rightarrow> task \<Rightarrow> abuf option \<Rightarrow> 'z aw \<Rightarrow> (abuf option \<times> 'z aw) option" where
  "audit_log_task_info A t ab w =
     (if ab = None then Some (ab, w)
      else do {
        (ab, w) \<leftarrow> audit_log_format A (task_text A t) ab w;
        (ab, w) \<leftarrow> audit_log_format A (ascii '' comm='') ab w;
        (ab, w) \<leftarrow> audit_log_n_untrustedstring A (tk_comm t) ab w;
        (ab, w) \<leftarrow> audit_log_d_path_exe A (tk_exe t) ab w;
        (_, ab, w) \<leftarrow> audit_log_task_context A ab w;
        Some (ab, w)
      })"

text \<open>A fresh \<open>struct audit_names\<close>: all zero.\<close>

definition zero_name :: audit_names where
  "zero_name = \<lparr>n_name = None, n_len = 0, n_hidden = False, n_ino = 0, n_dev = 0, n_mode = 0, n_uid = 0, n_gid = 0, n_rdev = 0,
     n_osid = 0, n_fcap_permitted = [0, 0], n_fcap_inheritable = [0, 0], n_fcap_fE = False, n_fcap_ver = 0, n_type = 0, n_should_free = False\<rparr>"

definition audit_log_link_denied :: "audit_env \<Rightarrow> 'z stamp \<Rightarrow> (nat \<Rightarrow> byte list) \<Rightarrow> path \<Rightarrow> task \<Rightarrow> byte list \<Rightarrow>
    path \<Rightarrow> vfs_caps option \<Rightarrow> inode \<Rightarrow> 'z aw \<Rightarrow> 'z aw option" where
  "audit_log_link_denied A stamp fname pwd t operation link dentry i w =
     (case kmalloc 0 w of
        (None, w) \<Rightarrow> Some w
      | (Some (k, _), w) \<Rightarrow> do {
          (ab, w) \<leftarrow> audit_log_start A stamp True AUDIT_ANOM_LINK w;
          (if ab = None then kfree k w
           else do {
             (ab, w) \<leftarrow> audit_log_format A (ascii ''op='' @ operation) ab w;
             (ab, w) \<leftarrow> audit_log_task_info A t ab w;
             (ab, w) \<leftarrow> audit_log_format A (ascii '' res=0'') ab w;
             w \<leftarrow> audit_log_end A ab w;
             (_, w) \<leftarrow> audit_log_name A stamp fname pwd (audit_copy_inode dentry i (zero_name\<lparr>n_type := AUDIT_TYPE_NORMAL\<rparr>)) (Some link) 0 w;
             kfree k w
           })
        })"

text \<open>\<open>audit_log_secctx\<close>.\<close>

definition audit_log_secctx :: "audit_env \<Rightarrow> u32 \<Rightarrow> abuf option \<Rightarrow> 'z aw \<Rightarrow> (abuf option \<times> 'z aw) option" where
  "audit_log_secctx A secid ab w =
     (let (n, w) = tick w; (error, ctx) = secctx A n secid in
      if error \<noteq> 0 then do { w \<leftarrow> audit_panic w; Some (ab, w) }
      else audit_log_format A (ascii '' obj='' @ ctx) ab w)"

section \<open>Writers\<close>

text \<open>
  A writer adds to the record at hand: it keeps the pool in order, and if memory suffices it
  appends one of the texts \<open>T\<close>. Writers compose, so a record is proved part by part.
\<close>

definition rec_text :: "abuf option \<Rightarrow> byte list" where
  "rec_text ab = (case ab of None \<Rightarrow> [] | Some a \<Rightarrow> sk_text (the (ab_skb a)))"

definition rec_type :: "abuf option \<Rightarrow> nat" where
  "rec_type ab = (case ab of None \<Rightarrow> 0 | Some a \<Rightarrow> sk_type (the (ab_skb a)))"

definition wrote :: "audit_env \<Rightarrow> nat multiset \<Rightarrow> byte list set \<Rightarrow> abuf option \<Rightarrow> 'z aw \<Rightarrow> abuf option \<Rightarrow> 'z aw \<Rightarrow> bool" where
  "wrote A B T ab w ab' w' \<longleftrightarrow> rec_ok A B ab' w' \<and> log_frame w w' \<and> ab' \<noteq> None \<and> rec_type ab' = rec_type ab \<and>
     ((\<forall>n. \<not> kfail w n) \<longrightarrow> (\<exists>t \<in> T. rec_text ab' = rec_text ab @ t))"

definition writes :: "audit_env \<Rightarrow> byte list set \<Rightarrow> (abuf option \<Rightarrow> 'z aw \<Rightarrow> (abuf option \<times> 'z aw) option) \<Rightarrow> bool" where
  "writes A T g \<longleftrightarrow> (\<forall>B ab w. rec_ok A B ab w \<and> ab \<noteq> None \<longrightarrow> ok (g ab w) (\<lambda>(ab', w'). wrote A B T ab w ab' w'))"

definition followed :: "byte list set \<Rightarrow> byte list set \<Rightarrow> byte list set" where
  "followed T U = {t @ u | t u. t \<in> T \<and> u \<in> U}"

lemma followed_single [simp]: "followed {t} {u} = {t @ u}"
  by (auto simp: followed_def)

lemma wrote_trans:
  assumes "wrote A B T ab w ab1 w1" and "wrote A B U ab1 w1 ab2 w2"
  shows "wrote A B (followed T U) ab w ab2 w2"
proof -
  have "log_frame w w1" using assms(1) by (simp add: wrote_def)
  then have "kfail w1 = kfail w" by (rule log_frame_fields(9))
  then show ?thesis using assms by (fastforce simp: wrote_def followed_def intro: log_frame_trans)
qed

lemma wrote_mono: "wrote A B T ab w ab' w' \<Longrightarrow> T \<subseteq> U \<Longrightarrow> wrote A B U ab w ab' w'"
  by (auto simp: wrote_def)

lemma writesD: "writes A T g \<Longrightarrow> rec_ok A B ab w \<Longrightarrow> ab \<noteq> None \<Longrightarrow> ok (g ab w) (\<lambda>(ab', w'). wrote A B T ab w ab' w')"
  by (simp add: writes_def)

lemma writes_mono: "writes A T g \<Longrightarrow> T \<subseteq> U \<Longrightarrow> writes A U g"
  unfolding writes_def by (fastforce elim: ok_mono intro: wrote_mono)

lemma writes_then:
  fixes f :: "abuf option \<Rightarrow> 'z aw \<Rightarrow> (abuf option \<times> 'z aw) option"
  assumes "writes A T f" and "writes A U g"
  shows "writes A (followed T U) (\<lambda>ab w. Option.bind (f ab w) (\<lambda>(ab, w). g ab w))"
  unfolding writes_def
proof (intro allI impI)
  fix B ab and w :: "'z aw" assume r: "rec_ok A B ab w \<and> ab \<noteq> None"
  show "ok (Option.bind (f ab w) (\<lambda>(ab, w). g ab w)) (\<lambda>(ab', w'). wrote A B (followed T U) ab w ab' w')"
  proof (rule ok_bindI [OF writesD [OF assms(1)]])
    fix p assume "case p of (ab1, w1) \<Rightarrow> wrote A B T ab w ab1 w1"
    moreover obtain ab1 w1 where p: "p = (ab1, w1)" by (cases p)
    ultimately have 1: "wrote A B T ab w ab1 w1" by simp
    then have "rec_ok A B ab1 w1" and "ab1 \<noteq> None" by (simp_all add: wrote_def)
    from writesD [OF assms(2) this] show "ok (case p of (ab, w) \<Rightarrow> g ab w) (\<lambda>(ab', w'). wrote A B (followed T U) ab w ab' w')"
      by (auto simp: p intro: wrote_trans [OF 1] elim!: ok_mono)
  qed (use r in simp_all)
qed

lemma writes_nothing: "writes A {[]} (\<lambda>ab w. Some (ab, w))"
  by (simp add: writes_def wrote_def)

lemma writes_if: "(b \<Longrightarrow> writes A T f) \<Longrightarrow> (\<not> b \<Longrightarrow> writes A T g) \<Longrightarrow> writes A T (\<lambda>ab w. if b then f ab w else g ab w)"
  by (simp add: writes_def)

lemma writes_skb:
  fixes f :: "skb \<Rightarrow> 'z aw \<Rightarrow> (skb \<times> 'z aw) option"
  assumes "\<And>s w. no_panic w \<Longrightarrow> ok (f s w) (write_post t s w)"
  shows "writes A {t} (on_skb f)"
  unfolding writes_def
proof (intro allI impI)
  fix B ab and w :: "'z aw" assume r: "rec_ok A B ab w \<and> ab \<noteq> None"
  then obtain a s where a: "ab = Some a" "ab_skb a = Some s" by (auto simp: rec_ok_def)
  have "no_panic w" using r by (auto simp: rec_ok_def dest: no_panic_pool)
  from assms [OF this, of s] on_skb_rec [of A B ab w f t] r assms a
  show "ok (on_skb f ab w) (\<lambda>(ab', w'). wrote A B {t} ab w ab' w')"
    by (fastforce simp: wrote_def on_skb_def ok_bind rec_text_def rec_type_def write_post_def appended_def elim!: okE)
qed

lemma writes_format: "writes A {t} (audit_log_format A t)"
  unfolding audit_log_format_def by (rule writes_skb) (rule vformat_ok)

lemma writes_string: "writes A {quoted t} (audit_log_n_string A t)"
  unfolding audit_log_n_string_def by (rule writes_skb) (rule n_string_ok)

lemma writes_hex: "writes A {hex_text t} (audit_log_n_hex A t)"
  unfolding audit_log_n_hex_def by (rule writes_skb) (rule n_hex_ok)

lemma writes_untrusted: "writes A {untrusted_text t} (audit_log_n_untrustedstring A t)"
  by (simp add: audit_log_n_untrustedstring_def untrusted_text_def writes_string writes_hex)

text \<open>A path, in a buffer of its own that is given back.\<close>

definition path_text :: "path \<Rightarrow> byte list" where
  "path_text p = (case p of None \<Rightarrow> quoted (ascii ''<too_long>'') | Some s \<Rightarrow> untrusted_text s)"

lemma writes_path: "writes A {path_text p} (\<lambda>ab w. case p of
    None \<Rightarrow> audit_log_n_string A (ascii ''<too_long>'') ab w | Some s \<Rightarrow> audit_log_n_untrustedstring A s ab w)"
  by (simp add: path_text_def writes_string writes_untrusted split: option.splits)

lemma kmalloc_rec:
  assumes "kmalloc n w = (Some (k, bs), w1)" and "rec_ok A B ab w"
  shows "rec_ok A (B + {#k#}) ab w1" and "kfail w1 = kfail w" and "klive w1 = k # klive w"
    and "log_frame w (w1\<lparr>klive := klive w\<rparr>)"
  using assms by (auto simp: kmalloc_def rec_ok_def pool_ok_def owned_def no_panic_def log_frame_def Let_def split: if_splits)

lemma log_frame_klive: "log_frame w w' \<Longrightarrow> log_frame (w\<lparr>klive := l\<rparr>) (w'\<lparr>klive := l\<rparr>)"
  by (cases w; cases w') (simp add: log_frame_def)

lemma kfree_rec:
  assumes "rec_ok A (B + {#k#}) ab w"
  shows "ok (kfree k w) (\<lambda>w'. rec_ok A B ab w' \<and> w' = w\<lparr>klive := remove1 k (klive w)\<rparr>)"
proof -
  from assms have "pool_ok A (B + opt_ids ab + {#k#}) w" by (simp add: rec_ok_def ac_simps)
  from kfree_pool [OF this] assms show ?thesis by (auto simp: rec_ok_def elim!: ok_mono)
qed

lemma writes_d_path:
  "writes A {t @ path_text p} (audit_log_d_path A (Some t) p :: abuf option \<Rightarrow> 'z aw \<Rightarrow> _)"
proof -
  have body: "writes A {path_text p} (\<lambda>ab (w :: 'z aw). if ab = None then None
      else (case kmalloc (PATH_MAX + 11) w of
          (None, w) \<Rightarrow> audit_log_n_string A (ascii ''<no_memory>'') ab w
        | (Some (k, _), w) \<Rightarrow> do {
            (ab, w) \<leftarrow> (case p of
               None \<Rightarrow> audit_log_n_string A (ascii ''<too_long>'') ab w
             | Some s \<Rightarrow> audit_log_n_untrustedstring A s ab w);
            w \<leftarrow> kfree k w;
            Some (ab, w)
          }))" (is "writes A _ (\<lambda>ab w. if ab = None then None else ?g ab w)")
    unfolding writes_def
  proof (intro allI impI)
    fix B ab and w :: "'z aw" assume r: "rec_ok A B ab w \<and> ab \<noteq> None"
    obtain m w1 where m: "kmalloc (PATH_MAX + 11) w = (m, w1)" by (metis prod.exhaust)
    show "ok (if ab = None then None else ?g ab w) (\<lambda>(ab', w'). wrote A B {path_text p} ab w ab' w')"
    proof (cases m)
      case None
      then have f: "log_frame w w1" and kf: "\<exists>n. kfail w n" and r1: "rec_ok A B ab w1"
        using m r by (auto simp: kmalloc_def log_frame_def rec_ok_def pool_ok_def owned_def no_panic_def Let_def split: if_splits)
      from writesD [OF writes_string r1, of "ascii ''<no_memory>''"] show ?thesis using r m None f kf
        by (auto simp: wrote_def intro: log_frame_trans elim!: ok_mono)
    next
      case (Some q)
      obtain k bs where q: "q = (k, bs)" by (cases q)
      note m1 = m [unfolded Some q]
      note k = kmalloc_rec [OF m1 conjunct1 [OF r]]
      note r1 = k(1)
      have "kfree k w2 = Some (w2\<lparr>klive := klive w\<rparr>) \<and> wrote A B {path_text p} ab w ab2 (w2\<lparr>klive := klive w\<rparr>)"
        if w2: "wrote A (B + {#k#}) {path_text p} ab w1 ab2 w2" for ab2 w2
      proof -
        have f: "log_frame w1 w2" and "rec_ok A (B + {#k#}) ab2 w2" using w2 by (simp_all add: wrote_def)
        from kfree_rec [OF this(2)] have kf: "kfree k w2 = Some (w2\<lparr>klive := klive w\<rparr>)" "rec_ok A B ab2 (w2\<lparr>klive := klive w\<rparr>)"
          using log_frame_fields(1) [OF f] k(3) r by (auto elim!: okE)
        have "log_frame w (w2\<lparr>klive := klive w\<rparr>)"
          by (rule log_frame_trans [OF k(4) log_frame_klive [OF f]])
        then show ?thesis using kf w2 k(2) r by (auto simp: wrote_def)
      qed
      then show ?thesis using writesD [OF writes_path r1, of p] r m Some q
        by (auto simp: ok_bind elim!: ok_mono)
    qed
  qed
  from writes_then [OF writes_format body, of t] show ?thesis
    by (simp add: audit_log_d_path_def [abs_def])
qed

section \<open>The parts as writers\<close>

definition words_text :: "u32 list \<Rightarrow> byte list" where
  "words_text cs = concat (map (\<lambda>c. padded 8 (radix 16 (unat c))) cs)"

lemma writes_words: "writes A {words_text cs} (log_words A cs)"
proof (induction cs)
  case Nil
  then show ?case using writes_nothing [of A] by (simp add: words_text_def eta_contract_eq)
next
  case (Cons c cs)
  from writes_then [OF writes_format Cons, of "padded 8 (radix 16 (unat c))"] show ?case
    by (simp add: words_text_def eta_contract_eq)
qed

definition cap_text :: "string \<Rightarrow> u32 list \<Rightarrow> byte list" where
  "cap_text prefix cap = ascii '' '' @ ascii prefix @ ascii ''='' @ words_text (rev cap)"

lemma writes_cap: "writes A {cap_text prefix cap} (audit_log_cap A prefix cap)"
  using writes_then [OF writes_format writes_words, of A "ascii '' '' @ ascii prefix @ ascii ''=''" "rev cap"]
  by (simp add: cap_text_def audit_log_cap_def [abs_def])

definition fcaps_text :: "audit_names \<Rightarrow> byte list" where
  "fcaps_text n =
     (let perm = list_ex (\<lambda>c. c \<noteq> 0) (n_fcap_permitted n); inh = list_ex (\<lambda>c. c \<noteq> 0) (n_fcap_inheritable n) in
      (if perm then cap_text ''cap_fp'' (n_fcap_permitted n) else []) @
      (if inh then cap_text ''cap_fi'' (n_fcap_inheritable n) else []) @
      (if perm \<or> inh then ascii '' cap_fe='' @ dec (if n_fcap_fE n then 1 else 0) @ ascii '' cap_fver='' @ radix 16 (unat (n_fcap_ver n))
       else []))"

lemma writes_opt: "(b \<Longrightarrow> writes A {t} f) \<Longrightarrow> writes A {if b then t else []} (\<lambda>ab w. if b then f ab w else Some (ab, w))"
  using writes_nothing [of A] by (cases b) (simp_all add: eta_contract_eq)

lemma writes_fcaps: "writes A {fcaps_text n} (audit_log_fcaps A n)"
  using writes_then [OF writes_opt [OF writes_cap] writes_then [OF writes_opt [OF writes_cap] writes_opt [OF writes_format]],
      of A "list_ex (\<lambda>c. c \<noteq> 0) (n_fcap_permitted n)" "''cap_fp''" "n_fcap_permitted n"
        "list_ex (\<lambda>c. c \<noteq> 0) (n_fcap_inheritable n)" "''cap_fi''" "n_fcap_inheritable n"
        "list_ex (\<lambda>c. c \<noteq> 0) (n_fcap_permitted n) \<or> list_ex (\<lambda>c. c \<noteq> 0) (n_fcap_inheritable n)"
        "ascii '' cap_fe='' @ dec (if n_fcap_fE n then 1 else 0) @ ascii '' cap_fver='' @ radix 16 (unat (n_fcap_ver n))"]
  by (simp add: fcaps_text_def audit_log_fcaps_def [abs_def] Let_def)

text \<open>What an entry reports, \<open>None\<close> when it has no name or its path fails; entries the list may hold.\<close>

definition name_ok :: "(nat \<Rightarrow> byte list) \<Rightarrow> audit_names \<Rightarrow> bool" where
  "name_ok fname n \<longleftrightarrow> (\<forall>k. n_name n = Some k \<longrightarrow> n_len n = AUDIT_NAME_FULL \<or> 0 \<le> n_len n \<and> n_len n \<le> int (length (fname k)))"

definition reported :: "(nat \<Rightarrow> byte list) \<Rightarrow> path \<Rightarrow> audit_names \<Rightarrow> path option \<Rightarrow> byte list option" where
  "reported fname pwd n p =
     (case p of
        Some q \<Rightarrow> q
      | None \<Rightarrow>
          (case n_name n of
             None \<Rightarrow> None
           | Some k \<Rightarrow> if n_len n = AUDIT_NAME_FULL then Some (fname k) else if n_len n = 0 then pwd else Some (take (nat (n_len n)) (fname k))))"

definition name_value :: "(nat \<Rightarrow> byte list) \<Rightarrow> path \<Rightarrow> audit_names \<Rightarrow> path option \<Rightarrow> byte list" where
  "name_value fname pwd n p =
     (if p = None \<and> n_name n = None then ascii ''(null)'' else path_text (reported fname pwd n p))"

lemma writes_field: "writes A {t @ untrusted_text v} (\<lambda>ab w. do { (ab, w) \<leftarrow> audit_log_format A t ab w; audit_log_n_untrustedstring A v ab w })"
  using writes_then [OF writes_format writes_untrusted, of A t v] by simp

lemma writes_entry_name:
  assumes "name_ok fname n"
  shows "writes A {ascii '' name='' @ name_value fname pwd n p} (log_entry_name A fname pwd n p :: abuf option \<Rightarrow> 'z aw \<Rightarrow> _)"
proof -
  have "writes A {ascii '' name=(null)''} (log_entry_name A fname pwd n p :: abuf option \<Rightarrow> 'z aw \<Rightarrow> _)" if "p = None" "n_name n = None"
    using writes_format that by (simp add: log_entry_name_def [abs_def] eta_contract_eq)
  moreover have "ascii '' name=(null)'' = ascii '' name='' @ ascii ''(null)''" by (simp add: ascii_def)
  moreover have "writes A {ascii '' name='' @ path_text (reported fname pwd n p)} (log_entry_name A fname pwd n p :: abuf option \<Rightarrow> 'z aw \<Rightarrow> _)"
    if "\<not> (p = None \<and> n_name n = None)"
    using that assms writes_d_path [of A "ascii '' name=''"] writes_field [of A "ascii '' name=''"]
    by (cases p; cases "n_name n") (auto simp: log_entry_name_def [abs_def] reported_def path_text_def name_ok_def eta_contract_eq)
  ultimately show ?thesis by (simp add: name_value_def split: if_splits)
qed

section \<open>Records of paths\<close>

definition osid_texts :: "audit_env \<Rightarrow> u32 \<Rightarrow> byte list set" where
  "osid_texts A osid =
     (if osid = 0 then {[]}
      else insert (ascii '' osid='' @ udec osid) {ascii '' obj='' @ snd (secctx A n osid) | n. fst (secctx A n osid) = 0})"

lemma tick_rec: "tick w = (n, w1) \<Longrightarrow> rec_ok A B ab w \<Longrightarrow> rec_ok A B ab w1"
  by (simp add: rec_ok_def frame_pool(1) [OF tick_frame])

lemma wrote_tick: "tick w = (n, w1) \<Longrightarrow> wrote A B T ab w1 ab' w' \<Longrightarrow> wrote A B T ab w ab' w'"
  by (auto simp: wrote_def log_frame_fields(9) [OF tick_frame] intro: log_frame_trans tick_frame)

lemma log_osid_ok:
  assumes "rec_ok A B ab w" and "ab \<noteq> None"
  shows "ok (log_osid A osid ab w) (\<lambda>(c, ab', w'). wrote A B (osid_texts A osid) ab w ab' w')"
proof (cases "osid = 0")
  case True
  then show ?thesis using assms by (simp add: log_osid_def osid_texts_def wrote_def)
next
  case False
  obtain n w1 where t: "tick w = (n, w1)" by (metis prod.exhaust)
  obtain e ctx where s: "secctx A n osid = (e, ctx)" by (metis prod.exhaust)
  note r = tick_rec [OF t assms(1)]
  have f: "ok (audit_log_format A x ab w1) (\<lambda>(ab', w'). wrote A B (osid_texts A osid) ab w ab' w')"
    if "x \<in> osid_texts A osid" for x
    using that by (intro ok_mono [OF writesD [OF writes_format r assms(2)]]) (auto intro: wrote_tick [OF t] wrote_mono)
  have "e = 0 \<Longrightarrow> ascii '' obj='' @ ctx \<in> osid_texts A osid" and o: "ascii '' osid='' @ udec osid \<in> osid_texts A osid"
    using False s by (auto simp: osid_texts_def intro!: exI [of _ n])
  with f [OF o] f [of "ascii '' obj='' @ ctx"] show ?thesis using False t s
    by (auto simp: log_osid_def ok_bind elim!: ok_mono)
qed

text \<open>The texts of an \<open>AUDIT_PATH\<close> record behind its stamp.\<close>

definition path_record :: "audit_env \<Rightarrow> (nat \<Rightarrow> byte list) \<Rightarrow> path \<Rightarrow> audit_names \<Rightarrow> path option \<Rightarrow> nat \<Rightarrow> byte list set" where
  "path_record A fname pwd n p record_num =
     {ascii ''item='' @ dec record_num @ ascii '' name='' @ name_value fname pwd n p @
      (if n_ino n \<noteq> AUDIT_INO_UNSET then inode_text n else []) @ obj @
      ascii '' nametype='' @ ascii (nametype (n_type n)) @ fcaps_text n | obj. obj \<in> osid_texts A (n_osid n)}"

lemma writes_head:
  assumes "name_ok fname n"
  shows "writes A {ascii ''item='' @ dec k @ ascii '' name='' @ name_value fname pwd n p @ (if n_ino n \<noteq> AUDIT_INO_UNSET then inode_text n else [])}
    (\<lambda>ab w. do {
       (ab, w) \<leftarrow> audit_log_format A (ascii ''item='' @ dec k) ab w;
       (ab, w) \<leftarrow> log_entry_name A fname pwd n p ab w;
       (if n_ino n \<noteq> AUDIT_INO_UNSET then audit_log_format A (inode_text n) ab w else Some (ab, w))
     })"
  using writes_then [OF writes_format writes_then [OF writes_entry_name [OF assms] writes_opt [OF writes_format]],
      of A "ascii ''item='' @ dec k" pwd p "n_ino n \<noteq> AUDIT_INO_UNSET" "inode_text n"] by simp

lemma writes_tail:
  "writes A {ascii '' nametype='' @ ascii (nametype (n_type n)) @ fcaps_text n}
    (\<lambda>ab w. do {
       (ab, w) \<leftarrow> audit_log_format A (ascii '' nametype='') ab w;
       (ab, w) \<leftarrow> audit_log_format A (ascii (nametype (n_type n))) ab w;
       audit_log_fcaps A n ab w
     })"
  using writes_then [OF writes_format writes_then [OF writes_format writes_fcaps],
      of A "ascii '' nametype=''" "ascii (nametype (n_type n))" n] by simp

lemma name_fields_ok:
  assumes "rec_ok A B ab w" and "ab \<noteq> None" and "name_ok fname n"
  shows "ok (name_fields A fname pwd n p k ab w) (\<lambda>(c, ab', w'). wrote A B (path_record A fname pwd n p k) ab w ab' w')"
proof -
  define pre where "pre = ascii ''item='' @ dec k @ ascii '' name='' @ name_value fname pwd n p @ (if n_ino n \<noteq> AUDIT_INO_UNSET then inode_text n else [])"
  define post where "post = ascii '' nametype='' @ ascii (nametype (n_type n)) @ fcaps_text n"
  from writesD [OF writes_head [OF assms(3), of A k pwd p] assms(1,2)] obtain ab1 w1
    where 1: "do {
       (ab, w) \<leftarrow> audit_log_format A (ascii ''item='' @ dec k) ab w;
       (ab, w) \<leftarrow> log_entry_name A fname pwd n p ab w;
       (if n_ino n \<noteq> AUDIT_INO_UNSET then audit_log_format A (inode_text n) ab w else Some (ab, w))
     } = Some (ab1, w1)" and p1: "wrote A B {pre} ab w ab1 w1"
    unfolding pre_def by (auto elim!: okE)
  have r1: "rec_ok A B ab1 w1" "ab1 \<noteq> None" using p1 by (simp_all add: wrote_def)
  from log_osid_ok [OF this, of "n_osid n"] obtain c ab2 w2 where 2: "log_osid A (n_osid n) ab1 w1 = Some (c, ab2, w2)"
    and p2: "wrote A B (osid_texts A (n_osid n)) ab1 w1 ab2 w2" by (auto elim!: okE)
  have r2: "rec_ok A B ab2 w2" "ab2 \<noteq> None" using p2 by (simp_all add: wrote_def)
  from writesD [OF writes_tail [of A n] this] obtain ab3 w3 where 3: "do {
       (ab, w) \<leftarrow> audit_log_format A (ascii '' nametype='') ab2 w2;
       (ab, w) \<leftarrow> audit_log_format A (ascii (nametype (n_type n))) ab w;
       audit_log_fcaps A n ab w
     } = Some (ab3, w3)" and p3: "wrote A B {post} ab2 w2 ab3 w3"
    unfolding post_def by (auto elim!: okE)
  have "followed {pre} (followed (osid_texts A (n_osid n)) {post}) \<subseteq> path_record A fname pwd n p k"
    by (auto simp: followed_def path_record_def pre_def post_def)
  with wrote_trans [OF p1 wrote_trans [OF p2 p3]] have "wrote A B (path_record A fname pwd n p k) ab w ab3 w3"
    by (rule wrote_mono)
  moreover have "name_fields A fname pwd n p k ab w = Some (c, ab3, w3)"
    using 1 2 3 by (auto simp: name_fields_def bind_eq_Some_conv simp del: not_None_eq split del: if_split)
  ultimately show ?thesis by simp
qed

section \<open>Whole records\<close>

lemma start_rec:
  assumes "pool_ok A B w" and "quiet_stamp stamp"
  shows "ok (audit_log_start A stamp r type w) (\<lambda>(ab, w'). rec_ok A B ab w')"
  by (rule ok_mono [OF audit_log_start_ok [OF assms]])
    (auto simp: started_def rec_ok_def opt_ids_def progress_def split: option.splits)

lemma end_rec:
  assumes "rec_ok A B ab w"
  shows "ok (audit_log_end A ab w) (pool_ok A B)"
proof (cases ab)
  case None
  then show ?thesis using assms by (simp add: audit_log_end_def rec_ok_def opt_ids_def)
next
  case (Some a)
  then obtain s where "ab_skb a = Some s" and "pool_ok A (B + buf_ids a) w" using assms by (auto simp: rec_ok_def opt_ids_def)
  from audit_log_end_ok [OF this(2,1)] show ?thesis by (auto simp: Some progress_def elim!: ok_mono)
qed

lemma audit_log_name_ok:
  assumes "pool_ok A B w" and "quiet_stamp stamp" and "name_ok fname n"
  shows "ok (audit_log_name A stamp fname pwd n p k w) (\<lambda>(c, w'). pool_ok A B w')"
proof -
  from start_rec [OF assms(1,2), of True AUDIT_PATH] obtain ab w1 where 1: "audit_log_start A stamp True AUDIT_PATH w = Some (ab, w1)"
    and r: "rec_ok A B ab w1" by (auto elim!: okE)
  show ?thesis
  proof (cases "ab = None")
    case True
    then show ?thesis using 1 r by (simp add: audit_log_name_def rec_ok_def opt_ids_def)
  next
    case False
    from name_fields_ok [OF r False assms(3), of pwd p k] obtain c ab2 w2
      where 2: "name_fields A fname pwd n p k ab w1 = Some (c, ab2, w2)" and "rec_ok A B ab2 w2"
      by (auto simp: wrote_def elim!: okE)
    from end_rec [OF this(2)] show ?thesis using 1 2 False by (auto simp: audit_log_name_def ok_bind elim!: ok_mono)
  qed
qed

text \<open>
  C30: the record of a path names the file. When the daemon is there, nothing is limited and
  memory suffices, \<open>audit_log_name\<close> queues one record; behind the stamp its \<open>name\<close> field
  holds a value that a reader decodes to the path given, the whole name, the name's
  directory part or the working directory, as the entry asks, whatever bytes it has. No
  buffer is lost on the way.
\<close>

theorem audit_log_name_record:
  assumes "steady A AUDIT_PATH w" and "pool_ok A B w" and "quiet_stamp stamp" and "name_ok fname n"
  shows "ok (audit_log_name A stamp fname pwd n p k w) (\<lambda>(c, w'). pool_ok A B w' \<and> (\<exists>s st v rest.
     skb_queue w' = skb_queue w @ [s] \<and>
     sk_text s = stamp_text st @ ascii ''item='' @ dec k @ ascii '' name='' @ v @ rest \<and>
     (\<forall>x. reported fname pwd n p = Some x \<longrightarrow> decode_value v = Some x)))"
proof -
  have np: "no_panic w" by (rule no_panic_pool [OF assms(2)])
  from start_rec [OF assms(2,3), of True AUDIT_PATH] obtain ab w1 where 1: "audit_log_start A stamp True AUDIT_PATH w = Some (ab, w1)"
    and r: "rec_ok A B ab w1" by (auto elim!: okE)
  from log_start_steady [OF assms(1) np assms(3) 1] obtain a s st
    where a: "ab = Some a" "ab_skb a = Some s" "sk_text s = stamp_text st" and q: "skb_queue w1 = skb_queue w" and s1: "steady A AUDIT_PATH w1"
    by auto
  from name_fields_ok [OF r _ assms(4), of pwd p k] a obtain c ab2 w2
    where 2: "name_fields A fname pwd n p k ab w1 = Some (c, ab2, w2)" and w2: "wrote A B (path_record A fname pwd n p k) ab w1 ab2 w2"
    by (auto elim!: okE)
  have f: "log_frame w1 w2" and r2: "rec_ok A B ab2 w2" and "ab2 \<noteq> None" using w2 by (simp_all add: wrote_def)
  then obtain a2 s2 where a2: "ab2 = Some a2" "ab_skb a2 = Some s2" by (auto simp: rec_ok_def)
  have "\<exists>t \<in> path_record A fname pwd n p k. rec_text ab2 = rec_text ab @ t" using w2 s1 by (simp add: wrote_def steady_def)
  then obtain obj where t: "sk_text s2 = stamp_text st @ ascii ''item='' @ dec k @ ascii '' name='' @ name_value fname pwd n p @ obj"
    using a a2 by (auto simp: rec_text_def path_record_def)
  from end_rec [OF r2] obtain w3 where 3: "audit_log_end A ab2 w2 = Some w3" and p3: "pool_ok A B w3" by (auto elim!: okE)
  have "steady A AUDIT_PATH w2" using s1 f by (simp add: frame_steady)
  from log_end_steady [OF 3 [unfolded a2] a2(2) this] have "skb_queue w3 = skb_queue w @ [s2]"
    using q f by (simp add: log_frame_fields)
  then have "\<exists>s st v rest. skb_queue w3 = skb_queue w @ [s] \<and>
     sk_text s = stamp_text st @ ascii ''item='' @ dec k @ ascii '' name='' @ v @ rest \<and>
     (\<forall>x. reported fname pwd n p = Some x \<longrightarrow> decode_value v = Some x)"
    using t decode_untrusted
    by (intro exI [of _ s2] exI [of _ st] exI [of _ "name_value fname pwd n p"] exI [of _ obj])
      (auto simp: name_value_def path_text_def reported_def)
  moreover have "audit_log_name A stamp fname pwd n p k w = Some (c, w3)" using 1 2 3 a(1) by (simp add: audit_log_name_def)
  ultimately show ?thesis using p3 by (simp del: split_paired_Ex)
qed

lemma task_context_ok:
  assumes "rec_ok A B ab w" and "ab \<noteq> None"
  shows "ok (audit_log_task_context A ab w) (\<lambda>(e, ab', w'). rec_ok A B ab' w' \<and> ab' \<noteq> None)"
proof -
  obtain n w1 where t: "tick w = (n, w1)" by (metis prod.exhaust)
  obtain n2 w2 where t2: "tick w1 = (n2, w2)" by (metis prod.exhaust)
  obtain e ctx where s: "secctx A n2 (getsecid A n) = (e, ctx)" by (metis prod.exhaust)
  note r1 = tick_rec [OF t assms(1)]
  note r2 = tick_rec [OF t2 r1]
  have "ok (audit_panic w2) (\<lambda>w'. w' = w2)"
    using r2 by (auto simp: audit_panic_def rec_ok_def no_panic_def dest!: no_panic_pool)
  moreover have "ok (audit_log_format A (ascii '' subj='' @ ctx) ab w2) (\<lambda>(ab', w'). rec_ok A B ab' w' \<and> ab' \<noteq> None)"
    using assms(2) by (intro ok_mono [OF format_rec [OF r2]]) auto
  ultimately show ?thesis using r1 r2 t t2 s assms(2)
    by (auto simp: audit_log_task_context_def ok_bind Let_def elim!: ok_mono)
qed

lemma task_info_ok:
  fixes w :: "'z aw"
  assumes "rec_ok A B ab w" and "ab \<noteq> None"
  shows "ok (audit_log_task_info A t ab w) (\<lambda>(ab', w'). rec_ok A B ab' w' \<and> ab' \<noteq> None)"
proof -
  have exe: "\<exists>T. writes A T (audit_log_d_path_exe A e :: abuf option \<Rightarrow> 'z aw \<Rightarrow> _)" for e
    by (cases e) (auto simp: audit_log_d_path_exe_def [abs_def] eta_contract_eq intro: writes_format writes_d_path)
  then obtain T where T: "writes A T (audit_log_d_path_exe A (tk_exe t) :: abuf option \<Rightarrow> 'z aw \<Rightarrow> _)" by blast
  from writesD [OF writes_then [OF writes_format writes_then [OF writes_format writes_then [OF writes_untrusted T]]] assms,
      of "task_text A t" "ascii '' comm=''" "tk_comm t"]
  show ?thesis using assms(2)
    by (auto simp: audit_log_task_info_def wrote_def ok_bind split_def elim!: ok_mono intro!: ok_mono [OF task_context_ok])
qed

text \<open>
  A denied link is reported without a leak. \<open>audit_log_link_denied\<close> returns in every case
  (its entry, the record of the task and that of the path each fail or succeed on their own)
  and gives back its entry: the objects in use are those before, and the log's own.
\<close>

theorem audit_log_link_denied_no_leak:
  assumes "pool_ok A B w" and "quiet_stamp stamp"
  shows "ok (audit_log_link_denied A stamp fname pwd t operation link dentry i w) (\<lambda>w'. mset (klive w') = B + owned w' \<and> pool_ok A B w')"
proof -
  obtain m w1 where m: "kmalloc 0 w = (m, w1)" by (metis prod.exhaust)
  show ?thesis
  proof (cases m)
    case None
    then have "pool_ok A B w1" using m assms(1) by (auto simp: kmalloc_def pool_ok_def owned_def no_panic_def Let_def split: if_splits)
    then show ?thesis using m None by (simp add: audit_log_link_denied_def pool_ok_def)
  next
    case (Some q)
    obtain k bs where q: "q = (k, bs)" by (cases q)
    have p1: "pool_ok A (B + {#k#}) w1"
      using m Some q assms(1) by (auto simp: kmalloc_def pool_ok_def owned_def no_panic_def Let_def split: if_splits)
    have free: "ok (kfree k w') (\<lambda>w'. mset (klive w') = B + owned w' \<and> pool_ok A B w')" if "pool_ok A (B + {#k#}) w'" for w' :: "'a aw"
      using kfree_pool [OF that] by (auto simp: pool_ok_def elim!: ok_mono)
    from start_rec [OF p1 assms(2), of True AUDIT_ANOM_LINK] obtain ab w2
      where 2: "audit_log_start A stamp True AUDIT_ANOM_LINK w1 = Some (ab, w2)" and r2: "rec_ok A (B + {#k#}) ab w2" by (auto elim!: okE)
    show ?thesis
    proof (cases "ab = None")
      case True
      then show ?thesis using m Some q 2 r2 free by (simp add: audit_log_link_denied_def rec_ok_def opt_ids_def)
    next
      case False
      define n where "n = audit_copy_inode dentry i (zero_name\<lparr>n_type := AUDIT_TYPE_NORMAL\<rparr>)"
      have n: "name_ok fname n" by (simp add: n_def name_ok_def audit_copy_inode_def audit_copy_fcaps_def zero_name_def split: option.splits sum.splits)
      have name: "ok (do { (_, w) \<leftarrow> audit_log_name A stamp fname pwd n (Some link) 0 w'; kfree k w }) (\<lambda>w'. mset (klive w') = B + owned w' \<and> pool_ok A B w')"
        if "pool_ok A (B + {#k#}) w'" for w'
        using audit_log_name_ok [OF that assms(2) n, of pwd "Some link" 0] free by (auto simp: ok_bind split_def elim!: ok_mono)
      from format_rec [OF r2, of "ascii ''op='' @ operation"] obtain ab3 w3
        where 3: "audit_log_format A (ascii ''op='' @ operation) ab w2 = Some (ab3, w3)"
          and r3: "rec_ok A (B + {#k#}) ab3 w3" "ab3 \<noteq> None" using False by (auto elim!: okE)
      from task_info_ok [OF r3, of t] obtain ab4 w4 where 4: "audit_log_task_info A t ab3 w3 = Some (ab4, w4)"
        and r4: "rec_ok A (B + {#k#}) ab4 w4" by (auto elim!: okE)
      from format_rec [OF r4, of "ascii '' res=0''"] obtain ab5 w5
        where 5: "audit_log_format A (ascii '' res=0'') ab4 w4 = Some (ab5, w5)" and r5: "rec_ok A (B + {#k#}) ab5 w5" by (auto elim!: okE)
      from end_rec [OF r5] obtain w6 where 6: "audit_log_end A ab5 w5 = Some w6" and p6: "pool_ok A (B + {#k#}) w6" by (auto elim!: okE)
      from name [OF p6, unfolded n_def] show ?thesis using m Some q 2 False 3 4 5 6
        by (auto simp: audit_log_link_denied_def)
    qed
  qed
qed

section \<open>Concrete instances\<close>

definition some_file :: audit_names where
  "some_file = zero_name\<lparr>n_name := Some 1, n_len := AUDIT_NAME_FULL, n_type := AUDIT_TYPE_NORMAL\<rparr>"

lemma calm_steady: "steady calm_env type calm_world"
  by (simp add: steady_def calm_env_def calm_world_def)

theorem audit_log_name_record_witness:
  "ok (audit_log_name calm_env (fresh_stamp calm_env) (\<lambda>_. [47, 97, 32, 34]) (Some [47]) some_file None 3 calm_world)
    (\<lambda>(c, w'). \<exists>s st v rest. skb_queue w' = [s] \<and>
       sk_text s = stamp_text st @ ascii ''item='' @ dec 3 @ ascii '' name='' @ v @ rest \<and> decode_value v = Some [47, 97, 32, 34])"
proof -
  have "name_ok (\<lambda>_. [47, 97, 32, 34]) some_file"
    and "reported (\<lambda>_. [47, 97, 32, 34]) (Some [47]) some_file None = Some [47, 97, 32, 34]"
    and "skb_queue calm_world = []"
    by (simp_all add: name_ok_def reported_def some_file_def calm_world_def)
  then show ?thesis
    by (intro ok_mono [OF audit_log_name_record [OF calm_steady calm_pool quiet_fresh_stamp]]) fastforce+
qed

theorem audit_log_link_denied_no_leak_witness:
  "ok (audit_log_link_denied calm_env (fresh_stamp calm_env) (\<lambda>_. []) (Some [47])
      \<lparr>tk_ppid = 1, tk_pid = 7, tk_uid = 0, tk_gid = 0, tk_euid = 0, tk_suid = 0, tk_fsuid = 0, tk_egid = 0, tk_sgid = 0, tk_fsgid = 0,
        tk_tty = None, tk_comm = [108, 110], tk_exe = Some (Some [47])\<rparr>
      (ascii ''follow_link'') (Some [47, 97]) None
      \<lparr>i_ino = 5, i_dev = 0, i_mode = 0, i_uid = 0, i_gid = 0, i_rdev = 0, i_sid = 0\<rparr> calm_world)
    (\<lambda>w'. mset (klive w') = owned w')"
  by (rule ok_mono [OF audit_log_link_denied_no_leak [OF calm_pool quiet_fresh_stamp]]) simp

end
