(* ===== verification/AuditConfig.thy ===== *)
theory AuditConfig
  imports AuditRecord
begin

text \<open>
  The control side of \<open>audit.c\<close>: settings and their log, the features with their locks,
  replies with their threads, and the messages of the netlink socket from the headers in the
  socket buffer (\<open>audit_receive\<close>) to their handlers (\<open>audit_receive_msg\<close>). The mutex that serialises
  requests is the order of the steps. Lists of rules, directory trees, the terminal and the filter
  for user messages are other files of the kernel and parameters here.
\<close>

unbundle bit_operations_syntax

section \<open>State and outside\<close>

text \<open>
  Beside the variables of the log: the features and their locks, the tty switches of the
  caller, whether the daemon's thread runs, the daemon's port; the replies whose thread has
  not run yet (its object, the socket buffer, the port, the type, the payload), the replies
  and acknowledgements sent, latest first, and the rule changes that were asked for.
\<close>

type_synonym reply = "nat \<times> nat \<times> u32 \<times> nat \<times> byte list"

record cfg_world = audit_world +
  af_features :: u32
  af_lock :: u32
  audit_tty :: u32
  kauditd_started :: bool
  nlk_portid :: u32
  sig_uid :: u32
  sig_pid :: u32
  sig_sid :: u32
  reply_threads :: "reply list"
  replies :: "(u32 \<times> nat \<times> byte list) list"
  acks :: "(u32 \<times> int) list"
  rule_changes :: "(nat \<times> byte list) list"

type_synonym 'z cw = "'z cfg_world_scheme"

text \<open>
  The caller: its namespaces, capabilities, number and the description of the task. The other
  parts of the kernel, asked by the number of the call: starting a thread (0 or an error),
  the filter for user messages, the terminal, the rules, the directory trees, and reading a
  string out of a message (\<open>audit_unpack_string\<close>: an error or the string).
\<close>

record cfg_env = audit_env +
  init_user_ns :: bool
  init_pid_ns :: bool
  cap_control :: bool
  cap_write :: bool
  cur_vnr :: int
  feature_bitmap :: u32
  cur_uid :: u32
  cur_task :: task
  kthread_run :: "nat \<Rightarrow> int"
  filter_user :: "nat \<Rightarrow> nat \<Rightarrow> int"
  tty_push :: "nat \<Rightarrow> int"
  rule_change :: "nat \<Rightarrow> int"
  list_rules :: "nat \<Rightarrow> int"
  tag_tree :: "nat \<Rightarrow> int"
  unpack :: "byte list \<Rightarrow> u32 \<Rightarrow> int + byte list"

abbreviation log_env :: "cfg_env \<Rightarrow> audit_env" where
  "log_env C \<equiv> audit_env.truncate C"

text \<open>Numbers and layouts of \<open>linux/audit.h\<close> and \<open>linux/netlink.h\<close>.\<close>

abbreviation AUDIT_GET :: nat where "AUDIT_GET \<equiv> 1000"
abbreviation AUDIT_SET :: nat where "AUDIT_SET \<equiv> 1001"
abbreviation AUDIT_LIST :: nat where "AUDIT_LIST \<equiv> 1002"
abbreviation AUDIT_ADD :: nat where "AUDIT_ADD \<equiv> 1003"
abbreviation AUDIT_DEL :: nat where "AUDIT_DEL \<equiv> 1004"
abbreviation AUDIT_USER :: nat where "AUDIT_USER \<equiv> 1005"
abbreviation AUDIT_SIGNAL_INFO :: nat where "AUDIT_SIGNAL_INFO \<equiv> 1010"
abbreviation AUDIT_ADD_RULE :: nat where "AUDIT_ADD_RULE \<equiv> 1011"
abbreviation AUDIT_DEL_RULE :: nat where "AUDIT_DEL_RULE \<equiv> 1012"
abbreviation AUDIT_LIST_RULES :: nat where "AUDIT_LIST_RULES \<equiv> 1013"
abbreviation AUDIT_TRIM :: nat where "AUDIT_TRIM \<equiv> 1014"
abbreviation AUDIT_MAKE_EQUIV :: nat where "AUDIT_MAKE_EQUIV \<equiv> 1015"
abbreviation AUDIT_TTY_GET :: nat where "AUDIT_TTY_GET \<equiv> 1016"
abbreviation AUDIT_TTY_SET :: nat where "AUDIT_TTY_SET \<equiv> 1017"
abbreviation AUDIT_SET_FEATURE :: nat where "AUDIT_SET_FEATURE \<equiv> 1018"
abbreviation AUDIT_GET_FEATURE :: nat where "AUDIT_GET_FEATURE \<equiv> 1019"
abbreviation AUDIT_REPLACE :: nat where "AUDIT_REPLACE \<equiv> 1049"
abbreviation AUDIT_USER_AVC :: nat where "AUDIT_USER_AVC \<equiv> 1107"
abbreviation AUDIT_USER_TTY :: nat where "AUDIT_USER_TTY \<equiv> 1124"
abbreviation NLMSG_HDRLEN :: nat where "NLMSG_HDRLEN \<equiv> 16"
abbreviation sizeof_status :: nat where "sizeof_status \<equiv> 40"
abbreviation sizeof_features :: nat where "sizeof_features \<equiv> 16"
abbreviation sizeof_tty_status :: nat where "sizeof_tty_status \<equiv> 8"
abbreviation sizeof_rule_data :: nat where "sizeof_rule_data \<equiv> 1040"

abbreviation AUDIT_LAST_FEATURE :: nat where "AUDIT_LAST_FEATURE \<equiv> 1"
abbreviation AUDIT_MESSAGE_TEXT_MAX :: nat where "AUDIT_MESSAGE_TEXT_MAX \<equiv> 8560"

text \<open>The ranges \<open>AUDIT_FIRST_USER_MSG ... AUDIT_LAST_USER_MSG\<close> and their second kind.\<close>

definition user_message :: "nat \<Rightarrow> bool" where
  "user_message t \<longleftrightarrow> t = AUDIT_USER \<or> 1100 \<le> t \<and> t \<le> 1199 \<or> 2100 \<le> t \<and> t \<le> 2999"

section \<open>Settings\<close>

datatype setting = Enabled | Failure | Rate_limit | Backlog_limit | Wait_time

primrec get_setting :: "setting \<Rightarrow> 'z aw \<Rightarrow> u32" where
  "get_setting Enabled w = audit_enabled w"
| "get_setting Failure w = audit_failure w"
| "get_setting Rate_limit w = audit_rate_limit w"
| "get_setting Backlog_limit w = audit_backlog_limit w"
| "get_setting Wait_time w = audit_wait_master w"

primrec put_setting :: "setting \<Rightarrow> u32 \<Rightarrow> 'z aw \<Rightarrow> 'z aw" where
  "put_setting Enabled v w = w\<lparr>audit_enabled := v\<rparr>"
| "put_setting Failure v w = w\<lparr>audit_failure := v\<rparr>"
| "put_setting Rate_limit v w = w\<lparr>audit_rate_limit := v\<rparr>"
| "put_setting Backlog_limit v w = w\<lparr>audit_backlog_limit := v\<rparr>"
| "put_setting Wait_time v w = w\<lparr>audit_wait_master := v\<rparr>"

primrec setting_name :: "setting \<Rightarrow> string" where
  "setting_name Enabled = ''audit_enabled''"
| "setting_name Failure = ''audit_failure''"
| "setting_name Rate_limit = ''audit_rate_limit''"
| "setting_name Backlog_limit = ''audit_backlog_limit''"
| "setting_name Wait_time = ''audit_backlog_wait_time''"

definition audit_log_config_change :: "audit_env \<Rightarrow> string \<Rightarrow> u32 \<Rightarrow> u32 \<Rightarrow> bool \<Rightarrow> 'z aw \<Rightarrow> (int \<times> 'z aw) option" where
  "audit_log_config_change A name new old allow_changes w = do {
     (ab, w) \<leftarrow> audit_log_start A (fresh_stamp A) True AUDIT_CONFIG_CHANGE w;
     (if ab = None then Some (0, w)
      else do {
        (ab, w) \<leftarrow> audit_log_format A (ascii name @ ascii ''='' @ udec new @ ascii '' old='' @ udec old) ab w;
        (ab, w) \<leftarrow> audit_log_session_info A ab w;
        (rc, ab, w) \<leftarrow> audit_log_task_context A ab w;
        (ab, w) \<leftarrow> audit_log_format A (ascii '' res='' @ dec (if rc = 0 \<and> allow_changes then 1 else 0)) ab w;
        w \<leftarrow> audit_log_end A ab w;
        Some (rc, w)
      })
   }"

definition audit_do_config_change :: "audit_env \<Rightarrow> setting \<Rightarrow> u32 \<Rightarrow> 'z aw \<Rightarrow> (int \<times> 'z aw) option" where
  "audit_do_config_change A x new w =
     (let old = get_setting x w; allow_changes = audit_enabled w \<noteq> AUDIT_LOCKED in do {
        (rc, w) \<leftarrow> (if audit_enabled w \<noteq> AUDIT_OFF then audit_log_config_change A (setting_name x) new old allow_changes w
                    else Some (0, w));
        (if rc = 0 \<and> allow_changes then Some (rc, put_setting x new w)
         else Some (if rc = 0 then - EPERM else rc, w))
      })"

definition audit_set_rate_limit :: "audit_env \<Rightarrow> u32 \<Rightarrow> 'z aw \<Rightarrow> (int \<times> 'z aw) option" where
  "audit_set_rate_limit A = audit_do_config_change A Rate_limit"

definition audit_set_backlog_limit :: "audit_env \<Rightarrow> u32 \<Rightarrow> 'z aw \<Rightarrow> (int \<times> 'z aw) option" where
  "audit_set_backlog_limit A = audit_do_config_change A Backlog_limit"

definition audit_set_backlog_wait_time :: "audit_env \<Rightarrow> u32 \<Rightarrow> 'z aw \<Rightarrow> (int \<times> 'z aw) option" where
  "audit_set_backlog_wait_time A = audit_do_config_change A Wait_time"

definition audit_set_enabled :: "audit_env \<Rightarrow> u32 \<Rightarrow> 'z aw \<Rightarrow> (int \<times> 'z aw) option" where
  "audit_set_enabled A state w =
     (if state > AUDIT_LOCKED then Some (- EINVAL, w)
      else do {
        (rc, w) \<leftarrow> audit_do_config_change A Enabled state w;
        Some (rc, if rc = 0 then w\<lparr>audit_ever_enabled := audit_ever_enabled w OR (if state \<noteq> 0 then 1 else 0)\<rparr> else w)
      })"

definition audit_set_failure :: "audit_env \<Rightarrow> u32 \<Rightarrow> 'z aw \<Rightarrow> (int \<times> 'z aw) option" where
  "audit_set_failure A state w =
     (if state \<noteq> AUDIT_FAIL_SILENT \<and> state \<noteq> AUDIT_FAIL_PRINTK \<and> state \<noteq> AUDIT_FAIL_PANIC then Some (- EINVAL, w)
      else audit_do_config_change A Failure state w)"

section \<open>Replies\<close>

text \<open>
  A socket buffer with a message. The sizes are small, so \<open>nlmsg_put\<close> finds the room the
  allocation was made for. Sending a socket buffer gives it away.
\<close>

definition audit_make_reply :: "'z cw \<Rightarrow> nat option \<times> 'z cw" where
  "audit_make_reply w = (case kmalloc 0 w of (None, w) \<Rightarrow> (None, w) | (Some (k, _), w) \<Rightarrow> (Some k, w))"

definition netlink_unicast :: "cfg_env \<Rightarrow> nat \<Rightarrow> 'z cw \<Rightarrow> (int \<times> 'z cw) option" where
  "netlink_unicast C skb w = (let (n, w) = tick w in do { w \<leftarrow> kfree skb w; Some (unicast C n, w) })"

definition audit_send_reply_thread :: "cfg_env \<Rightarrow> 'z cw \<Rightarrow> 'z cw option" where
  "audit_send_reply_thread C w =
     (case reply_threads w of
        [] \<Rightarrow> Some w
      | (reply, skb, portid, type, payload) # rs \<Rightarrow> do {
          (err, w) \<leftarrow> netlink_unicast C skb (w\<lparr>reply_threads := rs\<rparr>);
          kfree reply (if err < 0 then w else w\<lparr>replies := (portid, type, payload) # replies w\<rparr>)
        })"

definition audit_send_reply :: "cfg_env \<Rightarrow> u32 \<Rightarrow> nat \<Rightarrow> byte list \<Rightarrow> 'z cw \<Rightarrow> 'z cw option" where
  "audit_send_reply C portid type payload w =
     (case kmalloc 0 w of
        (None, w) \<Rightarrow> Some w
      | (Some (reply, _), w) \<Rightarrow>
          (case audit_make_reply w of
             (None, w) \<Rightarrow> kfree reply w
           | (Some skb, w) \<Rightarrow>
               (let (n, w) = tick w in
                if kthread_run C n = 0 then Some (w\<lparr>reply_threads := reply_threads w @ [(reply, skb, portid, type, payload)]\<rparr>)
                else do { w \<leftarrow> kfree skb w; kfree reply w })))"

section \<open>Who may send what\<close>

definition audit_netlink_ok :: "cfg_env \<Rightarrow> nat \<Rightarrow> int" where
  "audit_netlink_ok C msg_type =
     (if \<not> init_user_ns C then - ECONNREFUSED
      else if msg_type \<in> {AUDIT_LIST, AUDIT_ADD, AUDIT_DEL} then - EOPNOTSUPP
      else if msg_type \<in> {AUDIT_GET, AUDIT_SET, AUDIT_GET_FEATURE, AUDIT_SET_FEATURE, AUDIT_LIST_RULES, AUDIT_ADD_RULE, AUDIT_DEL_RULE,
          AUDIT_SIGNAL_INFO, AUDIT_TTY_GET, AUDIT_TTY_SET, AUDIT_TRIM, AUDIT_MAKE_EQUIV} then
        (if \<not> init_pid_ns C then - EPERM else if \<not> cap_control C then - EPERM else 0)
      else if user_message msg_type then (if \<not> cap_write C then - EPERM else 0)
      else - EINVAL)"

definition audit_log_common_recv_msg :: "cfg_env \<Rightarrow> nat \<Rightarrow> 'z cw \<Rightarrow> (abuf option \<times> 'z cw) option" where
  "audit_log_common_recv_msg C msg_type w =
     (let A = log_env C in
      if audit_enabled w = AUDIT_OFF \<and> msg_type \<noteq> AUDIT_USER_AVC then Some (None, w)
      else do {
        (ab, w) \<leftarrow> audit_log_start A (fresh_stamp A) True msg_type w;
        (if ab = None then Some (ab, w)
         else do {
           (ab, w) \<leftarrow> audit_log_format A (ascii ''pid='' @ signed_dec (cur_tgid C) @ ascii '' uid='' @ udec (cur_uid C)) ab w;
           (ab, w) \<leftarrow> audit_log_session_info A ab w;
           (_, ab, w) \<leftarrow> audit_log_task_context A ab w;
           Some (ab, w)
         })
      })"

text \<open>A record with the common part and a text.\<close>

definition log_received :: "cfg_env \<Rightarrow> nat \<Rightarrow> byte list \<Rightarrow> 'z cw \<Rightarrow> 'z cw option" where
  "log_received C msg_type t w = do {
     (ab, w) \<leftarrow> audit_log_common_recv_msg C msg_type w;
     (ab, w) \<leftarrow> audit_log_format (log_env C) t ab w;
     audit_log_end (log_env C) ab w
   }"

section \<open>Features\<close>

definition feature_mask :: "nat \<Rightarrow> u32" where
  "feature_mask i = push_bit (i mod 32) 1"

definition audit_feature_names :: "string list" where
  "audit_feature_names = [''only_unset_loginuid'', ''loginuid_immutable'']"

definition is_audit_feature_set :: "nat \<Rightarrow> 'z cw \<Rightarrow> bool" where
  "is_audit_feature_set i w \<longleftrightarrow> af_features w AND feature_mask i \<noteq> 0"

definition audit_get_feature :: "cfg_env \<Rightarrow> u32 \<Rightarrow> 'z cw \<Rightarrow> 'z cw option" where
  "audit_get_feature C portid w =
     audit_send_reply C portid AUDIT_GET_FEATURE (le32_bytes 1 @ le32_bytes (- 1) @ le32_bytes (af_features w) @ le32_bytes (af_lock w)) w"

definition bool_dec :: "u32 \<Rightarrow> byte list" where
  "bool_dec v = dec (if v \<noteq> 0 then 1 else 0)"

definition audit_log_feature_change :: "cfg_env \<Rightarrow> nat \<Rightarrow> u32 \<Rightarrow> u32 \<Rightarrow> u32 \<Rightarrow> u32 \<Rightarrow> nat \<Rightarrow> 'z cw \<Rightarrow> 'z cw option" where
  "audit_log_feature_change C which old_feature new_feature old_lock new_lock res w =
     (let A = log_env C in
      if audit_enabled w = AUDIT_OFF then Some w
      else do {
        (ab, w) \<leftarrow> audit_log_start A (fresh_stamp A) True AUDIT_FEATURE_CHANGE w;
        (ab, w) \<leftarrow> audit_log_task_info A (cur_task C) ab w;
        (ab, w) \<leftarrow> audit_log_format A (ascii '' feature='' @ ascii (audit_feature_names ! which) @ ascii '' old='' @ bool_dec old_feature @
          ascii '' new='' @ bool_dec new_feature @ ascii '' old_lock='' @ bool_dec old_lock @ ascii '' new_lock='' @ bool_dec new_lock @
          ascii '' res='' @ dec res) ab w;
        audit_log_end A ab w
      })"

text \<open>The request: its mask, features and lock. The first pass only looks for a locked feature.\<close>

type_synonym features = "u32 \<times> u32 \<times> u32"

primrec feature_check :: "cfg_env \<Rightarrow> features \<Rightarrow> nat list \<Rightarrow> 'z cw \<Rightarrow> (int \<times> 'z cw) option" where
  "feature_check C uaf [] w = Some (0, w)"
| "feature_check C uaf (i # is) w =
     (let (mask, features, lock) = uaf; feature = feature_mask i;
          old_feature = af_features w AND feature; new_feature = features AND feature;
          new_lock = (lock OR af_lock w) AND feature; old_lock = af_lock w AND feature in
      if feature AND mask = 0 then feature_check C uaf is w
      else if old_lock \<noteq> 0 \<and> new_feature \<noteq> old_feature then do {
        w \<leftarrow> audit_log_feature_change C i old_feature new_feature old_lock new_lock 0 w;
        Some (- EPERM, w)
      }
      else feature_check C uaf is w)"

primrec feature_apply :: "cfg_env \<Rightarrow> features \<Rightarrow> nat list \<Rightarrow> 'z cw \<Rightarrow> 'z cw option" where
  "feature_apply C uaf [] w = Some w"
| "feature_apply C uaf (i # is) w =
     (let (mask, features, lock) = uaf; feature = feature_mask i;
          old_feature = af_features w AND feature; new_feature = features AND feature;
          old_lock = af_lock w AND feature; new_lock = (lock OR af_lock w) AND feature in
      if feature AND mask = 0 then feature_apply C uaf is w
      else do {
        w \<leftarrow> (if new_feature \<noteq> old_feature then audit_log_feature_change C i old_feature new_feature old_lock new_lock 1 w else Some w);
        let w = w\<lparr>af_features := (if new_feature \<noteq> 0 then af_features w OR feature else af_features w AND NOT feature),
                  af_lock := af_lock w OR new_lock\<rparr>;
        feature_apply C uaf is w
      })"

text \<open>The request is read from the first message of the socket buffer, whichever is at hand.\<close>

definition audit_set_feature :: "cfg_env \<Rightarrow> byte list \<Rightarrow> 'z cw \<Rightarrow> (int \<times> 'z cw) option" where
  "audit_set_feature C skb w = do {
     uaf \<leftarrow> buf_read skb NLMSG_HDRLEN sizeof_features;
     let uaf = (le32_at uaf 4, le32_at uaf 8, le32_at uaf 12);
     (err, w) \<leftarrow> feature_check C uaf [0..<Suc AUDIT_LAST_FEATURE] w;
     (if err \<noteq> 0 then Some (err, w)
      else do { w \<leftarrow> feature_apply C uaf [0..<Suc AUDIT_LAST_FEATURE] w; Some (0, w) })
   }"

section \<open>Status\<close>

text \<open>A request shorter than the structure is completed with zeros, a longer one is cut.\<close>

definition guarded_copy :: "nat \<Rightarrow> byte list \<Rightarrow> byte list" where
  "guarded_copy n payload = take n payload @ replicate (n - length payload) 0"

definition audit_replace :: "cfg_env \<Rightarrow> 'z cw \<Rightarrow> (int \<times> 'z cw) option" where
  "audit_replace C w =
     (case audit_make_reply w of (None, w) \<Rightarrow> Some (- ENOMEM, w) | (Some skb, w) \<Rightarrow> netlink_unicast C skb w)"

definition audit_get_status :: "cfg_env \<Rightarrow> u32 \<Rightarrow> 'z cw \<Rightarrow> 'z cw option" where
  "audit_get_status C portid w =
     audit_send_reply C portid AUDIT_GET (concat (map le32_bytes
       [0, audit_enabled w, audit_failure w, of_int (audit_pid w), audit_rate_limit w, audit_backlog_limit w,
        of_nat (audit_lost w), of_nat (length (skb_queue w)), feature_bitmap C, audit_wait_master w])) w"

text \<open>A step of the request, done when its bit is in the mask; an error ends the request.\<close>

definition status_step :: "bool \<Rightarrow> ('z cw \<Rightarrow> (int \<times> 'z cw) option) \<Rightarrow> ('z cw \<Rightarrow> (int \<times> 'z cw) option) \<Rightarrow> 'z cw \<Rightarrow> (int \<times> 'z cw) option" where
  "status_step b f g w = (if b then do { (err, w) \<leftarrow> f w; (if err < 0 then Some (err, w) else g w) } else g w)"

definition audit_set_pid :: "cfg_env \<Rightarrow> u32 \<Rightarrow> u32 \<Rightarrow> 'z cw \<Rightarrow> (int \<times> 'z cw) option" where
  "audit_set_pid C portid pid w =
     (let new_pid = sint pid; log = (\<lambda>res w. audit_log_config_change (log_env C) ''audit_pid'' pid (of_int (audit_pid w)) res w) in
      if new_pid = 0 \<and> cur_vnr C \<noteq> audit_pid w then do { (_, w) \<leftarrow> log False w; Some (- EACCES, w) }
      else do {
        (replaced, w) \<leftarrow> (if audit_pid w \<noteq> 0 \<and> new_pid \<noteq> 0 then audit_replace C w else Some (- ECONNREFUSED, w));
        (if replaced \<noteq> - ECONNREFUSED then do { (_, w) \<leftarrow> log False w; Some (- EEXIST, w) }
         else do {
           (_, w) \<leftarrow> (if audit_enabled w \<noteq> AUDIT_OFF then log True w else Some (0, w));
           Some (0, w\<lparr>audit_pid := new_pid, nlk_portid := portid\<rparr>)
         })
      })"

text \<open>The bits of the mask, in the order the steps are taken.\<close>

abbreviation STATUS_ENABLED :: u32 where "STATUS_ENABLED \<equiv> 1"
abbreviation STATUS_FAILURE :: u32 where "STATUS_FAILURE \<equiv> 2"
abbreviation STATUS_PID :: u32 where "STATUS_PID \<equiv> 4"
abbreviation STATUS_RATE_LIMIT :: u32 where "STATUS_RATE_LIMIT \<equiv> 8"
abbreviation STATUS_BACKLOG_LIMIT :: u32 where "STATUS_BACKLOG_LIMIT \<equiv> 16"
abbreviation STATUS_BACKLOG_WAIT_TIME :: u32 where "STATUS_BACKLOG_WAIT_TIME \<equiv> 32"

definition set_wait_time :: "cfg_env \<Rightarrow> nat \<Rightarrow> u32 \<Rightarrow> 'z cw \<Rightarrow> (int \<times> 'z cw) option" where
  "set_wait_time C nlmsg_len t w =
     (if sizeof_status > nlmsg_len then Some (- EINVAL, w)
      else if unat t > 10 * (60 * unat (HZ C)) then Some (- EINVAL, w)
      else audit_set_backlog_wait_time (log_env C) t w)"

definition audit_set_status :: "cfg_env \<Rightarrow> u32 \<Rightarrow> byte list \<Rightarrow> 'z cw \<Rightarrow> (int \<times> 'z cw) option" where
  "audit_set_status C portid payload w =
     (let A = log_env C; s = guarded_copy sizeof_status payload; mask = le32_at s 0; wants = (\<lambda>b. mask AND b \<noteq> 0) in
      status_step (wants STATUS_ENABLED) (audit_set_enabled A (le32_at s 4)) (
      status_step (wants STATUS_FAILURE) (audit_set_failure A (le32_at s 8)) (
      status_step (wants STATUS_PID) (audit_set_pid C portid (le32_at s 12)) (
      status_step (wants STATUS_RATE_LIMIT) (audit_set_rate_limit A (le32_at s 16)) (
      status_step (wants STATUS_BACKLOG_LIMIT) (audit_set_backlog_limit A (le32_at s 20)) (
      status_step (wants STATUS_BACKLOG_WAIT_TIME) (set_wait_time C (NLMSG_HDRLEN + length payload) (le32_at s 36)) (
      (\<lambda>w. Some (0, w)))))))) w)"

section \<open>Messages\<close>

text \<open>
  A text message is printed with \<open>%.*s\<close>: up to its end, at most \<open>AUDIT_MESSAGE_TEXT_MAX\<close>
  bytes of it, wherever the message ends. Reading past the socket buffer is a fault.
\<close>

definition message_text :: "byte list \<Rightarrow> nat \<Rightarrow> byte list option" where
  "message_text skb data =
     (let s = take AUDIT_MESSAGE_TEXT_MAX (drop data skb) in
      if 0 \<in> set s \<or> length s = AUDIT_MESSAGE_TEXT_MAX then Some (takeWhile (\<lambda>b. b \<noteq> 0) s) else None)"

definition tty_text :: "byte list \<Rightarrow> byte list" where
  "tty_text payload = (if payload \<noteq> [] \<and> last payload = 0 then butlast payload else payload)"

definition user_record :: "cfg_env \<Rightarrow> nat \<Rightarrow> byte list \<Rightarrow> nat \<Rightarrow> byte list \<Rightarrow> 'z cw \<Rightarrow> 'z cw option" where
  "user_record C msg_type skb data payload w =
     (let A = log_env C in do {
        (ab, w) \<leftarrow> audit_log_common_recv_msg C msg_type w;
        (ab, w) \<leftarrow> (if msg_type \<noteq> AUDIT_USER_TTY then
            (if ab = None then Some (ab, w)
             else do {
               t \<leftarrow> message_text skb data;
               audit_log_format A (ascii '' msg='' @ [39] @ t @ [39]) ab w
             })
          else do {
            (ab, w) \<leftarrow> audit_log_format A (ascii '' data='') ab w;
            audit_log_n_untrustedstring A (tty_text payload) ab w
          });
        audit_log_end A ab w
      })"

definition user_msg :: "cfg_env \<Rightarrow> nat \<Rightarrow> byte list \<Rightarrow> nat \<Rightarrow> byte list \<Rightarrow> 'z cw \<Rightarrow> (int \<times> 'z cw) option" where
  "user_msg C msg_type skb data payload w =
     (if audit_enabled w = AUDIT_OFF \<and> msg_type \<noteq> AUDIT_USER_AVC then Some (0, w)
      else
        let (n, w) = tick w; err = filter_user C n msg_type in
        if err \<noteq> 1 then Some (err, w)
        else
          let (err, w) = (if msg_type = AUDIT_USER_TTY then (let (n, w) = tick w in (tty_push C n, w)) else (0, w)) in
          if err \<noteq> 0 then Some (err, w)
          else do { w \<leftarrow> user_record C msg_type skb data payload w; Some (0, w) })"

definition change_rule :: "cfg_env \<Rightarrow> nat \<Rightarrow> byte list \<Rightarrow> 'z cw \<Rightarrow> (int \<times> 'z cw) option" where
  "change_rule C msg_type payload w =
     (if length payload < sizeof_rule_data then Some (- EINVAL, w)
      else if audit_enabled w = AUDIT_LOCKED then do {
        w \<leftarrow> log_received C AUDIT_CONFIG_CHANGE (ascii '' audit_enabled='' @ udec (audit_enabled w) @ ascii '' res=0'') w;
        Some (- EPERM, w)
      }
      else (let (n, w) = tick w in Some (rule_change C n, w\<lparr>rule_changes := (msg_type, payload) # rule_changes w\<rparr>)))"

text \<open>A string unpacked from the message is a new object of the caller.\<close>

definition new_string :: "'z cw \<Rightarrow> nat \<times> 'z cw" where
  "new_string w = (knext w, w\<lparr>knext := Suc (knext w), klive := knext w # klive w\<rparr>)"

definition make_equiv :: "cfg_env \<Rightarrow> byte list \<Rightarrow> 'z cw \<Rightarrow> (int \<times> 'z cw) option" where
  "make_equiv C payload w =
     (if length payload < 8 then Some (- EINVAL, w)
      else
        let A = log_env C; size1 = le32_at payload 0; size2 = le32_at payload 4; bufp = drop 8 payload in
        case unpack C bufp size1 of
          Inl err \<Rightarrow> Some (err, w)
        | Inr old \<Rightarrow>
            let (k1, w) = new_string w in
            (case unpack C (drop (unat size1) bufp) size2 of
               Inl err \<Rightarrow> do { w \<leftarrow> kfree k1 w; Some (err, w) }
             | Inr new \<Rightarrow>
                 let (k2, w) = new_string w; (n, w) = tick w; err = tag_tree C n in do {
                   (ab, w) \<leftarrow> audit_log_common_recv_msg C AUDIT_CONFIG_CHANGE w;
                   (ab, w) \<leftarrow> audit_log_format A (ascii '' op=make_equiv old='') ab w;
                   (ab, w) \<leftarrow> audit_log_n_untrustedstring A old ab w;
                   (ab, w) \<leftarrow> audit_log_format A (ascii '' new='') ab w;
                   (ab, w) \<leftarrow> audit_log_n_untrustedstring A new ab w;
                   (ab, w) \<leftarrow> audit_log_format A (ascii '' res='' @ dec (if err = 0 then 1 else 0)) ab w;
                   w \<leftarrow> audit_log_end A ab w;
                   w \<leftarrow> kfree k1 w;
                   w \<leftarrow> kfree k2 w;
                   Some (err, w)
                 }))"

definition signal_info :: "cfg_env \<Rightarrow> u32 \<Rightarrow> 'z cw \<Rightarrow> (int \<times> 'z cw) option" where
  "signal_info C portid w =
     (let (err, ctx, w) = (if sig_sid w \<noteq> 0 then (let (n, w) = tick w; (err, ctx) = secctx C n (sig_sid w) in (err, ctx, w)) else (0, [], w)) in
      if err \<noteq> 0 then Some (err, w)
      else (case kmalloc (8 + length ctx) w of
          (None, w) \<Rightarrow> Some (- ENOMEM, w)
        | (Some (k, _), w) \<Rightarrow> do {
            w \<leftarrow> audit_send_reply C portid AUDIT_SIGNAL_INFO (le32_bytes (sig_uid w) @ le32_bytes (sig_pid w) @ ctx) w;
            w \<leftarrow> kfree k w;
            Some (0, w)
          }))"

abbreviation AUDIT_TTY_ENABLE :: u32 where "AUDIT_TTY_ENABLE \<equiv> 1"
abbreviation AUDIT_TTY_LOG_PASSWD :: u32 where "AUDIT_TTY_LOG_PASSWD \<equiv> 2"

definition tty_get :: "cfg_env \<Rightarrow> u32 \<Rightarrow> 'z cw \<Rightarrow> 'z cw option" where
  "tty_get C portid w =
     (let t = audit_tty w in
      audit_send_reply C portid AUDIT_TTY_GET
        (le32_bytes (t AND AUDIT_TTY_ENABLE) @ le32_bytes (if t AND AUDIT_TTY_LOG_PASSWD \<noteq> 0 then 1 else 0)) w)"

definition tty_set :: "cfg_env \<Rightarrow> byte list \<Rightarrow> 'z cw \<Rightarrow> (int \<times> 'z cw) option" where
  "tty_set C payload w =
     (let s = guarded_copy sizeof_tty_status payload; enabled = le32_at s 0; log_passwd = le32_at s 4;
          err = (if (enabled \<noteq> 0 \<and> enabled \<noteq> 1) \<or> (log_passwd \<noteq> 0 \<and> log_passwd \<noteq> 1) then - EINVAL else 0);
          t = audit_tty w;
          w = (if err \<noteq> 0 then w else w\<lparr>audit_tty := enabled OR ((- log_passwd) AND AUDIT_TTY_LOG_PASSWD)\<rparr>)
      in do {
        w \<leftarrow> log_received C AUDIT_CONFIG_CHANGE (ascii '' op=tty_set old-enabled='' @ udec (t AND AUDIT_TTY_ENABLE) @
          ascii '' new-enabled='' @ signed_dec (sint enabled) @ ascii '' old-log_passwd='' @ bool_dec (t AND AUDIT_TTY_LOG_PASSWD) @
          ascii '' new-log_passwd='' @ signed_dec (sint log_passwd) @ ascii '' res='' @ dec (if err = 0 then 1 else 0)) w;
        Some (err, w)
      })"

text \<open>The header of the message at an offset (\<open>struct nlmsghdr\<close>), and what is behind it.\<close>

definition nlmsg_length :: "byte list \<Rightarrow> nat \<Rightarrow> nat" where "nlmsg_length skb off = unat (le32_at skb off)"
definition nlmsg_type :: "byte list \<Rightarrow> nat \<Rightarrow> nat" where "nlmsg_type skb off = unat (le16_at skb (off + 4))"
definition nlmsg_wants_ack :: "byte list \<Rightarrow> nat \<Rightarrow> bool" where "nlmsg_wants_ack skb off \<longleftrightarrow> le16_at skb (off + 6) AND 4 \<noteq> 0"
definition nlmsg_seq :: "byte list \<Rightarrow> nat \<Rightarrow> u32" where "nlmsg_seq skb off = le32_at skb (off + 8)"
definition nlmsg_payload :: "byte list \<Rightarrow> nat \<Rightarrow> byte list" where
  "nlmsg_payload skb off = take (nlmsg_length skb off - NLMSG_HDRLEN) (drop (off + NLMSG_HDRLEN) skb)"

definition zero_err :: "('z cw \<Rightarrow> 'z cw option) \<Rightarrow> 'z cw \<Rightarrow> (int \<times> 'z cw) option" where
  "zero_err f w = map_option (\<lambda>w. (0, w)) (f w)"

definition list_rules_send :: "cfg_env \<Rightarrow> 'z cw \<Rightarrow> (int \<times> 'z cw) option" where
  "list_rules_send C w = (let (n, w) = tick w in Some (list_rules C n, w))"

definition dispatch_msg :: "cfg_env \<Rightarrow> u32 \<Rightarrow> byte list \<Rightarrow> nat \<Rightarrow> 'z cw \<Rightarrow> (int \<times> 'z cw) option" where
  "dispatch_msg C portid skb off w =
     (let t = nlmsg_type skb off; payload = nlmsg_payload skb off in
      if t = AUDIT_GET then zero_err (audit_get_status C portid) w
      else if t = AUDIT_SET then audit_set_status C portid payload w
      else if t = AUDIT_GET_FEATURE then zero_err (audit_get_feature C portid) w
      else if t = AUDIT_SET_FEATURE then audit_set_feature C skb w
      else if user_message t then user_msg C t skb (off + NLMSG_HDRLEN) payload w
      else if t = AUDIT_ADD_RULE \<or> t = AUDIT_DEL_RULE then change_rule C t payload w
      else if t = AUDIT_LIST_RULES then list_rules_send C w
      else if t = AUDIT_TRIM then zero_err (log_received C AUDIT_CONFIG_CHANGE (ascii '' op=trim res=1'')) w
      else if t = AUDIT_MAKE_EQUIV then make_equiv C payload w
      else if t = AUDIT_SIGNAL_INFO then signal_info C portid w
      else if t = AUDIT_TTY_GET then zero_err (tty_get C portid) w
      else if t = AUDIT_TTY_SET then tty_set C payload w
      else Some (- EINVAL, w))"

definition audit_receive_msg :: "cfg_env \<Rightarrow> u32 \<Rightarrow> byte list \<Rightarrow> nat \<Rightarrow> 'z cw \<Rightarrow> (int \<times> 'z cw) option" where
  "audit_receive_msg C portid skb off w =
     (let err = audit_netlink_ok C (nlmsg_type skb off) in
      if err \<noteq> 0 then Some (err, w)
      else
        let (err, w) = (if kauditd_started w then (0, w)
          else (let (n, w) = tick w; r = kthread_run C n in if r < 0 then (r, w) else (0, w\<lparr>kauditd_started := True\<rparr>))) in
        if err \<noteq> 0 then Some (err, w)
        else do {
          (err, w) \<leftarrow> dispatch_msg C portid skb off w;
          Some (if err < 0 \<or> nlmsg_type skb off = AUDIT_SIGNAL_INFO then err else 0, w)
        })"

text \<open>\<open>nlmsg_ok\<close> and \<open>nlmsg_next\<close>; the next message starts at a multiple of four.\<close>

definition nlmsg_ok :: "byte list \<Rightarrow> nat \<Rightarrow> int \<Rightarrow> bool" where
  "nlmsg_ok skb off len \<longleftrightarrow> len \<ge> int NLMSG_HDRLEN \<and> nlmsg_length skb off \<ge> NLMSG_HDRLEN \<and> int (nlmsg_length skb off) \<le> len"

definition nlmsg_align :: "nat \<Rightarrow> nat" where
  "nlmsg_align n = 4 * ((n + 3) div 4)"

lemma nlmsg_align_ge: "n \<le> nlmsg_align n"
  by (simp add: nlmsg_align_def)

function receive_from :: "cfg_env \<Rightarrow> u32 \<Rightarrow> byte list \<Rightarrow> nat \<Rightarrow> int \<Rightarrow> 'z cw \<Rightarrow> 'z cw option" where
  "receive_from C portid skb off len w =
     (if nlmsg_ok skb off len then do {
        (err, w) \<leftarrow> audit_receive_msg C portid skb off w;
        let w = (if err \<noteq> 0 \<or> nlmsg_wants_ack skb off then w\<lparr>acks := (nlmsg_seq skb off, err) # acks w\<rparr> else w);
        let n = nlmsg_align (nlmsg_length skb off);
        receive_from C portid skb (off + n) (len - int n) w
      } else Some w)"
  by pat_completeness auto
termination
proof (relation "measure (\<lambda>(C, portid, skb, off, len, w). nat len)", goal_cases)
  case (2 C portid skb off len w p err w1)
  then show ?case using nlmsg_align_ge [of "nlmsg_length skb off"] by (auto simp: nlmsg_ok_def)
qed simp

declare receive_from.simps [simp del]

definition audit_receive_skb :: "cfg_env \<Rightarrow> u32 \<Rightarrow> byte list \<Rightarrow> 'z cw \<Rightarrow> 'z cw option" where
  "audit_receive_skb C portid skb w = receive_from C portid skb 0 (int (length skb)) w"

end
