(* ===== verification/AuditControl.thy ===== *)
theory AuditControl
  imports AuditConfig
begin

text \<open>
  What the control messages keep: every object has one owner, the settings stay in their
  ranges, a locked configuration and locked features do not change (\<open>step_ok\<close>). Each operation
  is shown to be such a step, then the dispatcher, the loop over the messages of a socket buffer and
  all runs of the system (\<open>cfg_reach\<close>). A status request makes what it asks for.
\<close>

section \<open>Records of the configuration\<close>

text \<open>
  A record at hand whose objects are in order, while nothing the administrator set has
  changed since the state \<open>w0\<close>; then the parts of a record, and its end.
\<close>

definition recs :: "audit_env \<Rightarrow> nat multiset \<Rightarrow> 'z aw \<Rightarrow> abuf option \<times> 'z aw \<Rightarrow> bool" where
  "recs A B w0 = (\<lambda>(ab, w). rec_ok A B ab w \<and> same_user w0 w)"

definition logged :: "audit_env \<Rightarrow> nat multiset \<Rightarrow> 'z aw \<Rightarrow> 'z aw \<Rightarrow> bool" where
  "logged A B w0 w \<longleftrightarrow> pool_ok A B w \<and> same_user w0 w"

lemma logged_refl: "pool_ok A B w \<Longrightarrow> logged A B w w"
  by (simp add: logged_def)

lemma logged_trans: "logged A B w w1 \<Longrightarrow> logged A B w1 w2 \<Longrightarrow> logged A B w w2"
  by (auto simp: logged_def intro: same_user_trans)

lemma start_recs:
  assumes "pool_ok A B w"
  shows "ok (audit_log_start A (fresh_stamp A) r t w) (recs A B w)"
  by (rule ok_mono [OF start_rec [OF assms quiet_fresh_stamp]])
    (auto simp: recs_def dest: audit_log_start_user [OF quiet_fresh_stamp])

lemma frame_recs:
  assumes "recs A B w0 (ab, w)"
    and "rec_ok A B ab w \<Longrightarrow> ok m (\<lambda>(ab', w'). rec_ok A B ab' w' \<and> log_frame w w' \<and> (ab' = None \<longleftrightarrow> ab = None))"
  shows "ok m (\<lambda>(ab', w'). recs A B w0 (ab', w') \<and> (ab' = None \<longleftrightarrow> ab = None))"
  using assms by (auto simp: recs_def elim!: ok_mono intro: same_user_trans frame_same_user)

lemma format_recs:
  assumes "recs A B w0 (ab, w)"
  shows "ok (audit_log_format A t ab w) (\<lambda>(ab', w'). recs A B w0 (ab', w') \<and> (ab' = None \<longleftrightarrow> ab = None))"
  by (rule frame_recs [OF assms]) (rule format_rec)

lemma untrusted_recs:
  assumes "recs A B w0 (ab, w)"
  shows "ok (audit_log_n_untrustedstring A t ab w) (\<lambda>(ab', w'). recs A B w0 (ab', w') \<and> (ab' = None \<longleftrightarrow> ab = None))"
  by (rule frame_recs [OF assms]) (simp add: audit_log_n_untrustedstring_def hex_rec string_rec)

lemma session_recs:
  assumes "recs A B w0 (ab, w)"
  shows "ok (audit_log_session_info A ab w) (\<lambda>(ab', w'). recs A B w0 (ab', w') \<and> (ab' = None \<longleftrightarrow> ab = None))"
  unfolding audit_log_session_info_def by (rule format_recs [OF assms])

lemma tick_recs: "tick w = (n, w1) \<Longrightarrow> recs A B w0 (ab, w) \<Longrightarrow> recs A B w0 (ab, w1)"
  by (auto simp: recs_def intro: tick_rec same_user_trans frame_same_user tick_frame)

lemma context_recs:
  assumes "recs A B w0 (ab, w)"
  shows "ok (audit_log_task_context A ab w) (\<lambda>(e, ab', w'). recs A B w0 (ab', w') \<and> (ab' = None \<longleftrightarrow> ab = None))"
proof -
  obtain n w1 where t: "tick w = (n, w1)" by (metis prod.exhaust)
  obtain n2 w2 where t2: "tick w1 = (n2, w2)" by (metis prod.exhaust)
  obtain e ctx where s: "secctx A n2 (getsecid A n) = (e, ctx)" by (metis prod.exhaust)
  note r1 = tick_recs [OF t assms]
  note r2 = tick_recs [OF t2 r1]
  have "ok (audit_panic w2) (\<lambda>w'. w' = w2)"
    using r2 by (auto simp: audit_panic_def recs_def rec_ok_def no_panic_def dest!: no_panic_pool)
  then show ?thesis using r1 r2 t t2 s format_recs [OF r2, of "ascii '' subj='' @ ctx"]
    by (auto simp: audit_log_task_context_def ok_bind Let_def elim!: ok_mono)
qed

text \<open>As eliminations, for the proofs about whole records.\<close>

lemma startE:
  assumes "pool_ok A B w"
  obtains ab w1 where "audit_log_start A (fresh_stamp A) r t w = Some (ab, w1)" and "recs A B w (ab, w1)"
  using start_recs [OF assms, of r t] by (auto elim!: okE)

lemma formatE:
  assumes "recs A B w0 (ab, w)"
  obtains ab' w' where "audit_log_format A t ab w = Some (ab', w')" and "recs A B w0 (ab', w')" and "ab' = None \<longleftrightarrow> ab = None"
  using format_recs [OF assms, of t] by (auto elim!: okE)

lemma untrustedE:
  assumes "recs A B w0 (ab, w)"
  obtains ab' w' where "audit_log_n_untrustedstring A t ab w = Some (ab', w')" and "recs A B w0 (ab', w')" and "ab' = None \<longleftrightarrow> ab = None"
  using untrusted_recs [OF assms, of t] by (auto elim!: okE)

lemma sessionE:
  assumes "recs A B w0 (ab, w)"
  obtains ab' w' where "audit_log_session_info A ab w = Some (ab', w')" and "recs A B w0 (ab', w')" and "ab' = None \<longleftrightarrow> ab = None"
  using session_recs [OF assms] by (auto elim!: okE)

lemma contextE:
  assumes "recs A B w0 (ab, w)"
  obtains rc ab' w' where "audit_log_task_context A ab w = Some (rc, ab', w')" and "recs A B w0 (ab', w')" and "ab' = None \<longleftrightarrow> ab = None"
  using context_recs [OF assms] by (auto elim!: okE)

text \<open>The description of a task is a writer too, but for the panic that cannot happen here.\<close>

lemma d_path_recs:
  assumes "recs A B w0 (ab, w)" and "ab \<noteq> None"
  shows "ok (audit_log_d_path A (Some t) p ab w) (\<lambda>(ab', w'). recs A B w0 (ab', w') \<and> (ab' = None \<longleftrightarrow> ab = None))"
proof (rule frame_recs [OF assms(1)])
  assume "rec_ok A B ab w"
  from writesD [OF writes_d_path this assms(2), of t p] assms(2)
  show "ok (audit_log_d_path A (Some t) p ab w) (\<lambda>(ab', w'). rec_ok A B ab' w' \<and> log_frame w w' \<and> (ab' = None \<longleftrightarrow> ab = None))"
    by (auto simp: wrote_def elim!: ok_mono)
qed

lemma d_path_exe_recs:
  assumes "recs A B w0 (ab, w)" and "ab \<noteq> None"
  shows "ok (audit_log_d_path_exe A p ab w) (\<lambda>(ab', w'). recs A B w0 (ab', w') \<and> (ab' = None \<longleftrightarrow> ab = None))"
  using format_recs [OF assms(1)] d_path_recs [OF assms] by (cases p) (simp_all add: audit_log_d_path_exe_def)

lemma info_recs:
  assumes "recs A B w0 (ab, w)"
  shows "ok (audit_log_task_info A t ab w) (recs A B w0)"
proof (cases "ab = None")
  case True
  then show ?thesis using assms by (simp add: audit_log_task_info_def)
next
  case False
  obtain ab1 w1 where 1: "audit_log_format A (task_text A t) ab w = Some (ab1, w1)" "recs A B w0 (ab1, w1)" "ab1 = None \<longleftrightarrow> ab = None"
    by (rule formatE [OF assms])
  obtain ab2 w2 where 2: "audit_log_format A (ascii '' comm='') ab1 w1 = Some (ab2, w2)" "recs A B w0 (ab2, w2)" "ab2 = None \<longleftrightarrow> ab1 = None"
    by (rule formatE [OF 1(2)])
  obtain ab3 w3 where 3: "audit_log_n_untrustedstring A (tk_comm t) ab2 w2 = Some (ab3, w3)" "recs A B w0 (ab3, w3)" "ab3 = None \<longleftrightarrow> ab2 = None"
    by (rule untrustedE [OF 2(2)])
  have n3: "ab3 \<noteq> None" using False 1(3) 2(3) 3(3) by simp
  obtain ab4 w4 where 4: "audit_log_d_path_exe A (tk_exe t) ab3 w3 = Some (ab4, w4)" "recs A B w0 (ab4, w4)"
    using d_path_exe_recs [OF 3(2) n3, of "tk_exe t"] by (auto elim!: okE)
  show ?thesis using False 1(1) 2(1) 3(1) 4(1) context_recs [OF 4(2)]
    by (auto simp: audit_log_task_info_def ok_bind elim!: ok_mono)
qed

lemma end_recs:
  assumes "recs A B w0 (ab, w)"
  shows "ok (audit_log_end A ab w) (logged A B w0)"
  using assms by (auto simp: recs_def logged_def intro!: ok_mono [OF end_rec] intro: same_user_trans [OF _ audit_log_end_user])

lemma config_change_logged:
  assumes "pool_ok A B w"
  shows "ok (audit_log_config_change A name new old allow w) (\<lambda>(rc, w'). logged A B w w')"
proof -
  obtain ab1 w1 where 1: "audit_log_start A (fresh_stamp A) True AUDIT_CONFIG_CHANGE w = Some (ab1, w1)" "recs A B w (ab1, w1)"
    by (rule startE [OF assms])
  show ?thesis
  proof (cases "ab1 = None")
    case True
    then show ?thesis using 1 by (simp add: audit_log_config_change_def recs_def logged_def rec_ok_def opt_ids_def)
  next
    case False
    obtain ab2 w2 where 2: "audit_log_format A (ascii name @ ascii ''='' @ udec new @ ascii '' old='' @ udec old) ab1 w1 = Some (ab2, w2)"
      "recs A B w (ab2, w2)" by (rule formatE [OF 1(2)])
    obtain ab3 w3 where 3: "audit_log_session_info A ab2 w2 = Some (ab3, w3)" "recs A B w (ab3, w3)"
      by (rule sessionE [OF 2(2)])
    obtain rc ab4 w4 where 4: "audit_log_task_context A ab3 w3 = Some (rc, ab4, w4)" "recs A B w (ab4, w4)"
      by (rule contextE [OF 3(2)])
    obtain ab5 w5 where 5: "audit_log_format A (ascii '' res='' @ dec (if rc = 0 \<and> allow then 1 else 0)) ab4 w4 = Some (ab5, w5)"
      "recs A B w (ab5, w5)" by (rule formatE [OF 4(2)])
    show ?thesis using False 1(1) 2(1) 3(1) 4(1) 5(1) end_recs [OF 5(2)]
      by (auto simp: audit_log_config_change_def ok_bind elim!: ok_mono)
  qed
qed

section \<open>What every message keeps\<close>

text \<open>
  The objects of the replies under way belong to their threads. \<open>cfg_ok\<close> says that all
  objects are accounted for.
\<close>

definition reply_ids :: "'z cw \<Rightarrow> nat multiset" where
  "reply_ids w = sum_list (map (\<lambda>(k, skb, _). {#k, skb#}) (reply_threads w))"

definition cfg_ok :: "cfg_env \<Rightarrow> nat multiset \<Rightarrow> 'z cw \<Rightarrow> bool" where
  "cfg_ok C B w \<longleftrightarrow> pool_ok (log_env C) (B + reply_ids w) w"

text \<open>The settings are in their ranges (the typing of the state).\<close>

definition settings_ok :: "'z cw \<Rightarrow> bool" where
  "settings_ok w \<longleftrightarrow> audit_enabled w \<in> {AUDIT_OFF, AUDIT_ON, AUDIT_LOCKED} \<and>
     audit_failure w \<in> {AUDIT_FAIL_SILENT, AUDIT_FAIL_PRINTK, AUDIT_FAIL_PANIC} \<and>
     audit_tty w \<in> {0, AUDIT_TTY_ENABLE, AUDIT_TTY_LOG_PASSWD, AUDIT_TTY_ENABLE OR AUDIT_TTY_LOG_PASSWD} \<and>
     (audit_enabled w \<noteq> AUDIT_OFF \<longrightarrow> audit_ever_enabled w \<noteq> 0)"

text \<open>What a locked configuration protects, and what a locked feature protects.\<close>

definition frozen :: "'z cw \<Rightarrow> 'z cw \<Rightarrow> bool" where
  "frozen w w' \<longleftrightarrow> (\<forall>x. get_setting x w' = get_setting x w) \<and> audit_ever_enabled w' = audit_ever_enabled w \<and>
     rule_changes w' = rule_changes w"

definition locks_kept :: "'z cw \<Rightarrow> 'z cw \<Rightarrow> bool" where
  "locks_kept w w' \<longleftrightarrow> (\<forall>i. bit (af_lock w) i \<longrightarrow> bit (af_lock w') i \<and> bit (af_features w') i = bit (af_features w) i)"

definition governed :: "'z cw \<Rightarrow> 'z cw \<Rightarrow> bool" where
  "governed w w' \<longleftrightarrow> (audit_enabled w = AUDIT_LOCKED \<longrightarrow> frozen w w') \<and> locks_kept w w' \<and> (settings_ok w \<longrightarrow> settings_ok w') \<and>
     cfg_world.more w' = cfg_world.more w"

definition step_ok :: "cfg_env \<Rightarrow> nat multiset \<Rightarrow> 'z cw \<Rightarrow> 'z cw \<Rightarrow> bool" where
  "step_ok C B w w' \<longleftrightarrow> cfg_ok C B w' \<and> governed w w'"

lemma governed_refl [simp]: "governed w w"
  by (simp add: governed_def frozen_def locks_kept_def)

lemma governed_trans: "governed w w1 \<Longrightarrow> governed w1 w2 \<Longrightarrow> governed w w2"
  unfolding governed_def frozen_def locks_kept_def by (metis get_setting.simps(1))

lemma step_ok_refl: "cfg_ok C B w \<Longrightarrow> step_ok C B w w"
  by (simp add: step_ok_def)

lemma step_ok_trans: "step_ok C B w w1 \<Longrightarrow> step_ok C B w1 w2 \<Longrightarrow> step_ok C B w w2"
  by (auto simp: step_ok_def intro: governed_trans)

text \<open>States that differ in nothing that is configured.\<close>

definition same_cfg :: "'z cw \<Rightarrow> 'z cw \<Rightarrow> bool" where
  "same_cfg w w' \<longleftrightarrow> (\<forall>x. get_setting x w' = get_setting x w) \<and> audit_ever_enabled w' = audit_ever_enabled w \<and>
     af_features w' = af_features w \<and> af_lock w' = af_lock w \<and> audit_tty w' = audit_tty w \<and> rule_changes w' = rule_changes w \<and>
     cfg_world.more w' = cfg_world.more w"

lemma same_cfg_refl [simp]: "same_cfg w w"
  by (simp add: same_cfg_def)

lemma same_cfg_governed: "same_cfg w w' \<Longrightarrow> governed w w'"
  unfolding same_cfg_def governed_def frozen_def locks_kept_def settings_ok_def
  by (metis get_setting.simps(1,2))

lemma cw_more:
  fixes w w' :: "'z cw"
  assumes "audit_world.more w' = audit_world.more w"
  shows "af_features w' = af_features w" and "af_lock w' = af_lock w" and "audit_tty w' = audit_tty w"
    and "rule_changes w' = rule_changes w" and "reply_threads w' = reply_threads w" and "cfg_world.more w' = cfg_world.more w"
  using assms by (cases w; cases w'; simp)+

lemma same_user_more: "same_user w w' \<Longrightarrow> audit_world.more w' = audit_world.more w"
  by (simp add: same_user_def same_settings_def)

lemma same_user_setting: "same_user w w' \<Longrightarrow> get_setting x w' = get_setting x w"
  by (cases x) (simp_all add: same_user_def same_settings_def)

lemma same_user_cfg:
  fixes w w' :: "'z cw"
  assumes "same_user w w'"
  shows "same_cfg w w'"
proof -
  have "audit_ever_enabled w' = audit_ever_enabled w" using assms by (simp add: same_user_def same_settings_def)
  then show ?thesis unfolding same_cfg_def
    by (intro conjI allI same_user_setting [OF assms] cw_more [OF same_user_more [OF assms]])
qed

lemma same_user_replies:
  fixes w w' :: "'z cw"
  assumes "same_user w w'"
  shows "reply_ids w' = reply_ids w"
  unfolding reply_ids_def cw_more(5) [OF same_user_more [OF assms]] ..

lemma logged_step:
  fixes w w' :: "'z cw"
  assumes "logged (log_env C) (B + reply_ids w) w w'"
  shows "step_ok C B w w'"
proof -
  have u: "same_user w w'" and "pool_ok (log_env C) (B + reply_ids w) w'" using assms by (simp_all add: logged_def)
  from this(2) have "pool_ok (log_env C) (B + reply_ids w') w'" unfolding same_user_replies [OF u] .
  then show ?thesis unfolding step_ok_def cfg_ok_def using same_cfg_governed [OF same_user_cfg [OF u]] by blast
qed

section \<open>The operations, one by one\<close>

lemma cfg_pool: "cfg_ok C B w \<Longrightarrow> pool_ok (log_env C) (B + reply_ids w) w"
  by (simp add: cfg_ok_def)

lemma tick_step:
  fixes w :: "'z cw"
  assumes "tick w = (n, w1)" and "cfg_ok C B w"
  shows "step_ok C B w w1"
proof (rule logged_step)
  note f = tick_frame [OF assms(1)]
  show "logged (log_env C) (B + reply_ids w) w w1"
    using cfg_pool [OF assms(2)] frame_pool(1) [OF f] frame_same_user [OF f] by (simp add: logged_def)
qed

lemma step_cfg: "step_ok C B w w' \<Longrightarrow> cfg_ok C B w'"
  by (simp add: step_ok_def)

text \<open>Received requests.\<close>

lemma common_recs:
  fixes w :: "'z cw"
  assumes "pool_ok (log_env C) B w"
  shows "ok (audit_log_common_recv_msg C t w) (recs (log_env C) B w)"
proof (cases "audit_enabled w = AUDIT_OFF \<and> t \<noteq> AUDIT_USER_AVC")
  case True
  then show ?thesis using assms by (simp add: audit_log_common_recv_msg_def recs_def rec_ok_def opt_ids_def)
next
  case False
  obtain ab w1 where 1: "audit_log_start (log_env C) (fresh_stamp (log_env C)) True t w = Some (ab, w1)" "recs (log_env C) B w (ab, w1)"
    by (rule startE [OF assms])
  show ?thesis
  proof (cases "ab = None")
    case True
    then show ?thesis using 1 False by (auto simp: audit_log_common_recv_msg_def)
  next
    case some: False
    obtain ab2 w2 where 2: "audit_log_format (log_env C) (ascii ''pid='' @ signed_dec (cur_tgid C) @ ascii '' uid='' @ udec (cur_uid C)) ab w1 = Some (ab2, w2)"
      "recs (log_env C) B w (ab2, w2)" by (rule formatE [OF 1(2)])
    obtain ab3 w3 where 3: "audit_log_session_info (log_env C) ab2 w2 = Some (ab3, w3)" "recs (log_env C) B w (ab3, w3)"
      by (rule sessionE [OF 2(2)])
    obtain rc ab4 w4 where 4: "audit_log_task_context (log_env C) ab3 w3 = Some (rc, ab4, w4)" "recs (log_env C) B w (ab4, w4)"
      by (rule contextE [OF 3(2)])
    show ?thesis using False some 1(1) 2(1) 3(1) 4 by (auto simp: audit_log_common_recv_msg_def Let_def)
  qed
qed

lemma commonE:
  fixes w :: "'z cw"
  assumes "pool_ok (log_env C) B w"
  obtains ab w1 where "audit_log_common_recv_msg C t w = Some (ab, w1)" and "recs (log_env C) B w (ab, w1)"
  using common_recs [OF assms, of t] by (auto elim!: okE)

lemma received_step:
  fixes w :: "'z cw"
  assumes "cfg_ok C B w"
  shows "ok (log_received C t x w) (step_ok C B w)"
proof -
  obtain ab w1 where 1: "audit_log_common_recv_msg C t w = Some (ab, w1)" "recs (log_env C) (B + reply_ids w) w (ab, w1)"
    by (rule commonE [OF cfg_pool [OF assms]])
  obtain ab2 w2 where 2: "audit_log_format (log_env C) x ab w1 = Some (ab2, w2)" "recs (log_env C) (B + reply_ids w) w (ab2, w2)"
    by (rule formatE [OF 1(2)])
  show ?thesis using 1(1) 2(1) end_recs [OF 2(2)] by (auto simp: log_received_def ok_bind elim!: ok_mono intro: logged_step)
qed

text \<open>Objects.\<close>

lemma kmalloc_pool:
  assumes "kmalloc n w = (m, w1)" and "pool_ok A B w"
  shows "pool_ok A (B + (case m of None \<Rightarrow> {#} | Some (k, _) \<Rightarrow> {#k#})) w1"
  using assms by (auto simp: kmalloc_def pool_ok_def owned_def no_panic_def Let_def split: if_splits)

lemma kfree_user_pool:
  assumes "pool_ok A (B + {#k#}) w"
  shows "ok (kfree k w) (\<lambda>w'. pool_ok A B w' \<and> same_user w w')"
  using kfree_pool [OF assms] by (auto elim!: ok_mono intro: kfree_user)

lemma user_step:
  fixes w :: "'z cw"
  assumes "same_user w w'" and "pool_ok (log_env C) (B + reply_ids w) w'"
  shows "step_ok C B w w'"
  using assms by (intro logged_step) (simp add: logged_def)

lemma get_setting_more [simp]:
  "get_setting x (w\<lparr>reply_threads := r\<rparr>) = get_setting x w" "get_setting x (w\<lparr>rule_changes := c\<rparr>) = get_setting x w"
  "get_setting x (w\<lparr>audit_tty := v\<rparr>) = get_setting x w" "get_setting x (w\<lparr>kauditd_started := b\<rparr>) = get_setting x w"
  "get_setting x (w\<lparr>af_features := v, af_lock := l\<rparr>) = get_setting x w" "get_setting x (w\<lparr>acks := a\<rparr>) = get_setting x w"
  "get_setting x (w\<lparr>audit_pid := p, nlk_portid := v\<rparr>) = get_setting x w" "get_setting x (w\<lparr>audit_ever_enabled := v\<rparr>) = get_setting x w"
  by (cases x; simp)+

lemma send_reply_step:
  fixes w :: "'z cw"
  assumes "pool_ok (log_env C) (B + reply_ids w + D) w"
  shows "ok (audit_send_reply C portid t payload w) (\<lambda>w'. pool_ok (log_env C) (B + reply_ids w' + D) w' \<and> same_cfg w w' \<and> reply_ids w \<subseteq># reply_ids w')"
proof -
  let ?P = "pool_ok (log_env C)" and ?B = "B + reply_ids w + D"
  have same: "pool_ok (log_env C) (B + reply_ids w' + D) w' \<and> same_cfg w w' \<and> reply_ids w \<subseteq># reply_ids w'"
    if "same_user w w'" "?P ?B w'" for w' :: "'z cw"
    using that by (simp add: same_user_cfg same_user_replies)
  have freed: "ok (kfree k w') (\<lambda>w'. pool_ok (log_env C) (B + reply_ids w' + D) w' \<and> same_cfg w w' \<and> reply_ids w \<subseteq># reply_ids w')"
    if "same_user w w'" "?P (?B + {#k#}) w'" for w' :: "'z cw" and k
    using same same_user_trans [OF that(1)] by (blast intro: ok_mono [OF kfree_user_pool [OF that(2)]])
  obtain m w1 where m: "kmalloc 0 w = (m, w1)" by (metis prod.exhaust)
  note u1 = kmalloc_user [OF m] and p1 = kmalloc_pool [OF m assms]
  show ?thesis
  proof (cases m)
    case None
    then show ?thesis using m same [OF u1] p1 by (simp add: audit_send_reply_def)
  next
    case (Some q)
    obtain k bs where q: "q = (k, bs)" by (cases q)
    obtain m2 w2 where m2: "kmalloc 0 w1 = (m2, w2)" by (metis prod.exhaust)
    have p1': "?P (?B + {#k#}) w1" using p1 Some q by simp
    note u2 = same_user_trans [OF u1 kmalloc_user [OF m2]] and p2 = kmalloc_pool [OF m2 p1']
    show ?thesis
    proof (cases m2)
      case None
      then have "?P (?B + {#k#}) w2" using p2 by simp
      from freed [OF u2 this] show ?thesis using m Some q m2 None
        by (simp add: audit_send_reply_def audit_make_reply_def)
    next
      case some2: (Some q2)
      obtain k2 bs2 where q2: "q2 = (k2, bs2)" by (cases q2)
      obtain n w3 where t: "tick w2 = (n, w3)" by (metis prod.exhaust)
      note f = tick_frame [OF t]
      have u3: "same_user w w3" by (rule same_user_trans [OF u2 frame_same_user [OF f]])
      have p3: "?P (?B + {#k#} + {#k2#}) w3" using p2 some2 q2 frame_pool(1) [OF f] by simp
      show ?thesis
      proof (cases "kthread_run C n = 0")
        case True
        let ?w = "w3\<lparr>reply_threads := reply_threads w3 @ [(k, k2, portid, t, payload)]\<rparr>"
        have r: "reply_ids ?w = reply_ids w + {#k, k2#}" using same_user_replies [OF u3] by (simp add: reply_ids_def)
        have "?P (B + reply_ids ?w + D) ?w"
          using p3 by (simp add: r pool_ok_def owned_def no_panic_def ac_simps)
        moreover have "same_cfg w ?w" using same_user_cfg [OF u3] by (simp add: same_cfg_def)
        ultimately show ?thesis using m Some q m2 some2 q2 t True r
          by (simp add: audit_send_reply_def audit_make_reply_def)
      next
        case False
        from kfree_user_pool [OF p3] obtain w4 where 4: "kfree k2 w3 = Some w4" "?P (?B + {#k#}) w4" "same_user w3 w4" by (auto elim!: okE)
        show ?thesis using m Some q m2 some2 q2 t False 4(1) freed [OF same_user_trans [OF u3 4(3)] 4(2)]
          by (simp add: audit_send_reply_def audit_make_reply_def)
      qed
    qed
  qed
qed

lemma reply_step:
  fixes w :: "'z cw"
  assumes "cfg_ok C B w"
  shows "ok (audit_send_reply C portid t payload w) (step_ok C B w)"
  using send_reply_step [of C B w "{#}" portid t payload] assms
  by (auto simp: cfg_ok_def step_ok_def elim!: ok_mono intro: same_cfg_governed)

section \<open>Settings\<close>

definition runs :: "cfg_env \<Rightarrow> nat multiset \<Rightarrow> ('z cw \<Rightarrow> (int \<times> 'z cw) option) \<Rightarrow> bool" where
  "runs C B f \<longleftrightarrow> (\<forall>w. cfg_ok C B w \<longrightarrow> ok (f w) (\<lambda>(e, w'). step_ok C B w w'))"

lemma runsD: "runs C B f \<Longrightarrow> cfg_ok C B w \<Longrightarrow> ok (f w) (\<lambda>(e, w'). step_ok C B w w')"
  by (simp add: runs_def)

lemma runs_return [simp]: "runs C B (\<lambda>w. Some (e, w))"
  by (simp add: runs_def step_ok_refl)

lemma runs_zero_err:
  fixes f :: "'z cw \<Rightarrow> 'z cw option"
  assumes "\<And>w. cfg_ok C B w \<Longrightarrow> ok (f w) (step_ok C B w)"
  shows "runs C B (zero_err f)"
  unfolding runs_def zero_err_def
proof (intro allI impI)
  fix w :: "'z cw" assume "cfg_ok C B w"
  from assms [OF this] show "ok (map_option (Pair 0) (f w)) (\<lambda>(e, w'). step_ok C B w w')"
    by (auto simp: eta_contract_eq elim!: okE)
qed

lemma do_config_run:
  fixes w :: "'z cw"
  assumes "cfg_ok C B w"
  shows "ok (audit_do_config_change (log_env C) x v w) (\<lambda>(rc, w'). \<exists>w1. logged (log_env C) (B + reply_ids w) w w1 \<and>
     (rc \<noteq> 0 \<and> w' = w1 \<or> rc = 0 \<and> audit_enabled w \<noteq> AUDIT_LOCKED \<and> w' = put_setting x v w1))"
proof (cases "audit_enabled w = AUDIT_OFF")
  case True
  then show ?thesis using logged_refl [OF cfg_pool [OF assms]] by (auto simp: audit_do_config_change_def)
next
  case False
  from config_change_logged [OF cfg_pool [OF assms], of "setting_name x" v "get_setting x w" "audit_enabled w \<noteq> AUDIT_LOCKED"]
  obtain rc w1 where "audit_log_config_change (log_env C) (setting_name x) v (get_setting x w) (audit_enabled w \<noteq> AUDIT_LOCKED) w = Some (rc, w1)"
    and "logged (log_env C) (B + reply_ids w) w w1" by (auto elim!: okE)
  then show ?thesis using False by (auto simp: audit_do_config_change_def)
qed

lemma put_setting_more:
  fixes w :: "'z cw"
  shows "reply_ids (put_setting x v w) = reply_ids w" and "af_features (put_setting x v w) = af_features w"
    and "af_lock (put_setting x v w) = af_lock w" and "audit_tty (put_setting x v w) = audit_tty w"
    and "rule_changes (put_setting x v w) = rule_changes w" and "audit_ever_enabled (put_setting x v w) = audit_ever_enabled w"
    and "cfg_world.more (put_setting x v w) = cfg_world.more w"
  by (cases x; simp add: reply_ids_def)+

lemma get_put_setting: "get_setting y (put_setting x v w) = (if x = y then v else get_setting y w)"
  by (cases x; cases y) simp_all

lemma pool_put_setting:
  assumes "pool_ok A B w" and "x = Failure \<longrightarrow> v \<noteq> AUDIT_FAIL_PANIC"
  shows "pool_ok A B (put_setting x v w)"
  using assms by (cases x) (auto simp: pool_ok_def owned_def no_panic_def)

text \<open>Setting a variable in a state where only records were written.\<close>

lemma put_step:
  fixes w w1 :: "'z cw"
  assumes "logged (log_env C) (B + reply_ids w) w w1" and "audit_enabled w \<noteq> AUDIT_LOCKED" and "x \<noteq> Enabled"
    and "x = Failure \<longrightarrow> v \<in> {AUDIT_FAIL_SILENT, AUDIT_FAIL_PRINTK}"
  shows "step_ok C B w (put_setting x v w1)"
proof -
  note s = logged_step [OF assms(1)]
  have e: "audit_enabled w1 = audit_enabled w" using assms(1) by (simp add: logged_def same_user_def same_settings_def)
  have "cfg_ok C B (put_setting x v w1)"
    using s assms(4) by (auto simp: step_ok_def cfg_ok_def put_setting_more intro!: pool_put_setting)
  moreover have "settings_ok w1 \<longrightarrow> settings_ok (put_setting x v w1)"
    using assms(3,4) by (cases x) (auto simp: settings_ok_def)
  ultimately show ?thesis using s assms(2)
    by (auto simp: step_ok_def governed_def locks_kept_def put_setting_more)
qed

lemma config_runs:
  assumes "x \<noteq> Enabled" and "x = Failure \<longrightarrow> v \<in> {AUDIT_FAIL_SILENT, AUDIT_FAIL_PRINTK}"
  shows "runs C B (audit_do_config_change (log_env C) x v)"
  unfolding runs_def
  using assms by (auto intro!: ok_mono [OF do_config_run] put_step dest: logged_step)

lemma set_failure_runs: "v \<noteq> AUDIT_FAIL_PANIC \<Longrightarrow> runs C B (audit_set_failure (log_env C) v)"
  using config_runs [of Failure v C B] by (auto simp: runs_def audit_set_failure_def step_ok_refl)

lemma set_limit_runs:
  "runs C B (audit_set_rate_limit (log_env C) v)" "runs C B (audit_set_backlog_limit (log_env C) v)"
  "runs C B (set_wait_time C n v)"
  using config_runs [of Wait_time v C B]
  by (auto simp: audit_set_rate_limit_def audit_set_backlog_limit_def audit_set_backlog_wait_time_def set_wait_time_def
      runs_def step_ok_refl intro!: config_runs [unfolded runs_def, rule_format])

lemma set_enabled_runs: "runs C B (audit_set_enabled (log_env C) v :: 'z cw \<Rightarrow> _)"
proof -
  have "step_ok C B w (w1\<lparr>audit_enabled := v, audit_ever_enabled := audit_ever_enabled w1 OR (if v \<noteq> 0 then 1 else 0)\<rparr>)"
    if l: "logged (log_env C) (B + reply_ids w) w w1" and "audit_enabled w \<noteq> AUDIT_LOCKED" and "v \<le> AUDIT_LOCKED" for w w1 :: "'z cw"
  proof -
    let ?w = "w1\<lparr>audit_enabled := v, audit_ever_enabled := audit_ever_enabled w1 OR (if v \<noteq> 0 then 1 else 0)\<rparr>"
    note s = logged_step [OF l]
    have "cfg_ok C B ?w" using s by (simp add: step_ok_def cfg_ok_def reply_ids_def pool_ok_def) (simp add: owned_def no_panic_def)
    moreover have v: "v \<in> {0, 1, 2}"
    proof -
      have "unat v \<le> 2" using that(3) by (simp add: word_le_nat_alt)
      then have "unat v = 0 \<or> unat v = 1 \<or> unat v = 2" by linarith
      then show ?thesis by (auto simp: word_unat_eq_iff)
    qed
    moreover have "audit_ever_enabled w1 OR 1 \<noteq> 0" by (metis bit_0_eq bit_or_iff bit_1_0 bot_apply bot_bool_def)
    ultimately show ?thesis using s that(2)
      by (auto simp: step_ok_def governed_def locks_kept_def settings_ok_def)
  qed
  then show ?thesis unfolding runs_def
    by (auto simp: audit_set_enabled_def ok_bind not_less step_ok_refl split_def intro!: ok_mono [OF do_config_run] dest: logged_step)
qed

lemma status_step_runs:
  fixes f g :: "'z cw \<Rightarrow> (int \<times> 'z cw) option"
  assumes "b \<Longrightarrow> runs C B f" and "runs C B g"
  shows "runs C B (status_step b f g)"
  unfolding runs_def
proof (intro allI impI)
  fix w :: "'z cw" assume w: "cfg_ok C B w"
  show "ok (status_step b f g w) (\<lambda>(e, w'). step_ok C B w w')"
  proof (cases b)
    case False
    then show ?thesis using runsD [OF assms(2) w] by (simp add: status_step_def)
  next
    case True
    then obtain e w1 where 1: "f w = Some (e, w1)" "step_ok C B w w1" using runsD [OF assms(1) w] by (auto elim!: okE)
    show ?thesis using True 1 runsD [OF assms(2) step_cfg [OF 1(2)]]
      by (auto simp: status_step_def elim!: ok_mono intro: step_ok_trans)
  qed
qed

text \<open>An operation that changes nothing that is configured.\<close>

definition quiet_step :: "cfg_env \<Rightarrow> nat multiset \<Rightarrow> 'z cw \<Rightarrow> 'z cw \<Rightarrow> bool" where
  "quiet_step C B w w' \<longleftrightarrow> cfg_ok C B w' \<and> same_cfg w w'"

lemma quiet_refl: "cfg_ok C B w \<Longrightarrow> quiet_step C B w w"
  by (simp add: quiet_step_def)

lemma quiet_trans: "quiet_step C B w w1 \<Longrightarrow> quiet_step C B w1 w2 \<Longrightarrow> quiet_step C B w w2"
  by (simp add: quiet_step_def same_cfg_def)

lemma quiet_cfg: "quiet_step C B w w' \<Longrightarrow> cfg_ok C B w'"
  by (simp add: quiet_step_def)

lemma quiet_is_step: "quiet_step C B w w' \<Longrightarrow> step_ok C B w w'"
  by (simp add: quiet_step_def step_ok_def same_cfg_governed)

lemma quiet_user:
  fixes w :: "'z cw"
  assumes "same_user w w'" and "pool_ok (log_env C) (B + reply_ids w) w'"
  shows "quiet_step C B w w'"
  using step_cfg [OF user_step [OF assms]] same_user_cfg [OF assms(1)] by (simp add: quiet_step_def)

lemma quiet_pid:
  assumes "quiet_step C B w w1"
  shows "quiet_step C B w (w1\<lparr>audit_pid := p, nlk_portid := v\<rparr>)"
proof -
  have "cfg_ok C B (w1\<lparr>audit_pid := p, nlk_portid := v\<rparr>)"
    using assms by (simp add: quiet_step_def cfg_ok_def reply_ids_def pool_ok_def) (simp add: owned_def no_panic_def)
  then show ?thesis using assms by (simp add: quiet_step_def same_cfg_def)
qed

lemma log_change_quiet:
  fixes w :: "'z cw"
  assumes "cfg_ok C B w"
  shows "ok (audit_log_config_change (log_env C) name new old res w) (\<lambda>(e, w'). quiet_step C B w w')"
  by (rule ok_mono [OF config_change_logged [OF cfg_pool [OF assms]]]) (auto simp: logged_def intro: quiet_user)

lemma unicast_user:
  assumes "pool_ok (log_env C) (B + {#k#}) w"
  shows "ok (netlink_unicast C k w) (\<lambda>(e, w'). pool_ok (log_env C) B w' \<and> same_user w w')"
proof -
  obtain n w1 where t: "tick w = (n, w1)" by (metis prod.exhaust)
  note f = tick_frame [OF t]
  have "pool_ok (log_env C) (B + {#k#}) w1" using assms frame_pool(1) [OF f] by simp
  from kfree_user_pool [OF this] frame_same_user [OF f] t show ?thesis
    by (auto simp: netlink_unicast_def ok_bind elim!: ok_mono intro: same_user_trans)
qed

lemma replace_quiet:
  fixes w :: "'z cw"
  assumes "cfg_ok C B w"
  shows "ok (audit_replace C w) (\<lambda>(e, w'). quiet_step C B w w')"
proof -
  obtain m w1 where m: "kmalloc 0 w = (m, w1)" by (metis prod.exhaust)
  note u = kmalloc_user [OF m] and p = kmalloc_pool [OF m cfg_pool [OF assms]]
  show ?thesis
  proof (cases m)
    case None
    then show ?thesis using m u p by (simp add: audit_replace_def audit_make_reply_def quiet_user)
  next
    case (Some q)
    obtain k bs where q: "q = (k, bs)" by (cases q)
    have "pool_ok (log_env C) (B + reply_ids w + {#k#}) w1" using p Some q by simp
    from unicast_user [OF this] show ?thesis using m Some q
      by (auto simp: audit_replace_def audit_make_reply_def elim!: ok_mono intro: quiet_user same_user_trans [OF u])
  qed
qed

lemma set_pid_quiet:
  fixes w :: "'z cw"
  assumes "cfg_ok C B w"
  shows "ok (audit_set_pid C portid pid w) (\<lambda>(e, w'). e \<le> 0 \<and> quiet_step C B w w')"
proof -
  define log where "log = (\<lambda>res w :: 'z cw. audit_log_config_change (log_env C) ''audit_pid'' pid (of_int (audit_pid w)) res w)"
  have log: "ok (log res w) (\<lambda>(e, w'). quiet_step C B w w')" if "cfg_ok C B w" for res w
    unfolding log_def by (rule log_change_quiet [OF that])
  define rest where "rest = (\<lambda>(replaced, w :: 'z cw).
     (if replaced \<noteq> - ECONNREFUSED then do { (_, w) \<leftarrow> log False w; Some (- EEXIST, w) }
      else do {
        (_, w) \<leftarrow> (if audit_enabled w \<noteq> AUDIT_OFF then log True w else Some (0, w));
        Some (0, w\<lparr>audit_pid := sint pid, nlk_portid := portid\<rparr>)
      }))"
  have rest: "ok (rest (r, w1)) (\<lambda>(e, w'). e \<le> 0 \<and> quiet_step C B w w')" if "quiet_step C B w w1" for r w1
  proof (cases "r \<noteq> - ECONNREFUSED")
    case True
    then show ?thesis using log [OF quiet_cfg [OF that], of False] quiet_trans [OF that]
      by (auto simp: rest_def ok_bind elim!: ok_mono)
  next
    case False
    have "ok (if audit_enabled w1 \<noteq> AUDIT_OFF then log True w1 else Some (0, w1)) (\<lambda>(e, w'). quiet_step C B w w')"
      using log [OF quiet_cfg [OF that], of True] quiet_trans [OF that] that by (auto elim!: ok_mono)
    then show ?thesis using False by (auto simp: rest_def ok_bind elim!: ok_mono) (erule quiet_pid)+
  qed
  have eq: "audit_set_pid C portid pid w =
     (if sint pid = 0 \<and> cur_vnr C \<noteq> audit_pid w then do { (_, w) \<leftarrow> log False w; Some (- EACCES, w) }
      else Option.bind (if audit_pid w \<noteq> 0 \<and> sint pid \<noteq> 0 then audit_replace C w else Some (- ECONNREFUSED, w)) rest)"
    unfolding audit_set_pid_def Let_def rest_def log_def by (rule refl)
  show ?thesis
  proof (cases "sint pid = 0 \<and> cur_vnr C \<noteq> audit_pid w")
    case True
    then show ?thesis using log [OF assms, of False] by (auto simp: eq ok_bind elim!: ok_mono)
  next
    case False
    have "ok (if audit_pid w \<noteq> 0 \<and> sint pid \<noteq> 0 then audit_replace C w else Some (- ECONNREFUSED, w)) (\<lambda>(e, w'). quiet_step C B w w')"
      using replace_quiet [OF assms] quiet_refl [OF assms] by simp
    then show ?thesis using False unfolding eq if_not_P [OF False] ok_bind by (auto elim!: ok_mono intro: rest)
  qed
qed

lemma set_pid_runs: "runs C B (audit_set_pid C portid pid)"
  unfolding runs_def by (auto intro!: ok_mono [OF set_pid_quiet] quiet_is_step)

text \<open>Whether a status message asks for a panic on failure.\<close>

definition asks_panic :: "byte list \<Rightarrow> bool" where
  "asks_panic payload \<longleftrightarrow> (let s = guarded_copy sizeof_status payload in
     le32_at s 0 AND STATUS_FAILURE \<noteq> 0 \<and> le32_at s 8 = AUDIT_FAIL_PANIC)"

lemma set_status_runs:
  assumes "\<not> asks_panic payload"
  shows "runs C B (audit_set_status C portid payload)"
  unfolding audit_set_status_def Let_def
  by (intro status_step_runs set_enabled_runs set_failure_runs set_pid_runs set_limit_runs runs_return)
    (use assms in \<open>simp add: asks_panic_def Let_def\<close>)

section \<open>Features\<close>

lemma bit_feature_mask: "i < 32 \<Longrightarrow> bit (feature_mask i) j \<longleftrightarrow> j = i"
  by (auto simp: feature_mask_def bit_simps)

lemma and_feature_mask: "i < 32 \<Longrightarrow> x AND feature_mask i = (if bit x i then feature_mask i else 0)"
  by (rule bit_word_eqI) (auto simp: bit_simps bit_feature_mask)

lemma feature_mask_nonzero:
  assumes "i < 32" shows "feature_mask i \<noteq> 0"
proof
  assume "feature_mask i = 0"
  then have "bit (0 :: u32) i" using bit_feature_mask [OF assms, of i] by simp
  then show False by simp
qed

lemma feature_change_step:
  fixes w :: "'z cw"
  assumes "cfg_ok C B w"
  shows "ok (audit_log_feature_change C i a b c d r w) (\<lambda>w'. step_ok C B w w' \<and> same_user w w')"
proof (cases "audit_enabled w = AUDIT_OFF")
  case True
  then show ?thesis using step_ok_refl [OF assms] by (simp add: audit_log_feature_change_def)
next
  case False
  define t where "t = ascii '' feature='' @ ascii (audit_feature_names ! i) @ ascii '' old='' @ bool_dec a @
          ascii '' new='' @ bool_dec b @ ascii '' old_lock='' @ bool_dec c @ ascii '' new_lock='' @ bool_dec d @ ascii '' res='' @ dec r"
  obtain ab1 w1 where 1: "audit_log_start (log_env C) (fresh_stamp (log_env C)) True AUDIT_FEATURE_CHANGE w = Some (ab1, w1)"
    "recs (log_env C) (B + reply_ids w) w (ab1, w1)" by (rule startE [OF cfg_pool [OF assms]])
  obtain ab2 w2 where 2: "audit_log_task_info (log_env C) (cur_task C) ab1 w1 = Some (ab2, w2)" "recs (log_env C) (B + reply_ids w) w (ab2, w2)"
    using info_recs [OF 1(2), of "cur_task C"] by (auto elim!: okE)
  obtain ab3 w3 where 3: "audit_log_format (log_env C) t ab2 w2 = Some (ab3, w3)" "recs (log_env C) (B + reply_ids w) w (ab3, w3)"
    by (rule formatE [OF 2(2)])
  from end_recs [OF 3(2)] have "ok (audit_log_end (log_env C) ab3 w3) (\<lambda>w'. step_ok C B w w' \<and> same_user w w')"
    by (auto elim!: ok_mono intro: logged_step) (simp add: logged_def)
  then show ?thesis using False 1(1) 2(1) 3(1) by (simp add: audit_log_feature_change_def t_def)
qed

text \<open>No feature the request is about is locked with another value.\<close>

definition unlocked :: "features \<Rightarrow> nat list \<Rightarrow> 'z cw \<Rightarrow> bool" where
  "unlocked uaf is w \<longleftrightarrow> (\<forall>i \<in> set is. bit (fst uaf) i \<and> bit (af_lock w) i \<longrightarrow> bit (fst (snd uaf)) i = bit (af_features w) i)"

lemma feature_check_run:
  fixes w :: "'z cw"
  assumes "cfg_ok C B w" and "\<forall>i \<in> set is. i < 32"
  shows "ok (feature_check C uaf is w) (\<lambda>(e, w'). step_ok C B w w' \<and> (e = 0 \<longrightarrow> w' = w \<and> unlocked uaf is w))"
  using assms(2)
proof (induction "is")
  case Nil
  then show ?case using step_ok_refl [OF assms(1)] by (simp add: unlocked_def)
next
  case (Cons i "is")
  obtain mask features lock where u: "uaf = (mask, features, lock)" by (cases uaf)
  note m = and_feature_mask [of i] feature_mask_nonzero [of i]
  have c: "feature_mask i AND mask = mask AND feature_mask i" by (rule and.commute)
  show ?case
  proof (cases "bit mask i \<and> bit (af_lock w) i \<and> bit features i \<noteq> bit (af_features w) i")
    case True
    then have eq: "feature_check C uaf (i # is) w = do {
        w \<leftarrow> audit_log_feature_change C i (af_features w AND feature_mask i) (features AND feature_mask i)
          (af_lock w AND feature_mask i) ((lock OR af_lock w) AND feature_mask i) 0 w;
        Some (- EPERM, w) }"
      using Cons.prems m by (auto simp: u c Let_def)
    show ?thesis unfolding eq ok_bind by (rule ok_mono [OF feature_change_step [OF assms(1)]]) simp
  next
    case False
    then have "feature_check C uaf (i # is) w = feature_check C uaf is w"
      using Cons.prems m by (auto simp: u c Let_def)
    then show ?thesis using Cons False by (auto simp: u unlocked_def elim!: ok_mono)
  qed
qed

text \<open>One feature of the second pass.\<close>

definition feature_put :: "features \<Rightarrow> nat \<Rightarrow> 'z cw \<Rightarrow> 'z cw" where
  "feature_put uaf i w = (case uaf of (_, features, lock) \<Rightarrow>
     w\<lparr>af_features := (if bit features i then af_features w OR feature_mask i else af_features w AND NOT (feature_mask i)),
       af_lock := af_lock w OR ((lock OR af_lock w) AND feature_mask i)\<rparr>)"

lemma bit_feature_put:
  assumes "i < 32"
  shows "bit (af_features (feature_put uaf i w)) j = (if j = i then bit (fst (snd uaf)) i else bit (af_features w) j)"
    and "bit (af_lock (feature_put uaf i w)) j = (bit (af_lock w) j \<or> j = i \<and> bit (snd (snd uaf)) i)"
  using assms by (cases uaf; auto simp: feature_put_def bit_simps bit_feature_mask dest: bit_imp_le_length)+

lemma feature_put_step:
  assumes "step_ok C B w w1" and "same_user w w1" and "i < 32" and "bit (af_lock w) i \<Longrightarrow> bit (fst (snd uaf)) i = bit (af_features w) i"
  shows "step_ok C B w (feature_put uaf i w1)"
proof -
  note b = bit_feature_put [OF assms(3), of uaf w1] and m = cw_more [OF same_user_more [OF assms(2)]]
  have "cfg_ok C B (feature_put uaf i w1)"
    using assms(1) by (cases uaf) (simp add: feature_put_def step_ok_def cfg_ok_def reply_ids_def pool_ok_def, simp add: owned_def no_panic_def)
  moreover have "locks_kept w (feature_put uaf i w1)" using assms(4) by (simp add: locks_kept_def b m)
  moreover have "settings_ok (feature_put uaf i w1) = settings_ok w1" and "frozen w (feature_put uaf i w1) = frozen w w1"
    and "cfg_world.more (feature_put uaf i w1) = cfg_world.more w1"
    by (cases uaf; simp add: feature_put_def settings_ok_def frozen_def)+
  ultimately show ?thesis using assms(1) by (auto simp: step_ok_def governed_def)
qed

lemma feature_apply_run:
  fixes w :: "'z cw"
  assumes "cfg_ok C B w" and "\<forall>i \<in> set is. i < 32" and "distinct is" and "unlocked uaf is w"
  shows "ok (feature_apply C uaf is w) (step_ok C B w)"
  using assms
proof (induction "is" arbitrary: w)
  case Nil
  then show ?case by (simp add: step_ok_refl)
next
  case (Cons i "is")
  obtain mask features lock where u: "uaf = (mask, features, lock)" by (cases uaf)
  have i: "i < 32" using Cons.prems by simp
  note m = and_feature_mask [OF i] feature_mask_nonzero [OF i]
  have c: "feature_mask i AND mask = mask AND feature_mask i" by (rule and.commute)
  show ?case
  proof (cases "bit mask i")
    case False
    then have "feature_apply C uaf (i # is) w = feature_apply C uaf is w" using m by (simp add: u c Let_def)
    moreover have "unlocked uaf is w" using Cons.prems(4) by (simp add: unlocked_def)
    ultimately show ?thesis using Cons by simp
  next
    case True
    define pre where "pre = (if features AND feature_mask i \<noteq> af_features w AND feature_mask i
      then audit_log_feature_change C i (af_features w AND feature_mask i) (features AND feature_mask i)
        (af_lock w AND feature_mask i) ((lock OR af_lock w) AND feature_mask i) 1 w
      else Some w)"
    have "ok pre (\<lambda>w'. step_ok C B w w' \<and> same_user w w')"
      using feature_change_step [OF Cons.prems(1)] step_ok_refl [OF Cons.prems(1)] by (simp add: pre_def)
    then obtain w1 where 1: "pre = Some w1" "step_ok C B w w1" "same_user w w1" by (auto elim!: okE)
    have "af_lock w1 = af_lock w" using 1(3) by (intro cw_more same_user_more)
    then have eq: "feature_apply C uaf (i # is) w = feature_apply C uaf is (feature_put uaf i w1)"
      using 1(1) True m unfolding pre_def by (simp add: u c feature_put_def Let_def split: if_splits)
    have k: "bit (af_lock w) i \<Longrightarrow> bit (fst (snd uaf)) i = bit (af_features w) i"
      using Cons.prems(4) True by (simp add: unlocked_def u)
    note s = feature_put_step [OF 1(2,3) i k]
    have "unlocked uaf is (feature_put uaf i w1)"
      using Cons.prems(3,4) cw_more [OF same_user_more [OF 1(3)]] by (auto simp: unlocked_def bit_feature_put [OF i])
    then have "ok (feature_apply C uaf is (feature_put uaf i w1)) (step_ok C B (feature_put uaf i w1))"
      using Cons.IH [OF step_cfg [OF s]] Cons.prems(2,3) by simp
    then show ?thesis unfolding eq by (rule ok_mono) (rule step_ok_trans [OF s])
  qed
qed

lemma set_feature_runs:
  assumes "32 \<le> length skb"
  shows "runs C B (audit_set_feature C skb :: 'z cw \<Rightarrow> _)"
  unfolding runs_def
proof (intro allI impI)
  fix w :: "'z cw" assume w: "cfg_ok C B w"
  define b where "b = take 16 (drop 16 skb)"
  define uaf where "uaf = (le32_at b 4, le32_at b 8, le32_at b 12)"
  have r: "buf_read skb NLMSG_HDRLEN sizeof_features = Some b" using assms by (simp add: buf_read_def b_def)
  have l: "[0..<Suc AUDIT_LAST_FEATURE] = [0, 1]" by (simp add: upt_rec)
  obtain e w1 where 1: "feature_check C uaf [0, 1] w = Some (e, w1)" "step_ok C B w w1" "e = 0 \<Longrightarrow> w1 = w \<and> unlocked uaf [0, 1] w"
    using feature_check_run [OF w, of "[0, 1]" uaf] by (auto elim!: okE)
  have "e = 0 \<Longrightarrow> ok (feature_apply C uaf [0, 1] w) (step_ok C B w)"
    using feature_apply_run [OF w, of "[0, 1]" uaf] 1(3) by simp
  then show "ok (audit_set_feature C skb w) (\<lambda>(e, w'). step_ok C B w w')" using 1
    unfolding audit_set_feature_def r l by (auto simp: uaf_def [symmetric] ok_bind simp del: feature_check.simps feature_apply.simps elim!: ok_mono)
qed

section \<open>Messages, one by one\<close>

text \<open>
  What the code relies on without checking: the first message has room for a feature request,
  a text ends within the socket buffer, and nobody asks for a panic.
\<close>

definition msg_fits :: "byte list \<Rightarrow> nat \<Rightarrow> bool" where
  "msg_fits skb off \<longleftrightarrow>
     (nlmsg_type skb off = AUDIT_SET_FEATURE \<longrightarrow> NLMSG_HDRLEN + sizeof_features \<le> length skb) \<and>
     (user_message (nlmsg_type skb off) \<and> nlmsg_type skb off \<noteq> AUDIT_USER_TTY \<longrightarrow> message_text skb (off + NLMSG_HDRLEN) \<noteq> None) \<and>
     (nlmsg_type skb off = AUDIT_SET \<longrightarrow> \<not> asks_panic (nlmsg_payload skb off))"

lemma user_record_step:
  fixes w :: "'z cw"
  assumes "cfg_ok C B w" and "t \<noteq> AUDIT_USER_TTY \<Longrightarrow> message_text skb data \<noteq> None"
  shows "ok (user_record C t skb data payload w) (step_ok C B w)"
proof -
  let ?A = "log_env C"
  obtain ab w1 where 1: "audit_log_common_recv_msg C t w = Some (ab, w1)" and r1: "recs ?A (B + reply_ids w) w (ab, w1)"
    by (rule commonE [OF cfg_pool [OF assms(1)]])
  define m where "m = (if t \<noteq> AUDIT_USER_TTY then
            (if ab = None then Some (ab, w1)
             else do {
               x \<leftarrow> message_text skb data;
               audit_log_format ?A (ascii '' msg='' @ [39] @ x @ [39]) ab w1
             })
          else do {
            (ab, w) \<leftarrow> audit_log_format ?A (ascii '' data='') ab w1;
            audit_log_n_untrustedstring ?A (tty_text payload) ab w
          })"
  have "ok m (recs ?A (B + reply_ids w) w)"
  proof (cases "t = AUDIT_USER_TTY")
    case True
    obtain ab2 w2 where 2: "audit_log_format ?A (ascii '' data='') ab w1 = Some (ab2, w2)" "recs ?A (B + reply_ids w) w (ab2, w2)"
      by (rule formatE [OF r1])
    obtain ab3 w3 where "audit_log_n_untrustedstring ?A (tty_text payload) ab2 w2 = Some (ab3, w3)" "recs ?A (B + reply_ids w) w (ab3, w3)"
      by (rule untrustedE [OF 2(2)])
    then show ?thesis using True 2(1) by (simp add: m_def)
  next
    case False
    then obtain x where "message_text skb data = Some x" using assms(2) by auto
    then show ?thesis using False r1 format_recs [OF r1, of "ascii '' msg='' @ [39] @ x @ [39]"] by (auto simp: m_def elim!: ok_mono)
  qed
  then obtain ab2 w2 where 2: "m = Some (ab2, w2)" and r2: "recs ?A (B + reply_ids w) w (ab2, w2)" by (auto elim!: okE)
  have "user_record C t skb data payload w = audit_log_end ?A ab2 w2"
    using 1 2 unfolding m_def user_record_def Let_def by simp
  then show ?thesis using end_recs [OF r2] by (auto elim!: ok_mono intro: logged_step)
qed

lemma ticked:
  assumes "tick w = (n, w1)" and "cfg_ok C B w" and "cfg_ok C B w1 \<Longrightarrow> ok m (\<lambda>(e, w'). step_ok C B w1 w')"
  shows "ok m (\<lambda>(e, w'). step_ok C B w w')"
proof -
  note s = tick_step [OF assms(1,2)]
  show ?thesis using assms(3) [OF step_cfg [OF s]] by (auto elim!: ok_mono intro: step_ok_trans [OF s])
qed

lemma user_msg_runs:
  assumes "t \<noteq> AUDIT_USER_TTY \<Longrightarrow> message_text skb data \<noteq> None"
  shows "runs C B (user_msg C t skb data payload :: 'z cw \<Rightarrow> _)"
  unfolding runs_def
proof (intro allI impI)
  fix w :: "'z cw" assume w: "cfg_ok C B w"
  obtain n w1 where t1: "tick w = (n, w1)" by (metis prod.exhaust)
  obtain n2 w2 where t2: "tick w1 = (n2, w2)" by (metis prod.exhaust)
  have rec: "ok (do { w \<leftarrow> user_record C t skb data payload w'; Some (0, w) }) (\<lambda>(e, w''). step_ok C B w' w'')"
    if "cfg_ok C B w'" for w' using user_record_step [OF that assms, where payload = payload] by (auto simp: ok_bind elim!: ok_mono)
  show "ok (user_msg C t skb data payload w) (\<lambda>(e, w'). step_ok C B w w')"
  proof (cases "audit_enabled w = AUDIT_OFF \<and> t \<noteq> AUDIT_USER_AVC")
    case True
    then show ?thesis using w by (simp add: user_msg_def step_ok_refl)
  next
    case False
    have "ok (if filter_user C n t \<noteq> 1 then Some (filter_user C n t, w1)
        else
          let (err, w) = (if t = AUDIT_USER_TTY then (let (n, w) = tick w1 in (tty_push C n, w)) else (0, w1)) in
          if err \<noteq> 0 then Some (err, w)
          else do { w \<leftarrow> user_record C t skb data payload w; Some (0, w) }) (\<lambda>(e, w'). step_ok C B w w')"
    proof (rule ticked [OF t1 w])
      assume c1: "cfg_ok C B w1"
      have "ok (if tty_push C n2 \<noteq> 0 then Some (tty_push C n2, w2)
          else do { w \<leftarrow> user_record C t skb data payload w2; Some (0, w) }) (\<lambda>(e, w'). step_ok C B w1 w')"
        by (rule ticked [OF t2 c1]) (auto simp: step_ok_refl intro: rec)
      then show "ok (if filter_user C n t \<noteq> 1 then Some (filter_user C n t, w1)
        else
          let (err, w) = (if t = AUDIT_USER_TTY then (let (n, w) = tick w1 in (tty_push C n, w)) else (0, w1)) in
          if err \<noteq> 0 then Some (err, w)
          else do { w \<leftarrow> user_record C t skb data payload w; Some (0, w) }) (\<lambda>(e, w'). step_ok C B w1 w')"
        using rec [OF c1] t2 step_ok_refl [OF c1] by (auto split: if_splits)
    qed
    then show ?thesis using False t1 by (simp add: user_msg_def Let_def step_ok_refl [OF w])
  qed
qed

lemma change_rule_runs: "runs C B (change_rule C t payload :: 'z cw \<Rightarrow> _)"
  unfolding runs_def
proof (intro allI impI)
  fix w :: "'z cw" assume w: "cfg_ok C B w"
  obtain n w1 where t: "tick w = (n, w1)" by (metis prod.exhaust)
  note s = tick_step [OF t w]
  have "step_ok C B w (w1\<lparr>rule_changes := c\<rparr>)" if "audit_enabled w \<noteq> AUDIT_LOCKED" for c
  proof -
    have "cfg_ok C B (w1\<lparr>rule_changes := c\<rparr>)"
      using step_cfg [OF s] by (simp add: cfg_ok_def reply_ids_def pool_ok_def) (simp add: owned_def no_panic_def)
    then show ?thesis using s that by (simp add: step_ok_def governed_def locks_kept_def settings_ok_def)
  qed
  then show "ok (change_rule C t payload w) (\<lambda>(e, w'). step_ok C B w w')" using t received_step [OF w] step_ok_refl [OF w]
    by (auto simp: change_rule_def ok_bind Let_def elim!: ok_mono)
qed

lemma new_string_pool:
  assumes "new_string w = (k, w1)" and "pool_ok A B w"
  shows "pool_ok A (B + {#k#}) w1 \<and> same_user w w1"
  using assms by (auto simp: new_string_def pool_ok_def owned_def no_panic_def same_user_def same_settings_def)

lemma make_equiv_runs: "runs C B (make_equiv C payload :: 'z cw \<Rightarrow> _)"
  unfolding runs_def
proof (intro allI impI)
  fix w :: "'z cw" assume w: "cfg_ok C B w"
  let ?A = "log_env C" and ?B = "B + reply_ids w" and ?bufp = "drop 8 payload"
  show "ok (make_equiv C payload w) (\<lambda>(e, w'). step_ok C B w w')"
  proof (cases "length payload < 8")
    case True
    then show ?thesis using w by (simp add: make_equiv_def step_ok_refl)
  next
    case long: False
    show ?thesis
    proof (cases "unpack C ?bufp (le32_at payload 0)")
      case (Inl e)
      then show ?thesis using w long by (simp add: make_equiv_def step_ok_refl)
    next
      case (Inr old)
      obtain k1 w1 where s1: "new_string w = (k1, w1)" by (metis prod.exhaust)
      have p1: "pool_ok ?A (?B + {#k1#}) w1" and u1: "same_user w w1" using new_string_pool [OF s1 cfg_pool [OF w]] by simp_all
      show ?thesis
      proof (cases "unpack C (drop (unat (le32_at payload 0)) ?bufp) (le32_at payload 4)")
        case (Inl e)
        then show ?thesis using long Inr s1 kfree_user_pool [OF p1]
          by (auto simp: make_equiv_def ok_bind elim!: ok_mono intro: user_step same_user_trans [OF u1])
      next
        case new: (Inr new)
        obtain k2 w2 where s2: "new_string w1 = (k2, w2)" by (metis prod.exhaust)
        obtain n w3 where t: "tick w2 = (n, w3)" by (metis prod.exhaust)
        note f = tick_frame [OF t]
        have p3: "pool_ok ?A (?B + {#k1#} + {#k2#}) w3" and u3: "same_user w w3"
          using new_string_pool [OF s2 p1] frame_pool(1) [OF f] frame_same_user [OF f] u1 by (auto intro: same_user_trans)
        let ?R = "recs ?A (?B + {#k1#} + {#k2#}) w3" and ?err = "tag_tree C n"
        obtain ab4 w4 where 4: "audit_log_common_recv_msg C AUDIT_CONFIG_CHANGE w3 = Some (ab4, w4)" "?R (ab4, w4)" by (rule commonE [OF p3])
        obtain ab5 w5 where 5: "audit_log_format ?A (ascii '' op=make_equiv old='') ab4 w4 = Some (ab5, w5)" "?R (ab5, w5)" by (rule formatE [OF 4(2)])
        obtain ab6 w6 where 6: "audit_log_n_untrustedstring ?A old ab5 w5 = Some (ab6, w6)" "?R (ab6, w6)" by (rule untrustedE [OF 5(2)])
        obtain ab7 w7 where 7: "audit_log_format ?A (ascii '' new='') ab6 w6 = Some (ab7, w7)" "?R (ab7, w7)" by (rule formatE [OF 6(2)])
        obtain ab8 w8 where 8: "audit_log_n_untrustedstring ?A new ab7 w7 = Some (ab8, w8)" "?R (ab8, w8)" by (rule untrustedE [OF 7(2)])
        obtain ab9 w9 where 9: "audit_log_format ?A (ascii '' res='' @ dec (if ?err = 0 then 1 else 0)) ab8 w8 = Some (ab9, w9)" "?R (ab9, w9)"
          by (rule formatE [OF 8(2)])
        from end_recs [OF 9(2)] obtain wa where a: "audit_log_end ?A ab9 w9 = Some wa" "pool_ok ?A (?B + {#k2#} + {#k1#}) wa" "same_user w3 wa"
          by (auto simp: logged_def add_mset_commute elim!: okE)
        from kfree_user_pool [OF a(2)] obtain wb where b: "kfree k1 wa = Some wb" "pool_ok ?A (?B + {#k2#}) wb" "same_user wa wb" by (auto elim!: okE)
        from kfree_user_pool [OF b(2)] obtain wc where c: "kfree k2 wb = Some wc" "pool_ok ?A ?B wc" "same_user wb wc" by (auto elim!: okE)
        have "make_equiv C payload w = Some (?err, wc)"
          using long Inr s1 new s2 t 4(1) 5(1) 6(1) 7(1) 8(1) 9(1) a(1) b(1) c(1) by (simp add: make_equiv_def)
        moreover have "same_user w wc" by (rule same_user_trans [OF u3 same_user_trans [OF a(3) same_user_trans [OF b(3) c(3)]]])
        ultimately show ?thesis using user_step [OF _ c(2)] by simp
      qed
    qed
  qed
qed

lemma signal_info_runs: "runs C B (signal_info C portid :: 'z cw \<Rightarrow> _)"
  unfolding runs_def
proof (intro allI impI)
  fix w :: "'z cw" assume w: "cfg_ok C B w"
  have body: "ok (case kmalloc z w1 of
          (None, w) \<Rightarrow> Some (- ENOMEM, w)
        | (Some (k, _), w) \<Rightarrow> do {
            w \<leftarrow> audit_send_reply C portid AUDIT_SIGNAL_INFO payload w;
            w \<leftarrow> kfree k w;
            Some (0, w)
          }) (\<lambda>(e, w'). step_ok C B w1 w')" if w1: "cfg_ok C B w1" for w1 :: "'z cw" and payload z
  proof -
    obtain m w2 where m: "kmalloc z w1 = (m, w2)" by (metis prod.exhaust)
    note u = kmalloc_user [OF m] and p = kmalloc_pool [OF m cfg_pool [OF w1]]
    show ?thesis
    proof (cases m)
      case None
      then show ?thesis using m u p by (simp add: user_step)
    next
      case (Some q)
      obtain k bs where q: "q = (k, bs)" by (cases q)
      have "pool_ok (log_env C) (B + reply_ids w2 + {#k#}) w2" using p Some q same_user_replies [OF u] by simp
      from send_reply_step [OF this, of portid AUDIT_SIGNAL_INFO payload] obtain w3
        where 3: "audit_send_reply C portid AUDIT_SIGNAL_INFO payload w2 = Some w3" "pool_ok (log_env C) (B + reply_ids w3 + {#k#}) w3" "same_cfg w2 w3"
        by (auto elim!: okE)
      from kfree_user_pool [OF 3(2)] obtain w4 where 4: "kfree k w3 = Some w4" "pool_ok (log_env C) (B + reply_ids w3) w4" "same_user w3 w4"
        by (auto elim!: okE)
      have "governed w1 w4" using same_cfg_governed [OF same_user_cfg [OF u]] same_cfg_governed [OF 3(3)] same_cfg_governed [OF same_user_cfg [OF 4(3)]]
        by (blast intro: governed_trans)
      then show ?thesis using m Some q 3(1) 4(1,2) same_user_replies [OF 4(3)] by (simp add: step_ok_def cfg_ok_def)
    qed
  qed
  have keep: "\<And>w2 m z. kmalloc z v = (m, w2) \<Longrightarrow> sig_uid w2 = sig_uid v \<and> sig_pid w2 = sig_pid v" for v :: "'z cw"
    by (auto simp: kmalloc_def Let_def split: if_splits)
  show "ok (signal_info C portid w) (\<lambda>(e, w'). step_ok C B w w')"
  proof (cases "sig_sid w = 0")
    case True
    then show ?thesis using body [OF w, where z = 8 and payload = "le32_bytes (sig_uid w) @ le32_bytes (sig_pid w)"] keep [of _ w]
      by (auto simp: signal_info_def split: prod.splits option.splits)
  next
    case False
    obtain n w1 where t: "tick w = (n, w1)" by (metis prod.exhaust)
    have sid: "sig_sid w1 = sig_sid w" using t by (auto simp: tick_def)
    obtain e ctx where s: "secctx C n (sig_sid w) = (e, ctx)" by (metis prod.exhaust)
    have "ok (if e \<noteq> 0 then Some (e, w1)
      else (case kmalloc (8 + length ctx) w1 of
          (None, w) \<Rightarrow> Some (- ENOMEM, w)
        | (Some (k, _), w) \<Rightarrow> do {
            w \<leftarrow> audit_send_reply C portid AUDIT_SIGNAL_INFO (le32_bytes (sig_uid w1) @ le32_bytes (sig_pid w1) @ ctx) w;
            w \<leftarrow> kfree k w;
            Some (0, w)
          })) (\<lambda>(e, w'). step_ok C B w w')"
      by (rule ticked [OF t w]) (simp add: step_ok_refl body)
    then show ?thesis using False t s sid keep [of _ w1] by (auto simp: signal_info_def split: prod.splits option.splits)
  qed
qed

lemma tty_get_runs: "runs C B (zero_err (tty_get C portid))"
  by (rule runs_zero_err) (simp add: tty_get_def Let_def reply_step)

lemma tty_set_runs: "runs C B (tty_set C payload :: 'z cw \<Rightarrow> _)"
  unfolding runs_def
proof (intro allI impI)
  fix w :: "'z cw" assume w: "cfg_ok C B w"
  define s where "s = guarded_copy sizeof_tty_status payload"
  define e where "e = le32_at s 0"
  define l where "l = le32_at s 4"
  define bad where "bad = ((e \<noteq> 0 \<and> e \<noteq> 1) \<or> (l \<noteq> 0 \<and> l \<noteq> 1))"
  define w1 where "w1 = (if bad then w else w\<lparr>audit_tty := e OR ((- l) AND AUDIT_TTY_LOG_PASSWD)\<rparr>)"
  have "cfg_ok C B w1" using w by (simp add: w1_def cfg_ok_def reply_ids_def pool_ok_def) (simp add: owned_def no_panic_def)
  moreover have "governed w w1"
  proof (cases bad)
    case False
    then have "e OR ((- l) AND AUDIT_TTY_LOG_PASSWD) \<in> {0, AUDIT_TTY_ENABLE, AUDIT_TTY_LOG_PASSWD, AUDIT_TTY_ENABLE OR AUDIT_TTY_LOG_PASSWD}"
      by (auto simp: bad_def)
    then show ?thesis using False by (simp add: w1_def governed_def frozen_def locks_kept_def settings_ok_def)
  qed (simp add: w1_def)
  ultimately have s1: "step_ok C B w w1" by (simp add: step_ok_def)
  have "ok (log_received C AUDIT_CONFIG_CHANGE x w1) (step_ok C B w)" for x
    by (rule ok_mono [OF received_step [OF step_cfg [OF s1]]]) (rule step_ok_trans [OF s1])
  then have rec: "ok (do { w \<leftarrow> log_received C AUDIT_CONFIG_CHANGE x w1; Some (r, w) }) (\<lambda>(e, w'). step_ok C B w w')" for x r
    by (simp add: ok_bind)
  show "ok (tty_set C payload w) (\<lambda>(e, w'). step_ok C B w w')"
    unfolding tty_set_def Let_def s_def [symmetric] e_def [symmetric] l_def [symmetric] bad_def [symmetric]
    using rec unfolding w1_def by (cases bad) simp_all
qed

lemma list_rules_runs: "runs C B (list_rules_send C)"
  unfolding runs_def list_rules_send_def by (auto split: prod.splits intro: tick_step)

lemma get_runs:
  "runs C B (zero_err (audit_get_status C portid))" "runs C B (zero_err (audit_get_feature C portid))"
  "runs C B (zero_err (log_received C t x))"
  by (rule runs_zero_err; simp add: audit_get_status_def audit_get_feature_def reply_step received_step)+

section \<open>Dispatch\<close>

lemma runs_if: "(b \<Longrightarrow> runs C B f) \<Longrightarrow> (\<not> b \<Longrightarrow> runs C B g) \<Longrightarrow> runs C B (\<lambda>w. if b then f w else g w)"
  by (simp add: runs_def)

lemma dispatch_runs:
  assumes "msg_fits skb off"
  shows "runs C B (dispatch_msg C portid skb off)"
  unfolding dispatch_msg_def [abs_def] Let_def
  by (intro runs_if get_runs set_status_runs set_feature_runs user_msg_runs change_rule_runs make_equiv_runs
      signal_info_runs tty_get_runs tty_set_runs list_rules_runs runs_return)
    (use assms in \<open>simp_all add: msg_fits_def\<close>)

lemma receive_msg_runs:
  assumes "msg_fits skb off"
  shows "runs C B (audit_receive_msg C portid skb off :: 'z cw \<Rightarrow> _)"
  unfolding runs_def
proof (intro allI impI)
  fix w :: "'z cw" assume w: "cfg_ok C B w"
  have disp: "ok (do { (err, w) \<leftarrow> dispatch_msg C portid skb off w1;
      Some (if err < 0 \<or> nlmsg_type skb off = AUDIT_SIGNAL_INFO then err else 0, w) }) (\<lambda>(e, w'). step_ok C B w1 w')"
    if "cfg_ok C B w1" for w1
    using runsD [OF dispatch_runs [OF assms] that, of portid] by (auto simp: ok_bind elim!: ok_mono)
  obtain n w1 where t: "tick w = (n, w1)" by (metis prod.exhaust)
  note s = tick_step [OF t w]
  have s2: "step_ok C B w (w1\<lparr>kauditd_started := True\<rparr>)"
  proof -
    have "cfg_ok C B (w1\<lparr>kauditd_started := True\<rparr>)"
      using step_cfg [OF s] by (simp add: cfg_ok_def reply_ids_def pool_ok_def) (simp add: owned_def no_panic_def)
    moreover have "same_cfg w1 (w1\<lparr>kauditd_started := True\<rparr>)" by (simp add: same_cfg_def)
    ultimately show ?thesis using s by (auto simp: step_ok_def intro: governed_trans same_cfg_governed)
  qed
  have disp2: "ok (do { (err, w) \<leftarrow> dispatch_msg C portid skb off (w1\<lparr>kauditd_started := True\<rparr>);
      Some (if err < 0 \<or> nlmsg_type skb off = AUDIT_SIGNAL_INFO then err else 0, w) }) (\<lambda>(e, w'). step_ok C B w w')"
    using disp [OF step_cfg [OF s2]] by (auto elim!: ok_mono intro: step_ok_trans [OF s2])
  show "ok (audit_receive_msg C portid skb off w) (\<lambda>(e, w'). step_ok C B w w')"
    using disp [OF w] disp2 s step_ok_refl [OF w] t by (simp add: audit_receive_msg_def Let_def)
qed

section \<open>Sequences of messages\<close>

text \<open>Every message of the socket buffer fits.\<close>

function fits_from :: "byte list \<Rightarrow> nat \<Rightarrow> int \<Rightarrow> bool" where
  "fits_from skb off len =
     (if nlmsg_ok skb off len then
        msg_fits skb off \<and> fits_from skb (off + nlmsg_align (nlmsg_length skb off)) (len - int (nlmsg_align (nlmsg_length skb off)))
      else True)"
  by pat_completeness auto
termination
proof (relation "measure (\<lambda>(skb, off, len). nat len)", goal_cases)
  case (2 skb off len)
  then show ?case using nlmsg_align_ge [of "nlmsg_length skb off"] by (auto simp: nlmsg_ok_def)
qed simp

declare fits_from.simps [simp del]

lemma acks_step: "step_ok C B w w1 \<Longrightarrow> step_ok C B w (w1\<lparr>acks := a\<rparr>)"
proof -
  assume s: "step_ok C B w w1"
  then have "cfg_ok C B (w1\<lparr>acks := a\<rparr>)"
    by (simp add: step_ok_def cfg_ok_def reply_ids_def pool_ok_def) (simp add: owned_def no_panic_def)
  moreover have "same_cfg w1 (w1\<lparr>acks := a\<rparr>)" by (simp add: same_cfg_def)
  ultimately show ?thesis using s by (auto simp: step_ok_def intro: governed_trans same_cfg_governed)
qed

lemma receive_from_step:
  fixes w :: "'z cw"
  assumes "cfg_ok C B w" and "fits_from skb off len"
  shows "ok (receive_from C portid skb off len w) (step_ok C B w)"
  using assms
proof (induction skb off len arbitrary: w rule: fits_from.induct)
  case (1 skb off len)
  note fits = "1.prems"(2) [unfolded fits_from.simps [of skb off len]]
  show ?case
  proof (cases "nlmsg_ok skb off len")
    case False
    then show ?thesis using step_ok_refl [OF "1.prems"(1)] by (simp add: receive_from.simps)
  next
    case True
    define n where "n = nlmsg_align (nlmsg_length skb off)"
    have f: "msg_fits skb off" and f2: "fits_from skb (off + n) (len - int n)" using fits True by (simp_all add: n_def)
    obtain e w1 where m: "audit_receive_msg C portid skb off w = Some (e, w1)" "step_ok C B w w1"
      using runsD [OF receive_msg_runs [OF f] "1.prems"(1), of portid] by (auto elim!: okE)
    define w2 where "w2 = (if e \<noteq> 0 \<or> nlmsg_wants_ack skb off then w1\<lparr>acks := (nlmsg_seq skb off, e) # acks w1\<rparr> else w1)"
    have s2: "step_ok C B w w2" using m(2) by (simp add: w2_def acks_step)
    have "ok (receive_from C portid skb (off + n) (len - int n) w2) (step_ok C B w2)"
      unfolding n_def by (rule "1.IH" [OF True step_cfg [OF s2] f2 [unfolded n_def]])
    moreover have "receive_from C portid skb off len w = receive_from C portid skb (off + n) (len - int n) w2"
      using True m(1) by (subst receive_from.simps) (simp add: w2_def n_def Let_def)
    ultimately show ?thesis by (auto elim!: ok_mono intro: step_ok_trans [OF s2])
  qed
qed

lemma receive_skb_step:
  "cfg_ok C B w \<Longrightarrow> fits_from skb 0 (int (length skb)) \<Longrightarrow> ok (audit_receive_skb C portid skb w) (step_ok C B w)"
  unfolding audit_receive_skb_def by (rule receive_from_step)

lemma reply_thread_step:
  fixes w :: "'z cw"
  assumes "cfg_ok C B w"
  shows "ok (audit_send_reply_thread C w) (step_ok C B w)"
proof (cases "reply_threads w")
  case Nil
  then show ?thesis using step_ok_refl [OF assms] by (simp add: audit_send_reply_thread_def)
next
  case (Cons r rs)
  obtain k skb portid t payload where r: "r = (k, skb, portid, t, payload)" by (cases r)
  let ?w = "w\<lparr>reply_threads := rs\<rparr>"
  have ids: "reply_ids w = {#k, skb#} + reply_ids ?w" by (simp add: reply_ids_def Cons r)
  have c0: "same_cfg w ?w" by (simp add: same_cfg_def)
  have "pool_ok (log_env C) (B + reply_ids ?w + {#k#} + {#skb#}) ?w"
    using cfg_pool [OF assms] unfolding ids by (simp add: pool_ok_def add_mset_commute) (simp add: owned_def no_panic_def)
  from unicast_user [OF this] obtain e w1 where 1: "netlink_unicast C skb ?w = Some (e, w1)"
    "pool_ok (log_env C) (B + reply_ids ?w + {#k#}) w1" "same_user ?w w1" by (auto elim!: okE)
  define w2 where "w2 = (if e < 0 then w1 else w1\<lparr>replies := (portid, t, payload) # replies w1\<rparr>)"
  have "get_setting x (w1\<lparr>replies := l\<rparr>) = get_setting x w1" for x l by (cases x) simp_all
  then have c2: "same_cfg ?w w2" "reply_ids w2 = reply_ids ?w"
    using same_user_cfg [OF 1(3)] same_user_replies [OF 1(3)] by (simp_all add: w2_def same_cfg_def reply_ids_def)
  have "pool_ok (log_env C) (B + reply_ids ?w + {#k#}) w2"
    using 1(2) by (simp add: w2_def pool_ok_def) (simp add: owned_def no_panic_def)
  from kfree_user_pool [OF this] obtain w3 where 3: "kfree k w2 = Some w3" "pool_ok (log_env C) (B + reply_ids ?w) w3" "same_user w2 w3"
    by (auto elim!: okE)
  have "governed w w3" using same_cfg_governed [OF c0] same_cfg_governed [OF c2(1)] same_cfg_governed [OF same_user_cfg [OF 3(3)]]
    by (blast intro: governed_trans)
  moreover have "reply_ids w3 = reply_ids ?w" using same_user_replies [OF 3(3)] c2(2) by simp
  ultimately show ?thesis using 1(1) 3(1,2)
    by (simp add: audit_send_reply_thread_def Cons r w2_def [symmetric] step_ok_def cfg_ok_def)
qed

lemma turn_step:
  fixes w :: "'z cw"
  assumes "cfg_ok C B w"
  shows "ok (kauditd_turn (log_env C) w) (step_ok C B w)"
  using kauditd_turn_ok [OF cfg_pool [OF assms]]
  by (auto simp: progress_def elim!: ok_mono intro!: user_step kauditd_turn_user)

text \<open>
  The runs of the system: messages of any caller \<open>C i\<close>, the threads that send replies, the
  daemon's thread. The callers differ, the log is one.
\<close>

inductive cfg_reach :: "audit_env \<Rightarrow> 'z cw \<Rightarrow> 'z cw \<Rightarrow> bool" for A w0 where
  reach_start: "cfg_reach A w0 w0"
| reach_message: "cfg_reach A w0 w \<Longrightarrow> log_env C = A \<Longrightarrow> fits_from skb 0 (int (length skb)) \<Longrightarrow>
    audit_receive_skb C portid skb w = Some w' \<Longrightarrow> cfg_reach A w0 w'"
| reach_reply: "cfg_reach A w0 w \<Longrightarrow> log_env C = A \<Longrightarrow> audit_send_reply_thread C w = Some w' \<Longrightarrow> cfg_reach A w0 w'"
| reach_turn: "cfg_reach A w0 w \<Longrightarrow> kauditd_turn A w = Some w' \<Longrightarrow> cfg_reach A w0 w'"

lemma cfg_ok_env: "log_env C = log_env D \<Longrightarrow> step_ok C B w w' = step_ok D B w w'"
  by (simp add: step_ok_def cfg_ok_def)

lemma cfg_reach_step:
  fixes w0 w :: "'z cw"
  assumes "cfg_reach (log_env D) w0 w" and "cfg_ok D B w0"
  shows "step_ok D B w0 w"
  using assms(1)
proof (induction rule: cfg_reach.induct)
  case reach_start
  show ?case by (rule step_ok_refl [OF assms(2)])
next
  case (reach_message w C skb portid w')
  then have "cfg_ok C B w" by (simp add: step_ok_def cfg_ok_def)
  from receive_skb_step [OF this reach_message(3), of portid] have "step_ok D B w w'"
    using reach_message(4) cfg_ok_env [OF reach_message(2), of B w w'] by simp
  then show ?case by (rule step_ok_trans [OF reach_message.IH])
next
  case (reach_reply w C w')
  then have "cfg_ok C B w" by (simp add: step_ok_def cfg_ok_def)
  from reply_thread_step [OF this] have "step_ok D B w w'"
    using reach_reply(3) cfg_ok_env [OF reach_reply(2), of B w w'] by simp
  then show ?case by (rule step_ok_trans [OF reach_reply.IH])
next
  case (reach_turn w w')
  from turn_step [OF step_cfg [OF reach_turn.IH]] have "step_ok D B w w'" using reach_turn(2) by simp
  then show ?case by (rule step_ok_trans [OF reach_turn.IH])
qed

section \<open>What a status request does\<close>

text \<open>A request names some settings. Afterwards all of them are made, or some of them.\<close>

type_synonym request = "setting \<Rightarrow> u32 option"

definition all_made :: "request \<Rightarrow> 'z cw \<Rightarrow> 'z cw \<Rightarrow> bool" where
  "all_made r w w' \<longleftrightarrow> (\<forall>x. get_setting x w' = (case r x of None \<Rightarrow> get_setting x w | Some v \<Rightarrow> v))"

definition some_made :: "request \<Rightarrow> 'z cw \<Rightarrow> 'z cw \<Rightarrow> bool" where
  "some_made r w w' \<longleftrightarrow> (\<forall>x. get_setting x w' = get_setting x w \<or> r x = Some (get_setting x w'))"

definition makes :: "cfg_env \<Rightarrow> nat multiset \<Rightarrow> request \<Rightarrow> ('z cw \<Rightarrow> (int \<times> 'z cw) option) \<Rightarrow> bool" where
  "makes C B r f \<longleftrightarrow> (\<forall>w. cfg_ok C B w \<longrightarrow> ok (f w) (\<lambda>(e, w'). e \<le> 0 \<and> step_ok C B w w' \<and> (if e = 0 then all_made r w w' else some_made r w w')))"

text \<open>One setting or none: on an error nothing is made.\<close>

definition makes_one :: "cfg_env \<Rightarrow> nat multiset \<Rightarrow> request \<Rightarrow> ('z cw \<Rightarrow> (int \<times> 'z cw) option) \<Rightarrow> bool" where
  "makes_one C B r f \<longleftrightarrow> (\<forall>w. cfg_ok C B w \<longrightarrow> ok (f w) (\<lambda>(e, w'). e \<le> 0 \<and> step_ok C B w w' \<and> all_made (if e = 0 then r else Map.empty) w w'))"

lemma makes_oneD: "makes_one C B r f \<Longrightarrow> cfg_ok C B w \<Longrightarrow>
    ok (f w) (\<lambda>(e, w'). e \<le> 0 \<and> step_ok C B w w' \<and> all_made (if e = 0 then r else Map.empty) w w')"
  by (simp add: makes_one_def)

lemma makesD: "makes C B r f \<Longrightarrow> cfg_ok C B w \<Longrightarrow>
    ok (f w) (\<lambda>(e, w'). e \<le> 0 \<and> step_ok C B w w' \<and> (if e = 0 then all_made r w w' else some_made r w w'))"
  by (simp add: makes_def)

lemma makes_return: "makes C B Map.empty (\<lambda>w. Some (0, w))"
  by (simp add: makes_def all_made_def step_ok_refl)

lemma all_made_add:
  assumes "all_made r w w1" and "all_made s w1 w2"
  shows "all_made (r ++ s) w w2"
  using assms by (auto simp: all_made_def map_add_def split: option.splits)

lemma some_made_add:
  assumes "all_made r w w1" and "some_made s w1 w2" and "dom r \<inter> dom s = {}"
  shows "some_made (r ++ s) w w2"
  unfolding some_made_def
proof
  fix x
  have 1: "get_setting x w1 = (case r x of None \<Rightarrow> get_setting x w | Some v \<Rightarrow> v)"
    and 2: "get_setting x w2 = get_setting x w1 \<or> s x = Some (get_setting x w2)" using assms(1,2) by (auto simp: all_made_def some_made_def)
  have "r x = None \<or> s x = None" using assms(3) by (auto simp: dom_def)
  then show "get_setting x w2 = get_setting x w \<or> (r ++ s) x = Some (get_setting x w2)"
    using 1 2 by (auto simp: map_add_def split: option.splits)
qed

lemma status_step_makes:
  fixes f g :: "'z cw \<Rightarrow> (int \<times> 'z cw) option"
  assumes "b \<Longrightarrow> makes_one C B r f" and "makes C B s g" and "dom r \<inter> dom s = {}"
  shows "makes C B ((if b then r else Map.empty) ++ s) (status_step b f g)"
  unfolding makes_def
proof (intro allI impI)
  fix w :: "'z cw" assume w: "cfg_ok C B w"
  show "ok (status_step b f g w) (\<lambda>(e, w'). e \<le> 0 \<and> step_ok C B w w' \<and>
     (if e = 0 then all_made ((if b then r else Map.empty) ++ s) w w' else some_made ((if b then r else Map.empty) ++ s) w w'))"
  proof (cases b)
    case False
    then show ?thesis using makesD [OF assms(2) w] by (auto simp: status_step_def elim!: ok_mono)
  next
    case True
    then obtain e w1 where 1: "f w = Some (e, w1)" "e \<le> 0" "step_ok C B w w1" "all_made (if e = 0 then r else Map.empty) w w1"
      using makes_oneD [OF assms(1) w] by (auto elim!: okE)
    show ?thesis
    proof (cases "e = 0")
      case False
      then have "some_made (r ++ s) w w1" using 1(4) by (simp add: all_made_def some_made_def)
      then show ?thesis using True False 1 by (simp add: status_step_def)
    next
      case e: True
      then have 2: "all_made r w w1" using 1(4) by simp
      show ?thesis using True e 1(1) makesD [OF assms(2) step_cfg [OF 1(3)]]
        by (auto simp: status_step_def elim!: ok_mono intro: step_ok_trans [OF 1(3)] all_made_add [OF 2] some_made_add [OF 2 _ assms(3)])
    qed
  qed
qed

text \<open>Errors of the security module are negative, as in all of the kernel.\<close>

definition errors_negative :: "audit_env \<Rightarrow> bool" where
  "errors_negative A \<longleftrightarrow> (\<forall>n s. fst (secctx A n s) \<le> 0)"

lemma task_context_error:
  "errors_negative A \<Longrightarrow> audit_log_task_context A ab w = Some (rc, ab', w') \<Longrightarrow> rc \<le> 0"
  by (auto simp: audit_log_task_context_def bind_eq_Some_conv errors_negative_def Let_def split: prod.splits if_splits)
    (metis fst_conv)+

lemma config_change_error:
  "errors_negative A \<Longrightarrow> audit_log_config_change A name new old allow w = Some (rc, w') \<Longrightarrow> rc \<le> 0"
  by (auto simp: audit_log_config_change_def bind_eq_Some_conv split: if_splits dest: task_context_error)

lemma do_config_error:
  assumes "errors_negative A" and "audit_do_config_change A x v w = Some (rc, w')"
  shows "rc \<le> 0"
  using assms config_change_error [OF assms(1)]
  by (auto simp: audit_do_config_change_def bind_eq_Some_conv Let_def split: if_splits)

lemma config_makes:
  fixes w :: "'z cw"
  assumes "errors_negative (log_env C)" and "cfg_ok C B w"
  shows "ok (audit_do_config_change (log_env C) x v w) (\<lambda>(e, w'). e \<le> 0 \<and> all_made (if e = 0 then Map.empty(x \<mapsto> v) else Map.empty) w w')"
proof -
  obtain e w' where r: "audit_do_config_change (log_env C) x v w = Some (e, w')"
    and p: "\<exists>w1. logged (log_env C) (B + reply_ids w) w w1 \<and>
     (e \<noteq> 0 \<and> w' = w1 \<or> e = 0 \<and> audit_enabled w \<noteq> AUDIT_LOCKED \<and> w' = put_setting x v w1)"
    using do_config_run [OF assms(2), of x v] by (auto elim!: okE)
  then obtain w1 where l: "same_user w w1" and c: "e \<noteq> 0 \<and> w' = w1 \<or> e = 0 \<and> w' = put_setting x v w1"
    by (auto simp: logged_def)
  have "get_setting y w1 = get_setting y w" for y by (rule same_user_setting [OF l])
  then have "all_made (if e = 0 then Map.empty(x \<mapsto> v) else Map.empty) w w'"
    using c by (auto simp: all_made_def get_put_setting)
  then show ?thesis using do_config_error [OF assms(1) r] r by simp
qed

lemma makes_oneI:
  fixes f :: "'z cw \<Rightarrow> (int \<times> 'z cw) option"
  assumes "runs C B f" and "\<And>w. cfg_ok C B w \<Longrightarrow> ok (f w) (\<lambda>(e, w'). e \<le> 0 \<and> all_made (if e = 0 then r else Map.empty) w w')"
  shows "makes_one C B r f"
  unfolding makes_one_def
proof (intro allI impI)
  fix w :: "'z cw" assume w: "cfg_ok C B w"
  show "ok (f w) (\<lambda>(e, w'). e \<le> 0 \<and> step_ok C B w w' \<and> all_made (if e = 0 then r else Map.empty) w w')"
    using runsD [OF assms(1) w] assms(2) [OF w] by (auto elim!: okE)
qed

lemma all_made_none: "all_made Map.empty w w"
  by (simp add: all_made_def)

lemma settings_make:
  assumes "errors_negative (log_env C)"
  shows "makes_one C B [Enabled \<mapsto> v] (audit_set_enabled (log_env C) v :: 'z cw \<Rightarrow> _)"
    and "v \<noteq> AUDIT_FAIL_PANIC \<Longrightarrow> makes_one C B [Failure \<mapsto> v] (audit_set_failure (log_env C) v :: 'z cw \<Rightarrow> _)"
    and "makes_one C B [Rate_limit \<mapsto> v] (audit_set_rate_limit (log_env C) v :: 'z cw \<Rightarrow> _)"
    and "makes_one C B [Backlog_limit \<mapsto> v] (audit_set_backlog_limit (log_env C) v :: 'z cw \<Rightarrow> _)"
    and "makes_one C B [Wait_time \<mapsto> v] (set_wait_time C n v :: 'z cw \<Rightarrow> _)"
proof -
  note c = config_makes [OF assms]
  have ev: "all_made r w (w'\<lparr>audit_ever_enabled := u\<rparr>) = all_made r w w'" for r u and w w' :: "'z cw" by (simp add: all_made_def)
  show "makes_one C B [Enabled \<mapsto> v] (audit_set_enabled (log_env C) v :: 'z cw \<Rightarrow> _)"
    by (rule makes_oneI [OF set_enabled_runs]) (auto simp: audit_set_enabled_def ok_bind all_made_none ev intro!: ok_mono [OF c])
  show "makes_one C B [Failure \<mapsto> v] (audit_set_failure (log_env C) v :: 'z cw \<Rightarrow> _)" if "v \<noteq> AUDIT_FAIL_PANIC"
    by (rule makes_oneI [OF set_failure_runs [OF that]]) (auto simp: audit_set_failure_def all_made_none intro!: c)
  show "makes_one C B [Rate_limit \<mapsto> v] (audit_set_rate_limit (log_env C) v :: 'z cw \<Rightarrow> _)"
    by (rule makes_oneI [OF set_limit_runs(1)]) (auto simp: audit_set_rate_limit_def intro!: c)
  show "makes_one C B [Backlog_limit \<mapsto> v] (audit_set_backlog_limit (log_env C) v :: 'z cw \<Rightarrow> _)"
    by (rule makes_oneI [OF set_limit_runs(2)]) (auto simp: audit_set_backlog_limit_def intro!: c)
  show "makes_one C B [Wait_time \<mapsto> v] (set_wait_time C n v :: 'z cw \<Rightarrow> _)"
    by (rule makes_oneI [OF set_limit_runs(3)])
      (auto simp: set_wait_time_def audit_set_backlog_wait_time_def all_made_none intro!: c)
qed

lemma set_pid_makes: "makes_one C B Map.empty (audit_set_pid C portid pid)"
  by (rule makes_oneI [OF set_pid_runs])
    (auto intro!: ok_mono [OF set_pid_quiet] simp: quiet_step_def same_cfg_def all_made_def)

text \<open>The settings a status message names, in the completed structure.\<close>

definition requested :: "byte list \<Rightarrow> request" where
  "requested payload x =
     (let s = guarded_copy sizeof_status payload; mask = le32_at s 0 in
      case x of
        Enabled \<Rightarrow> if mask AND STATUS_ENABLED \<noteq> 0 then Some (le32_at s 4) else None
      | Failure \<Rightarrow> if mask AND STATUS_FAILURE \<noteq> 0 then Some (le32_at s 8) else None
      | Rate_limit \<Rightarrow> if mask AND STATUS_RATE_LIMIT \<noteq> 0 then Some (le32_at s 16) else None
      | Backlog_limit \<Rightarrow> if mask AND STATUS_BACKLOG_LIMIT \<noteq> 0 then Some (le32_at s 20) else None
      | Wait_time \<Rightarrow> if mask AND STATUS_BACKLOG_WAIT_TIME \<noteq> 0 then Some (le32_at s 36) else None)"

definition opt_map :: "bool \<Rightarrow> setting \<Rightarrow> u32 \<Rightarrow> request" where
  "opt_map b x v = (if b then [x \<mapsto> v] else Map.empty)"

lemma status_step_makes':
  assumes "b \<Longrightarrow> makes_one C B [x \<mapsto> v] f" and "makes C B s g" and "x \<notin> dom s"
  shows "makes C B (opt_map b x v ++ s) (status_step b f g)"
  unfolding opt_map_def by (rule status_step_makes [OF assms(1,2)]) (use assms(3) in auto)

lemma dom_opt_map: "y \<in> dom (opt_map b x v ++ s) \<longleftrightarrow> b \<and> y = x \<or> y \<in> dom s"
  by (auto simp: opt_map_def)

lemma set_status_makes:
  assumes "errors_negative (log_env C)" and "\<not> asks_panic payload"
  shows "makes C B (requested payload) (audit_set_status C portid payload)"
proof -
  define s where "s = guarded_copy sizeof_status payload"
  define b where "b = (\<lambda>m. le32_at s 0 AND m \<noteq> 0)"
  have f: "b STATUS_FAILURE \<Longrightarrow> le32_at s 8 \<noteq> AUDIT_FAIL_PANIC" using assms(2) by (simp add: asks_panic_def s_def b_def Let_def)
  note m = settings_make [OF assms(1)]
  note chain = status_step_makes' [OF m(1) status_step_makes' [OF m(2) status_step_makes [OF set_pid_makes
    status_step_makes' [OF m(3) status_step_makes' [OF m(4) status_step_makes' [OF m(5) makes_return]]]]]]
  have "makes C B (opt_map (b STATUS_ENABLED) Enabled (le32_at s 4) ++ (opt_map (b STATUS_FAILURE) Failure (le32_at s 8) ++
      ((if b STATUS_PID then Map.empty else Map.empty) ++ (opt_map (b STATUS_RATE_LIMIT) Rate_limit (le32_at s 16) ++
      (opt_map (b STATUS_BACKLOG_LIMIT) Backlog_limit (le32_at s 20) ++ (opt_map (b STATUS_BACKLOG_WAIT_TIME) Wait_time (le32_at s 36) ++ Map.empty))))))
    (status_step (b STATUS_ENABLED) (audit_set_enabled (log_env C) (le32_at s 4)) (
      status_step (b STATUS_FAILURE) (audit_set_failure (log_env C) (le32_at s 8)) (
      status_step (b STATUS_PID) (audit_set_pid C portid (le32_at s 12)) (
      status_step (b STATUS_RATE_LIMIT) (audit_set_rate_limit (log_env C) (le32_at s 16)) (
      status_step (b STATUS_BACKLOG_LIMIT) (audit_set_backlog_limit (log_env C) (le32_at s 20)) (
      status_step (b STATUS_BACKLOG_WAIT_TIME) (set_wait_time C (NLMSG_HDRLEN + length payload) (le32_at s 36)) (
      (\<lambda>w. Some (0, w)))))))))"
    by (rule chain) (simp_all add: f opt_map_def)
  moreover have "opt_map (b STATUS_ENABLED) Enabled (le32_at s 4) ++ (opt_map (b STATUS_FAILURE) Failure (le32_at s 8) ++
      ((if b STATUS_PID then Map.empty else Map.empty) ++ (opt_map (b STATUS_RATE_LIMIT) Rate_limit (le32_at s 16) ++
      (opt_map (b STATUS_BACKLOG_LIMIT) Backlog_limit (le32_at s 20) ++ (opt_map (b STATUS_BACKLOG_WAIT_TIME) Wait_time (le32_at s 36) ++ Map.empty)))))
    = requested payload"
    by (rule ext, rename_tac x, case_tac x) (auto simp: opt_map_def requested_def s_def b_def Let_def map_add_def)
  ultimately show ?thesis by (simp add: audit_set_status_def [abs_def] s_def b_def Let_def)
qed

lemma all_made_some:
  assumes "all_made r w w'" shows "some_made r w w'"
  unfolding some_made_def
proof
  fix x
  have "get_setting x w' = (case r x of None \<Rightarrow> get_setting x w | Some v \<Rightarrow> v)" using assms by (simp add: all_made_def)
  then show "get_setting x w' = get_setting x w \<or> r x = Some (get_setting x w')" by (cases "r x") simp_all
qed

section \<open>The properties\<close>


text \<open>
  C32: the state of the configuration is well typed in every reachable state: auditing is off,
  on or locked, the answer to a failure is one of three, the tty switches are two bits, auditing that
  is on was once enabled; and every object is owned once, by the log, by a reply under way or
  by somebody else.
\<close>

theorem audit_settings_typed:
  fixes w0 w :: "'z cw"
  assumes "cfg_reach (log_env C) w0 w" and "cfg_ok C B w0" and "settings_ok w0"
  shows "settings_ok w \<and> mset (klive w) = B + reply_ids w + owned w"
  using cfg_reach_step [OF assms(1,2)] assms(3) by (simp add: step_ok_def governed_def cfg_ok_def pool_ok_def)

text \<open>
  C33: a feature that is locked keeps its value and its lock in every reachable state, whoever
  asks for a change.
\<close>

theorem audit_feature_locks:
  fixes w0 w :: "'z cw"
  assumes "cfg_reach (log_env C) w0 w" and "cfg_ok C B w0" and "bit (af_lock w0) i"
  shows "bit (af_lock w) i \<and> bit (af_features w) i = bit (af_features w0) i"
  using cfg_reach_step [OF assms(1,2)] assms(3) by (simp add: step_ok_def governed_def locks_kept_def)


text \<open>
  A request to set features is read without looking at its length: a caller with the
  capability who sends a message that is only a header makes the kernel read behind the
  socket buffer.
\<close>

theorem audit_set_feature_overread:
  assumes "init_user_ns C" and "init_pid_ns C" and "cap_control C" and "kauditd_started w"
    and "nlmsg_ok skb 0 (int (length skb))" and "nlmsg_type skb 0 = AUDIT_SET_FEATURE" and "length skb < NLMSG_HDRLEN + sizeof_features"
  shows "audit_receive_skb C portid skb w = None"
proof -
  have "audit_set_feature C skb w = None" using assms(7) by (simp add: audit_set_feature_def buf_read_def)
  then have "audit_receive_msg C portid skb 0 w = None" using assms(1-4,6)
    by (simp add: audit_receive_msg_def audit_netlink_ok_def dispatch_msg_def)
  then show ?thesis using assms(5) by (simp add: audit_receive_skb_def receive_from.simps)
qed

section \<open>Concrete instances\<close>

definition calm_caller :: cfg_env where
  "calm_caller = audit_env.extend calm_env (cfg_env.fields True True True True 7 7 0
     \<lparr>tk_ppid = 1, tk_pid = 7, tk_uid = 0, tk_gid = 0, tk_euid = 0, tk_suid = 0, tk_fsuid = 0, tk_egid = 0, tk_sgid = 0, tk_fsgid = 0,
        tk_tty = None, tk_comm = [108, 110], tk_exe = None\<rparr>
     (\<lambda>_. 0) (\<lambda>_ _. 1) (\<lambda>_. 0) (\<lambda>_. 0) (\<lambda>_. 0) (\<lambda>_. 0) (\<lambda>_ _. Inl (- EINVAL)))"

definition calm_cfg :: cfg_world where
  "calm_cfg = audit_world.extend calm_world (cfg_world.fields 2 2 0 True 0 0 0 0 [] [] [] [])"

lemma calm_caller_env: "log_env calm_caller = calm_env"
  by (simp add: calm_caller_def audit_env.defs)

lemma calm_cfg_ok: "cfg_ok calm_caller {#} calm_cfg" "cfg_ok calm_caller {#} (calm_cfg\<lparr>audit_enabled := AUDIT_LOCKED\<rparr>)"
  by (simp_all add: cfg_ok_def calm_caller_env calm_cfg_def reply_ids_def pool_ok_def owned_def no_panic_def audit_world.defs cfg_world.defs
      calm_world_def)

text \<open>A request to turn auditing off, and its message.\<close>

definition off_request :: "byte list" where
  "off_request = le32_bytes STATUS_ENABLED @ le32_bytes AUDIT_OFF @ replicate 32 0"

definition off_message :: "byte list" where
  "off_message = le32_bytes 56 @ le16_bytes 1001 @ le16_bytes 4 @ replicate 8 0 @ off_request"

lemma off_no_panic: "\<not> asks_panic off_request"
  by (simp add: asks_panic_def off_request_def guarded_copy_def Let_def le32_at_def le32_bytes_def)

lemma off_message_parts:
  "length off_message = 56" "nlmsg_length off_message 0 = 56" "nlmsg_type off_message 0 = AUDIT_SET" "nlmsg_payload off_message 0 = off_request"
  by code_simp+

lemma off_message_fits: "fits_from off_message 0 (int (length off_message))"
proof -
  have "msg_fits off_message 0"
    using off_no_panic by (simp add: msg_fits_def off_message_parts user_message_def)
  moreover have "fits_from off_message 56 0" by (subst fits_from.simps) (simp add: nlmsg_ok_def)
  ultimately show ?thesis
    by (subst fits_from.simps) (simp add: off_message_parts nlmsg_align_def)
qed

lemma calm_reach:
  assumes "cfg_ok calm_caller {#} w0"
  obtains w where "audit_receive_skb calm_caller 5 off_message w0 = Some w" and "cfg_reach calm_env w0 w"
proof -
  from receive_skb_step [OF assms off_message_fits, of 5] obtain w where "audit_receive_skb calm_caller 5 off_message w0 = Some w"
    by (auto elim!: okE)
  then show ?thesis using reach_message [OF reach_start calm_caller_env off_message_fits] that by blast
qed


theorem audit_settings_typed_witness:
  "\<exists>w. audit_receive_skb calm_caller 5 off_message calm_cfg = Some w \<and> settings_ok w"
proof -
  obtain w where r: "audit_receive_skb calm_caller 5 off_message calm_cfg = Some w" and c: "cfg_reach calm_env calm_cfg w"
    by (rule calm_reach [OF calm_cfg_ok(1)])
  have "settings_ok calm_cfg" by (simp add: settings_ok_def calm_cfg_def calm_world_def audit_world.defs cfg_world.defs)
  from audit_settings_typed [OF c [folded calm_caller_env] calm_cfg_ok(1) this] r show ?thesis by auto
qed

theorem audit_feature_locks_witness:
  "\<exists>w. audit_receive_skb calm_caller 5 off_message calm_cfg = Some w \<and> bit (af_lock w) 1 \<and> bit (af_features w) 1"
proof -
  obtain w where r: "audit_receive_skb calm_caller 5 off_message calm_cfg = Some w" and c: "cfg_reach calm_env calm_cfg w"
    by (rule calm_reach [OF calm_cfg_ok(1)])
  have "af_lock calm_cfg = 2" "af_features calm_cfg = 2" by (simp_all add: calm_cfg_def calm_world_def audit_world.defs cfg_world.defs)
  moreover have "bit (2 :: u32) 1" by (simp add: bit_iff_odd)
  ultimately show ?thesis using audit_feature_locks [OF c [folded calm_caller_env] calm_cfg_ok(1), of 1] r by auto
qed


theorem audit_set_feature_overread_witness:
  "audit_receive_skb calm_caller 5 (le32_bytes 16 @ le16_bytes 1018 @ replicate 10 0) calm_cfg = None"
proof (rule audit_set_feature_overread)
  show "init_user_ns calm_caller" and "init_pid_ns calm_caller" and "cap_control calm_caller"
    by (simp_all add: calm_caller_def calm_env_def audit_env.defs cfg_env.defs)
  show "kauditd_started calm_cfg" by (simp add: calm_cfg_def calm_world_def audit_world.defs cfg_world.defs)
  show "nlmsg_ok (le32_bytes 16 @ le16_bytes 1018 @ replicate 10 0) 0 (int (length (le32_bytes 16 @ le16_bytes 1018 @ replicate 10 0 :: byte list)))"
    and "nlmsg_type (le32_bytes 16 @ le16_bytes 1018 @ replicate 10 0) 0 = AUDIT_SET_FEATURE"
    and "length (le32_bytes 16 @ le16_bytes 1018 @ replicate 10 0 :: byte list) < NLMSG_HDRLEN + sizeof_features"
    by code_simp+
qed

end
