(* ===== verification/AuditLogin.thy ===== *)
theory AuditLogin
  imports AuditControl
begin

text \<open>
  The login of a task (\<open>audit_set_loginuid\<close> of \<open>auditsc.c\<close>): who may change it, the session
  that comes with it, and how it depends on the features that control messages set and lock.
\<close>

section \<open>The code\<close>

text \<open>The login of the task at hand, and the counter of sessions all tasks share.\<close>

record login_world = cfg_world +
  loginuid :: u32
  sessionid :: u32
  session_id :: u32

type_synonym 'z lw = "'z login_world_scheme"

abbreviation AUDIT_LOGIN :: nat where "AUDIT_LOGIN \<equiv> 1006"
abbreviation AUDIT_FEATURE_ONLY_UNSET_LOGINUID :: nat where "AUDIT_FEATURE_ONLY_UNSET_LOGINUID \<equiv> 0"
abbreviation AUDIT_FEATURE_LOGINUID_IMMUTABLE :: nat where "AUDIT_FEATURE_LOGINUID_IMMUTABLE \<equiv> 1"

text \<open>The identity nobody has; \<open>audit_loginuid_set\<close> is \<open>uid_valid\<close> of the task's.\<close>

definition uid_valid :: "u32 \<Rightarrow> bool" where
  "uid_valid u \<longleftrightarrow> u \<noteq> - 1"

text \<open>The first argument is \<open>capable (CAP_AUDIT_CONTROL)\<close>.\<close>

definition audit_set_loginuid_perm :: "bool \<Rightarrow> u32 \<Rightarrow> 'z lw \<Rightarrow> int" where
  "audit_set_loginuid_perm capable new w =
     (if \<not> uid_valid (loginuid w) then 0
      else if is_audit_feature_set AUDIT_FEATURE_LOGINUID_IMMUTABLE w then - EPERM
      else if \<not> capable then - EPERM
      else if is_audit_feature_set AUDIT_FEATURE_ONLY_UNSET_LOGINUID w \<and> uid_valid new then - EPERM
      else 0)"

definition audit_log_set_loginuid :: "cfg_env \<Rightarrow> u32 \<Rightarrow> u32 \<Rightarrow> u32 \<Rightarrow> u32 \<Rightarrow> int \<Rightarrow> 'z lw \<Rightarrow> 'z lw option" where
  "audit_log_set_loginuid C oldloginuid new oldsessionid ses rc w =
     (let A = log_env C in
      if audit_enabled w = AUDIT_OFF then Some w
      else do {
        (ab, w) \<leftarrow> audit_log_start A (fresh_stamp A) True AUDIT_LOGIN w;
        (if ab = None then Some w
         else do {
           (ab, w) \<leftarrow> audit_log_format A (ascii ''pid='' @ signed_dec (tk_pid (cur_task C)) @ ascii '' uid='' @ udec (cur_uid C)) ab w;
           (_, ab, w) \<leftarrow> audit_log_task_context A ab w;
           (ab, w) \<leftarrow> audit_log_format A (ascii '' old-auid='' @ udec oldloginuid @ ascii '' auid='' @ udec new @
             ascii '' old-ses='' @ udec oldsessionid @ ascii '' ses='' @ udec ses @ ascii '' res='' @ dec (if rc = 0 then 1 else 0)) ab w;
           audit_log_end A ab w
         })
      })"

definition audit_set_loginuid :: "cfg_env \<Rightarrow> bool \<Rightarrow> u32 \<Rightarrow> 'z lw \<Rightarrow> (int \<times> 'z lw) option" where
  "audit_set_loginuid C capable new w =
     (let oldloginuid = loginuid w; oldsessionid = sessionid w; rc = audit_set_loginuid_perm capable new w in
      if rc \<noteq> 0 then do {
        w \<leftarrow> audit_log_set_loginuid C oldloginuid new oldsessionid (- 1) rc w;
        Some (rc, w)
      }
      else
        let (ses, w) = (if uid_valid new then (session_id w + 1, w\<lparr>session_id := session_id w + 1\<rparr>) else (- 1, w));
            w = w\<lparr>sessionid := ses, loginuid := new\<rparr>
        in do {
          w \<leftarrow> audit_log_set_loginuid C oldloginuid new oldsessionid ses rc w;
          Some (rc, w)
        })"

section \<open>What it does\<close>

lemma log_loginuid_step:
  fixes w :: "'z lw"
  assumes "cfg_ok C B w"
  shows "ok (audit_log_set_loginuid C a b c d r w) (step_ok C B w)"
proof (cases "audit_enabled w = AUDIT_OFF")
  case True
  then show ?thesis using step_ok_refl [OF assms] by (simp add: audit_log_set_loginuid_def)
next
  case False
  let ?A = "log_env C" and ?B = "B + reply_ids w"
  obtain ab1 w1 where 1: "audit_log_start ?A (fresh_stamp ?A) True AUDIT_LOGIN w = Some (ab1, w1)" "recs ?A ?B w (ab1, w1)"
    by (rule startE [OF cfg_pool [OF assms]])
  show ?thesis
  proof (cases "ab1 = None")
    case True
    then have "logged ?A ?B w w1" using 1(2) by (simp add: recs_def logged_def rec_ok_def opt_ids_def)
    then show ?thesis using True False 1(1) by (simp add: audit_log_set_loginuid_def logged_step)
  next
    case some: False
    define t where "t = ascii '' old-auid='' @ udec a @ ascii '' auid='' @ udec b @
             ascii '' old-ses='' @ udec c @ ascii '' ses='' @ udec d @ ascii '' res='' @ dec (if r = 0 then 1 else 0)"
    obtain ab2 w2 where 2: "audit_log_format ?A (ascii ''pid='' @ signed_dec (tk_pid (cur_task C)) @ ascii '' uid='' @ udec (cur_uid C)) ab1 w1 = Some (ab2, w2)"
      "recs ?A ?B w (ab2, w2)" by (rule formatE [OF 1(2)])
    obtain rc ab3 w3 where 3: "audit_log_task_context ?A ab2 w2 = Some (rc, ab3, w3)" "recs ?A ?B w (ab3, w3)" by (rule contextE [OF 2(2)])
    obtain ab4 w4 where 4: "audit_log_format ?A t ab3 w3 = Some (ab4, w4)" "recs ?A ?B w (ab4, w4)" by (rule formatE [OF 3(2)])
    have "audit_log_set_loginuid C a b c d r w = audit_log_end ?A ab4 w4"
      using False some 1(1) 2(1) 3(1) 4(1) by (auto simp: audit_log_set_loginuid_def t_def Let_def)
    then show ?thesis using end_recs [OF 4(2)] by (auto elim!: ok_mono intro: logged_step)
  qed
qed

text \<open>The login is no business of the control messages.\<close>

lemma step_login:
  fixes w w' :: "'z lw"
  assumes "step_ok C B w w'"
  shows "loginuid w' = loginuid w" and "sessionid w' = sessionid w"
proof -
  have "cfg_world.more w' = cfg_world.more w" using assms by (simp add: step_ok_def governed_def)
  then show "loginuid w' = loginuid w" and "sessionid w' = sessionid w" by (cases w; cases w'; simp)+
qed

lemma login_cfg_ok: "cfg_ok C B (w\<lparr>session_id := n\<rparr>) = cfg_ok C B w" "cfg_ok C B (w\<lparr>sessionid := m, loginuid := u\<rparr>) = cfg_ok C B w"
  by (simp_all add: cfg_ok_def reply_ids_def pool_ok_def) (simp_all add: owned_def no_panic_def)

definition login_post :: "cfg_env \<Rightarrow> nat multiset \<Rightarrow> bool \<Rightarrow> u32 \<Rightarrow> 'z lw \<Rightarrow> int \<times> 'z lw \<Rightarrow> bool" where
  "login_post C B capable new w = (\<lambda>(rc, w'). cfg_ok C B w' \<and> rc = audit_set_loginuid_perm capable new w \<and> locks_kept w w' \<and>
     loginuid w' = (if rc = 0 then new else loginuid w) \<and>
     sessionid w' = (if rc \<noteq> 0 then sessionid w else if uid_valid new then session_id w + 1 else - 1))"

lemma set_loginuid_ok:
  fixes w :: "'z lw"
  assumes "cfg_ok C B w"
  shows "ok (audit_set_loginuid C capable new w) (login_post C B capable new w)"
proof (cases "audit_set_loginuid_perm capable new w = 0")
  case False
  have "ok (audit_log_set_loginuid C (loginuid w) new (sessionid w) (- 1) (audit_set_loginuid_perm capable new w) w) (step_ok C B w)"
    by (rule log_loginuid_step [OF assms])
  then show ?thesis using False
    by (auto simp: audit_set_loginuid_def ok_bind Let_def login_post_def step_login step_cfg step_ok_def governed_def elim!: ok_mono)
next
  case True
  define w1 where "w1 = (if uid_valid new then w\<lparr>session_id := session_id w + 1\<rparr> else w)"
  define ses where "ses = (if uid_valid new then session_id w + 1 else - 1)"
  define w2 where "w2 = w1\<lparr>sessionid := ses, loginuid := new\<rparr>"
  have c: "cfg_ok C B w2" using assms by (simp add: w2_def w1_def login_cfg_ok)
  have f: "locks_kept w w2" and l: "loginuid w2 = new" "sessionid w2 = ses" by (simp_all add: w2_def w1_def locks_kept_def)
  have eq: "audit_set_loginuid C capable new w = do { w \<leftarrow> audit_log_set_loginuid C (loginuid w) new (sessionid w) ses 0 w2; Some (0, w) }"
    using True by (simp add: audit_set_loginuid_def w2_def w1_def ses_def Let_def)
  have "login_post C B capable new w (0, w3)" if s: "step_ok C B w2 w3" for w3
  proof -
    have "locks_kept w2 w3" using s by (simp add: step_ok_def governed_def)
    then have "locks_kept w w3" using f by (auto simp: locks_kept_def)
    then show ?thesis using True l step_cfg [OF s] step_login [OF s] by (simp add: login_post_def ses_def)
  qed
  then show ?thesis unfolding eq ok_bind by (intro ok_mono [OF log_loginuid_step [OF c]]) simp
qed

text \<open>
  The runs: control messages of any caller, replies, turns of the daemon's thread, logins of
  other tasks, and this task asking for a login, with the capability or without.
\<close>

inductive login_reach :: "audit_env \<Rightarrow> 'z lw \<Rightarrow> 'z lw \<Rightarrow> bool" for A w0 where
  login_start: "login_reach A w0 w0"
| login_cfg: "login_reach A w0 w \<Longrightarrow> cfg_reach A w w' \<Longrightarrow> login_reach A w0 w'"
| login_other: "login_reach A w0 w \<Longrightarrow> login_reach A w0 (w\<lparr>session_id := n\<rparr>)"
| login_set: "login_reach A w0 w \<Longrightarrow> log_env C = A \<Longrightarrow> audit_set_loginuid C capable new w = Some (rc, w') \<Longrightarrow> login_reach A w0 w'"

definition kept_login :: "cfg_env \<Rightarrow> nat multiset \<Rightarrow> 'z lw \<Rightarrow> 'z lw \<Rightarrow> bool" where
  "kept_login D B w0 w \<longleftrightarrow> cfg_ok D B w \<and> loginuid w = loginuid w0 \<and> sessionid w = sessionid w0 \<and>
     bit (af_lock w) AUDIT_FEATURE_LOGINUID_IMMUTABLE \<and> bit (af_features w) AUDIT_FEATURE_LOGINUID_IMMUTABLE"

lemma login_kept:
  fixes w0 w :: "'z lw"
  assumes "login_reach (log_env D) w0 w" and "cfg_ok D B w0" and "uid_valid (loginuid w0)"
    and "bit (af_lock w0) AUDIT_FEATURE_LOGINUID_IMMUTABLE" and "bit (af_features w0) AUDIT_FEATURE_LOGINUID_IMMUTABLE"
  shows "kept_login D B w0 w"
  using assms(1)
proof (induction rule: login_reach.induct)
  case login_start
  then show ?case using assms by (simp add: kept_login_def)
next
  case (login_cfg w w')
  have "cfg_ok D B w" using login_cfg.IH by (simp add: kept_login_def)
  note s = cfg_reach_step [OF login_cfg(2) this]
  have "locks_kept w w'" using s by (simp add: step_ok_def governed_def)
  then show ?case using login_cfg.IH step_cfg [OF s] step_login [OF s] by (simp add: kept_login_def locks_kept_def)
next
  case (login_other w n)
  then show ?case by (simp add: kept_login_def login_cfg_ok)
next
  case (login_set w C capable new rc w')
  have c: "cfg_ok C B w" using login_set.IH login_set(2) by (simp add: kept_login_def cfg_ok_def)
  have "is_audit_feature_set AUDIT_FEATURE_LOGINUID_IMMUTABLE w"
    using login_set.IH and_feature_mask [of 1 "af_features w"] feature_mask_nonzero [of 1] by (simp add: is_audit_feature_set_def kept_login_def)
  then have p: "audit_set_loginuid_perm capable new w \<noteq> 0" using login_set.IH assms(3) by (simp add: audit_set_loginuid_perm_def kept_login_def)
  from set_loginuid_ok [OF c, of capable new] have post: "login_post C B capable new w (rc, w')" using login_set(3) by simp
  then have "cfg_ok D B w'" using login_set(2) by (simp add: login_post_def cfg_ok_def)
  then show ?case using post p login_set.IH by (auto simp: login_post_def kept_login_def locks_kept_def)
qed

text \<open>
  C35: an immutable login is immutable. Once the feature \<open>loginuid_immutable\<close> is on and locked,
  a task that has a login keeps it, and its session, in every run: whatever control messages are
  sent by whomever, whatever is logged, whoever else logs in, and whatever the task asks for, even with
  every capability. Asking again returns \<open>-EPERM\<close>.
\<close>

theorem audit_login_immutable:
  fixes w0 w :: "'z lw"
  assumes "login_reach (log_env C) w0 w" and "cfg_ok C B w0" and "uid_valid (loginuid w0)"
    and "bit (af_lock w0) AUDIT_FEATURE_LOGINUID_IMMUTABLE" and "bit (af_features w0) AUDIT_FEATURE_LOGINUID_IMMUTABLE"
  shows "loginuid w = loginuid w0 \<and> sessionid w = sessionid w0 \<and>
     ok (audit_set_loginuid C capable new w) (\<lambda>(rc, w'). rc = - EPERM \<and> loginuid w' = loginuid w0)"
proof -
  from login_kept [OF assms] have k: "kept_login C B w0 w" .
  then have c: "cfg_ok C B w" by (simp add: kept_login_def)
  have "is_audit_feature_set AUDIT_FEATURE_LOGINUID_IMMUTABLE w"
    using k and_feature_mask [of 1 "af_features w"] feature_mask_nonzero [of 1] by (simp add: is_audit_feature_set_def kept_login_def)
  then have "audit_set_loginuid_perm capable new w = - EPERM" using k assms(3) by (simp add: audit_set_loginuid_perm_def kept_login_def)
  then show ?thesis using k set_loginuid_ok [OF c, of capable new] by (auto simp: login_post_def kept_login_def elim!: ok_mono)
qed

section \<open>A concrete instance\<close>

definition calm_login :: login_world where
  "calm_login = cfg_world.extend calm_cfg (login_world.fields 1000 3 3)"

lemma calm_login_ok: "cfg_ok calm_caller {#} calm_login"
  by (simp add: cfg_ok_def calm_caller_env calm_login_def calm_cfg_def reply_ids_def pool_ok_def owned_def no_panic_def
      audit_world.defs cfg_world.defs login_world.defs calm_world_def)

theorem audit_login_immutable_witness:
  "ok (audit_set_loginuid calm_caller True 0 calm_login) (\<lambda>(rc, w'). rc = - EPERM \<and> loginuid w' = 1000)"
proof -
  have "uid_valid (loginuid calm_login)" and u: "loginuid calm_login = 1000"
    and "af_lock calm_login = 2" "af_features calm_login = 2"
    by (simp_all add: uid_valid_def calm_login_def calm_cfg_def calm_world_def audit_world.defs cfg_world.defs login_world.defs)
  moreover have "bit (2 :: u32) 1" by (simp add: bit_iff_odd)
  ultimately show ?thesis
    using audit_login_immutable [OF login_start calm_login_ok, of True 0] by simp
qed

end
