(* ===== verification/AuditExec.thy ===== *)
theory AuditExec
  imports AuditRec
begin

text \<open>
  How the arguments of \<open>execve\<close> are logged: \<open>audit_log_single_execve_arg\<close> and
  \<open>audit_log_execve_info\<close> of \<open>auditsc.c\<close>. An argument is fetched from user space twice, once
  to look for control characters and once to log it. The file with the double-fetch patch
  is the same as the original here, so both have the race.
\<close>

section \<open>The code\<close>

definition MAX_EXECVE_AUDIT_LEN :: nat where "MAX_EXECVE_AUDIT_LEN = 7500"

text \<open>\<open>linux/binfmts.h\<close>: 32 pages.\<close>

definition MAX_ARG_STRLEN :: nat where "MAX_ARG_STRLEN = 131072"

text \<open>The task that is logged: whether it was sent \<open>SIGKILL\<close>.\<close>

record exec_world = audit_world +
  killed :: bool

text \<open>
  \<open>strnlen_user\<close>: the size of a string with its end, 0 when it cannot be read, more than
  \<open>n\<close> when it does not end.
\<close>

primrec strnlen_at :: "(nat \<Rightarrow> byte option) \<Rightarrow> nat \<Rightarrow> nat \<Rightarrow> nat option" where
  "strnlen_at m p 0 = Some 1"
| "strnlen_at m p (Suc n) =
     (case m p of None \<Rightarrow> None | Some b \<Rightarrow> if b = 0 then Some 1 else map_option Suc (strnlen_at m (Suc p) n))"

definition strnlen_user :: "nat \<Rightarrow> nat \<Rightarrow> 'z world_scheme \<Rightarrow> nat \<times> 'z world_scheme" where
  "strnlen_user p n w =
     (case strnlen_at (umem w (utime w)) p n of None \<Rightarrow> 0 | Some k \<Rightarrow> k, w\<lparr>utime := Suc (utime w)\<rparr>)"

text \<open>Fetch a piece of the argument into the buffer, with an end behind it.\<close>

definition fetch_piece :: "nat \<Rightarrow> nat \<Rightarrow> byte list \<Rightarrow> 'z world_scheme \<Rightarrow> (byte list option \<times> 'z world_scheme) option" where
  "fetch_piece p n buf w =
     (case copy_from_user p n w of
        (None, w) \<Rightarrow> Some (None, w)
      | (Some bs, w) \<Rightarrow> do {
          buf \<leftarrow> buf_write buf 0 bs;
          buf \<leftarrow> buf_set buf n 0;
          Some (Some buf, w)
        })"

text \<open>The first walk: does the argument have control characters? \<open>None\<close> when it cannot be read.\<close>

function walk_arg :: "nat \<Rightarrow> nat \<Rightarrow> byte list \<Rightarrow> 'z world_scheme \<Rightarrow> ((bool \<times> byte list) option \<times> 'z world_scheme) option" where
  "walk_arg tmp_p len_left buf w =
     (let to_send = min len_left MAX_EXECVE_AUDIT_LEN in do {
        (r, w) \<leftarrow> fetch_piece tmp_p to_send buf w;
        (case r of
           None \<Rightarrow> Some (None, w)
         | Some buf \<Rightarrow>
             if audit_string_contains_control (take to_send buf) then Some (Some (True, buf), w)
             else if len_left - to_send > 0 then walk_arg (tmp_p + to_send) (len_left - to_send) buf w
             else Some (Some (False, buf), w))
      })"
  by pat_completeness auto
termination
  by (relation "measure (\<lambda>(p, len_left, buf, w). len_left)") (auto simp: MAX_EXECVE_AUDIT_LEN_def)

declare walk_arg.simps [simp del]

text \<open>What one argument has besides its text: its number, whether it is in hexadecimal, its length.\<close>

record exec_arg =
  arg_num :: nat
  has_cntl :: bool
  arg_len :: nat

definition max_len :: "exec_arg \<Rightarrow> nat" where
  "max_len a = (if has_cntl a then MAX_EXECVE_AUDIT_LEN div 2 else MAX_EXECVE_AUDIT_LEN)"

definition too_long :: "exec_arg \<Rightarrow> bool" where
  "too_long a \<longleftrightarrow> arg_len a > max_len a"

definition arg_num_len :: "exec_arg \<Rightarrow> nat" where
  "arg_num_len a = length (dec (arg_num a)) + 5"

definition sent_size :: "exec_arg \<Rightarrow> nat \<Rightarrow> nat" where
  "sent_size a n = (if has_cntl a then 2 * n else n)"

text \<open>A new record when the piece does not fit into the one at hand.\<close>

definition make_room ::
  "audit_env \<Rightarrow> 'z stamp \<Rightarrow> exec_arg \<Rightarrow> nat \<Rightarrow> nat \<Rightarrow> abuf option \<Rightarrow> 'z aw \<Rightarrow> (nat \<times> abuf option \<times> bool \<times> 'z aw) option" where
  "make_room A stamp a to_send len_sent ab w =
     (let room_left = int MAX_EXECVE_AUDIT_LEN - int (arg_num_len a) - int len_sent - int (sent_size a to_send) in
      if room_left < 0 then do {
        w \<leftarrow> audit_log_end A ab w;
        (ab, w) \<leftarrow> audit_log_start A stamp True AUDIT_EXECVE w;
        Some (0, ab, ab \<noteq> None, w)
      } else Some (len_sent, ab, True, w))"

text \<open>The text of a piece; a piece that is not in hexadecimal ends at its first zero byte.\<close>

definition log_piece ::
  "audit_env \<Rightarrow> exec_arg \<Rightarrow> nat \<Rightarrow> nat \<Rightarrow> byte list \<Rightarrow> abuf option \<Rightarrow> 'z aw \<Rightarrow> (abuf option \<times> 'z aw) option" where
  "log_piece A a i to_send buf ab w = do {
     (ab, w) \<leftarrow> audit_log_format A (ascii '' a'' @ dec (arg_num a)) ab w;
     (ab, w) \<leftarrow> (if too_long a then audit_log_format A (ascii ''['' @ dec i @ ascii '']'') ab w else Some (ab, w));
     (ab, w) \<leftarrow> audit_log_format A (ascii ''='') ab w;
     (if has_cntl a then audit_log_n_hex A (take to_send buf) ab w
      else audit_log_n_string A (takeWhile (\<lambda>b. b \<noteq> 0) buf) ab w)
   }"

text \<open>The first record of a long argument says how long it is.\<close>

definition log_len :: "audit_env \<Rightarrow> exec_arg \<Rightarrow> nat \<Rightarrow> abuf option \<Rightarrow> 'z aw \<Rightarrow> (abuf option \<times> 'z aw) option" where
  "log_len A a i ab w =
     (if i = 0 \<and> too_long a
      then audit_log_format A (ascii '' a'' @ dec (arg_num a) @ ascii ''_len='' @ dec (sent_size a (arg_len a))) ab w
      else Some (ab, w))"

text \<open>The piece at hand: fetched again when the argument did not fit into the buffer, else still there.\<close>

definition get_piece :: "exec_arg \<Rightarrow> nat \<Rightarrow> nat \<Rightarrow> byte list \<Rightarrow> 'z world_scheme \<Rightarrow> (byte list option \<times> 'z world_scheme) option" where
  "get_piece a p n buf w =
     (if arg_len a \<ge> max_len a then fetch_piece p n buf w else do { buf \<leftarrow> buf_set buf n 0; Some (Some buf, w) })"

text \<open>
  The second walk. The result is -1 when the argument cannot be fetched again, 0 when there
  is no further record, else the size of the argument with its end.
\<close>

function log_arg ::
  "audit_env \<Rightarrow> 'z stamp \<Rightarrow> exec_arg \<Rightarrow> nat \<Rightarrow> nat \<Rightarrow> nat \<Rightarrow> nat \<Rightarrow> byte list \<Rightarrow> abuf option \<Rightarrow> 'z aw \<Rightarrow>
   (int \<times> nat \<times> byte list \<times> abuf option \<times> 'z aw) option" where
  "log_arg A stamp a i p len_left len_sent buf ab w =
     (if len_left = 0 then Some (int (arg_len a) + 1, len_sent, buf, ab, w)
      else do {
        (len_sent, ab, go, w) \<leftarrow> make_room A stamp a (min len_left (max_len a)) len_sent ab w;
        (if \<not> go then Some (0, len_sent, buf, ab, w)
         else do {
           (ab, w) \<leftarrow> log_len A a i ab w;
           (r, w) \<leftarrow> get_piece a p (min len_left (max_len a)) buf w;
           (case r of
              None \<Rightarrow> Some (-1, len_sent, buf, ab, w)
            | Some buf \<Rightarrow> do {
                (ab, w) \<leftarrow> log_piece A a i (min len_left (max_len a)) buf ab w;
                log_arg A stamp a (Suc i) (p + min len_left (max_len a)) (len_left - min len_left (max_len a))
                  (len_sent + arg_num_len a + sent_size a (min len_left (max_len a))) buf ab w
              })
         })
      })"
  by pat_completeness auto
termination
  by (relation "measure (\<lambda>(A, stamp, a, i, p, len_left, _). len_left)")
    (auto simp: max_len_def MAX_EXECVE_AUDIT_LEN_def)

declare log_arg.simps [simp del]

text \<open>A task whose argument cannot be fetched, or has no end, is killed.\<close>

definition kill_task :: "exec_world \<Rightarrow> exec_world" where
  "kill_task w = w\<lparr>killed := True\<rparr>"

definition audit_log_single_execve_arg ::
  "audit_env \<Rightarrow> unit exec_world_ext stamp \<Rightarrow> nat \<Rightarrow> nat \<Rightarrow> nat \<Rightarrow> byte list \<Rightarrow> abuf option \<Rightarrow> exec_world \<Rightarrow>
   (int \<times> nat \<times> byte list \<times> abuf option \<times> exec_world) option" where
  "audit_log_single_execve_arg A stamp n len_sent p buf ab w =
     (let (k, w) = strnlen_user p MAX_ARG_STRLEN w;
          len = (if k = 0 then 2 ^ 64 - 1 else k - 1) in
      if len > MAX_ARG_STRLEN - 1 then Some (-1, len_sent, buf, ab, kill_task w)
      else do {
        (r, w) \<leftarrow> walk_arg p len buf w;
        (case r of
           None \<Rightarrow> Some (-1, len_sent, buf, ab, kill_task w)
         | Some (cntl, buf) \<Rightarrow> do {
             (ret, len_sent, buf, ab, w) \<leftarrow> log_arg A stamp \<lparr>arg_num = n, has_cntl = cntl, arg_len = len\<rparr> 0 p len len_sent buf ab w;
             Some (ret, len_sent, buf, ab, if ret = -1 then kill_task w else w)
           })
      })"

text \<open>The loop over the arguments \<open>i\<close> to \<open>i + n\<close>, and the whole record.\<close>

primrec log_args ::
  "nat \<Rightarrow> audit_env \<Rightarrow> unit exec_world_ext stamp \<Rightarrow> nat \<Rightarrow> nat \<Rightarrow> nat \<Rightarrow> byte list \<Rightarrow> abuf option \<Rightarrow> exec_world \<Rightarrow>
   (abuf option \<times> exec_world) option" where
  "log_args 0 A stamp i len_sent p buf ab w = Some (ab, w)"
| "log_args (Suc n) A stamp i len_sent p buf ab w = do {
     (len, len_sent, buf, ab, w) \<leftarrow> audit_log_single_execve_arg A stamp i len_sent p buf ab w;
     (if len \<le> 0 then Some (ab, w) else log_args n A stamp (Suc i) len_sent (p + nat len) buf ab w)
   }"

definition audit_log_execve_info ::
  "audit_env \<Rightarrow> unit exec_world_ext stamp \<Rightarrow> nat \<Rightarrow> nat \<Rightarrow> abuf option \<Rightarrow> exec_world \<Rightarrow> (abuf option \<times> exec_world) option" where
  "audit_log_execve_info A stamp arg_start argc ab w = do {
     (ab, w) \<leftarrow> audit_log_format A (ascii ''argc='' @ dec argc) ab w;
     (case kmalloc (MAX_EXECVE_AUDIT_LEN + 1) w of
        (None, w) \<Rightarrow> do { w \<leftarrow> audit_panic w; Some (ab, w) }
      | (Some (k, buf), w) \<Rightarrow> do {
          (ab, w) \<leftarrow> log_args argc A stamp 0 0 arg_start buf ab w;
          w \<leftarrow> kfree k w;
          Some (ab, w)
        })
   }"

section \<open>Making room in a record\<close>

lemma make_room_rec:
  assumes "rec_ok A B ab w" and "quiet_stamp stamp"
  shows "ok (make_room A stamp a n len_sent ab w) (\<lambda>(ls, ab', go, w'). rec_ok A B ab' w')"
proof -
  have "ok (audit_log_end A ab w) (\<lambda>w1. pool_ok A B w1)"
  proof (cases ab)
    case None
    then show ?thesis using assms(1) by (simp add: audit_log_end_def rec_ok_def opt_ids_def)
  next
    case (Some b)
    then obtain s where "ab_skb b = Some s" and "pool_ok A (B + buf_ids b) w"
      using assms(1) by (auto simp: rec_ok_def opt_ids_def)
    then show ?thesis using audit_log_end_ok [of A B b w s] Some by (auto simp: progress_def elim!: ok_mono)
  qed
  then obtain w1 where 1: "audit_log_end A ab w = Some w1" and p: "pool_ok A B w1" by (auto elim!: okE)
  from audit_log_start_ok [OF p assms(2), of True AUDIT_EXECVE] obtain ab2 w2
    where 2: "audit_log_start A stamp True AUDIT_EXECVE w1 = Some (ab2, w2)"
      and s: "started A B AUDIT_EXECVE (audit_initialized w1 \<and> \<not> filter_type A AUDIT_EXECVE) w1 (ab2, w2)"
    by (auto elim!: okE)
  have "rec_ok A B ab2 w2" using s by (cases ab2) (auto simp: started_def rec_ok_def opt_ids_def progress_def)
  then show ?thesis using 1 2 assms(1) by (simp add: make_room_def Let_def)
qed

text \<open>The buffer for the pieces keeps its size; a piece is at its front, with an end behind it.\<close>

lemma fetch_piece_ok:
  assumes "length buf = Suc MAX_EXECVE_AUDIT_LEN" and "n \<le> MAX_EXECVE_AUDIT_LEN"
  shows "ok (fetch_piece p n buf w) (\<lambda>(r, w'). w' = w\<lparr>utime := Suc (utime w)\<rparr> \<and>
    (case r of None \<Rightarrow> ufetch (umem w (utime w)) p n = None
     | Some b \<Rightarrow> length b = length buf \<and> ufetch (umem w (utime w)) p n = Some (take n b) \<and> b ! n = 0))"
proof (cases "ufetch (umem w (utime w)) p n")
  case None
  then show ?thesis by (simp add: fetch_piece_def copy_from_user_def)
next
  case (Some bs)
  then have l: "length bs = n" by (rule length_ufetch)
  then show ?thesis using Some assms
    by (simp add: fetch_piece_def copy_from_user_def ok_bind buf_write_overwrite buf_set_def length_overwrite)
      (simp add: overwrite_def)
qed

lemma walk_arg_ok:
  assumes "length buf = Suc MAX_EXECVE_AUDIT_LEN"
  shows "ok (walk_arg p n buf w) (\<lambda>(r, w'). w' = w\<lparr>utime := utime w'\<rparr> \<and> (\<forall>c b. r = Some (c, b) \<longrightarrow> length b = length buf))"
  using assms
proof (induction p n buf w rule: walk_arg.induct)
  case (1 p n buf w)
  define k where "k = min n MAX_EXECVE_AUDIT_LEN"
  have "k \<le> MAX_EXECVE_AUDIT_LEN" by (simp add: k_def)
  from fetch_piece_ok [OF "1.prems" this, of p w] obtain r w1
    where f: "fetch_piece p k buf w = Some (r, w1)" and w1: "w1 = w\<lparr>utime := Suc (utime w)\<rparr>"
      and b: "\<And>b. r = Some b \<Longrightarrow> length b = length buf"
    by (fastforce elim!: okE)
  show ?case
  proof (cases r)
    case None
    then show ?thesis using f w1 by (subst walk_arg.simps) (simp add: k_def [symmetric])
  next
    case (Some b)
    note IH = "1.IH" [OF k_def f refl Some]
    show ?thesis
    proof (cases "\<not> audit_string_contains_control (take k b) \<and> n - k > 0")
      case True
      then have "walk_arg p n buf w = walk_arg (p + k) (n - k) b w1"
        using f Some by (subst walk_arg.simps) (simp add: k_def [symmetric])
      then show ?thesis using IH True b [OF Some] "1.prems" w1 by (fastforce elim!: ok_mono)
    next
      case False
      then show ?thesis using f Some b w1 by (subst walk_arg.simps) (auto simp: k_def [symmetric])
    qed
  qed
qed
section \<open>What a record of an argument says\<close>

text \<open>
  The text of an argument: a field for each piece, in hexadecimal or in quotes; a piece in
  quotes ends at its first zero byte. A long argument has its length first.
\<close>

definition piece_value :: "exec_arg \<Rightarrow> byte list \<Rightarrow> byte list" where
  "piece_value a c = (if has_cntl a then hex_text c else quoted (takeWhile (\<lambda>b. b \<noteq> 0) c))"

definition field :: "exec_arg \<Rightarrow> nat \<Rightarrow> byte list \<Rightarrow> byte list" where
  "field a i v = ascii '' a'' @ dec (arg_num a) @ (if too_long a then ascii ''['' @ dec i @ ascii '']'' else []) @ ascii ''='' @ v"

primrec fields :: "exec_arg \<Rightarrow> nat \<Rightarrow> byte list list \<Rightarrow> byte list" where
  "fields a i [] = []"
| "fields a i (c # cs) = field a i (piece_value a c) @ fields a (Suc i) cs"

definition len_field :: "exec_arg \<Rightarrow> nat \<Rightarrow> byte list" where
  "len_field a i = (if i = 0 \<and> too_long a
     then ascii '' a'' @ dec (arg_num a) @ ascii ''_len='' @ dec (sent_size a (arg_len a)) else [])"

lemma len_field_Suc [simp]: "len_field a (Suc i) = []" "(if b then [] else len_field a (Suc i)) = []"
  by (simp_all add: len_field_def)

lemma ufetch_None: "ufetch m p n = None \<Longrightarrow> \<exists>j<n. m (p + j) = None"
  unfolding ufetch_def those_None set_map image_iff by (metis atLeastLessThan_iff set_upt)

text \<open>
  The pieces \<open>cs\<close> of \<open>n\<close> bytes at \<open>p\<close>: each is what user space had there at some moment not
  before \<open>t0\<close>, or what the first walk left in the buffer.
\<close>

primrec pieces :: "exec_arg \<Rightarrow> (nat \<Rightarrow> nat \<Rightarrow> byte option) \<Rightarrow> nat \<Rightarrow> byte list \<Rightarrow> nat \<Rightarrow> nat \<Rightarrow> byte list list \<Rightarrow> bool" where
  "pieces a m t0 buf p n [] \<longleftrightarrow> n = 0"
| "pieces a m t0 buf p n (c # cs) \<longleftrightarrow> 0 < n \<and>
     (if arg_len a \<ge> max_len a then \<exists>t \<ge> t0. ufetch (m t) p (min n (max_len a)) = Some c
      else c = take (min n (max_len a)) buf) \<and>
     pieces a m t0 buf (p + min n (max_len a)) (n - min n (max_len a)) cs"

lemma pieces_mono:
  "pieces a m t1 b p n cs \<Longrightarrow> t0 \<le> t1 \<Longrightarrow> arg_len a \<ge> max_len a \<or> n = 0 \<Longrightarrow> pieces a m t0 b' p n cs"
  by (induction cs arbitrary: p n) (auto intro: order_trans)

lemma max_len_bounds: "0 < max_len a" "max_len a \<le> MAX_EXECVE_AUDIT_LEN"
  by (simp_all add: max_len_def MAX_EXECVE_AUDIT_LEN_def)

lemma takeWhile_end: "n < length b \<Longrightarrow> b ! n = 0 \<Longrightarrow> takeWhile (\<lambda>x. x \<noteq> 0) b = takeWhile (\<lambda>x. x \<noteq> 0) (take n b)"
  for b :: "byte list"
proof -
  assume n: "n < length b" "b ! n = 0"
  have "b = take n b @ 0 # drop (Suc n) b" using n by (metis id_take_nth_drop)
  then have "takeWhile (\<lambda>x. x \<noteq> 0) b = takeWhile (\<lambda>x. x \<noteq> 0) (take n b @ 0 # drop (Suc n) b)" by simp
  also have "\<dots> = takeWhile (\<lambda>x. x \<noteq> 0) (take n b)"
    by (auto simp: takeWhile_append) (metis (mono_tags, lifting) takeWhile_eq_all_conv)
  finally show ?thesis .
qed

text \<open>
  The log as the walk uses it: \<open>W T ab w\<close> says that the records hold the text \<open>T\<close> so far,
  \<open>W0\<close> what remains when there is no further record. Formatted, hexadecimal and quoted text
  extend \<open>T\<close>, a new record leaves it, and none of them touches the user's memory. When \<open>sure\<close>
  holds there always is a further record.
\<close>

locale log_client =
  fixes A :: audit_env
    and stamp :: "'z aw \<Rightarrow> (nat \<times> nat \<times> u32) \<times> 'z aw"
    and W :: "byte list \<Rightarrow> abuf option \<Rightarrow> 'z aw \<Rightarrow> bool"
    and W0 :: "abuf option \<Rightarrow> 'z aw \<Rightarrow> bool"
    and sure :: bool
  assumes W_format: "W T ab w \<Longrightarrow> ok (audit_log_format A t ab w) (\<lambda>(ab', w'). W (T @ t) ab' w' \<and> same_user w w')"
    and W_hex: "W T ab w \<Longrightarrow> ok (audit_log_n_hex A t ab w) (\<lambda>(ab', w'). W (T @ hex_text t) ab' w' \<and> same_user w w')"
    and W_string: "W T ab w \<Longrightarrow> ok (audit_log_n_string A t ab w) (\<lambda>(ab', w'). W (T @ quoted t) ab' w' \<and> same_user w w')"
    and W_room: "W T ab w \<Longrightarrow> ok (make_room A stamp a n ls ab w)
      (\<lambda>(ls', ab', go, w'). (go \<longrightarrow> W T ab' w') \<and> (sure \<longrightarrow> go) \<and> W0 ab' w' \<and> same_user w w')"
    and W_user: "W T ab w \<Longrightarrow> W T ab (w\<lparr>utime := u\<rparr>)"
    and W_stop: "W T ab w \<Longrightarrow> W0 ab w"
begin

lemma log_len_text:
  "W T ab w \<Longrightarrow> ok (log_len A a i ab w) (\<lambda>(ab', w'). W (T @ len_field a i) ab' w' \<and> same_user w w')"
  using W_format by (auto simp: log_len_def len_field_def)

lemma log_piece_text:
  assumes "W T ab w" and "n < length buf" and "buf ! n = 0"
  shows "ok (log_piece A a i n buf ab w) (\<lambda>(ab', w'). W (T @ field a i (piece_value a (take n buf))) ab' w' \<and> same_user w w')"
proof -
  have index: "ok (if too_long a then audit_log_format A (ascii ''['' @ dec i @ ascii '']'') ab1 w1 else Some (ab1, w1))
      (\<lambda>(ab', w'). W (U @ (if too_long a then ascii ''['' @ dec i @ ascii '']'' else [])) ab' w' \<and> same_user w w')"
    if "W U ab1 w1" "same_user w w1" for U ab1 w1
    using W_format [OF that(1), of "ascii ''['' @ dec i @ ascii '']''"] that
    by (auto simp: same_user_def same_settings_def elim!: ok_mono)
  have val: "ok (if has_cntl a then audit_log_n_hex A (take n buf) ab1 w1
      else audit_log_n_string A (takeWhile (\<lambda>b. b \<noteq> 0) buf) ab1 w1)
      (\<lambda>(ab', w'). W (U @ piece_value a (take n buf)) ab' w' \<and> same_user w w')"
    if "W U ab1 w1" "same_user w w1" for U ab1 w1
    using W_hex [OF that(1), of "take n buf"] W_string [OF that(1), of "takeWhile (\<lambda>b. b \<noteq> 0) buf"] that
      takeWhile_end [OF assms(2,3)]
    by (auto simp: piece_value_def same_user_def same_settings_def elim!: ok_mono)
  from W_format [OF assms(1), of "ascii '' a'' @ dec (arg_num a)"] obtain ab1 w1
    where 1: "audit_log_format A (ascii '' a'' @ dec (arg_num a)) ab w = Some (ab1, w1)"
      and W1: "W (T @ ascii '' a'' @ dec (arg_num a)) ab1 w1" "same_user w w1"
    by (auto elim!: okE)
  from index [OF W1] obtain ab2 w2 where 2: "(if too_long a then audit_log_format A (ascii ''['' @ dec i @ ascii '']'') ab1 w1 else Some (ab1, w1)) = Some (ab2, w2)"
    and W2: "W ((T @ ascii '' a'' @ dec (arg_num a)) @ (if too_long a then ascii ''['' @ dec i @ ascii '']'' else [])) ab2 w2" "same_user w w2"
    by (blast elim!: okE)
  from W_format [OF W2(1), of "ascii ''=''"] obtain ab3 w3
    where 3: "audit_log_format A (ascii ''='') ab2 w2 = Some (ab3, w3)"
      and W3: "W (((T @ ascii '' a'' @ dec (arg_num a)) @ (if too_long a then ascii ''['' @ dec i @ ascii '']'' else [])) @ ascii ''='') ab3 w3"
        "same_user w2 w3"
    by (blast elim!: okE)
  have "same_user w w3" using W2(2) W3(2) by (simp add: same_user_def same_settings_def)
  from val [OF W3(1) this] show ?thesis using 1 2 3 by (simp add: log_piece_def field_def)
qed

definition arg_logged :: "exec_arg \<Rightarrow> nat \<Rightarrow> nat \<Rightarrow> nat \<Rightarrow> byte list \<Rightarrow> byte list \<Rightarrow> 'z aw \<Rightarrow>
    int \<times> nat \<times> byte list \<times> abuf option \<times> 'z aw \<Rightarrow> bool" where
  "arg_logged a i p n buf T w = (\<lambda>(r, ls, b, ab, w'). W0 ab w' \<and> length b = Suc MAX_EXECVE_AUDIT_LEN \<and> umem w' = umem w \<and>
     (r > 0 \<longrightarrow> r = int (arg_len a) + 1 \<and> (\<exists>cs. pieces a (umem w) (utime w) buf p n cs \<and>
        W (T @ (if n = 0 then [] else len_field a i) @ fields a i cs) ab w')) \<and>
     (r \<le> 0 \<longrightarrow> r = 0 \<and> \<not> sure \<or> r = -1 \<and> (\<exists>t. \<exists>j<n. umem w t (p + j) = None)))"

lemma log_arg_text:
  assumes "W T ab w" and "length buf = Suc MAX_EXECVE_AUDIT_LEN" and "arg_len a \<ge> max_len a \<or> n \<le> max_len a"
  shows "ok (log_arg A stamp a i p n ls buf ab w) (arg_logged a i p n buf T w)"
  using assms
proof (induction n arbitrary: T i p ls buf ab w rule: less_induct)
  case (less n)
  show ?case
  proof (cases "n = 0")
    case True
    then show ?thesis using less.prems W_stop
      by (subst log_arg.simps) (auto simp: arg_logged_def intro!: exI [of _ "[]"])
  next
    case False
    define k where "k = min n (max_len a)"
    have k: "k \<le> MAX_EXECVE_AUDIT_LEN" "n - k < n" "0 < k" using max_len_bounds [of a] False by (auto simp: k_def)
    from W_room [OF less.prems(1), of a k ls] obtain ls1 ab1 go w1
      where 1: "make_room A stamp a k ls ab w = Some (ls1, ab1, go, w1)" and r1: "go \<Longrightarrow> W T ab1 w1" "W0 ab1 w1" "same_user w w1"
        and sg: "sure \<Longrightarrow> go"
      by (auto elim!: okE)
    show ?thesis
    proof (cases go)
      case False
      then have "log_arg A stamp a i p n ls buf ab w = Some (0, ls1, buf, ab1, w1)"
        using \<open>n \<noteq> 0\<close> 1 by (subst log_arg.simps) (simp add: k_def [symmetric])
      then show ?thesis using r1 sg False less.prems(2) by (auto simp: arg_logged_def same_user_def)
    next
      case True
      from log_len_text [OF r1(1) [OF True], of a i] obtain ab2 w2
        where 2: "log_len A a i ab1 w1 = Some (ab2, w2)" and r2: "W (T @ len_field a i) ab2 w2" and s2: "same_user w1 w2"
        by (auto elim!: okE)
      have u2: "umem w2 = umem w" "utime w2 = utime w" using r1(3) s2 by (simp_all add: same_user_def)
      have "ok (get_piece a p k buf w2) (\<lambda>(r, w3). w3 = w2\<lparr>utime := utime w3\<rparr> \<and> utime w \<le> utime w3 \<and>
        (case r of None \<Rightarrow> ufetch (umem w (utime w)) p k = None | Some b \<Rightarrow> length b = Suc MAX_EXECVE_AUDIT_LEN \<and> b ! k = 0 \<and>
          (if arg_len a \<ge> max_len a then \<exists>t \<ge> utime w. ufetch (umem w t) p k = Some (take k b) else take k b = take k buf)))"
      proof (cases "arg_len a \<ge> max_len a")
        case True
        then have "get_piece a p k buf w2 = fetch_piece p k buf w2" by (simp add: get_piece_def)
        then show ?thesis using True less.prems(2) u2
          by (auto intro!: ok_mono [OF fetch_piece_ok [OF less.prems(2) k(1), of p w2]] split: option.splits)
      next
        case False
        then show ?thesis using less.prems(2) k(1) u2 by (simp add: get_piece_def ok_simps)
      qed
      then obtain r w3 where 3: "get_piece a p k buf w2 = Some (r, w3)"
        and w3: "w3 = w2\<lparr>utime := utime w3\<rparr>" "utime w \<le> utime w3"
        and n3: "r = None \<Longrightarrow> ufetch (umem w (utime w)) p k = None"
        and b3: "\<And>b. r = Some b \<Longrightarrow> length b = Suc MAX_EXECVE_AUDIT_LEN \<and> b ! k = 0 \<and>
          (if arg_len a \<ge> max_len a then \<exists>t \<ge> utime w. ufetch (umem w t) p k = Some (take k b) else take k b = take k buf)"
        by (fastforce elim!: okE)
      have r3: "W (T @ len_field a i) ab2 w3" by (subst w3(1)) (rule W_user [OF r2])
      have u3: "umem w3 = umem w" by (subst w3(1)) (simp add: u2)
      show ?thesis
      proof (cases r)
        case None
        then have "log_arg A stamp a i p n ls buf ab w = Some (-1, ls1, buf, ab2, w3)"
          using \<open>n \<noteq> 0\<close> True 1 2 3 by (subst log_arg.simps) (simp add: k_def [symmetric])
        moreover obtain j where "j < k" "umem w (utime w) (p + j) = None"
          using ufetch_None [OF n3 [OF None]] by blast
        moreover from this have "\<exists>t. \<exists>j<n. umem w t (p + j) = None" unfolding k_def by (meson min_less_iff_conj)
        ultimately show ?thesis using W_stop [OF r3] u3 less.prems(2)
          by (simp add: arg_logged_def)
      next
        case (Some b)
        note b = b3 [OF Some]
        have "k < length b" using b k(1) by simp
        from log_piece_text [OF r3 this, of a i] b obtain ab4 w4
          where 4: "log_piece A a i k b ab2 w3 = Some (ab4, w4)"
            and r4: "W ((T @ len_field a i) @ field a i (piece_value a (take k b))) ab4 w4" "same_user w3 w4"
          by (auto elim!: okE)
        have step: "log_arg A stamp a i p n ls buf ab w =
            log_arg A stamp a (Suc i) (p + k) (n - k) (ls1 + arg_num_len a + sent_size a k) b ab4 w4"
          using \<open>n \<noteq> 0\<close> True 1 2 3 4 Some by (subst log_arg.simps) (simp add: k_def [symmetric])
        have u4: "umem w4 = umem w" "utime w \<le> utime w4" using r4(2) u3 w3(2) by (simp_all add: same_user_def)
        have "arg_len a \<ge> max_len a \<or> n - k \<le> max_len a" using less.prems(3) by auto
        with b have "ok (log_arg A stamp a (Suc i) (p + k) (n - k) (ls1 + arg_num_len a + sent_size a k) b ab4 w4)
          (arg_logged a (Suc i) (p + k) (n - k) b ((T @ len_field a i) @ field a i (piece_value a (take k b))) w4)"
          by (intro less.IH [OF k(2) r4(1)]) auto
        then show ?thesis unfolding step
        proof (rule ok_mono)
          fix q assume "arg_logged a (Suc i) (p + k) (n - k) b ((T @ len_field a i) @ field a i (piece_value a (take k b))) w4 q"
          then obtain r ls2 b2 ab5 w5 where q: "q = (r, ls2, b2, ab5, w5)" and o: "W0 ab5 w5" "length b2 = Suc MAX_EXECVE_AUDIT_LEN"
              "umem w5 = umem w" and no: "r \<le> 0 \<longrightarrow> r = 0 \<and> \<not> sure \<or> r = -1 \<and> (\<exists>t. \<exists>j<n - k. umem w t (p + k + j) = None)"
            and l: "r > 0 \<Longrightarrow> r = int (arg_len a) + 1 \<and> (\<exists>cs. pieces a (umem w) (utime w4) b (p + k) (n - k) cs \<and>
              W (T @ len_field a i @ field a i (piece_value a (take k b)) @ fields a (Suc i) cs) ab5 w5)"
            by (cases q) (auto simp: arg_logged_def u4)
          have pcs: "pieces a (umem w) (utime w) buf p n (take k b # cs)" if "pieces a (umem w) (utime w4) b (p + k) (n - k) cs" for cs
          proof -
            have "arg_len a \<ge> max_len a \<or> n - k = 0" using less.prems(3) by (auto simp: k_def)
            from pieces_mono [OF that u4(2) this] show ?thesis using b \<open>n \<noteq> 0\<close> by (simp add: k_def [symmetric])
          qed
          have "\<exists>cs. pieces a (umem w) (utime w) buf p n cs \<and> W (T @ len_field a i @ fields a i cs) ab5 w5" if r0: "r > 0"
          proof -
            obtain cs where "pieces a (umem w) (utime w4) b (p + k) (n - k) cs"
              and "W (T @ len_field a i @ field a i (piece_value a (take k b)) @ fields a (Suc i) cs) ab5 w5"
              using l [OF r0] by blast
            with pcs show ?thesis by (intro exI [of _ "take k b # cs"]) (simp only: fields.simps simp_thms)
          qed
          moreover have "r \<le> 0 \<longrightarrow> r = 0 \<and> \<not> sure \<or> r = -1 \<and> (\<exists>t. \<exists>j<n. umem w t (p + j) = None)"
          proof -
            have "\<exists>j<n. umem w t (p + j) = None" if "j < n - k" "umem w t (p + k + j) = None" for t j
              using that by (intro exI [of _ "k + j"]) (simp add: add.assoc)
            then show ?thesis using no by blast
          qed
          ultimately show "arg_logged a i p n buf T w q" using o l \<open>n \<noteq> 0\<close>
            by (simp add: q arg_logged_def)
        qed
      qed
    qed
  qed
qed

end

section \<open>One argument\<close>

lemma ufetch_SomeI:
  assumes "\<And>j. j < length bs \<Longrightarrow> m (p + j) = Some (bs ! j)"
  shows "ufetch m p (length bs) = Some bs"
proof -
  have "those (map (\<lambda>i. m (p + i)) [0..<length bs]) = Some (map ((!) bs) [0..<length bs])"
    by (rule those_map_Some) (use assms in auto)
  then show ?thesis by (simp add: ufetch_def map_nth)
qed

text \<open>The fetches of the first walk, when it goes to the end.\<close>

definition walk_fetches :: "nat \<Rightarrow> nat" where
  "walk_fetches n = (n - 1) div MAX_EXECVE_AUDIT_LEN + 1"

lemma contains_control_append:
  "audit_string_contains_control (xs @ ys) \<longleftrightarrow> audit_string_contains_control xs \<or> audit_string_contains_control ys"
  by (simp add: audit_string_contains_control_def)

lemma walk_arg_string:
  assumes "length buf = Suc MAX_EXECVE_AUDIT_LEN"
    and "\<And>t j. utime w \<le> t \<Longrightarrow> t < utime w + walk_fetches (length s) \<Longrightarrow> j < length s \<Longrightarrow> umem w t (p + j) = Some (s ! j)"
  shows "ok (walk_arg p (length s) buf w) (\<lambda>(r, w'). \<exists>u. w' = w\<lparr>utime := u\<rparr> \<and> utime w \<le> u \<and>
    (\<exists>b. r = Some (audit_string_contains_control s, b) \<and> length b = Suc MAX_EXECVE_AUDIT_LEN \<and>
      (length s \<le> MAX_EXECVE_AUDIT_LEN \<longrightarrow> take (length s) b = s)) \<and>
    (\<not> audit_string_contains_control s \<longrightarrow> u = utime w + walk_fetches (length s)))"
  using assms
proof (induction "length s" arbitrary: s p buf w rule: less_induct)
  case (less s)
  define k where "k = min (length s) MAX_EXECVE_AUDIT_LEN"
  have k: "k \<le> MAX_EXECVE_AUDIT_LEN" "k \<le> length s" by (simp_all add: k_def)
  have "ufetch (umem w (utime w)) p (length (take k s)) = Some (take k s)"
    by (rule ufetch_SomeI) (use less.prems(2) k in \<open>auto simp: walk_fetches_def\<close>)
  then have uf: "ufetch (umem w (utime w)) p k = Some (take k s)" using k by simp
  from fetch_piece_ok [OF less.prems(1) k(1), of p w] uf obtain b w1
    where f: "fetch_piece p k buf w = Some (Some b, w1)" and w1: "w1 = w\<lparr>utime := Suc (utime w)\<rparr>"
      and b: "length b = Suc MAX_EXECVE_AUDIT_LEN" "take k b = take k s"
    using less.prems(1) by (auto elim!: okE split: option.splits)
  have step: "walk_arg p (length s) buf w =
     (if audit_string_contains_control (take k s) then Some (Some (True, b), w1)
      else if length s - k > 0 then walk_arg (p + k) (length s - k) b w1
      else Some (Some (False, b), w1))"
    using f b by (subst walk_arg.simps) (simp add: k_def [symmetric])
  have split: "audit_string_contains_control s \<longleftrightarrow>
      audit_string_contains_control (take k s) \<or> audit_string_contains_control (drop k s)"
    by (metis append_take_drop_id contains_control_append)
  have short: "length s \<le> MAX_EXECVE_AUDIT_LEN \<Longrightarrow> k = length s" by (simp add: k_def)
  show ?case
  proof (cases "audit_string_contains_control (take k s)")
    case True
    then show ?thesis using b w1 split short by (auto simp: step)
  next
    case False
    show ?thesis
    proof (cases "length s - k > 0")
      case True
      then have big: "k = MAX_EXECVE_AUDIT_LEN" "MAX_EXECVE_AUDIT_LEN < length s" by (auto simp: k_def)
      have wf: "walk_fetches (length s) = Suc (walk_fetches (length s - k))"
        using big div_add_self2 [of MAX_EXECVE_AUDIT_LEN "length s - k - 1"] 
        by (simp add: walk_fetches_def MAX_EXECVE_AUDIT_LEN_def)
      have "ok (walk_arg (p + k) (length (drop k s)) b w1) (\<lambda>(r, w'). \<exists>u. w' = w1\<lparr>utime := u\<rparr> \<and> utime w1 \<le> u \<and>
        (\<exists>b. r = Some (audit_string_contains_control (drop k s), b) \<and> length b = Suc MAX_EXECVE_AUDIT_LEN \<and>
          (length (drop k s) \<le> MAX_EXECVE_AUDIT_LEN \<longrightarrow> take (length (drop k s)) b = drop k s)) \<and>
        (\<not> audit_string_contains_control (drop k s) \<longrightarrow> u = utime w1 + walk_fetches (length (drop k s))))"
      proof (rule less.hyps)
        show "length (drop k s) < length s" using big by (simp add: MAX_EXECVE_AUDIT_LEN_def)
        fix t j assume "utime w1 \<le> t" "t < utime w1 + walk_fetches (length (drop k s))" "j < length (drop k s)"
        then show "umem w1 t (p + k + j) = Some (drop k s ! j)"
          using less.prems(2) [of t "k + j"] wf w1 by (simp add: add.assoc)
      qed (rule b)
      then show ?thesis using False True w1 split big wf by (auto simp: step elim!: ok_mono)
    next
      case F: False
      then have "k = length s" using k by simp
      moreover from this have "length s \<le> MAX_EXECVE_AUDIT_LEN" using k by simp
      moreover from this have "walk_fetches (length s) = 1" by (auto simp: walk_fetches_def MAX_EXECVE_AUDIT_LEN_def)
      ultimately show ?thesis using False F b w1 by (simp add: step)
    qed
  qed
qed
text \<open>A string of user space: its bytes, none of them zero, and the end.\<close>

definition user_string :: "(nat \<Rightarrow> byte option) \<Rightarrow> nat \<Rightarrow> byte list \<Rightarrow> bool" where
  "user_string m p s \<longleftrightarrow> (\<forall>j<length s. m (p + j) = Some (s ! j)) \<and> 0 \<notin> set s \<and> m (p + length s) = Some 0"

lemma strnlen_at_string:
  "user_string m p s \<Longrightarrow> length s < n \<Longrightarrow> strnlen_at m p n = Some (Suc (length s))"
proof (induction s arbitrary: p n)
  case Nil
  then show ?case by (cases n) (simp_all add: user_string_def)
next
  case (Cons b s)
  obtain k where n: "n = Suc k" using Cons.prems(2) by (cases n) auto
  have "m p = Some b" "b \<noteq> 0" and us: "user_string m (Suc p) s"
    using Cons.prems(1) by (auto simp: user_string_def dest: spec [of _ 0])
  then show ?case using Cons.IH [OF us, of k] Cons.prems(2) by (simp add: n)
qed

definition arg_of :: "nat \<Rightarrow> byte list \<Rightarrow> exec_arg" where
  "arg_of i s = \<lparr>arg_num = i, has_cntl = audit_string_contains_control s, arg_len = length s\<rparr>"

lemma arg_of_sel [simp]: "arg_num (arg_of i s) = i" "arg_len (arg_of i s) = length s"
  "has_cntl (arg_of i s) = audit_string_contains_control s"
  by (simp_all add: arg_of_def)

text \<open>The argument as the pieces \<open>cs\<close> of it; an empty one leaves no trace.\<close>

definition arg_text :: "nat \<Rightarrow> byte list \<Rightarrow> byte list list \<Rightarrow> byte list" where
  "arg_text i s cs = (if s = [] then [] else len_field (arg_of i s) 0 @ fields (arg_of i s) 0 cs)"

locale exec_client = log_client A stamp W W0 sure
  for A :: audit_env
    and stamp :: "exec_world \<Rightarrow> (nat \<times> nat \<times> u32) \<times> exec_world"
    and W :: "byte list \<Rightarrow> abuf option \<Rightarrow> exec_world \<Rightarrow> bool"
    and W0 :: "abuf option \<Rightarrow> exec_world \<Rightarrow> bool"
    and sure :: bool +
  assumes W0_kill: "W0 ab w \<Longrightarrow> W0 ab (kill_task w)"
begin

definition single_post :: "byte list \<Rightarrow> int \<times> nat \<times> byte list \<times> abuf option \<times> exec_world \<Rightarrow> bool" where
  "single_post T = (\<lambda>(r, ls, b, ab, w). W0 ab w \<and> length b = Suc MAX_EXECVE_AUDIT_LEN \<and> (r > 0 \<longrightarrow> (\<exists>U. W (T @ U) ab w)))"

lemma single_any:
  assumes "W T ab w" and "length buf = Suc MAX_EXECVE_AUDIT_LEN"
  shows "ok (audit_log_single_execve_arg A stamp i ls p buf ab w) (single_post T)"
proof -
  define k where "k = fst (strnlen_user p MAX_ARG_STRLEN w)"
  define w1 where "w1 = w\<lparr>utime := Suc (utime w)\<rparr>"
  define len where "len = (if k = 0 then 2 ^ 64 - 1 else k - 1)"
  have s: "strnlen_user p MAX_ARG_STRLEN w = (k, w1)" by (simp add: k_def w1_def strnlen_user_def)
  have r1: "W T ab w1" unfolding w1_def by (rule W_user [OF assms(1)])
  show ?thesis
  proof (cases "len > MAX_ARG_STRLEN - 1")
    case True
    then show ?thesis using s W0_kill [OF W_stop [OF r1]] assms(2)
      by (simp add: audit_log_single_execve_arg_def len_def [symmetric] single_post_def)
  next
    case False
    from ok_iff [THEN iffD1, OF walk_arg_ok [OF assms(2), of p len w1]] obtain r w2
      where 2: "walk_arg p len buf w1 = Some (r, w2)" and w2: "w2 = w1\<lparr>utime := utime w2\<rparr>"
        and b: "\<And>c b. r = Some (c, b) \<Longrightarrow> length b = length buf"
      by auto
    have r2: "W T ab w2" by (subst w2) (rule W_user [OF r1])
    show ?thesis
    proof (cases r)
      case None
      then show ?thesis using False s 2 W0_kill [OF W_stop [OF r2]] assms(2)
        by (simp add: audit_log_single_execve_arg_def len_def [symmetric] single_post_def)
    next
      case (Some cb)
      obtain c b' where cb: "cb = (c, b')" by (metis prod.exhaust)
      define a where "a = \<lparr>arg_num = i, has_cntl = c, arg_len = len\<rparr>"
      have l: "length b' = Suc MAX_EXECVE_AUDIT_LEN" using b Some cb assms(2) by simp
      have "arg_len a \<ge> max_len a \<or> len \<le> max_len a" by (auto simp: a_def)
      from log_arg_text [OF r2 l this, of 0 p ls] obtain r ls3 b3 ab3 w3
        where 3: "log_arg A stamp a 0 p len ls b' ab w2 = Some (r, ls3, b3, ab3, w3)"
          and p: "arg_logged a 0 p len b' T w2 (r, ls3, b3, ab3, w3)"
        by (elim okE) (metis prod_cases5)
      have "audit_log_single_execve_arg A stamp i ls p buf ab w = Some (r, ls3, b3, ab3, if r = -1 then kill_task w3 else w3)"
        using False s 2 Some cb 3 by (simp add: audit_log_single_execve_arg_def len_def [symmetric] a_def)
      then show ?thesis using p W0_kill by (auto simp: single_post_def arg_logged_def)
    qed
  qed
qed

lemma log_args_any:
  assumes "W T ab w" and "length buf = Suc MAX_EXECVE_AUDIT_LEN"
  shows "ok (log_args n A stamp i ls p buf ab w) (\<lambda>(ab', w'). W0 ab' w')"
  using assms
proof (induction n arbitrary: T i ls p buf ab w)
  case 0
  then show ?case using W_stop by simp
next
  case (Suc n)
  show ?case
    by (simp, rule ok_bindI [OF single_any [OF Suc.prems]])
      (auto simp: single_post_def intro: Suc.IH)
qed

text \<open>
  An argument that does not change while the first walk looks at it: the pieces logged are
  what the second walk finds.
\<close>

lemma single_string:
  assumes "W T ab w" and "length buf = Suc MAX_EXECVE_AUDIT_LEN" and "length s < MAX_ARG_STRLEN"
    and us: "\<And>t. utime w \<le> t \<Longrightarrow> t < utime w + 1 + walk_fetches (length s) \<Longrightarrow> user_string (umem w t) p s"
  shows "ok (audit_log_single_execve_arg A stamp i ls p buf ab w) (\<lambda>(r, ls', b', ab', w').
    W0 ab' w' \<and> length b' = Suc MAX_EXECVE_AUDIT_LEN \<and> umem w' = umem w \<and>
    (r > 0 \<longrightarrow> r = int (length s) + 1 \<and> (\<exists>b2 t0 cs. utime w \<le> t0 \<and>
       (\<not> audit_string_contains_control s \<longrightarrow> t0 = utime w + 1 + walk_fetches (length s)) \<and>
       (length s \<le> MAX_EXECVE_AUDIT_LEN \<longrightarrow> take (length s) b2 = s) \<and>
       pieces (arg_of i s) (umem w) t0 b2 p (length s) cs \<and> W (T @ arg_text i s cs) ab' w')) \<and>
    (r \<le> 0 \<longrightarrow> r = 0 \<and> \<not> sure \<or> r = -1 \<and> (\<exists>t. \<exists>j<length s. umem w t (p + j) = None)))"
proof -
  define w1 where "w1 = w\<lparr>utime := Suc (utime w)\<rparr>"
  have "strnlen_at (umem w (utime w)) p MAX_ARG_STRLEN = Some (Suc (length s))"
    using assms(3) by (intro strnlen_at_string us) (simp_all add: walk_fetches_def)
  then have k: "strnlen_user p MAX_ARG_STRLEN w = (Suc (length s), w1)" by (simp add: strnlen_user_def w1_def)
  have r1: "W T ab w1" unfolding w1_def by (rule W_user [OF assms(1)])
  have "umem w1 t (p + j) = Some (s ! j)"
    if "utime w1 \<le> t" "t < utime w1 + walk_fetches (length s)" "j < length s" for t j
    using us [of t] that by (simp add: w1_def user_string_def)
  from walk_arg_string [OF assms(2) this]
  have "\<exists>b u. walk_arg p (length s) buf w1 = Some (Some (audit_string_contains_control s, b), w1\<lparr>utime := u\<rparr>) \<and> utime w1 \<le> u \<and>
      length b = Suc MAX_EXECVE_AUDIT_LEN \<and> (length s \<le> MAX_EXECVE_AUDIT_LEN \<longrightarrow> take (length s) b = s) \<and>
      (\<not> audit_string_contains_control s \<longrightarrow> u = utime w1 + walk_fetches (length s))"
    by (auto elim!: okE)
  then obtain b u where 2: "walk_arg p (length s) buf w1 = Some (Some (audit_string_contains_control s, b), w1\<lparr>utime := u\<rparr>)"
      and u1: "utime w1 \<le> u" "\<not> audit_string_contains_control s \<longrightarrow> u = utime w1 + walk_fetches (length s)"
      and b: "length b = Suc MAX_EXECVE_AUDIT_LEN" "length s \<le> MAX_EXECVE_AUDIT_LEN \<longrightarrow> take (length s) b = s"
    by blast
  define w2 where "w2 = w1\<lparr>utime := u\<rparr>"
  note w2 = w2_def
  have u: "utime w \<le> u" "\<not> audit_string_contains_control s \<Longrightarrow> u = utime w + 1 + walk_fetches (length s)"
    using u1 by (auto simp: w1_def)
  have r2: "W T ab w2" unfolding w2 by (rule W_user [OF r1])
  have "arg_len (arg_of i s) \<ge> max_len (arg_of i s) \<or> length s \<le> max_len (arg_of i s)" by (auto simp: arg_of_def)
  from log_arg_text [OF r2 b(1) this, of 0 p ls] obtain r ls3 b3 ab3 w3
    where 3: "log_arg A stamp (arg_of i s) 0 p (length s) ls b ab w2 = Some (r, ls3, b3, ab3, w3)"
      and q: "arg_logged (arg_of i s) 0 p (length s) b T w2 (r, ls3, b3, ab3, w3)"
    by (elim okE) (metis prod_cases5)
  have le: "\<not> length s > MAX_ARG_STRLEN - 1" using assms(3) by simp
  have e: "audit_log_single_execve_arg A stamp i ls p buf ab w = Some (r, ls3, b3, ab3, if r = -1 then kill_task w3 else w3)"
    using le k 2 3 by (simp add: audit_log_single_execve_arg_def arg_of_def w2 Let_def)
  have m: "umem w2 = umem w" "utime w2 = u" by (simp_all add: w2 w1_def)
  have "r = int (length s) + 1 \<and> (\<exists>b2 t0 cs. utime w \<le> t0 \<and>
       (\<not> audit_string_contains_control s \<longrightarrow> t0 = utime w + 1 + walk_fetches (length s)) \<and>
       (length s \<le> MAX_EXECVE_AUDIT_LEN \<longrightarrow> take (length s) b2 = s) \<and>
       pieces (arg_of i s) (umem w) t0 b2 p (length s) cs \<and> W (T @ arg_text i s cs) ab3 w3)" if r: "r > 0"
  proof -
    from q r obtain cs where 1: "r = int (length s) + 1" "pieces (arg_of i s) (umem w) u b p (length s) cs"
      "W (T @ (if length s = 0 then [] else len_field (arg_of i s) 0) @ fields (arg_of i s) 0 cs) ab3 w3"
      by (auto simp: arg_logged_def m)
    have "(if length s = 0 then [] else len_field (arg_of i s) 0) @ fields (arg_of i s) 0 cs = arg_text i s cs"
      using 1(2) by (cases cs) (auto simp: arg_text_def)
    with 1 u b(2) show ?thesis by (intro conjI exI [of _ b] exI [of _ u] exI [of _ cs]) auto
  qed
  moreover have "r \<le> 0 \<longrightarrow> r = 0 \<and> \<not> sure \<or> r = -1 \<and> (\<exists>t. \<exists>j<length s. umem w t (p + j) = None)"
    using q by (simp add: arg_logged_def m)
  ultimately show ?thesis using q W0_kill by (auto simp: e arg_logged_def m kill_task_def)
qed

end

section \<open>The log under a race\<close>

lemma make_room_user:
  assumes "quiet_stamp stamp" and "make_room A stamp a n ls ab w = Some (ls', ab', go, w')"
  shows "same_user w w'"
  using assms(2) audit_log_start_user [OF assms(1)]
  by (auto simp: make_room_def Let_def bind_eq_Some_conv split: if_splits dest!: audit_log_end_user intro: same_user_trans)

text \<open>Whatever memory and daemon do, the record at hand stays in order.\<close>

definition in_order :: "audit_env \<Rightarrow> 'z stamp \<Rightarrow> nat multiset \<Rightarrow> abuf option \<Rightarrow> 'z aw \<Rightarrow> bool" where
  "in_order A stamp B ab w \<longleftrightarrow> quiet_stamp stamp \<and> rec_ok A B ab w"

lemma put_in_order:
  assumes "in_order A stamp B ab w"
  shows "ok (audit_log_format A t ab w) (\<lambda>(ab', w'). in_order A stamp B ab' w' \<and> same_user w w')"
    and "ok (audit_log_n_hex A t ab w) (\<lambda>(ab', w'). in_order A stamp B ab' w' \<and> same_user w w')"
    and "ok (audit_log_n_string A t ab w) (\<lambda>(ab', w'). in_order A stamp B ab' w' \<and> same_user w w')"
proof -
  have r: "rec_ok A B ab w" and q: "quiet_stamp stamp" using assms by (simp_all add: in_order_def)
  show "ok (audit_log_format A t ab w) (\<lambda>(ab', w'). in_order A stamp B ab' w' \<and> same_user w w')"
    by (rule ok_mono [OF format_rec [OF r]]) (use q in \<open>auto simp: in_order_def frame_same_user\<close>)
  show "ok (audit_log_n_hex A t ab w) (\<lambda>(ab', w'). in_order A stamp B ab' w' \<and> same_user w w')"
    by (rule ok_mono [OF hex_rec [OF r]]) (use q in \<open>auto simp: in_order_def frame_same_user\<close>)
  show "ok (audit_log_n_string A t ab w) (\<lambda>(ab', w'). in_order A stamp B ab' w' \<and> same_user w w')"
    by (rule ok_mono [OF string_rec [OF r]]) (use q in \<open>auto simp: in_order_def frame_same_user\<close>)
qed

lemma room_in_order:
  assumes "in_order A stamp B ab w"
  shows "ok (make_room A stamp a n ls ab w) (\<lambda>(ls', ab', go, w'). in_order A stamp B ab' w' \<and> same_user w w')"
proof -
  have r: "rec_ok A B ab w" and q: "quiet_stamp stamp" using assms by (simp_all add: in_order_def)
  show ?thesis
    by (rule ok_mono [OF make_room_rec [OF r q]]) (use q make_room_user [OF q] in \<open>auto simp: in_order_def\<close>)
qed

lemma rec_ok_killed [simp]: "rec_ok A B ab (kill_task w) = rec_ok A B ab w"
  by (simp add: rec_ok_def pool_ok_def kill_task_def) (simp add: owned_def no_panic_def)

interpretation any_race: exec_client A stamp "\<lambda>T ab w. in_order A stamp B ab w" "in_order A stamp B" False
  for A :: audit_env and stamp :: "unit exec_world_ext stamp" and B
proof
  fix a :: exec_arg and n ls :: nat and ab and w :: exec_world
  assume w: "in_order A stamp B ab w"
  show "ok (make_room A stamp a n ls ab w) (\<lambda>(ls', ab', go, w'). (go \<longrightarrow> in_order A stamp B ab' w') \<and>
      (False \<longrightarrow> go) \<and> in_order A stamp B ab' w' \<and> same_user w w')"
    by (rule ok_mono [OF room_in_order [OF w]]) auto
  show "in_order A stamp B ab (w\<lparr>utime := u\<rparr>)" for u using w by (simp add: in_order_def)
  show "in_order A stamp B ab w" by (rule w)
  show "in_order A stamp B ab (kill_task w)" using w by (simp add: in_order_def)
qed (rule put_in_order; assumption)+
lemma execve_info_rec:
  assumes r: "rec_ok A B ab w" and q: "quiet_stamp stamp"
  shows "ok (audit_log_execve_info A stamp p argc ab w) (\<lambda>(ab', w'). rec_ok A B ab' w')"
proof -
  have args: "ok (log_args argc A stamp 0 0 p buf ab w2) (\<lambda>(ab', w'). rec_ok A (B + {#i#}) ab' w')"
    if "rec_ok A (B + {#i#}) ab w2" "length buf = Suc MAX_EXECVE_AUDIT_LEN" for i ab buf and w2 :: exec_world
    by (rule ok_mono [OF any_race.log_args_any [of A stamp "B + {#i#}"]]) (use that q in \<open>auto simp: in_order_def\<close>)
  show ?thesis unfolding audit_log_execve_info_def
  proof (rule ok_bindI [OF put_recs(1) [OF r]], clarify)
    fix ab w1 assume r1: "rec_ok A B ab (w1 :: exec_world)"
    obtain m w2 where k: "kmalloc (MAX_EXECVE_AUDIT_LEN + 1) w1 = (m, w2)" by (metis prod.exhaust)
    show "ok (case kmalloc (MAX_EXECVE_AUDIT_LEN + 1) w1 of
        (None, w) \<Rightarrow> do { w \<leftarrow> audit_panic w; Some (ab, w) }
      | (Some (k, buf), w) \<Rightarrow> do {
          (ab, w) \<leftarrow> log_args argc A stamp 0 0 p buf ab w; w \<leftarrow> kfree k w; Some (ab, w) }) (\<lambda>(ab', w'). rec_ok A B ab' w')"
    proof (cases m)
      case None
      then have "rec_ok A B ab w2" using k r1
        by (auto simp: kmalloc_def rec_ok_def pool_ok_def owned_def no_panic_def Let_def split: if_splits)
      moreover from this have "audit_panic w2 = Some w2" by (simp add: audit_panic_def rec_ok_def pool_ok_def no_panic_def)
      ultimately show ?thesis using k None by simp
    next
      case (Some kb)
      obtain i buf where kb: "kb = (i, buf)" by (metis prod.exhaust)
      have r2: "rec_ok A (B + {#i#}) ab w2" and l: "length buf = Suc MAX_EXECVE_AUDIT_LEN" using k r1 Some kb
        by (auto simp: kmalloc_def rec_ok_def pool_ok_def owned_def no_panic_def Let_def split: if_splits)
      have "ok (kfree i w) (\<lambda>w'. rec_ok A B ab w')" if "rec_ok A (B + {#i#}) ab w" for ab and w :: exec_world
        using kfree_pool [of A "B + opt_ids ab" i w] that by (auto simp: rec_ok_def elim!: ok_mono)
      then have "ok (log_args argc A stamp 0 0 p buf ab w2 \<bind> (\<lambda>(ab, w). kfree i w \<bind> (\<lambda>w. Some (ab, w)))) (\<lambda>(ab', w'). rec_ok A B ab' w')"
        by (intro ok_bindI [OF args [OF r2 l]]) (auto simp: ok_bind)
      then show ?thesis using k Some kb by simp
    qed
  qed
qed

text \<open>
  Logging the arguments of \<open>execve\<close> always ends and never faults, whatever other threads
  do to the arguments meanwhile: no buffer is left, nothing is leaked or freed twice.
\<close>

theorem audit_execve_info_safe:
  assumes "pool_ok A (B + buf_ids a) w" and "ab_skb a \<noteq> None" and "quiet_stamp stamp"
  shows "ok (audit_log_execve_info A stamp p argc (Some a) w) (\<lambda>(ab', w').
     case ab' of None \<Rightarrow> pool_ok A B w' | Some a' \<Rightarrow> pool_ok A (B + buf_ids a') w' \<and> ab_skb a' \<noteq> None)"
proof -
  have "rec_ok A B (Some a) w" using assms by (simp add: rec_ok_def opt_ids_def)
  from execve_info_rec [OF this assms(3), of p argc] show ?thesis
    by (auto simp: rec_ok_def opt_ids_def split: option.splits elim!: ok_mono)
qed

text \<open>A machine with one argument of a program in its memory, at 4096.\<close>

definition calm_exec :: "(nat \<Rightarrow> nat \<Rightarrow> byte option) \<Rightarrow> exec_world" where
  "calm_exec m = audit_world.extend calm_world \<lparr>killed = False\<rparr> \<lparr>umem := m\<rparr>"

lemma calm_exec_fields [simp]: "umem (calm_exec m) = m" "utime (calm_exec m) = 0" "klive (calm_exec m) = []" "knext (calm_exec m) = 1"
  by (simp_all add: calm_exec_def audit_world.extend_def calm_world_def)

theorem audit_execve_info_safe_witness:
  "ok (audit_log_execve_info calm_env (fresh_stamp calm_env) 4096 1
      (Some \<lparr>ab_id = 1, ab_reclaim = True, ab_skb = Some \<lparr>sk_id = 2, sk_type = AUDIT_EXECVE, sk_text = [], sk_room = 3\<rparr>\<rparr>)
      (calm_exec (\<lambda>t p. Some (if t = 0 \<and> p = 4099 then 0 else 97))\<lparr>klive := [2, 1]\<rparr>)) (\<lambda>(ab', w').
     case ab' of None \<Rightarrow> pool_ok calm_env {#} w' | Some a' \<Rightarrow> pool_ok calm_env ({#} + buf_ids a') w' \<and> ab_skb a' \<noteq> None)"
  by (rule audit_execve_info_safe [OF _ _ quiet_fresh_stamp])
    (simp_all add: pool_ok_def owned_def no_panic_def buf_ids_def calm_exec_def audit_world.extend_def calm_world_def)

section \<open>The log when nothing is lost\<close>

text \<open>
  A daemon is there, no limit is set, no filter drops the records and memory suffices: then
  the log is what was written. \<open>log_text t0 ts T\<close> says that the records \<open>ts\<close> hold the text \<open>T\<close>
  in order, the first after the text \<open>t0\<close> and each other after its stamp.
\<close>

inductive log_text :: "byte list \<Rightarrow> byte list list \<Rightarrow> byte list \<Rightarrow> bool" for t0 where
  log_first: "log_text t0 [t0] []"
| log_put: "log_text t0 (ts @ [t]) T \<Longrightarrow> log_text t0 (ts @ [t @ u]) (T @ u)"
| log_next: "log_text t0 ts T \<Longrightarrow> log_text t0 (ts @ [stamp_text st]) T"

definition calm_log :: "audit_env \<Rightarrow> 'z stamp \<Rightarrow> nat multiset \<Rightarrow> skb list \<Rightarrow> byte list \<Rightarrow> byte list \<Rightarrow> abuf option \<Rightarrow> 'z aw \<Rightarrow> bool" where
  "calm_log A stamp B q0 t0 T ab w \<longleftrightarrow> in_order A stamp B ab w \<and> steady A AUDIT_EXECVE w \<and>
     (\<exists>a s qs. ab = Some a \<and> ab_skb a = Some s \<and> skb_queue w = q0 @ qs \<and> log_text t0 (map sk_text qs @ [sk_text s]) T)"

lemma on_skb_calm:
  assumes "calm_log A stamp B q0 t0 T ab w" and f: "\<And>s. no_panic w \<Longrightarrow> ok (f s w) (write_post t s w)"
  shows "ok (on_skb f ab w) (\<lambda>(ab', w'). calm_log A stamp B q0 t0 (T @ t) ab' w' \<and> same_user w w')"
proof -
  from assms(1) obtain a s qs where q: "quiet_stamp stamp" and r: "rec_ok A B ab w" and st: "steady A AUDIT_EXECVE w"
    and ab: "ab = Some a" "ab_skb a = Some s" and qs: "skb_queue w = q0 @ qs" and l: "log_text t0 (map sk_text qs @ [sk_text s]) T"
    by (auto simp: calm_log_def in_order_def)
  have np: "no_panic w" using r by (simp add: rec_ok_def pool_ok_def)
  from f [OF np, of s] obtain s' w' where 1: "f s w = Some (s', w')" and p: "write_post t s w (s', w')" by (auto elim!: okE)
  then have e: "on_skb f ab w = Some (Some (a\<lparr>ab_skb := Some s'\<rparr>), w')" using ab by (simp add: on_skb_def)
  from p st have fr: "log_frame w w'" and t: "sk_text s' = sk_text s @ t"
    by (auto simp: write_post_def appended_def steady_def)
  have "ok (on_skb f ab w) (\<lambda>(ab', w'). rec_ok A B ab' w' \<and> log_frame w w' \<and> (ab' = None \<longleftrightarrow> ab = None))"
    by (rule on_skb_rec [OF r]) (rule f)
  then have "rec_ok A B (Some (a\<lparr>ab_skb := Some s'\<rparr>)) w'" by (simp add: e)
  moreover have "log_text t0 (map sk_text qs @ [sk_text s']) (T @ t)" unfolding t by (rule log_put [OF l])
  ultimately show ?thesis using q qs st fr
    by (auto simp: e calm_log_def in_order_def frame_steady frame_same_user log_frame_fields [OF fr])
qed

lemma room_calm:
  assumes "calm_log A stamp B q0 t0 T ab w"
  shows "ok (make_room A stamp x n ls ab w) (\<lambda>(ls', ab', go, w'). go \<and> calm_log A stamp B q0 t0 T ab' w' \<and> same_user w w')"
proof -
  from assms obtain a s qs where o: "in_order A stamp B ab w" and st: "steady A AUDIT_EXECVE w"
    and ab: "ab = Some a" "ab_skb a = Some s" and qs: "skb_queue w = q0 @ qs" and l: "log_text t0 (map sk_text qs @ [sk_text s]) T"
    by (auto simp: calm_log_def)
  have q: "quiet_stamp stamp" and r: "rec_ok A B ab w" using o by (simp_all add: in_order_def)
  from room_in_order [OF o, of x n ls] obtain ls' ab' go w'
    where m: "make_room A stamp x n ls ab w = Some (ls', ab', go, w')" and o': "in_order A stamp B ab' w'" and u: "same_user w w'"
    by (auto elim!: okE)
  have "go \<and> calm_log A stamp B q0 t0 T ab' w'"
  proof (cases "int MAX_EXECVE_AUDIT_LEN - int (arg_num_len x) - int ls - int (sent_size x n) < 0")
    case True
    then obtain w1 where e: "audit_log_end A ab w = Some w1" and b: "audit_log_start A stamp True AUDIT_EXECVE w1 = Some (ab', w')"
      and go: "go = (ab' \<noteq> None)"
      using m by (auto simp: make_room_def bind_eq_Some_conv)
    from log_end_steady [OF e [unfolded ab(1)] ab(2) st] have 1: "skb_queue w1 = skb_queue w @ [s]" "steady A AUDIT_EXECVE w1" by auto
    have "pool_ok A (B + buf_ids a) w" using r ab by (simp add: rec_ok_def opt_ids_def)
    from audit_log_end_ok [OF this ab(2)] e ab have "no_panic w1" by (auto simp: progress_def pool_ok_def)
    from log_start_steady [OF 1(2) this q b] obtain a2 s2 t2
      where 2: "ab' = Some a2" "ab_skb a2 = Some s2" "sk_text s2 = stamp_text t2" "skb_queue w' = skb_queue w1" "steady A AUDIT_EXECVE w'"
      by auto
    from log_next [OF l, of t2] have "log_text t0 (map sk_text (qs @ [s]) @ [sk_text s2]) T" using 2(3) by simp
    then show ?thesis using go o' 1 2 qs by (auto simp: calm_log_def intro!: exI [of _ "qs @ [s]"])
  next
    case False
    then show ?thesis using m assms by (simp add: make_room_def)
  qed
  then show ?thesis using u by (simp add: m)
qed

lemma put_calm:
  assumes "calm_log A stamp B q0 t0 T ab w"
  shows "ok (audit_log_format A t ab w) (\<lambda>(ab', w'). calm_log A stamp B q0 t0 (T @ t) ab' w' \<and> same_user w w')"
    and "ok (audit_log_n_hex A t ab w) (\<lambda>(ab', w'). calm_log A stamp B q0 t0 (T @ hex_text t) ab' w' \<and> same_user w w')"
    and "ok (audit_log_n_string A t ab w) (\<lambda>(ab', w'). calm_log A stamp B q0 t0 (T @ quoted t) ab' w' \<and> same_user w w')"
  unfolding audit_log_format_def audit_log_n_hex_def audit_log_n_string_def
  by (rule on_skb_calm [OF assms]; rule vformat_ok n_hex_ok n_string_ok; assumption)+

interpretation calm: exec_client A stamp "calm_log A stamp B q0 t0" "\<lambda>ab w. True" True
  for A :: audit_env and stamp :: "unit exec_world_ext stamp" and B q0 t0
proof
  fix a :: exec_arg and n ls :: nat and T ab and w :: exec_world
  assume w: "calm_log A stamp B q0 t0 T ab w"
  show "ok (make_room A stamp a n ls ab w) (\<lambda>(ls', ab', go, w'). (go \<longrightarrow> calm_log A stamp B q0 t0 T ab' w') \<and>
      (True \<longrightarrow> go) \<and> True \<and> same_user w w')"
    by (rule ok_mono [OF room_calm [OF w]]) auto
  show "calm_log A stamp B q0 t0 T ab (w\<lparr>utime := u\<rparr>)" for u
    using w by (simp add: calm_log_def in_order_def steady_def)
qed (rule put_calm TrueI; assumption?)+

section \<open>The arguments of a program\<close>

text \<open>The strings \<open>ss\<close> one behind the other, as \<open>execve\<close> lays the arguments out.\<close>

primrec argv_at :: "(nat \<Rightarrow> byte option) \<Rightarrow> nat \<Rightarrow> byte list list \<Rightarrow> bool" where
  "argv_at m p [] \<longleftrightarrow> True"
| "argv_at m p (s # ss) \<longleftrightarrow> user_string m p s \<and> argv_at m (p + length s + 1) ss"

text \<open>Their texts, when they were split into the pieces \<open>css\<close>; a reader decodes each piece.\<close>

fun args_text :: "nat \<Rightarrow> byte list list \<Rightarrow> byte list list list \<Rightarrow> byte list" where
  "args_text i (s # ss) (cs # css) = arg_text i s cs @ args_text (Suc i) ss css"
| "args_text i _ _ = []"

fun args_split :: "nat \<Rightarrow> byte list list \<Rightarrow> byte list list list \<Rightarrow> bool" where
  "args_split i [] [] \<longleftrightarrow> True"
| "args_split i (s # ss) (cs # css) \<longleftrightarrow> concat cs = s \<and>
     (\<forall>c \<in> set cs. decode_value (piece_value (arg_of i s) c) = Some c) \<and> args_split (Suc i) ss css"
| "args_split i _ _ \<longleftrightarrow> False"

lemma takeWhile_nonzero: "0 \<notin> set c \<Longrightarrow> takeWhile (\<lambda>b. b \<noteq> 0) c = c" for c :: "byte list"
  by (auto simp: takeWhile_eq_all_conv)

lemma decode_piece:
  "c \<noteq> [] \<Longrightarrow> 0 \<notin> set c \<Longrightarrow> has_cntl a \<or> 34 \<notin> set c \<Longrightarrow> decode_value (piece_value a c) = Some c"
  by (auto simp: piece_value_def decode_hex decode_quoted takeWhile_nonzero)

lemma ufetch_string:
  assumes "\<And>j. j < length s \<Longrightarrow> m (p + j) = Some (s ! j)" and "k \<le> length s" and "ufetch m p k = Some c"
  shows "c = take k s"
proof -
  have "ufetch m p (length (take k s)) = Some (take k s)" by (rule ufetch_SomeI) (use assms(1) in auto)
  then show ?thesis using assms(2,3) by simp
qed

text \<open>In a memory that does not change the pieces are the argument.\<close>

lemma pieces_stable:
  assumes "pieces a m t0 buf p (length s) cs" and "\<And>t j. j < length s \<Longrightarrow> m t (p + j) = Some (s ! j)"
    and "arg_len a \<ge> max_len a \<or> length s \<le> max_len a \<and> take (length s) buf = s"
  shows "concat cs = s \<and> [] \<notin> set cs"
  using assms
proof (induction cs arbitrary: p s)
  case (Cons c cs)
  define k where "k = min (length s) (max_len a)"
  have k: "0 < k" "k \<le> length s" using Cons.prems(1) max_len_bounds [of a] by (auto simp: k_def)
  have c: "c = take k s"
  proof (cases "arg_len a \<ge> max_len a")
    case True
    then obtain t where "ufetch (m t) p k = Some c" using Cons.prems(1) by (auto simp: k_def)
    from ufetch_string [OF Cons.prems(2) k(2) this] show ?thesis .
  next
    case False
    then show ?thesis using Cons.prems by (auto simp: k_def)
  qed
  have rest: "pieces a m t0 buf (p + k) (length (drop k s)) cs" using Cons.prems(1) by (simp add: k_def)
  have "arg_len a \<ge> max_len a \<or> length (drop k s) \<le> max_len a \<and> take (length (drop k s)) buf = drop k s"
    using Cons.prems(3) by (auto simp: k_def)
  from Cons.IH [OF rest _ this] Cons.prems(2) k have "concat cs = drop k s \<and> [] \<notin> set cs"
    by (simp add: add.assoc)
  then show ?case using c k by auto
qed simp

context exec_client
begin

lemma log_args_strings:
  assumes "W T ab w" and "length buf = Suc MAX_EXECVE_AUDIT_LEN" and "sure"
    and "\<And>t. argv_at (umem w t) p ss" and "\<forall>s \<in> set ss. length s < MAX_ARG_STRLEN"
  shows "ok (log_args (length ss) A stamp i ls p buf ab w) (\<lambda>(ab', w'). \<exists>css. args_split i ss css \<and> W (T @ args_text i ss css) ab' w')"
  using assms(1,2,4,5)
proof (induction ss arbitrary: T i ls p buf ab w)
  case Nil
  then show ?case by (auto intro!: exI [of _ "[]"])
next
  case (Cons s ss)
  have us: "user_string (umem w t) p s" for t using Cons.prems(3) by simp
  have mem: "umem w t (p + j) = Some (s ! j)" if "j < length s" for t j using us that by (simp add: user_string_def)
  have z: "0 \<notin> set s" using us by (simp add: user_string_def)
  from Cons.prems(4) have "length s < MAX_ARG_STRLEN" by simp
  from single_string [OF Cons.prems(1,2) this us, of i ls] obtain r ls1 b1 ab1 w1
    where 1: "audit_log_single_execve_arg A stamp i ls p buf ab w = Some (r, ls1, b1, ab1, w1)"
      and b1: "length b1 = Suc MAX_EXECVE_AUDIT_LEN" and m: "umem w1 = umem w"
      and y: "r > 0 \<Longrightarrow> r = int (length s) + 1 \<and> (\<exists>b2 t0 cs. (length s \<le> MAX_EXECVE_AUDIT_LEN \<longrightarrow> take (length s) b2 = s) \<and>
         pieces (arg_of i s) (umem w) t0 b2 p (length s) cs \<and> W (T @ arg_text i s cs) ab1 w1)"
      and n: "r \<le> 0 \<Longrightarrow> \<exists>t. \<exists>j<length s. umem w t (p + j) = None"
    using assms(3) by (fastforce elim!: okE)
  have "r > 0" using n mem by (metis not_less option.distinct(1))
  from y [OF this] obtain b2 t0 cs where r: "r = int (length s) + 1"
    and b2: "length s \<le> MAX_EXECVE_AUDIT_LEN \<longrightarrow> take (length s) b2 = s"
    and pc: "pieces (arg_of i s) (umem w) t0 b2 p (length s) cs" and W1: "W (T @ arg_text i s cs) ab1 w1"
    by blast
  have "max_len (arg_of i s) \<le> arg_len (arg_of i s) \<or> length s \<le> max_len (arg_of i s) \<and> take (length s) b2 = s"
    using b2 max_len_bounds [of "arg_of i s"] by auto
  from pieces_stable [OF pc mem this] have cs: "concat cs = s" "[] \<notin> set cs" by auto
  then have dc: "\<forall>c \<in> set cs. decode_value (piece_value (arg_of i s) c) = Some c"
    using z contains_control_quote [of s] by (auto intro!: decode_piece)
  have "argv_at (umem w1 t) (p + length s + 1) ss" for t using Cons.prems(3) m by simp
  from Cons.IH [OF W1 b1 this, of "Suc i" ls1] Cons.prems(4)
  have "ok (log_args (length ss) A stamp (Suc i) ls1 (p + length s + 1) b1 ab1 w1)
      (\<lambda>(ab', w'). \<exists>css. args_split (Suc i) ss css \<and> W ((T @ arg_text i s cs) @ args_text (Suc i) ss css) ab' w')" by simp
  then have "ok (log_args (length ss) A stamp (Suc i) ls1 (p + length s + 1) b1 ab1 w1)
      (\<lambda>(ab', w'). \<exists>css. args_split i (s # ss) css \<and> W (T @ args_text i (s # ss) css) ab' w')"
  proof (rule ok_mono, clarify)
    fix ab' w' css assume "args_split (Suc i) ss css" "W ((T @ arg_text i s cs) @ args_text (Suc i) ss css) ab' w'"
    with cs dc show "\<exists>css. args_split i (s # ss) css \<and> W (T @ args_text i (s # ss) css) ab' w'"
      by (intro exI [of _ "cs # css"]) simp
  qed
  moreover have "nat (int (length s) + 1) = length s + 1" by simp
  ultimately show ?case using 1 r by (simp add: add.assoc)
qed

end

lemma fetched_mapped: "ufetch m p n = Some bs \<Longrightarrow> j < n \<Longrightarrow> m (p + j) \<noteq> None"
proof
  assume "ufetch m p n = Some bs" "j < n" "m (p + j) = None"
  moreover from this have "None \<in> set (map (\<lambda>i. m (p + i)) [0..<n])" by (auto simp: image_iff) (metis atLeastLessThan_iff le0)
  ultimately show False using those_None [of "map (\<lambda>i. m (p + i)) [0..<n]"] by (simp add: ufetch_def)
qed

lemma calm_kmalloc:
  assumes "calm_log A stamp B q0 t0 T ab w" and "kmalloc n w = (r, w')"
  shows "\<exists>i buf. r = Some (i, buf) \<and> length buf = n \<and> calm_log A stamp (B + {#i#}) q0 t0 T ab w' \<and> same_user w w'"
  using assms
  by (auto simp: kmalloc_def calm_log_def in_order_def rec_ok_def pool_ok_def owned_def no_panic_def steady_def same_user_def same_settings_def Let_def
      split: if_splits)

lemma calm_kfree:
  assumes "calm_log A stamp (B + {#i#}) q0 t0 T ab w"
  shows "ok (kfree i w) (\<lambda>w'. calm_log A stamp B q0 t0 T ab w')"
proof -
  have "pool_ok A (B + opt_ids ab + {#i#}) w"
    using assms by (simp add: calm_log_def in_order_def rec_ok_def)
  from kfree_pool [OF this] obtain w' where k: "kfree i w = Some w'" and p: "pool_ok A (B + opt_ids ab) w'"
    by (auto elim!: okE)
  from k have "w' = w\<lparr>klive := remove1 i (klive w)\<rparr>" by (simp add: kfree_def split: if_splits)
  then show ?thesis using k p assms
    by (auto simp: calm_log_def in_order_def rec_ok_def steady_def)
qed

lemma execve_info_calm:
  assumes "calm_log A stamp B q0 t0 T ab w"
    and "\<And>i buf ab1 w1. calm_log A stamp (B + {#i#}) q0 t0 (T @ ascii ''argc='' @ dec argc) ab1 w1 \<Longrightarrow> same_user w w1 \<Longrightarrow>
      length buf = Suc MAX_EXECVE_AUDIT_LEN \<Longrightarrow> ok (log_args argc A stamp 0 0 p buf ab1 w1)
        (\<lambda>(ab', w'). \<exists>U. P U \<and> calm_log A stamp (B + {#i#}) q0 t0 (T @ ascii ''argc='' @ dec argc @ U) ab' w')"
  shows "ok (audit_log_execve_info A stamp p argc ab w)
    (\<lambda>(ab', w'). \<exists>U. P U \<and> calm_log A stamp B q0 t0 (T @ ascii ''argc='' @ dec argc @ U) ab' w')"
proof -
  from put_calm(1) [OF assms(1), of "ascii ''argc='' @ dec argc"] obtain ab1 w1
    where 1: "audit_log_format A (ascii ''argc='' @ dec argc) ab w = Some (ab1, w1)"
      and c1: "calm_log A stamp B q0 t0 (T @ ascii ''argc='' @ dec argc) ab1 w1" and u1: "same_user w w1"
    by (auto elim!: okE)
  obtain r w2 where k: "kmalloc (MAX_EXECVE_AUDIT_LEN + 1) w1 = (r, w2)" by (metis prod.exhaust)
  from calm_kmalloc [OF c1 k] obtain i buf where r: "r = Some (i, buf)" "length buf = Suc MAX_EXECVE_AUDIT_LEN"
    and c2: "calm_log A stamp (B + {#i#}) q0 t0 (T @ ascii ''argc='' @ dec argc) ab1 w2" and u2: "same_user w w2"
    using same_user_trans [OF u1] by auto
  from assms(2) [OF c2 u2 r(2)] obtain ab3 w3 U where 3: "log_args argc A stamp 0 0 p buf ab1 w2 = Some (ab3, w3)"
    and U: "P U" and c3: "calm_log A stamp (B + {#i#}) q0 t0 (T @ ascii ''argc='' @ dec argc @ U) ab3 w3"
    by (auto elim!: okE)
  from calm_kfree [OF c3] obtain w4 where "kfree i w3 = Some w4"
    and "calm_log A stamp B q0 t0 (T @ ascii ''argc='' @ dec argc @ U) ab3 w4" by (auto elim!: okE)
  then show ?thesis using 1 k r(1) 3 U by (auto simp: audit_log_execve_info_def)
qed

text \<open>What the theorems say of the records: the new ones, up to the one at hand, and their text.\<close>

definition records_say :: "byte list \<Rightarrow> skb list \<Rightarrow> byte list \<Rightarrow> abuf option \<times> 'z aw \<Rightarrow> bool" where
  "records_say t0 q0 T = (\<lambda>(ab, w). \<exists>a s qs. ab = Some a \<and> ab_skb a = Some s \<and> skb_queue w = q0 @ qs \<and>
     log_text t0 (map sk_text qs @ [sk_text s]) T)"

text \<open>
  C24: when the arguments do not change, the log says exactly what they are. The records,
  without their stamps, hold the number of arguments and then one field or, for a long
  argument, its length and a field for each piece; the pieces of an argument together are
  the argument, and a reader of the log decodes each of them.
\<close>

theorem audit_execve_info_logs:
  assumes "pool_ok A (B + buf_ids a) w" and "ab_skb a = Some s0" and "quiet_stamp stamp" and "steady A AUDIT_EXECVE w"
    and "\<And>t. argv_at (umem w t) p ss" and "\<forall>s \<in> set ss. length s < MAX_ARG_STRLEN"
  shows "ok (audit_log_execve_info A stamp p (length ss) (Some a) w) (\<lambda>r. \<exists>css. args_split 0 ss css \<and>
     records_say (sk_text s0) (skb_queue w) (ascii ''argc='' @ dec (length ss) @ args_text 0 ss css) r)"
proof -
  have c: "calm_log A stamp B (skb_queue w) (sk_text s0) [] (Some a) w"
    using assms(1-4) by (auto simp: calm_log_def in_order_def rec_ok_def opt_ids_def intro: log_first)
  have "ok (audit_log_execve_info A stamp p (length ss) (Some a) w) (\<lambda>(ab', w'). \<exists>U. (\<exists>css. args_split 0 ss css \<and> U = args_text 0 ss css) \<and>
      calm_log A stamp B (skb_queue w) (sk_text s0) ([] @ ascii ''argc='' @ dec (length ss) @ U) ab' w')"
  proof (rule execve_info_calm [OF c])
    fix i buf ab1 w1
    assume w1: "calm_log A stamp (B + {#i#}) (skb_queue w) (sk_text s0) ([] @ ascii ''argc='' @ dec (length ss)) ab1 (w1 :: exec_world)"
      and u: "same_user w w1" and l: "length (buf :: byte list) = Suc MAX_EXECVE_AUDIT_LEN"
    have "argv_at (umem w1 t) p ss" for t using assms(5) u by (simp add: same_user_def same_settings_def)
    from calm.log_args_strings [OF w1 l TrueI this assms(6), of 0 0]
    show "ok (log_args (length ss) A stamp 0 0 p buf ab1 w1) (\<lambda>(ab', w'). \<exists>U. (\<exists>css. args_split 0 ss css \<and> U = args_text 0 ss css) \<and>
        calm_log A stamp (B + {#i#}) (skb_queue w) (sk_text s0) ([] @ ascii ''argc='' @ dec (length ss) @ U) ab' w')"
      by (auto elim!: ok_mono)
  qed
  then show ?thesis by (rule ok_mono) (auto simp: records_say_def calm_log_def)
qed

text \<open>
  C25: the double fetch. An argument of 7500 harmless bytes is looked at; before it is fetched
  again another thread replaces it. Then the log holds the new bytes, quotes and control
  characters included, as if they were harmless.
\<close>

theorem audit_execve_race:
  assumes "pool_ok A (B + buf_ids a) w" and "ab_skb a = Some s0" and "quiet_stamp stamp" and "steady A AUDIT_EXECVE w"
    and "length s1 = MAX_EXECVE_AUDIT_LEN" and "\<not> audit_string_contains_control s1"
    and "\<And>t. t < utime w + 2 \<Longrightarrow> user_string (umem w t) p s1"
    and "\<And>t. utime w + 2 \<le> t \<Longrightarrow> ufetch (umem w t) p MAX_EXECVE_AUDIT_LEN = Some s2"
  shows "ok (audit_log_execve_info A stamp p 1 (Some a) w)
    (records_say (sk_text s0) (skb_queue w) (ascii ''argc='' @ dec 1 @ ascii '' a0='' @ quoted (takeWhile (\<lambda>b. b \<noteq> 0) s2)))"
proof -
  have c: "calm_log A stamp B (skb_queue w) (sk_text s0) [] (Some a) w"
    using assms(1-4) by (auto simp: calm_log_def in_order_def rec_ok_def opt_ids_def intro: log_first)
  have wf: "walk_fetches (length s1) = 1" and sl: "length s1 < MAX_ARG_STRLEN" "s1 \<noteq> []"
    using assms(5) by (auto simp: walk_fetches_def MAX_EXECVE_AUDIT_LEN_def MAX_ARG_STRLEN_def)
  have ml: "max_len (arg_of 0 s1) = MAX_EXECVE_AUDIT_LEN" "\<not> too_long (arg_of 0 s1)"
    using assms(5,6) by (simp_all add: max_len_def too_long_def)
  have d0: "dec 0 = ascii ''0''" by (subst dec.simps) (simp add: ascii_def)
  define V where "V = ascii '' a0='' @ quoted (takeWhile (\<lambda>b. b \<noteq> 0) s2)"
  have "ok (audit_log_execve_info A stamp p 1 (Some a) w) (\<lambda>(ab', w'). \<exists>U. U = V \<and>
      calm_log A stamp B (skb_queue w) (sk_text s0) ([] @ ascii ''argc='' @ dec 1 @ U) ab' w')"
  proof (rule execve_info_calm [OF c])
    fix i buf ab1 w1
    assume w1: "calm_log A stamp (B + {#i#}) (skb_queue w) (sk_text s0) ([] @ ascii ''argc='' @ dec 1) ab1 (w1 :: exec_world)"
      and u: "same_user w w1" and l: "length (buf :: byte list) = Suc MAX_EXECVE_AUDIT_LEN"
    have m: "umem w1 = umem w" "utime w1 = utime w" using u by (simp_all add: same_user_def)
    have us: "user_string (umem w1 t) p s1" if "utime w1 \<le> t" "t < utime w1 + 1 + walk_fetches (length s1)" for t
      using that assms(7) by (simp add: m wf)
    from calm.single_string [OF w1 l sl(1) us, of 0 0] obtain r ls b ab2 w2
      where 2: "audit_log_single_execve_arg A stamp 0 0 p buf ab1 w1 = Some (r, ls, b, ab2, w2)"
        and y: "r > 0 \<Longrightarrow> \<exists>b2 t0 cs. (\<not> audit_string_contains_control s1 \<longrightarrow> t0 = utime w1 + 1 + walk_fetches (length s1)) \<and>
          pieces (arg_of 0 s1) (umem w1) t0 b2 p (length s1) cs \<and>
          calm_log A stamp (B + {#i#}) (skb_queue w) (sk_text s0) (([] @ ascii ''argc='' @ dec 1) @ arg_text 0 s1 cs) ab2 w2"
        and n: "r \<le> 0 \<Longrightarrow> \<exists>t. \<exists>j<length s1. umem w1 t (p + j) = None"
      by (fastforce elim!: okE)
    have "umem w t (p + j) \<noteq> None" if "j < length s1" for t j
    proof (cases "t < utime w + 2")
      case True
      then show ?thesis using assms(7) that by (simp add: user_string_def)
    next
      case False
      then show ?thesis using fetched_mapped [OF assms(8)] that assms(5) by simp
    qed
    then have rpos: "r > 0" using n m(1) by (metis not_less)
    show "ok (log_args 1 A stamp 0 0 p buf ab1 w1) (\<lambda>(ab', w'). \<exists>U. U = V \<and>
        calm_log A stamp (B + {#i#}) (skb_queue w) (sk_text s0) ([] @ ascii ''argc='' @ dec 1 @ U) ab' w')"
    proof -
      have "\<exists>b2 t0 cs. t0 = utime w + 2 \<and> pieces (arg_of 0 s1) (umem w) t0 b2 p (length s1) cs \<and>
          calm_log A stamp (B + {#i#}) (skb_queue w) (sk_text s0) (([] @ ascii ''argc='' @ dec 1) @ arg_text 0 s1 cs) ab2 w2"
        using y [OF rpos] assms(6) by (auto simp: m wf)
      then obtain b2 cs where pc: "pieces (arg_of 0 s1) (umem w) (utime w + 2) b2 p (length s1) cs"
        and W2: "calm_log A stamp (B + {#i#}) (skb_queue w) (sk_text s0) (([] @ ascii ''argc='' @ dec 1) @ arg_text 0 s1 cs) ab2 w2"
        by blast
      obtain c cs' where cs: "cs = c # cs'" using pc sl(2) by (cases cs) auto
      have "\<exists>t \<ge> utime w + 2. ufetch (umem w t) p MAX_EXECVE_AUDIT_LEN = Some c" and "cs' = []"
        using pc assms(5) by (simp_all add: cs ml) (cases cs'; simp)
      then have "c = s2" using assms(8) by auto
      then have "arg_text 0 s1 cs = V"
        using ml assms(6) sl(2) \<open>cs' = []\<close> by (simp add: cs arg_text_def len_field_def field_def piece_value_def V_def d0 ascii_def)
      then show ?thesis using 2 W2 by (simp add: ok_bind)
    qed
  qed
  then show ?thesis by (rule ok_mono) (auto simp: records_say_def calm_log_def V_def)
qed
text \<open>Two arguments, a text with a quote and the empty one; and an argument that is replaced.\<close>

definition two_args :: "nat \<Rightarrow> nat \<Rightarrow> byte option" where
  "two_args t p = Some (if p = 4096 then 97 else if p = 4097 then 34 else 0)"

definition replaced_arg :: "nat \<Rightarrow> nat \<Rightarrow> byte option" where
  "replaced_arg t p = Some (if t < 2 then (if p = 4096 + MAX_EXECVE_AUDIT_LEN then 0 else 97) else 34)"

definition calm_buf :: abuf where
  "calm_buf = \<lparr>ab_id = 1, ab_reclaim = True, ab_skb = Some \<lparr>sk_id = 2, sk_type = AUDIT_EXECVE, sk_text = [], sk_room = 3\<rparr>\<rparr>"

definition calm_start :: "(nat \<Rightarrow> nat \<Rightarrow> byte option) \<Rightarrow> exec_world" where
  "calm_start m = calm_exec m\<lparr>klive := [2, 1]\<rparr>"

lemma calm_start_ok:
  "pool_ok calm_env ({#} + buf_ids calm_buf) (calm_start m)" "steady calm_env AUDIT_EXECVE (calm_start m)" "umem (calm_start m) = m"
  "ab_skb calm_buf = Some \<lparr>sk_id = 2, sk_type = AUDIT_EXECVE, sk_text = [], sk_room = 3\<rparr>" "utime (calm_start m) = 0"
  "skb_queue (calm_start m) = []"
  by (simp_all add: pool_ok_def owned_def no_panic_def buf_ids_def calm_buf_def calm_start_def calm_exec_def audit_world.extend_def
      calm_world_def steady_def calm_env_def)

theorem audit_execve_info_logs_witness:
  "ok (audit_log_execve_info calm_env (fresh_stamp calm_env) 4096 2 (Some calm_buf) (calm_start two_args)) (\<lambda>r. \<exists>css.
     args_split 0 [[97, 34], []] css \<and> records_say [] [] (ascii ''argc='' @ dec 2 @ args_text 0 [[97, 34], []] css) r)"
proof -
  have "argv_at (umem (calm_start two_args) t) 4096 [[97, 34], []]" for t
    by (auto simp: calm_start_ok user_string_def two_args_def less_Suc_eq)
  from audit_execve_info_logs [OF calm_start_ok(1) calm_start_ok(4) quiet_fresh_stamp calm_start_ok(2) this]
  show ?thesis by (simp add: calm_start_ok MAX_ARG_STRLEN_def numeral_2_eq_2)
qed

theorem audit_execve_race_witness:
  "ok (audit_log_execve_info calm_env (fresh_stamp calm_env) 4096 1 (Some calm_buf) (calm_start replaced_arg))
    (records_say [] [] (ascii ''argc='' @ dec 1 @ ascii '' a0='' @ quoted (replicate MAX_EXECVE_AUDIT_LEN 34)))"
proof -
  have u: "user_string (umem (calm_start replaced_arg) t) 4096 (replicate MAX_EXECVE_AUDIT_LEN 97)" if "t < utime (calm_start replaced_arg) + 2" for t
    using that by (auto simp: calm_start_ok user_string_def replaced_arg_def)
  have f: "ufetch (umem (calm_start replaced_arg) t) 4096 MAX_EXECVE_AUDIT_LEN = Some (replicate MAX_EXECVE_AUDIT_LEN 34)"
    if "utime (calm_start replaced_arg) + 2 \<le> t" for t
    using that ufetch_SomeI [of "replicate MAX_EXECVE_AUDIT_LEN 34" "replaced_arg t" 4096]
    by (simp add: calm_start_ok replaced_arg_def)
  have "\<not> audit_string_contains_control (replicate MAX_EXECVE_AUDIT_LEN 97)"
    by (simp add: audit_string_contains_control_def list_ex_iff)
  from audit_execve_race [OF calm_start_ok(1) calm_start_ok(4) quiet_fresh_stamp calm_start_ok(2) _ this u f]
  show ?thesis by (simp add: calm_start_ok takeWhile_nonzero)
qed

end
