(* ===== verification/AuditTree.thy ===== *)
theory AuditTree
  imports Kernel
begin

text \<open>
  The directory trees a system call touched: \<open>put_tree_ref\<close> to \<open>match_tree_refs\<close>, \<open>handle_one\<close>
  and \<open>handle_path\<close> of \<open>auditsc.c\<close>. A context keeps references to chunks in a linked list of
  arrays of 31 pointers; the list grows and is never shortened while the context lives, and a
  position in it is saved so that a walk that failed can be undone.

  The first part translates the code. The second shows that the list of arrays implements a
  stack with a saved position, the contract \<open>ref_stack\<close>, from which the behaviour of the
  code that collects the chunks follows. The last part states the abstract machine that the
  operations refine.
\<close>

section \<open>The chain\<close>

text \<open>
  A node of the chain (\<open>struct audit_tree_refs\<close>) and the part of \<open>struct audit_context\<close> that
  concerns it. Nodes are kernel objects; \<open>tree_nodes\<close> is the memory they lie in. A chunk is
  named by a number, and \<open>chunk_refs\<close> counts the references to each. \<open>tree_count\<close> is never
  negative in the code.
\<close>

record tree_refs =
  tr_next :: "nat option"
  tr_c :: "nat option list"

datatype audit_state = AUDIT_DISABLED | AUDIT_BUILD_CONTEXT | AUDIT_RECORD_CONTEXT

record tree_ctx =
  tree_nodes :: "nat \<Rightarrow> tree_refs option"
  first_trees :: "nat option"
  trees :: "nat option"
  tree_count :: nat
  prio :: u64
  current_state :: audit_state

record tree_world = world +
  chunk_refs :: "nat \<Rightarrow> nat"

type_synonym 'z tw = "'z tree_world_scheme"
type_synonym 'c tc = "'c tree_ctx_scheme"

text \<open>The size of a node on a machine with 64-bit pointers.\<close>

definition sizeof_tree_refs :: nat where
  "sizeof_tree_refs = 32 * 8"

text \<open>A reference to a chunk is taken by the lookup; dropping one that is not held is a fault.\<close>

definition get_chunk :: "nat \<Rightarrow> 'z tw \<Rightarrow> 'z tw" where
  "get_chunk c w = w\<lparr>chunk_refs := (chunk_refs w)(c := Suc (chunk_refs w c))\<rparr>"

definition audit_put_chunk :: "nat \<Rightarrow> 'z tw \<Rightarrow> 'z tw option" where
  "audit_put_chunk c w =
     (if chunk_refs w c = 0 then None else Some (w\<lparr>chunk_refs := (chunk_refs w)(c := chunk_refs w c - 1)\<rparr>))"

definition audit_set_auditable :: "'c tc \<Rightarrow> 'c tc" where
  "audit_set_auditable ctx =
     (if prio ctx = 0 then ctx\<lparr>prio := 1, current_state := AUDIT_RECORD_CONTEXT\<rparr> else ctx)"

text \<open>Storing into a node.\<close>

definition set_chunk :: "nat \<Rightarrow> nat \<Rightarrow> nat option \<Rightarrow> 'c tc \<Rightarrow> 'c tc option" where
  "set_chunk p i v ctx = do {
     nd \<leftarrow> tree_nodes ctx p;
     cs \<leftarrow> buf_set (tr_c nd) i v;
     Some (ctx\<lparr>tree_nodes := (tree_nodes ctx)(p \<mapsto> nd\<lparr>tr_c := cs\<rparr>)\<rparr>)
   }"

definition put_tree_ref :: "nat \<Rightarrow> 'c tc \<Rightarrow> (bool \<times> 'c tc) option" where
  "put_tree_ref chunk ctx =
     (let left = tree_count ctx in
      if left \<noteq> 0 then do {
        p \<leftarrow> trees ctx;
        ctx \<leftarrow> set_chunk p (left - 1) (Some chunk) ctx;
        Some (True, ctx\<lparr>tree_count := left - 1\<rparr>)
      }
      else (case trees ctx of
          None \<Rightarrow> Some (False, ctx)
        | Some p \<Rightarrow> do {
            nd \<leftarrow> tree_nodes ctx p;
            (case tr_next nd of
               Some q \<Rightarrow> do {
                 ctx \<leftarrow> set_chunk q 30 (Some chunk) ctx;
                 Some (True, ctx\<lparr>trees := Some q, tree_count := 30\<rparr>)
               }
             | None \<Rightarrow> Some (False, ctx))
          }))"

definition grow_tree_refs :: "'c tc \<Rightarrow> 'z tw \<Rightarrow> (bool \<times> 'c tc \<times> 'z tw) option" where
  "grow_tree_refs ctx w =
     (case kzalloc sizeof_tree_refs w of
        (None, w) \<Rightarrow> Some (False, ctx, w)
      | (Some (k, _), w) \<Rightarrow>
          let nodes = (tree_nodes ctx)(k \<mapsto> \<lparr>tr_next = None, tr_c = replicate 31 None\<rparr>) in
          (case trees ctx of
             Some p \<Rightarrow> do {
               nd \<leftarrow> nodes p;
               Some (True, ctx\<lparr>tree_nodes := nodes(p \<mapsto> nd\<lparr>tr_next := Some k\<rparr>), trees := Some k, tree_count := 31\<rparr>, w)
             }
           | None \<Rightarrow> Some (True, ctx\<lparr>tree_nodes := nodes, first_trees := Some k, trees := Some k, tree_count := 31\<rparr>, w)))"

text \<open>
  Dropping the references of the node \<open>q\<close> from the place below \<open>n\<close> down to \<open>lo\<close>. An empty
  place there would be a NULL pointer followed by the release.
\<close>

primrec drop_refs :: "nat option \<Rightarrow> nat \<Rightarrow> nat \<Rightarrow> 'c tc \<Rightarrow> 'z tw \<Rightarrow> ('c tc \<times> 'z tw) option" where
  "drop_refs q 0 lo ctx w = Some (ctx, w)"
| "drop_refs q (Suc n) lo ctx w =
     (if n < lo then Some (ctx, w)
      else do {
        p \<leftarrow> q;
        nd \<leftarrow> tree_nodes ctx p;
        c \<leftarrow> buf_get (tr_c nd) n;
        chunk \<leftarrow> c;
        w \<leftarrow> audit_put_chunk chunk w;
        ctx \<leftarrow> set_chunk p n None ctx;
        drop_refs q n lo ctx w
      })"

partial_function (option) unroll_loop ::
  "nat option \<Rightarrow> nat \<Rightarrow> 'c tc \<Rightarrow> 'z tw \<Rightarrow> (nat option \<times> nat \<times> 'c tc \<times> 'z tw) option" where
  "unroll_loop q n ctx w =
     (if q = trees ctx then Some (q, n, ctx, w)
      else do {
        (ctx, w) \<leftarrow> drop_refs q n 0 ctx w;
        p \<leftarrow> q;
        nd \<leftarrow> tree_nodes ctx p;
        unroll_loop (tr_next nd) 31 ctx w
      })"

definition unroll_tree_refs :: "nat option \<Rightarrow> nat \<Rightarrow> 'c tc \<Rightarrow> 'z tw \<Rightarrow> ('c tc \<times> 'z tw) option" where
  "unroll_tree_refs p cnt ctx w =
     (let (p, cnt) = (if p = None then (first_trees ctx, 31) else (p, cnt)) in
      if p = None then Some (ctx, w)
      else do {
        (q, n, ctx, w) \<leftarrow> unroll_loop p cnt ctx w;
        (ctx, w) \<leftarrow> drop_refs q n (tree_count ctx) ctx w;
        Some (ctx\<lparr>trees := p, tree_count := cnt\<rparr>, w)
      })"

partial_function (option) free_loop :: "nat option \<Rightarrow> 'c tc \<Rightarrow> 'z tw \<Rightarrow> ('c tc \<times> 'z tw) option" where
  "free_loop p ctx w =
     (case p of
        None \<Rightarrow> Some (ctx, w)
      | Some k \<Rightarrow> do {
          nd \<leftarrow> tree_nodes ctx k;
          w \<leftarrow> kfree k w;
          free_loop (tr_next nd) (ctx\<lparr>tree_nodes := (tree_nodes ctx)(k := None)\<rparr>) w
        })"

definition free_tree_refs :: "'c tc \<Rightarrow> 'z tw \<Rightarrow> ('c tc \<times> 'z tw) option" where
  "free_tree_refs ctx w = free_loop (first_trees ctx) ctx w"

text \<open>
  Searching: \<open>m\<close> is \<open>audit_tree_match\<close> for the tree asked for, \<open>None\<close> when the rule names
  no tree.
\<close>

primrec match_range :: "(nat \<Rightarrow> bool) \<Rightarrow> nat \<Rightarrow> 'c tc \<Rightarrow> nat \<Rightarrow> nat \<Rightarrow> bool option" where
  "match_range m p ctx n 0 = Some False"
| "match_range m p ctx n (Suc k) = do {
     nd \<leftarrow> tree_nodes ctx p;
     c \<leftarrow> buf_get (tr_c nd) n;
     chunk \<leftarrow> c;
     (if m chunk then Some True else match_range m p ctx (Suc n) k)
   }"

partial_function (option) match_full :: "(nat \<Rightarrow> bool) \<Rightarrow> nat option \<Rightarrow> 'c tc \<Rightarrow> bool option" where
  "match_full m q ctx =
     (if q = trees ctx then Some False
      else do {
        p \<leftarrow> q;
        found \<leftarrow> match_range m p ctx 0 31;
        nd \<leftarrow> tree_nodes ctx p;
        (if found then Some True else match_full m (tr_next nd) ctx)
      })"

definition match_tree_refs :: "(nat \<Rightarrow> bool) option \<Rightarrow> 'c tc \<Rightarrow> bool option" where
  "match_tree_refs tree ctx =
     (case tree of
        None \<Rightarrow> Some False
      | Some m \<Rightarrow> do {
          found \<leftarrow> match_full m (first_trees ctx) ctx;
          (if found then Some True
           else (case trees ctx of
               None \<Rightarrow> Some False
             | Some p \<Rightarrow> match_range m p ctx (tree_count ctx) (31 - tree_count ctx)))
        })"

section \<open>Inodes and paths\<close>

text \<open>
  An inode is looked up when it has marks; \<open>chunk\<close> is what the lookup finds. When there is no
  room and no memory, the reference is lost and the system call is audited anyway.
\<close>

definition handle_one :: "bool \<Rightarrow> nat option \<Rightarrow> 'c tc \<Rightarrow> 'z tw \<Rightarrow> ('c tc \<times> 'z tw) option" where
  "handle_one marked chunk ctx w =
     (if \<not> marked then Some (ctx, w)
      else
        let p = trees ctx; cnt = tree_count ctx in
        (case chunk of
           None \<Rightarrow> Some (ctx, w)
         | Some c \<Rightarrow>
             let w = get_chunk c w in do {
             (stored, ctx) \<leftarrow> put_tree_ref c ctx;
             (if stored then Some (ctx, w)
              else do {
                (grown, ctx, w) \<leftarrow> grow_tree_refs ctx w;
                (if \<not> grown then do {
                   let ctx = audit_set_auditable ctx;
                   w \<leftarrow> audit_put_chunk c w;
                   unroll_tree_refs p cnt ctx w
                 }
                 else do {
                   (_, ctx) \<leftarrow> put_tree_ref c ctx;
                   Some (ctx, w)
                 })
              })
           }))"

text \<open>
  One walk from a name up to the root: for every directory entry the chunk of its inode, if it
  has one. The walk ends early with the chunk there was no room for.
\<close>

primrec walk_up :: "nat option list \<Rightarrow> 'c tc \<Rightarrow> 'z tw \<Rightarrow> (nat option \<times> 'c tc \<times> 'z tw) option" where
  "walk_up [] ctx w = Some (None, ctx, w)"
| "walk_up (d # ds) ctx w =
     (case d of
        None \<Rightarrow> walk_up ds ctx w
      | Some chunk \<Rightarrow> let w = get_chunk chunk w in do {
          (stored, ctx) \<leftarrow> put_tree_ref chunk ctx;
          (if \<not> stored then Some (Some chunk, ctx, w) else walk_up ds ctx w)
        })"

text \<open>
  Renames may move the entries while they are walked, so the walk is repeated: \<open>walks n\<close> is
  what the \<open>n\<close>-th walk meets, \<open>raced n\<close> says that a rename disturbed it. A walk that found no
  room is repeated with a larger chain.
\<close>

partial_function (option) retry_walk ::
  "(nat \<Rightarrow> nat option list) \<Rightarrow> (nat \<Rightarrow> bool) \<Rightarrow> nat option \<Rightarrow> nat \<Rightarrow> nat \<Rightarrow> 'c tc \<Rightarrow> 'z tw \<Rightarrow> ('c tc \<times> 'z tw) option" where
  "retry_walk walks raced p cnt n ctx w = do {
     (dropped, ctx, w) \<leftarrow> walk_up (walks n) ctx w;
     (if raced n \<or> dropped \<noteq> None
      then (case dropped of
          None \<Rightarrow> do {
            (ctx, w) \<leftarrow> unroll_tree_refs p cnt ctx w;
            retry_walk walks raced p cnt (Suc n) ctx w
          }
        | Some c \<Rightarrow> do {
            w \<leftarrow> audit_put_chunk c w;
            (grown, ctx, w) \<leftarrow> grow_tree_refs ctx w;
            (if grown then do {
               (ctx, w) \<leftarrow> unroll_tree_refs p cnt ctx w;
               retry_walk walks raced p cnt (Suc n) ctx w
             }
             else do {
               (ctx, w) \<leftarrow> unroll_tree_refs p cnt ctx w;
               Some (audit_set_auditable ctx, w)
             })
          })
      else Some (ctx, w))
   }"

definition handle_path ::
  "(nat \<Rightarrow> nat option list) \<Rightarrow> (nat \<Rightarrow> bool) \<Rightarrow> 'c tc \<Rightarrow> 'z tw \<Rightarrow> ('c tc \<times> 'z tw) option" where
  "handle_path walks raced ctx w = retry_walk walks raced (trees ctx) (tree_count ctx) 0 ctx w"

section \<open>The chain holds a stack\<close>

text \<open>
  \<open>chain_holds ids g ctx\<close>: the chain consists of the nodes \<open>ids\<close>, and its places, counted from
  the first one filled, hold \<open>g\<close>. A node is filled from its last place on.
\<close>

definition chain_holds :: "nat list \<Rightarrow> (nat \<Rightarrow> nat option) \<Rightarrow> 'c tc \<Rightarrow> bool" where
  "chain_holds ids g ctx \<longleftrightarrow> distinct ids \<and> first_trees ctx = (if ids = [] then None else Some (ids ! 0)) \<and>
     (\<forall>j < length ids. \<exists>nd. tree_nodes ctx (ids ! j) = Some nd \<and>
       tr_next nd = (if Suc j < length ids then Some (ids ! Suc j) else None) \<and>
       length (tr_c nd) = 31 \<and> (\<forall>i < 31. tr_c nd ! i = g (31 * j + 30 - i)))"

text \<open>A position in the chain: a node and the number of its free places, with \<open>m\<close> places filled before it.\<close>

definition at_mark :: "nat list \<Rightarrow> nat option \<Rightarrow> nat \<Rightarrow> nat \<Rightarrow> bool" where
  "at_mark ids p cnt m \<longleftrightarrow> p = None \<and> cnt = 0 \<and> m = 0 \<or>
     (\<exists>j < length ids. p = Some (ids ! j) \<and> cnt \<le> 31 \<and> m + cnt = 31 * j + 31)"

definition behind :: "nat list \<Rightarrow> nat option \<Rightarrow> nat option \<Rightarrow> bool" where
  "behind ids p q \<longleftrightarrow> (\<forall>j < length ids. \<forall>k < length ids. p = Some (ids ! j) \<longrightarrow> q = Some (ids ! k) \<longrightarrow> j \<le> k)"

definition stack_at :: "nat list \<Rightarrow> nat \<Rightarrow> nat option" where
  "stack_at xs i = (if i < length xs then Some (xs ! i) else None)"

lemma chain_node:
  assumes "chain_holds ids g ctx" and "j < length ids"
  obtains nd where "tree_nodes ctx (ids ! j) = Some nd"
    "tr_next nd = (if Suc j < length ids then Some (ids ! Suc j) else None)"
    "length (tr_c nd) = 31" "\<And>i. i < 31 \<Longrightarrow> tr_c nd ! i = g (31 * j + 30 - i)"
  using assms by (auto simp: chain_holds_def)

lemma place_div: "i < 31 \<Longrightarrow> (31 * j + 30 - i) div 31 = j \<and> (31 * j + 30 - i) mod 31 = 30 - (i :: nat)"
proof -
  assume "i < 31"
  then have "31 * j + 30 - i = 30 - i + j * 31" "30 - i < 31" by simp_all
  then show ?thesis by (simp only: div_mult_self3 mod_mult_self3) simp
qed

lemma place_eq:
  assumes "i < 31" "i' < 31"
  shows "31 * j + 30 - i = 31 * j' + 30 - i' \<longleftrightarrow> j = j' \<and> i = (i' :: nat)"
proof
  assume "31 * j + 30 - i = 31 * j' + 30 - i'"
  then have "j = j'" "30 - i = 30 - i'" using place_div [OF assms(1), of j] place_div [OF assms(2), of j'] by simp_all
  then show "j = j' \<and> i = i'" using assms by simp
qed simp

lemma set_chunk_ok:
  assumes c: "chain_holds ids g ctx" and j: "j < length ids" and i: "i < 31"
  shows "ok (set_chunk (ids ! j) i v ctx) (\<lambda>ctx'. chain_holds ids (g(31 * j + 30 - i := v)) ctx' \<and>
    ctx' = ctx\<lparr>tree_nodes := tree_nodes ctx'\<rparr>)"
proof -
  obtain nd where nd: "tree_nodes ctx (ids ! j) = Some nd"
    "tr_next nd = (if Suc j < length ids then Some (ids ! Suc j) else None)"
    "length (tr_c nd) = 31" "\<And>i. i < 31 \<Longrightarrow> tr_c nd ! i = g (31 * j + 30 - i)"
    using chain_node [OF c j] by blast
  define ctx' where "ctx' = ctx\<lparr>tree_nodes := (tree_nodes ctx)(ids ! j \<mapsto> nd\<lparr>tr_c := (tr_c nd)[i := v]\<rparr>)\<rparr>"
  have "chain_holds ids (g(31 * j + 30 - i := v)) ctx'"
    unfolding chain_holds_def
  proof (intro conjI allI impI)
    show "distinct ids" "first_trees ctx' = (if ids = [] then None else Some (ids ! 0))"
      using c by (auto simp: chain_holds_def ctx'_def)
    fix k assume k: "k < length ids"
    show "\<exists>nd. tree_nodes ctx' (ids ! k) = Some nd \<and> tr_next nd = (if Suc k < length ids then Some (ids ! Suc k) else None) \<and>
       length (tr_c nd) = 31 \<and> (\<forall>i' < 31. tr_c nd ! i' = (g(31 * j + 30 - i := v)) (31 * k + 30 - i'))"
    proof (cases "k = j")
      case True
      then show ?thesis using nd i place_eq [of _ i j j] by (auto simp: ctx'_def nth_list_update)
    next
      case False
      then have "ids ! k \<noteq> ids ! j" using c k j by (simp add: chain_holds_def nth_eq_iff_index_eq)
      then show ?thesis using chain_node [OF c k] False i place_eq [of _ i k j] by (fastforce simp: ctx'_def)
    qed
  qed
  then show ?thesis using nd i by (simp add: set_chunk_def buf_set_def ctx'_def)
qed

text \<open>
  The abstract state: a stack \<open>xs\<close> of chunks with room for \<open>r\<close> more. \<open>rest\<close> counts the
  references others hold, \<open>base\<close> are the other live objects, \<open>a\<close> says how the system call is
  audited. \<open>p\<close> and \<open>cnt\<close> are a position that was saved when the stack had \<open>m\<close> elements; the
  position \<open>None\<close>, 0 of an empty chain is always one. \<open>sure\<close> says that no allocation fails.
\<close>

definition tree_marked ::
  "bool \<Rightarrow> (nat \<Rightarrow> nat) \<Rightarrow> nat multiset \<Rightarrow> u64 \<times> audit_state \<Rightarrow> nat option \<Rightarrow> nat \<Rightarrow> nat \<Rightarrow> nat list \<Rightarrow> nat \<Rightarrow>
   'c tc \<Rightarrow> 'z tw \<Rightarrow> bool" where
  "tree_marked sure rest base a p cnt m xs r ctx w \<longleftrightarrow> (\<exists>ids. chain_holds ids (stack_at xs) ctx \<and>
     at_mark ids (trees ctx) (tree_count ctx) (length xs) \<and> (trees ctx = None \<longrightarrow> ids = []) \<and>
     length xs + r = 31 * length ids \<and>
     mset (klive w) = base + mset ids \<and> (\<forall>k \<in> set (klive w). k < knext w) \<and>
     (\<forall>c. chunk_refs w c = rest c + count_list xs c) \<and>
     (prio ctx, current_state ctx) = a \<and> at_mark ids p cnt m \<and> behind ids p (trees ctx) \<and>
     (sure \<longrightarrow> (\<forall>n. \<not> kfail w n)))"

abbreviation tree_stack where "tree_stack sure rest base a \<equiv> tree_marked sure rest base a None 0 0"

lemma stack_at_snoc: "stack_at (xs @ [c]) = (stack_at xs)(length xs := Some c)"
  by (auto simp: stack_at_def nth_append)

lemma behind_refl: "chain_holds ids g ctx \<Longrightarrow> behind ids q q"
  by (auto simp: behind_def chain_holds_def nth_eq_iff_index_eq)

lemma unmarked: "at_mark ids None 0 0" "behind ids None q"
  by (simp_all add: at_mark_def behind_def)

lemma tree_mark:
  "tree_marked sure rest base a p cnt m xs r ctx w \<Longrightarrow>
   tree_marked sure rest base a (trees ctx) (tree_count ctx) (length xs) xs r ctx w"
  unfolding tree_marked_def by (elim exE conjE, intro exI conjI behind_refl) assumption+

lemma tree_unmark: "tree_marked sure rest base a p cnt m xs r ctx w \<Longrightarrow> tree_stack sure rest base a xs r ctx w"
  unfolding tree_marked_def by (elim exE conjE, intro exI conjI unmarked) assumption+

lemma tree_marked_world:
  assumes "tree_marked sure rest base a p cnt m xs r ctx w" and "klive w' = klive w" "chunk_refs w' = chunk_refs w" "knext w \<le> knext w'"
    "kfail w' = kfail w"
  shows "tree_marked sure rest base a p cnt m xs r ctx w'"
proof -
  have "\<forall>k \<in> set (klive w). k < knext w \<Longrightarrow> \<forall>k \<in> set (klive w). k < knext w'" using assms(4) by auto
  with assms(1) show ?thesis
    unfolding tree_marked_def assms(2,3,5) by (elim exE conjE, intro exI conjI) assumption+
qed

lemma put_tree_ref_ok:
  assumes h: "tree_marked sure rest base a p cnt m xs r ctx w"
  shows "ok (put_tree_ref c ctx) (\<lambda>(stored, ctx'). stored = (0 < r) \<and>
    (if 0 < r then tree_marked sure rest base a p cnt m (xs @ [c]) (r - 1) ctx' (get_chunk c w) else ctx' = ctx))"
proof -
  obtain ids where ids: "chain_holds ids (stack_at xs) ctx" "at_mark ids (trees ctx) (tree_count ctx) (length xs)"
    "trees ctx = None \<longrightarrow> ids = []" "length xs + r = 31 * length ids"
    and w: "mset (klive w) = base + mset ids" "\<forall>k \<in> set (klive w). k < knext w"
    "\<forall>c. chunk_refs w c = rest c + count_list xs c" "(prio ctx, current_state ctx) = a" "at_mark ids p cnt m" "sure \<longrightarrow> (\<forall>n. \<not> kfail w n)"
    and b: "behind ids p (trees ctx)"
    using h by (auto simp: tree_marked_def)
  have new: "tree_marked sure rest base a p cnt m (xs @ [c]) (r - 1) (ctx'\<lparr>trees := Some (ids ! j), tree_count := i\<rparr>) (get_chunk c w)"
    if ctx': "chain_holds ids ((stack_at xs)(31 * j + 30 - i := Some c)) ctx'" "ctx' = ctx\<lparr>tree_nodes := tree_nodes ctx'\<rparr>"
      and i: "j < length ids" "i < 31" "length xs = 31 * j + 30 - i" and "0 < r"
      and b': "behind ids p (Some (ids ! j))" for ctx' i j
  proof -
    have "chain_holds ids (stack_at (xs @ [c])) (ctx'\<lparr>trees := Some (ids ! j), tree_count := i\<rparr>)"
      using ctx'(1) i(3) by (simp add: chain_holds_def stack_at_snoc)
    moreover have "at_mark ids (Some (ids ! j)) i (length (xs @ [c]))" using i by (auto simp: at_mark_def)
    moreover have "(prio ctx', current_state ctx') = a" using w(4) by (subst (1 2) ctx'(2)) simp
    ultimately show ?thesis
      unfolding tree_marked_def using w ids(4) b' \<open>0 < r\<close> by (intro exI [of _ ids]) (simp add: get_chunk_def)
  qed
  show ?thesis
  proof (cases "trees ctx")
    case None
    then show ?thesis using ids by (simp add: put_tree_ref_def at_mark_def Let_def)
  next
    case (Some q)
    then obtain j where j: "j < length ids" "q = ids ! j" "tree_count ctx \<le> 31" "length xs + tree_count ctx = 31 * j + 31"
      using ids(2) by (auto simp: at_mark_def)
    obtain nd where nd: "tree_nodes ctx (ids ! j) = Some nd" "tr_next nd = (if Suc j < length ids then Some (ids ! Suc j) else None)"
      using chain_node [OF ids(1) j(1)] by blast
    show ?thesis
    proof (cases "tree_count ctx = 0")
      case False
      then have r: "0 < r" and i: "tree_count ctx - 1 < 31" "length xs = 31 * j + 30 - (tree_count ctx - 1)"
        using j ids(4) by linarith+
      from set_chunk_ok [OF ids(1) j(1) i(1), of "Some c"] obtain ctx' where
        ctx': "set_chunk (ids ! j) (tree_count ctx - 1) (Some c) ctx = Some ctx'"
        "chain_holds ids ((stack_at xs)(31 * j + 30 - (tree_count ctx - 1) := Some c)) ctx'" "ctx' = ctx\<lparr>tree_nodes := tree_nodes ctx'\<rparr>"
        by (auto elim!: okE)
      have "trees ctx' = Some (ids ! j)" using Some j(2) by (subst ctx'(3)) simp
      then have "ctx'\<lparr>trees := Some (ids ! j)\<rparr> = ctx'" by (cases ctx') simp
      with new [OF ctx'(2,3) j(1) i r] b Some j(2)
      have "tree_marked sure rest base a p cnt m (xs @ [c]) (r - 1) (ctx'\<lparr>tree_count := tree_count ctx - 1\<rparr>) (get_chunk c w)" by simp
      then show ?thesis using False Some j(2) r ctx'(1) by (simp add: put_tree_ref_def Let_def)
    next
      case True
      show ?thesis
      proof (cases "Suc j < length ids")
        case False
        then have "r = 0" using j True ids(4) by linarith
        then show ?thesis using True Some j nd False by (simp add: put_tree_ref_def)
      next
        case more: True
        then have r: "0 < r" and i: "length xs = 31 * Suc j + 30 - 30" using j True ids(4) by auto
        have b': "behind ids p (Some (ids ! Suc j))"
          using b ids(1) j(1,2) Some more by (auto simp: behind_def chain_holds_def nth_eq_iff_index_eq)
        from set_chunk_ok [OF ids(1) more, of 30 "Some c"] obtain ctx' where
          "set_chunk (ids ! Suc j) 30 (Some c) ctx = Some ctx'"
          "chain_holds ids ((stack_at xs)(31 * Suc j + 30 - 30 := Some c)) ctx'" "ctx' = ctx\<lparr>tree_nodes := tree_nodes ctx'\<rparr>"
          by (auto elim!: okE)
        then show ?thesis
          using new [OF _ _ more _ i r b'] r True Some j(2) nd more by (simp add: put_tree_ref_def)
      qed
    qed
  qed
qed

lemma grow_tree_refs_ok:
  assumes h: "tree_marked sure rest base a p cnt m xs 0 ctx w"
  shows "ok (grow_tree_refs ctx w) (\<lambda>(grown, ctx', w').
    tree_marked sure rest base a p cnt m xs (if grown then 31 else 0) ctx' w' \<and> (grown \<or> \<not> sure))"
proof -
  obtain ids where ids: "chain_holds ids (stack_at xs) ctx" "at_mark ids (trees ctx) (tree_count ctx) (length xs)"
    "trees ctx = None \<longrightarrow> ids = []" "length xs = 31 * length ids"
    and w: "mset (klive w) = base + mset ids" "\<forall>k \<in> set (klive w). k < knext w"
    "\<forall>c. chunk_refs w c = rest c + count_list xs c" "(prio ctx, current_state ctx) = a" "at_mark ids p cnt m" "sure \<longrightarrow> (\<forall>n. \<not> kfail w n)"
    and b: "behind ids p (trees ctx)"
    using h by (auto simp: tree_marked_def)
  define k where "k = knext w"
  show ?thesis
  proof (cases "kfail w k")
    case True
    then show ?thesis using tree_marked_world [OF h, of "w\<lparr>knext := Suc (knext w)\<rparr>"] w(6)
      by (auto simp: grow_tree_refs_def kzalloc_def k_def Let_def)
  next
    case False
    define w' where "w' = w\<lparr>knext := Suc k, klive := k # klive w\<rparr>"
    have fresh: "k \<notin> set ids"
    proof
      assume "k \<in> set ids"
      then have "k \<in># mset (klive w)" unfolding w(1) by simp
      then show False using w(2) by (auto simp: k_def)
    qed
    have holds: "tree_marked sure rest base a p cnt m xs 31 ctx' w'"
      if "chain_holds (ids @ [k]) (stack_at xs) ctx'" "trees ctx' = Some k" "tree_count ctx' = 31"
        "prio ctx' = prio ctx" "current_state ctx' = current_state ctx" for ctx'
      unfolding tree_marked_def
    proof (intro exI [of _ "ids @ [k]"] conjI)
      show "at_mark (ids @ [k]) (trees ctx') (tree_count ctx') (length xs)"
        using that ids(4) by (auto simp: at_mark_def intro: exI [of _ "length ids"])
      show "at_mark (ids @ [k]) p cnt m" using w(5) by (auto simp: at_mark_def nth_append)
      show "behind (ids @ [k]) p (trees ctx')" using that(2) fresh by (auto simp: behind_def nth_append split: if_splits)
    qed (use that w ids(4) in \<open>auto simp: w'_def k_def\<close>)
    define new :: tree_refs where "new = \<lparr>tr_next = None, tr_c = replicate 31 None\<rparr>"
    show ?thesis
    proof (cases "trees ctx")
      case None
      then have "ids = []" using ids(3) by simp
      then have "chain_holds (ids @ [k]) (stack_at xs)
          (ctx\<lparr>tree_nodes := (tree_nodes ctx)(k \<mapsto> new), first_trees := Some k, trees := Some k, tree_count := 31\<rparr>)"
        using ids(4) by (simp add: chain_holds_def new_def stack_at_def)
      from holds [OF this] show ?thesis
        using None False by (simp add: grow_tree_refs_def kzalloc_def k_def Let_def new_def w'_def)
    next
      case (Some q)
      then obtain j where "j < length ids" "q = ids ! j" "tree_count ctx \<le> 31" "length xs + tree_count ctx = 31 * j + 31"
        using ids(2) by (auto simp: at_mark_def)
      then have j: "length ids = Suc j" "q = ids ! j" using ids(4) by linarith+
      from chain_node [OF ids(1), of j] j obtain nd where nd: "tree_nodes ctx q = Some nd" "tr_next nd = None"
        "length (tr_c nd) = 31" "\<And>i. i < 31 \<Longrightarrow> tr_c nd ! i = stack_at xs (31 * j + 30 - i)" by auto
      have q: "q \<noteq> k" using fresh j by auto
      have "chain_holds (ids @ [k]) (stack_at xs)
          (ctx\<lparr>tree_nodes := (tree_nodes ctx)(k \<mapsto> new, q \<mapsto> nd\<lparr>tr_next := Some k\<rparr>), trees := Some k, tree_count := 31\<rparr>)"
        unfolding chain_holds_def
      proof (intro conjI allI impI, goal_cases)
        case (3 l)
        consider "l < j" | "l = j" | "l = Suc j" using 3 j by fastforce
        then show ?case
        proof cases
          case 1
          then have "ids ! l \<noteq> q" "ids ! l \<noteq> k" "l < length ids"
            using ids(1) j fresh by (auto simp: chain_holds_def nth_eq_iff_index_eq)
          then show ?thesis using chain_node [OF ids(1), of l] 1 j by (fastforce simp: nth_append)
        next
          case 2
          then show ?thesis using nd j q by (auto simp: nth_append)
        next
          case l: 3
          then have "stack_at xs (31 * l + 30 - i) = None" if "i < 31" for i
            using that ids(4) j by (simp add: stack_at_def)
          then show ?thesis using l j q by (simp add: nth_append new_def)
        qed
      qed (use ids(1) fresh j in \<open>auto simp: chain_holds_def nth_append\<close>)
      from holds [OF this] show ?thesis
        using Some False nd q by (simp add: grow_tree_refs_def kzalloc_def k_def Let_def new_def w'_def)
    qed
  qed
qed

section \<open>Going back to a position\<close>

text \<open>The places while references are dropped: those from \<open>m\<close> to \<open>s\<close> are empty already.\<close>

definition hole :: "nat list \<Rightarrow> nat \<Rightarrow> nat \<Rightarrow> nat \<Rightarrow> nat option" where
  "hole xs m s q = (if m \<le> q \<and> q < s then None else stack_at xs q)"

lemma hole_start: "hole xs m m = stack_at xs"
  by (auto simp: hole_def fun_eq_iff)

lemma hole_step: "m \<le> s \<Longrightarrow> (hole xs m s)(s := None) = hole xs m (Suc s)"
  by (auto simp: hole_def)

lemma hole_end: "m \<le> length xs \<Longrightarrow> hole xs m (length xs) = stack_at (take m xs)"
  by (auto simp: hole_def stack_at_def)

text \<open>The references while they are dropped.\<close>

definition refs_at :: "(nat \<Rightarrow> nat) \<Rightarrow> nat list \<Rightarrow> nat \<Rightarrow> nat \<Rightarrow> nat \<Rightarrow> nat" where
  "refs_at rest xs m s c = rest c + count_list (take m xs) c + count_list (drop s xs) c"

lemma refs_at_start: "refs_at rest xs m m c = rest c + count_list xs c"
proof -
  have "count_list xs c = count_list (take m xs) c + count_list (drop m xs) c"
    by (metis append_take_drop_id count_list_append)
  then show ?thesis by (simp add: refs_at_def)
qed

lemma refs_at_end: "refs_at rest xs m (length xs) c = rest c + count_list (take m xs) c"
  by (simp add: refs_at_def)

lemma refs_at_step: "s < length xs \<Longrightarrow> refs_at rest xs m s = (refs_at rest xs m (Suc s))(xs ! s := Suc (refs_at rest xs m (Suc s) (xs ! s)))"
  by (auto simp: refs_at_def fun_eq_iff simp flip: Cons_nth_drop_Suc)

lemma refs_same: "chunk_refs w = f \<Longrightarrow> w\<lparr>chunk_refs := f\<rparr> = w"
  by simp

lemma drop_refs_ok:
  "chain_holds ids (hole xs m s) ctx \<Longrightarrow> chunk_refs w = refs_at rest xs m s \<Longrightarrow> m \<le> s \<Longrightarrow> j < length ids \<Longrightarrow>
   n \<le> 31 \<Longrightarrow> s + n = 31 * j + 31 \<Longrightarrow> lo \<le> n \<Longrightarrow> s + (n - lo) \<le> length xs \<Longrightarrow>
   ok (drop_refs (Some (ids ! j)) n lo ctx w) (\<lambda>(ctx', w'). chain_holds ids (hole xs m (s + (n - lo))) ctx' \<and>
     ctx' = ctx\<lparr>tree_nodes := tree_nodes ctx'\<rparr> \<and> w' = w\<lparr>chunk_refs := refs_at rest xs m (s + (n - lo))\<rparr>)"
proof (induction n arbitrary: s ctx w)
  case 0
  then show ?case by (simp add: refs_same)
next
  case (Suc n)
  show ?case
  proof (cases "n < lo")
    case True
    then have "lo = Suc n" using Suc.prems by simp
    then show ?thesis using Suc.prems by (simp add: refs_same)
  next
    case False
    then have s: "s < length xs" "31 * j + 30 - n = s" using Suc.prems by linarith+
    obtain nd where nd: "tree_nodes ctx (ids ! j) = Some nd" "length (tr_c nd) = 31"
      "\<And>i. i < 31 \<Longrightarrow> tr_c nd ! i = hole xs m s (31 * j + 30 - i)"
      using chain_node [OF Suc.prems(1,4)] by blast
    have c: "tr_c nd ! n = Some (xs ! s)"
      using nd(3) [of n] s Suc.prems(3,5) by (simp add: hole_def stack_at_def)
    define w1 where "w1 = w\<lparr>chunk_refs := refs_at rest xs m (Suc s)\<rparr>"
    have r: "chunk_refs w (xs ! s) = Suc (refs_at rest xs m (Suc s) (xs ! s))"
      "(chunk_refs w)(xs ! s := refs_at rest xs m (Suc s) (xs ! s)) = refs_at rest xs m (Suc s)"
      unfolding Suc.prems(2) refs_at_step [OF s(1)] by (simp_all add: fun_eq_iff)
    have put: "audit_put_chunk (xs ! s) w = Some w1"
      by (simp add: audit_put_chunk_def w1_def r)
    have n: "n < 31" using Suc.prems(5) by simp
    from set_chunk_ok [OF Suc.prems(1,4) n, of None] obtain ctx1 where set: "set_chunk (ids ! j) n None ctx = Some ctx1"
      "chain_holds ids (hole xs m (Suc s)) ctx1" "ctx1 = ctx\<lparr>tree_nodes := tree_nodes ctx1\<rparr>"
      using hole_step [OF Suc.prems(3), of xs] s(2) by (auto elim!: okE)
    have eq: "Suc s + (n - lo) = s + (Suc n - lo)" using False by simp
    have "ok (drop_refs (Some (ids ! j)) n lo ctx1 w1) (\<lambda>(ctx', w'). chain_holds ids (hole xs m (s + (Suc n - lo))) ctx' \<and>
     ctx' = ctx1\<lparr>tree_nodes := tree_nodes ctx'\<rparr> \<and> w' = w1\<lparr>chunk_refs := refs_at rest xs m (s + (Suc n - lo))\<rparr>)"
      using Suc.IH [OF set(2), of w1, unfolded eq] Suc.prems False s by (simp add: w1_def)
    moreover have "ctx1\<lparr>tree_nodes := t\<rparr> = ctx\<lparr>tree_nodes := t\<rparr>" for t by (subst set(3)) simp
    ultimately show ?thesis
      using nd c put set(1) n False by (auto simp: buf_get_def w1_def elim!: okE)
  qed
qed

declare unroll_loop.simps [code]

lemma unroll_loop_ok:
  assumes "chain_holds ids (hole xs m s) ctx" "chunk_refs w = refs_at rest xs m s" "m \<le> s" "j \<le> k" "k < length ids"
    "n \<le> 31" "s + n = 31 * j + 31" "trees ctx = Some (ids ! k)" "31 * k \<le> length xs" "s \<le> length xs"
  shows "ok (unroll_loop (Some (ids ! j)) n ctx w) (\<lambda>(q, n', ctx', w'). \<exists>s'. q = Some (ids ! k) \<and> m \<le> s' \<and>
    s' + n' = 31 * k + 31 \<and> n' \<le> 31 \<and> s' \<le> length xs \<and> chain_holds ids (hole xs m s') ctx' \<and>
    ctx' = ctx\<lparr>tree_nodes := tree_nodes ctx'\<rparr> \<and> w' = w\<lparr>chunk_refs := refs_at rest xs m s'\<rparr>)"
  using assms
proof (induction "k - j" arbitrary: j n s ctx w)
  case 0
  then have j: "j = k" by simp
  have "unroll_loop (Some (ids ! j)) n ctx w = Some (Some (ids ! k), n, ctx, w)"
    by (subst unroll_loop.simps) (simp add: j 0)
  moreover have "s + n = 31 * k + 31" using 0(8) j by simp
  ultimately show ?case
    using 0(2,4,7,11) refs_same [OF 0(3)] by (intro okI [of _ "(Some (ids ! k), n, ctx, w)"]) (auto intro: exI [of _ s])
next
  case (Suc d)
  then have jk: "j < k" and "j < length ids" by simp_all
  then have ne: "ids ! j \<noteq> ids ! k" using Suc.prems by (simp add: chain_holds_def nth_eq_iff_index_eq)
  have s1: "s + (n - 0) = 31 * Suc j" using Suc.prems(7) by simp
  have "31 * Suc j \<le> 31 * k" using jk by simp
  then have fits: "s + (n - 0) \<le> length xs" unfolding s1 using Suc.prems(9) by simp
  from drop_refs_ok [OF Suc.prems(1-3) \<open>j < length ids\<close> Suc.prems(6,7) _ fits]
  obtain ctx1 w1 where 1: "drop_refs (Some (ids ! j)) n 0 ctx w = Some (ctx1, w1)" "chain_holds ids (hole xs m (31 * Suc j)) ctx1"
    "ctx1 = ctx\<lparr>tree_nodes := tree_nodes ctx1\<rparr>" "w1 = w\<lparr>chunk_refs := refs_at rest xs m (31 * Suc j)\<rparr>"
    unfolding s1 by (auto elim!: okE)
  obtain nd where nd: "tree_nodes ctx1 (ids ! j) = Some nd" "tr_next nd = Some (ids ! Suc j)"
    using chain_node [OF 1(2) \<open>j < length ids\<close>] jk Suc.prems(5) by auto
  have t: "trees ctx1 = Some (ids ! k)" by (subst 1(3)) (simp add: Suc.prems(8))
  have "ok (unroll_loop (Some (ids ! Suc j)) 31 ctx1 w1) (\<lambda>(q, n', ctx', w'). \<exists>s'. q = Some (ids ! k) \<and> m \<le> s' \<and>
      s' + n' = 31 * k + 31 \<and> n' \<le> 31 \<and> s' \<le> length xs \<and> chain_holds ids (hole xs m s') ctx' \<and>
      ctx' = ctx1\<lparr>tree_nodes := tree_nodes ctx'\<rparr> \<and> w' = w1\<lparr>chunk_refs := refs_at rest xs m s'\<rparr>)"
    by (rule Suc.hyps(1) [where s = "31 * Suc j"]) (use Suc.hyps(2) Suc.prems jk 1(2) t s1 fits in \<open>auto simp: 1(4)\<close>)
  moreover have "ctx1\<lparr>tree_nodes := t\<rparr> = ctx\<lparr>tree_nodes := t\<rparr>" for t by (subst 1(3)) simp
  ultimately show ?case
    by (subst unroll_loop.simps) (use ne Suc.prems(8) 1(1,4) nd in \<open>auto elim!: okE\<close>)
qed

lemma unroll_tree_refs_ok:
  assumes h: "tree_marked sure rest base a p cnt m xs r ctx w" and m: "m \<le> length xs"
  shows "ok (unroll_tree_refs p cnt ctx w) (\<lambda>(ctx', w').
    tree_marked sure rest base a p cnt m (take m xs) (r + (length xs - m)) ctx' w' \<and> w' = w\<lparr>chunk_refs := chunk_refs w'\<rparr>)"
proof -
  obtain ids where ids: "chain_holds ids (stack_at xs) ctx" "at_mark ids (trees ctx) (tree_count ctx) (length xs)"
    "trees ctx = None \<longrightarrow> ids = []" "length xs + r = 31 * length ids"
    and w: "mset (klive w) = base + mset ids" "\<forall>k \<in> set (klive w). k < knext w"
    "\<forall>c. chunk_refs w c = rest c + count_list xs c" "(prio ctx, current_state ctx) = a" "at_mark ids p cnt m" "sure \<longrightarrow> (\<forall>n. \<not> kfail w n)"
    and b: "behind ids p (trees ctx)"
    using h by (auto simp: tree_marked_def)
  show ?thesis
  proof (cases "trees ctx")
    case None
    then have "ids = []" using ids(3) by simp
    then show ?thesis
      using h ids w m by (simp add: unroll_tree_refs_def chain_holds_def at_mark_def)
  next
    case (Some q)
    then obtain k where k: "k < length ids" "q = ids ! k" "tree_count ctx \<le> 31" "length xs + tree_count ctx = 31 * k + 31"
      using ids(2) by (auto simp: at_mark_def)
    obtain p' cnt' j where start: "(if p = None then (first_trees ctx, 31) else (p, cnt)) = (Some p', cnt')"
      and j: "j < length ids" "p' = ids ! j" "cnt' \<le> 31" "m + cnt' = 31 * j + 31" "j \<le> k"
    proof (cases p)
      case None
      then have "m = 0" "first_trees ctx = Some (ids ! 0)" "0 < length ids"
        using w(5) ids(1) k(1) by (auto simp: at_mark_def chain_holds_def)
      then show thesis using that [of "ids ! 0" 31 0] None by simp
    next
      case (Some p'')
      then obtain j where "j < length ids" "p'' = ids ! j" "cnt \<le> 31" "m + cnt = 31 * j + 31"
        using w(5) by (auto simp: at_mark_def)
      moreover from this have "j \<le> k" using b \<open>trees ctx = Some q\<close> k(1,2) Some by (auto simp: behind_def)
      ultimately show thesis using that [of p'' cnt j] Some by simp
    qed
    have len: "31 * k \<le> length xs" using k(3,4) by linarith
    have c0: "chunk_refs w = refs_at rest xs m m" using w(3) by (simp add: fun_eq_iff refs_at_start)
    have h0: "chain_holds ids (hole xs m m) ctx" using ids(1) by (simp add: hole_start)
    from unroll_loop_ok [OF h0 c0 order.refl j(5) k(1) j(3) j(4) _ len m] Some k(2) obtain s n ctx1 w1
      where 1: "unroll_loop (Some p') cnt' ctx w = Some (Some (ids ! k), n, ctx1, w1)"
        "m \<le> s" "s + n = 31 * k + 31" "n \<le> 31" "s \<le> length xs" "chain_holds ids (hole xs m s) ctx1"
        "ctx1 = ctx\<lparr>tree_nodes := tree_nodes ctx1\<rparr>" "w1 = w\<lparr>chunk_refs := refs_at rest xs m s\<rparr>"
      unfolding j(2) by (auto elim!: okE)
    have tc: "tree_count ctx1 = tree_count ctx" by (subst 1(7)) simp
    have lo: "tree_count ctx \<le> n" "s + (n - tree_count ctx) = length xs" using 1 k(4) by linarith+
    have c1: "chunk_refs w1 = refs_at rest xs m s" by (simp add: 1(8))
    from drop_refs_ok [OF 1(6) c1 1(2) k(1) 1(4) 1(3) lo(1)] lo(2)
    obtain ctx2 w2 where 2: "drop_refs (Some (ids ! k)) n (tree_count ctx) ctx1 w1 = Some (ctx2, w2)"
      "chain_holds ids (stack_at (take m xs)) ctx2" "ctx2 = ctx1\<lparr>tree_nodes := tree_nodes ctx2\<rparr>"
      "w2 = w1\<lparr>chunk_refs := refs_at rest xs m (length xs)\<rparr>"
      by (auto simp: hole_end [OF m] elim!: okE)
    define ctx3 where "ctx3 = ctx2\<lparr>trees := Some p', tree_count := cnt'\<rparr>"
    have run: "unroll_tree_refs p cnt ctx w = Some (ctx3, w2)"
      using 1(1) 2(1) by (simp add: unroll_tree_refs_def start tc ctx3_def)
    have f: "prio ctx3 = prio ctx" "current_state ctx3 = current_state ctx"
      unfolding ctx3_def by (subst 2(3), subst 1(7), simp)+
    have "tree_marked sure rest base a p cnt m (take m xs) (r + (length xs - m)) ctx3 w2"
      unfolding tree_marked_def
    proof (intro exI [of _ ids] conjI)
      show "chain_holds ids (stack_at (take m xs)) ctx3" using 2(2) by (simp add: ctx3_def chain_holds_def)
      show "at_mark ids (trees ctx3) (tree_count ctx3) (length (take m xs))"
        using j m by (auto simp: ctx3_def at_mark_def)
      show "behind ids p (trees ctx3)"
        using start ids(1) behind_refl [OF ids(1), of "Some p'"] unmarked(2)
        by (cases p) (auto simp: ctx3_def)
    qed (use w ids(4) m f in \<open>auto simp: ctx3_def 2(4) 1(8) refs_at_end\<close>)
    moreover have "w2 = w\<lparr>chunk_refs := chunk_refs w2\<rparr>" by (simp add: 2(4) 1(8))
    ultimately show ?thesis by (simp add: run)
  qed
qed

section \<open>Searching and freeing\<close>

lemma match_range_ok:
  assumes c: "chain_holds ids (stack_at xs) ctx" and j: "j < length ids"
  shows "n + k = 31 \<Longrightarrow> \<forall>i < 31. n \<le> i \<longrightarrow> 31 * j + 30 - i < length xs \<Longrightarrow>
    match_range m (ids ! j) ctx n k = Some (\<exists>i < 31. n \<le> i \<and> m (xs ! (31 * j + 30 - i)))"
proof (induction k arbitrary: n)
  case 0
  then show ?case by auto
next
  case (Suc k)
  obtain nd where nd: "tree_nodes ctx (ids ! j) = Some nd" "length (tr_c nd) = 31"
    "\<And>i. i < 31 \<Longrightarrow> tr_c nd ! i = stack_at xs (31 * j + 30 - i)"
    using chain_node [OF c j] by blast
  have n: "n < 31" "tr_c nd ! n = Some (xs ! (31 * j + 30 - n))"
    using nd(3) [of n] Suc.prems by (simp_all add: stack_at_def)
  have "match_range m (ids ! j) ctx (Suc n) k = Some (\<exists>i < 31. Suc n \<le> i \<and> m (xs ! (31 * j + 30 - i)))"
    by (rule Suc.IH) (use Suc.prems in auto)
  moreover have "(\<exists>i < 31. n \<le> i \<and> m (xs ! (31 * j + 30 - i))) \<longleftrightarrow>
      m (xs ! (31 * j + 30 - n)) \<or> (\<exists>i < 31. Suc n \<le> i \<and> m (xs ! (31 * j + 30 - i)))"
    using n(1) by (metis Suc_leD le_eq_less_or_eq less_eq_Suc_le order.refl)
  ultimately show ?case using nd n by (simp add: buf_get_def)
qed

declare match_full.simps [code] free_loop.simps [code] retry_walk.simps [code]

text \<open>The places of a node, as positions in the stack.\<close>

lemma node_places: "(\<exists>i < 31. n \<le> i \<and> P (31 * j + 30 - i)) \<longleftrightarrow> (\<exists>q. 31 * j \<le> q \<and> q + n < 31 * j + 31 \<and> P (q :: nat))"
proof
  assume "\<exists>i < 31. n \<le> i \<and> P (31 * j + 30 - i)"
  then obtain i where "i < 31" "n \<le> i" "P (31 * j + 30 - i)" by blast
  then show "\<exists>q. 31 * j \<le> q \<and> q + n < 31 * j + 31 \<and> P q" by (intro exI [of _ "31 * j + 30 - i"]) (simp, arith)
next
  assume "\<exists>q. 31 * j \<le> q \<and> q + n < 31 * j + 31 \<and> P q"
  then obtain q where q: "31 * j \<le> q" "q + n < 31 * j + 31" "P q" by blast
  have "31 * j + 30 - (31 * j + 30 - q) = q" using q by simp
  with q(3) have "P (31 * j + 30 - (31 * j + 30 - q))" by simp
  then show "\<exists>i < 31. n \<le> i \<and> P (31 * j + 30 - i)" using q(1,2)
    by (intro exI [of _ "31 * j + 30 - q"]) (simp, arith)
qed

lemma match_full_ok:
  assumes c: "chain_holds ids (stack_at xs) ctx" and k: "k < length ids" "trees ctx = Some (ids ! k)" "31 * k \<le> length xs"
  shows "j \<le> k \<Longrightarrow> match_full m (Some (ids ! j)) ctx = Some (\<exists>q. 31 * j \<le> q \<and> q < 31 * k \<and> m (xs ! q))"
proof (induction "k - j" arbitrary: j)
  case 0
  then show ?case by (subst match_full.simps) (simp add: k)
next
  case (Suc d)
  then have jk: "j < k" "j < length ids" using k(1) by simp_all
  then have ne: "ids ! j \<noteq> ids ! k" using c k by (simp add: chain_holds_def nth_eq_iff_index_eq)
  obtain nd where nd: "tree_nodes ctx (ids ! j) = Some nd" "tr_next nd = Some (ids ! Suc j)"
    using chain_node [OF c jk(2)] jk(1) k(1) by auto
  have len: "31 * Suc j \<le> length xs" using jk k(3) mult_le_mono2 [of "Suc j" k 31] by linarith
  have "match_range m (ids ! j) ctx 0 31 = Some (\<exists>i < 31. 0 \<le> i \<and> m (xs ! (31 * j + 30 - i)))"
    by (rule match_range_ok [OF c jk(2)]) (use len in auto)
  moreover have "31 * Suc j = 31 * j + 31" by simp
  ultimately have range: "match_range m (ids ! j) ctx 0 31 = Some (\<exists>q. 31 * j \<le> q \<and> q < 31 * Suc j \<and> m (xs ! q))"
    using node_places [of 0 "\<lambda>q. m (xs ! q)" j] by (simp only:) simp
  have rest: "match_full m (Some (ids ! Suc j)) ctx = Some (\<exists>q. 31 * Suc j \<le> q \<and> q < 31 * k \<and> m (xs ! q))"
    by (rule Suc.hyps(1)) (use Suc.hyps(2) jk in auto)
  have le: "31 * Suc j \<le> 31 * k" using jk by simp
  have split: "(\<exists>q. 31 * j \<le> q \<and> q < 31 * k \<and> m (xs ! q)) \<longleftrightarrow>
      (\<exists>q. 31 * j \<le> q \<and> q < 31 * Suc j \<and> m (xs ! q)) \<or> (\<exists>q. 31 * Suc j \<le> q \<and> q < 31 * k \<and> m (xs ! q))"
  proof -
    have "31 * j \<le> q \<and> q < 31 * k \<and> m (xs ! q) \<longleftrightarrow>
        (31 * j \<le> q \<and> q < 31 * Suc j \<and> m (xs ! q)) \<or> (31 * Suc j \<le> q \<and> q < 31 * k \<and> m (xs ! q))" for q
      using le by auto
    then show ?thesis by (simp only: ex_disj_distrib)
  qed
  obtain A B where AB: "A \<longleftrightarrow> (\<exists>q. 31 * j \<le> q \<and> q < 31 * Suc j \<and> m (xs ! q))"
    "B \<longleftrightarrow> (\<exists>q. 31 * Suc j \<le> q \<and> q < 31 * k \<and> m (xs ! q))" by blast
  show ?case unfolding split
    by (subst match_full.simps, unfold AB [symmetric]) (use ne nd range [folded AB(1)] rest [folded AB(2)] k(2) in simp)
qed

lemma match_tree_refs_ok:
  assumes h: "tree_marked sure rest base a p cnt m xs r ctx w"
  shows "match_tree_refs tree ctx = Some (case tree of None \<Rightarrow> False | Some f \<Rightarrow> \<exists>c \<in> set xs. f c)"
proof (cases tree)
  case None
  then show ?thesis by (simp add: match_tree_refs_def)
next
  case tree: (Some f)
  obtain ids where ids: "chain_holds ids (stack_at xs) ctx" "at_mark ids (trees ctx) (tree_count ctx) (length xs)"
    "trees ctx = None \<longrightarrow> ids = []" "length xs + r = 31 * length ids"
    using h by (auto simp: tree_marked_def)
  show ?thesis
  proof (cases "trees ctx")
    case None
    then show ?thesis using ids tree
      by (subst match_tree_refs_def) (simp add: chain_holds_def, subst match_full.simps, simp)
  next
    case (Some q)
    then obtain k where k: "k < length ids" "trees ctx = Some (ids ! k)" "tree_count ctx \<le> 31" "length xs + tree_count ctx = 31 * k + 31"
      using ids(2) by (auto simp: at_mark_def)
    have len: "31 * k \<le> length xs" using k(3,4) by linarith
    have full: "match_full f (first_trees ctx) ctx = Some (\<exists>q. q < 31 * k \<and> f (xs ! q))"
      using match_full_ok [OF ids(1) k(1,2) len, of 0 f] ids(1) k(1) by (simp add: chain_holds_def split: if_splits)
    have "match_range f (ids ! k) ctx (tree_count ctx) (31 - tree_count ctx) =
        Some (\<exists>i < 31. tree_count ctx \<le> i \<and> f (xs ! (31 * k + 30 - i)))"
      by (rule match_range_ok [OF ids(1) k(1)]) (use k(3,4) in auto)
    then have last: "match_range f (ids ! k) ctx (tree_count ctx) (31 - tree_count ctx) = Some (\<exists>q. 31 * k \<le> q \<and> q < length xs \<and> f (xs ! q))"
      using node_places [of "tree_count ctx" "\<lambda>q. f (xs ! q)" k] unfolding k(4) [symmetric] by simp
    have "(\<exists>c \<in> set xs. f c) \<longleftrightarrow> (\<exists>q. q < 31 * k \<and> f (xs ! q)) \<or> (\<exists>q. 31 * k \<le> q \<and> q < length xs \<and> f (xs ! q))"
    proof -
      have "q < length xs \<and> f (xs ! q) \<longleftrightarrow> (q < 31 * k \<and> f (xs ! q)) \<or> (31 * k \<le> q \<and> q < length xs \<and> f (xs ! q))" for q
        using len by auto
      then have "(\<exists>q. q < length xs \<and> f (xs ! q)) \<longleftrightarrow> (\<exists>q. q < 31 * k \<and> f (xs ! q)) \<or> (\<exists>q. 31 * k \<le> q \<and> q < length xs \<and> f (xs ! q))"
        unfolding ex_disj_distrib [symmetric] by (rule ex_cong1)
      moreover have "(\<exists>c \<in> set xs. f c) \<longleftrightarrow> (\<exists>q. q < length xs \<and> f (xs ! q))" by (metis in_set_conv_nth)
      ultimately show ?thesis by (simp only:)
    qed
    moreover obtain A B where AB: "A \<longleftrightarrow> (\<exists>q. q < 31 * k \<and> f (xs ! q))" "B \<longleftrightarrow> (\<exists>q. 31 * k \<le> q \<and> q < length xs \<and> f (xs ! q))" by blast
    ultimately have "(\<exists>c \<in> set xs. f c) \<longleftrightarrow> A \<or> B" by (simp only:)
    then show ?thesis using tree k(2) full [folded AB(1)] last [folded AB(2)] by (simp add: match_tree_refs_def)
  qed
qed

lemma free_loop_ok:
  assumes "distinct ids" and "mset (klive w) = base + mset (drop j ids)" and "j \<le> length ids"
    and "\<forall>l < length ids. j \<le> l \<longrightarrow> (\<exists>nd. tree_nodes ctx (ids ! l) = Some nd \<and> tr_next nd = (if Suc l < length ids then Some (ids ! Suc l) else None))"
  shows "ok (free_loop (if j < length ids then Some (ids ! j) else None) ctx w) (\<lambda>(ctx', w'). mset (klive w') = base \<and>
    w' = w\<lparr>klive := klive w'\<rparr>)"
  using assms
proof (induction "length ids - j" arbitrary: j ctx w)
  case 0
  then show ?case by (subst free_loop.simps) simp
next
  case (Suc d)
  then have j: "j < length ids" by simp
  obtain nd where nd: "tree_nodes ctx (ids ! j) = Some nd" "tr_next nd = (if Suc j < length ids then Some (ids ! Suc j) else None)"
    using Suc.prems(4) j by blast
  have "mset (klive w) = base + mset (drop (Suc j) ids) + {#ids ! j#}"
    using Suc.prems(2) j by (simp flip: Cons_nth_drop_Suc)
  from kfree_mset [OF this] obtain w1 where w1: "kfree (ids ! j) w = Some w1" "mset (klive w1) = base + mset (drop (Suc j) ids)"
    "w1 = w\<lparr>klive := klive w1\<rparr>" by (auto elim!: okE)
  define ctx1 where "ctx1 = ctx\<lparr>tree_nodes := (tree_nodes ctx)(ids ! j := None)\<rparr>"
  have "ok (free_loop (if Suc j < length ids then Some (ids ! Suc j) else None) ctx1 w1) (\<lambda>(ctx', w'). mset (klive w') = base \<and>
    w' = w1\<lparr>klive := klive w'\<rparr>)"
  proof (rule Suc.hyps(1) [OF _ Suc.prems(1) w1(2)])
    show "d = length ids - Suc j" "Suc j \<le> length ids" using Suc.hyps(2) j by simp_all
    show "\<forall>l < length ids. Suc j \<le> l \<longrightarrow> (\<exists>nd. tree_nodes ctx1 (ids ! l) = Some nd \<and>
      tr_next nd = (if Suc l < length ids then Some (ids ! Suc l) else None))"
      using Suc.prems(1,4) j by (auto simp: ctx1_def nth_eq_iff_index_eq)
  qed
  moreover have "w1\<lparr>klive := k\<rparr> = w\<lparr>klive := k\<rparr>" for k by (subst w1(3)) simp
  ultimately show ?case
    by (subst free_loop.simps) (use j nd w1(1) in \<open>auto simp: ctx1_def elim!: okE\<close>)
qed

lemma free_tree_refs_ok:
  assumes h: "tree_marked sure rest base a p cnt m xs r ctx w"
  shows "ok (free_tree_refs ctx w) (\<lambda>(ctx', w'). mset (klive w') = base \<and> w' = w\<lparr>klive := klive w'\<rparr>)"
proof -
  obtain ids where ids: "chain_holds ids (stack_at xs) ctx" "mset (klive w) = base + mset ids"
    using h by (auto simp: tree_marked_def)
  then have f: "first_trees ctx = (if 0 < length ids then Some (ids ! 0) else None)" "distinct ids"
    by (simp_all add: chain_holds_def)
  have "ok (free_loop (if 0 < length ids then Some (ids ! 0) else None) ctx w) (\<lambda>(ctx', w'). mset (klive w') = base \<and>
    w' = w\<lparr>klive := klive w'\<rparr>)"
  proof (rule free_loop_ok [OF f(2)])
    show "\<forall>l < length ids. 0 \<le> l \<longrightarrow> (\<exists>nd. tree_nodes ctx (ids ! l) = Some nd \<and>
      tr_next nd = (if Suc l < length ids then Some (ids ! Suc l) else None))"
      using ids(1) unfolding chain_holds_def by blast
  qed (use ids in simp_all)
  then show ?thesis unfolding free_tree_refs_def f(1) .
qed

section \<open>The clients of the stack\<close>

text \<open>The chunks a walk meets, and how a system call is audited after a reference was lost.\<close>

definition chunks :: "nat option list \<Rightarrow> nat list" where
  "chunks ds = List.map_filter id ds"

definition auditable :: "u64 \<times> audit_state \<Rightarrow> u64 \<times> audit_state" where
  "auditable a = (if fst a = 0 then (1, AUDIT_RECORD_CONTEXT) else a)"

lemma chunks_simps [simp]: "chunks [] = []" "chunks (None # ds) = chunks ds" "chunks (Some c # ds) = c # chunks ds"
  by (simp_all add: chunks_def map_filter_simps)

abbreviation one_more :: "(nat \<Rightarrow> nat) \<Rightarrow> nat \<Rightarrow> nat \<Rightarrow> nat" where
  "one_more rest c \<equiv> rest(c := Suc (rest c))"

text \<open>
  What the code that collects chunks relies on: the operations of the chain are those of a
  stack with a limited room, a saved position and counted references.
\<close>

locale ref_stack =
  fixes holds :: "(nat \<Rightarrow> nat) \<Rightarrow> u64 \<times> audit_state \<Rightarrow> nat option \<Rightarrow> nat \<Rightarrow> nat \<Rightarrow> nat list \<Rightarrow> nat \<Rightarrow> 'c tc \<Rightarrow> 'z tw \<Rightarrow> bool"
    and sure :: bool
  assumes put: "holds (one_more rest c) a p cnt m xs r ctx w \<Longrightarrow> ok (put_tree_ref c ctx) (\<lambda>(stored, ctx'). stored = (0 < r) \<and>
      (if 0 < r then holds rest a p cnt m (xs @ [c]) (r - 1) ctx' w else ctx' = ctx))"
    and grow: "holds rest a p cnt m xs 0 ctx w \<Longrightarrow> ok (grow_tree_refs ctx w) (\<lambda>(grown, ctx', w').
      holds rest a p cnt m xs (if grown then 31 else 0) ctx' w' \<and> (grown \<or> \<not> sure))"
    and unroll: "holds rest a p cnt m xs r ctx w \<Longrightarrow> m \<le> length xs \<Longrightarrow> ok (unroll_tree_refs p cnt ctx w) (\<lambda>(ctx', w').
      holds rest a p cnt m (take m xs) (r + (length xs - m)) ctx' w')"
    and mark: "holds rest a p cnt m xs r ctx w \<Longrightarrow> holds rest a (trees ctx) (tree_count ctx) (length xs) xs r ctx w"
    and unmark: "holds rest a p cnt m xs r ctx w \<Longrightarrow> holds rest a None 0 0 xs r ctx w"
    and lookup: "holds rest a p cnt m xs r ctx w \<Longrightarrow> holds (one_more rest c) a p cnt m xs r ctx (get_chunk c w)"
    and release: "holds (one_more rest c) a p cnt m xs r ctx w \<Longrightarrow> ok (audit_put_chunk c w) (\<lambda>w'. holds rest a p cnt m xs r ctx w')"
    and lost: "holds rest a p cnt m xs r ctx w \<Longrightarrow> holds rest (auditable a) p cnt m xs r (audit_set_auditable ctx) w"
begin

text \<open>A new reference is on top of the stack, or it was lost and the call is audited.\<close>

lemma handle_one_ok:
  assumes h: "holds rest a None 0 0 xs r ctx w"
  shows "ok (handle_one marked chunk ctx w) (\<lambda>(ctx', w'). \<exists>a' xs' r'. holds rest a' None 0 0 xs' r' ctx' w' \<and>
    (case chunk of
       Some c \<Rightarrow> if marked then xs' = xs @ [c] \<and> a' = a \<or> \<not> sure \<and> xs' = xs \<and> a' = auditable a else xs' = xs \<and> a' = a
     | None \<Rightarrow> xs' = xs \<and> a' = a))"
proof (cases "if marked then chunk else None")
  case None
  then show ?thesis using h by (auto simp: handle_one_def simp del: split_paired_Ex split: option.splits if_splits)
next
  case (Some c)
  then have c: "marked" "chunk = Some c" by (auto split: if_splits)
  have h1: "holds (one_more rest c) a None 0 0 xs r ctx (get_chunk c w)" by (rule lookup [OF h])
  note put1 = put [OF h1]
  show ?thesis
  proof (cases "0 < r")
    case True
    with put1 obtain ctx1 where "put_tree_ref c ctx = Some (True, ctx1)" "holds rest a None 0 0 (xs @ [c]) (r - 1) ctx1 (get_chunk c w)"
      by (auto elim!: okE)
    then show ?thesis using c by (auto simp: handle_one_def Let_def simp del: split_paired_Ex)
  next
    case full: False
    then have p1: "put_tree_ref c ctx = Some (False, ctx)" and r: "r = 0" using put1 by (auto elim!: okE)
    from grow [OF mark [OF h1 [unfolded r]]] obtain grown ctx1 w1 where g: "grow_tree_refs ctx (get_chunk c w) = Some (grown, ctx1, w1)"
      "holds (one_more rest c) a (trees ctx) (tree_count ctx) (length xs) xs (if grown then 31 else 0) ctx1 w1" "grown \<or> \<not> sure"
      by (auto elim!: okE)
    show ?thesis
    proof (cases grown)
      case True
      with put [OF g(2)] obtain ctx2 where "put_tree_ref c ctx1 = Some (True, ctx2)"
        "holds rest a (trees ctx) (tree_count ctx) (length xs) (xs @ [c]) 30 ctx2 w1" by (auto elim!: okE)
      from this(1) unmark [OF this(2)] show ?thesis using c p1 g(1) True by (auto simp: handle_one_def Let_def simp del: split_paired_Ex)
    next
      case False
      with release [OF lost [OF g(2)]] obtain w2 where w2: "audit_put_chunk c w1 = Some w2"
        "holds rest (auditable a) (trees ctx) (tree_count ctx) (length xs) xs 0 (audit_set_auditable ctx1) w2"
        by (auto elim!: okE)
      from unroll [OF w2(2)] obtain ctx3 w3 where
        3: "unroll_tree_refs (trees ctx) (tree_count ctx) (audit_set_auditable ctx1) w2 = Some (ctx3, w3)"
        "holds rest (auditable a) (trees ctx) (tree_count ctx) (length xs) xs 0 ctx3 w3"
        by (auto elim!: okE)
      from unmark [OF 3(2)] show ?thesis using c p1 g(1,3) False w2(1) 3(1) by (auto simp: handle_one_def Let_def simp del: split_paired_Ex)
    qed
  qed
qed

lemma walk_up_ok:
  "holds rest a p cnt m xs r ctx w \<Longrightarrow> ok (walk_up ds ctx w) (\<lambda>(d, ctx', w').
     if length (chunks ds) \<le> r then d = None \<and> holds rest a p cnt m (xs @ chunks ds) (r - length (chunks ds)) ctx' w'
     else \<exists>c. d = Some c \<and> holds (one_more rest c) a p cnt m (xs @ take r (chunks ds)) 0 ctx' w')"
proof (induction ds arbitrary: xs r ctx w)
  case Nil
  then show ?case by simp
next
  case (Cons d ds)
  show ?case
  proof (cases d)
    case None
    show ?thesis unfolding None walk_up.simps option.case chunks_simps by (rule Cons.IH [OF Cons.prems])
  next
    case (Some c)
    have h1: "holds (one_more rest c) a p cnt m xs r ctx (get_chunk c w)" by (rule lookup [OF Cons.prems])
    note put1 = put [OF h1]
    show ?thesis
    proof (cases r)
      case 0
      with put1 have "put_tree_ref c ctx = Some (False, ctx)" by (auto elim!: okE)
      then show ?thesis using Some 0 h1 by (auto simp: Let_def)
    next
      case (Suc r')
      with put1 obtain ctx1 where 1: "put_tree_ref c ctx = Some (True, ctx1)" "holds rest a p cnt m (xs @ [c]) r' ctx1 (get_chunk c w)"
        by (auto elim!: okE)
      have run: "walk_up (d # ds) ctx w = walk_up ds ctx1 (get_chunk c w)" using 1(1) Some by (simp add: Let_def)
      show ?thesis unfolding run
        by (rule ok_mono [OF Cons.IH [OF 1(2)]]) (use Some Suc in \<open>auto simp del: fun_upd_apply split: if_splits\<close>)
    qed
  qed
qed

text \<open>
  Renames that stop at some time disturb finitely many walks, and paths of a bounded length
  need a bounded chain: the search ends. It collected the chunks of a walk that was not
  disturbed, or it ran out of memory, collected nothing and has the call audited.
\<close>

lemma retry_walk_ok:
  assumes "\<And>n. N \<le> n \<Longrightarrow> \<not> raced n" and "\<And>n. length (chunks (walks n)) \<le> B"
  shows "holds rest a p cnt (length xs) xs r ctx w \<Longrightarrow> ok (retry_walk walks raced p cnt n ctx w) (\<lambda>(ctx', w'). \<exists>a' xs' r'.
    holds rest a' p cnt (length xs) xs' r' ctx' w' \<and>
    ((\<exists>i. \<not> raced i \<and> xs' = xs @ chunks (walks i)) \<and> a' = a \<or> \<not> sure \<and> xs' = xs \<and> a' = auditable a))"
proof (induction "N - n + (B - r)" arbitrary: n r ctx w rule: less_induct)
  case less
  define cs where "cs = chunks (walks n)"
  from walk_up_ok [OF less.prems, of "walks n", folded cs_def] obtain d ctx1 w1
    where 1: "walk_up (walks n) ctx w = Some (d, ctx1, w1)"
      and fit: "length cs \<le> r \<Longrightarrow> d = None \<and> holds rest a p cnt (length xs) (xs @ cs) (r - length cs) ctx1 w1"
      and full: "r < length cs \<Longrightarrow> \<exists>c. d = Some c \<and> holds (one_more rest c) a p cnt (length xs) (xs @ take r cs) 0 ctx1 w1"
    by (auto elim!: okE)
  show ?case
  proof (cases "length cs \<le> r")
    case True
    note h1 = fit [OF True]
    show ?thesis
    proof (cases "raced n")
      case False
      then have "retry_walk walks raced p cnt n ctx w = Some (ctx1, w1)"
        using 1 h1 by (subst retry_walk.simps) simp
      then show ?thesis using h1 False by (auto simp: cs_def simp del: split_paired_Ex)
    next
      case raced: True
      then have n: "n < N" using assms(1) not_less by blast
      from unroll [OF conjunct2 [OF h1]] True obtain ctx2 w2
        where 2: "unroll_tree_refs p cnt ctx1 w1 = Some (ctx2, w2)" "holds rest a p cnt (length xs) xs r ctx2 w2"
        by (auto elim!: okE)
      have "retry_walk walks raced p cnt n ctx w = retry_walk walks raced p cnt (Suc n) ctx2 w2"
        using 1 h1 raced 2 by (subst retry_walk.simps) simp
      then show ?thesis using less.hyps [OF _ 2(2), of "Suc n"] n by simp
    qed
  next
    case False
    then obtain c where d: "d = Some c" and h1: "holds (one_more rest c) a p cnt (length xs) (xs @ take r cs) 0 ctx1 w1"
      using full by auto
    from release [OF h1] obtain w2 where w2: "audit_put_chunk c w1 = Some w2" "holds rest a p cnt (length xs) (xs @ take r cs) 0 ctx1 w2"
      by (auto elim!: okE)
    from grow [OF w2(2)] obtain grown ctx3 w3 where 3: "grow_tree_refs ctx1 w2 = Some (grown, ctx3, w3)"
      "holds rest a p cnt (length xs) (xs @ take r cs) (if grown then 31 else 0) ctx3 w3" "grown \<or> \<not> sure" by (auto elim!: okE)
    from unroll [OF 3(2)] False obtain ctx4 w4 where 4: "unroll_tree_refs p cnt ctx3 w3 = Some (ctx4, w4)"
      "holds rest a p cnt (length xs) xs ((if grown then 31 else 0) + r) ctx4 w4" by (auto simp: min_def elim!: okE)
    show ?thesis
    proof (cases grown)
      case True
      have "retry_walk walks raced p cnt n ctx w = retry_walk walks raced p cnt (Suc n) ctx4 w4"
        using 1 d w2(1) 3(1) True 4(1) by (subst retry_walk.simps) simp
      moreover have "N - Suc n + (B - (31 + r)) < N - n + (B - r)"
        using False assms(2) [of n] by (auto simp: cs_def)
      ultimately show ?thesis using less.hyps [of "Suc n" "31 + r" ctx4 w4] 4(2) True by simp
    next
      case False
      have "retry_walk walks raced p cnt n ctx w = Some (audit_set_auditable ctx4, w4)"
        using 1 d w2(1) 3(1) False 4(1) by (subst retry_walk.simps) simp
      then show ?thesis using lost [OF 4(2)] 3(3) False by (auto simp del: split_paired_Ex)
    qed
  qed
qed

lemma handle_path_ok:
  assumes "\<And>n. N \<le> n \<Longrightarrow> \<not> raced n" and "\<And>n. length (chunks (walks n)) \<le> B" and h: "holds rest a None 0 0 xs r ctx w"
  shows "ok (handle_path walks raced ctx w) (\<lambda>(ctx', w'). \<exists>a' xs' r'. holds rest a' None 0 0 xs' r' ctx' w' \<and>
    ((\<exists>i. \<not> raced i \<and> xs' = xs @ chunks (walks i)) \<and> a' = a \<or> \<not> sure \<and> xs' = xs \<and> a' = auditable a))"
  unfolding handle_path_def
  by (rule ok_mono [OF retry_walk_ok [OF assms(1,2) mark [OF h]]]) (auto dest: unmark simp del: split_paired_Ex)

lemma drop_all_ok:
  assumes "holds rest a None 0 0 xs r ctx w"
  shows "ok (unroll_tree_refs None 0 ctx w) (\<lambda>(ctx', w'). holds rest a None 0 0 [] (r + length xs) ctx' w')"
  using unroll [OF assms] by simp

end

lemma tree_stack_lost:
  "tree_marked sure rest base a p cnt m xs r ctx w \<Longrightarrow> tree_marked sure rest base (auditable a) p cnt m xs r (audit_set_auditable ctx) w"
  unfolding tree_marked_def
  by (elim exE conjE, intro exI conjI)
    (auto simp: audit_set_auditable_def auditable_def chain_holds_def)

text \<open>The chain is such a stack.\<close>

interpretation chain: ref_stack "\<lambda>rest. tree_marked sure rest base" sure for base sure
proof
  fix rest c a p cnt m xs r and ctx :: "'c tc" and w :: "'z tw"
  assume h: "tree_marked sure (one_more rest c) base a p cnt m xs r ctx w"
  define w0 where "w0 = w\<lparr>chunk_refs := (chunk_refs w)(c := chunk_refs w c - 1)\<rparr>"
  have pos: "0 < chunk_refs w c" using h by (auto simp: tree_marked_def)
  then have w: "w = get_chunk c w0" by (simp add: w0_def get_chunk_def)
  have "tree_marked sure rest base a p cnt m xs r ctx w0"
    using h unfolding tree_marked_def by (elim exE conjE, intro exI conjI) (assumption | simp add: w0_def)+
  note h0 = this
  from put_tree_ref_ok [OF h0, of c] show "ok (put_tree_ref c ctx) (\<lambda>(stored, ctx'). stored = (0 < r) \<and>
      (if 0 < r then tree_marked sure rest base a p cnt m (xs @ [c]) (r - 1) ctx' w else ctx' = ctx))"
    unfolding w [symmetric] .
  have "audit_put_chunk c w = Some w0" using pos by (simp add: audit_put_chunk_def w0_def)
  with h0 show "ok (audit_put_chunk c w) (\<lambda>w'. tree_marked sure rest base a p cnt m xs r ctx w')" by simp
next
  fix rest a p cnt m xs and ctx :: "'c tc" and w :: "'z tw"
  assume "tree_marked sure rest base a p cnt m xs 0 ctx w"
  from grow_tree_refs_ok [OF this] show "ok (grow_tree_refs ctx w) (\<lambda>(grown, ctx', w').
      tree_marked sure rest base a p cnt m xs (if grown then 31 else 0) ctx' w' \<and> (grown \<or> \<not> sure))"
    by (rule ok_mono) auto
next
  fix rest a p cnt m xs r and ctx :: "'c tc" and w :: "'z tw"
  assume h: "tree_marked sure rest base a p cnt m xs r ctx w"
  show "tree_marked sure rest base a (trees ctx) (tree_count ctx) (length xs) xs r ctx w" by (rule tree_mark [OF h])
  show "tree_stack sure rest base a xs r ctx w" by (rule tree_unmark [OF h])
  show "tree_marked sure rest base (auditable a) p cnt m xs r (audit_set_auditable ctx) w" by (rule tree_stack_lost [OF h])
  show "tree_marked sure (one_more rest c) base a p cnt m xs r ctx (get_chunk c w)" for c
    using h unfolding tree_marked_def by (elim exE conjE, intro exI conjI) (assumption | simp add: get_chunk_def)+
  show "ok (unroll_tree_refs p cnt ctx w) (\<lambda>(ctx', w'). tree_marked sure rest base a p cnt m (take m xs) (r + (length xs - m)) ctx' w')"
    if "m \<le> length xs"
    by (rule ok_mono [OF unroll_tree_refs_ok [OF h that]]) auto
qed

section \<open>The abstract machine\<close>

text \<open>
  What happens to the chain of a context while system calls run: an inode or a path is looked
  up, and at the end of a call everything is dropped (\<open>__audit_syscall_exit\<close>). The
  specification is a list of chunks and the way the call is audited; \<open>lossy\<close> says that memory
  may run out.
\<close>

datatype tree_op = One bool "nat option" | Path "nat \<Rightarrow> nat option list" "nat \<Rightarrow> bool" | Reset

fun tree_exec :: "tree_op \<Rightarrow> 'c tc \<Rightarrow> 'z tw \<Rightarrow> ('c tc \<times> 'z tw) option" where
  "tree_exec (One marked chunk) ctx w = handle_one marked chunk ctx w"
| "tree_exec (Path walks raced) ctx w = handle_path walks raced ctx w"
| "tree_exec Reset ctx w = unroll_tree_refs None 0 ctx w"

primrec tree_run :: "tree_op list \<Rightarrow> 'c tc \<Rightarrow> 'z tw \<Rightarrow> ('c tc \<times> 'z tw) option" where
  "tree_run [] ctx w = Some (ctx, w)"
| "tree_run (op # ops) ctx w = do { (ctx, w) \<leftarrow> tree_exec op ctx w; tree_run ops ctx w }"

type_synonym tree_state = "nat list \<times> u64 \<times> audit_state"

inductive tree_step :: "bool \<Rightarrow> tree_op \<Rightarrow> tree_state \<Rightarrow> tree_state \<Rightarrow> bool" for lossy where
  no_chunk: "\<not> marked \<or> chunk = None \<Longrightarrow> tree_step lossy (One marked chunk) s s"
| one_chunk: "tree_step lossy (One True (Some c)) (xs, a) (xs @ [c], a)"
| one_lost: "lossy \<Longrightarrow> tree_step lossy (One True (Some c)) (xs, a) (xs, auditable a)"
| path: "\<not> raced i \<Longrightarrow> tree_step lossy (Path walks raced) (xs, a) (xs @ chunks (walks i), a)"
| path_lost: "lossy \<Longrightarrow> tree_step lossy (Path walks raced) (xs, a) (xs, auditable a)"
| reset: "tree_step lossy Reset (xs, a) ([], a)"

inductive_cases tree_step_resetE: "tree_step lossy Reset s s'"

inductive tree_steps :: "bool \<Rightarrow> tree_op list \<Rightarrow> tree_state \<Rightarrow> tree_state \<Rightarrow> bool" for lossy where
  nothing: "tree_steps lossy [] s s"
| step: "tree_step lossy op s s' \<Longrightarrow> tree_steps lossy ops s' s'' \<Longrightarrow> tree_steps lossy (op # ops) s s''"

inductive_cases tree_steps_consE: "tree_steps lossy (op # ops) s s'"
inductive_cases tree_steps_nilE: "tree_steps lossy [] s s'"

text \<open>Renames stop at some time, and paths have a bounded length.\<close>

fun calm :: "tree_op \<Rightarrow> bool" where
  "calm (Path walks raced) \<longleftrightarrow> (\<exists>N. \<forall>n \<ge> N. \<not> raced n) \<and> (\<exists>B. \<forall>n. length (chunks (walks n)) \<le> B)"
| "calm (One marked chunk) \<longleftrightarrow> True"
| "calm Reset \<longleftrightarrow> True"

lemma tree_stepI:
  "tree_stack sure rest base a' xs' r' ctx w \<Longrightarrow> tree_step lossy op s (xs', a') \<Longrightarrow>
   \<exists>a' xs'. (\<exists>r'. tree_stack sure rest base a' xs' r' ctx w) \<and> tree_step lossy op s (xs', a')"
  by blast

lemma tree_stepsI:
  "tree_stack sure rest base a' xs' r' ctx w \<Longrightarrow> tree_steps lossy ops s (xs', a') \<Longrightarrow>
   \<exists>a' xs'. (\<exists>r'. tree_stack sure rest base a' xs' r' ctx w) \<and> tree_steps lossy ops s (xs', a')"
  by blast

lemma tree_exec_ok:
  assumes h: "tree_stack sure rest base a xs r ctx w" and c: "calm op"
  shows "ok (tree_exec op ctx w) (\<lambda>(ctx', w'). \<exists>a' xs' r'. tree_stack sure rest base a' xs' r' ctx' w' \<and>
    tree_step (\<not> sure) op (xs, a) (xs', a'))"
proof (cases op)
  case (One marked chunk)
  show ?thesis unfolding One tree_exec.simps
  proof (rule ok_mono [OF chain.handle_one_ok [OF h]], clarify, goal_cases)
    case (1 ctx' w' p q xs' r')
    then show ?case
      by (cases chunk; cases marked)
        (auto simp del: split_paired_Ex intro!: exI [of _ "(p, q)"] exI [of _ xs'] exI [of _ r']
          intro: no_chunk one_chunk one_lost)
  qed
next
  case (Path walks raced)
  then obtain N B where nb: "\<And>n. N \<le> n \<Longrightarrow> \<not> raced n" "\<And>n. length (chunks (walks n)) \<le> B" using c by auto
  show ?thesis unfolding Path tree_exec.simps
  proof (rule ok_mono [OF chain.handle_path_ok [OF nb h]], assumption, clarify, goal_cases)
    case (1 ctx' w' p q xs' r')
    then show ?case
      by (auto simp del: split_paired_Ex intro!: exI [of _ "(p, q)"] exI [of _ xs'] exI [of _ r'] intro: path path_lost)
  qed
next
  case Reset
  then show ?thesis
    by (auto intro!: ok_mono [OF chain.drop_all_ok [OF h]] simp del: split_paired_Ex intro!: tree_stepI intro: tree_step.intros)
qed

lemma tree_run_ok:
  assumes "tree_stack sure rest base a xs r ctx w" and "\<forall>op \<in> set ops. calm op"
  shows "ok (tree_run ops ctx w) (\<lambda>(ctx', w'). \<exists>a' xs' r'. tree_stack sure rest base a' xs' r' ctx' w' \<and>
    tree_steps (\<not> sure) ops (xs, a) (xs', a'))"
  using assms
proof (induction ops arbitrary: a xs r ctx w)
  case Nil
  then show ?case by (auto simp del: split_paired_Ex intro!: tree_stepsI intro: tree_steps.intros)
next
  case (Cons op ops)
  from Cons.prems have c: "calm op" by simp
  from tree_exec_ok [OF Cons.prems(1) c] obtain ctx1 w1 a1 xs1 r1 where
    1: "tree_exec op ctx w = Some (ctx1, w1)" "tree_stack sure rest base a1 xs1 r1 ctx1 w1"
      "tree_step (\<not> sure) op (xs, a) (xs1, a1)" by (auto simp del: split_paired_Ex elim!: okE)
  from Cons.IH [OF 1(2)] Cons.prems(2) show ?case
    using 1(1,3) by (auto simp del: split_paired_Ex elim!: ok_mono intro!: tree_stepsI intro: tree_steps.step)
qed

text \<open>The state of a new context: no node, no position.\<close>

definition fresh_trees :: "'c tc \<Rightarrow> bool" where
  "fresh_trees ctx \<longleftrightarrow> first_trees ctx = None \<and> trees ctx = None \<and> tree_count ctx = 0"

lemma fresh_stack:
  "fresh_trees ctx \<Longrightarrow> \<forall>k \<in> set (klive w). k < knext w \<Longrightarrow> (sure \<Longrightarrow> \<forall>n. \<not> kfail w n) \<Longrightarrow>
   tree_stack sure (chunk_refs w) (mset (klive w)) (prio ctx, current_state ctx) [] 0 ctx w"
  unfolding tree_marked_def fresh_trees_def
  by (intro exI [of _ "[]"]) (auto simp: chain_holds_def at_mark_def behind_def)

section \<open>Properties\<close>

text \<open>
  C28: the chain of 31-pointer arrays implements a list of chunks. Whatever is looked up while
  a context is in use, with whatever renames, races and failed allocations, and whenever it
  is dropped: nothing faults, the search for a tree answers as if it looked through the list
  of the specification, every chunk has one more reference for each time it is on the list
  and no other, and only the arrays of the chain are allocated. References are lost only when
  memory runs out, and then the system call is audited.
\<close>

theorem audit_tree_refines:
  assumes "fresh_trees ctx" and "\<forall>k \<in> set (klive w). k < knext w" and "\<forall>op \<in> set ops. calm op"
  shows "ok (tree_run ops ctx w) (\<lambda>(ctx', w'). \<exists>xs a.
    tree_steps (\<exists>n. kfail w n) ops ([], prio ctx, current_state ctx) (xs, a) \<and>
    (prio ctx', current_state ctx') = a \<and>
    (\<forall>f. match_tree_refs (Some f) ctx' = Some (\<exists>c \<in> set xs. f c)) \<and>
    (\<forall>c. chunk_refs w' c = chunk_refs w c + count_list xs c) \<and>
    (\<exists>ids. mset (klive w') = mset (klive w) + mset ids \<and> distinct ids \<and> length xs \<le> 31 * length ids))"
proof -
  define sure where "sure \<longleftrightarrow> (\<forall>n. \<not> kfail w n)"
  have h: "tree_stack sure (chunk_refs w) (mset (klive w)) (prio ctx, current_state ctx) [] 0 ctx w"
    by (rule fresh_stack [OF assms(1,2)]) (simp add: sure_def)
  have l: "(\<exists>n. kfail w n) = (\<not> sure)" by (simp add: sure_def)
  show ?thesis unfolding l
  proof (rule ok_mono [OF tree_run_ok [OF h assms(3)]], clarsimp simp del: split_paired_Ex, goal_cases)
    case (1 ctx' w' p q xs r)
    have m: "match_tree_refs (Some f) ctx' = Some (\<exists>c \<in> set xs. f c)" for f
      using match_tree_refs_ok [OF 1(3), of "Some f"] by simp
    from 1 show ?case using m
      by (intro exI [of _ xs] exI [of _ "(p, q)"]) (auto simp: tree_marked_def chain_holds_def)
  qed
qed

lemma tree_step_sure: "tree_step False op s s' \<Longrightarrow> snd s' = snd s"
  by (induction rule: tree_step.induct) auto

lemma tree_steps_sure: "tree_steps False ops s s' \<Longrightarrow> snd s' = snd s"
  by (induction rule: tree_steps.induct) (auto dest: tree_step_sure)

lemma tree_steps_last: "tree_steps lossy (ops @ [op]) s s'' \<Longrightarrow> \<exists>s'. tree_steps lossy ops s s' \<and> tree_step lossy op s' s''"
proof (induction ops arbitrary: s)
  case Nil
  then have "tree_step lossy op s s''" by (auto elim!: tree_steps_consE tree_steps_nilE)
  then show ?case using tree_steps.nothing by blast
next
  case (Cons o' ops)
  then obtain s1 where 1: "tree_step lossy o' s s1" "tree_steps lossy (ops @ [op]) s1 s''"
    by (auto elim: tree_steps_consE)
  from Cons.IH [OF 1(2)] 1(1) show ?case by (blast intro: tree_steps.step)
qed

lemma tree_step_pathE:
  "tree_step False (Path walks raced) s s' \<Longrightarrow> \<exists>i. \<not> raced i \<and> s' = (fst s @ chunks (walks i), snd s)"
  by (erule tree_step.cases) auto

text \<open>
  C29: the search of a path comes to an end: once renames stop, and as long as paths have a
  bounded length and memory lasts, the chain grows until a walk fits, and every chunk of one
  walk that no rename disturbed is found on the chain afterwards; the call is not audited
  for a lost reference.
\<close>

theorem audit_path_found:
  assumes "fresh_trees ctx" and "\<forall>k \<in> set (klive w). k < knext w" and "\<forall>op \<in> set ops. calm op"
    and memory: "\<forall>n. \<not> kfail w n" and stop: "\<And>n. N \<le> n \<Longrightarrow> \<not> raced n" and short: "\<And>n. length (chunks (walks n)) \<le> B"
  shows "ok (tree_run (ops @ [Path walks raced]) ctx w) (\<lambda>(ctx', w'). prio ctx' = prio ctx \<and>
    current_state ctx' = current_state ctx \<and>
    (\<exists>i. \<not> raced i \<and> (\<forall>c \<in> set (chunks (walks i)). match_tree_refs (Some (\<lambda>x. x = c)) ctx' = Some True)))"
proof -
  have calm: "\<forall>op \<in> set (ops @ [Path walks raced]). calm op" using assms(3) stop short by auto
  have h: "tree_stack True (chunk_refs w) (mset (klive w)) (prio ctx, current_state ctx) [] 0 ctx w"
    by (rule fresh_stack [OF assms(1,2) memory])
  show ?thesis
  proof (rule ok_mono [OF tree_run_ok [OF h calm]], clarsimp simp del: split_paired_Ex, goal_cases)
    case (1 ctx' w' p q xs r)
    from tree_steps_last [OF 1(2)] obtain s where s: "tree_steps False ops ([], prio ctx, current_state ctx) s"
      "tree_step False (Path walks raced) s (xs, p, q)" by blast
    from tree_step_pathE [OF s(2)] tree_steps_sure [OF s(1)] obtain i where
      i: "\<not> raced i" "xs = fst s @ chunks (walks i)" "(p, q) = (prio ctx, current_state ctx)" by auto
    have "match_tree_refs (Some (\<lambda>x. x = c)) ctx' = Some True" if "c \<in> set (chunks (walks i))" for c
      using match_tree_refs_ok [OF 1(3), of "Some (\<lambda>x. x = c)"] that i(2) by auto
    with i 1(3) show ?case by (auto simp: tree_marked_def)
  qed
qed

text \<open>
  When a context is freed, nothing of its chain stays behind: after whatever was looked up
  before, dropping the references and freeing the arrays leaves every reference count and the
  allocated memory as they were when the context was new.
\<close>

theorem audit_trees_freed:
  assumes "fresh_trees ctx" and "\<forall>k \<in> set (klive w). k < knext w" and "\<forall>op \<in> set ops. calm op"
  shows "ok (do { (ctx, w) \<leftarrow> tree_run ops ctx w; (ctx, w) \<leftarrow> unroll_tree_refs None 0 ctx w; free_tree_refs ctx w })
    (\<lambda>(ctx', w'). mset (klive w') = mset (klive w) \<and> chunk_refs w' = chunk_refs w)"
proof -
  have h: "tree_stack False (chunk_refs w) (mset (klive w)) (prio ctx, current_state ctx) [] 0 ctx w"
    by (rule fresh_stack [OF assms(1,2)]) simp
  from tree_run_ok [OF h assms(3)] obtain ctx1 w1 a xs r where 1: "tree_run ops ctx w = Some (ctx1, w1)"
    "tree_stack False (chunk_refs w) (mset (klive w)) a xs r ctx1 w1" by (auto simp del: split_paired_Ex elim!: okE)
  from chain.drop_all_ok [OF 1(2)] obtain ctx2 w2 where 2: "unroll_tree_refs None 0 ctx1 w1 = Some (ctx2, w2)"
    "tree_stack False (chunk_refs w) (mset (klive w)) a [] (r + length xs) ctx2 w2" by (auto elim!: okE)
  from free_tree_refs_ok [OF 2(2)] obtain ctx3 w3 where 3: "free_tree_refs ctx2 w2 = Some (ctx3, w3)"
    "mset (klive w3) = mset (klive w)" "w3 = w2\<lparr>klive := klive w3\<rparr>" by (auto elim!: okE)
  have "chunk_refs w3 = chunk_refs w" using 2(2) by (subst 3(3)) (auto simp: tree_marked_def fun_eq_iff)
  then show ?thesis using 1(1) 2(1) 3(1,2) by simp
qed

section \<open>A concrete context\<close>

text \<open>
  An empty chain; an inode with the chunk 7; a path whose first walk is disturbed by a rename,
  and in whose second walk the chunks 3 and 4 are met.
\<close>

definition tree_demo :: tree_ctx where
  "tree_demo = \<lparr>tree_nodes = \<lambda>_. None, first_trees = None, trees = None, tree_count = 0, prio = 0, current_state = AUDIT_BUILD_CONTEXT\<rparr>"

definition tree_demo_world :: tree_world where
  "tree_demo_world = \<lparr>umem = \<lambda>_ _. None, utime = 0, uout = [], kfail = \<lambda>_. False, kjunk = \<lambda>_ _. 0, knext = 1, klive = [0],
     xcalls = 0, chunk_refs = \<lambda>_. 1\<rparr>"

definition demo_walks :: "nat \<Rightarrow> nat option list" where
  "demo_walks n = (if n = 0 then [Some 5] else [Some 3, None, Some 4])"

lemma tree_demo_ok: "fresh_trees tree_demo" "\<forall>k \<in> set (klive tree_demo_world). k < knext tree_demo_world"
  "\<forall>n. \<not> kfail tree_demo_world n" "n \<ge> 1 \<Longrightarrow> \<not> n < (1 :: nat)" "length (chunks (demo_walks n)) \<le> 2"
  by (simp_all add: fresh_trees_def tree_demo_def tree_demo_world_def demo_walks_def)

lemma tree_demo_calm: "calm (Path demo_walks (\<lambda>n. n < 1))"
  using tree_demo_ok(4,5) by (auto intro: exI [of _ 1])

theorem audit_tree_refines_witness:
  "ok (tree_run [One True (Some 7), Path demo_walks (\<lambda>n. n < 1)] tree_demo tree_demo_world) (\<lambda>(ctx', w'). \<exists>xs a.
    tree_steps (\<exists>n. kfail tree_demo_world n) [One True (Some 7), Path demo_walks (\<lambda>n. n < 1)]
      ([], prio tree_demo, current_state tree_demo) (xs, a) \<and>
    (prio ctx', current_state ctx') = a \<and>
    (\<forall>f. match_tree_refs (Some f) ctx' = Some (\<exists>c \<in> set xs. f c)) \<and>
    (\<forall>c. chunk_refs w' c = chunk_refs tree_demo_world c + count_list xs c) \<and>
    (\<exists>ids. mset (klive w') = mset (klive tree_demo_world) + mset ids \<and> distinct ids \<and> length xs \<le> 31 * length ids))"
  by (rule audit_tree_refines [OF tree_demo_ok(1,2)]) (use tree_demo_calm in simp)

theorem audit_path_found_witness:
  "ok (tree_run ([One True (Some 7)] @ [Path demo_walks (\<lambda>n. n < 1)]) tree_demo tree_demo_world) (\<lambda>(ctx', w').
    prio ctx' = prio tree_demo \<and> current_state ctx' = current_state tree_demo \<and>
    (\<exists>i. \<not> i < (1 :: nat) \<and> (\<forall>c \<in> set (chunks (demo_walks i)). match_tree_refs (Some (\<lambda>x. x = c)) ctx' = Some True)))"
  by (rule audit_path_found [OF tree_demo_ok(1,2) _ tree_demo_ok(3), where N = 1 and B = 2])
    (use tree_demo_ok(4,5) in simp_all)

theorem audit_trees_freed_witness:
  "ok (do { (ctx, w) \<leftarrow> tree_run [One True (Some 7), Path demo_walks (\<lambda>n. n < 1)] tree_demo tree_demo_world;
      (ctx, w) \<leftarrow> unroll_tree_refs None 0 ctx w; free_tree_refs ctx w })
    (\<lambda>(ctx', w'). mset (klive w') = mset (klive tree_demo_world) \<and> chunk_refs w' = chunk_refs tree_demo_world)"
  by (rule audit_trees_freed [OF tree_demo_ok(1,2)]) (use tree_demo_calm in simp)

end
