(* ===== verification/AuditNames.thy ===== *)
theory AuditNames
  imports AuditRecord AuditTree
begin

text \<open>
  The names a system call touches (\<open>auditsc.c\<close>: \<open>audit_alloc_name\<close> to \<open>__audit_inode_child\<close>, and
  \<open>audit_free_names\<close>): hooks in the file system enter file names, the inodes they were looked
  up to, and objects that were created or removed, into a list in the context. The first places are in the context itself, the
  others are allocated; names are shared with their users and counted.

  The first part translates the code. The second shows an invariant of list, names and trees
  (\<open>names_ok\<close>) that every hook keeps; the last what the list records and that all is given back.
\<close>

section \<open>State\<close>

text \<open>
  An entry of the list of names lies in one of the \<open>AUDIT_NAMES\<close> places of the context or is
  an object of its own. A file name is shared and counted; \<open>f_aname\<close> points to the entry
  that was made for it.
\<close>

datatype slot = Pre nat | Heap nat

record filename =
  f_text :: "byte list"
  f_uptr :: nat
  f_ref :: nat
  f_aname :: "slot option"

record names_ctx = tree_ctx +
  entries :: "(slot \<times> audit_names) list"
  name_count :: nat
  in_syscall :: bool
  pwd :: "path option"

record names_world = tree_world +
  files :: "nat \<Rightarrow> filename"

type_synonym 'c nc = "'c names_ctx_scheme"
type_synonym 'z nw = "'z names_world_scheme"

text \<open>
  The number of places, the size of an entry, and what other files give: the length of the directory part of a name
  (\<open>parent_len\<close>), whether a name is the given one in a directory part of that length
  (\<open>audit_compare_dname_path\<close>), the working directory.
\<close>

record names_env =
  NAMES :: nat
  sizeof_audit_names :: nat
  parent_len :: "byte list \<Rightarrow> int"
  dname_path :: "byte list \<Rightarrow> byte list \<Rightarrow> int \<Rightarrow> bool"
  fs_pwd :: path

abbreviation AUDIT_TYPE_UNKNOWN :: nat where "AUDIT_TYPE_UNKNOWN \<equiv> 0"

text \<open>The dentry of a lookup: its walk up, renames on the way, its capabilities and its inode.\<close>

record dentry =
  d_walks :: "nat \<Rightarrow> nat option list"
  d_raced :: "nat \<Rightarrow> bool"
  d_caps :: "vfs_caps option"
  d_inode :: inode

section \<open>The list of names\<close>

definition text_of :: "'z nw \<Rightarrow> nat \<Rightarrow> byte list" where
  "text_of w k = f_text (files w k)"

definition hold_name :: "nat \<Rightarrow> 'z nw \<Rightarrow> 'z nw" where
  "hold_name k w = w\<lparr>files := (files w)(k := (files w k)\<lparr>f_ref := Suc (f_ref (files w k))\<rparr>)\<rparr>"

text \<open>Giving back a name that nobody holds is a fault.\<close>

definition putname :: "nat \<Rightarrow> 'z nw \<Rightarrow> 'z nw option" where
  "putname k w =
     (if f_ref (files w k) = 0 then None
      else Some (w\<lparr>files := (files w)(k := (files w k)\<lparr>f_ref := f_ref (files w k) - 1\<rparr>)\<rparr>))"

definition entry_of :: "slot \<Rightarrow> 'c nc \<Rightarrow> audit_names option" where
  "entry_of s ctx = map_of (entries ctx) s"

definition change_entry :: "slot \<Rightarrow> (audit_names \<Rightarrow> audit_names) \<Rightarrow> 'c nc \<Rightarrow> 'c nc" where
  "change_entry s f ctx = ctx\<lparr>entries := map (\<lambda>(t, n). (t, if t = s then f n else n)) (entries ctx)\<rparr>"

definition audit_alloc_name :: "names_env \<Rightarrow> nat \<Rightarrow> 'c nc \<Rightarrow> 'z nw \<Rightarrow> slot option \<times> 'c nc \<times> 'z nw" where
  "audit_alloc_name E type ctx w =
     (let add = (\<lambda>s free. ctx\<lparr>entries := entries ctx @ [(s, zero_name\<lparr>n_should_free := free, n_ino := AUDIT_INO_UNSET, n_type := type\<rparr>)],
                               name_count := Suc (name_count ctx)\<rparr>) in
      if name_count ctx < NAMES E then (Some (Pre (name_count ctx)), add (Pre (name_count ctx)) False, w)
      else (case kzalloc (sizeof_audit_names E) w of
          (None, w) \<Rightarrow> (None, ctx, w)
        | (Some (k, _), w) \<Rightarrow> (Some (Heap k), add (Heap k) True, w)))"

definition audit_reusename :: "nat \<Rightarrow> 'c nc \<Rightarrow> 'z nw \<Rightarrow> nat option \<times> 'z nw" where
  "audit_reusename uptr ctx w =
     (case find (\<lambda>(s, n). case n_name n of None \<Rightarrow> False | Some k \<Rightarrow> f_uptr (files w k) = uptr) (entries ctx) of
        None \<Rightarrow> (None, w)
      | Some (s, n) \<Rightarrow> (n_name n, hold_name (the (n_name n)) w))"

definition audit_getname :: "names_env \<Rightarrow> nat \<Rightarrow> 'c nc \<Rightarrow> 'z nw \<Rightarrow> 'c nc \<times> 'z nw" where
  "audit_getname E name ctx w =
     (if \<not> in_syscall ctx then (ctx, w)
      else (case audit_alloc_name E AUDIT_TYPE_UNKNOWN ctx w of
          (None, ctx, w) \<Rightarrow> (ctx, w)
        | (Some s, ctx, w) \<Rightarrow>
            let ctx = change_entry s (\<lambda>n. n\<lparr>n_name := Some name, n_len := AUDIT_NAME_FULL\<rparr>) ctx;
                w = w\<lparr>files := (files w)(name := (files w name)\<lparr>f_aname := Some s\<rparr>)\<rparr>;
                w = hold_name name w
            in (if pwd ctx = None then ctx\<lparr>pwd := Some (fs_pwd E)\<rparr> else ctx, w)))"

section \<open>Lookups\<close>

text \<open>Whether the type of an entry agrees with the lookup of a directory or of anything else.\<close>

definition type_fits :: "bool \<Rightarrow> audit_names \<Rightarrow> bool" where
  "type_fits parent n = (if parent then n_type n = AUDIT_TYPE_PARENT \<or> n_type n = AUDIT_TYPE_UNKNOWN else n_type n \<noteq> AUDIT_TYPE_PARENT)"

definition inode_matches :: "'z nw \<Rightarrow> nat \<Rightarrow> inode \<Rightarrow> bool \<Rightarrow> audit_names \<Rightarrow> bool" where
  "inode_matches w name i parent n =
     ((if n_ino n \<noteq> 0 then n_ino n = i_ino i \<and> n_dev n = i_dev i
       else (case n_name n of Some k \<Rightarrow> text_of w k = text_of w name | None \<Rightarrow> False)) \<and>
      type_fits parent n)"

text \<open>
  The entry a lookup belongs to: that of the name, else the last one that matches. An entry
  that is pointed to and not on the list is a fault.
\<close>

definition find_inode :: "nat option \<Rightarrow> inode \<Rightarrow> bool \<Rightarrow> 'c nc \<Rightarrow> 'z nw \<Rightarrow> slot option option" where
  "find_inode name i parent ctx w =
     (case name of
        None \<Rightarrow> Some None
      | Some k \<Rightarrow>
          let searched = map_option fst (find (\<lambda>(s, n). inode_matches w k i parent n) (rev (entries ctx))) in
          (case f_aname (files w k) of
             None \<Rightarrow> Some searched
           | Some s \<Rightarrow> do { n \<leftarrow> entry_of s ctx; Some (if type_fits parent n then Some s else searched) }))"

definition fill_inode :: "names_env \<Rightarrow> dentry \<Rightarrow> bool \<Rightarrow> bool \<Rightarrow> slot \<Rightarrow> 'c nc \<Rightarrow> 'z nw \<Rightarrow> ('c nc \<times> 'z nw) option" where
  "fill_inode E d parent hidden s ctx w = do {
     let ctx = change_entry s (\<lambda>n.
       if parent then n\<lparr>n_len := (case n_name n of Some k \<Rightarrow> parent_len E (text_of w k) | None \<Rightarrow> AUDIT_NAME_FULL),
                        n_type := AUDIT_TYPE_PARENT, n_hidden := n_hidden n \<or> hidden\<rparr>
       else n\<lparr>n_len := AUDIT_NAME_FULL, n_type := AUDIT_TYPE_NORMAL\<rparr>) ctx;
     (ctx, w) \<leftarrow> handle_path (d_walks d) (d_raced d) ctx w;
     Some (change_entry s (audit_copy_inode (d_caps d) (d_inode d)) ctx, w)
   }"

definition audit_inode :: "names_env \<Rightarrow> nat option \<Rightarrow> dentry \<Rightarrow> bool \<Rightarrow> bool \<Rightarrow> 'c nc \<Rightarrow> 'z nw \<Rightarrow> ('c nc \<times> 'z nw) option" where
  "audit_inode E name d parent hidden ctx w =
     (if \<not> in_syscall ctx then Some (ctx, w)
      else do {
        found \<leftarrow> find_inode name (d_inode d) parent ctx w;
        (case found of
           Some s \<Rightarrow> fill_inode E d parent hidden s ctx w
         | None \<Rightarrow>
             (case audit_alloc_name E AUDIT_TYPE_UNKNOWN ctx w of
                (None, ctx, w) \<Rightarrow> Some (ctx, w)
              | (Some s, ctx, w) \<Rightarrow>
                  (case name of
                     None \<Rightarrow> fill_inode E d parent hidden s ctx w
                   | Some k \<Rightarrow> fill_inode E d parent hidden s (change_entry s (\<lambda>n. n\<lparr>n_name := Some k\<rparr>) ctx) (hold_name k w))))
      })"

definition audit_file :: "names_env \<Rightarrow> dentry \<Rightarrow> 'c nc \<Rightarrow> 'z nw \<Rightarrow> ('c nc \<times> 'z nw) option" where
  "audit_file E d = audit_inode E None d False False"

section \<open>Created and removed objects\<close>

definition parent_matches :: "names_env \<Rightarrow> 'z nw \<Rightarrow> byte list \<Rightarrow> inode \<Rightarrow> audit_names \<Rightarrow> bool" where
  "parent_matches E w dname p n =
     (case n_name n of
        None \<Rightarrow> False
      | Some k \<Rightarrow> (n_type n = AUDIT_TYPE_PARENT \<or> n_type n = AUDIT_TYPE_UNKNOWN) \<and> n_ino n = i_ino p \<and> n_dev n = i_dev p \<and>
          dname_path E dname (text_of w k) (n_len n))"

definition child_matches :: "names_env \<Rightarrow> 'z nw \<Rightarrow> byte list \<Rightarrow> nat \<Rightarrow> audit_names option \<Rightarrow> audit_names \<Rightarrow> bool" where
  "child_matches E w dname type found_parent n =
     (case n_name n of
        None \<Rightarrow> False
      | Some k \<Rightarrow> (n_type n = type \<or> n_type n = AUDIT_TYPE_UNKNOWN) \<and>
          (dname = text_of w k \<or>
           dname_path E dname (text_of w k) (case found_parent of Some p \<Rightarrow> n_len p | None \<Rightarrow> AUDIT_NAME_FULL)))"

definition known_as :: "nat \<Rightarrow> audit_names \<Rightarrow> audit_names" where
  "known_as type n = (if n_type n = AUDIT_TYPE_UNKNOWN then n\<lparr>n_type := type\<rparr> else n)"

text \<open>The first entry with a property; its type becomes known.\<close>

definition claim_entry :: "(audit_names \<Rightarrow> bool) \<Rightarrow> nat \<Rightarrow> 'c nc \<Rightarrow> slot option \<times> 'c nc" where
  "claim_entry P type ctx =
     (case find (\<lambda>(s, n). P n) (entries ctx) of
        None \<Rightarrow> (None, ctx)
      | Some (s, n) \<Rightarrow> (Some s, change_entry s (known_as type) ctx))"

text \<open>The parent's entry, or a new one without a name; true when there was memory.\<close>

definition child_parent :: "names_env \<Rightarrow> inode \<Rightarrow> slot option \<Rightarrow> 'c nc \<Rightarrow> 'z nw \<Rightarrow> bool \<times> 'c nc \<times> 'z nw" where
  "child_parent E parent found ctx w =
     (case found of
        Some _ \<Rightarrow> (True, ctx, w)
      | None \<Rightarrow>
          (case audit_alloc_name E AUDIT_TYPE_PARENT ctx w of
             (None, ctx, w) \<Rightarrow> (False, ctx, w)
           | (Some s, ctx, w) \<Rightarrow> (True, change_entry s (audit_copy_inode None parent) ctx, w)))"

definition child_entry :: "names_env \<Rightarrow> nat \<Rightarrow> slot option \<Rightarrow> slot option \<Rightarrow> 'c nc \<Rightarrow> 'z nw \<Rightarrow> (slot option \<times> 'c nc \<times> 'z nw) option" where
  "child_entry E type found_parent found_child ctx w =
     (case found_child of
        Some s \<Rightarrow> Some (Some s, ctx, w)
      | None \<Rightarrow>
          (case audit_alloc_name E type ctx w of
             (None, ctx, w) \<Rightarrow> Some (None, ctx, w)
           | (Some s, ctx, w) \<Rightarrow>
               (case found_parent of
                  None \<Rightarrow> Some (Some s, ctx, w)
                | Some p \<Rightarrow> do {
                    pn \<leftarrow> entry_of p ctx;
                    k \<leftarrow> n_name pn;
                    Some (Some s, change_entry s (\<lambda>n. n\<lparr>n_name := Some k, n_len := AUDIT_NAME_FULL\<rparr>) ctx, hold_name k w)
                  })))"

definition audit_inode_child :: "names_env \<Rightarrow> inode \<Rightarrow> byte list \<Rightarrow> (bool \<times> nat option) \<Rightarrow> vfs_caps option \<Rightarrow> inode option \<Rightarrow> nat \<Rightarrow>
    'c nc \<Rightarrow> 'z nw \<Rightarrow> ('c nc \<times> 'z nw) option" where
  "audit_inode_child E parent dname marks caps inode type ctx w =
     (if \<not> in_syscall ctx then Some (ctx, w)
      else do {
        (ctx, w) \<leftarrow> (case inode of None \<Rightarrow> Some (ctx, w) | Some _ \<Rightarrow> handle_one (fst marks) (snd marks) ctx w);
        let (found_parent, ctx) = claim_entry (parent_matches E w dname parent) AUDIT_TYPE_PARENT ctx;
        let pn = (case found_parent of None \<Rightarrow> None | Some p \<Rightarrow> entry_of p ctx);
        let (found_child, ctx) = claim_entry (child_matches E w dname type pn) type ctx;
        let (go, ctx, w) = child_parent E parent found_parent ctx w;
        (if \<not> go then Some (ctx, w)
         else do {
           (s, ctx, w) \<leftarrow> child_entry E type found_parent found_child ctx w;
           Some (case s of
              None \<Rightarrow> (ctx, w)
            | Some s \<Rightarrow>
                (change_entry s (case inode of Some i \<Rightarrow> audit_copy_inode caps i | None \<Rightarrow> (\<lambda>n. n\<lparr>n_ino := AUDIT_INO_UNSET\<rparr>)) ctx, w))
         })
      })"

section \<open>The end of the call\<close>

primrec free_entries :: "(slot \<times> audit_names) list \<Rightarrow> 'z nw \<Rightarrow> 'z nw option" where
  "free_entries [] w = Some w"
| "free_entries (e # es) w = (case e of (s, n) \<Rightarrow> do {
     w \<leftarrow> (case n_name n of None \<Rightarrow> Some w | Some k \<Rightarrow> putname k w);
     w \<leftarrow> (if n_should_free n then (case s of Heap k \<Rightarrow> kfree k w | Pre _ \<Rightarrow> None) else Some w);
     free_entries es w
   })"

definition audit_free_names :: "'c nc \<Rightarrow> 'z nw \<Rightarrow> ('c nc \<times> 'z nw) option" where
  "audit_free_names ctx w = do {
     w \<leftarrow> free_entries (entries ctx) w;
     Some (ctx\<lparr>entries := [], name_count := 0, pwd := None\<rparr>, w)
   }"

section \<open>The trees leave the names alone\<close>

text \<open>What lies beyond the chain in the context, and beyond the chunks in the world.\<close>

definition same_more :: "'c tc \<times> 'z tw \<Rightarrow> 'c tc \<times> 'z tw \<Rightarrow> bool" where
  "same_more = (\<lambda>(ctx, w) (ctx', w'). tree_ctx.more ctx' = tree_ctx.more ctx \<and> tree_world.more w' = tree_world.more w)"

lemma same_more_refl [simp]: "same_more p p"
  by (simp add: same_more_def split: prod.splits)

lemma same_more_trans: "same_more p q \<Longrightarrow> same_more q r \<Longrightarrow> same_more p r"
  by (auto simp: same_more_def split: prod.splits)

lemma set_chunk_more: "set_chunk p i v ctx = Some ctx' \<Longrightarrow> tree_ctx.more ctx' = tree_ctx.more ctx"
  by (auto simp: set_chunk_def bind_eq_Some_conv)

lemma put_chunk_more: "audit_put_chunk c w = Some w' \<Longrightarrow> tree_world.more w' = tree_world.more w"
  by (auto simp: audit_put_chunk_def split: if_splits)

lemma put_tree_ref_more: "put_tree_ref c ctx = Some (b, ctx') \<Longrightarrow> tree_ctx.more ctx' = tree_ctx.more ctx"
  by (auto simp: put_tree_ref_def bind_eq_Some_conv Let_def split: if_splits option.splits dest!: set_chunk_more)

lemma kzalloc_more: "kzalloc n w = (r, w') \<Longrightarrow> tree_world.more w' = tree_world.more w"
  by (auto simp: kzalloc_def Let_def split: if_splits)

lemma grow_more: "grow_tree_refs ctx w = Some (b, ctx', w') \<Longrightarrow> same_more (ctx, w) (ctx', w')"
  by (auto simp: grow_tree_refs_def same_more_def bind_eq_Some_conv Let_def split: prod.splits option.splits if_splits dest!: kzalloc_more)

lemma drop_refs_more: "drop_refs q n lo ctx w = Some (ctx', w') \<Longrightarrow> same_more (ctx, w) (ctx', w')"
  by (induction n arbitrary: ctx w)
    (auto simp: bind_eq_Some_conv same_more_def split: if_splits dest!: put_chunk_more set_chunk_more)

lemma unroll_loop_more:
  assumes "unroll_loop q n ctx w = Some (q', n', ctx', w')" shows "same_more (ctx, w) (ctx', w')"
proof -
  have "\<forall>q' n' ctx' w'. r = (q', n', ctx', w') \<longrightarrow> same_more (ctx, w) (ctx', w')" if "unroll_loop q n ctx w = Some r" for r
  proof (rule unroll_loop.raw_induct [where P = "\<lambda>q n ctx w r. \<forall>q' n' ctx' w'. r = (q', n', ctx', w') \<longrightarrow> same_more (ctx, w) (ctx', w')", OF _ that])
    fix loop :: "nat option \<Rightarrow> nat \<Rightarrow> 'a tc \<Rightarrow> 'b tw \<Rightarrow> (nat option \<times> nat \<times> 'a tc \<times> 'b tw) option" and q n ctx w r
    assume IH: "\<And>q n ctx w r. loop q n ctx w = Some r \<Longrightarrow> \<forall>q' n' ctx' w'. r = (q', n', ctx', w') \<longrightarrow> same_more (ctx, w) (ctx', w')"
      and step: "(if q = trees ctx then Some (q, n, ctx, w)
      else do {
        (ctx, w) \<leftarrow> drop_refs q n 0 ctx w;
        p \<leftarrow> q;
        nd \<leftarrow> tree_nodes ctx p;
        loop (tr_next nd) 31 ctx w
      }) = Some r"
    show "\<forall>q' n' ctx' w'. r = (q', n', ctx', w') \<longrightarrow> same_more (ctx, w) (ctx', w')"
      using step by (auto simp: bind_eq_Some_conv split: if_splits dest!: IH drop_refs_more intro: same_more_trans)
  qed
  with assms show ?thesis by blast
qed

lemma unroll_more: "unroll_tree_refs p cnt ctx w = Some (ctx', w') \<Longrightarrow> same_more (ctx, w) (ctx', w')"
  by (auto simp: unroll_tree_refs_def bind_eq_Some_conv Let_def same_more_def split: if_splits prod.splits
      dest!: unroll_loop_more drop_refs_more)

lemma walk_up_more: "walk_up ds ctx w = Some (r, ctx', w') \<Longrightarrow> same_more (ctx, w) (ctx', w')"
proof (induction ds arbitrary: ctx w)
  case (Cons d ds)
  show ?case
  proof (cases d)
    case None
    with Cons show ?thesis by simp
  next
    case (Some c)
    then obtain stored ctx1 where put: "put_tree_ref c ctx = Some (stored, ctx1)" 
      and rest: "(if \<not> stored then Some (Some c, ctx1, get_chunk c w) else walk_up ds ctx1 (get_chunk c w)) = Some (r, ctx', w')"
      using Cons.prems by (auto simp: bind_eq_Some_conv Let_def)
    have s: "same_more (ctx, w) (ctx1, get_chunk c w)"
      using put_tree_ref_more [OF put] by (simp add: same_more_def get_chunk_def)
    show ?thesis
    proof (cases stored)
      case True
      with rest have "walk_up ds ctx1 (get_chunk c w) = Some (r, ctx', w')" by simp
      from same_more_trans [OF s Cons.IH [OF this]] show ?thesis .
    qed (use rest s in simp)
  qed
qed simp

lemma retry_walk_more:
  assumes "retry_walk walks raced p cnt n ctx w = Some (ctx', w')" shows "same_more (ctx, w) (ctx', w')"
proof -
  have "same_more (ctx, w) r" if "retry_walk walks raced p cnt n ctx w = Some r" for r
  proof (rule retry_walk.raw_induct [where P = "\<lambda>walks raced p cnt n ctx w r. same_more (ctx, w) r", OF _ that])
    fix loop :: "(nat \<Rightarrow> nat option list) \<Rightarrow> (nat \<Rightarrow> bool) \<Rightarrow> nat option \<Rightarrow> nat \<Rightarrow> nat \<Rightarrow> 'a tc \<Rightarrow> 'b tw \<Rightarrow> ('a tc \<times> 'b tw) option"
      and walks raced p cnt n ctx w r
    assume IH: "\<And>walks raced p cnt n ctx w r. loop walks raced p cnt n ctx w = Some r \<Longrightarrow> same_more (ctx, w) r"
      and step: "do {
     (dropped, ctx, w) \<leftarrow> walk_up (walks n) ctx w;
     (if raced n \<or> dropped \<noteq> None
      then (case dropped of
          None \<Rightarrow> do {
            (ctx, w) \<leftarrow> unroll_tree_refs p cnt ctx w;
            loop walks raced p cnt (Suc n) ctx w
          }
        | Some c \<Rightarrow> do {
            w \<leftarrow> audit_put_chunk c w;
            (grown, ctx, w) \<leftarrow> grow_tree_refs ctx w;
            (if grown then do {
               (ctx, w) \<leftarrow> unroll_tree_refs p cnt ctx w;
               loop walks raced p cnt (Suc n) ctx w
             }
             else do {
               (ctx, w) \<leftarrow> unroll_tree_refs p cnt ctx w;
               Some (audit_set_auditable ctx, w)
             })
          })
      else Some (ctx, w))
   } = Some r"
    have aud: "tree_ctx.more (audit_set_auditable ctx) = tree_ctx.more ctx" for ctx :: "'a tc" by (simp add: audit_set_auditable_def)
    obtain dropped ctx1 w1 where 1: "walk_up (walks n) ctx w = Some (dropped, ctx1, w1)" "same_more (ctx, w) (ctx1, w1)"
      using step walk_up_more by (fastforce simp: bind_eq_Some_conv)
    have again: "same_more (ctx, w) r" if u: "do { (ctx, w) \<leftarrow> unroll_tree_refs p cnt ctx2 w2; loop walks raced p cnt (Suc n) ctx w } = Some r"
      and s: "same_more (ctx, w) (ctx2, w2)" for ctx2 :: "'a tc" and w2 :: "'b tw"
    proof -
      obtain ctx3 w3 where 3: "unroll_tree_refs p cnt ctx2 w2 = Some (ctx3, w3)" "loop walks raced p cnt (Suc n) ctx3 w3 = Some r"
        using u by (auto simp: bind_eq_Some_conv)
      from same_more_trans [OF s same_more_trans [OF unroll_more [OF 3(1)] IH [OF 3(2)]]] show ?thesis .
    qed
    show "same_more (ctx, w) r"
    proof (cases dropped)
      case None
      show ?thesis
      proof (cases "raced n")
        case True
        with step 1(1) None have "do { (ctx, w) \<leftarrow> unroll_tree_refs p cnt ctx1 w1; loop walks raced p cnt (Suc n) ctx w } = Some r" by simp
        then show ?thesis using 1(2) by (rule again)
      next
        case False
        with step 1 None show ?thesis by simp
      qed
    next
      case (Some c)
      obtain w2 grown ctx3 w3 where 2: "audit_put_chunk c w1 = Some w2" "grow_tree_refs ctx1 w2 = Some (grown, ctx3, w3)"
        using step 1(1) Some by (auto simp: bind_eq_Some_conv)
      have "same_more (ctx1, w1) (ctx1, w2)" using put_chunk_more [OF 2(1)] by (simp add: same_more_def)
      then have s: "same_more (ctx, w) (ctx3, w3)" using 1(2) grow_more [OF 2(2)] by (blast intro: same_more_trans)
      show ?thesis
      proof (cases grown)
        case True
        with step 1(1) Some 2 have "do { (ctx, w) \<leftarrow> unroll_tree_refs p cnt ctx3 w3; loop walks raced p cnt (Suc n) ctx w } = Some r" by simp
        then show ?thesis using s by (rule again)
      next
        case False
        with step 1(1) Some 2 obtain ctx4 w4 where "unroll_tree_refs p cnt ctx3 w3 = Some (ctx4, w4)" "r = (audit_set_auditable ctx4, w4)"
          by (auto simp: bind_eq_Some_conv)
        then show ?thesis using s unroll_more same_more_trans aud by (fastforce simp: same_more_def)
      qed
    qed
  qed
  with assms show ?thesis by blast
qed

lemma handle_path_more: "handle_path walks raced ctx w = Some (ctx', w') \<Longrightarrow> same_more (ctx, w) (ctx', w')"
  unfolding handle_path_def by (rule retry_walk_more)

lemma handle_one_more: "handle_one marked chunk ctx w = Some (ctx', w') \<Longrightarrow> same_more (ctx, w) (ctx', w')"
  by (auto simp: handle_one_def bind_eq_Some_conv get_chunk_def audit_set_auditable_def same_more_def Let_def
      split: if_splits option.splits dest!: put_tree_ref_more grow_more put_chunk_more unroll_more)

lemma free_loop_more:
  assumes "free_loop p ctx w = Some (ctx', w')" shows "same_more (ctx, w) (ctx', w')"
proof -
  have "same_more (ctx, w) r" if "free_loop p ctx w = Some r" for r
  proof (rule free_loop.raw_induct [where P = "\<lambda>p ctx w r. same_more (ctx, w) r", OF _ that])
    fix loop :: "nat option \<Rightarrow> 'a tc \<Rightarrow> 'b tw \<Rightarrow> ('a tc \<times> 'b tw) option" and p ctx w r
    assume IH: "\<And>p ctx w r. loop p ctx w = Some r \<Longrightarrow> same_more (ctx, w) r"
      and step: "(case p of
        None \<Rightarrow> Some (ctx, w)
      | Some k \<Rightarrow> do {
          nd \<leftarrow> tree_nodes ctx k;
          w \<leftarrow> kfree k w;
          loop (tr_next nd) (ctx\<lparr>tree_nodes := (tree_nodes ctx)(k := None)\<rparr>) w
        }) = Some r"
    show "same_more (ctx, w) r"
      using step by (auto simp: bind_eq_Some_conv kfree_def same_more_def split: if_splits option.splits prod.splits dest!: IH)
  qed
  with assms show ?thesis by blast
qed

lemma free_trees_more: "free_tree_refs ctx w = Some (ctx', w') \<Longrightarrow> same_more (ctx, w) (ctx', w')"
  unfolding free_tree_refs_def by (rule free_loop_more)
lemma more_ctx:
  fixes ctx ctx' :: "'c nc"
  assumes "tree_ctx.more ctx' = tree_ctx.more ctx"
  shows "entries ctx' = entries ctx" "name_count ctx' = name_count ctx" "in_syscall ctx' = in_syscall ctx" "pwd ctx' = pwd ctx"
  using assms by (cases ctx; cases ctx'; simp)+

lemma more_world:
  fixes w w' :: "'z nw"
  assumes "tree_world.more w' = tree_world.more w"
  shows "files w' = files w"
  using assms by (cases w; cases w'; simp)

section \<open>The list in order\<close>

text \<open>The objects the entries are, and how many entries hold a name.\<close>

primrec slot_ids :: "slot \<Rightarrow> nat multiset" where
  "slot_ids (Pre j) = {#}"
| "slot_ids (Heap k) = {#k#}"

definition heap_ids :: "(slot \<times> audit_names) list \<Rightarrow> nat multiset" where
  "heap_ids es = (\<Sum>e\<leftarrow>es. slot_ids (fst e))"

definition holders :: "(slot \<times> audit_names) list \<Rightarrow> nat \<Rightarrow> nat" where
  "holders es k = count_list (map (\<lambda>e. n_name (snd e)) es) (Some k)"

lemma heap_ids_simps [simp]: "heap_ids [] = {#}" "heap_ids (e # es) = slot_ids (fst e) + heap_ids es" "heap_ids (es @ fs) = heap_ids es + heap_ids fs"
  by (simp_all add: heap_ids_def)

lemma held_simps [simp]: "holders [] k = 0" "holders (e # es) k = (if n_name (snd e) = Some k then 1 else 0) + holders es k" "holders (es @ fs) k = holders es k + holders fs k"
  by (simp_all add: holders_def)

definition in_place :: "nat \<Rightarrow> slot \<times> audit_names \<Rightarrow> bool" where
  "in_place l = (\<lambda>(s, n). (case s of Pre j \<Rightarrow> j < l \<and> \<not> n_should_free n | Heap _ \<Rightarrow> n_should_free n) \<and> n_ino n \<noteq> 0)"

definition list_ok :: "'c nc \<Rightarrow> bool" where
  "list_ok ctx \<longleftrightarrow> distinct (map fst (entries ctx)) \<and> name_count ctx = length (entries ctx) \<and> (\<forall>e \<in> set (entries ctx). in_place (length (entries ctx)) e)"

text \<open>
  The invariant: the chain of trees is a stack, the list is in order, a name has the references
  of others (\<open>ext\<close>) and one for each entry that holds it. The entry that a name of this call (\<open>L\<close>) points to is on
  the list and holds it; names of later calls (\<open>U\<close>) point to none yet.
\<close>

definition names_ok :: "nat set \<Rightarrow> nat set \<Rightarrow> bool \<Rightarrow> (nat \<Rightarrow> nat) \<Rightarrow> nat multiset \<Rightarrow> (nat \<Rightarrow> nat) \<Rightarrow> 'c nc \<Rightarrow> 'z nw \<Rightarrow> bool" where
  "names_ok L U sure rest B ext ctx w \<longleftrightarrow> (\<exists>a xs r. tree_stack sure rest (B + heap_ids (entries ctx)) a xs r ctx w) \<and> list_ok ctx \<and>
     (\<forall>k. f_ref (files w k) = ext k + holders (entries ctx) k) \<and>
     (\<forall>k s. k \<in> L \<longrightarrow> f_aname (files w k) = Some s \<longrightarrow> (\<exists>n. entry_of s ctx = Some n \<and> n_name n = Some k)) \<and>
     (\<forall>k \<in> U. k \<notin> L \<and> f_aname (files w k) = None)"

lemma tree_names:
  fixes ctx :: "'c nc"
  shows "tree_marked sure rest B a p cnt m xs r (ctx\<lparr>entries := es\<rparr>) w = tree_marked sure rest B a p cnt m xs r ctx w"
    "tree_marked sure rest B a p cnt m xs r (ctx\<lparr>name_count := n\<rparr>) w = tree_marked sure rest B a p cnt m xs r ctx w"
    "tree_marked sure rest B a p cnt m xs r (ctx\<lparr>pwd := q\<rparr>) w = tree_marked sure rest B a p cnt m xs r ctx w"
  by (simp_all add: tree_marked_def chain_holds_def)

lemma tree_files: "tree_marked sure rest B a p cnt m xs r ctx (w\<lparr>files := f\<rparr>) = tree_marked sure rest B a p cnt m xs r ctx w"
  by (simp add: tree_marked_def)

lemma tree_alloc:
  assumes "tree_marked sure rest B a p cnt m xs r ctx w" and "kzalloc n w = (Some (k, bs), w')"
  shows "tree_marked sure rest (B + {#k#}) a p cnt m xs r ctx w'" "tree_world.more w' = tree_world.more w"
proof -
  have k: "k = knext w" "w' = w\<lparr>knext := Suc (knext w), klive := knext w # klive w\<rparr>"
    using assms(2) by (auto simp: kzalloc_def Let_def split: if_splits)
  show "tree_marked sure rest (B + {#k#}) a p cnt m xs r ctx w'"
    using assms(1) unfolding tree_marked_def by (elim exE conjE, intro exI conjI) (assumption | force simp: k)+
  show "tree_world.more w' = tree_world.more w" by (simp add: k)
qed

lemma tree_alloc_fresh:
  assumes "tree_marked sure rest B a p cnt m xs r ctx w" and "kzalloc n w = (Some (k, bs), w')"
  shows "k \<notin># B"
proof
  assume "k \<in># B"
  obtain ids where "mset (klive w) = B + mset ids" "\<forall>k \<in> set (klive w). k < knext w" using assms(1) by (auto simp: tree_marked_def)
  moreover from this(1) \<open>k \<in># B\<close> have "k \<in># mset (klive w)" by simp
  then have "k \<in> set (klive w)" by (simp only: in_multiset_in_set)
  moreover have "k = knext w" using assms(2) by (simp add: kzalloc_def Let_def split: if_splits)
  ultimately show False by auto
qed

lemma tree_alloc_failed:
  assumes "tree_marked sure rest B a p cnt m xs r ctx w" and "kzalloc n w = (None, w')"
  shows "tree_marked sure rest B a p cnt m xs r ctx w'" "\<not> sure" "tree_world.more w' = tree_world.more w"
proof -
  have k: "kfail w (knext w)" "w' = w\<lparr>knext := Suc (knext w)\<rparr>"
    using assms(2) by (simp_all add: kzalloc_def Let_def split: if_splits)
  show "tree_marked sure rest B a p cnt m xs r ctx w'"
    using assms(1) unfolding tree_marked_def by (elim exE conjE, intro exI conjI) (assumption | force simp: k)+
  show "\<not> sure" "tree_world.more w' = tree_world.more w" using assms(1) k by (auto simp: tree_marked_def)
qed

lemma tree_free:
  fixes w :: "'z tw"
  assumes "tree_marked sure rest (B + {#k#}) a p cnt m xs r ctx w"
  shows "ok (kfree k w) (\<lambda>w'. tree_marked sure rest B a p cnt m xs r ctx w' \<and> tree_world.more w' = tree_world.more w)"
proof -
  obtain ids where "mset (klive w) = (B + {#k#}) + mset ids" using assms by (auto simp: tree_marked_def)
  then have k: "k \<in># mset (klive w)" by simp
  then have l: "set (remove1 k (klive w)) \<subseteq> set (klive w)" "k \<in> set (klive w)" by (simp_all add: set_remove1_subset)
  have "tree_marked sure rest B a p cnt m xs r ctx (w\<lparr>klive := remove1 k (klive w)\<rparr>)"
    using assms l(1) unfolding tree_marked_def by (elim exE conjE, intro exI conjI) (assumption | force)+
  then show ?thesis using l(2) by (simp add: ok_kfree)
qed

section \<open>Entries\<close>

lemma change_entry_simps [simp]:
  "name_count (change_entry s f ctx) = name_count ctx" "in_syscall (change_entry s f ctx) = in_syscall ctx" "pwd (change_entry s f ctx) = pwd ctx"
  "map fst (entries (change_entry s f ctx)) = map fst (entries ctx)" "length (entries (change_entry s f ctx)) = length (entries ctx)"
  "heap_ids (entries (change_entry s f ctx)) = heap_ids (entries ctx)"
  "tree_marked sure rest B a p cnt m xs r (change_entry s f ctx) w = tree_marked sure rest B a p cnt m xs r ctx w"
  by (simp_all add: change_entry_def tree_names comp_def case_prod_unfold heap_ids_def)

lemma map_of_change: "map_of (map (\<lambda>(t, n). (t, if t = s then f n else n)) es) t = (if t = s then map_option f (map_of es t) else map_of es t)"
  by (induction es) auto

lemma entry_change: "entry_of t (change_entry s f ctx) = (if t = s then map_option f (entry_of t ctx) else entry_of t ctx)"
  using map_of_change [of s f "entries ctx" t] by (simp add: entry_of_def change_entry_def)

lemma held_keep: "(\<And>n. n_name (f n) = n_name n) \<Longrightarrow> holders (entries (change_entry s f ctx)) = holders (entries ctx)"
  by (auto simp: holders_def change_entry_def fun_eq_iff comp_def case_prod_unfold if_distrib cong: if_cong)

lemma place_keep:
  assumes "list_ok ctx" and "\<And>n. n_should_free (f n) = n_should_free n" and "\<And>n. n_ino n \<noteq> 0 \<Longrightarrow> n_ino (f n) \<noteq> 0"
  shows "list_ok (change_entry s f ctx)"
proof -
  have "in_place l (t, if t = s then f n else n)" if "in_place l (t, n)" for l t n
    using that assms(2,3) by (auto simp: in_place_def split: slot.splits)
  then show ?thesis using assms(1) by (auto simp: list_ok_def change_entry_def comp_def case_prod_unfold)
qed

text \<open>A change of an entry that keeps its name; a name for an entry that has none.\<close>

lemma names_keep:
  assumes "names_ok L U sure rest B ext ctx w" and "\<And>n. n_name (f n) = n_name n" and "\<And>n. n_should_free (f n) = n_should_free n"
    and "\<And>n. n_ino n \<noteq> 0 \<Longrightarrow> n_ino (f n) \<noteq> 0"
  shows "names_ok L U sure rest B ext (change_entry s f ctx) w"
proof -
  have "\<exists>n. entry_of t (change_entry s f ctx) = Some n \<and> n_name n = Some k" if "\<exists>n. entry_of t ctx = Some n \<and> n_name n = Some k" for t k
    using that assms(2) by (auto simp: entry_change)
  then show ?thesis using assms(1) place_keep [of ctx f s] held_keep [of f s ctx] assms(2-)
    by (simp add: names_ok_def)
qed

lemma held_name:
  assumes "distinct (map fst es)" and "map_of es s = Some n" and "n_name n = None" and "\<And>n. n_name (f n) = Some k"
  shows "holders (map (\<lambda>(t, n). (t, if t = s then f n else n)) es) j = (if j = k then 1 else 0) + holders es j"
  using assms(1,2)
proof (induction es)
  case (Cons e es)
  obtain t m where e: "e = (t, m)" by force
  show ?case
  proof (cases "t = s")
    case True
    then have "map (\<lambda>(t, n). (t, if t = s then f n else n)) es = es"
      using Cons.prems(1) e by (intro map_idI) force
    then show ?thesis using Cons.prems True e assms(3,4) by simp
  next
    case False
    then show ?thesis using Cons e by simp
  qed
qed simp

lemma names_name:
  assumes "names_ok L U sure rest B ext ctx w" and "entry_of s ctx = Some n" and "n_name n = None"
    and "\<And>n. n_name (f n) = Some k" and "\<And>n. n_should_free (f n) = n_should_free n" and "\<And>n. n_ino (f n) = n_ino n"
  shows "names_ok L U sure rest B ext (change_entry s f ctx) (hold_name k w)"
proof -
  have d: "distinct (map fst (entries ctx))" and l: "list_ok ctx" using assms(1) by (simp_all add: names_ok_def list_ok_def)
  have h: "holders (entries (change_entry s f ctx)) j = (if j = k then 1 else 0) + holders (entries ctx) j" for j
    using held_name [of "entries ctx" s n f k, OF d _ assms(3,4)] assms(2) by (simp add: entry_of_def change_entry_def)
  have e: "\<exists>n. entry_of t (change_entry s f ctx) = Some n \<and> n_name n = Some j" if "\<exists>n. entry_of t ctx = Some n \<and> n_name n = Some j" for t j
    using that assms(2,3) by (auto simp: entry_change)
  show ?thesis
    using assms(1) place_keep [OF l, of f s] assms(5,6) h e
    by (simp add: names_ok_def hold_name_def tree_files)
qed
lemma in_place_mono: "in_place l e \<Longrightarrow> l \<le> m \<Longrightarrow> in_place m e"
  by (auto simp: in_place_def split: slot.splits)

lemma heap_slot: "Heap k \<in> set (map fst es) \<Longrightarrow> k \<in># heap_ids es"
  by (induction es) auto

abbreviation add_entry :: "slot \<Rightarrow> audit_names \<Rightarrow> 'c nc \<Rightarrow> 'c nc" where
  "add_entry s n ctx \<equiv> ctx\<lparr>entries := entries ctx @ [(s, n)], name_count := Suc (name_count ctx)\<rparr>"

lemma entry_add: "entry_of t (add_entry s n ctx) = (case entry_of t ctx of Some m \<Rightarrow> Some m | None \<Rightarrow> if t = s then Some n else None)"
  by (auto simp: entry_of_def map_add_def split: option.splits)

lemma entry_none: "s \<notin> set (map fst (entries ctx)) \<longleftrightarrow> entry_of s ctx = None"
  by (simp add: entry_of_def map_of_eq_None_iff)

lemma names_add:
  assumes "names_ok L U sure rest B ext ctx w" and "tree_stack sure rest (B + heap_ids (entries ctx) + slot_ids s) a xs r ctx w'"
    and "s \<notin> set (map fst (entries ctx))" and "n_name n = None" and "in_place (Suc (length (entries ctx))) (s, n)" and "files w' = files w"
  shows "names_ok L U sure rest B ext (add_entry s n ctx) w'"
proof -
  have "list_ok (add_entry s n ctx)" using assms(1,3,5) in_place_mono
    by (fastforce simp: names_ok_def list_ok_def)
  moreover have "\<exists>m. entry_of t (add_entry s n ctx) = Some m \<and> n_name m = Some k" if "\<exists>m. entry_of t ctx = Some m \<and> n_name m = Some k" for t k
    using that by (auto simp: entry_add)
  moreover have "tree_stack sure rest (B + heap_ids (entries (add_entry s n ctx))) a xs r (add_entry s n ctx) w'"
    using assms(2) by (simp add: tree_names add.assoc)
  ultimately show ?thesis using assms(1,4,6) by (auto simp: names_ok_def simp del: split_paired_Ex)
qed

lemma names_same:
  assumes "names_ok L U sure rest B ext ctx w" and "tree_stack sure rest (B + heap_ids (entries ctx)) a xs r ctx' w'"
    and "tree_ctx.more ctx' = tree_ctx.more ctx" and "files w' = files w"
  shows "names_ok L U sure rest B ext ctx' w'"
  using assms more_ctx [OF assms(3)] by (auto simp: names_ok_def list_ok_def entry_of_def simp del: split_paired_Ex)

lemma alloc_nameE:
  fixes w :: "'z nw"
  assumes h: "names_ok L U sure rest B ext ctx w"
  obtains (none) w' where "audit_alloc_name E ty ctx w = (None, ctx, w')" "names_ok L U sure rest B ext ctx w'" "\<not> sure" "files w' = files w"
  | (new) s n w' where "audit_alloc_name E ty ctx w = (Some s, add_entry s n ctx, w')" "names_ok L U sure rest B ext (add_entry s n ctx) w'"
      "files w' = files w" "entry_of s ctx = None" "n_name n = None" "n_type n = ty" "n_ino n = AUDIT_INO_UNSET"
proof -
  obtain a xs r where t: "tree_stack sure rest (B + heap_ids (entries ctx)) a xs r ctx w" using h by (auto simp: names_ok_def)
  have l: "name_count ctx = length (entries ctx)" "\<forall>e \<in> set (entries ctx). in_place (length (entries ctx)) e"
    using h by (simp_all add: names_ok_def list_ok_def)
  let ?n = "\<lambda>free. zero_name\<lparr>n_should_free := free, n_ino := AUDIT_INO_UNSET, n_type := ty\<rparr>"
  have z: "n_name (?n b) = None" "n_should_free (?n b) = b" "n_ino (?n b) \<noteq> 0" for b by (simp_all add: zero_name_def)
  show thesis
  proof (cases "name_count ctx < NAMES E")
    case True
    let ?s = "Pre (name_count ctx)"
    have f: "?s \<notin> set (map fst (entries ctx))" using l by (fastforce simp: in_place_def)
    have "names_ok L U sure rest B ext (add_entry ?s (?n False) ctx) w"
      by (rule names_add [OF h _ f z(1)]) (use t l(1) z in \<open>simp_all add: in_place_def\<close>)
    then show thesis using new [of ?s "?n False" w] True z f [unfolded entry_none] by (simp add: audit_alloc_name_def Let_def)
  next
    case False
    obtain o' w' where k: "kzalloc (sizeof_audit_names E) w = (o', w')" by force
    show thesis
    proof (cases o')
      case None
      note n = tree_alloc_failed [OF t k [unfolded None]]
      have f: "files w' = files w" by (rule more_world [OF n(3)])
      have "names_ok L U sure rest B ext ctx w'" by (rule names_same [OF h n(1) refl f])
      then show thesis using none n(2) f k None False by (simp add: audit_alloc_name_def)
    next
      case (Some p)
      obtain i bs where p: "p = (i, bs)" by force
      note k' = k [unfolded Some p]
      have f: "files w' = files w" by (rule more_world [OF tree_alloc(2) [OF t k']])
      have fresh: "Heap i \<notin> set (map fst (entries ctx))" using tree_alloc_fresh [OF t k'] heap_slot by fastforce
      have "names_ok L U sure rest B ext (add_entry (Heap i) (?n True) ctx) w'"
        by (rule names_add [OF h _ fresh z(1) _ f]) (use tree_alloc(1) [OF t k'] z in \<open>simp_all add: in_place_def\<close>)
      then show thesis using new [of "Heap i" "?n True" w'] k' fresh [unfolded entry_none] f z False by (simp add: audit_alloc_name_def Let_def)
    qed
  qed
qed

section \<open>Hooks\<close>

text \<open>Only the entry \<open>s\<close> changes; a name has a new entry.\<close>

definition only_at :: "slot \<Rightarrow> 'c nc \<Rightarrow> 'c nc \<Rightarrow> bool" where
  "only_at s ctx ctx' \<longleftrightarrow> in_syscall ctx' = in_syscall ctx \<and> (\<forall>t. t \<noteq> s \<longrightarrow> entry_of t ctx' = entry_of t ctx)"

definition named :: "nat \<Rightarrow> 'c nc \<Rightarrow> 'c nc \<Rightarrow> bool" where
  "named k ctx ctx' \<longleftrightarrow> (\<exists>s n. only_at s ctx ctx' \<and> entry_of s ctx = None \<and> entry_of s ctx' = Some n \<and> n_name n = Some k \<and>
     n_len n = AUDIT_NAME_FULL \<and> n_type n = AUDIT_TYPE_UNKNOWN)"

lemma getname_ok:
  fixes w :: "'z nw"
  assumes h: "names_ok L U sure rest B ext ctx w" and name: "name \<in> L"
  shows "case audit_getname E name ctx w of (ctx', w') \<Rightarrow> names_ok L U sure rest B ext ctx' w' \<and> in_syscall ctx' = in_syscall ctx \<and>
    (in_syscall ctx \<longrightarrow> named name ctx ctx' \<or> \<not> sure)"
proof (cases "in_syscall ctx")
  case False
  then show ?thesis using h by (simp add: audit_getname_def)
next
  case True
  show ?thesis
  proof (rule alloc_nameE [OF h, of E AUDIT_TYPE_UNKNOWN])
    fix w' assume "audit_alloc_name E AUDIT_TYPE_UNKNOWN ctx w = (None, ctx, w')" "names_ok L U sure rest B ext ctx w'" "\<not> sure"
    then show ?thesis using True by (simp add: audit_getname_def)
  next
    fix s n w1
    assume 1: "audit_alloc_name E AUDIT_TYPE_UNKNOWN ctx w = (Some s, add_entry s n ctx, w1)" "names_ok L U sure rest B ext (add_entry s n ctx) w1"
      "entry_of s ctx = None" "n_name n = None" "n_type n = AUDIT_TYPE_UNKNOWN"
    let ?f = "\<lambda>n. n\<lparr>n_name := Some name, n_len := AUDIT_NAME_FULL\<rparr>"
    define ctx2 where "ctx2 = change_entry s ?f (add_entry s n ctx)"
    define w2 where "w2 = hold_name name w1"
    have e: "entry_of s (add_entry s n ctx) = Some n" using 1(3) by (simp add: entry_add)
    have 2: "names_ok L U sure rest B ext ctx2 w2" unfolding ctx2_def w2_def
      by (rule names_name [OF 1(2) e 1(4)]) simp_all
    have e2: "entry_of s ctx2 = Some (?f n)" using e by (simp add: ctx2_def entry_change)
    define w3 where "w3 = hold_name name (w1\<lparr>files := (files w1)(name := (files w1 name)\<lparr>f_aname := Some s\<rparr>)\<rparr>)"
    have w3: "w3 = w2\<lparr>files := (files w2)(name := (files w2 name)\<lparr>f_aname := Some s\<rparr>)\<rparr>"
      unfolding w3_def w2_def hold_name_def by (cases "files w1 name") simp
    have 3: "names_ok L U sure rest B ext ctx2 w3"
      using 2 e2 name unfolding w3 names_ok_def tree_files by (auto simp del: split_paired_Ex)
    have "names_ok L U sure rest B ext (ctx2\<lparr>pwd := p\<rparr>) w3" for p
      using 3 by (auto simp: names_ok_def tree_names list_ok_def entry_of_def simp del: split_paired_Ex)
    moreover have "in_syscall ctx2 = in_syscall ctx" by (simp add: ctx2_def)
    moreover have "named name ctx (if pwd ctx2 = None then ctx2\<lparr>pwd := Some (fs_pwd E)\<rparr> else ctx2)"
    proof -
      have e: "entry_of t (if pwd ctx2 = None then ctx2\<lparr>pwd := Some (fs_pwd E)\<rparr> else ctx2) = entry_of t ctx2" for t by (simp add: entry_of_def)
      have "entry_of t ctx2 = entry_of t ctx" if "t \<noteq> s" for t
        using that by (auto simp: ctx2_def entry_change entry_add split: option.splits)
      then have "only_at s ctx (if pwd ctx2 = None then ctx2\<lparr>pwd := Some (fs_pwd E)\<rparr> else ctx2)"
        unfolding only_at_def e by (simp add: ctx2_def)
      then show ?thesis using e2 1(3,5) e unfolding named_def by (intro exI [of _ s] exI [of _ "?f n"]) simp
    qed
    moreover have "audit_getname E name ctx w = (if pwd ctx2 = None then ctx2\<lparr>pwd := Some (fs_pwd E)\<rparr> else ctx2, w3)"
      using 1(1) True by (simp add: audit_getname_def Let_def ctx2_def w3_def)
    ultimately show ?thesis using 3 by simp
  qed
qed

lemma names_ext:
  assumes "names_ok L U sure rest B ext ctx w" shows "names_ok L U sure rest B (one_more ext k) ctx (hold_name k w)"
  using assms by (auto simp: names_ok_def hold_name_def tree_files simp del: split_paired_Ex)

lemma reusename_ok:
  assumes "names_ok L U sure rest B ext ctx w"
  shows "case audit_reusename uptr ctx w of (r, w') \<Rightarrow> names_ok L U sure rest B (case r of None \<Rightarrow> ext | Some k \<Rightarrow> one_more ext k) ctx w'"
  using assms by (auto simp: audit_reusename_def find_Some_iff names_ext split: option.splits)
lemma copy_inode_simps [simp]:
  "n_name (audit_copy_inode c i n) = n_name n" "n_should_free (audit_copy_inode c i n) = n_should_free n" "n_type (audit_copy_inode c i n) = n_type n"
  "n_ino (audit_copy_inode c i n) = i_ino i" "n_dev (audit_copy_inode c i n) = i_dev i" "n_mode (audit_copy_inode c i n) = i_mode i"
  "n_uid (audit_copy_inode c i n) = i_uid i" "n_gid (audit_copy_inode c i n) = i_gid i" "n_rdev (audit_copy_inode c i n) = i_rdev i"
  "n_osid (audit_copy_inode c i n) = i_sid i"
  by (simp_all add: audit_copy_inode_def audit_copy_fcaps_def split: option.splits sum.splits prod.splits)

text \<open>An entry describes an inode that was looked up.\<close>

definition describes :: "inode \<Rightarrow> bool \<Rightarrow> audit_names \<Rightarrow> bool" where
  "describes i parent n \<longleftrightarrow> n_ino n = i_ino i \<and> n_dev n = i_dev i \<and> n_mode n = i_mode i \<and> n_uid n = i_uid i \<and> n_gid n = i_gid i \<and>
     n_rdev n = i_rdev i \<and> n_osid n = i_sid i \<and> n_type n = (if parent then AUDIT_TYPE_PARENT else AUDIT_TYPE_NORMAL)"

definition calm_dentry :: "dentry \<Rightarrow> bool" where
  "calm_dentry d \<longleftrightarrow> calm (Path (d_walks d) (d_raced d)) \<and> i_ino (d_inode d) \<noteq> 0"

lemma handle_path_names:
  fixes w :: "'z nw"
  assumes h: "names_ok L U sure rest B ext ctx w" and c: "calm (Path walks raced)"
  shows "ok (handle_path walks raced ctx w) (\<lambda>(ctx', w'). names_ok L U sure rest B ext ctx' w' \<and> entries ctx' = entries ctx \<and>
    in_syscall ctx' = in_syscall ctx \<and> files w' = files w)"
proof -
  obtain a xs r where t: "tree_stack sure rest (B + heap_ids (entries ctx)) a xs r ctx w" using h by (auto simp: names_ok_def)
  from tree_exec_ok [OF t c] obtain ctx' w' a' xs' r' where 1: "handle_path walks raced ctx w = Some (ctx', w')"
    "tree_stack sure rest (B + heap_ids (entries ctx)) a' xs' r' ctx' w'" by (auto simp del: split_paired_Ex elim!: okE)
  have m: "tree_ctx.more ctx' = tree_ctx.more ctx" "files w' = files w"
    using handle_path_more [OF 1(1)] more_world by (auto simp: same_more_def)
  then show ?thesis using names_same [OF h 1(2) m] more_ctx [OF m(1)] m(2) 1(1) by simp
qed

lemma handle_one_names:
  fixes w :: "'z nw"
  assumes h: "names_ok L U sure rest B ext ctx w"
  shows "ok (handle_one marked chunk ctx w) (\<lambda>(ctx', w'). names_ok L U sure rest B ext ctx' w' \<and> in_syscall ctx' = in_syscall ctx)"
proof -
  obtain a xs r where t: "tree_stack sure rest (B + heap_ids (entries ctx)) a xs r ctx w" using h by (auto simp: names_ok_def)
  from tree_exec_ok [OF t, of "One marked chunk"] obtain ctx' w' a' xs' r' where 1: "handle_one marked chunk ctx w = Some (ctx', w')"
    "tree_stack sure rest (B + heap_ids (entries ctx)) a' xs' r' ctx' w'" by (auto simp del: split_paired_Ex elim!: okE)
  have m: "tree_ctx.more ctx' = tree_ctx.more ctx" "files w' = files w"
    using handle_one_more [OF 1(1)] more_world by (auto simp: same_more_def)
  then show ?thesis using names_same [OF h 1(2) m] more_ctx [OF m(1)] m(2) 1(1) by simp
qed

lemma fill_inode_ok:
  fixes w :: "'z nw"
  assumes h: "names_ok L U sure rest B ext ctx w" and c: "calm_dentry d" and e: "entry_of s ctx = Some n"
  shows "ok (fill_inode E d parent hidden s ctx w) (\<lambda>(ctx', w'). names_ok L U sure rest B ext ctx' w' \<and> only_at s ctx ctx' \<and>
    (\<exists>n'. entry_of s ctx' = Some n' \<and> n_name n' = n_name n \<and> describes (d_inode d) parent n'))"
proof -
  define f where "f = (\<lambda>n :: audit_names. if parent then n\<lparr>n_len := (case n_name n of Some k \<Rightarrow> parent_len E (text_of w k) | None \<Rightarrow> AUDIT_NAME_FULL),
                        n_type := AUDIT_TYPE_PARENT, n_hidden := n_hidden n \<or> hidden\<rparr>
       else n\<lparr>n_len := AUDIT_NAME_FULL, n_type := AUDIT_TYPE_NORMAL\<rparr>)"
  have f: "n_name (f n) = n_name n" "n_should_free (f n) = n_should_free n" "n_ino (f n) = n_ino n"
    "n_type (f n) = (if parent then AUDIT_TYPE_PARENT else AUDIT_TYPE_NORMAL)" for n by (simp_all add: f_def)
  have h1: "names_ok L U sure rest B ext (change_entry s f ctx) w" by (rule names_keep [OF h]) (simp_all add: f)
  from handle_path_names [OF h1, of "d_walks d" "d_raced d"] c obtain ctx2 w2 where
    2: "handle_path (d_walks d) (d_raced d) (change_entry s f ctx) w = Some (ctx2, w2)" "names_ok L U sure rest B ext ctx2 w2"
      "entries ctx2 = entries (change_entry s f ctx)" "in_syscall ctx2 = in_syscall ctx"
    by (auto simp: calm_dentry_def elim!: okE)
  have 3: "names_ok L U sure rest B ext (change_entry s (audit_copy_inode (d_caps d) (d_inode d)) ctx2) w2"
    by (rule names_keep [OF 2(2)]) (use c in \<open>simp_all add: calm_dentry_def\<close>)
  have e2: "entry_of t ctx2 = entry_of t (change_entry s f ctx)" for t using 2(3) by (simp add: entry_of_def)
  show ?thesis using 2(1,4) 3 e
    by (simp add: fill_inode_def f_def [symmetric] only_at_def entry_change e2 describes_def f)
qed
lemma findE:
  assumes "find P xs = Some x" shows "x \<in> set xs \<and> P x"
  using assms by (metis find_Some_iff nth_mem)

lemma entry_in_list:
  "names_ok L U sure rest B ext ctx w \<Longrightarrow> (s, n) \<in> set (entries ctx) \<Longrightarrow> entry_of s ctx = Some n"
  by (simp add: names_ok_def list_ok_def entry_of_def)

lemma entry_ino: "names_ok L U sure rest B ext ctx w \<Longrightarrow> (s, n) \<in> set (entries ctx) \<Longrightarrow> n_ino n \<noteq> 0"
  by (auto simp: names_ok_def list_ok_def in_place_def)

text \<open>An entry that serves a lookup: it holds the name, or it is of the same inode.\<close>

definition serves :: "nat \<Rightarrow> inode \<Rightarrow> bool \<Rightarrow> audit_names \<Rightarrow> bool" where
  "serves k i parent n \<longleftrightarrow>
     (if parent then n_type n = AUDIT_TYPE_PARENT \<or> n_type n = AUDIT_TYPE_UNKNOWN else n_type n \<noteq> AUDIT_TYPE_PARENT) \<and>
     (n_name n = Some k \<or> n_ino n = i_ino i \<and> n_dev n = i_dev i)"

lemma find_inode_ok:
  assumes h: "names_ok L U sure rest B ext ctx w" and l: "\<forall>k. name = Some k \<longrightarrow> k \<in> L"
  shows "ok (find_inode name i parent ctx w) (\<lambda>r. \<forall>s. r = Some s \<longrightarrow> (\<exists>k n. name = Some k \<and> entry_of s ctx = Some n \<and> serves k i parent n))"
proof (cases name)
  case None
  then show ?thesis by (simp add: find_inode_def)
next
  case (Some k)
  define searched where "searched = map_option fst (find (\<lambda>(s, n). inode_matches w k i parent n) (rev (entries ctx)))"
  have s: "\<exists>n. entry_of s ctx = Some n \<and> serves k i parent n" if found: "searched = Some s" for s
  proof -
    obtain n where "find (\<lambda>(s, n). inode_matches w k i parent n) (rev (entries ctx)) = Some (s, n)"
      using found by (auto simp: searched_def)
    then have n: "(s, n) \<in> set (entries ctx)" "inode_matches w k i parent n"
      using findE by fastforce+
    then show ?thesis using entry_in_list [OF h n(1)] entry_ino [OF h n(1)] by (simp add: inode_matches_def serves_def type_fits_def)
  qed
  show ?thesis
  proof (cases "f_aname (files w k)")
    case None
    then show ?thesis using Some s by (simp add: find_inode_def searched_def)
  next
    case (Some t)
    have "\<forall>k s. k \<in> L \<longrightarrow> f_aname (files w k) = Some s \<longrightarrow> (\<exists>n. entry_of s ctx = Some n \<and> n_name n = Some k)" using h by (simp add: names_ok_def)
    with Some l \<open>name = Some k\<close> obtain n where "entry_of t ctx = Some n" "n_name n = Some k" by blast
    then show ?thesis using Some \<open>name = Some k\<close> s by (auto simp: find_inode_def searched_def [symmetric] serves_def type_fits_def)
  qed
qed

definition looked_up :: "nat option \<Rightarrow> inode \<Rightarrow> bool \<Rightarrow> 'c nc \<Rightarrow> 'c nc \<Rightarrow> bool" where
  "looked_up name i parent ctx ctx' \<longleftrightarrow> (\<exists>s n'. only_at s ctx ctx' \<and> entry_of s ctx' = Some n' \<and> describes i parent n' \<and>
     (case entry_of s ctx of
        None \<Rightarrow> n_name n' = name
      | Some n \<Rightarrow> n_name n' = n_name n \<and> (\<exists>k. name = Some k \<and> serves k i parent n)))"

lemma audit_inode_ok:
  fixes w :: "'z nw"
  assumes h: "names_ok L U sure rest B ext ctx w" and c: "calm_dentry d" and l: "\<forall>k. name = Some k \<longrightarrow> k \<in> L"
  shows "ok (audit_inode E name d parent hidden ctx w) (\<lambda>(ctx', w'). names_ok L U sure rest B ext ctx' w' \<and> in_syscall ctx' = in_syscall ctx \<and>
    (if in_syscall ctx then looked_up name (d_inode d) parent ctx ctx' \<or> \<not> sure \<and> ctx' = ctx else ctx' = ctx))"
proof (cases "in_syscall ctx")
  case False
  then show ?thesis using h by (simp add: audit_inode_def)
next
  case True
  have fill: "ok (fill_inode E d parent hidden s ctx1 w1) (\<lambda>(ctx', w'). names_ok L U sure rest B ext ctx' w' \<and> in_syscall ctx' = in_syscall ctx \<and>
      (looked_up name (d_inode d) parent ctx ctx' \<or> \<not> sure \<and> ctx' = ctx))"
    if h1: "names_ok L U sure rest B ext ctx1 w1" and e: "entry_of s ctx1 = Some n1" and o1: "only_at s ctx ctx1"
      and n: "case entry_of s ctx of None \<Rightarrow> n_name n1 = name | Some n \<Rightarrow> n_name n1 = n_name n \<and> (\<exists>k. name = Some k \<and> serves k (d_inode d) parent n)"
    for s n1 and ctx1 :: "'a nc" and w1 :: "'z nw"
    by (rule ok_mono [OF fill_inode_ok [OF h1 c e]])
      (use o1 n in \<open>auto simp: looked_up_def only_at_def split: option.splits intro!: exI [of _ s]\<close>)
  from find_inode_ok [OF h l, of "d_inode d" parent] obtain found where f: "find_inode name (d_inode d) parent ctx w = Some found"
    "\<And>s. found = Some s \<Longrightarrow> \<exists>k n. name = Some k \<and> entry_of s ctx = Some n \<and> serves k (d_inode d) parent n" by (auto elim!: okE)
  show ?thesis
  proof (cases found)
    case (Some s)
    then obtain k n where n: "name = Some k" "entry_of s ctx = Some n" "serves k (d_inode d) parent n" using f(2) by blast
    show ?thesis using fill [OF h n(2), of ] n f(1) Some True by (simp add: audit_inode_def only_at_def)
  next
    case None
    show ?thesis
    proof (rule alloc_nameE [OF h, of E AUDIT_TYPE_UNKNOWN])
      fix w' assume "audit_alloc_name E AUDIT_TYPE_UNKNOWN ctx w = (None, ctx, w')" "names_ok L U sure rest B ext ctx w'" "\<not> sure"
      then show ?thesis using True f(1) None by (simp add: audit_inode_def)
    next
      fix s n w1
      assume 1: "audit_alloc_name E AUDIT_TYPE_UNKNOWN ctx w = (Some s, add_entry s n ctx, w1)" "names_ok L U sure rest B ext (add_entry s n ctx) w1"
        "entry_of s ctx = None" "n_name n = None"
      have e: "entry_of s (add_entry s n ctx) = Some n" using 1(3) by (simp add: entry_add)
      have o1: "only_at s ctx (add_entry s n ctx)" by (auto simp: only_at_def entry_add split: option.splits)
      show ?thesis
      proof (cases name)
        case None
        then show ?thesis using fill [OF 1(2) e o1] 1 f(1) True \<open>found = None\<close> by (simp add: audit_inode_def)
      next
        case (Some k)
        let ?f = "\<lambda>n :: audit_names. n\<lparr>n_name := Some k\<rparr>"
        have h2: "names_ok L U sure rest B ext (change_entry s ?f (add_entry s n ctx)) (hold_name k w1)"
          by (rule names_name [OF 1(2) e 1(4)]) simp_all
        have e2: "entry_of s (change_entry s ?f (add_entry s n ctx)) = Some (?f n)" using e by (simp add: entry_change)
        have o2: "only_at s ctx (change_entry s ?f (add_entry s n ctx))" using o1 by (simp add: only_at_def entry_change)
        show ?thesis using fill [OF h2 e2 o2] 1(1,3) f(1) True \<open>found = None\<close> Some by (simp add: audit_inode_def)
      qed
    qed
  qed
qed
lemma known_as_simps [simp]:
  "n_name (known_as t n) = n_name n" "n_should_free (known_as t n) = n_should_free n" "n_ino (known_as t n) = n_ino n" "n_dev (known_as t n) = n_dev n"
  by (simp_all add: known_as_def)

lemma claim_entryE:
  assumes h: "names_ok L U sure rest B ext ctx w"
  obtains (none) "claim_entry P type ctx = (None, ctx)"
  | (found) s n where "claim_entry P type ctx = (Some s, change_entry s (known_as type) ctx)" "entry_of s ctx = Some n" "P n"
      "names_ok L U sure rest B ext (change_entry s (known_as type) ctx) w"
proof (cases "find (\<lambda>(s, n). P n) (entries ctx)")
  case None
  then show thesis using none by (simp add: claim_entry_def)
next
  case (Some e)
  obtain s n where e: "e = (s, n)" by force
  from findE [OF Some] e have n: "(s, n) \<in> set (entries ctx)" "P n" by simp_all
  have "names_ok L U sure rest B ext (change_entry s (known_as type) ctx) w" by (rule names_keep [OF h]) simp_all
  then show thesis using found [of s n] Some e n entry_in_list [OF h n(1)] by (simp add: claim_entry_def)
qed

text \<open>An entry has the numbers of an inode, or none when there is no inode.\<close>

definition of_inode :: "inode option \<Rightarrow> audit_names \<Rightarrow> bool" where
  "of_inode i n = (case i of Some i \<Rightarrow> n_ino n = i_ino i \<and> n_dev n = i_dev i | None \<Rightarrow> n_ino n = AUDIT_INO_UNSET)"

definition entry_is :: "(audit_names \<Rightarrow> bool) \<Rightarrow> 'c nc \<Rightarrow> slot \<Rightarrow> bool" where
  "entry_is P ctx s \<longleftrightarrow> (\<exists>n. entry_of s ctx = Some n \<and> P n)"

lemma entry_is_change: "entry_is P (change_entry s f ctx) t \<longleftrightarrow> entry_is (if t = s then P \<circ> f else P) ctx t"
  by (auto simp: entry_is_def entry_change)

lemma entry_is_add: "entry_is P ctx t \<Longrightarrow> entry_is P (add_entry s n ctx) t"
  by (auto simp: entry_is_def entry_add)

lemma entry_is_new: "entry_of s ctx = None \<Longrightarrow> entry_is P (add_entry s n ctx) s \<longleftrightarrow> P n"
  by (auto simp: entry_is_def entry_add)

definition dir_entry :: "inode \<Rightarrow> audit_names \<Rightarrow> bool" where
  "dir_entry p n \<longleftrightarrow> n_type n = AUDIT_TYPE_PARENT \<and> n_ino n = i_ino p \<and> n_dev n = i_dev p"

lemma child_parent_ok:
  fixes w :: "'z nw"
  assumes h: "names_ok L U sure rest B ext ctx w" and i: "i_ino parent \<noteq> 0" and f: "\<forall>p. found = Some p \<longrightarrow> entry_is (dir_entry parent) ctx p"
  shows "case child_parent E parent found ctx w of (go, ctx', w') \<Rightarrow> names_ok L U sure rest B ext ctx' w' \<and> in_syscall ctx' = in_syscall ctx \<and>
    (\<forall>P t. entry_is P ctx t \<longrightarrow> entry_is P ctx' t) \<and> (if go then \<exists>p. (found = Some p \<or> entry_of p ctx = None) \<and> entry_is (dir_entry parent) ctx' p else \<not> sure)"
proof (cases found)
  case (Some p)
  then show ?thesis using h f by (auto simp: child_parent_def)
next
  case None
  show ?thesis
  proof (rule alloc_nameE [OF h, of E AUDIT_TYPE_PARENT])
    fix w' assume "audit_alloc_name E AUDIT_TYPE_PARENT ctx w = (None, ctx, w')" "names_ok L U sure rest B ext ctx w'" "\<not> sure"
    then show ?thesis using None by (simp add: child_parent_def)
  next
    fix s n w1
    assume 1: "audit_alloc_name E AUDIT_TYPE_PARENT ctx w = (Some s, add_entry s n ctx, w1)" "names_ok L U sure rest B ext (add_entry s n ctx) w1"
      "entry_of s ctx = None" "n_name n = None" "n_type n = AUDIT_TYPE_PARENT"
    have 2: "names_ok L U sure rest B ext (change_entry s (audit_copy_inode None parent) (add_entry s n ctx)) w1"
      by (rule names_keep [OF 1(2)]) (simp_all add: i)
    have k: "entry_is P (change_entry s (audit_copy_inode None parent) (add_entry s n ctx)) t" if "entry_is P ctx t" for P t
      using that 1(3) by (auto simp: entry_is_change entry_is_add) (auto simp: entry_is_def)
    have "entry_is (dir_entry parent) (change_entry s (audit_copy_inode None parent) (add_entry s n ctx)) s"
      using 1(3,5) by (simp add: entry_is_change entry_is_new dir_entry_def)
    then show ?thesis using 1(1,3) 2 k None by (auto simp: child_parent_def)
  qed
qed

lemma child_entry_ok:
  fixes w :: "'z nw"
  assumes h: "names_ok L U sure rest B ext ctx w" and p: "\<forall>p. found_parent = Some p \<longrightarrow> entry_is (\<lambda>n. n_name n \<noteq> None) ctx p"
    and c: "\<forall>s. found_child = Some s \<longrightarrow> entry_is (\<lambda>n. n_type n = type) ctx s"
  shows "ok (child_entry E type found_parent found_child ctx w) (\<lambda>(r, ctx', w'). names_ok L U sure rest B ext ctx' w' \<and> in_syscall ctx' = in_syscall ctx \<and>
    (\<forall>P t. entry_is P ctx t \<longrightarrow> entry_is P ctx' t) \<and>
    (case r of None \<Rightarrow> \<not> sure | Some s \<Rightarrow> (found_child = Some s \<or> entry_of s ctx = None) \<and> entry_is (\<lambda>n. n_type n = type) ctx' s))"
proof (cases found_child)
  case (Some s)
  then show ?thesis using h c by (simp add: child_entry_def)
next
  case None
  show ?thesis
  proof (rule alloc_nameE [OF h, of E type])
    fix w' assume "audit_alloc_name E type ctx w = (None, ctx, w')" "names_ok L U sure rest B ext ctx w'" "\<not> sure"
    then show ?thesis using None by (simp add: child_entry_def)
  next
    fix s n w1
    assume 1: "audit_alloc_name E type ctx w = (Some s, add_entry s n ctx, w1)" "names_ok L U sure rest B ext (add_entry s n ctx) w1"
      "entry_of s ctx = None" "n_name n = None" "n_type n = type"
    show ?thesis
    proof (cases found_parent)
      case None
      then show ?thesis using 1 \<open>found_child = None\<close> entry_is_add by (auto simp: child_entry_def entry_is_new)
    next
      case (Some q)
      then obtain pn k where q: "entry_of q ctx = Some pn" "n_name pn = Some k" using p by (auto simp: entry_is_def)
      then have q': "entry_of q (add_entry s n ctx) = Some pn" by (simp add: entry_add)
      let ?f = "\<lambda>n :: audit_names. n\<lparr>n_name := Some k, n_len := AUDIT_NAME_FULL\<rparr>"
      have e: "entry_of s (add_entry s n ctx) = Some n" using 1(3) by (simp add: entry_add)
      have 2: "names_ok L U sure rest B ext (change_entry s ?f (add_entry s n ctx)) (hold_name k w1)"
        by (rule names_name [OF 1(2) e 1(4)]) simp_all
      have r: "entry_is P (change_entry s ?f (add_entry s n ctx)) t" if "entry_is P ctx t" for P t
        using that 1(3) by (auto simp: entry_is_change entry_is_add) (auto simp: entry_is_def)
      have "entry_is (\<lambda>n. n_type n = type) (change_entry s ?f (add_entry s n ctx)) s"
        using 1(3,5) by (simp add: entry_is_change entry_is_new)
      then show ?thesis using 1(1,3) 2 q(2) q' r \<open>found_child = None\<close> Some by (simp add: child_entry_def)
    qed
  qed
qed
lemma entry_is_at: "entry_of s ctx = Some n \<Longrightarrow> entry_is P ctx s = P n"
  by (simp add: entry_is_def)

text \<open>A created or removed object: its directory has an entry, and it has one of its own, of the type asked for.\<close>

definition child_seen :: "inode \<Rightarrow> inode option \<Rightarrow> nat \<Rightarrow> 'c nc \<Rightarrow> bool" where
  "child_seen parent inode type ctx \<longleftrightarrow> (\<exists>p s. p \<noteq> s \<and> entry_is (dir_entry parent) ctx p \<and> entry_is (\<lambda>n. n_type n = type \<and> of_inode inode n) ctx s)"

lemma child_tail_ok:
  fixes w :: "'z nw"
  assumes h: "names_ok L U sure rest B ext ctx w" and i: "i_ino parent \<noteq> 0" "\<forall>i. inode = Some i \<longrightarrow> i_ino i \<noteq> 0" and ty: "type \<noteq> AUDIT_TYPE_PARENT"
    and p: "\<forall>p. fp = Some p \<longrightarrow> entry_is (dir_entry parent) ctx p \<and> entry_is (\<lambda>n. n_name n \<noteq> None) ctx p"
    and c: "\<forall>s. fc = Some s \<longrightarrow> entry_is (\<lambda>n. n_type n = type) ctx s"
  shows "ok (let (go, ctx, w) = child_parent E parent fp ctx w in
      (if \<not> go then Some (ctx, w)
       else do {
         (s, ctx, w) \<leftarrow> child_entry E type fp fc ctx w;
         Some (case s of
            None \<Rightarrow> (ctx, w)
          | Some s \<Rightarrow>
              (change_entry s (case inode of Some i \<Rightarrow> audit_copy_inode caps i | None \<Rightarrow> (\<lambda>n. n\<lparr>n_ino := AUDIT_INO_UNSET\<rparr>)) ctx, w))
       })) (\<lambda>(ctx', w'). names_ok L U sure rest B ext ctx' w' \<and> in_syscall ctx' = in_syscall ctx \<and> (sure \<longrightarrow> child_seen parent inode type ctx'))"
proof -
  obtain go ctx1 w1 where 1: "child_parent E parent fp ctx w = (go, ctx1, w1)" by (cases "child_parent E parent fp ctx w") auto
  have "\<forall>p. fp = Some p \<longrightarrow> entry_is (dir_entry parent) ctx p" using p by blast
  from child_parent_ok [OF h i(1) this, of E, unfolded 1 prod.case]
  have h1: "names_ok L U sure rest B ext ctx1 w1" "in_syscall ctx1 = in_syscall ctx" and k1: "\<And>P t. entry_is P ctx t \<Longrightarrow> entry_is P ctx1 t"
    and g: "if go then \<exists>p. (fp = Some p \<or> entry_of p ctx = None) \<and> entry_is (dir_entry parent) ctx1 p else \<not> sure" by blast+
  show ?thesis
  proof (cases go)
    case False
    then show ?thesis using 1 h1 g by simp
  next
    case True
    then obtain q where q: "entry_is (dir_entry parent) ctx1 q" using g by auto
    have p1: "\<forall>p. fp = Some p \<longrightarrow> entry_is (\<lambda>n. n_name n \<noteq> None) ctx1 p" and c1: "\<forall>s. fc = Some s \<longrightarrow> entry_is (\<lambda>n. n_type n = type) ctx1 s"
      using p c k1 by blast+
    from child_entry_ok [OF h1(1) p1 c1, of E] obtain r ctx2 w2 where 2: "child_entry E type fp fc ctx1 w1 = Some (r, ctx2, w2)"
      "names_ok L U sure rest B ext ctx2 w2" "in_syscall ctx2 = in_syscall ctx1" "\<And>P t. entry_is P ctx1 t \<Longrightarrow> entry_is P ctx2 t"
      "case r of None \<Rightarrow> \<not> sure | Some s \<Rightarrow> (fc = Some s \<or> entry_of s ctx1 = None) \<and> entry_is (\<lambda>n. n_type n = type) ctx2 s" by (auto elim!: okE)
    show ?thesis
    proof (cases r)
      case None
      then show ?thesis using 1 True 2 h1(2) by simp
    next
      case (Some s)
      define f where "f = (case inode of Some i \<Rightarrow> audit_copy_inode caps i | None \<Rightarrow> (\<lambda>n :: audit_names. n\<lparr>n_ino := AUDIT_INO_UNSET\<rparr>))"
      have f: "n_name (f n) = n_name n" "n_should_free (f n) = n_should_free n" "n_ino (f n) \<noteq> 0" "n_type (f n) = n_type n" "of_inode inode (f n)" for n
        using i(2) by (auto simp: f_def of_inode_def split: option.splits)
      have 3: "names_ok L U sure rest B ext (change_entry s f ctx2) w2" by (rule names_keep [OF 2(2)]) (simp_all add: f)
      have q2: "entry_is (dir_entry parent) ctx2 q" by (rule 2(4) [OF q])
      have s: "entry_is (\<lambda>n. n_type n = type) ctx2 s" using 2(5) Some by simp
      then have ne: "q \<noteq> s" using q2 ty by (auto simp: entry_is_def dir_entry_def)
      then have "entry_is (dir_entry parent) (change_entry s f ctx2) q" using q2 by (simp add: entry_is_change)
      moreover have "entry_is (\<lambda>n. n_type n = type \<and> of_inode inode n) (change_entry s f ctx2) s"
        using s by (simp add: entry_is_change comp_def f)
      ultimately have "child_seen parent inode type (change_entry s f ctx2)" using ne by (auto simp: child_seen_def)
      then show ?thesis using 1 True 2(1,3) Some 3 h1(2) by (simp add: f_def [symmetric])
    qed
  qed
qed

lemma audit_inode_child_ok:
  fixes w :: "'z nw"
  assumes h: "names_ok L U sure rest B ext ctx w" and i: "i_ino parent \<noteq> 0" "\<forall>i. inode = Some i \<longrightarrow> i_ino i \<noteq> 0" and ty: "type \<noteq> AUDIT_TYPE_PARENT"
  shows "ok (audit_inode_child E parent dname marks caps inode type ctx w) (\<lambda>(ctx', w'). names_ok L U sure rest B ext ctx' w' \<and>
    in_syscall ctx' = in_syscall ctx \<and> (sure \<and> in_syscall ctx \<longrightarrow> child_seen parent inode type ctx'))"
proof (cases "in_syscall ctx")
  case False
  then show ?thesis using h by (simp add: audit_inode_child_def)
next
  case True
  have "ok (case inode of None \<Rightarrow> Some (ctx, w) | Some _ \<Rightarrow> handle_one (fst marks) (snd marks) ctx w)
    (\<lambda>(ctx', w'). names_ok L U sure rest B ext ctx' w' \<and> in_syscall ctx' = in_syscall ctx)"
    using handle_one_names [OF h] h by (cases inode) auto
  then obtain ctx1 w1 where 1: "(case inode of None \<Rightarrow> Some (ctx, w) | Some _ \<Rightarrow> handle_one (fst marks) (snd marks) ctx w) = Some (ctx1, w1)"
    "names_ok L U sure rest B ext ctx1 w1" "in_syscall ctx1 = in_syscall ctx" by (auto elim!: okE)
  have "\<exists>fp ctx2. claim_entry (parent_matches E w1 dname parent) AUDIT_TYPE_PARENT ctx1 = (fp, ctx2) \<and> names_ok L U sure rest B ext ctx2 w1 \<and>
    in_syscall ctx2 = in_syscall ctx \<and> (\<forall>p. fp = Some p \<longrightarrow> entry_is (dir_entry parent) ctx2 p \<and> entry_is (\<lambda>n. n_name n \<noteq> None) ctx2 p)"
    by (rule claim_entryE [OF 1(2), of "parent_matches E w1 dname parent" AUDIT_TYPE_PARENT])
      (use 1 in \<open>auto simp: entry_is_change entry_is_at parent_matches_def dir_entry_def known_as_def split: option.splits if_splits\<close>)
  then obtain fp ctx2 where 2: "claim_entry (parent_matches E w1 dname parent) AUDIT_TYPE_PARENT ctx1 = (fp, ctx2)" "names_ok L U sure rest B ext ctx2 w1"
    "in_syscall ctx2 = in_syscall ctx" "\<And>p. fp = Some p \<Longrightarrow> entry_is (dir_entry parent) ctx2 p \<and> entry_is (\<lambda>n. n_name n \<noteq> None) ctx2 p" by blast
  define pn where "pn = (case fp of None \<Rightarrow> None | Some p \<Rightarrow> entry_of p ctx2)"
  have "\<exists>fc ctx3. claim_entry (child_matches E w1 dname type pn) type ctx2 = (fc, ctx3) \<and> names_ok L U sure rest B ext ctx3 w1 \<and>
    in_syscall ctx3 = in_syscall ctx \<and> (\<forall>s. fc = Some s \<longrightarrow> entry_is (\<lambda>n. n_type n = type) ctx3 s) \<and>
    (\<forall>p. fp = Some p \<longrightarrow> entry_is (dir_entry parent) ctx3 p \<and> entry_is (\<lambda>n. n_name n \<noteq> None) ctx3 p)"
  proof (rule claim_entryE [OF 2(2), of "child_matches E w1 dname type pn" type])
    assume "claim_entry (child_matches E w1 dname type pn) type ctx2 = (None, ctx2)"
    then show ?thesis using 2 by auto
  next
    fix s n
    assume c: "claim_entry (child_matches E w1 dname type pn) type ctx2 = (Some s, change_entry s (known_as type) ctx2)" "entry_of s ctx2 = Some n"
      "child_matches E w1 dname type pn n" "names_ok L U sure rest B ext (change_entry s (known_as type) ctx2) w1"
    have n: "n_type n = type \<or> n_type n = AUDIT_TYPE_UNKNOWN" using c(3) by (auto simp: child_matches_def split: option.splits)
    then have s: "entry_is (\<lambda>n. n_type n = type) (change_entry s (known_as type) ctx2) s"
      using c(2) by (auto simp: entry_is_change entry_is_at known_as_def)
    have "entry_is (dir_entry parent) (change_entry s (known_as type) ctx2) p \<and> entry_is (\<lambda>n. n_name n \<noteq> None) (change_entry s (known_as type) ctx2) p"
      if "fp = Some p" for p
    proof -
      from 2(4) [OF that] have d: "entry_is (dir_entry parent) ctx2 p" "entry_is (\<lambda>n. n_name n \<noteq> None) ctx2 p" by simp_all
      have "p \<noteq> s" using d(1) c(2) n ty by (auto simp: entry_is_def dir_entry_def)
      then show ?thesis using d by (simp add: entry_is_change)
    qed
    then show ?thesis using c s 2(3) by auto
  qed
  then obtain fc ctx3 where 3: "claim_entry (child_matches E w1 dname type pn) type ctx2 = (fc, ctx3)" "names_ok L U sure rest B ext ctx3 w1"
    "in_syscall ctx3 = in_syscall ctx" "\<forall>s. fc = Some s \<longrightarrow> entry_is (\<lambda>n. n_type n = type) ctx3 s"
    "\<forall>p. fp = Some p \<longrightarrow> entry_is (dir_entry parent) ctx3 p \<and> entry_is (\<lambda>n. n_name n \<noteq> None) ctx3 p" by blast
  show ?thesis
    using child_tail_ok [OF 3(2) i ty 3(5,4), of E caps] True
    unfolding audit_inode_child_def 1(1) 2(1) Let_def prod.case pn_def [symmetric] 3(1) by (simp add: 1(1) 2(1) 3(1,3) pn_def [symmetric])
qed
section \<open>The end of the list\<close>

lemma free_entries_ok:
  fixes w :: "'z nw"
  assumes "tree_stack sure rest (B + heap_ids es) a xs r ctx w" and "\<forall>e \<in> set es. in_place l e" and "\<forall>k. f_ref (files w k) = ext k + holders es k"
  shows "ok (free_entries es w) (\<lambda>w'. tree_stack sure rest B a xs r ctx w' \<and> (\<forall>k. f_ref (files w' k) = ext k))"
  using assms
proof (induction es arbitrary: w)
  case Nil
  then show ?case by simp
next
  case (Cons e es)
  obtain s n where e: "e = (s, n)" by force
  let ?base = "B + heap_ids es + slot_ids s"
  have "ok (case n_name n of None \<Rightarrow> Some w | Some k \<Rightarrow> putname k w) (\<lambda>w'. tree_stack sure rest ?base a xs r ctx w' \<and>
      (\<forall>k. f_ref (files w' k) = ext k + holders es k))"
    using Cons.prems(1,3) e by (auto simp: putname_def tree_files ac_simps split: option.splits)
  then obtain w1 where 1: "(case n_name n of None \<Rightarrow> Some w | Some k \<Rightarrow> putname k w) = Some w1" "tree_stack sure rest ?base a xs r ctx w1"
    "\<forall>k. f_ref (files w1 k) = ext k + holders es k" by (auto elim!: okE)
  have f: "in_place l (s, n)" using Cons.prems(2) e by simp
  have "ok (if n_should_free n then (case s of Heap k \<Rightarrow> kfree k w1 | Pre _ \<Rightarrow> None) else Some w1)
      (\<lambda>w'. tree_stack sure rest (B + heap_ids es) a xs r ctx w' \<and> files w' = files w1)"
  proof (cases s)
    case (Pre j)
    then show ?thesis using f 1(2) by (simp add: in_place_def)
  next
    case (Heap k)
    then show ?thesis using f 1(2) by (auto simp: in_place_def intro!: ok_mono [OF tree_free] dest: more_world)
  qed
  then obtain w2 where 2: "(if n_should_free n then (case s of Heap k \<Rightarrow> kfree k w1 | Pre _ \<Rightarrow> None) else Some w1) = Some w2"
    "tree_stack sure rest (B + heap_ids es) a xs r ctx w2" "files w2 = files w1" by (auto elim!: okE)
  have "ok (free_entries es w2) (\<lambda>w'. tree_stack sure rest B a xs r ctx w' \<and> (\<forall>k. f_ref (files w' k) = ext k))"
    by (rule Cons.IH [OF 2(2)]) (use Cons.prems(2) 1(3) 2(3) in simp_all)
  then show ?case using 1(1) 2(1) e by simp
qed

section \<open>Runs\<close>

text \<open>The hooks of a system call in any order. A name that is used again is handed to its user, who holds it.\<close>

datatype names_op = Getname nat | Reuse nat | Lookup "nat option" dentry bool bool |
  Created inode "byte list" "bool \<times> nat option" "vfs_caps option" "inode option" nat

fun names_exec :: "names_env \<Rightarrow> names_op \<Rightarrow> 'c nc \<Rightarrow> 'z nw \<Rightarrow> (nat list \<times> 'c nc \<times> 'z nw) option" where
  "names_exec E (Getname k) ctx w = (case audit_getname E k ctx w of (ctx, w) \<Rightarrow> Some ([], ctx, w))"
| "names_exec E (Reuse uptr) ctx w = (case audit_reusename uptr ctx w of
      (None, w) \<Rightarrow> Some ([], ctx, w) | (Some k, w) \<Rightarrow> Some ([k], ctx, w))"
| "names_exec E (Lookup name d parent hidden) ctx w = do { (ctx, w) \<leftarrow> audit_inode E name d parent hidden ctx w; Some ([], ctx, w) }"
| "names_exec E (Created p dname marks caps i type) ctx w = do { (ctx, w) \<leftarrow> audit_inode_child E p dname marks caps i type ctx w; Some ([], ctx, w) }"

primrec names_run :: "names_env \<Rightarrow> names_op list \<Rightarrow> 'c nc \<Rightarrow> 'z nw \<Rightarrow> (nat list \<times> 'c nc \<times> 'z nw) option" where
  "names_run E [] ctx w = Some ([], ctx, w)"
| "names_run E (op # ops) ctx w = do {
     (ks, ctx, w) \<leftarrow> names_exec E op ctx w;
     (ls, ctx, w) \<leftarrow> names_run E ops ctx w;
     Some (ks @ ls, ctx, w)
   }"

text \<open>No inode has the number zero, renames stop, and an object that is created or removed is not recorded as a directory that was looked up.\<close>

fun calm_op :: "names_op \<Rightarrow> bool" where
  "calm_op (Lookup name d parent hidden) \<longleftrightarrow> calm_dentry d"
| "calm_op (Created p dname marks caps i type) \<longleftrightarrow> i_ino p \<noteq> 0 \<and> (\<forall>j. i = Some j \<longrightarrow> i_ino j \<noteq> 0) \<and> type \<noteq> AUDIT_TYPE_PARENT"
| "calm_op (Getname k) \<longleftrightarrow> True"
| "calm_op (Reuse uptr) \<longleftrightarrow> True"

text \<open>The names a hook is called with.\<close>

fun op_names :: "names_op \<Rightarrow> nat set" where
  "op_names (Getname k) = {k}"
| "op_names (Lookup name d parent hidden) = set_option name"
| "op_names (Reuse uptr) = {}"
| "op_names (Created p dname marks caps i type) = {}"

lemma names_exec_ok:
  fixes w :: "'z nw"
  assumes h: "names_ok L U sure rest B ext ctx w" and c: "calm_op op" and l: "op_names op \<subseteq> L"
  shows "ok (names_exec E op ctx w) (\<lambda>(ks, ctx', w'). names_ok L U sure rest B (\<lambda>k. ext k + count_list ks k) ctx' w' \<and> in_syscall ctx' = in_syscall ctx)"
proof (cases op)
  case (Getname k)
  then show ?thesis using getname_ok [OF h, where E = E and name = k] l by (auto split: prod.splits)
next
  case (Reuse uptr)
  have "(\<lambda>k. ext k + count_list [j] k) = one_more ext j" for j by auto
  then show ?thesis using Reuse reusename_ok [OF h, of uptr] by (auto split: prod.splits option.splits)
next
  case (Lookup name d parent hidden)
  then have d: "calm_dentry d" "\<forall>k. name = Some k \<longrightarrow> k \<in> L" using c l by auto
  show ?thesis unfolding Lookup names_exec.simps ok_bind
    by (rule ok_mono [OF audit_inode_ok [OF h d]]) auto
next
  case (Created p dname marks caps i type)
  then have p: "i_ino p \<noteq> 0" "\<forall>j. i = Some j \<longrightarrow> i_ino j \<noteq> 0" "type \<noteq> AUDIT_TYPE_PARENT" using c by simp_all
  show ?thesis unfolding Created names_exec.simps ok_bind
    by (rule ok_mono [OF audit_inode_child_ok [OF h p]]) auto
qed

text \<open>What a hook leaves on the list.\<close>

fun recorded :: "names_op \<Rightarrow> 'c nc \<Rightarrow> 'c nc \<Rightarrow> bool" where
  "recorded (Getname k) ctx ctx' \<longleftrightarrow> named k ctx ctx'"
| "recorded (Reuse uptr) ctx ctx' \<longleftrightarrow> ctx' = ctx"
| "recorded (Lookup name d parent hidden) ctx ctx' \<longleftrightarrow> looked_up name (d_inode d) parent ctx ctx'"
| "recorded (Created p dname marks caps i type) ctx ctx' \<longleftrightarrow> child_seen p i type ctx'"

lemma names_exec_records:
  fixes w :: "'z nw"
  assumes h: "names_ok L U sure rest B ext ctx w" and c: "calm_op op" and l: "op_names op \<subseteq> L" and i: "in_syscall ctx"
  shows "ok (names_exec E op ctx w) (\<lambda>(ks, ctx', w'). recorded op ctx ctx' \<or> \<not> sure)"
proof (cases op)
  case (Getname k)
  then show ?thesis using getname_ok [OF h, where E = E and name = k] l i by (auto split: prod.splits)
next
  case (Reuse uptr)
  then show ?thesis by (auto split: prod.splits option.splits)
next
  case (Lookup name d parent hidden)
  then have d: "calm_dentry d" "\<forall>k. name = Some k \<longrightarrow> k \<in> L" using c l by auto
  show ?thesis unfolding Lookup names_exec.simps ok_bind
    by (rule ok_mono [OF audit_inode_ok [OF h d]]) (use i in auto)
next
  case (Created p dname marks caps i' type)
  then have p: "i_ino p \<noteq> 0" "\<forall>j. i' = Some j \<longrightarrow> i_ino j \<noteq> 0" "type \<noteq> AUDIT_TYPE_PARENT" using c by simp_all
  show ?thesis unfolding Created names_exec.simps ok_bind
    by (rule ok_mono [OF audit_inode_child_ok [OF h p]]) (use i in auto)
qed

lemma names_run_ok:
  fixes w :: "'z nw"
  assumes "names_ok L U sure rest B ext ctx w" and "\<forall>op \<in> set ops. calm_op op \<and> op_names op \<subseteq> L"
  shows "ok (names_run E ops ctx w) (\<lambda>(ks, ctx', w'). names_ok L U sure rest B (\<lambda>k. ext k + count_list ks k) ctx' w' \<and> in_syscall ctx' = in_syscall ctx)"
  using assms
proof (induction ops arbitrary: ext ctx w)
  case Nil
  then show ?case by simp
next
  case (Cons op ops)
  from names_exec_ok [OF Cons.prems(1), where op = op and E = E] Cons.prems(2) obtain ks ctx1 w1 where 1: "names_exec E op ctx w = Some (ks, ctx1, w1)"
    "names_ok L U sure rest B (\<lambda>k. ext k + count_list ks k) ctx1 w1" "in_syscall ctx1 = in_syscall ctx" by (auto elim!: okE)
  from Cons.IH [OF 1(2)] Cons.prems(2) show ?case using 1(1,3) by (auto simp: add.assoc ok_bind elim!: ok_mono)
qed

text \<open>A new context, in a world where no name points to an entry.\<close>

definition fresh_names :: "'c nc \<Rightarrow> 'z nw \<Rightarrow> bool" where
  "fresh_names ctx w \<longleftrightarrow> fresh_trees ctx \<and> entries ctx = [] \<and> name_count ctx = 0 \<and> (\<forall>k \<in> set (klive w). k < knext w) \<and>
     (\<forall>k. f_aname (files w k) = None)"

lemma fresh_names_ok:
  fixes w :: "'z nw"
  assumes "fresh_names ctx w" and "sure \<Longrightarrow> \<forall>n. \<not> kfail w n"
  shows "names_ok UNIV {} sure (chunk_refs w) (mset (klive w)) (\<lambda>k. f_ref (files w k)) ctx w"
proof -
  have "tree_stack sure (chunk_refs w) (mset (klive w) + heap_ids (entries ctx)) (prio ctx, current_state ctx) [] 0 ctx w"
    using fresh_stack [of ctx w sure] assms by (simp add: fresh_names_def)
  then show ?thesis using assms(1) by (auto simp: names_ok_def fresh_names_def list_ok_def simp del: split_paired_Ex)
qed

section \<open>Properties\<close>

text \<open>
  C36: names are given back. Whatever hooks a system call runs into, in any order, however often
  renames disturb a search and whatever allocation fails: no hook faults or runs forever, and when the context is
  freed afterwards, every name has the references it had before and one for each time it was
  handed to a user again, every chunk has the references it had, and no memory of the context is left.
\<close>

theorem audit_names_given_back:
  fixes w :: "'z nw"
  assumes "fresh_names ctx w" and "\<forall>op \<in> set ops. calm_op op"
  shows "ok (do { (ks, ctx, w) \<leftarrow> names_run E ops ctx w; (ctx, w) \<leftarrow> audit_free_names ctx w;
      (ctx, w) \<leftarrow> unroll_tree_refs None 0 ctx w; (ctx, w) \<leftarrow> free_tree_refs ctx w; Some (ks, ctx, w) })
    (\<lambda>(ks, ctx', w'). entries ctx' = [] \<and> mset (klive w') = mset (klive w) \<and> chunk_refs w' = chunk_refs w \<and>
      (\<forall>k. f_ref (files w' k) = f_ref (files w k) + count_list ks k))"
proof -
  have h: "names_ok UNIV {} False (chunk_refs w) (mset (klive w)) (\<lambda>k. f_ref (files w k)) ctx w" by (rule fresh_names_ok [OF assms(1)]) simp
  from names_run_ok [OF h, of ops E] obtain ks ctx1 w1 where 1: "names_run E ops ctx w = Some (ks, ctx1, w1)"
    "names_ok UNIV {} False (chunk_refs w) (mset (klive w)) (\<lambda>k. f_ref (files w k) + count_list ks k) ctx1 w1" using assms(2) by (auto elim!: okE)
  obtain a xs r where t: "tree_stack False (chunk_refs w) (mset (klive w) + heap_ids (entries ctx1)) a xs r ctx1 w1"
    and l: "\<forall>e \<in> set (entries ctx1). in_place (length (entries ctx1)) e" and f: "\<forall>k. f_ref (files w1 k) = f_ref (files w k) + count_list ks k + holders (entries ctx1) k"
    using 1(2) unfolding names_ok_def list_ok_def by blast
  from free_entries_ok [OF t l f] obtain w2 where 2: "free_entries (entries ctx1) w1 = Some w2"
    "tree_stack False (chunk_refs w) (mset (klive w)) a xs r ctx1 w2" "\<forall>k. f_ref (files w2 k) = f_ref (files w k) + count_list ks k" by (auto elim!: okE)
  define ctx2 where "ctx2 = ctx1\<lparr>entries := [], name_count := 0, pwd := None\<rparr>"
  have t2: "tree_stack False (chunk_refs w) (mset (klive w)) a xs r ctx2 w2" using 2(2) by (simp add: ctx2_def tree_names)
  from chain.drop_all_ok [OF t2] obtain ctx3 w3 where 3: "unroll_tree_refs None 0 ctx2 w2 = Some (ctx3, w3)"
    "tree_stack False (chunk_refs w) (mset (klive w)) a [] (r + length xs) ctx3 w3" by (auto elim!: okE)
  from free_tree_refs_ok [OF 3(2)] obtain ctx4 w4 where 4: "free_tree_refs ctx3 w3 = Some (ctx4, w4)"
    "mset (klive w4) = mset (klive w)" "w4 = w3\<lparr>klive := klive w4\<rparr>" by (auto elim!: okE)
  have c: "chunk_refs w4 = chunk_refs w" using 3(2) by (subst 4(3)) (auto simp: tree_marked_def fun_eq_iff)
  have "same_more (ctx2, w2) (ctx4, w4)" using unroll_more [OF 3(1)] free_trees_more [OF 4(1)] by (rule same_more_trans)
  then have "entries ctx4 = []" "files w4 = files w2"
    using more_ctx(1) [of ctx4 ctx2] more_world [of w4 w2] by (simp_all add: same_more_def ctx2_def)
  then show ?thesis using 1(1) 2(1,3) 3(1) 4(1,2) c by (simp add: audit_free_names_def ctx2_def)
qed

section \<open>A concrete call\<close>

text \<open>
  Two file names with the same text, held by the caller; a path to the inode 12 whose first walk is
  disturbed by a rename, a directory and a file created in it. The environment has two places
  and compares the text behind the directory part.
\<close>

definition names_demo :: names_ctx where
  "names_demo = tree_ctx.extend tree_demo (names_ctx.fields [] 0 True None)"

definition names_demo_world :: names_world where
  "names_demo_world = tree_world.extend tree_demo_world
     (names_world.fields (\<lambda>k. \<lparr>f_text = ascii ''/tmp/a'', f_uptr = k, f_ref = 1, f_aname = None\<rparr>))"

definition names_demo_env :: names_env where
  "names_demo_env = \<lparr>NAMES = 2, sizeof_audit_names = 96, parent_len = (\<lambda>s. 4), dname_path = (\<lambda>d s l. d = drop (nat l + 1) s), fs_pwd = Some (ascii ''/'')\<rparr>"

definition demo_inode :: "u64 \<Rightarrow> inode" where
  "demo_inode n = \<lparr>i_ino = n, i_dev = 8, i_mode = 33188, i_uid = 0, i_gid = 0, i_rdev = 0, i_sid = 0\<rparr>"

definition demo_dentry :: dentry where
  "demo_dentry = \<lparr>d_walks = demo_walks, d_raced = (\<lambda>n. n < 1), d_caps = None, d_inode = demo_inode 12\<rparr>"

definition names_demo_ops :: "names_op list" where
  "names_demo_ops = [Getname 0, Reuse 0, Lookup (Some 0) demo_dentry True False, Created (demo_inode 12) (ascii ''a'') (True, Some 7) None (Some (demo_inode 13)) 4]"

lemma names_demo_ok: "fresh_names names_demo names_demo_world" "in_syscall names_demo" "calm_dentry demo_dentry" "\<forall>op \<in> set names_demo_ops. calm_op op"
  "\<not> kfail names_demo_world n"
  using tree_demo_calm
  by (simp_all add: fresh_names_def names_demo_def names_demo_world_def tree_demo_ok tree_demo_def tree_demo_world_def fresh_trees_def names_ctx.defs tree_ctx.defs
      names_world.defs tree_world.defs calm_dentry_def demo_dentry_def demo_inode_def names_demo_ops_def)

theorem audit_names_given_back_witness:
  "ok (do { (ks, ctx, w) \<leftarrow> names_run names_demo_env names_demo_ops names_demo names_demo_world; (ctx, w) \<leftarrow> audit_free_names ctx w;
      (ctx, w) \<leftarrow> unroll_tree_refs None 0 ctx w; (ctx, w) \<leftarrow> free_tree_refs ctx w; Some (ks, ctx, w) })
    (\<lambda>(ks, ctx', w'). entries ctx' = [] \<and> mset (klive w') = mset (klive names_demo_world) \<and> chunk_refs w' = chunk_refs names_demo_world \<and>
      (\<forall>k. f_ref (files w' k) = f_ref (files names_demo_world k) + count_list ks k))"
  by (rule audit_names_given_back [OF names_demo_ok(1,4)])


lemma audit_name_not_compared:
  "ok (names_run names_demo_env [Getname 0, Lookup (Some 1) demo_dentry False False] names_demo names_demo_world)
     (\<lambda>(ks, ctx, w). map (\<lambda>(s, n). (s, n_name n, n_ino n)) (entries ctx) = [(Pre 0, Some 0, AUDIT_INO_UNSET), (Pre 1, Some 1, 12)] \<and>
       text_of w 0 = text_of w 1)"
  by code_simp

end
