(* ===== verification/AuditFilter.thy ===== *)
theory AuditFilter
  imports AuditNames
begin

text \<open>
  The filter rules (\<open>auditsc.c\<close>: \<open>audit_match_perm\<close> to \<open>audit_match_filetype\<close>, \<open>audit_compare_uid\<close> to
  \<open>audit_filter_inodes\<close>): whether a rule matches a task, a call and the names it touched, and how the lists of rules
  decide about a new task and about a call. The lists themselves and the comparators are in other files and
  parameters here.

  The first part translates the code. The second shows that the filters keep the invariant of the context
  (\<open>ctx_ok\<close>: names, trees and the copy of a key) and compute the verdict of a reference that says what
  rules mean.
\<close>

unbundle bit_operations_syntax

section \<open>Rules\<close>

text \<open>
  The types of the fields of a rule, the comparisons of \<open>AUDIT_FIELD_COMPARE\<close>, and the actions; the numbers
  behind them are in \<open>linux/audit.h\<close>. A type no filter knows is \<open>AUDIT_OTHER\<close>.
\<close>

datatype field_type = AUDIT_PID | AUDIT_PPID | AUDIT_EXE | AUDIT_UID | AUDIT_EUID | AUDIT_SUID | AUDIT_FSUID |
  AUDIT_GID | AUDIT_EGID | AUDIT_SGID | AUDIT_FSGID | AUDIT_PERS | AUDIT_ARCH | AUDIT_EXIT | AUDIT_SUCCESS |
  AUDIT_DEVMAJOR | AUDIT_DEVMINOR | AUDIT_INODE | AUDIT_OBJ_UID | AUDIT_OBJ_GID | AUDIT_WATCH | AUDIT_DIR |
  AUDIT_LOGINUID | AUDIT_LOGINUID_SET | AUDIT_SUBJ_USER | AUDIT_SUBJ_ROLE | AUDIT_SUBJ_TYPE | AUDIT_SUBJ_SEN | AUDIT_SUBJ_CLR |
  AUDIT_OBJ_USER | AUDIT_OBJ_ROLE | AUDIT_OBJ_TYPE | AUDIT_OBJ_LEV_LOW | AUDIT_OBJ_LEV_HIGH |
  AUDIT_ARG0 | AUDIT_ARG1 | AUDIT_ARG2 | AUDIT_ARG3 | AUDIT_FILTERKEY | AUDIT_PERM | AUDIT_FILETYPE | AUDIT_FIELD_COMPARE | AUDIT_OTHER

datatype comparison = UID_TO_OBJ_UID | GID_TO_OBJ_GID | EUID_TO_OBJ_UID | EGID_TO_OBJ_GID | AUID_TO_OBJ_UID | SUID_TO_OBJ_UID |
  SGID_TO_OBJ_GID | FSUID_TO_OBJ_UID | FSGID_TO_OBJ_GID | UID_TO_AUID | UID_TO_EUID | UID_TO_SUID | UID_TO_FSUID |
  AUID_TO_EUID | AUID_TO_SUID | AUID_TO_FSUID | EUID_TO_SUID | EUID_TO_FSUID | SUID_TO_FSUID | GID_TO_EGID | GID_TO_SGID |
  GID_TO_FSGID | EGID_TO_SGID | EGID_TO_FSGID | SGID_TO_FSGID

datatype audit_op = Audit_equal | Audit_not_equal | Audit_bitmask | Audit_bittest | Audit_lt | Audit_gt | Audit_le | Audit_ge

datatype action = AUDIT_NEVER | AUDIT_POSSIBLE | AUDIT_ALWAYS

record audit_field =
  f_type :: field_type
  f_op :: audit_op
  f_val :: u32
  f_uid :: u32
  f_gid :: u32
  f_lsm :: "nat option"

text \<open>
  A rule (\<open>struct audit_krule\<close>): the program and the watch are other objects, the tree is the set of chunks that
  belong to it.
\<close>

record krule =
  r_mask :: "nat \<Rightarrow> u32"
  r_action :: action
  r_fields :: "audit_field list"
  r_filterkey :: "byte list option"
  r_prio :: u64
  r_exe :: nat
  r_watch :: nat
  r_tree :: "(nat \<Rightarrow> bool) option"

section \<open>The context and its surroundings\<close>

text \<open>
  The part of a context the filters look at: the call with its arguments and its result, the process's parent
  (zero until somebody asks), the copy of the key of the rule that matched, and what
  \<open>context->type\<close> and \<open>context->ipc\<close> say of special calls.
\<close>

record syscall_ctx = names_ctx +
  task_state :: audit_state
  arch :: u32
  major :: int
  argv :: "nat \<Rightarrow> u64"
  ppid :: int
  return_valid :: nat
  return_code :: int
  filterkey :: "(nat \<times> byte list) option"
  special :: nat
  ipc_osid :: u32

record filter_task = task +
  t_tgid :: int
  t_personality :: u32
  t_loginuid :: u32

type_synonym 'c sc = "'c syscall_ctx_scheme"
type_synonym 't ft = "'t filter_task_scheme"

datatype audit_class = AUDIT_CLASS_WRITE | AUDIT_CLASS_READ | AUDIT_CLASS_CHATTR | AUDIT_CLASS_WRITE_32 | AUDIT_CLASS_READ_32 | AUDIT_CLASS_CHATTR_32

text \<open>
  What other files give: the comparators of \<open>auditfilter.c\<close> (\<open>audit_comparator\<close> takes its left argument as
  any integer and cuts it to the width of its parameter), groups, programs, watches, the security module, the classes of
  system calls, the hash of an inode number, and numbers of headers.
\<close>

record filter_env =
  audit_comparator :: "int \<Rightarrow> audit_op \<Rightarrow> u32 \<Rightarrow> bool"
  audit_uid_comparator :: "u32 \<Rightarrow> audit_op \<Rightarrow> u32 \<Rightarrow> bool"
  audit_gid_comparator :: "u32 \<Rightarrow> audit_op \<Rightarrow> u32 \<Rightarrow> bool"
  in_group_p :: "u32 \<Rightarrow> bool"
  in_egroup_p :: "u32 \<Rightarrow> bool"
  exe_compare :: "nat \<Rightarrow> bool"
  watch_compare :: "nat \<Rightarrow> u64 \<Rightarrow> u32 \<Rightarrow> bool"
  task_secid :: u32
  rule_match :: "u32 \<Rightarrow> audit_field \<Rightarrow> int"
  comparison_of :: "u32 \<Rightarrow> comparison option"
  classify_syscall :: "u32 \<Rightarrow> int \<Rightarrow> int"
  match_class :: "audit_class \<Rightarrow> int \<Rightarrow> bool"
  ACC_MODE :: "u64 \<Rightarrow> u32"
  SYS_BIND :: u64
  hash_ino :: "u32 \<Rightarrow> nat"

abbreviation AUDITSC_SUCCESS :: nat where "AUDITSC_SUCCESS \<equiv> 1"
abbreviation AUDITSC_FAILURE :: nat where "AUDITSC_FAILURE \<equiv> 2"
abbreviation AUDIT_IPC :: nat where "AUDIT_IPC \<equiv> 1303"
abbreviation AUDIT_PERM_EXEC :: u32 where "AUDIT_PERM_EXEC \<equiv> 1"
abbreviation AUDIT_PERM_WRITE :: u32 where "AUDIT_PERM_WRITE \<equiv> 2"
abbreviation AUDIT_PERM_READ :: u32 where "AUDIT_PERM_READ \<equiv> 4"
abbreviation AUDIT_PERM_ATTR :: u32 where "AUDIT_PERM_ATTR \<equiv> 8"
abbreviation S_IFMT :: u16 where "S_IFMT \<equiv> 0xF000"

section \<open>Fields\<close>

definition audit_match_perm :: "filter_env \<Rightarrow> 'c sc option \<Rightarrow> u32 \<Rightarrow> bool" where
  "audit_match_perm E ctx m =
     (case ctx of
        None \<Rightarrow> False
      | Some c \<Rightarrow>
          let n = major c; k = classify_syscall E (arch c) n in
          if k = 0 then
            m AND AUDIT_PERM_WRITE \<noteq> 0 \<and> match_class E AUDIT_CLASS_WRITE n \<or>
            m AND AUDIT_PERM_READ \<noteq> 0 \<and> match_class E AUDIT_CLASS_READ n \<or>
            m AND AUDIT_PERM_ATTR \<noteq> 0 \<and> match_class E AUDIT_CLASS_CHATTR n
          else if k = 1 then
            m AND AUDIT_PERM_WRITE \<noteq> 0 \<and> match_class E AUDIT_CLASS_WRITE_32 n \<or>
            m AND AUDIT_PERM_READ \<noteq> 0 \<and> match_class E AUDIT_CLASS_READ_32 n \<or>
            m AND AUDIT_PERM_ATTR \<noteq> 0 \<and> match_class E AUDIT_CLASS_CHATTR_32 n
          else if k = 2 then m AND ACC_MODE E (argv c 1) \<noteq> 0
          else if k = 3 then m AND ACC_MODE E (argv c 2) \<noteq> 0
          else if k = 4 then m AND AUDIT_PERM_WRITE \<noteq> 0 \<and> argv c 0 = SYS_BIND E
          else if k = 5 then m AND AUDIT_PERM_EXEC \<noteq> 0
          else False)"

definition audit_match_filetype :: "'c sc option \<Rightarrow> u32 \<Rightarrow> bool" where
  "audit_match_filetype ctx val =
     (case ctx of
        None \<Rightarrow> False
      | Some c \<Rightarrow> list_ex (\<lambda>(s, n). n_ino n \<noteq> AUDIT_INO_UNSET \<and> n_mode n AND S_IFMT = ucast val) (entries c))"

text \<open>Whether the name at hand matches, or any of the context.\<close>

definition audit_compare_uid :: "filter_env \<Rightarrow> u32 \<Rightarrow> audit_names option \<Rightarrow> audit_field \<Rightarrow> 'c sc option \<Rightarrow> bool" where
  "audit_compare_uid E uid name f ctx =
     ((case name of Some n \<Rightarrow> audit_uid_comparator E uid (f_op f) (n_uid n) | None \<Rightarrow> False) \<or>
      (case ctx of Some c \<Rightarrow> list_ex (\<lambda>(s, n). audit_uid_comparator E uid (f_op f) (n_uid n)) (entries c) | None \<Rightarrow> False))"

definition audit_compare_gid :: "filter_env \<Rightarrow> u32 \<Rightarrow> audit_names option \<Rightarrow> audit_field \<Rightarrow> 'c sc option \<Rightarrow> bool" where
  "audit_compare_gid E gid name f ctx =
     ((case name of Some n \<Rightarrow> audit_gid_comparator E gid (f_op f) (n_gid n) | None \<Rightarrow> False) \<or>
      (case ctx of Some c \<Rightarrow> list_ex (\<lambda>(s, n). audit_gid_comparator E gid (f_op f) (n_gid n)) (entries c) | None \<Rightarrow> False))"

definition audit_field_compare :: "filter_env \<Rightarrow> 't ft \<Rightarrow> audit_field \<Rightarrow> 'c sc option \<Rightarrow> audit_names option \<Rightarrow> bool" where
  "audit_field_compare E t f ctx name =
     (let uid = (\<lambda>a b. audit_uid_comparator E a (f_op f) b); gid = (\<lambda>a b. audit_gid_comparator E a (f_op f) b);
          obj_uid = (\<lambda>a. audit_compare_uid E a name f ctx); obj_gid = (\<lambda>a. audit_compare_gid E a name f ctx) in
      case comparison_of E (f_val f) of
        None \<Rightarrow> False
      | Some c \<Rightarrow> (case c of
            UID_TO_OBJ_UID \<Rightarrow> obj_uid (tk_uid t)
          | GID_TO_OBJ_GID \<Rightarrow> obj_gid (tk_gid t)
          | EUID_TO_OBJ_UID \<Rightarrow> obj_uid (tk_euid t)
          | EGID_TO_OBJ_GID \<Rightarrow> obj_gid (tk_egid t)
          | AUID_TO_OBJ_UID \<Rightarrow> obj_uid (t_loginuid t)
          | SUID_TO_OBJ_UID \<Rightarrow> obj_uid (tk_suid t)
          | SGID_TO_OBJ_GID \<Rightarrow> obj_gid (tk_sgid t)
          | FSUID_TO_OBJ_UID \<Rightarrow> obj_uid (tk_fsuid t)
          | FSGID_TO_OBJ_GID \<Rightarrow> obj_gid (tk_fsgid t)
          | UID_TO_AUID \<Rightarrow> uid (tk_uid t) (t_loginuid t)
          | UID_TO_EUID \<Rightarrow> uid (tk_uid t) (tk_euid t)
          | UID_TO_SUID \<Rightarrow> uid (tk_uid t) (tk_suid t)
          | UID_TO_FSUID \<Rightarrow> uid (tk_uid t) (tk_fsuid t)
          | AUID_TO_EUID \<Rightarrow> uid (t_loginuid t) (tk_euid t)
          | AUID_TO_SUID \<Rightarrow> uid (t_loginuid t) (tk_suid t)
          | AUID_TO_FSUID \<Rightarrow> uid (t_loginuid t) (tk_fsuid t)
          | EUID_TO_SUID \<Rightarrow> uid (tk_euid t) (tk_suid t)
          | EUID_TO_FSUID \<Rightarrow> uid (tk_euid t) (tk_fsuid t)
          | SUID_TO_FSUID \<Rightarrow> uid (tk_suid t) (tk_fsuid t)
          | GID_TO_EGID \<Rightarrow> gid (tk_gid t) (tk_egid t)
          | GID_TO_SGID \<Rightarrow> gid (tk_gid t) (tk_sgid t)
          | GID_TO_FSGID \<Rightarrow> gid (tk_gid t) (tk_fsgid t)
          | EGID_TO_SGID \<Rightarrow> gid (tk_egid t) (tk_sgid t)
          | EGID_TO_FSGID \<Rightarrow> gid (tk_egid t) (tk_fsgid t)
          | SGID_TO_FSGID \<Rightarrow> gid (tk_sgid t) (tk_fsgid t)))"

text \<open>The name at hand, else any name of the context.\<close>

definition any_name :: "(audit_names \<Rightarrow> bool) \<Rightarrow> audit_names option \<Rightarrow> 'c sc option \<Rightarrow> bool" where
  "any_name P name ctx =
     (case name of
        Some n \<Rightarrow> P n
      | None \<Rightarrow> (case ctx of Some c \<Rightarrow> list_ex (\<lambda>(s, n). P n) (entries c) | None \<Rightarrow> False))"

text \<open>A field with a label of the security module; a match is any number but zero, errors included.\<close>

definition obj_label :: "filter_env \<Rightarrow> audit_field \<Rightarrow> 'c sc option \<Rightarrow> audit_names option \<Rightarrow> bool" where
  "obj_label E f ctx name =
     (if f_lsm f = None then False
      else
        let r = (case name of
            Some n \<Rightarrow> rule_match E (n_osid n) f
          | None \<Rightarrow> if any_name (\<lambda>n. rule_match E (n_osid n) f \<noteq> 0) None ctx then 1 else 0)
        in (case ctx of
              None \<Rightarrow> r \<noteq> 0
            | Some c \<Rightarrow>
                if special c \<noteq> AUDIT_IPC then r \<noteq> 0
                else (if rule_match E (ipc_osid c) f \<noteq> 0 then r + 1 else r) \<noteq> 0))"

text \<open>The groups of the process count beside its group.\<close>

definition group_field :: "(u32 \<Rightarrow> bool) \<Rightarrow> audit_field \<Rightarrow> bool \<Rightarrow> bool" where
  "group_field grp f r =
     (if f_op f = Audit_equal then (if \<not> r then grp (f_gid f) else r)
      else if f_op f = Audit_not_equal then (if r then \<not> grp (f_gid f) else r)
      else r)"

definition simple_field :: "filter_env \<Rightarrow> 't ft \<Rightarrow> krule \<Rightarrow> 'c sc option \<Rightarrow> audit_names option \<Rightarrow> audit_field \<Rightarrow> bool" where
  "simple_field E t rule ctx name f =
     (let num = (\<lambda>a. audit_comparator E a (f_op f) (f_val f)); uid = (\<lambda>a. audit_uid_comparator E a (f_op f) (f_uid f));
          gid = (\<lambda>a. audit_gid_comparator E a (f_op f) (f_gid f));
          dev = (\<lambda>part. any_name (\<lambda>n. num (int (part (n_dev n))) \<or> num (int (part (n_rdev n)))) name ctx);
          in_ctx = (\<lambda>P. case ctx of Some c \<Rightarrow> P c | None \<Rightarrow> False);
          subj = (f_lsm f \<noteq> None \<and> rule_match E (task_secid E) f \<noteq> 0);
          arg = (\<lambda>i. in_ctx (\<lambda>c. num (uint (argv c i)))) in
      case f_type f of
        AUDIT_PID \<Rightarrow> num (tk_pid t)
      | AUDIT_EXE \<Rightarrow> exe_compare E (r_exe rule)
      | AUDIT_UID \<Rightarrow> uid (tk_uid t)
      | AUDIT_EUID \<Rightarrow> uid (tk_euid t)
      | AUDIT_SUID \<Rightarrow> uid (tk_suid t)
      | AUDIT_FSUID \<Rightarrow> uid (tk_fsuid t)
      | AUDIT_GID \<Rightarrow> group_field (in_group_p E) f (gid (tk_gid t))
      | AUDIT_EGID \<Rightarrow> group_field (in_egroup_p E) f (gid (tk_egid t))
      | AUDIT_SGID \<Rightarrow> gid (tk_sgid t)
      | AUDIT_FSGID \<Rightarrow> gid (tk_fsgid t)
      | AUDIT_PERS \<Rightarrow> num (uint (t_personality t))
      | AUDIT_ARCH \<Rightarrow> in_ctx (\<lambda>c. num (uint (arch c)))
      | AUDIT_EXIT \<Rightarrow> in_ctx (\<lambda>c. return_valid c \<noteq> 0 \<and> num (return_code c))
      | AUDIT_SUCCESS \<Rightarrow> in_ctx (\<lambda>c. return_valid c \<noteq> 0 \<and>
          audit_comparator E (int (return_valid c)) (f_op f) (of_nat (if f_val f \<noteq> 0 then AUDITSC_SUCCESS else AUDITSC_FAILURE)))
      | AUDIT_DEVMAJOR \<Rightarrow> dev MAJOR
      | AUDIT_DEVMINOR \<Rightarrow> dev MINOR
      | AUDIT_INODE \<Rightarrow> any_name (\<lambda>n. num (uint (n_ino n))) name ctx
      | AUDIT_OBJ_UID \<Rightarrow> any_name (\<lambda>n. uid (n_uid n)) name ctx
      | AUDIT_OBJ_GID \<Rightarrow> any_name (\<lambda>n. gid (n_gid n)) name ctx
      | AUDIT_WATCH \<Rightarrow> (case name of Some n \<Rightarrow> watch_compare E (r_watch rule) (n_ino n) (n_dev n) | None \<Rightarrow> False)
      | AUDIT_LOGINUID \<Rightarrow> uid (t_loginuid t)
      | AUDIT_LOGINUID_SET \<Rightarrow> num (if t_loginuid t \<noteq> - 1 then 1 else 0)
      | AUDIT_SUBJ_USER \<Rightarrow> subj | AUDIT_SUBJ_ROLE \<Rightarrow> subj | AUDIT_SUBJ_TYPE \<Rightarrow> subj | AUDIT_SUBJ_SEN \<Rightarrow> subj | AUDIT_SUBJ_CLR \<Rightarrow> subj
      | AUDIT_OBJ_USER \<Rightarrow> obj_label E f ctx name | AUDIT_OBJ_ROLE \<Rightarrow> obj_label E f ctx name | AUDIT_OBJ_TYPE \<Rightarrow> obj_label E f ctx name
      | AUDIT_OBJ_LEV_LOW \<Rightarrow> obj_label E f ctx name | AUDIT_OBJ_LEV_HIGH \<Rightarrow> obj_label E f ctx name
      | AUDIT_ARG0 \<Rightarrow> arg 0 | AUDIT_ARG1 \<Rightarrow> arg 1 | AUDIT_ARG2 \<Rightarrow> arg 2 | AUDIT_ARG3 \<Rightarrow> arg 3
      | AUDIT_FILTERKEY \<Rightarrow> True
      | AUDIT_PERM \<Rightarrow> audit_match_perm E ctx (f_val f)
      | AUDIT_FILETYPE \<Rightarrow> audit_match_filetype ctx (f_val f)
      | AUDIT_FIELD_COMPARE \<Rightarrow> audit_field_compare E t f ctx name
      | _ \<Rightarrow> False)"

text \<open>
  One field of a rule, with the two that are more than a comparison: the parent's number is looked up once
  and kept, and a directory is searched in the trees.
\<close>

definition filter_field :: "filter_env \<Rightarrow> 't ft \<Rightarrow> krule \<Rightarrow> audit_names option \<Rightarrow> audit_field \<Rightarrow> 'c sc option \<Rightarrow> (bool \<times> 'c sc option) option" where
  "filter_field E t rule name f ctx =
     (case f_type f of
        AUDIT_PPID \<Rightarrow>
          (case ctx of
             None \<Rightarrow> Some (False, None)
           | Some c \<Rightarrow>
               let c = (if ppid c = 0 then c\<lparr>ppid := tk_ppid t\<rparr> else c)
               in Some (audit_comparator E (ppid c) (f_op f) (f_val f), Some c))
      | AUDIT_DIR \<Rightarrow>
          (case ctx of
             None \<Rightarrow> Some (False, None)
           | Some c \<Rightarrow> do { r \<leftarrow> match_tree_refs (r_tree rule) c; Some (r, ctx) })
      | _ \<Rightarrow> Some (simple_field E t rule ctx name f, ctx))"
section \<open>Rules and lists of rules\<close>

primrec filter_fields :: "filter_env \<Rightarrow> 't ft \<Rightarrow> krule \<Rightarrow> audit_names option \<Rightarrow> audit_field list \<Rightarrow> 'c sc option \<Rightarrow> (bool \<times> 'c sc option) option" where
  "filter_fields E t rule name [] ctx = Some (True, ctx)"
| "filter_fields E t rule name (f # fs) ctx = do {
     (result, ctx) \<leftarrow> filter_field E t rule name f ctx;
     (if \<not> result then Some (False, ctx) else filter_fields E t rule name fs ctx)
   }"

text \<open>A copy of a string is an object; freeing a null pointer does nothing.\<close>

definition kstrdup :: "byte list option \<Rightarrow> 'z world_scheme \<Rightarrow> (nat \<times> byte list) option \<times> 'z world_scheme" where
  "kstrdup s w =
     (case s of
        None \<Rightarrow> (None, w)
      | Some bs \<Rightarrow> (case kmalloc (Suc (length bs)) w of (None, w) \<Rightarrow> (None, w) | (Some (k, _), w) \<Rightarrow> (Some (k, bs), w)))"

definition kfree_key :: "(nat \<times> byte list) option \<Rightarrow> 'z world_scheme \<Rightarrow> 'z world_scheme option" where
  "kfree_key key w = (case key of None \<Rightarrow> Some w | Some (k, _) \<Rightarrow> kfree k w)"

text \<open>The state an action asks for; \<open>AUDIT_POSSIBLE\<close> leaves the variable of the caller as it is, \<open>None\<close> when nothing was stored in it.\<close>

definition action_state :: "action \<Rightarrow> audit_state option \<Rightarrow> audit_state option" where
  "action_state a old = (case a of AUDIT_NEVER \<Rightarrow> Some AUDIT_DISABLED | AUDIT_ALWAYS \<Rightarrow> Some AUDIT_RECORD_CONTEXT | AUDIT_POSSIBLE \<Rightarrow> old)"

definition audit_filter_rules :: "filter_env \<Rightarrow> 't ft \<Rightarrow> krule \<Rightarrow> 'c sc option \<Rightarrow> audit_names option \<Rightarrow> audit_state option \<Rightarrow>
    'z world_scheme \<Rightarrow> (bool \<times> audit_state option \<times> 'c sc option \<times> 'z world_scheme) option" where
  "audit_filter_rules E t rule ctx name state w = do {
     (matched, ctx) \<leftarrow> filter_fields E t rule name (r_fields rule) ctx;
     (if \<not> matched then Some (False, state, ctx, w)
      else (case ctx of
          None \<Rightarrow> Some (True, action_state (r_action rule) state, None, w)
        | Some c \<Rightarrow>
            if r_prio rule \<le> prio c then Some (False, state, ctx, w)
            else do {
              (c, w) \<leftarrow> (case r_filterkey rule of
                  None \<Rightarrow> Some (c, w)
                | Some _ \<Rightarrow> do {
                    w \<leftarrow> kfree_key (filterkey c) w;
                    let (key, w) = kstrdup (r_filterkey rule) w;
                    Some (c\<lparr>filterkey := key\<rparr>, w)
                  });
              Some (True, action_state (r_action rule) state, Some (c\<lparr>prio := r_prio rule\<rparr>), w)
            }))
   }"

text \<open>When a task is created: no context yet, so that the result is a state and a key.\<close>

primrec audit_filter_task :: "filter_env \<Rightarrow> 't ft \<Rightarrow> krule list \<Rightarrow> audit_state option \<Rightarrow> 'z world_scheme \<Rightarrow>
    (audit_state \<times> (nat \<times> byte list) option \<times> 'z world_scheme) option" where
  "audit_filter_task E t [] state w = Some (AUDIT_BUILD_CONTEXT, None, w)"
| "audit_filter_task E t (rule # rules) state w = do {
     (matched, state, _, w) \<leftarrow> audit_filter_rules E t rule (None :: syscall_ctx option) None state w;
     (if matched then do {
        s \<leftarrow> state;
        let (key, w) = (if s = AUDIT_RECORD_CONTEXT then kstrdup (r_filterkey rule) w else (None, w));
        Some (s, key, w)
      }
      else audit_filter_task E t rules state w)
   }"

text \<open>The bit of a call in the mask of a rule; the number of the call is converted to an unsigned word of 64 bits.\<close>

definition audit_in_mask :: "krule \<Rightarrow> u64 \<Rightarrow> bool" where
  "audit_in_mask rule val =
     (if val > 0xffffffff then False
      else
        let wd = unat val div 32 in
        if wd \<ge> 64 then False
        else bit (r_mask rule wd) (unat val mod 32))"

abbreviation call_number :: "'c sc \<Rightarrow> u64" where "call_number c \<equiv> word_of_int (major c)"

text \<open>
  The first rule of a list that matches decides; a state that was never stored is a fault. The
  result says whether a rule matched.
\<close>

primrec filter_list :: "filter_env \<Rightarrow> 't ft \<Rightarrow> audit_names option \<Rightarrow> krule list \<Rightarrow> audit_state option \<Rightarrow> 'c sc \<Rightarrow> 'z world_scheme \<Rightarrow>
    (audit_state option \<times> 'c sc \<times> 'z world_scheme) option" where
  "filter_list E t name [] state c w = Some (None, c, w)"
| "filter_list E t name (rule # rules) state c w =
     (if \<not> audit_in_mask rule (call_number c) then filter_list E t name rules state c w
      else do {
        (matched, state, ctx, w) \<leftarrow> audit_filter_rules E t rule (Some c) name state w;
        c \<leftarrow> ctx;
        (if matched then do { s \<leftarrow> state; Some (Some s, c\<lparr>current_state := s\<rparr>, w) }
         else filter_list E t name rules state c w)
      })"

definition audit_filter_syscall :: "filter_env \<Rightarrow> int \<Rightarrow> 't ft \<Rightarrow> krule list \<Rightarrow> 'c sc \<Rightarrow> 'z world_scheme \<Rightarrow> (audit_state \<times> 'c sc \<times> 'z world_scheme) option" where
  "audit_filter_syscall E daemon t rules c w =
     (if daemon \<noteq> 0 \<and> t_tgid t = daemon then Some (AUDIT_DISABLED, c, w)
      else do {
        (s, c, w) \<leftarrow> filter_list E t None rules None c w;
        Some (case s of None \<Rightarrow> AUDIT_BUILD_CONTEXT | Some s \<Rightarrow> s, c, w)
      })"

text \<open>The rules on inodes are in lists by the hash of the inode number.\<close>

definition audit_filter_inode_name :: "filter_env \<Rightarrow> (nat \<Rightarrow> krule list) \<Rightarrow> 't ft \<Rightarrow> audit_names \<Rightarrow> 'c sc \<Rightarrow> 'z world_scheme \<Rightarrow> (bool \<times> 'c sc \<times> 'z world_scheme) option" where
  "audit_filter_inode_name E inode_hash t n c w = do {
     (s, c, w) \<leftarrow> filter_list E t (Some n) (inode_hash (hash_ino E (ucast (n_ino n)))) None c w;
     Some (s \<noteq> None, c, w)
   }"

primrec filter_names :: "filter_env \<Rightarrow> (nat \<Rightarrow> krule list) \<Rightarrow> 't ft \<Rightarrow> (slot \<times> audit_names) list \<Rightarrow> 'c sc \<Rightarrow> 'z world_scheme \<Rightarrow> ('c sc \<times> 'z world_scheme) option" where
  "filter_names E inode_hash t [] c w = Some (c, w)"
| "filter_names E inode_hash t (e # es) c w = do {
     (found, c, w) \<leftarrow> audit_filter_inode_name E inode_hash t (snd e) c w;
     (if found then Some (c, w) else filter_names E inode_hash t es c w)
   }"

definition audit_filter_inodes :: "filter_env \<Rightarrow> int \<Rightarrow> (nat \<Rightarrow> krule list) \<Rightarrow> 't ft \<Rightarrow> 'c sc \<Rightarrow> 'z world_scheme \<Rightarrow> ('c sc \<times> 'z world_scheme) option" where
  "audit_filter_inodes E daemon inode_hash t c w =
     (if daemon \<noteq> 0 \<and> t_tgid t = daemon then Some (c, w)
      else filter_names E inode_hash t (entries c) c w)"
section \<open>What the invariant does not see\<close>

lemma names_frame:
  fixes c c' :: "'c nc"
  assumes h: "names_ok L U sure rest B ext c w" and "tree_nodes c' = tree_nodes c" "first_trees c' = first_trees c" "trees c' = trees c" "tree_count c' = tree_count c"
    and "entries c' = entries c" "name_count c' = name_count c"
  shows "names_ok L U sure rest B ext c' w" and "match_tree_refs m c' = match_tree_refs m c"
proof -
  obtain a xs r where t: "tree_stack sure rest (B + heap_ids (entries c)) a xs r c w" using h by (auto simp: names_ok_def)
  have t': "tree_stack sure rest (B + heap_ids (entries c)) (prio c', current_state c') xs r c' w"
    using t unfolding tree_marked_def chain_holds_def assms(2-) by (elim exE conjE, intro exI conjI) (assumption | rule refl)+
  show "names_ok L U sure rest B ext c' w"
    using h t' assms(2-) by (auto simp: names_ok_def list_ok_def entry_of_def simp del: split_paired_Ex)
  show "match_tree_refs m c' = match_tree_refs m c"
    using match_tree_refs_ok [OF t] match_tree_refs_ok [OF t'] by simp
qed

lemma names_free:
  fixes w :: "'z nw"
  assumes h: "names_ok L U sure rest (B + {#k#}) ext c w"
  shows "ok (kfree k w) (\<lambda>w'. names_ok L U sure rest B ext c w' \<and> files w' = files w)"
proof -
  obtain a xs r where t: "tree_stack sure rest ((B + heap_ids (entries c)) + {#k#}) a xs r c w" using h by (auto simp: names_ok_def ac_simps)
  show ?thesis
  proof (rule ok_mono [OF tree_free [OF t]], elim conjE, rule conjI)
    fix w' assume 1: "tree_stack sure rest (B + heap_ids (entries c)) a xs r c w'" "tree_world.more w' = tree_world.more w"
    show f: "files w' = files w" by (rule more_world [OF 1(2)])
    show "names_ok L U sure rest B ext c w'" using h 1(1) unfolding names_ok_def f by blast
  qed
qed

lemma tree_kmalloc:
  assumes "tree_marked sure rest B a p cnt m xs r ctx w" and "kmalloc n w = (x, w')"
  shows "tree_marked sure rest (B + (case x of None \<Rightarrow> {#} | Some (k, _) \<Rightarrow> {#k#})) a p cnt m xs r ctx w'" "tree_world.more w' = tree_world.more w" "x = None \<Longrightarrow> \<not> sure"
proof -
  show "tree_world.more w' = tree_world.more w" using assms(2) by (auto simp: kmalloc_def Let_def split: if_splits)
  show "x = None \<Longrightarrow> \<not> sure" using assms by (auto simp: kmalloc_def Let_def tree_marked_def split: if_splits)
  show "tree_marked sure rest (B + (case x of None \<Rightarrow> {#} | Some (k, _) \<Rightarrow> {#k#})) a p cnt m xs r ctx w'"
  proof (cases "kfail w (knext w)")
    case True
    then have k: "x = None" "w' = w\<lparr>knext := Suc (knext w)\<rparr>" using assms(2) by (auto simp: kmalloc_def Let_def)
    show ?thesis using assms(1) unfolding tree_marked_def k(1) by (elim exE conjE, intro exI conjI) (assumption | force simp: k)+
  next
    case False
    then obtain bs where k: "x = Some (knext w, bs)" "w' = w\<lparr>knext := Suc (knext w), klive := knext w # klive w\<rparr>"
      using assms(2) by (auto simp: kmalloc_def Let_def)
    show ?thesis using assms(1) unfolding tree_marked_def k(1) by (elim exE conjE, intro exI conjI) (assumption | force simp: k)+
  qed
qed

lemma names_kmalloc:
  fixes w :: "'z nw"
  assumes h: "names_ok L U sure rest B ext c w" and "kmalloc n w = (x, w')"
  shows "names_ok L U sure rest (B + (case x of None \<Rightarrow> {#} | Some (k, _) \<Rightarrow> {#k#})) ext c w'" "files w' = files w" "x = None \<Longrightarrow> \<not> sure"
proof -
  obtain a xs r where t: "tree_stack sure rest (B + heap_ids (entries c)) a xs r c w" using h by (auto simp: names_ok_def)
  show f: "files w' = files w" by (rule more_world [OF tree_kmalloc(2) [OF t assms(2)]])
  show "x = None \<Longrightarrow> \<not> sure" by (rule tree_kmalloc(3) [OF t assms(2)])
  have "tree_stack sure rest ((B + (case x of None \<Rightarrow> {#} | Some (k, _) \<Rightarrow> {#k#})) + heap_ids (entries c)) a xs r c w'"
    using tree_kmalloc(1) [OF t assms(2)] by (simp add: ac_simps)
  then show "names_ok L U sure rest (B + (case x of None \<Rightarrow> {#} | Some (k, _) \<Rightarrow> {#k#})) ext c w'" using h unfolding names_ok_def f by blast
qed

section \<open>The key\<close>

text \<open>The invariant with the object the key of the context is.\<close>

definition key_ids :: "(nat \<times> 'b) option \<Rightarrow> nat multiset" where
  "key_ids key = (case key of None \<Rightarrow> {#} | Some (k, _) \<Rightarrow> {#k#})"

lemma key_ids_simps [simp]: "key_ids None = {#}" "key_ids (Some (k, b)) = {#k#}"
  by (simp_all add: key_ids_def)

definition ctx_ok :: "nat set \<Rightarrow> nat set \<Rightarrow> bool \<Rightarrow> (nat \<Rightarrow> nat) \<Rightarrow> nat multiset \<Rightarrow> (nat \<Rightarrow> nat) \<Rightarrow> 'c sc \<Rightarrow> 'z nw \<Rightarrow> bool" where
  "ctx_ok L U sure rest B ext c w \<longleftrightarrow> names_ok L U sure rest (B + key_ids (filterkey c)) ext c w"

lemma kfree_key_ok:
  fixes w :: "'z nw"
  assumes "names_ok L U sure rest (B + key_ids key) ext c w"
  shows "ok (kfree_key key w) (\<lambda>w'. names_ok L U sure rest B ext c w' \<and> files w' = files w)"
proof (cases key)
  case None
  then show ?thesis using assms by (simp add: kfree_key_def)
next
  case (Some p)
  obtain k b where p: "p = (k, b)" by force
  have "names_ok L U sure rest (B + {#k#}) ext c w" using assms Some p by simp
  from names_free [OF this] show ?thesis using Some p by (simp add: kfree_key_def)
qed

lemma kstrdup_ok:
  fixes w :: "'z nw"
  assumes h: "names_ok L U sure rest B ext c w" and d: "kstrdup s w = (key, w')"
  shows "names_ok L U sure rest (B + key_ids key) ext c w' \<and> files w' = files w \<and> (map_option snd key = s \<or> key = None \<and> \<not> sure)"
proof (cases s)
  case None
  then show ?thesis using h d by (simp add: kstrdup_def)
next
  case (Some bs)
  obtain x w1 where x: "kmalloc (Suc (length bs)) w = (x, w1)" by force
  note m = names_kmalloc [OF h x]
  show ?thesis
  proof (cases x)
    case None
    then have "key = None" "w' = w1" using d Some x by (simp_all add: kstrdup_def)
    then show ?thesis using m None by simp
  next
    case (Some p)
    obtain k b where p: "p = (k, b)" by force
    then have "key = Some (k, bs)" "w' = w1" using d Some x \<open>s = Some bs\<close> by (simp_all add: kstrdup_def)
    then show ?thesis using m(1,2) Some p \<open>s = Some bs\<close> by simp
  qed
qed

section \<open>The meaning of a rule\<close>

text \<open>
  Whether a field holds in a context, and whether a rule applies: its mask has the call, all its fields hold, and
  its priority is above the one that decided before.
\<close>

definition parent_of :: "'t ft \<Rightarrow> 'c sc \<Rightarrow> int" where
  "parent_of t c = (if ppid c = 0 then tk_ppid t else ppid c)"

definition field_holds :: "filter_env \<Rightarrow> 't ft \<Rightarrow> krule \<Rightarrow> audit_names option \<Rightarrow> 'c sc \<Rightarrow> audit_field \<Rightarrow> bool" where
  "field_holds E t rule name c f =
     (case f_type f of
        AUDIT_PPID \<Rightarrow> audit_comparator E (parent_of t c) (f_op f) (f_val f)
      | AUDIT_DIR \<Rightarrow> match_tree_refs (r_tree rule) c = Some True
      | _ \<Rightarrow> simple_field E t rule (Some c) name f)"

definition rule_holds :: "filter_env \<Rightarrow> 't ft \<Rightarrow> audit_names option \<Rightarrow> 'c sc \<Rightarrow> krule \<Rightarrow> bool" where
  "rule_holds E t name c rule \<longleftrightarrow> audit_in_mask rule (call_number c) \<and> list_all (field_holds E t rule name c) (r_fields rule)"

text \<open>The parent's number may be looked up on the way; nothing that is compared changes.\<close>

definition asks :: "'t ft \<Rightarrow> 'c sc \<Rightarrow> 'c sc \<Rightarrow> bool" where
  "asks t c c' \<longleftrightarrow> c' = c \<or> ppid c = 0 \<and> c' = c\<lparr>ppid := tk_ppid t\<rparr>"

lemma asks_refl [simp]: "asks t c c"
  by (simp add: asks_def)

lemma asks_trans: "asks t c c1 \<Longrightarrow> asks t c1 c2 \<Longrightarrow> asks t c c2"
  by (auto simp: asks_def)

lemma simple_field_frame:
  assumes "entries c' = entries c" "arch c' = arch c" "major c' = major c" "argv c' = argv c" "return_valid c' = return_valid c"
    "return_code c' = return_code c" "special c' = special c" "ipc_osid c' = ipc_osid c"
  shows "simple_field E t rule (Some c') name f = simple_field E t rule (Some c) name f"
  unfolding simple_field_def any_name_def obj_label_def audit_match_perm_def audit_match_filetype_def
    audit_field_compare_def audit_compare_uid_def audit_compare_gid_def option.case Let_def assms by (rule refl)

lemma field_holds_frame:
  fixes c c' :: "'c sc"
  assumes h: "names_ok L U sure rest B ext c w" and t: "tree_nodes c' = tree_nodes c" "first_trees c' = first_trees c" "trees c' = trees c" "tree_count c' = tree_count c"
    "entries c' = entries c" "name_count c' = name_count c" and s: "arch c' = arch c" "major c' = major c" "argv c' = argv c" "return_valid c' = return_valid c"
    "return_code c' = return_code c" "special c' = special c" "ipc_osid c' = ipc_osid c" and p: "parent_of t c' = parent_of t c"
  shows "field_holds E t rule name c' f = field_holds E t rule name c f" and "rule_holds E t name c' rule = rule_holds E t name c rule"
proof -
  show f: "field_holds E t rule name c' f = field_holds E t rule name c f" for f
    unfolding field_holds_def p names_frame(2) [OF h t] simple_field_frame [OF t(5) s] by (rule refl)
  have m: "call_number c' = call_number c" using s(2) by simp
  show "rule_holds E t name c' rule = rule_holds E t name c rule" unfolding rule_holds_def m f by (rule refl)
qed

lemma asks_frame:
  fixes c c' :: "'c sc"
  assumes h: "names_ok L U sure rest B ext c w" and a: "asks t c c'"
  shows "names_ok L U sure rest B ext c' w" "field_holds E t rule name c' f = field_holds E t rule name c f" "rule_holds E t name c' rule = rule_holds E t name c rule"
    "prio c' = prio c" "filterkey c' = filterkey c"
proof -
  have e: "tree_nodes c' = tree_nodes c" "first_trees c' = first_trees c" "trees c' = trees c" "tree_count c' = tree_count c"
    "entries c' = entries c" "name_count c' = name_count c" "arch c' = arch c" "major c' = major c" "argv c' = argv c" "return_valid c' = return_valid c"
    "return_code c' = return_code c" "special c' = special c" "ipc_osid c' = ipc_osid c" "parent_of t c' = parent_of t c" "prio c' = prio c" "filterkey c' = filterkey c"
    using a by (auto simp: asks_def parent_of_def)
  show "names_ok L U sure rest B ext c' w" by (rule names_frame(1) [OF h e(1-6)])
  show "field_holds E t rule name c' f = field_holds E t rule name c f" by (rule field_holds_frame(1) [OF h e(1-14)])
  show "rule_holds E t name c' rule = rule_holds E t name c rule" by (rule field_holds_frame(2) [OF h e(1-14)])
  show "prio c' = prio c" "filterkey c' = filterkey c" by (fact e)+
qed
section \<open>The filters do what the rules mean\<close>

lemma filter_field_ok:
  fixes w :: "'z nw"
  assumes h: "names_ok L U sure rest B ext c w"
  shows "\<exists>c'. filter_field E t rule name f (Some c) = Some (field_holds E t rule name c f, Some c') \<and> asks t c c'"
proof -
  obtain a xs r where t: "tree_stack sure rest (B + heap_ids (entries c)) a xs r c w" using h by (auto simp: names_ok_def)
  obtain b where b: "match_tree_refs (r_tree rule) c = Some b" using match_tree_refs_ok [OF t] by blast
  consider "f_type f = AUDIT_PPID" | "f_type f = AUDIT_DIR" | "f_type f \<noteq> AUDIT_PPID" "f_type f \<noteq> AUDIT_DIR" by blast
  then show ?thesis
  proof cases
    case 1
    then show ?thesis by (auto simp: filter_field_def field_holds_def asks_def parent_of_def Let_def)
  next
    case 2
    then show ?thesis using b by (simp add: filter_field_def field_holds_def)
  next
    case 3
    have "filter_field E t rule name f (Some c) = Some (simple_field E t rule (Some c) name f, Some c)"
      using 3 unfolding filter_field_def by (cases "f_type f") simp_all
    moreover have "field_holds E t rule name c f = simple_field E t rule (Some c) name f"
      using 3 unfolding field_holds_def by (cases "f_type f") simp_all
    ultimately show ?thesis by simp
  qed
qed

lemma filter_fields_ok:
  fixes w :: "'z nw"
  assumes "names_ok L U sure rest B ext c w"
  shows "\<exists>c'. filter_fields E t rule name fs (Some c) = Some (list_all (field_holds E t rule name c) fs, Some c') \<and> asks t c c'"
  using assms
proof (induction fs arbitrary: c)
  case Nil
  then show ?case by simp
next
  case (Cons f fs)
  from filter_field_ok [OF Cons.prems] obtain c1 where 1: "filter_field E t rule name f (Some c) = Some (field_holds E t rule name c f, Some c1)" "asks t c c1" by blast
  note a = asks_frame [OF Cons.prems 1(2)]
  from Cons.IH [OF a(1)] obtain c2 where 2: "filter_fields E t rule name fs (Some c1) = Some (list_all (field_holds E t rule name c1) fs, Some c2)" "asks t c1 c2" by blast
  have "list_all (field_holds E t rule name c1) fs = list_all (field_holds E t rule name c) fs" by (simp add: a(2) list_all_iff)
  then show ?case using 1 2 asks_trans [OF 1(2) 2(2)] by auto
qed

text \<open>The context after a rule has decided: its priority and, if it has one, a copy of its key.\<close>

definition takes :: "'t ft \<Rightarrow> bool \<Rightarrow> krule \<Rightarrow> 'c sc \<Rightarrow> 'c sc \<Rightarrow> bool" where
  "takes t sure rule c c' \<longleftrightarrow> (\<exists>c1 k. asks t c c1 \<and> c' = c1\<lparr>filterkey := k, prio := r_prio rule\<rparr> \<and>
     (case r_filterkey rule of None \<Rightarrow> k = filterkey c | Some bs \<Rightarrow> map_option snd k = Some bs \<or> k = None \<and> \<not> sure))"

lemma ctx_ok_frame:
  fixes c c' :: "'c sc"
  assumes "names_ok L U sure rest (B + key_ids (filterkey c')) ext c w" and "tree_nodes c' = tree_nodes c" "first_trees c' = first_trees c" "trees c' = trees c"
    "tree_count c' = tree_count c" "entries c' = entries c" "name_count c' = name_count c"
  shows "ctx_ok L U sure rest B ext c' w"
  unfolding ctx_ok_def by (rule names_frame(1) [OF assms])

lemma filter_rules_ok:
  fixes w :: "'z nw"
  assumes h: "ctx_ok L U sure rest B ext c w"
  shows "ok (audit_filter_rules E t rule (Some c) name st w) (\<lambda>(m, st', ctx', w'). \<exists>c'. ctx' = Some c' \<and> ctx_ok L U sure rest B ext c' w' \<and> files w' = files w \<and>
    m = (list_all (field_holds E t rule name c) (r_fields rule) \<and> prio c < r_prio rule) \<and>
    (if m then st' = action_state (r_action rule) st \<and> takes t sure rule c c' else st' = st \<and> asks t c c'))"
proof -
  note n = h [unfolded ctx_ok_def]
  from filter_fields_ok [OF n] obtain c1 where 1: "filter_fields E t rule name (r_fields rule) (Some c) = Some (list_all (field_holds E t rule name c) (r_fields rule), Some c1)" "asks t c c1" by blast
  note a = asks_frame [OF n 1(2)]
  have c1: "ctx_ok L U sure rest B ext c1 w" using a(1,5) by (simp add: ctx_ok_def)
  show ?thesis
  proof (cases "list_all (field_holds E t rule name c) (r_fields rule) \<and> prio c < r_prio rule")
    case False
    then show ?thesis using 1 c1 a(4) by (auto simp: audit_filter_rules_def)
  next
    case True
    then have m: "list_all (field_holds E t rule name c) (r_fields rule)" "\<not> r_prio rule \<le> prio c1" using a(4) by (simp_all add: not_le)
    show ?thesis
    proof (cases "r_filterkey rule")
      case None
      have "ctx_ok L U sure rest B ext (c1\<lparr>prio := r_prio rule\<rparr>) w"
        by (rule ctx_ok_frame [of _ _ _ _ _ _ _ c1]) (use a(1,5) in simp_all)
      moreover have "takes t sure rule c (c1\<lparr>prio := r_prio rule\<rparr>)"
        unfolding takes_def using 1(2) None a(5) by (intro exI [of _ c1] exI [of _ "filterkey c1"]) simp
      ultimately show ?thesis using 1(1) m True None by (simp add: audit_filter_rules_def)
    next
      case (Some bs)
      from a(1) have "names_ok L U sure rest (B + key_ids (filterkey c1)) ext c1 w" by (simp add: a(5))
      from kfree_key_ok [OF this] obtain w1 where 2: "kfree_key (filterkey c1) w = Some w1" "names_ok L U sure rest B ext c1 w1" "files w1 = files w" by (auto elim!: okE)
      obtain key w2 where 3: "kstrdup (r_filterkey rule) w1 = (key, w2)" by force
      note k = kstrdup_ok [OF 2(2) 3]
      have "ctx_ok L U sure rest B ext (c1\<lparr>filterkey := key, prio := r_prio rule\<rparr>) w2"
        by (rule ctx_ok_frame [of _ _ _ _ _ _ _ c1]) (use k in simp_all)
      moreover have "takes t sure rule c (c1\<lparr>filterkey := key, prio := r_prio rule\<rparr>)"
        unfolding takes_def using 1(2) Some k by (intro exI [of _ c1] exI [of _ key]) simp
      ultimately show ?thesis using 1(1) m True Some 2(1,3) 3 k by (simp add: audit_filter_rules_def)
    qed
  qed
qed

text \<open>A rule decides for a context if it holds and its priority is above the one reached so far.\<close>

definition decides :: "filter_env \<Rightarrow> 't ft \<Rightarrow> audit_names option \<Rightarrow> 'c sc \<Rightarrow> krule \<Rightarrow> bool" where
  "decides E t name c rule \<longleftrightarrow> rule_holds E t name c rule \<and> prio c < r_prio rule"

definition state_of :: "krule \<Rightarrow> audit_state" where
  "state_of rule = (if r_action rule = AUDIT_NEVER then AUDIT_DISABLED else AUDIT_RECORD_CONTEXT)"

definition decided :: "'t ft \<Rightarrow> bool \<Rightarrow> krule \<Rightarrow> 'c sc \<Rightarrow> 'c sc \<Rightarrow> bool" where
  "decided t sure rule c c' \<longleftrightarrow> (\<exists>c1. takes t sure rule c c1 \<and> c' = c1\<lparr>current_state := state_of rule\<rparr>)"

lemma takes_trans: "asks t c c1 \<Longrightarrow> takes t sure rule c1 c' \<Longrightarrow> takes t sure rule c c'"
proof -
  assume a: "asks t c c1" and "takes t sure rule c1 c'"
  then obtain c2 k where 2: "asks t c1 c2" "c' = c2\<lparr>filterkey := k, prio := r_prio rule\<rparr>"
    "case r_filterkey rule of None \<Rightarrow> k = filterkey c1 | Some bs \<Rightarrow> map_option snd k = Some bs \<or> k = None \<and> \<not> sure" by (auto simp: takes_def)
  have "filterkey c1 = filterkey c" using a by (auto simp: asks_def)
  then show ?thesis unfolding takes_def using asks_trans [OF a 2(1)] 2(2,3) by (intro exI [of _ c2] exI [of _ k]) (auto split: option.splits)
qed

lemma decided_trans: "asks t c c1 \<Longrightarrow> decided t sure rule c1 c' \<Longrightarrow> decided t sure rule c c'"
  unfolding decided_def by (blast intro: takes_trans)

lemma filter_list_ok:
  fixes w :: "'z nw"
  assumes "ctx_ok L U sure rest B ext c w" and "\<forall>rule \<in> set rules. r_action rule \<noteq> AUDIT_POSSIBLE"
  shows "ok (filter_list E t name rules st c w) (\<lambda>(s, c', w'). ctx_ok L U sure rest B ext c' w' \<and> files w' = files w \<and>
    (case find (decides E t name c) rules of
       None \<Rightarrow> s = None \<and> asks t c c'
     | Some rule \<Rightarrow> s = Some (state_of rule) \<and> decided t sure rule c c'))"
  using assms
proof (induction rules arbitrary: st c w)
  case Nil
  then show ?case by simp
next
  case (Cons rule rules)
  note n = Cons.prems(1) [unfolded ctx_ok_def]
  have p: "\<forall>rule \<in> set rules. r_action rule \<noteq> AUDIT_POSSIBLE" using Cons.prems(2) by simp
  show ?case
  proof (cases "audit_in_mask rule (call_number c)")
    case False
    then have "\<not> decides E t name c rule" by (simp add: decides_def rule_holds_def)
    then show ?thesis using Cons.IH [OF Cons.prems(1) p] False by simp
  next
    case True
    from filter_rules_ok [OF Cons.prems(1), of E t rule name st] obtain m st1 c1 w1
      where 1: "audit_filter_rules E t rule (Some c) name st w = Some (m, st1, Some c1, w1)" "ctx_ok L U sure rest B ext c1 w1" "files w1 = files w"
        "m = (list_all (field_holds E t rule name c) (r_fields rule) \<and> prio c < r_prio rule)"
        "if m then st1 = action_state (r_action rule) st \<and> takes t sure rule c c1 else st1 = st \<and> asks t c c1" by (auto elim!: okE)
    have m: "m = decides E t name c rule" using 1(4) True by (simp add: decides_def rule_holds_def)
    show ?thesis
    proof (cases m)
      case False
      have a: "asks t c c1" using 1(5) False by simp
      have d: "decides E t name c1 = decides E t name c"
        using asks_frame(3,4) [OF n a] by (simp add: decides_def fun_eq_iff)
      have run: "filter_list E t name (rule # rules) st c w = filter_list E t name rules st1 c1 w1" using 1(1) True False by simp
      show ?thesis unfolding run
        by (rule ok_mono [OF Cons.IH [OF 1(2) p]])
          (use 1(3) False m asks_trans [OF a] decided_trans [OF a] in \<open>auto simp: d split: option.splits\<close>)
    next
      case m': True
      have s: "st1 = Some (state_of rule)" using 1(5) m' Cons.prems(2) by (cases "r_action rule") (simp_all add: action_state_def state_of_def)
      have "ctx_ok L U sure rest B ext (c1\<lparr>current_state := state_of rule\<rparr>) w1"
        by (rule ctx_ok_frame [of _ _ _ _ _ _ _ c1]) (use 1(2) in \<open>simp_all add: ctx_ok_def\<close>)
      then show ?thesis using 1(1,3,5) True m m' s by (auto simp: decided_def)
    qed
  qed
qed
lemma find_append: "find P (xs @ ys) = (case find P xs of None \<Rightarrow> find P ys | Some x \<Rightarrow> Some x)"
  by (induction xs) auto

lemma find_pairs: "find (\<lambda>(n, r). P n r) (map (Pair n) rs) = map_option (Pair n) (find (P n) rs)"
  by (induction rs) auto

text \<open>The rules on inodes that concern the names of a call, in the order they are tried.\<close>

definition inode_rules :: "filter_env \<Rightarrow> (nat \<Rightarrow> krule list) \<Rightarrow> (slot \<times> audit_names) list \<Rightarrow> (audit_names \<times> krule) list" where
  "inode_rules E H es = concat (map (\<lambda>e. map (Pair (snd e)) (H (hash_ino E (ucast (n_ino (snd e)))))) es)"

lemma asks_decides:
  fixes w :: "'z nw"
  assumes "ctx_ok L U sure rest B ext c w" and "asks t c c1"
  shows "decides E t name c1 = decides E t name c"
  using asks_frame(3,4) [OF assms(1) [unfolded ctx_ok_def] assms(2)] by (simp add: decides_def fun_eq_iff)

lemma filter_names_ok:
  fixes w :: "'z nw"
  assumes "ctx_ok L U sure rest B ext c w" and "\<forall>h. \<forall>rule \<in> set (H h). r_action rule \<noteq> AUDIT_POSSIBLE"
  shows "ok (filter_names E H t es c w) (\<lambda>(c', w'). ctx_ok L U sure rest B ext c' w' \<and> files w' = files w \<and>
    (case find (\<lambda>(n, r). decides E t (Some n) c r) (inode_rules E H es) of
       None \<Rightarrow> asks t c c'
     | Some (n, rule) \<Rightarrow> decided t sure rule c c'))"
  using assms(1)
proof (induction es arbitrary: c w)
  case Nil
  then show ?case by (simp add: inode_rules_def)
next
  case (Cons e es)
  define rules where "rules = H (hash_ino E (ucast (n_ino (snd e))))"
  have p: "\<forall>rule \<in> set rules. r_action rule \<noteq> AUDIT_POSSIBLE" using assms(2) by (simp add: rules_def)
  have split: "find (\<lambda>(n, r). decides E t (Some n) c r) (inode_rules E H (e # es)) =
      (case find (decides E t (Some (snd e)) c) rules of None \<Rightarrow> find (\<lambda>(n, r). decides E t (Some n) c r) (inode_rules E H es)
       | Some r \<Rightarrow> Some (snd e, r))"
    by (simp add: inode_rules_def rules_def find_append find_pairs split: option.splits)
  from filter_list_ok [OF Cons.prems p, of E t "Some (snd e)" None] obtain s c1 w1
    where 1: "filter_list E t (Some (snd e)) rules None c w = Some (s, c1, w1)" "ctx_ok L U sure rest B ext c1 w1" "files w1 = files w"
      "case find (decides E t (Some (snd e)) c) rules of None \<Rightarrow> s = None \<and> asks t c c1
       | Some rule \<Rightarrow> s = Some (state_of rule) \<and> decided t sure rule c c1" by (auto elim!: okE)
  have run: "audit_filter_inode_name E H t (snd e) c w = Some (s \<noteq> None, c1, w1)"
    using 1(1) by (simp add: audit_filter_inode_name_def rules_def)
  show ?case
  proof (cases "find (decides E t (Some (snd e)) c) rules")
    case (Some r)
    then show ?thesis using 1 run split by simp
  next
    case None
    then have a: "s = None" "asks t c c1" using 1(4) by simp_all
    have d: "(\<lambda>(n, r). decides E t (Some n) c1 r) = (\<lambda>(n, r). decides E t (Some n) c r)"
      using asks_decides [OF Cons.prems a(2)] by (simp add: fun_eq_iff)
    have r2: "filter_names E H t (e # es) c w = filter_names E H t es c1 w1" using run a(1) by simp
    show ?thesis unfolding r2 split None option.case
      by (rule ok_mono [OF Cons.IH [OF 1(2)]])
        (use 1(3) asks_trans [OF a(2)] decided_trans [OF a(2)] in \<open>auto simp: d split: option.splits\<close>)
  qed
qed

section \<open>The verdict on a call\<close>

text \<open>
  The reference: what has been decided about a call is a priority, a state and a key. A rule that decides
  replaces them, but a rule without a key leaves the key. At the end of a call the first
  rule of the list that holds and has a higher priority decides, and then the first rule on an inode
  of the call; the calls of the daemon itself are not judged.
\<close>

type_synonym verdict = "u64 \<times> audit_state \<times> byte list option"

definition verdict_of :: "'c sc \<Rightarrow> verdict" where
  "verdict_of c = (prio c, current_state c, map_option snd (filterkey c))"

definition judged :: "krule \<Rightarrow> verdict \<Rightarrow> verdict" where
  "judged rule v = (r_prio rule, state_of rule, case r_filterkey rule of None \<Rightarrow> snd (snd v) | Some key \<Rightarrow> Some key)"

definition exit_verdict :: "filter_env \<Rightarrow> int \<Rightarrow> 't ft \<Rightarrow> krule list \<Rightarrow> (nat \<Rightarrow> krule list) \<Rightarrow> 'c sc \<Rightarrow> verdict" where
  "exit_verdict E daemon t rules H c =
     (let v0 = verdict_of c;
          v1 = (case find (\<lambda>r. rule_holds E t None c r \<and> fst v0 < r_prio r) rules of None \<Rightarrow> v0 | Some r \<Rightarrow> judged r v0);
          v2 = (case find (\<lambda>(n, r). rule_holds E t (Some n) c r \<and> fst v1 < r_prio r) (inode_rules E H (entries c)) of
                  None \<Rightarrow> v1 | Some (n, r) \<Rightarrow> judged r v1)
      in if daemon \<noteq> 0 \<and> t_tgid t = daemon then v0 else v2)"

text \<open>A verdict up to keys that were lost for lack of memory.\<close>

definition same_verdict :: "bool \<Rightarrow> verdict \<Rightarrow> verdict \<Rightarrow> bool" where
  "same_verdict sure v v' \<longleftrightarrow> (if sure then v = v' else fst v = fst v' \<and> fst (snd v) = fst (snd v'))"

lemma asks_verdict: "asks t c c' \<Longrightarrow> verdict_of c' = verdict_of c"
  by (auto simp: asks_def verdict_of_def)

lemma decided_verdict: "decided t sure rule c c' \<Longrightarrow> same_verdict sure (verdict_of c') (judged rule (verdict_of c))"
  by (auto simp: decided_def takes_def asks_def verdict_of_def judged_def same_verdict_def split: option.splits)

lemma same_verdict_judged: "same_verdict sure v v' \<Longrightarrow> same_verdict sure (judged rule v) (judged rule v')"
  by (auto simp: same_verdict_def judged_def)

lemma same_verdict_trans: "same_verdict sure v v' \<Longrightarrow> same_verdict sure v' v'' \<Longrightarrow> same_verdict sure v v''"
  by (auto simp: same_verdict_def split: if_splits)

lemma decided_frame:
  fixes w :: "'z nw"
  assumes "ctx_ok L U sure rest B ext c w" and "decided t sure rule c c'"
  shows "rule_holds E t name c' r = rule_holds E t name c r" "entries c' = entries c"
proof -
  obtain c1 k where a: "asks t c c1" "c' = c1\<lparr>filterkey := k, prio := r_prio rule, current_state := state_of rule\<rparr>"
    using assms(2) by (auto simp: decided_def takes_def)
  note h = assms(1) [unfolded ctx_ok_def]
  have "rule_holds E t name c' r = rule_holds E t name c1 r"
    by (rule field_holds_frame(2) [OF asks_frame(1) [OF h a(1)]]) (simp_all add: a(2) parent_of_def)
  then show "rule_holds E t name c' r = rule_holds E t name c r" using asks_frame(3) [OF h a(1)] by simp
  show "entries c' = entries c" using a by (auto simp: asks_def)
qed

lemma exit_filter_ok:
  fixes w :: "'z nw"
  assumes h: "ctx_ok L U sure rest B ext c w" and p: "\<forall>rule \<in> set rules. r_action rule \<noteq> AUDIT_POSSIBLE"
    and q: "\<forall>h. \<forall>rule \<in> set (H h). r_action rule \<noteq> AUDIT_POSSIBLE"
  shows "ok (do { (_, c, w) \<leftarrow> audit_filter_syscall E daemon t rules c w; audit_filter_inodes E daemon H t c w })
    (\<lambda>(c', w'). ctx_ok L U sure rest B ext c' w' \<and> files w' = files w \<and> same_verdict sure (verdict_of c') (exit_verdict E daemon t rules H c))"
proof (cases "daemon \<noteq> 0 \<and> t_tgid t = daemon")
  case True
  then show ?thesis using h by (simp add: audit_filter_syscall_def audit_filter_inodes_def exit_verdict_def Let_def same_verdict_def)
next
  case False
  from filter_list_ok [OF h p, of E t None None] obtain s c1 w1
    where 1: "filter_list E t None rules None c w = Some (s, c1, w1)" "ctx_ok L U sure rest B ext c1 w1" "files w1 = files w"
      "case find (decides E t None c) rules of None \<Rightarrow> s = None \<and> asks t c c1 | Some rule \<Rightarrow> s = Some (state_of rule) \<and> decided t sure rule c c1"
    by (auto elim!: okE)
  define v1 where "v1 = (case find (\<lambda>r. rule_holds E t None c r \<and> fst (verdict_of c) < r_prio r) rules of None \<Rightarrow> verdict_of c | Some r \<Rightarrow> judged r (verdict_of c))"
  have f: "decides E t None c = (\<lambda>r. rule_holds E t None c r \<and> fst (verdict_of c) < r_prio r)" by (simp add: decides_def verdict_of_def fun_eq_iff)
  have v: "same_verdict sure (verdict_of c1) v1"
    using 1(4) decided_verdict asks_verdict unfolding f v1_def by (fastforce simp: same_verdict_def split: option.splits)
  have re: "rule_holds E t name c1 r = rule_holds E t name c r \<and> entries c1 = entries c" for name r
  proof (cases "find (decides E t None c) rules")
    case None
    then have a: "asks t c c1" using 1(4) by simp
    have "entries c1 = entries c" using a by (auto simp: asks_def)
    then show ?thesis using asks_frame(3) [OF h [unfolded ctx_ok_def] a] by simp
  next
    case (Some x)
    then have d: "decided t sure x c c1" using 1(4) by simp
    from decided_frame [OF h d] show ?thesis by simp
  qed
  then have r: "rule_holds E t name c1 r = rule_holds E t name c r" and e: "entries c1 = entries c" for name r by blast+
  have g: "(\<lambda>(n, r). decides E t (Some n) c1 r) = (\<lambda>(n, r). rule_holds E t (Some n) c r \<and> fst v1 < r_prio r)"
    using v by (auto simp: decides_def r verdict_of_def same_verdict_def fun_eq_iff split: if_splits)
  have run: "(do { (_, c, w) \<leftarrow> audit_filter_syscall E daemon t rules c w; audit_filter_inodes E daemon H t c w }) = filter_names E H t (entries c) c1 w1"
    using 1(1) False e by (auto simp: audit_filter_syscall_def audit_filter_inodes_def)
  have ev: "exit_verdict E daemon t rules H c = (case find (\<lambda>(n, r). rule_holds E t (Some n) c r \<and> fst v1 < r_prio r) (inode_rules E H (entries c)) of
      None \<Rightarrow> v1 | Some (n, r) \<Rightarrow> judged r v1)"
    unfolding exit_verdict_def Let_def v1_def [symmetric] if_not_P [OF False] by (rule refl)
  show ?thesis unfolding run
  proof (rule ok_mono [OF filter_names_ok [OF 1(2) q]])
    fix x assume 2: "case x of (c', w') \<Rightarrow> ctx_ok L U sure rest B ext c' w' \<and> files w' = files w1 \<and>
       (case find (\<lambda>(n, r). decides E t (Some n) c1 r) (inode_rules E H (entries c)) of None \<Rightarrow> asks t c1 c' | Some (n, rule) \<Rightarrow> decided t sure rule c1 c')"
    obtain c2 w2 where x: "x = (c2, w2)" by force
    have "same_verdict sure (verdict_of c2) (exit_verdict E daemon t rules H c)"
    proof (cases "find (\<lambda>(n, r). rule_holds E t (Some n) c r \<and> fst v1 < r_prio r) (inode_rules E H (entries c))")
      case None
      then show ?thesis using 2 x v asks_verdict unfolding g ev by fastforce
    next
      case (Some nr)
      obtain n r where nr: "nr = (n, r)" by force
      have "decided t sure r c1 c2" using 2 Some nr unfolding x g by simp
      from same_verdict_trans [OF decided_verdict [OF this] same_verdict_judged [OF v]] show ?thesis using Some nr unfolding ev by simp
    qed
    then show "case x of (c', w') \<Rightarrow> ctx_ok L U sure rest B ext c' w' \<and> files w' = files w \<and> same_verdict sure (verdict_of c') (exit_verdict E daemon t rules H c)"
      using 2 x 1(3) by simp
  qed
qed
section \<open>Filtering a new task\<close>

text \<open>Without a context the fields of parent and directory never hold; the others do not look at one.\<close>

definition task_rule :: "filter_env \<Rightarrow> 't ft \<Rightarrow> krule \<Rightarrow> bool" where
  "task_rule E t rule \<longleftrightarrow>
     (\<forall>f \<in> set (r_fields rule). f_type f \<noteq> AUDIT_PPID \<and> f_type f \<noteq> AUDIT_DIR \<and> simple_field E t rule (None :: syscall_ctx option) None f)"

lemma filter_fields_task:
  "filter_fields E t rule None fs (None :: syscall_ctx option) =
     Some (\<forall>f \<in> set fs. f_type f \<noteq> AUDIT_PPID \<and> f_type f \<noteq> AUDIT_DIR \<and> simple_field E t rule (None :: syscall_ctx option) None f, None)"
proof (induction fs)
  case (Cons f fs)
  have "filter_field E t rule None f (None :: syscall_ctx option) =
     Some (f_type f \<noteq> AUDIT_PPID \<and> f_type f \<noteq> AUDIT_DIR \<and> simple_field E t rule (None :: syscall_ctx option) None f, None)"
    unfolding filter_field_def by (cases "f_type f") simp_all
  then show ?case using Cons by simp
qed simp

text \<open>The first rule that holds gives the state, and its key if the task is to be recorded.\<close>

lemma filter_task_ok:
  fixes w :: "'z nw" and c :: "'c nc"
  assumes "names_ok L U sure rest B ext c w" and "\<forall>rule \<in> set rules. r_action rule \<noteq> AUDIT_POSSIBLE"
  shows "ok (audit_filter_task E t rules st w) (\<lambda>(s, key, w'). names_ok L U sure rest (B + key_ids key) ext c w' \<and> files w' = files w \<and>
    (case find (task_rule E t) rules of
       None \<Rightarrow> s = AUDIT_BUILD_CONTEXT \<and> key = None
     | Some rule \<Rightarrow> s = state_of rule \<and>
         (if s = AUDIT_RECORD_CONTEXT then map_option snd key = r_filterkey rule \<or> key = None \<and> \<not> sure else key = None)))"
  using assms(2)
proof (induction rules arbitrary: st)
  case Nil
  then show ?case using assms(1) by simp
next
  case (Cons rule rules)
  have m: "audit_filter_rules E t rule (None :: syscall_ctx option) None st w =
      Some (task_rule E t rule, if task_rule E t rule then action_state (r_action rule) st else st, None, w)"
    by (simp add: audit_filter_rules_def filter_fields_task task_rule_def)
  show ?case
  proof (cases "task_rule E t rule")
    case False
    then show ?thesis using Cons m by simp
  next
    case True
    have s: "action_state (r_action rule) st = Some (state_of rule)" using Cons.prems by (cases "r_action rule") (simp_all add: action_state_def state_of_def)
    obtain key w' where k: "kstrdup (r_filterkey rule) w = (key, w')" by force
    show ?thesis using m True s k kstrdup_ok [OF assms(1) k] assms(1) by simp
  qed
qed

section \<open>Properties\<close>

text \<open>
  C38: the filters at the end of a call mean what the rules say. For a context in order, with rules the kernel
  accepts (no action \<open>AUDIT_POSSIBLE\<close>), running the exit filter and the filter on inodes gives the verdict of
  the reference: of each list the first rule that holds, whose mask has the call, and whose priority is above what was
  decided before, gives priority, state and key. Nothing faults, the directories' trees are searched
  correctly, and the context owns exactly one copy of its key.
\<close>

theorem audit_exit_filter_equiv:
  fixes w :: "'z nw"
  assumes "ctx_ok L U sure rest B ext c w" and "\<forall>rule \<in> set rules. r_action rule \<noteq> AUDIT_POSSIBLE"
    and "\<forall>h. \<forall>rule \<in> set (H h). r_action rule \<noteq> AUDIT_POSSIBLE"
  shows "ok (do { (_, c, w) \<leftarrow> audit_filter_syscall E daemon t rules c w; audit_filter_inodes E daemon H t c w })
    (\<lambda>(c', w'). ctx_ok L U sure rest B ext c' w' \<and> same_verdict sure (verdict_of c') (exit_verdict E daemon t rules H c))"
  by (rule ok_mono [OF exit_filter_ok [OF assms]]) auto

text \<open>A task that is always recorded has the highest priority there is: no rule changes that.\<close>

lemma exit_verdict_recorded: "prio c = - 1 \<Longrightarrow> exit_verdict E daemon t rules H c = verdict_of c"
proof -
  assume p: "prio c = - 1"
  have "\<not> (- 1 :: u64) < x" for x by (simp add: not_less word_order.extremum)
  then have "find (\<lambda>r. rule_holds E t None c r \<and> fst (verdict_of c) < r_prio r) rules = None"
    "find (\<lambda>(n, r). rule_holds E t (Some n) c r \<and> fst (verdict_of c) < r_prio r) (inode_rules E H (entries c)) = None"
    using p by (auto simp: find_None_iff verdict_of_def)
  then show ?thesis by (simp add: exit_verdict_def Let_def)
qed

section \<open>Concrete rules\<close>

text \<open>
  A call 2 of the process 7 of the user 1000, that touched an inode 12 in a context of two names; one rule records such
  calls with a key, one of a higher priority on the inode does not.
\<close>

definition demo_env :: filter_env where
  "demo_env = \<lparr>audit_comparator = (\<lambda>a p b. if p = Audit_equal then word_of_int a = b else word_of_int a \<noteq> b), audit_uid_comparator = (\<lambda>a p b. (a = b) = (p = Audit_equal)),
     audit_gid_comparator = (\<lambda>a p b. (a = b) = (p = Audit_equal)), in_group_p = (\<lambda>g. False), in_egroup_p = (\<lambda>g. False), exe_compare = (\<lambda>_. False),
     watch_compare = (\<lambda>k i d. i = of_nat k), task_secid = 0, rule_match = (\<lambda>s f. 0), comparison_of = (\<lambda>_. None), classify_syscall = (\<lambda>_ _. 0),
     match_class = (\<lambda>_ _. True), ACC_MODE = (\<lambda>_. 0), SYS_BIND = 2, hash_ino = (\<lambda>i. unat i mod 32)\<rparr>"

definition demo_field :: "field_type \<Rightarrow> u32 \<Rightarrow> audit_field" where
  "demo_field ty v = \<lparr>f_type = ty, f_op = Audit_equal, f_val = v, f_uid = v, f_gid = v, f_lsm = None\<rparr>"

definition demo_rule :: "audit_field list \<Rightarrow> action \<Rightarrow> u64 \<Rightarrow> byte list option \<Rightarrow> krule" where
  "demo_rule fs a p key = \<lparr>r_mask = (\<lambda>_. 4), r_action = a, r_fields = fs, r_filterkey = key, r_prio = p, r_exe = 0, r_watch = 12, r_tree = None\<rparr>"

definition demo_exit_rules :: "krule list" where
  "demo_exit_rules = [demo_rule [demo_field AUDIT_UID 0] AUDIT_ALWAYS 9 None,
     demo_rule [demo_field AUDIT_UID 1000, demo_field AUDIT_PPID 6] AUDIT_ALWAYS 5 (Some (ascii ''key''))]"

definition demo_inode_rules :: "nat \<Rightarrow> krule list" where
  "demo_inode_rules h = (if h = 12 then [demo_rule [demo_field AUDIT_WATCH 0] AUDIT_NEVER 7 None] else [])"

definition demo_task :: filter_task where
  "demo_task = \<lparr>tk_ppid = 6, tk_pid = 7, tk_uid = 1000, tk_gid = 1000, tk_euid = 1000, tk_suid = 1000, tk_fsuid = 1000, tk_egid = 1000, tk_sgid = 1000,
     tk_fsgid = 1000, tk_tty = None, tk_comm = ascii ''cat'', tk_exe = None, t_tgid = 7, t_personality = 0, t_loginuid = 1000\<rparr>"

definition demo_call :: syscall_ctx where
  "demo_call = names_ctx.extend names_demo (syscall_ctx.fields AUDIT_BUILD_CONTEXT 0 2 (\<lambda>_. 0) 0 AUDITSC_SUCCESS 0 None 0 0)"

lemma demo_call_ok: "ctx_ok UNIV {} True (chunk_refs names_demo_world) (mset (klive names_demo_world)) (\<lambda>k. f_ref (files names_demo_world k)) demo_call names_demo_world"
proof -
  have "fresh_names demo_call names_demo_world" using names_demo_ok(1)
    by (simp add: fresh_names_def demo_call_def names_demo_def fresh_trees_def tree_demo_def names_ctx.defs syscall_ctx.defs tree_ctx.defs)
  from fresh_names_ok [OF this, of True] names_demo_ok(5) show ?thesis
    by (simp add: ctx_ok_def demo_call_def names_demo_def tree_demo_def names_ctx.defs syscall_ctx.defs tree_ctx.defs)
qed

theorem audit_exit_filter_equiv_witness:
  "ok (do { (_, c, w) \<leftarrow> audit_filter_syscall demo_env 0 demo_task demo_exit_rules demo_call names_demo_world; audit_filter_inodes demo_env 0 demo_inode_rules demo_task c w })
    (\<lambda>(c', w'). verdict_of c' = (5, AUDIT_RECORD_CONTEXT, Some (ascii ''key'')))"
proof -
  have e: "\<forall>rule \<in> set demo_exit_rules. r_action rule \<noteq> AUDIT_POSSIBLE" "\<forall>h. \<forall>rule \<in> set (demo_inode_rules h). r_action rule \<noteq> AUDIT_POSSIBLE"
    by (simp_all add: demo_exit_rules_def demo_inode_rules_def demo_rule_def)
  have "exit_verdict demo_env 0 demo_task demo_exit_rules demo_inode_rules demo_call = (5, AUDIT_RECORD_CONTEXT, Some (ascii ''key''))"
    by code_simp
  then show ?thesis
    using audit_exit_filter_equiv [OF demo_call_ok e, of demo_env 0 demo_task] by (auto simp: same_verdict_def elim!: ok_mono)
qed

end
