(* ===== verification/AuditCall.thy ===== *)
theory AuditCall
  imports AuditFilter
begin

text \<open>
  The data a system call may leave in its context for the records at its end (\<open>auditsc.c\<close>):
  message queues, IPC objects, sockets, pipes, capabilities, signals. Each hook stores into the
  context of the current task; three of them allocate.
\<close>

section \<open>What a call may leave in its context\<close>

text \<open>The task a signal or a trace is for, and its description in the context (\<open>target_pid\<close> zero: none).\<close>

record other_task =
  o_pid :: int
  o_tgid :: int
  o_loginuid :: u32
  o_uid :: u32
  o_session :: u32
  o_sid :: u32
  o_comm :: "byte list"

record target =
  tg_pid :: int
  tg_auid :: u32
  tg_uid :: u32
  tg_session :: u32
  tg_sid :: u32
  tg_comm :: "byte list"

record mq_attr =
  mq_flags :: int
  mq_maxmsg :: int
  mq_msgsize :: int
  mq_curmsgs :: int

record ipc_data =
  ipc_uid :: u32
  ipc_gid :: u32
  ipc_mode :: u16
  ipc_has_perm :: bool
  ipc_qbytes :: u64
  ipc_perm_uid :: u32
  ipc_perm_gid :: u32
  ipc_perm_mode :: u16

text \<open>Capabilities, as lists of words: permitted, inheritable, effective.\<close>

record caps =
  cap_permitted :: "u32 list"
  cap_inheritable :: "u32 list"
  cap_effective :: "u32 list"

record bprm_fcaps =
  fcap_permitted :: "u32 list"
  fcap_inheritable :: "u32 list"
  fcap_fE :: bool
  fcap_ver :: u32
  old_pcap :: caps
  new_pcap :: caps

text \<open>
  The union in \<open>struct audit_context\<close>; \<open>context->type\<close>, the field \<open>special\<close>, says which member counts. The label of an
  IPC object is the field \<open>ipc_osid\<close>, which the filters read.
\<close>

datatype special_data = No_data | Socketcall "u64 list" | Ipc ipc_data | Mq_open int u16 mq_attr | Mq_sendrecv int u64 u32 "int \<times> int" |
  Mq_notify int int | Mq_getsetattr int mq_attr | Capset int caps | Mmap int int | Execve nat

record call_ctx = syscall_ctx +
  ctx_id :: nat
  dummy :: bool
  serial :: u32
  ctime :: "nat \<times> nat"
  personality :: u32
  fds :: "int \<times> int"
  data :: special_data
  target :: target
  aux :: "(nat \<times> bprm_fcaps) list"
  aux_pids :: "(nat \<times> target list) list"
  sockaddr :: "(nat \<times> byte list) option"
  sockaddr_len :: nat
  proctitle :: "(nat \<times> byte list) option"
  killed_trees :: "nat list"

type_synonym 'c cc = "'c call_ctx_scheme"

abbreviation AUDIT_SYSCALL :: nat where "AUDIT_SYSCALL \<equiv> 1300"
abbreviation AUDIT_SOCKETCALL :: nat where "AUDIT_SOCKETCALL \<equiv> 1304"
abbreviation AUDIT_SOCKADDR :: nat where "AUDIT_SOCKADDR \<equiv> 1306"
abbreviation AUDIT_CWD :: nat where "AUDIT_CWD \<equiv> 1307"
abbreviation AUDIT_IPC_SET_PERM :: nat where "AUDIT_IPC_SET_PERM \<equiv> 1311"
abbreviation AUDIT_MQ_OPEN :: nat where "AUDIT_MQ_OPEN \<equiv> 1312"
abbreviation AUDIT_MQ_SENDRECV :: nat where "AUDIT_MQ_SENDRECV \<equiv> 1313"
abbreviation AUDIT_MQ_NOTIFY :: nat where "AUDIT_MQ_NOTIFY \<equiv> 1314"
abbreviation AUDIT_MQ_GETSETATTR :: nat where "AUDIT_MQ_GETSETATTR \<equiv> 1315"
abbreviation AUDIT_FD_PAIR :: nat where "AUDIT_FD_PAIR \<equiv> 1317"
abbreviation AUDIT_OBJ_PID :: nat where "AUDIT_OBJ_PID \<equiv> 1318"
abbreviation AUDIT_BPRM_FCAPS :: nat where "AUDIT_BPRM_FCAPS \<equiv> 1321"
abbreviation AUDIT_CAPSET :: nat where "AUDIT_CAPSET \<equiv> 1322"
abbreviation AUDIT_MMAP :: nat where "AUDIT_MMAP \<equiv> 1323"
abbreviation AUDIT_PROCTITLE :: nat where "AUDIT_PROCTITLE \<equiv> 1327"

definition AUDITSC_ARGS :: int where "AUDITSC_ARGS = 6"
definition AUDIT_AUX_PIDS :: nat where "AUDIT_AUX_PIDS = 16"
definition sizeof_sockaddr_storage :: nat where "sizeof_sockaddr_storage = 128"
definition zero_target :: target where
  "zero_target = \<lparr>tg_pid = 0, tg_auid = 0, tg_uid = 0, tg_session = 0, tg_sid = 0, tg_comm = replicate 16 0\<rparr>"

section \<open>Hooks that store\<close>

text \<open>Null pointers of optional arguments are \<open>None\<close>.\<close>

definition audit_mq_open :: "int \<Rightarrow> u16 \<Rightarrow> mq_attr option \<Rightarrow> 'c cc \<Rightarrow> 'c cc" where
  "audit_mq_open oflag mode attr c =
     c\<lparr>data := Mq_open oflag mode (case attr of Some a \<Rightarrow> a | None \<Rightarrow> \<lparr>mq_flags = 0, mq_maxmsg = 0, mq_msgsize = 0, mq_curmsgs = 0\<rparr>),
       special := AUDIT_MQ_OPEN\<rparr>"

definition audit_mq_sendrecv :: "int \<Rightarrow> u64 \<Rightarrow> u32 \<Rightarrow> (int \<times> int) option \<Rightarrow> 'c cc \<Rightarrow> 'c cc" where
  "audit_mq_sendrecv mqdes msg_len msg_prio abs_timeout c =
     c\<lparr>data := Mq_sendrecv mqdes msg_len msg_prio (case abs_timeout of Some t \<Rightarrow> t | None \<Rightarrow> (0, 0)), special := AUDIT_MQ_SENDRECV\<rparr>"

definition audit_mq_notify :: "int \<Rightarrow> int option \<Rightarrow> 'c cc \<Rightarrow> 'c cc" where
  "audit_mq_notify mqdes notification c =
     c\<lparr>data := Mq_notify mqdes (case notification of Some s \<Rightarrow> s | None \<Rightarrow> 0), special := AUDIT_MQ_NOTIFY\<rparr>"

definition audit_mq_getsetattr :: "int \<Rightarrow> mq_attr \<Rightarrow> 'c cc \<Rightarrow> 'c cc" where
  "audit_mq_getsetattr mqdes mqstat c = c\<lparr>data := Mq_getsetattr mqdes mqstat, special := AUDIT_MQ_GETSETATTR\<rparr>"

definition audit_ipc_obj :: "u32 \<Rightarrow> u32 \<Rightarrow> u16 \<Rightarrow> u32 \<Rightarrow> 'c cc \<Rightarrow> 'c cc" where
  "audit_ipc_obj uid gid mode osid c =
     c\<lparr>data := Ipc \<lparr>ipc_uid = uid, ipc_gid = gid, ipc_mode = mode, ipc_has_perm = False, ipc_qbytes = 0, ipc_perm_uid = 0, ipc_perm_gid = 0, ipc_perm_mode = 0\<rparr>,
       ipc_osid := osid, special := AUDIT_IPC\<rparr>"

text \<open>The code relies on \<open>audit_ipc_obj\<close> having been called; without it the stores go into another member of the union, which is a fault here.\<close>

definition audit_ipc_set_perm :: "u64 \<Rightarrow> u32 \<Rightarrow> u32 \<Rightarrow> u16 \<Rightarrow> 'c cc \<Rightarrow> 'c cc option" where
  "audit_ipc_set_perm qbytes uid gid mode c =
     (case data c of
        Ipc d \<Rightarrow> Some (c\<lparr>data := Ipc (d\<lparr>ipc_qbytes := qbytes, ipc_perm_uid := uid, ipc_perm_gid := gid, ipc_perm_mode := mode, ipc_has_perm := True\<rparr>)\<rparr>)
      | _ \<Rightarrow> None)"

definition audit_bprm :: "nat \<Rightarrow> 'c cc \<Rightarrow> 'c cc" where
  "audit_bprm argc c = c\<lparr>special := AUDIT_EXECVE, data := Execve argc\<rparr>"

text \<open>The array of arguments, when there is one, has at least \<open>nargs\<close> elements; a shorter one is a fault.\<close>

definition audit_socketcall :: "int \<Rightarrow> u64 list option \<Rightarrow> 'c cc \<Rightarrow> (int \<times> 'c cc) option" where
  "audit_socketcall nargs args c =
     (if nargs \<le> 0 \<or> nargs > AUDITSC_ARGS then Some (- EINVAL, c)
      else (case args of
          None \<Rightarrow> Some (- EINVAL, c)
        | Some xs \<Rightarrow> if length xs < nat nargs then None else Some (0, c\<lparr>special := AUDIT_SOCKETCALL, data := Socketcall (take (nat nargs) xs)\<rparr>)))"

definition audit_fd_pair :: "int \<Rightarrow> int \<Rightarrow> 'c cc \<Rightarrow> 'c cc" where
  "audit_fd_pair fd1 fd2 c = c\<lparr>fds := (fd1, fd2)\<rparr>"

text \<open>The address is copied into an object of its own that the context keeps; one that is too long would be written behind it.\<close>

definition audit_sockaddr :: "byte list \<Rightarrow> 'c cc \<Rightarrow> 'z world_scheme \<Rightarrow> (int \<times> 'c cc \<times> 'z world_scheme) option" where
  "audit_sockaddr a c w =
     (case (case sockaddr c of Some _ \<Rightarrow> (sockaddr c, w) | None \<Rightarrow> kmalloc sizeof_sockaddr_storage w) of
        (None, w) \<Rightarrow> Some (- ENOMEM, c, w)
      | (Some (k, buf), w) \<Rightarrow> do {
          buf \<leftarrow> buf_write buf 0 a;
          Some (0, c\<lparr>sockaddr := Some (k, buf), sockaddr_len := length a\<rparr>, w)
        })"

definition audit_ptrace :: "other_task \<Rightarrow> 'c cc \<Rightarrow> 'c cc" where
  "audit_ptrace t c =
     c\<lparr>target := \<lparr>tg_pid = o_pid t, tg_auid = o_loginuid t, tg_uid = o_uid t, tg_session = o_session t, tg_sid = o_sid t, tg_comm = o_comm t\<rparr>\<rparr>"

definition signal_target :: "other_task \<Rightarrow> target" where
  "signal_target t = \<lparr>tg_pid = o_tgid t, tg_auid = o_loginuid t, tg_uid = o_uid t, tg_session = o_session t, tg_sid = o_sid t, tg_comm = o_comm t\<rparr>"

text \<open>Who sent the audit daemon a signal (\<open>audit_sig_pid\<close>, \<open>audit_sig_uid\<close>, \<open>audit_sig_sid\<close>); the sender: its pid, login, identity and label.\<close>

record sig_info =
  audit_sig_pid :: int
  audit_sig_uid :: u32
  audit_sig_sid :: u32

record sender =
  s_pid :: int
  s_loginuid :: u32
  s_uid :: u32
  s_sid :: u32

abbreviation SIGHUP :: int where "SIGHUP \<equiv> 1"
abbreviation SIGUSR1 :: int where "SIGUSR1 \<equiv> 10"
abbreviation SIGUSR2 :: int where "SIGUSR2 \<equiv> 12"
abbreviation SIGTERM :: int where "SIGTERM \<equiv> 15"

definition audit_signal_info :: "nat \<Rightarrow> int \<Rightarrow> bool \<Rightarrow> sender \<Rightarrow> int \<Rightarrow> other_task \<Rightarrow> sig_info \<Rightarrow> 'c cc \<Rightarrow> 'z world_scheme \<Rightarrow>
    (int \<times> sig_info \<times> 'c cc \<times> 'z world_scheme) option" where
  "audit_signal_info sizeof_pids daemon signals s sig t si c w =
     (let for_daemon = (daemon \<noteq> 0 \<and> o_tgid t = daemon);
          si = (if for_daemon \<and> sig \<in> {SIGTERM, SIGHUP, SIGUSR1, SIGUSR2}
                then \<lparr>audit_sig_pid = s_pid s, audit_sig_uid = (if s_loginuid s \<noteq> - 1 then s_loginuid s else s_uid s), audit_sig_sid = s_sid s\<rparr> else si) in
      if for_daemon \<and> (\<not> signals \<or> dummy c) then Some (0, si, c, w)
      else if tg_pid (target c) = 0 then Some (0, si, c\<lparr>target := signal_target t\<rparr>, w)
      else
        let (room, w) = (case aux_pids c of
            (k, ts) # rest \<Rightarrow> if length ts = AUDIT_AUX_PIDS then map_prod (map_option (\<lambda>(j, _). c\<lparr>aux_pids := (j, []) # aux_pids c\<rparr>)) id (kzalloc sizeof_pids w) else (Some c, w)
          | [] \<Rightarrow> map_prod (map_option (\<lambda>(j, _). c\<lparr>aux_pids := (j, []) # aux_pids c\<rparr>)) id (kzalloc sizeof_pids w))
        in (case room of
              None \<Rightarrow> Some (- ENOMEM, si, c, w)
            | Some c \<Rightarrow> (case aux_pids c of
                  [] \<Rightarrow> None
                | (k, ts) # rest \<Rightarrow> if length ts \<ge> AUDIT_AUX_PIDS then None else Some (0, si, c\<lparr>aux_pids := (k, ts @ [signal_target t]) # rest\<rparr>, w))))"

definition audit_log_bprm_fcaps :: "nat \<Rightarrow> (u32 list \<times> u32 list \<times> u32) \<Rightarrow> caps \<Rightarrow> caps \<Rightarrow> 'c cc \<Rightarrow> 'z world_scheme \<Rightarrow> int \<times> 'c cc \<times> 'z world_scheme" where
  "audit_log_bprm_fcaps sizeof_fcaps vcaps new old c w =
     (case kmalloc sizeof_fcaps w of
        (None, w) \<Rightarrow> (- ENOMEM, c, w)
      | (Some (k, _), w) \<Rightarrow>
          (case vcaps of (permitted, inheritable, magic_etc) \<Rightarrow>
             (0, c\<lparr>aux := (k, \<lparr>fcap_permitted = permitted, fcap_inheritable = inheritable, fcap_fE = and magic_etc VFS_CAP_FLAGS_EFFECTIVE \<noteq> 0,
                 fcap_ver = drop_bit VFS_CAP_REVISION_SHIFT (and magic_etc VFS_CAP_REVISION_MASK), old_pcap = old, new_pcap = new\<rparr>) # aux c\<rparr>, w)))"

text \<open>The inheritable set is taken from the effective one, as the code does.\<close>

definition audit_log_capset :: "int \<Rightarrow> caps \<Rightarrow> 'c cc \<Rightarrow> 'c cc" where
  "audit_log_capset pid new c =
     c\<lparr>data := Capset pid \<lparr>cap_permitted = cap_permitted new, cap_inheritable = cap_effective new, cap_effective = cap_effective new\<rparr>, special := AUDIT_CAPSET\<rparr>"

definition audit_mmap_fd :: "int \<Rightarrow> int \<Rightarrow> 'c cc \<Rightarrow> 'c cc" where
  "audit_mmap_fd fd flags c = c\<lparr>data := Mmap fd flags, special := AUDIT_MMAP\<rparr>"

definition audit_killed_tree :: "nat \<Rightarrow> 'c cc \<Rightarrow> 'c cc" where
  "audit_killed_tree t c = (if \<not> in_syscall c then c else c\<lparr>killed_trees := killed_trees c @ [t]\<rparr>)"
end
