(* ===== verification/AuditExit.thy ===== *)
theory AuditExit
  imports AuditCall AuditExec
begin

text \<open>
  The records written at the end of a call: \<open>audit_log_exit\<close> of \<open>auditsc.c\<close> with everything it
  calls. An event is a sequence of records with one stamp. What its writing needs of the log is the
  locale \<open>event_client\<close>, interpreted twice: for a log in any state, which gives safety, and for
  one that loses nothing, which gives the records of the event. Core dumps and calls that seccomp stops have a record
  of their own.
\<close>

section \<open>Records of the end of a call\<close>

text \<open>
  What other parts of the kernel give: the command line of the task, at most 128 bytes; which bytes
  are printable; where its arguments lie; the texts of the names.
\<close>

record exit_env =
  log_side :: audit_env
  event_stamp :: "exec_world \<Rightarrow> (nat \<times> nat \<times> u32) \<times> exec_world"
  cmdline :: "byte list"
  isprint :: "byte \<Rightarrow> bool"
  arg_start :: nat
  name_text :: "nat \<Rightarrow> byte list"

definition MAX_PROCTITLE_AUDIT_LEN :: nat where "MAX_PROCTITLE_AUDIT_LEN = 128"

text \<open>The frame of a record: nothing is written when it cannot be started.\<close>

definition one_record :: "exit_env \<Rightarrow> nat \<Rightarrow> (abuf option \<Rightarrow> exec_world \<Rightarrow> (abuf option \<times> exec_world) option) \<Rightarrow> exec_world \<Rightarrow> exec_world option" where
  "one_record X type body w = do {
     (ab, w) \<leftarrow> audit_log_start (log_side X) (event_stamp X) True type w;
     (if ab = None then Some w
      else do {
        (ab, w) \<leftarrow> body ab w;
        audit_log_end (log_side X) ab w
      })
   }"

definition hexword :: "'a::len word \<Rightarrow> byte list" where
  "hexword v = radix 16 (unat v)"

text \<open>The other side of a signal or a trace. True when the security module could not name it.\<close>

definition pid_label :: "audit_env \<Rightarrow> u32 \<Rightarrow> abuf option \<Rightarrow> 'z aw \<Rightarrow> (bool \<times> abuf option \<times> 'z aw) option" where
  "pid_label A sid ab w =
     (if sid = 0 then Some (False, ab, w)
      else
        let (n, w) = tick w; (error, ctx) = secctx A n sid in
        if error \<noteq> 0 then do { (ab, w) \<leftarrow> audit_log_format A (ascii '' obj=(none)'') ab w; Some (True, ab, w) }
        else do { (ab, w) \<leftarrow> audit_log_format A (ascii '' obj='' @ ctx) ab w; Some (False, ab, w) })"

definition audit_log_pid_context :: "exit_env \<Rightarrow> target \<Rightarrow> exec_world \<Rightarrow> (bool \<times> exec_world) option" where
  "audit_log_pid_context X t w = do {
     let A = log_side X;
     (ab, w) \<leftarrow> audit_log_start A (event_stamp X) True AUDIT_OBJ_PID w;
     (if ab = None then Some (False, w)
      else do {
        (ab, w) \<leftarrow> audit_log_format A (ascii ''opid='' @ signed_dec (tg_pid t) @ ascii '' oauid='' @ signed_dec (sint (tg_auid t)) @
          ascii '' ouid='' @ signed_dec (sint (tg_uid t)) @ ascii '' oses='' @ signed_dec (sint (tg_session t))) ab w;
        (rc, ab, w) \<leftarrow> pid_label A (tg_sid t) ab w;
        (ab, w) \<leftarrow> audit_log_format A (ascii '' ocomm='') ab w;
        (ab, w) \<leftarrow> audit_log_n_untrustedstring A (takeWhile (\<lambda>b. b \<noteq> 0) (tg_comm t)) ab w;
        w \<leftarrow> audit_log_end A ab w;
        Some (rc, w)
      })
   }"

section \<open>Special calls\<close>

definition ipc_fields :: "ipc_data \<Rightarrow> byte list" where
  "ipc_fields d = ascii ''ouid='' @ udec (ipc_uid d) @ ascii '' ogid='' @ udec (ipc_gid d) @ ascii '' mode='' @ octal (ipc_mode d)"

definition ipc_perm_fields :: "ipc_data \<Rightarrow> byte list" where
  "ipc_perm_fields d = ascii ''qbytes='' @ hexword (ipc_qbytes d) @ ascii '' ouid='' @ udec (ipc_perm_uid d) @ ascii '' ogid='' @ udec (ipc_perm_gid d) @
     ascii '' mode='' @ octal (ipc_perm_mode d)"

primrec log_socket_args :: "audit_env \<Rightarrow> nat \<Rightarrow> u64 list \<Rightarrow> abuf option \<Rightarrow> 'z aw \<Rightarrow> (abuf option \<times> 'z aw) option" where
  "log_socket_args A i [] ab w = Some (ab, w)"
| "log_socket_args A i (a # as) ab w = do {
     (ab, w) \<leftarrow> audit_log_format A (ascii '' a'' @ dec i @ ascii ''='' @ hexword a) ab w;
     log_socket_args A (Suc i) as ab w
   }"

text \<open>The fields of the special calls that have one record.\<close>

definition special_fields :: "audit_env \<Rightarrow> special_data \<Rightarrow> abuf option \<Rightarrow> 'z aw \<Rightarrow> (abuf option \<times> 'z aw) option" where
  "special_fields A d ab w =
     (case d of
        Socketcall as \<Rightarrow> do {
          (ab, w) \<leftarrow> audit_log_format A (ascii ''nargs='' @ dec (length as)) ab w;
          log_socket_args A 0 as ab w
        }
      | Mq_open oflag mode a \<Rightarrow>
          audit_log_format A (ascii ''oflag=0x'' @ radix 16 (nat (oflag mod 2 ^ 32)) @ ascii '' mode='' @ octal mode @ ascii '' mq_flags=0x'' @
            radix 16 (nat (mq_flags a mod 2 ^ 64)) @ ascii '' mq_maxmsg='' @ signed_dec (mq_maxmsg a) @ ascii '' mq_msgsize='' @ signed_dec (mq_msgsize a) @
            ascii '' mq_curmsgs='' @ signed_dec (mq_curmsgs a)) ab w
      | Mq_sendrecv mqdes len p t \<Rightarrow>
          audit_log_format A (ascii ''mqdes='' @ signed_dec mqdes @ ascii '' msg_len='' @ signed_dec (sint len) @ ascii '' msg_prio='' @ udec p @
            ascii '' abs_timeout_sec='' @ signed_dec (fst t) @ ascii '' abs_timeout_nsec='' @ signed_dec (snd t)) ab w
      | Mq_notify mqdes s \<Rightarrow> audit_log_format A (ascii ''mqdes='' @ signed_dec mqdes @ ascii '' sigev_signo='' @ signed_dec s) ab w
      | Mq_getsetattr mqdes a \<Rightarrow>
          audit_log_format A (ascii ''mqdes='' @ signed_dec mqdes @ ascii '' mq_flags=0x'' @ radix 16 (nat (mq_flags a mod 2 ^ 64)) @
            ascii '' mq_maxmsg='' @ signed_dec (mq_maxmsg a) @ ascii '' mq_msgsize='' @ signed_dec (mq_msgsize a) @
            ascii '' mq_curmsgs='' @ signed_dec (mq_curmsgs a) @ ascii '' '') ab w
      | Capset pid c \<Rightarrow> do {
          (ab, w) \<leftarrow> audit_log_format A (ascii ''pid='' @ signed_dec pid) ab w;
          (ab, w) \<leftarrow> audit_log_cap A ''cap_pi'' (cap_inheritable c) ab w;
          (ab, w) \<leftarrow> audit_log_cap A ''cap_pp'' (cap_permitted c) ab w;
          audit_log_cap A ''cap_pe'' (cap_effective c) ab w
        }
      | Mmap fd flags \<Rightarrow> audit_log_format A (ascii ''fd='' @ signed_dec fd @ ascii '' flags=0x'' @ radix 16 (nat (flags mod 2 ^ 32))) ab w
      | _ \<Rightarrow> Some (ab, w))"

text \<open>
  \<open>show_special\<close>: true when a label could not be given. A change of permissions is a
  record of its own, and the arguments of \<open>execve\<close> may fill several.
\<close>

definition show_special :: "exit_env \<Rightarrow> 'c cc \<Rightarrow> exec_world \<Rightarrow> (bool \<times> exec_world) option" where
  "show_special X c w = do {
     let A = log_side X;
     (ab, w) \<leftarrow> audit_log_start A (event_stamp X) True (special c) w;
     (if ab = None then Some (False, w)
      else (case data c of
          Ipc d \<Rightarrow> do {
            (ab, w) \<leftarrow> audit_log_format A (ipc_fields d) ab w;
            (call_panic, ab, w) \<leftarrow> log_osid A (ipc_osid c) ab w;
            w \<leftarrow> audit_log_end A ab w;
            w \<leftarrow> (if ipc_has_perm d then one_record X AUDIT_IPC_SET_PERM (audit_log_format A (ipc_perm_fields d)) w else Some w);
            Some (call_panic, w)
          }
        | Execve argc \<Rightarrow> do {
            (ab, w) \<leftarrow> audit_log_execve_info A (event_stamp X) (arg_start X) argc ab w;
            w \<leftarrow> audit_log_end A ab w;
            Some (False, w)
          }
        | d \<Rightarrow> do {
            (ab, w) \<leftarrow> special_fields A d ab w;
            w \<leftarrow> audit_log_end A ab w;
            Some (False, w)
          }))
   }"

section \<open>The title of the process\<close>

text \<open>The loop stops at the first byte; \<open>n\<close> is the index of \<open>end\<close>.\<close>

primrec rtrim_end :: "(byte \<Rightarrow> bool) \<Rightarrow> byte list \<Rightarrow> nat \<Rightarrow> nat" where
  "rtrim_end P s 0 = 0"
| "rtrim_end P s (Suc n) = (if \<not> P (s ! Suc n) then rtrim_end P s n else Suc n)"

definition audit_proctitle_rtrim :: "(byte \<Rightarrow> bool) \<Rightarrow> byte list \<Rightarrow> nat" where
  "audit_proctitle_rtrim P s =
     (let len = rtrim_end P s (length s - 1) + 1 in
      if \<not> P (s ! (len - 1)) then len - 1 else len)"

definition fetch_proctitle :: "exit_env \<Rightarrow> 'c cc \<Rightarrow> 'z world_scheme \<Rightarrow> ('c cc \<times> 'z world_scheme) option" where
  "fetch_proctitle X c w =
     (if proctitle c \<noteq> None then Some (c, w)
      else (case kmalloc MAX_PROCTITLE_AUDIT_LEN w of
          (None, w) \<Rightarrow> Some (c, w)
        | (Some (k, _), w) \<Rightarrow>
            if cmdline X = [] then do { w \<leftarrow> kfree k w; Some (c, w) }
            else
              let res = audit_proctitle_rtrim (isprint X) (cmdline X) in
              if res = 0 then do { w \<leftarrow> kfree k w; Some (c, w) }
              else Some (c\<lparr>proctitle := Some (k, take res (cmdline X))\<rparr>, w)))"

definition audit_log_proctitle :: "exit_env \<Rightarrow> 'c cc \<Rightarrow> exec_world \<Rightarrow> ('c cc \<times> exec_world) option" where
  "audit_log_proctitle X c w = do {
     let A = log_side X;
     (ab, w) \<leftarrow> audit_log_start A (event_stamp X) True AUDIT_PROCTITLE w;
     (if ab = None then Some (c, w)
      else do {
        (ab, w) \<leftarrow> audit_log_format A (ascii ''proctitle='') ab w;
        (c, w) \<leftarrow> fetch_proctitle X c w;
        (ab, w) \<leftarrow> audit_log_n_untrustedstring A (case proctitle c of None \<Rightarrow> ascii ''(null)'' | Some (_, s) \<Rightarrow> s) ab w;
        w \<leftarrow> audit_log_end A ab w;
        Some (c, w)
      })
   }"

section \<open>The event of a call\<close>

definition syscall_text :: "'c cc \<Rightarrow> byte list" where
  "syscall_text c = ascii ''arch='' @ hexword (arch c) @ ascii '' syscall='' @ signed_dec (major c)"

definition result_text :: "'c cc \<Rightarrow> byte list" where
  "result_text c = ascii '' success='' @ ascii (if return_valid c = AUDITSC_SUCCESS then ''yes'' else ''no'') @ ascii '' exit='' @ signed_dec (return_code c)"

definition args_text :: "'c cc \<Rightarrow> byte list" where
  "args_text c = ascii '' a0='' @ hexword (argv c 0) @ ascii '' a1='' @ hexword (argv c 1) @ ascii '' a2='' @ hexword (argv c 2) @
     ascii '' a3='' @ hexword (argv c 3) @ ascii '' items='' @ dec (name_count c)"

definition syscall_fields :: "audit_env \<Rightarrow> task \<Rightarrow> 'c cc \<Rightarrow> abuf option \<Rightarrow> 'z aw \<Rightarrow> (abuf option \<times> 'z aw) option" where
  "syscall_fields A t c ab w = do {
     (ab, w) \<leftarrow> audit_log_format A (syscall_text c) ab w;
     (ab, w) \<leftarrow> (if personality c \<noteq> 0 then audit_log_format A (ascii '' per='' @ hexword (personality c)) ab w else Some (ab, w));
     (ab, w) \<leftarrow> (if return_valid c \<noteq> 0 then audit_log_format A (result_text c) ab w else Some (ab, w));
     (ab, w) \<leftarrow> audit_log_format A (args_text c) ab w;
     (ab, w) \<leftarrow> audit_log_task_info A t ab w;
     audit_log_key A (map_option snd (filterkey c)) ab w
   }"

definition fcaps_fields :: "audit_env \<Rightarrow> bprm_fcaps \<Rightarrow> abuf option \<Rightarrow> 'z aw \<Rightarrow> (abuf option \<times> 'z aw) option" where
  "fcaps_fields A x ab w = do {
     (ab, w) \<leftarrow> audit_log_format A (ascii ''fver='' @ hexword (fcap_ver x)) ab w;
     (ab, w) \<leftarrow> audit_log_cap A ''fp'' (fcap_permitted x) ab w;
     (ab, w) \<leftarrow> audit_log_cap A ''fi'' (fcap_inheritable x) ab w;
     (ab, w) \<leftarrow> audit_log_format A (ascii '' fe='' @ dec (if fcap_fE x then 1 else 0)) ab w;
     (ab, w) \<leftarrow> audit_log_cap A ''old_pp'' (cap_permitted (old_pcap x)) ab w;
     (ab, w) \<leftarrow> audit_log_cap A ''old_pi'' (cap_inheritable (old_pcap x)) ab w;
     (ab, w) \<leftarrow> audit_log_cap A ''old_pe'' (cap_effective (old_pcap x)) ab w;
     (ab, w) \<leftarrow> audit_log_cap A ''new_pp'' (cap_permitted (new_pcap x)) ab w;
     (ab, w) \<leftarrow> audit_log_cap A ''new_pi'' (cap_inheritable (new_pcap x)) ab w;
     audit_log_cap A ''new_pe'' (cap_effective (new_pcap x)) ab w
   }"

text \<open>The loops over the auxiliary data, the targets and the names.\<close>

primrec log_aux :: "exit_env \<Rightarrow> bprm_fcaps list \<Rightarrow> exec_world \<Rightarrow> exec_world option" where
  "log_aux X [] w = Some w"
| "log_aux X (x # xs) w = do { w \<leftarrow> one_record X AUDIT_BPRM_FCAPS (fcaps_fields (log_side X) x) w; log_aux X xs w }"

primrec log_targets :: "exit_env \<Rightarrow> target list \<Rightarrow> bool \<Rightarrow> exec_world \<Rightarrow> (bool \<times> exec_world) option" where
  "log_targets X [] call_panic w = Some (call_panic, w)"
| "log_targets X (t # ts) call_panic w = do { (rc, w) \<leftarrow> audit_log_pid_context X t w; log_targets X ts (call_panic \<or> rc) w }"

primrec log_names :: "exit_env \<Rightarrow> path \<Rightarrow> nat \<Rightarrow> audit_names list \<Rightarrow> bool \<Rightarrow> exec_world \<Rightarrow> (bool \<times> exec_world) option" where
  "log_names X p i [] call_panic w = Some (call_panic, w)"
| "log_names X p i (n # ns) call_panic w =
     (if n_hidden n then log_names X p i ns call_panic w
      else do {
        (rc, w) \<leftarrow> audit_log_name (log_side X) (event_stamp X) (name_text X) p n None i w;
        log_names X p (Suc i) ns (call_panic \<or> rc) w
      })"

definition log_sockaddr :: "exit_env \<Rightarrow> 'c cc \<Rightarrow> exec_world \<Rightarrow> exec_world option" where
  "log_sockaddr X c w =
     (if sockaddr_len c = 0 then Some w
      else (let A = log_side X in one_record X AUDIT_SOCKADDR (\<lambda>ab w. do {
        (ab, w) \<leftarrow> audit_log_format A (ascii ''saddr='') ab w;
        s \<leftarrow> sockaddr c;
        bs \<leftarrow> buf_read (snd s) 0 (sockaddr_len c);
        audit_log_n_hex A bs ab w
      }) w))"

definition audit_log_exit :: "exit_env \<Rightarrow> 't ft \<Rightarrow> 'c cc \<Rightarrow> exec_world \<Rightarrow> ('c cc \<times> exec_world) option" where
  "audit_log_exit X t c w = do {
     let A = log_side X;
     let c = c\<lparr>personality := t_personality t\<rparr>;
     (ab, w) \<leftarrow> audit_log_start A (event_stamp X) True AUDIT_SYSCALL w;
     (if ab = None then Some (c, w)
      else do {
        (ab, w) \<leftarrow> syscall_fields A (task.truncate t) c ab w;
        w \<leftarrow> audit_log_end A ab w;
        w \<leftarrow> log_aux X (map snd (aux c)) w;
        (p1, w) \<leftarrow> (if special c \<noteq> 0 then show_special X c w else Some (False, w));
        w \<leftarrow> (if fst (fds c) \<ge> 0 then one_record X AUDIT_FD_PAIR
                (audit_log_format A (ascii ''fd0='' @ signed_dec (fst (fds c)) @ ascii '' fd1='' @ signed_dec (snd (fds c)))) w else Some w);
        w \<leftarrow> log_sockaddr X c w;
        (p2, w) \<leftarrow> log_targets X (concat (map snd (aux_pids c))) p1 w;
        (p3, w) \<leftarrow> (if tg_pid (target c) \<noteq> 0 then log_targets X [target c] p2 w else Some (p2, w));
        w \<leftarrow> (case pwd c of None \<Rightarrow> Some w | Some p \<Rightarrow> one_record X AUDIT_CWD (audit_log_d_path A (Some (ascii '' cwd='')) p) w);
        (p4, w) \<leftarrow> log_names X (case pwd c of None \<Rightarrow> None | Some p \<Rightarrow> p) 0 (map snd (entries c)) p3 w;
        (c, w) \<leftarrow> audit_log_proctitle X c w;
        w \<leftarrow> one_record X AUDIT_EOE (\<lambda>ab w. Some (ab, w)) w;
        w \<leftarrow> (if p4 then audit_panic w else Some w);
        Some (c, w)
      })
   }"

section \<open>Records outside a call's event\<close>

text \<open>Programs that end abnormally, and calls that a filter of the task stopped; such a record has a stamp of its own.\<close>

abbreviation AUDIT_ANOM_ABEND :: nat where "AUDIT_ANOM_ABEND \<equiv> 1701"
abbreviation AUDIT_SECCOMP :: nat where "AUDIT_SECCOMP \<equiv> 1326"
abbreviation SIGQUIT :: int where "SIGQUIT \<equiv> 3"

definition audit_log_task :: "audit_env \<Rightarrow> task \<Rightarrow> abuf option \<Rightarrow> 'z aw \<Rightarrow> (abuf option \<times> 'z aw) option" where
  "audit_log_task A t ab w = do {
     (ab, w) \<leftarrow> audit_log_format A (ascii ''auid='' @ udec (cur_auid A) @ ascii '' uid='' @ udec (tk_uid t) @ ascii '' gid='' @ udec (tk_gid t) @
       ascii '' ses='' @ udec (cur_ses A)) ab w;
     (_, ab, w) \<leftarrow> audit_log_task_context A ab w;
     (ab, w) \<leftarrow> audit_log_format A (ascii '' pid='' @ signed_dec (tk_pid t) @ ascii '' comm='') ab w;
     (ab, w) \<leftarrow> audit_log_n_untrustedstring A (tk_comm t) ab w;
     audit_log_d_path_exe A (tk_exe t) ab w
   }"

definition outside :: "exit_env \<Rightarrow> exit_env" where
  "outside X = X\<lparr>event_stamp := fresh_stamp (log_side X)\<rparr>"

definition audit_core_dumps :: "exit_env \<Rightarrow> u32 \<Rightarrow> task \<Rightarrow> int \<Rightarrow> exec_world \<Rightarrow> exec_world option" where
  "audit_core_dumps X enabled t signr w =
     (if enabled = 0 then Some w
      else if signr = SIGQUIT then Some w
      else one_record (outside X) AUDIT_ANOM_ABEND (\<lambda>ab w. do {
        (ab, w) \<leftarrow> audit_log_task (log_side X) t ab w;
        audit_log_format (log_side X) (ascii '' sig='' @ signed_dec signr) ab w
      }) w)"

definition audit_seccomp :: "exit_env \<Rightarrow> task \<Rightarrow> u32 \<Rightarrow> bool \<Rightarrow> u64 \<Rightarrow> u64 \<Rightarrow> int \<Rightarrow> u32 \<Rightarrow> exec_world \<Rightarrow> exec_world option" where
  "audit_seccomp X t a cpt ip syscall signr code w =
     one_record (outside X) AUDIT_SECCOMP (\<lambda>ab w. do {
       (ab, w) \<leftarrow> audit_log_task (log_side X) t ab w;
       audit_log_format (log_side X) (ascii '' sig='' @ signed_dec signr @ ascii '' arch='' @ hexword a @ ascii '' syscall='' @ signed_dec (sint syscall) @
         ascii '' compat='' @ dec (if cpt then 1 else 0) @ ascii '' ip=0x'' @ hexword ip @ ascii '' code=0x'' @ hexword code) ab w
     }) w"

section \<open>Writers with a flag\<close>

text \<open>Some parts of a record also say whether a label could not be given.\<close>

definition tells :: "audit_env \<Rightarrow> byte list set \<Rightarrow> (abuf option \<Rightarrow> 'z aw \<Rightarrow> (bool \<times> abuf option \<times> 'z aw) option) \<Rightarrow> bool" where
  "tells A T g \<longleftrightarrow> (\<forall>B ab w. rec_ok A B ab w \<and> ab \<noteq> None \<longrightarrow> ok (g ab w) (\<lambda>(c, ab', w'). wrote A B T ab w ab' w'))"

lemma tellsD: "tells A T g \<Longrightarrow> rec_ok A B ab w \<Longrightarrow> ab \<noteq> None \<Longrightarrow> ok (g ab w) (\<lambda>(c, ab', w'). wrote A B T ab w ab' w')"
  by (simp add: tells_def)

lemma tells_quiet: "writes A T f \<Longrightarrow> tells A T (\<lambda>ab w. do { (ab, w) \<leftarrow> f ab w; Some (b, ab, w) })"
  unfolding tells_def writes_def by (auto simp: ok_bind split_def elim!: ok_mono)

lemma writes_tells:
  fixes f :: "abuf option \<Rightarrow> 'z aw \<Rightarrow> (abuf option \<times> 'z aw) option"
  assumes "writes A T f" and "tells A U g"
  shows "tells A (followed T U) (\<lambda>ab w. do { (ab, w) \<leftarrow> f ab w; g ab w })"
  unfolding tells_def
proof (intro allI impI)
  fix B ab and w :: "'z aw" assume r: "rec_ok A B ab w \<and> ab \<noteq> None"
  from writesD [OF assms(1) conjunct1 [OF r] conjunct2 [OF r]] obtain ab1 w1
    where 1: "f ab w = Some (ab1, w1)" "wrote A B T ab w ab1 w1" by (auto elim!: okE)
  then have "rec_ok A B ab1 w1" "ab1 \<noteq> None" by (simp_all add: wrote_def)
  from tellsD [OF assms(2) this] show "ok (do { (ab, w) \<leftarrow> f ab w; g ab w }) (\<lambda>(c, ab', w'). wrote A B (followed T U) ab w ab' w')"
    using 1 by (auto intro: wrote_trans elim!: ok_mono)
qed

lemma tells_writes:
  fixes f :: "abuf option \<Rightarrow> 'z aw \<Rightarrow> (bool \<times> abuf option \<times> 'z aw) option"
  assumes "tells A T f" and "writes A U g"
  shows "tells A (followed T U) (\<lambda>ab w. do { (c, ab, w) \<leftarrow> f ab w; (ab, w) \<leftarrow> g ab w; Some (c, ab, w) })"
  unfolding tells_def
proof (intro allI impI)
  fix B ab and w :: "'z aw" assume r: "rec_ok A B ab w \<and> ab \<noteq> None"
  from tellsD [OF assms(1) conjunct1 [OF r] conjunct2 [OF r]] obtain c ab1 w1
    where 1: "f ab w = Some (c, ab1, w1)" "wrote A B T ab w ab1 w1" by (auto elim!: okE)
  then have "rec_ok A B ab1 w1" "ab1 \<noteq> None" by (simp_all add: wrote_def)
  from writesD [OF assms(2) this] 1
  show "ok (do { (c, ab, w) \<leftarrow> f ab w; (ab, w) \<leftarrow> g ab w; Some (c, ab, w) }) (\<lambda>(c, ab', w'). wrote A B (followed T U) ab w ab' w')"
    by (auto simp: ok_bind split_def intro: wrote_trans elim!: ok_mono)
qed

lemma tells_osid: "tells A (osid_texts A osid) (log_osid A osid)"
  unfolding tells_def by (auto intro: log_osid_ok)

lemma tells_name: "name_ok fname n \<Longrightarrow> tells A (path_record A fname wd n p k) (name_fields A fname wd n p k)"
  unfolding tells_def by (auto intro: name_fields_ok)

definition label_texts :: "audit_env \<Rightarrow> u32 \<Rightarrow> byte list set" where
  "label_texts A sid =
     (if sid = 0 then {[]} else insert (ascii '' obj=(none)'') {ascii '' obj='' @ snd (secctx A n sid) | n. fst (secctx A n sid) = 0})"

lemma tells_label: "tells A (label_texts A sid) (pid_label A sid :: abuf option \<Rightarrow> 'z aw \<Rightarrow> _)"
  unfolding tells_def
proof (intro allI impI)
  fix B ab and w :: "'z aw" assume r: "rec_ok A B ab w \<and> ab \<noteq> None"
  obtain n w1 where t: "tick w = (n, w1)" by (metis prod.exhaust)
  obtain e ctx where s: "secctx A n sid = (e, ctx)" by (metis prod.exhaust)
  have f: "ok (audit_log_format A x ab w1) (\<lambda>(ab', w'). wrote A B (label_texts A sid) ab w ab' w')"
    if "x \<in> label_texts A sid" for x
    using that r by (intro ok_mono [OF writesD [OF writes_format tick_rec [OF t]]]) (auto intro: wrote_tick [OF t] wrote_mono)
  have "e = 0 \<Longrightarrow> sid \<noteq> 0 \<Longrightarrow> ascii '' obj='' @ ctx \<in> label_texts A sid" and o: "sid \<noteq> 0 \<Longrightarrow> ascii '' obj=(none)'' \<in> label_texts A sid"
    using s by (auto simp: label_texts_def intro!: exI [of _ n])
  with f [OF o] f [of "ascii '' obj='' @ ctx"] show "ok (pid_label A sid ab w) (\<lambda>(c, ab', w'). wrote A B (label_texts A sid) ab w ab' w')"
    using r t s by (cases "sid = 0") (auto simp: pid_label_def ok_bind label_texts_def wrote_def elim!: ok_mono)
qed

section \<open>A record with its frame\<close>

definition flag_record :: "exit_env \<Rightarrow> nat \<Rightarrow> (abuf option \<Rightarrow> exec_world \<Rightarrow> (bool \<times> abuf option \<times> exec_world) option) \<Rightarrow> exec_world \<Rightarrow>
    (bool \<times> exec_world) option" where
  "flag_record X type body w = do {
     (ab, w) \<leftarrow> audit_log_start (log_side X) (event_stamp X) True type w;
     (if ab = None then Some (False, w)
      else do { (c, ab, w) \<leftarrow> body ab w; w \<leftarrow> audit_log_end (log_side X) ab w; Some (c, w) })
   }"

lemma one_flag_record:
  "one_record X type body w = do { (c, w) \<leftarrow> flag_record X type (\<lambda>ab w. do { (ab, w) \<leftarrow> body ab w; Some (False, ab, w) }) w; Some w }"
proof -
  have r: "Option.bind m Some = m" for m :: "exec_world option" by (cases m) simp_all
  show ?thesis unfolding one_record_def flag_record_def
    by (auto simp: r split_def intro!: arg_cong [where f = "Option.bind _"])
qed

lemma name_flag_record:
  "audit_log_name (log_side X) (event_stamp X) fname wd n p k w = flag_record X AUDIT_PATH (name_fields (log_side X) fname wd n p k) w"
  by (simp add: audit_log_name_def flag_record_def)

definition target_texts :: "audit_env \<Rightarrow> target \<Rightarrow> byte list set" where
  "target_texts A t = {ascii ''opid='' @ signed_dec (tg_pid t) @ ascii '' oauid='' @ signed_dec (sint (tg_auid t)) @
     ascii '' ouid='' @ signed_dec (sint (tg_uid t)) @ ascii '' oses='' @ signed_dec (sint (tg_session t)) @ l @ ascii '' ocomm='' @
     untrusted_text (takeWhile (\<lambda>b. b \<noteq> 0) (tg_comm t)) | l. l \<in> label_texts A (tg_sid t)}"

lemma pid_flag_record:
  "\<exists>g. tells (log_side X) (target_texts (log_side X) t) g \<and> audit_log_pid_context X t = flag_record X AUDIT_OBJ_PID g"
proof -
  let ?A = "log_side X"
  let ?head = "ascii ''opid='' @ signed_dec (tg_pid t) @ ascii '' oauid='' @ signed_dec (sint (tg_auid t)) @
          ascii '' ouid='' @ signed_dec (sint (tg_uid t)) @ ascii '' oses='' @ signed_dec (sint (tg_session t))"
  let ?comm = "takeWhile (\<lambda>b. b \<noteq> 0) (tg_comm t)"
  let ?g = "\<lambda>ab (w :: exec_world). do { (ab, w) \<leftarrow> audit_log_format ?A ?head ab w; (c, ab, w) \<leftarrow> pid_label ?A (tg_sid t) ab w;
     (ab, w) \<leftarrow> (do { (ab, w) \<leftarrow> audit_log_format ?A (ascii '' ocomm='') ab w; audit_log_n_untrustedstring ?A ?comm ab w }); Some (c, ab, w) }"
  have "tells ?A (followed {?head} (followed (label_texts ?A (tg_sid t)) {ascii '' ocomm='' @ untrusted_text ?comm})) ?g"
    by (rule writes_tells [OF writes_format tells_writes [OF tells_label writes_field]])
  moreover have "followed {?head} (followed (label_texts ?A (tg_sid t)) {ascii '' ocomm='' @ untrusted_text ?comm}) = target_texts ?A t"
    by (auto simp: followed_def target_texts_def)
  moreover have "audit_log_pid_context X t = flag_record X AUDIT_OBJ_PID ?g"
    by (rule ext) (simp add: audit_log_pid_context_def flag_record_def Let_def split_def cong: if_cong)
  ultimately show ?thesis by auto
qed

section \<open>The texts of the records\<close>

definition subject_texts :: "audit_env \<Rightarrow> byte list set" where
  "subject_texts A = insert [] {ascii '' subj='' @ snd (secctx A n sid) | n sid. fst (secctx A n sid) = 0}"

lemma writes_subject: "writes A (subject_texts A) (\<lambda>ab w. do { (_, ab, w) \<leftarrow> audit_log_task_context A ab w; Some (ab, w) } :: (_ \<times> 'z aw) option)"
  unfolding writes_def
proof (intro allI impI)
  fix B ab and w :: "'z aw" assume r: "rec_ok A B ab w \<and> ab \<noteq> None"
  obtain n w1 where t: "tick w = (n, w1)" by (metis prod.exhaust)
  obtain n2 w2 where t2: "tick w1 = (n2, w2)" by (metis prod.exhaust)
  obtain e ctx where s: "secctx A n2 (getsecid A n) = (e, ctx)" by (metis prod.exhaust)
  have r1: "rec_ok A B ab w1" using r tick_rec [OF t] by blast
  note r2 = tick_rec [OF t2 r1]
  have none: "wrote A B (subject_texts A) ab w ab w1" "wrote A B (subject_texts A) ab w ab w2"
    using r1 r2 r tick_frame [OF t] log_frame_trans [OF tick_frame [OF t] tick_frame [OF t2]] by (auto simp: wrote_def subject_texts_def)
  have p: "audit_panic w2 = Some w2" using r2 by (auto simp: audit_panic_def rec_ok_def no_panic_def dest!: no_panic_pool)
  have f: "ok (audit_log_format A x ab w2) (\<lambda>(ab', w'). wrote A B (subject_texts A) ab w ab' w')" if "x \<in> subject_texts A" for x
    using that r by (intro ok_mono [OF writesD [OF writes_format r2]]) (auto intro!: wrote_tick [OF t] wrote_tick [OF t2] intro: wrote_mono)
  have "e = 0 \<Longrightarrow> ascii '' subj='' @ ctx \<in> subject_texts A" using s by (auto simp: subject_texts_def intro!: exI [of _ n2] exI [of _ "getsecid A n"])
  with f [of "ascii '' subj='' @ ctx"]
  show "ok (do { (_, ab, w) \<leftarrow> audit_log_task_context A ab w; Some (ab, w) }) (\<lambda>(ab', w'). wrote A B (subject_texts A) ab w ab' w')"
    using t t2 s none p by (auto simp: audit_log_task_context_def Let_def ok_bind split_def elim!: ok_mono)
qed

definition exe_text :: "path option \<Rightarrow> byte list" where
  "exe_text e = (case e of None \<Rightarrow> ascii '' exe=(null)'' | Some p \<Rightarrow> ascii '' exe='' @ path_text p)"

lemma writes_exe: "writes A {exe_text e} (audit_log_d_path_exe A e)"
  by (cases e) (auto simp: audit_log_d_path_exe_def [abs_def] exe_text_def eta_contract_eq intro: writes_format writes_d_path)

definition task_texts :: "audit_env \<Rightarrow> task \<Rightarrow> byte list set" where
  "task_texts A t = {task_text A t @ ascii '' comm='' @ untrusted_text (tk_comm t) @ exe_text (tk_exe t) @ s | s. s \<in> subject_texts A}"

lemma writes_cong: "writes A T f \<Longrightarrow> (\<And>ab w. ab \<noteq> None \<Longrightarrow> g ab w = f ab w) \<Longrightarrow> writes A T g"
  by (simp add: writes_def)

lemma writes_task_info: "writes A (task_texts A t) (audit_log_task_info A t :: abuf option \<Rightarrow> 'z aw \<Rightarrow> _)"
proof -
  have "followed {task_text A t} (followed {ascii '' comm='' @ untrusted_text (tk_comm t)} (followed {exe_text (tk_exe t)} (subject_texts A))) = task_texts A t"
    by (auto simp: followed_def task_texts_def)
  moreover note writes_then [OF writes_format writes_then [OF writes_field writes_then [OF writes_exe writes_subject]],
      of A "task_text A t" "ascii '' comm=''" "tk_comm t" "tk_exe t"]
  ultimately have "writes A (task_texts A t) (\<lambda>ab (w :: 'z aw). do { (ab, w) \<leftarrow> audit_log_format A (task_text A t) ab w;
      (ab, w) \<leftarrow> (do { (ab, w) \<leftarrow> audit_log_format A (ascii '' comm='') ab w; audit_log_n_untrustedstring A (tk_comm t) ab w });
      (ab, w) \<leftarrow> audit_log_d_path_exe A (tk_exe t) ab w; (_, ab, w) \<leftarrow> audit_log_task_context A ab w; Some (ab, w) })" by simp
  then show ?thesis by (rule writes_cong) (auto simp: audit_log_task_info_def split_def)
qed

definition key_text :: "byte list option \<Rightarrow> byte list" where
  "key_text k = ascii '' key='' @ (case k of Some k \<Rightarrow> untrusted_text k | None \<Rightarrow> ascii ''(null)'')"

lemma writes_key: "writes A {key_text k} (audit_log_key A k)"
  using writes_field [of A "ascii '' key=''"] writes_then [OF writes_format writes_format, of A "ascii '' key=''" "ascii ''(null)''"]
  by (cases k) (simp_all add: audit_log_key_def [abs_def] key_text_def)

definition syscall_texts :: "audit_env \<Rightarrow> task \<Rightarrow> 'c cc \<Rightarrow> byte list set" where
  "syscall_texts A t c = {syscall_text c @ (if personality c \<noteq> 0 then ascii '' per='' @ hexword (personality c) else []) @
     (if return_valid c \<noteq> 0 then result_text c else []) @ args_text c @ s @ key_text (map_option snd (filterkey c)) | s. s \<in> task_texts A t}"

lemma writes_syscall: "writes A (syscall_texts A t c) (syscall_fields A t c)"
proof -
  have "followed {syscall_text c} (followed {if personality c \<noteq> 0 then ascii '' per='' @ hexword (personality c) else []}
      (followed {if return_valid c \<noteq> 0 then result_text c else []} (followed {args_text c} (followed (task_texts A t) {key_text (map_option snd (filterkey c))}))))
      = syscall_texts A t c"
    by (auto simp: followed_def syscall_texts_def)
  moreover note writes_then [OF writes_format writes_then [OF writes_opt [OF writes_format] writes_then [OF writes_opt [OF writes_format]
      writes_then [OF writes_format writes_then [OF writes_task_info writes_key]]]],
      of A "syscall_text c" "personality c \<noteq> 0" "ascii '' per='' @ hexword (personality c)" "return_valid c \<noteq> 0" "result_text c" "args_text c" t
        "map_option snd (filterkey c)"]
  ultimately show ?thesis by (simp add: syscall_fields_def [abs_def])
qed

definition bprm_text :: "bprm_fcaps \<Rightarrow> byte list" where
  "bprm_text x = ascii ''fver='' @ hexword (fcap_ver x) @ cap_text ''fp'' (fcap_permitted x) @ cap_text ''fi'' (fcap_inheritable x) @
     ascii '' fe='' @ dec (if fcap_fE x then 1 else 0) @ cap_text ''old_pp'' (cap_permitted (old_pcap x)) @
     cap_text ''old_pi'' (cap_inheritable (old_pcap x)) @ cap_text ''old_pe'' (cap_effective (old_pcap x)) @
     cap_text ''new_pp'' (cap_permitted (new_pcap x)) @ cap_text ''new_pi'' (cap_inheritable (new_pcap x)) @
     cap_text ''new_pe'' (cap_effective (new_pcap x))"

lemma writes_bprm: "writes A {bprm_text x} (fcaps_fields A x)"
  using writes_then [OF writes_format writes_then [OF writes_cap writes_then [OF writes_cap writes_then [OF writes_format
      writes_then [OF writes_cap writes_then [OF writes_cap writes_then [OF writes_cap writes_then [OF writes_cap writes_then [OF writes_cap writes_cap]]]]]]]],
      of A "ascii ''fver='' @ hexword (fcap_ver x)" "''fp''" "fcap_permitted x" "''fi''" "fcap_inheritable x"
        "ascii '' fe='' @ dec (if fcap_fE x then 1 else 0)" "''old_pp''" "cap_permitted (old_pcap x)" "''old_pi''" "cap_inheritable (old_pcap x)"
        "''old_pe''" "cap_effective (old_pcap x)" "''new_pp''" "cap_permitted (new_pcap x)" "''new_pi''" "cap_inheritable (new_pcap x)"
        "''new_pe''" "cap_effective (new_pcap x)"]
  by (simp only: fcaps_fields_def [abs_def] bprm_text_def followed_single append_assoc)

primrec socket_args_text :: "nat \<Rightarrow> u64 list \<Rightarrow> byte list" where
  "socket_args_text i [] = []"
| "socket_args_text i (a # as) = ascii '' a'' @ dec i @ ascii ''='' @ hexword a @ socket_args_text (Suc i) as"

lemma writes_socket_args: "writes A {socket_args_text i as} (log_socket_args A i as)"
proof (induction as arbitrary: i)
  case Nil
  then show ?case using writes_nothing [of A] by (simp add: eta_contract_eq)
next
  case (Cons a as)
  from writes_then [OF writes_format Cons, of "ascii '' a'' @ dec i @ ascii ''='' @ hexword a" "Suc i"] show ?case
    by (simp add: eta_contract_eq)
qed

text \<open>The text of a special call; the first record of \<open>execve\<close> is longer.\<close>

definition special_text :: "special_data \<Rightarrow> byte list" where
  "special_text d =
     (case d of
        Socketcall as \<Rightarrow> ascii ''nargs='' @ dec (length as) @ socket_args_text 0 as
      | Mq_open oflag mode a \<Rightarrow>
          ascii ''oflag=0x'' @ radix 16 (nat (oflag mod 2 ^ 32)) @ ascii '' mode='' @ octal mode @ ascii '' mq_flags=0x'' @
            radix 16 (nat (mq_flags a mod 2 ^ 64)) @ ascii '' mq_maxmsg='' @ signed_dec (mq_maxmsg a) @ ascii '' mq_msgsize='' @ signed_dec (mq_msgsize a) @
            ascii '' mq_curmsgs='' @ signed_dec (mq_curmsgs a)
      | Mq_sendrecv mqdes len p t \<Rightarrow>
          ascii ''mqdes='' @ signed_dec mqdes @ ascii '' msg_len='' @ signed_dec (sint len) @ ascii '' msg_prio='' @ udec p @
            ascii '' abs_timeout_sec='' @ signed_dec (fst t) @ ascii '' abs_timeout_nsec='' @ signed_dec (snd t)
      | Mq_notify mqdes s \<Rightarrow> ascii ''mqdes='' @ signed_dec mqdes @ ascii '' sigev_signo='' @ signed_dec s
      | Mq_getsetattr mqdes a \<Rightarrow>
          ascii ''mqdes='' @ signed_dec mqdes @ ascii '' mq_flags=0x'' @ radix 16 (nat (mq_flags a mod 2 ^ 64)) @
            ascii '' mq_maxmsg='' @ signed_dec (mq_maxmsg a) @ ascii '' mq_msgsize='' @ signed_dec (mq_msgsize a) @
            ascii '' mq_curmsgs='' @ signed_dec (mq_curmsgs a) @ ascii '' ''
      | Capset pid c \<Rightarrow> ascii ''pid='' @ signed_dec pid @ cap_text ''cap_pi'' (cap_inheritable c) @ cap_text ''cap_pp'' (cap_permitted c) @
          cap_text ''cap_pe'' (cap_effective c)
      | Mmap fd flags \<Rightarrow> ascii ''fd='' @ signed_dec fd @ ascii '' flags=0x'' @ radix 16 (nat (flags mod 2 ^ 32))
      | _ \<Rightarrow> [])"

lemma writes_capset: "writes A {special_text (Capset pid c)} (special_fields A (Capset pid c))"
  using writes_then [OF writes_format writes_then [OF writes_cap writes_then [OF writes_cap writes_cap]],
      of A "ascii ''pid='' @ signed_dec pid" "''cap_pi''" "cap_inheritable c" "''cap_pp''" "cap_permitted c" "''cap_pe''" "cap_effective c"]
  by (simp add: special_fields_def [abs_def] special_text_def)

lemma writes_special: "writes A {special_text d} (special_fields A d)"
proof (cases d)
  case (Socketcall as)
  then show ?thesis using writes_then [OF writes_format writes_socket_args, of A "ascii ''nargs='' @ dec (length as)" 0 as]
    by (simp add: special_fields_def [abs_def] special_text_def)
next
  case (Capset pid c)
  then show ?thesis by (simp add: writes_capset)
qed (use writes_nothing [of A] in \<open>simp_all add: special_fields_def [abs_def] special_text_def eta_contract_eq writes_format\<close>)

section \<open>The title, trimmed\<close>

definition trimmed :: "('a \<Rightarrow> bool) \<Rightarrow> 'a list \<Rightarrow> 'a list" where
  "trimmed P s = rev (dropWhile (\<lambda>b. \<not> P b) (rev s))"

lemma trimmed_append [simp]: "trimmed P (xs @ [x]) = (if P x then xs @ [x] else trimmed P xs)"
  by (simp add: trimmed_def)

lemma rtrim_end_trimmed:
  "n < length s \<Longrightarrow> rtrim_end P s n \<le> n \<and>
     take (if P (s ! rtrim_end P s n) then rtrim_end P s n + 1 else rtrim_end P s n) s = trimmed P (take (Suc n) s)"
proof (induction n)
  case 0
  then show ?case by (cases s) (simp_all add: trimmed_def)
next
  case (Suc n)
  have "take (Suc (Suc n)) s = take (Suc n) s @ [s ! Suc n]" using Suc.prems by (simp add: take_Suc_conv_app_nth)
  then show ?case using Suc by auto
qed

lemma rtrim_end_zero: "\<not> P (s ! rtrim_end P s n) \<Longrightarrow> rtrim_end P s n = 0"
  by (induction n) (auto split: if_splits)

lemma rtrim_trimmed:
  assumes "s \<noteq> []"
  shows "take (audit_proctitle_rtrim P s) s = trimmed P s" and "audit_proctitle_rtrim P s = 0 \<longleftrightarrow> trimmed P s = []"
proof -
  have n: "length s - 1 < length s" using assms by simp
  show t: "take (audit_proctitle_rtrim P s) s = trimmed P s"
    using rtrim_end_trimmed [OF n, of P] assms by (simp add: audit_proctitle_rtrim_def Let_def split: if_splits)
  then show "audit_proctitle_rtrim P s = 0 \<longleftrightarrow> trimmed P s = []"
    using assms by auto
qed

section \<open>What an event consists of\<close>

text \<open>Each record: its type and the texts it may have behind the stamp. \<open>k\<close> counts the further records of \<open>execve\<close>.\<close>

type_synonym record_spec = "nat \<times> byte list set"

definition special_records :: "exit_env \<Rightarrow> 'c cc \<Rightarrow> nat \<Rightarrow> record_spec list" where
  "special_records X c k =
     (case data c of
        Ipc d \<Rightarrow> (special c, followed {ipc_fields d} (osid_texts (log_side X) (ipc_osid c))) #
          (if ipc_has_perm d then [(AUDIT_IPC_SET_PERM, {ipc_perm_fields d})] else [])
      | Execve argc \<Rightarrow> replicate k (AUDIT_EXECVE, UNIV) @ [(AUDIT_EXECVE, UNIV)]
      | d \<Rightarrow> [(special c, {special_text d})])"

definition target_record :: "exit_env \<Rightarrow> target \<Rightarrow> record_spec" where
  "target_record X t = (AUDIT_OBJ_PID, target_texts (log_side X) t)"

primrec name_records :: "exit_env \<Rightarrow> path \<Rightarrow> nat \<Rightarrow> audit_names list \<Rightarrow> record_spec list" where
  "name_records X d i [] = []"
| "name_records X d i (n # ns) =
     (if n_hidden n then name_records X d i ns
      else (AUDIT_PATH, path_record (log_side X) (name_text X) d n None i) # name_records X d (Suc i) ns)"

definition title :: "exit_env \<Rightarrow> 'c cc \<Rightarrow> byte list" where
  "title X c = (case proctitle c of Some (_, s) \<Rightarrow> s
     | None \<Rightarrow> let s = trimmed (isprint X) (cmdline X) in if s = [] then ascii ''(null)'' else s)"

definition call_records :: "exit_env \<Rightarrow> 't ft \<Rightarrow> 'c cc \<Rightarrow> nat \<Rightarrow> record_spec list" where
  "call_records X t c k =
     (AUDIT_SYSCALL, syscall_texts (log_side X) (task.truncate t) (c\<lparr>personality := t_personality t\<rparr>)) #
     map (\<lambda>x. (AUDIT_BPRM_FCAPS, {bprm_text x})) (map snd (aux c)) @
     (if special c \<noteq> 0 then special_records X c k else []) @
     (if fst (fds c) \<ge> 0 then [(AUDIT_FD_PAIR, {ascii ''fd0='' @ signed_dec (fst (fds c)) @ ascii '' fd1='' @ signed_dec (snd (fds c))})] else []) @
     (if sockaddr_len c \<noteq> 0 then [(AUDIT_SOCKADDR, {ascii ''saddr='' @ hex_text (take (sockaddr_len c) (snd (the (sockaddr c))))})] else []) @
     map (target_record X) (concat (map snd (aux_pids c)) @ (if tg_pid (target c) \<noteq> 0 then [target c] else [])) @
     (case pwd c of None \<Rightarrow> [] | Some p \<Rightarrow> [(AUDIT_CWD, {ascii '' cwd='' @ path_text p})]) @
     name_records X (case pwd c of None \<Rightarrow> None | Some p \<Rightarrow> p) 0 (map snd (entries c)) @
     [(AUDIT_PROCTITLE, {ascii ''proctitle='' @ untrusted_text (title X c)}), (AUDIT_EOE, {[]})]"

text \<open>What the code relies on of a context: its type fits its data, the address lies in its object, the names are names.\<close>

definition kind_fits :: "'c cc \<Rightarrow> bool" where
  "kind_fits c \<longleftrightarrow> (case data c of Execve _ \<Rightarrow> special c \<noteq> 0 \<longrightarrow> special c = AUDIT_EXECVE | _ \<Rightarrow> True)"

definition call_data_ok :: "exit_env \<Rightarrow> 'c cc \<Rightarrow> bool" where
  "call_data_ok X c \<longleftrightarrow> kind_fits c \<and> (sockaddr_len c \<noteq> 0 \<longrightarrow> (\<exists>k buf. sockaddr c = Some (k, buf) \<and> sockaddr_len c \<le> length buf)) \<and>
     (\<forall>n \<in> set (map snd (entries c)). name_ok (name_text X) n)"

definition title_ids :: "'c cc \<Rightarrow> nat multiset" where
  "title_ids c = (case proctitle c of None \<Rightarrow> {#} | Some (k, _) \<Rightarrow> {#k#})"

lemma followed_nothing [simp]: "followed {[]} T = T"
  by (simp add: followed_def)

lemma ok_panic: "no_panic w \<Longrightarrow> audit_panic w = Some w"
  by (simp add: audit_panic_def no_panic_def)

section \<open>What the end of a call needs of the log\<close>

text \<open>
  \<open>P hs B w\<close> says that the log has the records \<open>hs\<close> of the event and that \<open>B\<close> is in use
  besides; \<open>R hs ty T B ab w\<close> that a further record of type \<open>ty\<close> is open, with a text of \<open>T\<close>.
  When \<open>sure\<close> holds no record is lost; otherwise nothing is said of which there are.
\<close>

locale event_client =
  fixes X :: exit_env
    and P :: "record_spec list \<Rightarrow> nat multiset \<Rightarrow> exec_world \<Rightarrow> bool"
    and R :: "record_spec list \<Rightarrow> nat \<Rightarrow> byte list set \<Rightarrow> nat multiset \<Rightarrow> abuf option \<Rightarrow> exec_world \<Rightarrow> bool"
    and sure :: bool
  assumes start: "P hs B w \<Longrightarrow> ok (audit_log_start (log_side X) (event_stamp X) True ty w)
      (\<lambda>(ab, w'). if ab = None then \<not> sure \<and> P hs B w' else R hs ty {[]} B ab w')"
    and finish: "R hs ty T B ab w \<Longrightarrow> ok (audit_log_end (log_side X) ab w) (P (hs @ [(ty, T)]) B)"
    and put: "R hs ty T B ab w \<Longrightarrow> writes (log_side X) U g \<Longrightarrow> ok (g ab w) (\<lambda>(ab', w'). R hs ty (followed T U) B ab' w')"
    and tell: "R hs ty T B ab w \<Longrightarrow> tells (log_side X) U b \<Longrightarrow> ok (b ab w) (\<lambda>(c, ab', w'). R hs ty (followed T U) B ab' w')"
    and room: "R hs ty T B ab w \<Longrightarrow> kmalloc n w = (m, w') \<Longrightarrow>
      (case m of None \<Rightarrow> \<not> sure \<and> R hs ty T B ab w' | Some (k, _) \<Rightarrow> R hs ty T (B + {#k#}) ab w')"
    and give: "R hs ty T (B + {#k#}) ab w \<Longrightarrow> ok (kfree k w) (R hs ty T B ab)"
    and exec: "R hs AUDIT_EXECVE {[]} B ab w \<Longrightarrow> ok (audit_log_execve_info (log_side X) (event_stamp X) p argc ab w)
      (\<lambda>(ab', w'). if ab' = None then \<not> sure \<and> P hs B w'
        else \<exists>k. R (hs @ replicate k (AUDIT_EXECVE, UNIV)) AUDIT_EXECVE UNIV B ab' w')"
    and unsure: "\<not> sure \<Longrightarrow> P hs B w \<Longrightarrow> P hs' B w"
    and unsure_text: "\<not> sure \<Longrightarrow> R hs ty T B ab w \<Longrightarrow> R hs ty T' B ab w"
    and open_some: "R hs ty T B ab w \<Longrightarrow> ab \<noteq> None"
    and calm_P: "P hs B w \<Longrightarrow> no_panic w"
begin

lemma flag_record_event:
  assumes "P hs B w" and "tells (log_side X) U body"
  shows "ok (flag_record X ty body w) (\<lambda>(c, w'). P (hs @ [(ty, U)]) B w')"
proof -
  from start [OF assms(1), of ty] obtain ab w1 where 1: "audit_log_start (log_side X) (event_stamp X) True ty w = Some (ab, w1)"
    and s: "if ab = None then \<not> sure \<and> P hs B w1 else R hs ty {[]} B ab w1" by (auto elim!: okE)
  show ?thesis
  proof (cases "ab = None")
    case True
    then show ?thesis using 1 s unsure [of hs B w1] by (simp add: flag_record_def)
  next
    case False
    then have "R hs ty {[]} B ab w1" using s by simp
    from tell [OF this assms(2)] obtain c ab2 w2 where 2: "body ab w1 = Some (c, ab2, w2)" and "R hs ty U B ab2 w2" by (auto elim!: okE)
    from finish [OF this(2)] show ?thesis using 1 2 False by (auto simp: flag_record_def ok_bind elim!: ok_mono)
  qed
qed

lemma one_record_event:
  assumes "P hs B w" and "writes (log_side X) U body"
  shows "ok (one_record X ty body w) (P (hs @ [(ty, U)]) B)"
  using flag_record_event [OF assms(1) tells_quiet [OF assms(2)], of ty False]
  by (auto simp: one_flag_record ok_bind elim!: ok_mono)

lemma log_aux_event: "P hs B w \<Longrightarrow> ok (log_aux X xs w) (P (hs @ map (\<lambda>x. (AUDIT_BPRM_FCAPS, {bprm_text x})) xs) B)"
proof (induction xs arbitrary: hs w)
  case (Cons x xs)
  from one_record_event [OF Cons.prems writes_bprm] obtain w1
    where "one_record X AUDIT_BPRM_FCAPS (fcaps_fields (log_side X) x) w = Some w1" and "P (hs @ [(AUDIT_BPRM_FCAPS, {bprm_text x})]) B w1"
    by (auto elim!: okE)
  with Cons.IH [OF this(2)] show ?case by simp
qed simp

lemma log_targets_event: "P hs B w \<Longrightarrow> ok (log_targets X ts b w) (\<lambda>(c, w'). P (hs @ map (target_record X) ts) B w')"
proof (induction ts arbitrary: hs b w)
  case (Cons t ts)
  from pid_flag_record [of X t] obtain g where "tells (log_side X) (target_texts (log_side X) t) g"
    and g: "audit_log_pid_context X t = flag_record X AUDIT_OBJ_PID g" by blast
  from flag_record_event [OF Cons.prems this(1), of AUDIT_OBJ_PID] obtain c w1
    where "audit_log_pid_context X t w = Some (c, w1)" and "P (hs @ [target_record X t]) B w1"
    by (auto simp: g target_record_def elim!: okE)
  with Cons.IH [OF this(2)] show ?case by simp
qed simp

lemma log_names_event:
  "P hs B w \<Longrightarrow> \<forall>n \<in> set ns. name_ok (name_text X) n \<Longrightarrow>
   ok (log_names X d i ns b w) (\<lambda>(c, w'). P (hs @ name_records X d i ns) B w')"
proof (induction ns arbitrary: hs i b w)
  case (Cons n ns)
  show ?case
  proof (cases "n_hidden n")
    case True
    then show ?thesis using Cons by simp
  next
    case False
    from flag_record_event [OF Cons.prems(1) tells_name, of "name_text X" n AUDIT_PATH d None i] Cons.prems(2) obtain c w1
      where "audit_log_name (log_side X) (event_stamp X) (name_text X) d n None i w = Some (c, w1)"
        and "P (hs @ [(AUDIT_PATH, path_record (log_side X) (name_text X) d n None i)]) B w1"
      by (auto simp: name_flag_record elim!: okE)
    with Cons.IH [OF this(2)] Cons.prems(2) False show ?thesis by simp
  qed
qed simp

lemma ipc_event:
  assumes "R hs (special c) {[]} B ab w"
  shows "ok (do {
     (ab, w) \<leftarrow> audit_log_format (log_side X) (ipc_fields d) ab w;
     (b, ab, w) \<leftarrow> log_osid (log_side X) (ipc_osid c) ab w;
     w \<leftarrow> audit_log_end (log_side X) ab w;
     w \<leftarrow> (if ipc_has_perm d then one_record X AUDIT_IPC_SET_PERM (audit_log_format (log_side X) (ipc_perm_fields d)) w else Some w);
     Some (b, w) }) (\<lambda>(b, w'). P (hs @ (special c, followed {ipc_fields d} (osid_texts (log_side X) (ipc_osid c))) #
       (if ipc_has_perm d then [(AUDIT_IPC_SET_PERM, {ipc_perm_fields d})] else [])) B w')"
proof -
  from tell [OF assms writes_tells [OF writes_format tells_osid], of "ipc_fields d" "ipc_osid c"] obtain ab1 w1 b ab2 w2
    where 1: "audit_log_format (log_side X) (ipc_fields d) ab w = Some (ab1, w1)" "log_osid (log_side X) (ipc_osid c) ab1 w1 = Some (b, ab2, w2)"
      and r: "R hs (special c) (followed {ipc_fields d} (osid_texts (log_side X) (ipc_osid c))) B ab2 w2"
    by (auto simp: ok_bind elim!: okE)
  from finish [OF r] obtain w3 where 3: "audit_log_end (log_side X) ab2 w2 = Some w3"
    and p: "P (hs @ [(special c, followed {ipc_fields d} (osid_texts (log_side X) (ipc_osid c)))]) B w3" by (auto elim!: okE)
  from one_record_event [OF p writes_format, of AUDIT_IPC_SET_PERM "ipc_perm_fields d"] show ?thesis
    using 1 3 p by (auto simp: ok_bind elim!: ok_mono)
qed

lemma exec_event:
  assumes "R hs AUDIT_EXECVE {[]} B ab w"
  shows "ok (do {
     (ab, w) \<leftarrow> audit_log_execve_info (log_side X) (event_stamp X) p argc ab w;
     w \<leftarrow> audit_log_end (log_side X) ab w;
     Some (False, w) }) (\<lambda>(b, w'). \<exists>k. P (hs @ replicate k (AUDIT_EXECVE, UNIV) @ [(AUDIT_EXECVE, UNIV)]) B w')"
proof -
  from exec [OF assms, of p argc] obtain ab1 w1 where 1: "audit_log_execve_info (log_side X) (event_stamp X) p argc ab w = Some (ab1, w1)"
    and r: "if ab1 = None then \<not> sure \<and> P hs B w1 else \<exists>k. R (hs @ replicate k (AUDIT_EXECVE, UNIV)) AUDIT_EXECVE UNIV B ab1 w1"
    by (auto elim!: okE)
  show ?thesis
  proof (cases "ab1 = None")
    case True
    then show ?thesis using 1 r unsure [of hs B w1] by (simp add: audit_log_end_def)
  next
    case False
    then obtain k where "R (hs @ replicate k (AUDIT_EXECVE, UNIV)) AUDIT_EXECVE UNIV B ab1 w1" using r by auto
    from finish [OF this] show ?thesis using 1 by (auto simp: ok_bind elim!: ok_mono)
  qed
qed

lemma show_special_event:
  assumes "P hs B w" and "kind_fits c" and "special c \<noteq> 0"
  shows "ok (show_special X c w) (\<lambda>(b, w'). \<exists>k. P (hs @ special_records X c k) B w')"
proof -
  from start [OF assms(1), of "special c"] obtain ab w1
    where 1: "audit_log_start (log_side X) (event_stamp X) True (special c) w = Some (ab, w1)"
      and s: "if ab = None then \<not> sure \<and> P hs B w1 else R hs (special c) {[]} B ab w1" by (auto elim!: okE)
  show ?thesis
  proof (cases "ab = None")
    case True
    then show ?thesis using 1 s unsure [of hs B w1] by (simp add: show_special_def)
  next
    case False
    then have r: "R hs (special c) {[]} B ab w1" using s by simp
    obtain a where a: "ab = Some a" using False by blast
    from put [OF r writes_special, of "data c"] obtain ab2 w2 where 2: "special_fields (log_side X) (data c) ab w1 = Some (ab2, w2)"
      and r2: "R hs (special c) {special_text (data c)} B ab2 w2" by (auto elim!: okE)
    from finish [OF r2] obtain w3 where 3: "audit_log_end (log_side X) ab2 w2 = Some w3"
      and p3: "P (hs @ [(special c, {special_text (data c)})]) B w3" by (auto elim!: okE)
    show ?thesis
    proof (cases "data c")
      case (Ipc d)
      from ipc_event [OF r, of d] show ?thesis using 1 by (auto simp: a show_special_def special_records_def Ipc Let_def elim!: ok_mono)
    next
      case (Execve argc)
      then have "special c = AUDIT_EXECVE" using assms(2,3) by (simp add: kind_fits_def)
      then show ?thesis using exec_event [of hs B ab w1 "arg_start X" argc] r 1
        by (simp add: a show_special_def special_records_def Execve Let_def)
    qed (use 1 2 3 p3 in \<open>simp_all add: a show_special_def special_records_def Let_def\<close>)
  qed
qed

lemma fetch_proctitle_event:
  assumes "R hs ty T B ab w"
  shows "ok (fetch_proctitle X c w) (\<lambda>(c', w'). R hs ty T (B + (title_ids c' - title_ids c)) ab w' \<and> title_ids c \<subseteq># title_ids c' \<and>
    c' = c\<lparr>proctitle := proctitle c'\<rparr> \<and> (sure \<longrightarrow> (case proctitle c' of None \<Rightarrow> ascii ''(null)'' | Some (_, s) \<Rightarrow> s) = title X c))"
proof (cases "proctitle c")
  case (Some p)
  then show ?thesis using assms by (simp add: fetch_proctitle_def title_def)
next
  case None
  obtain m w1 where m: "kmalloc MAX_PROCTITLE_AUDIT_LEN w = (m, w1)" by (metis prod.exhaust)
  note r = room [OF assms m]
  have c: "c = c\<lparr>proctitle := None\<rparr>" using None by simp
  show ?thesis
  proof (cases m)
    case None
    then show ?thesis using r m \<open>proctitle c = None\<close> c by (simp add: fetch_proctitle_def)
  next
    case (Some q)
    obtain k bs where q: "q = (k, bs)" by (cases q)
    then have r1: "R hs ty T (B + {#k#}) ab w1" using r Some by simp
    define s where "s = trimmed (isprint X) (cmdline X)"
    show ?thesis
    proof (cases "s = []")
      case True
      then have "cmdline X = [] \<or> audit_proctitle_rtrim (isprint X) (cmdline X) = 0"
        using rtrim_trimmed(2) [of "cmdline X" "isprint X"] by (cases "cmdline X = []") (auto simp: s_def)
      moreover have "title X c = ascii ''(null)''" using True None by (simp add: title_def s_def Let_def)
      moreover obtain w2 where "kfree k w1 = Some w2" "R hs ty T B ab w2" using give [OF r1] by (auto elim!: okE)
      ultimately show ?thesis using m Some q None c by (auto simp: fetch_proctitle_def Let_def title_ids_def)
    next
      case False
      then have "cmdline X \<noteq> []" by (auto simp: s_def trimmed_def)
      note t = rtrim_trimmed [OF this, of "isprint X"]
      have "title X c = s" using False None by (simp add: title_def s_def Let_def)
      then show ?thesis using m Some q None r1 t False \<open>cmdline X \<noteq> []\<close>
        by (simp add: fetch_proctitle_def Let_def title_ids_def s_def)
    qed
  qed
qed

lemma proctitle_event:
  assumes "P hs (B + title_ids c) w"
  shows "ok (audit_log_proctitle X c w) (\<lambda>(c', w'). P (hs @ [(AUDIT_PROCTITLE, {ascii ''proctitle='' @ untrusted_text (title X c)})]) (B + title_ids c') w' \<and>
    c' = c\<lparr>proctitle := proctitle c'\<rparr>)"
proof -
  from start [OF assms, of AUDIT_PROCTITLE] obtain ab w1
    where 1: "audit_log_start (log_side X) (event_stamp X) True AUDIT_PROCTITLE w = Some (ab, w1)"
      and s: "if ab = None then \<not> sure \<and> P hs (B + title_ids c) w1 else R hs AUDIT_PROCTITLE {[]} (B + title_ids c) ab w1" by (auto elim!: okE)
  show ?thesis
  proof (cases "ab = None")
    case True
    then show ?thesis using 1 s unsure [of hs "B + title_ids c" w1] by (simp add: audit_log_proctitle_def)
  next
    case False
    then have r: "R hs AUDIT_PROCTITLE {[]} (B + title_ids c) ab w1" using s by simp
    from put [OF r writes_format, of "ascii ''proctitle=''"] obtain ab2 w2
      where 2: "audit_log_format (log_side X) (ascii ''proctitle='') ab w1 = Some (ab2, w2)"
        and r2: "R hs AUDIT_PROCTITLE {ascii ''proctitle=''} (B + title_ids c) ab2 w2" by (auto elim!: okE)
    from fetch_proctitle_event [OF r2, of c] obtain c' w3 where 3: "fetch_proctitle X c w2 = Some (c', w3)"
      and r3: "R hs AUDIT_PROCTITLE {ascii ''proctitle=''} (B + title_ids c + (title_ids c' - title_ids c)) ab2 w3" "title_ids c \<subseteq># title_ids c'"
      and c': "c' = c\<lparr>proctitle := proctitle c'\<rparr>"
      and t: "sure \<longrightarrow> (case proctitle c' of None \<Rightarrow> ascii ''(null)'' | Some (_, s) \<Rightarrow> s) = title X c"
      by (auto elim!: okE)
    let ?s = "case proctitle c' of None \<Rightarrow> ascii ''(null)'' | Some (_, s) \<Rightarrow> s"
    have "R hs AUDIT_PROCTITLE {ascii ''proctitle=''} (B + title_ids c') ab2 w3" using r3 by (simp add: add.assoc)
    from put [OF this writes_untrusted, of ?s] obtain ab4 w4
      where 4: "audit_log_n_untrustedstring (log_side X) ?s ab2 w3 = Some (ab4, w4)"
        and r4: "R hs AUDIT_PROCTITLE {ascii ''proctitle='' @ untrusted_text ?s} (B + title_ids c') ab4 w4" by (auto elim!: okE)
    have "R hs AUDIT_PROCTITLE {ascii ''proctitle='' @ untrusted_text (title X c)} (B + title_ids c') ab4 w4"
      using r4 t unsure_text [OF _ r4] by (cases sure) simp_all
    from finish [OF this] obtain w5 where 5: "audit_log_end (log_side X) ab4 w4 = Some w5"
      and p: "P (hs @ [(AUDIT_PROCTITLE, {ascii ''proctitle='' @ untrusted_text (title X c)})]) (B + title_ids c') w5" by (auto elim!: okE)
    obtain a where a: "ab = Some a" using False by blast
    have "audit_log_proctitle X c w = Some (c', w5)" using 1 2 3 4 5 a by (simp add: audit_log_proctitle_def Let_def)
    then show ?thesis using p c' by (simp del: split_paired_Ex)
  qed
qed

lemma sockaddr_event:
  assumes "P hs B w" and "call_data_ok X c"
  shows "ok (log_sockaddr X c w) (P (hs @ (if sockaddr_len c \<noteq> 0
    then [(AUDIT_SOCKADDR, {ascii ''saddr='' @ hex_text (take (sockaddr_len c) (snd (the (sockaddr c))))})] else [])) B)"
proof (cases "sockaddr_len c = 0")
  case True
  then show ?thesis using assms(1) by (simp add: log_sockaddr_def)
next
  case False
  then obtain k buf where b: "sockaddr c = Some (k, buf)" "sockaddr_len c \<le> length buf" using assms(2) by (auto simp: call_data_ok_def)
  then have "buf_read (snd (k, buf)) 0 (sockaddr_len c) = Some (take (sockaddr_len c) buf)" by (simp add: buf_read_def)
  then show ?thesis
    using one_record_event [OF assms(1) writes_then [OF writes_format writes_hex], of AUDIT_SOCKADDR "ascii ''saddr=''" "take (sockaddr_len c) buf"]
      False b(1) by (simp add: log_sockaddr_def split_def Let_def)
qed

lemma parts_event:
  assumes "P hs B w" and "call_data_ok X c"
  shows "ok (do {
     w \<leftarrow> log_aux X (map snd (aux c)) w;
     (p1, w) \<leftarrow> (if special c \<noteq> 0 then show_special X c w else Some (False, w));
     w \<leftarrow> (if fst (fds c) \<ge> 0 then one_record X AUDIT_FD_PAIR
             (audit_log_format (log_side X) (ascii ''fd0='' @ signed_dec (fst (fds c)) @ ascii '' fd1='' @ signed_dec (snd (fds c)))) w else Some w);
     w \<leftarrow> log_sockaddr X c w;
     Some (p1, w) }) (\<lambda>(p1, w'). \<exists>k. P (hs @ map (\<lambda>x. (AUDIT_BPRM_FCAPS, {bprm_text x})) (map snd (aux c)) @
       (if special c \<noteq> 0 then special_records X c k else []) @
       (if fst (fds c) \<ge> 0 then [(AUDIT_FD_PAIR, {ascii ''fd0='' @ signed_dec (fst (fds c)) @ ascii '' fd1='' @ signed_dec (snd (fds c))})] else []) @
       (if sockaddr_len c \<noteq> 0 then [(AUDIT_SOCKADDR, {ascii ''saddr='' @ hex_text (take (sockaddr_len c) (snd (the (sockaddr c))))})] else [])) B w')"
proof -
  let ?a = "map (\<lambda>x. (AUDIT_BPRM_FCAPS, {bprm_text x})) (map snd (aux c))"
  let ?fd = "ascii ''fd0='' @ signed_dec (fst (fds c)) @ ascii '' fd1='' @ signed_dec (snd (fds c))"
  from log_aux_event [OF assms(1), of "map snd (aux c)"] obtain w1 where 1: "log_aux X (map snd (aux c)) w = Some w1" and p1: "P (hs @ ?a) B w1"
    by (auto elim!: okE)
  have "ok (if special c \<noteq> 0 then show_special X c w1 else Some (False, w1)) (\<lambda>(b, w'). \<exists>k. P ((hs @ ?a) @ (if special c \<noteq> 0 then special_records X c k else [])) B w')"
    using show_special_event [OF p1, of c] p1 assms(2) by (auto simp: call_data_ok_def)
  then obtain b w2 k where 2: "(if special c \<noteq> 0 then show_special X c w1 else Some (False, w1)) = Some (b, w2)"
    and p2: "P ((hs @ ?a) @ (if special c \<noteq> 0 then special_records X c k else [])) B w2" by (auto elim!: okE simp del: append_assoc)
  have "ok (if fst (fds c) \<ge> 0 then one_record X AUDIT_FD_PAIR (audit_log_format (log_side X) ?fd) w2 else Some w2)
      (P (((hs @ ?a) @ (if special c \<noteq> 0 then special_records X c k else [])) @ (if fst (fds c) \<ge> 0 then [(AUDIT_FD_PAIR, {?fd})] else [])) B)"
    using one_record_event [OF p2 writes_format, of AUDIT_FD_PAIR ?fd] p2 by simp
  then obtain w3 where 3: "(if fst (fds c) \<ge> 0 then one_record X AUDIT_FD_PAIR (audit_log_format (log_side X) ?fd) w2 else Some w2) = Some w3"
    and p3: "P (((hs @ ?a) @ (if special c \<noteq> 0 then special_records X c k else [])) @ (if fst (fds c) \<ge> 0 then [(AUDIT_FD_PAIR, {?fd})] else [])) B w3"
    by (auto elim!: okE simp del: append_assoc)
  from sockaddr_event [OF p3 assms(2)] show ?thesis
    by (simp only: 1 2 3 Option.bind.bind_lunit prod.case) (auto simp: ok_bind intro!: exI [of _ k] elim!: ok_mono)
qed

lemma rest_event:
  assumes "P hs (B + title_ids c) w" and "call_data_ok X c"
  shows "ok (do {
     (p2, w) \<leftarrow> log_targets X (concat (map snd (aux_pids c))) p1 w;
     (p3, w) \<leftarrow> (if tg_pid (target c) \<noteq> 0 then log_targets X [target c] p2 w else Some (p2, w));
     w \<leftarrow> (case pwd c of None \<Rightarrow> Some w | Some p \<Rightarrow> one_record X AUDIT_CWD (audit_log_d_path (log_side X) (Some (ascii '' cwd='')) p) w);
     (p4, w) \<leftarrow> log_names X (case pwd c of None \<Rightarrow> None | Some p \<Rightarrow> p) 0 (map snd (entries c)) p3 w;
     (c, w) \<leftarrow> audit_log_proctitle X c w;
     w \<leftarrow> one_record X AUDIT_EOE (\<lambda>ab w. Some (ab, w)) w;
     w \<leftarrow> (if p4 then audit_panic w else Some w);
     Some (c, w) }) (\<lambda>(c', w'). P (hs @
       map (target_record X) (concat (map snd (aux_pids c)) @ (if tg_pid (target c) \<noteq> 0 then [target c] else [])) @
       (case pwd c of None \<Rightarrow> [] | Some p \<Rightarrow> [(AUDIT_CWD, {ascii '' cwd='' @ path_text p})]) @
       name_records X (case pwd c of None \<Rightarrow> None | Some p \<Rightarrow> p) 0 (map snd (entries c)) @
       [(AUDIT_PROCTITLE, {ascii ''proctitle='' @ untrusted_text (title X c)}), (AUDIT_EOE, {[]})]) (B + title_ids c') w' \<and>
     c' = c\<lparr>proctitle := proctitle c'\<rparr>)"
proof -
  let ?B = "B + title_ids c" and ?d = "case pwd c of None \<Rightarrow> None | Some p \<Rightarrow> p"
  let ?h1 = "hs @ map (target_record X) (concat (map snd (aux_pids c)))"
  let ?h2 = "?h1 @ map (target_record X) (if tg_pid (target c) \<noteq> 0 then [target c] else [])"
  let ?h3 = "?h2 @ (case pwd c of None \<Rightarrow> [] | Some p \<Rightarrow> [(AUDIT_CWD, {ascii '' cwd='' @ path_text p})])"
  let ?h4 = "?h3 @ name_records X ?d 0 (map snd (entries c))"
  from log_targets_event [OF assms(1), of "concat (map snd (aux_pids c))" p1] obtain p2 w1
    where 1: "log_targets X (concat (map snd (aux_pids c))) p1 w = Some (p2, w1)" and P1: "P ?h1 ?B w1" by (auto elim!: okE)
  have "ok (if tg_pid (target c) \<noteq> 0 then log_targets X [target c] p2 w1 else Some (p2, w1)) (\<lambda>(b, w'). P ?h2 ?B w')"
    using log_targets_event [OF P1, of "[target c]" p2] P1 by (simp del: log_targets.simps)
  then obtain p3 w2 where 2: "(if tg_pid (target c) \<noteq> 0 then log_targets X [target c] p2 w1 else Some (p2, w1)) = Some (p3, w2)" and P2: "P ?h2 ?B w2"
    by (blast elim!: okE)
  have "ok (case pwd c of None \<Rightarrow> Some w2 | Some p \<Rightarrow> one_record X AUDIT_CWD (audit_log_d_path (log_side X) (Some (ascii '' cwd='')) p) w2) (P ?h3 ?B)"
    using one_record_event [OF P2 writes_d_path, of AUDIT_CWD "ascii '' cwd=''"] P2 by (cases "pwd c") (simp_all del: append_assoc)
  then obtain w3 where 3: "(case pwd c of None \<Rightarrow> Some w2 | Some p \<Rightarrow> one_record X AUDIT_CWD (audit_log_d_path (log_side X) (Some (ascii '' cwd='')) p) w2) = Some w3"
    and P3: "P ?h3 ?B w3" by (blast elim!: okE)
  from log_names_event [OF P3, of "map snd (entries c)" ?d 0 p3] assms(2) obtain p4 w4
    where 4: "log_names X ?d 0 (map snd (entries c)) p3 w3 = Some (p4, w4)" and P4: "P ?h4 ?B w4"
    unfolding call_data_ok_def by (blast elim!: okE)
  from proctitle_event [OF P4] obtain c' w5 where 5: "audit_log_proctitle X c w4 = Some (c', w5)"
    and P5: "P (?h4 @ [(AUDIT_PROCTITLE, {ascii ''proctitle='' @ untrusted_text (title X c)})]) (B + title_ids c') w5"
    and c': "c' = c\<lparr>proctitle := proctitle c'\<rparr>" by (blast elim!: okE)
  from one_record_event [OF P5 writes_nothing, of AUDIT_EOE] obtain w6 where 6: "one_record X AUDIT_EOE (\<lambda>ab w. Some (ab, w)) w5 = Some w6"
    and P6: "P ((?h4 @ [(AUDIT_PROCTITLE, {ascii ''proctitle='' @ untrusted_text (title X c)})]) @ [(AUDIT_EOE, {[]})]) (B + title_ids c') w6"
    by (blast elim!: okE)
  have 7: "(if p4 then audit_panic w6 else Some w6) = Some w6" using ok_panic [OF calm_P [OF P6]] by simp
  from P6 c' show ?thesis by (simp only: 1 2 3 4 5 6 7 Option.bind.bind_lunit prod.case ok_Some) (simp add: append_assoc)
qed

lemma log_exit_event:
  assumes "P hs (B + title_ids c) w" and "call_data_ok X c"
  shows "ok (audit_log_exit X t c w) (\<lambda>(c', w'). \<exists>k. P (hs @ call_records X t c k) (B + title_ids c') w' \<and>
    c' = c\<lparr>personality := t_personality t, proctitle := proctitle c'\<rparr>)"
proof -
  define d where "d = c\<lparr>personality := t_personality t\<rparr>"
  have d: "aux d = aux c" "special d = special c" "data d = data c" "fds d = fds c" "sockaddr d = sockaddr c" "sockaddr_len d = sockaddr_len c"
    "aux_pids d = aux_pids c" "target d = target c" "pwd d = pwd c" "entries d = entries c" "title X d = title X c" "title_ids d = title_ids c"
    "special_records X d = special_records X c" "call_data_ok X d"
    using assms(2) by (simp_all add: d_def title_def title_ids_def special_records_def fun_eq_iff call_data_ok_def kind_fits_def
      split: special_data.splits)
  have P: "P hs (B + title_ids d) w" using assms(1) d by simp
  let ?s = "syscall_texts (log_side X) (task.truncate t) d"
  from start [OF P, of AUDIT_SYSCALL] obtain ab w1
    where 1: "audit_log_start (log_side X) (event_stamp X) True AUDIT_SYSCALL w = Some (ab, w1)"
      and s: "if ab = None then \<not> sure \<and> P hs (B + title_ids d) w1 else R hs AUDIT_SYSCALL {[]} (B + title_ids d) ab w1" by (auto elim!: okE)
  show ?thesis
  proof (cases "ab = None")
    case True
    then show ?thesis using 1 s unsure [of hs "B + title_ids d" w1] d by (simp add: audit_log_exit_def d_def Let_def)
  next
    case False
    then have r: "R hs AUDIT_SYSCALL {[]} (B + title_ids d) ab w1" using s by simp
    from put [OF r writes_syscall, of "task.truncate t" d] obtain ab2 w2
      where 2: "syscall_fields (log_side X) (task.truncate t) d ab w1 = Some (ab2, w2)"
        and r2: "R hs AUDIT_SYSCALL ?s (B + title_ids d) ab2 w2" by (auto elim!: okE)
    from finish [OF r2] obtain w3 where 3: "audit_log_end (log_side X) ab2 w2 = Some w3" and p3: "P (hs @ [(AUDIT_SYSCALL, ?s)]) (B + title_ids d) w3"
      by (auto elim!: okE)
    from parts_event [OF p3 d(14)] obtain p1 w4 k where 4: "do {
         w \<leftarrow> log_aux X (map snd (aux d)) w3;
         (p1, w) \<leftarrow> (if special d \<noteq> 0 then show_special X d w else Some (False, w));
         w \<leftarrow> (if fst (fds d) \<ge> 0 then one_record X AUDIT_FD_PAIR
                 (audit_log_format (log_side X) (ascii ''fd0='' @ signed_dec (fst (fds d)) @ ascii '' fd1='' @ signed_dec (snd (fds d)))) w else Some w);
         w \<leftarrow> log_sockaddr X d w;
         Some (p1, w) } = Some (p1, w4)"
      and p4: "P ((hs @ [(AUDIT_SYSCALL, ?s)]) @ map (\<lambda>x. (AUDIT_BPRM_FCAPS, {bprm_text x})) (map snd (aux d)) @
       (if special d \<noteq> 0 then special_records X d k else []) @
       (if fst (fds d) \<ge> 0 then [(AUDIT_FD_PAIR, {ascii ''fd0='' @ signed_dec (fst (fds d)) @ ascii '' fd1='' @ signed_dec (snd (fds d))})] else []) @
       (if sockaddr_len d \<noteq> 0 then [(AUDIT_SOCKADDR, {ascii ''saddr='' @ hex_text (take (sockaddr_len d) (snd (the (sockaddr d))))})] else []))
       (B + title_ids d) w4" by (blast elim!: okE)
    obtain a where a: "ab = Some a" using False by blast
    show ?thesis using rest_event [OF p4 d(14), of p1] 1 2 3 4
      by (auto simp: a audit_log_exit_def d_def [symmetric] Let_def bind_eq_Some_conv call_records_def d elim!: ok_mono intro!: exI [of _ k]
          simp del: log_targets.simps)
  qed
qed

end

section \<open>Whatever happens\<close>

interpretation any_log: event_client X "\<lambda>hs B w. quiet_stamp (event_stamp X) \<and> pool_ok (log_side X) B w"
    "\<lambda>hs ty T B ab w. quiet_stamp (event_stamp X) \<and> rec_ok (log_side X) B ab w \<and> ab \<noteq> None" False
  for X :: exit_env
proof (standard, goal_cases)
  case (1 hs B w ty)
  then have "ok (audit_log_start (log_side X) (event_stamp X) True ty w) (\<lambda>(ab, w'). rec_ok (log_side X) B ab w')" by (intro start_rec) simp_all
  then show ?case by (rule ok_mono) (use 1 in \<open>auto simp: rec_ok_def opt_ids_def\<close>)
next
  case (2 hs ty T B ab w)
  then have "ok (audit_log_end (log_side X) ab w) (pool_ok (log_side X) B)" by (intro end_rec) simp
  then show ?case by (rule ok_mono) (use 2 in simp)
next
  case (3 hs ty T B ab w U g)
  then have "ok (g ab w) (\<lambda>(ab', w'). wrote (log_side X) B U ab w ab' w')" by (intro writesD) simp_all
  then show ?case by (rule ok_mono) (use 3 in \<open>auto simp: wrote_def\<close>)
next
  case (4 hs ty T B ab w U b)
  then have "ok (b ab w) (\<lambda>(c, ab', w'). wrote (log_side X) B U ab w ab' w')" by (intro tellsD) simp_all
  then show ?case by (rule ok_mono) (use 4 in \<open>auto simp: wrote_def\<close>)
next
  case (5 hs ty T B ab w n m w')
  then show ?case by (auto simp: kmalloc_def rec_ok_def pool_ok_def owned_def no_panic_def Let_def split: if_splits)
next
  case (6 hs ty T B k ab w)
  then have "rec_ok (log_side X) (B + {#k#}) ab w" by simp
  from kfree_rec [OF this] show ?case by (rule ok_mono) (use 6 in simp)
next
  case (7 hs B ab w p argc)
  then have "ok (audit_log_execve_info (log_side X) (event_stamp X) p argc ab w) (\<lambda>(ab', w'). rec_ok (log_side X) B ab' w')"
    by (intro execve_info_rec) simp_all
  then show ?case by (rule ok_mono) (use 7 in \<open>auto simp: rec_ok_def opt_ids_def\<close>)
qed (auto dest: no_panic_pool)

section \<open>When nothing is lost\<close>

text \<open>A record of the event: its type, the stamp of the call, and one of the texts it may have.\<close>

definition record_says :: "nat \<times> nat \<times> u32 \<Rightarrow> record_spec \<Rightarrow> skb \<Rightarrow> bool" where
  "record_says s0 h s \<longleftrightarrow> sk_type s = fst h \<and> (\<exists>t \<in> snd h. sk_text s = stamp_text s0 @ t)"

definition calm_event :: "exit_env \<Rightarrow> nat \<times> nat \<times> u32 \<Rightarrow> exec_world \<Rightarrow> bool" where
  "calm_event X s0 w \<longleftrightarrow> quiet_stamp (event_stamp X) \<and> (\<forall>u. fst (event_stamp X u) = s0) \<and> (\<forall>ty. steady (log_side X) ty w)"

definition event_at :: "exit_env \<Rightarrow> nat \<times> nat \<times> u32 \<Rightarrow> skb list \<Rightarrow> record_spec list \<Rightarrow> nat multiset \<Rightarrow> exec_world \<Rightarrow> bool" where
  "event_at X s0 q0 hs B w \<longleftrightarrow> calm_event X s0 w \<and> pool_ok (log_side X) B w \<and> (\<exists>qs. skb_queue w = q0 @ qs \<and> list_all2 (record_says s0) hs qs)"

definition event_open :: "exit_env \<Rightarrow> nat \<times> nat \<times> u32 \<Rightarrow> skb list \<Rightarrow> record_spec list \<Rightarrow> nat \<Rightarrow> byte list set \<Rightarrow> nat multiset \<Rightarrow>
    abuf option \<Rightarrow> exec_world \<Rightarrow> bool" where
  "event_open X s0 q0 hs ty T B ab w \<longleftrightarrow> calm_event X s0 w \<and> rec_ok (log_side X) B ab w \<and>
     (\<exists>a s qs. ab = Some a \<and> ab_skb a = Some s \<and> skb_queue w = q0 @ qs \<and> list_all2 (record_says s0) hs qs \<and> record_says s0 (ty, T) s)"

lemma steady_any: "\<forall>ty. steady A ty w \<Longrightarrow> steady A ty w' \<Longrightarrow> steady A ty' w'"
  by (simp add: steady_def)

lemma event_start:
  assumes "event_at X s0 q0 hs B w"
  shows "ok (audit_log_start (log_side X) (event_stamp X) True ty w) (\<lambda>(ab, w'). event_open X s0 q0 hs ty {[]} B ab w')"
proof -
  have c: "calm_event X s0 w" and p: "pool_ok (log_side X) B w" using assms by (simp_all add: event_at_def)
  have q: "quiet_stamp (event_stamp X)" and f: "\<And>u. fst (event_stamp X u) = s0" and st: "steady (log_side X) ty' w" for ty'
    using c by (simp_all add: calm_event_def)
  from audit_log_start_ok [OF p q, of True ty] obtain ab w' where 1: "audit_log_start (log_side X) (event_stamp X) True ty w = Some (ab, w')"
    and g: "started (log_side X) B ty (audit_initialized w \<and> \<not> filter_type (log_side X) ty) w (ab, w')" by (auto elim!: okE)
  from log_start_stamped [OF st no_panic_pool [OF p] q 1] obtain a s where a: "ab = Some a" "ab_skb a = Some s" "sk_text s = stamp_text s0"
    and w': "skb_queue w' = skb_queue w" "steady (log_side X) ty w'" by (auto simp: f)
  have "sk_type s = ty" "pool_ok (log_side X) (B + buf_ids a) w'" using g a by (auto simp: started_def)
  moreover have "calm_event X s0 w'" using c steady_any [OF allI [OF st] w'(2)] by (simp add: calm_event_def)
  ultimately show ?thesis using 1 a w'(1) assms
    by (auto simp: event_open_def event_at_def rec_ok_def opt_ids_def record_says_def)
qed

lemma event_end:
  assumes "event_open X s0 q0 hs ty T B ab w"
  shows "ok (audit_log_end (log_side X) ab w) (event_at X s0 q0 (hs @ [(ty, T)]) B)"
proof -
  from assms obtain a s qs where c: "calm_event X s0 w" and r: "rec_ok (log_side X) B ab w" and a: "ab = Some a" "ab_skb a = Some s"
    and qs: "skb_queue w = q0 @ qs" "list_all2 (record_says s0) hs qs" "record_says s0 (ty, T) s" by (auto simp: event_open_def)
  from end_rec [OF r] obtain w' where 1: "audit_log_end (log_side X) ab w = Some w'" and p: "pool_ok (log_side X) B w'" by (auto elim!: okE)
  have st: "steady (log_side X) ty' w" for ty' using c by (simp add: calm_event_def)
  from log_end_steady [OF 1 [unfolded a(1)] a(2) st, of ty] have "skb_queue w' = skb_queue w @ [s]" "steady (log_side X) ty w'" by auto
  then have "calm_event X s0 w'" "skb_queue w' = q0 @ (qs @ [s])" "list_all2 (record_says s0) (hs @ [(ty, T)]) (qs @ [s])"
    using c qs steady_any [OF allI [OF st]] by (auto simp: calm_event_def list_all2_appendI)
  then show ?thesis using 1 p by (auto simp: event_at_def)
qed

lemma event_wrote:
  assumes "event_open X s0 q0 hs ty T B ab w" and "wrote (log_side X) B U ab w ab' w'"
  shows "event_open X s0 q0 hs ty (followed T U) B ab' w'"
proof -
  from assms(1) obtain a s qs where c: "calm_event X s0 w" and a: "ab = Some a" "ab_skb a = Some s"
    and qs: "skb_queue w = q0 @ qs" "list_all2 (record_says s0) hs qs" "record_says s0 (ty, T) s" by (auto simp: event_open_def)
  have f: "log_frame w w'" and r: "rec_ok (log_side X) B ab' w'" and "ab' \<noteq> None" and ty: "rec_type ab' = rec_type ab"
    and t: "(\<forall>n. \<not> kfail w n) \<longrightarrow> (\<exists>t \<in> U. rec_text ab' = rec_text ab @ t)" using assms(2) by (simp_all add: wrote_def)
  from r \<open>ab' \<noteq> None\<close> obtain a' s' where a': "ab' = Some a'" "ab_skb a' = Some s'" by (auto simp: rec_ok_def)
  have "\<exists>t \<in> U. sk_text s' = sk_text s @ t" "sk_type s' = sk_type s"
    using t ty c a a' by (auto simp: calm_event_def steady_def rec_text_def rec_type_def)
  then have "record_says s0 (ty, followed T U) s'" using qs(3) by (auto simp: record_says_def followed_def) blast
  moreover have "calm_event X s0 w'" using c by (simp add: calm_event_def frame_steady [OF f])
  ultimately show ?thesis using r a' qs log_frame_fields(3) [OF f] by (auto simp: event_open_def)
qed

lemma record_says_mono: "record_says s0 (ty, T) s \<Longrightarrow> T \<subseteq> T' \<Longrightarrow> record_says s0 (ty, T') s"
  by (auto simp: record_says_def)

lemma event_alloc:
  assumes "event_open X s0 q0 hs ty T B ab w" and "kmalloc n w = (m, w')"
  shows "\<exists>k bs. m = Some (k, bs) \<and> length bs = n \<and> event_open X s0 q0 hs ty T (B + {#k#}) ab w'"
  using assms
  by (auto simp: event_open_def calm_event_def kmalloc_def rec_ok_def pool_ok_def owned_def no_panic_def steady_def Let_def split: if_splits)

lemma event_free:
  assumes "event_open X s0 q0 hs ty T (B + {#k#}) ab w"
  shows "ok (kfree k w) (event_open X s0 q0 hs ty T B ab)"
proof -
  have "rec_ok (log_side X) (B + {#k#}) ab w" using assms by (simp add: event_open_def)
  from kfree_rec [OF this] show ?thesis by (rule ok_mono) (use assms in \<open>auto simp: event_open_def calm_event_def steady_def\<close>)
qed

text \<open>The arguments of \<open>execve\<close> fill one record or more.\<close>

definition exec_open :: "exit_env \<Rightarrow> nat \<times> nat \<times> u32 \<Rightarrow> skb list \<Rightarrow> record_spec list \<Rightarrow> nat multiset \<Rightarrow> abuf option \<Rightarrow> exec_world \<Rightarrow> bool" where
  "exec_open X s0 q0 hs B ab w \<longleftrightarrow> (\<exists>k. event_open X s0 q0 (hs @ replicate k (AUDIT_EXECVE, UNIV)) AUDIT_EXECVE UNIV B ab w)"

lemma event_open_mono: "event_open X s0 q0 hs ty T B ab w \<Longrightarrow> T \<subseteq> T' \<Longrightarrow> event_open X s0 q0 hs ty T' B ab w"
  by (auto simp: event_open_def record_says_def)

lemma exec_put:
  assumes "exec_open X s0 q0 hs B ab w" and "writes (log_side X) U g"
  shows "ok (g ab w) (\<lambda>(ab', w'). exec_open X s0 q0 hs B ab' w' \<and> same_user w w')"
proof -
  from assms(1) obtain k where k: "event_open X s0 q0 (hs @ replicate k (AUDIT_EXECVE, UNIV)) AUDIT_EXECVE UNIV B ab w"
    by (auto simp: exec_open_def)
  then have "rec_ok (log_side X) B ab w" and "ab \<noteq> None" by (auto simp: event_open_def)
  from writesD [OF assms(2) this] show ?thesis
  proof (rule ok_mono, clarify)
    fix ab' w' assume w: "wrote (log_side X) B U ab w ab' w'"
    from event_open_mono [OF event_wrote [OF k w], of UNIV] w
    show "exec_open X s0 q0 hs B ab' w' \<and> same_user w w'" by (auto simp: exec_open_def wrote_def frame_same_user)
  qed
qed

lemma exec_room:
  assumes "exec_open X s0 q0 hs B ab w"
  shows "ok (make_room (log_side X) (event_stamp X) a n ls ab w) (\<lambda>(ls', ab', go, w'). exec_open X s0 q0 hs B ab' w' \<and> go \<and> same_user w w')"
proof -
  from assms obtain k where k: "event_open X s0 q0 (hs @ replicate k (AUDIT_EXECVE, UNIV)) AUDIT_EXECVE UNIV B ab w"
    by (auto simp: exec_open_def)
  then have q: "quiet_stamp (event_stamp X)" by (simp add: event_open_def calm_event_def)
  from event_end [OF k] obtain w1 where 1: "audit_log_end (log_side X) ab w = Some w1"
    and e1: "event_at X s0 q0 (hs @ replicate (Suc k) (AUDIT_EXECVE, UNIV)) B w1" by (auto simp: replicate_append_same elim!: okE)
  from event_start [OF e1, of AUDIT_EXECVE] obtain ab2 w2 where 2: "audit_log_start (log_side X) (event_stamp X) True AUDIT_EXECVE w1 = Some (ab2, w2)"
    and e2: "event_open X s0 q0 (hs @ replicate (Suc k) (AUDIT_EXECVE, UNIV)) AUDIT_EXECVE {[]} B ab2 w2" by (blast elim!: okE)
  have o: "exec_open X s0 q0 hs B ab2 w2" and n: "ab2 \<noteq> None"
    using event_open_mono [OF e2] e2 unfolding exec_open_def by (blast, auto simp: event_open_def)
  obtain r where m: "make_room (log_side X) (event_stamp X) a n ls ab w = Some r"
    and r: "case r of (ls', ab', go, w') \<Rightarrow> exec_open X s0 q0 hs B ab' w' \<and> go"
    using 1 2 o n assms by (cases "int MAX_EXECVE_AUDIT_LEN - int (arg_num_len a) - int ls - int (sent_size a n) < 0") (auto simp: make_room_def Let_def)
  then show ?thesis using make_room_user [OF q] by (cases r) auto
qed

interpretation exec_event: exec_client "log_side X" "event_stamp X" "\<lambda>T. exec_open X s0 q0 hs B" "exec_open X s0 q0 hs B" True
  for X s0 q0 hs B
proof (standard, goal_cases)
  case (1 T ab w t)
  from exec_put [OF 1 writes_format] show ?case .
next
  case (2 T ab w t)
  from exec_put [OF 2 writes_hex] show ?case .
next
  case (3 T ab w t)
  from exec_put [OF 3 writes_string] show ?case .
next
  case (4 T ab w a n ls)
  from exec_room [OF 4] show ?case by (rule ok_mono) auto
qed (auto simp: exec_open_def event_open_def calm_event_def steady_def kill_task_def rec_ok_def pool_ok_def owned_def no_panic_def)

lemma exec_info_event:
  assumes "event_open X s0 q0 hs AUDIT_EXECVE {[]} B ab w"
  shows "ok (audit_log_execve_info (log_side X) (event_stamp X) p argc ab w) (\<lambda>(ab', w'). exec_open X s0 q0 hs B ab' w')"
proof -
  have "event_open X s0 q0 (hs @ replicate 0 (AUDIT_EXECVE, UNIV)) AUDIT_EXECVE UNIV B ab w"
    using event_open_mono [OF assms, of UNIV] by simp
  then have e: "exec_open X s0 q0 hs B ab w" unfolding exec_open_def by blast
  from exec_put [OF e writes_format, of "ascii ''argc='' @ dec argc"] obtain ab1 w1
    where 1: "audit_log_format (log_side X) (ascii ''argc='' @ dec argc) ab w = Some (ab1, w1)" and e1: "exec_open X s0 q0 hs B ab1 w1"
    by (auto elim!: okE)
  obtain m w2 where m: "kmalloc (MAX_EXECVE_AUDIT_LEN + 1) w1 = (m, w2)" by (metis prod.exhaust)
  from e1 event_alloc [OF _ m] obtain i buf where b: "m = Some (i, buf)" "length buf = Suc MAX_EXECVE_AUDIT_LEN"
    and e2: "exec_open X s0 q0 hs (B + {#i#}) ab1 w2" unfolding exec_open_def by fastforce
  from exec_event.log_args_any [OF e2 b(2), of argc 0 0 p] obtain ab3 w3
    where 3: "log_args argc (log_side X) (event_stamp X) 0 0 p buf ab1 w2 = Some (ab3, w3)" and e3: "exec_open X s0 q0 hs (B + {#i#}) ab3 w3"
    by (auto elim!: okE)
  from e3 event_free obtain w4 where "kfree i w3 = Some w4" "exec_open X s0 q0 hs B ab3 w4"
    unfolding exec_open_def by (blast elim!: okE)
  then show ?thesis using 1 m b 3 by (simp add: audit_log_execve_info_def)
qed

interpretation full_log: event_client X "event_at X s0 q0" "event_open X s0 q0" True
  for X s0 q0
proof (standard, goal_cases)
  case (1 hs B w ty)
  from event_start [OF 1] show ?case by (rule ok_mono) (auto simp: event_open_def)
next
  case (2 hs ty T B ab w)
  then show ?case by (rule event_end)
next
  case (3 hs ty T B ab w U g)
  then have "ok (g ab w) (\<lambda>(ab', w'). wrote (log_side X) B U ab w ab' w')" by (intro writesD) (auto simp: event_open_def)
  then show ?case by (rule ok_mono) (use event_wrote [OF 3(1)] in auto)
next
  case (4 hs ty T B ab w U b)
  then have "ok (b ab w) (\<lambda>(c, ab', w'). wrote (log_side X) B U ab w ab' w')" by (intro tellsD) (auto simp: event_open_def)
  then show ?case by (rule ok_mono) (use event_wrote [OF 4(1)] in auto)
next
  case (5 hs ty T B ab w n m w')
  from event_alloc [OF this] show ?case by auto
next
  case (6 hs ty T B k ab w)
  then show ?case by (rule event_free)
next
  case (7 hs B ab w p argc)
  from exec_info_event [OF 7] show ?case by (rule ok_mono) (auto simp: exec_open_def event_open_def)
qed (auto simp: event_open_def event_at_def dest: no_panic_pool)

section \<open>The end of a call\<close>

text \<open>
  C40: writing the event of a call always returns, never faults and leaks nothing. Whatever memory, the daemon, the security
  module and, for \<open>execve\<close>, other threads do, \<open>audit_log_exit\<close> leaves the log in order: no buffer is left, and the only
  object kept is the title of the process, which the context owns.
\<close>

theorem audit_log_exit_safe:
  assumes "quiet_stamp (event_stamp X)" and "pool_ok (log_side X) (B + title_ids c) w" and "call_data_ok X c"
  shows "ok (audit_log_exit X t c w) (\<lambda>(c', w'). pool_ok (log_side X) (B + title_ids c') w' \<and>
    c' = c\<lparr>personality := t_personality t, proctitle := proctitle c'\<rparr>)"
  by (rule ok_mono [OF any_log.log_exit_event [where X = X and B = B and c = c and w = w and t = t]]) (use assms in auto)


lemma records_types: "list_all2 (record_says s0) hs qs \<Longrightarrow> map sk_type qs = map fst hs"
  by (induction rule: list_all2_induct) (simp_all add: record_says_def)

text \<open>A task that runs a program whose argument another thread changes; its first name is hidden.\<close>

definition exit_demo :: exit_env where
  "exit_demo = \<lparr>log_side = calm_env, event_stamp = (\<lambda>w. ((1, 2, 3), w)), cmdline = ascii ''ls'' @ [0, 7], isprint = (\<lambda>b. b \<ge> 32 \<and> b < 127),
     arg_start = 4096, name_text = (\<lambda>_. ascii ''/bin/ls'')\<rparr>"

definition exit_call :: call_ctx where
  "exit_call = syscall_ctx.extend (demo_call\<lparr>special := AUDIT_EXECVE, pwd := Some (Some (ascii ''/'')),
       entries := [(Pre 0, some_file\<lparr>n_hidden := True\<rparr>), (Pre 1, some_file)], name_count := 2\<rparr>)
     (call_ctx.fields 1 False 3 (1, 2) 0 (- 1, 0) (Execve 1) zero_target [] [] None 0 None [])"

lemma exit_call_fields: "special exit_call = AUDIT_EXECVE" "pwd exit_call = Some (Some (ascii ''/''))"
  "entries exit_call = [(Pre 0, some_file\<lparr>n_hidden := True\<rparr>), (Pre 1, some_file)]" "fds exit_call = (- 1, 0)" "data exit_call = Execve 1"
  "target exit_call = zero_target" "aux exit_call = []" "aux_pids exit_call = []" "sockaddr_len exit_call = 0" "proctitle exit_call = None"
  by (simp_all add: exit_call_def syscall_ctx.defs call_ctx.defs)

lemma exit_call_ok: "call_data_ok exit_demo exit_call" "title_ids exit_call = {#}"
  by (simp_all add: call_data_ok_def kind_fits_def exit_call_fields title_ids_def name_ok_def some_file_def)

lemma exit_demo_ok: "quiet_stamp (event_stamp exit_demo)" "fst (event_stamp exit_demo u) = (1, 2, 3)" "log_side exit_demo = calm_env"
  by (simp_all add: exit_demo_def quiet_stamp_def same_settings_def)

lemma calm_exec_ok: "pool_ok calm_env {#} (calm_exec m)" "steady calm_env ty (calm_exec m)" "skb_queue (calm_exec m) = []"
  by (simp_all add: pool_ok_def owned_def no_panic_def steady_def calm_env_def calm_exec_def audit_world.extend_def calm_world_def)

theorem audit_log_exit_safe_witness:
  "ok (audit_log_exit exit_demo demo_task exit_call (calm_exec replaced_arg)) (\<lambda>(c', w'). pool_ok calm_env (title_ids c') w')"
  using audit_log_exit_safe [OF exit_demo_ok(1) _ exit_call_ok(1), of "{#}" "calm_exec replaced_arg" demo_task]
  by (auto simp: exit_demo_ok exit_call_ok(2) calm_exec_ok elim!: ok_mono)


section \<open>Core dumps and seccomp\<close>

definition abend_texts :: "audit_env \<Rightarrow> task \<Rightarrow> byte list set" where
  "abend_texts A t = {ascii ''auid='' @ udec (cur_auid A) @ ascii '' uid='' @ udec (tk_uid t) @ ascii '' gid='' @ udec (tk_gid t) @
     ascii '' ses='' @ udec (cur_ses A) @ s @ ascii '' pid='' @ signed_dec (tk_pid t) @ ascii '' comm='' @ untrusted_text (tk_comm t) @
     exe_text (tk_exe t) | s. s \<in> subject_texts A}"

lemma writes_task: "writes A (abend_texts A t) (audit_log_task A t :: abuf option \<Rightarrow> 'z aw \<Rightarrow> _)"
proof -
  let ?h = "ascii ''auid='' @ udec (cur_auid A) @ ascii '' uid='' @ udec (tk_uid t) @ ascii '' gid='' @ udec (tk_gid t) @ ascii '' ses='' @ udec (cur_ses A)"
  let ?p = "ascii '' pid='' @ signed_dec (tk_pid t) @ ascii '' comm=''"
  have "followed {?h} (followed (subject_texts A) (followed {?p @ untrusted_text (tk_comm t)} {exe_text (tk_exe t)})) = abend_texts A t"
    by (auto simp: followed_def abend_texts_def)
  moreover note writes_then [OF writes_format writes_then [OF writes_subject writes_then [OF writes_field writes_exe]], of A ?h ?p "tk_comm t" "tk_exe t"]
  ultimately have "writes A (abend_texts A t) (\<lambda>ab (w :: 'z aw). do { (ab, w) \<leftarrow> audit_log_format A ?h ab w;
      (ab, w) \<leftarrow> (do { (_, ab, w) \<leftarrow> audit_log_task_context A ab w; Some (ab, w) });
      (ab, w) \<leftarrow> (do { (ab, w) \<leftarrow> audit_log_format A ?p ab w; audit_log_n_untrustedstring A (tk_comm t) ab w });
      audit_log_d_path_exe A (tk_exe t) ab w })" by simp
  then show ?thesis by (rule writes_cong) (simp add: audit_log_task_def split_def)
qed

lemma quiet_outside: "quiet_stamp (event_stamp (outside X))" and log_side_outside [simp]: "log_side (outside X) = log_side X"
  by (simp_all add: outside_def quiet_fresh_stamp)

lemma abend_ok:
  assumes "pool_ok (log_side X) B w"
  shows "ok (audit_core_dumps X enabled t signr w) (pool_ok (log_side X) B)"
    and "ok (audit_seccomp X t a cpt ip syscall signr code w) (pool_ok (log_side X) B)"
proof -
  have r: "ok (one_record (outside X) ty (\<lambda>ab w. do { (ab, w) \<leftarrow> audit_log_task (log_side X) t ab w; audit_log_format (log_side X) u ab w }) w) (pool_ok (log_side X) B)"
    for ty u
    by (rule ok_mono [OF any_log.one_record_event [where X = "outside X" and B = B and U = "followed (abend_texts (log_side X) t) {u}"]])
      (use assms quiet_outside writes_then [OF writes_task writes_format] in auto)
  show "ok (audit_core_dumps X enabled t signr w) (pool_ok (log_side X) B)" using r assms by (simp add: audit_core_dumps_def)
  show "ok (audit_seccomp X t a cpt ip syscall signr code w) (pool_ok (log_side X) B)" using r by (simp add: audit_seccomp_def)
qed

end
